(* ===== verification/P8_Prelude.thy ===== *)
theory P8_Prelude
  imports Main "HOL-Library.Word" "HOL-Library.Monad_Syntax" "HOL-Library.Multiset"
begin

text \<open>
  Shared vocabulary of the development: machine integers, C strings, little-endian byte
  codes, the bytes of the 8 KB buffers, 8-byte alignment, and the collections of simp rules
  (\<open>mem_simps\<close>, \<open>wire_simps\<close>) the component proofs use.

  An operation that may have no defined result (undefined behaviour, a wait nobody ends, a
  loop that does not stop) returns an \<open>option\<close>; \<open>None\<close> is "no result".
\<close>

unbundle bit_operations_syntax

named_theorems mem_simps "reading buffer bytes after writing them"
named_theorems wire_simps "sizes and encodings of the wire structures"

section \<open>Machine integers\<close>

type_synonym byte = "8 word"
type_synonym u16 = "16 word"
type_synonym u32 = "32 word"
type_synonym u64 = "64 word"

text \<open>\<open>int32_t\<close> values are words read with \<open>sint\<close>.\<close>
type_synonym i32 = "32 word"

text \<open>\<open>UINT8_MAX\<close> and \<open>UINT16_MAX\<close>, as sizes.\<close>
abbreviation (input) UINT8_MAX :: nat where "UINT8_MAX \<equiv> 255"
abbreviation (input) UINT16_MAX :: nat where "UINT16_MAX \<equiv> 65535"

section \<open>C strings\<close>

text \<open>
  A C string is the list of its bytes before the terminating NUL; a nullable
  \<open>const char *\<close> is an \<open>option\<close> of it.
\<close>
type_synonym cstr = "byte list"

definition bytes_of :: "string \<Rightarrow> cstr" where
  "bytes_of s = map of_char s"

section \<open>Little-endian codes\<close>

fun le_bytes :: "nat \<Rightarrow> nat \<Rightarrow> byte list" where
  "le_bytes 0 x = []"
| "le_bytes (Suc n) x = word_of_nat (x mod 256) # le_bytes n (x div 256)"

fun le_nat :: "byte list \<Rightarrow> nat" where
  "le_nat [] = 0"
| "le_nat (b # bs) = unat b + 256 * le_nat bs"

definition le16 :: "u16 \<Rightarrow> byte list" where "le16 w = le_bytes 2 (unat w)"
definition le32 :: "u32 \<Rightarrow> byte list" where "le32 w = le_bytes 4 (unat w)"
definition le64 :: "u64 \<Rightarrow> byte list" where "le64 w = le_bytes 8 (unat w)"

definition of_le16 :: "byte list \<Rightarrow> u16" where "of_le16 bs = word_of_nat (le_nat bs)"
definition of_le32 :: "byte list \<Rightarrow> u32" where "of_le32 bs = word_of_nat (le_nat bs)"
definition of_le64 :: "byte list \<Rightarrow> u64" where "of_le64 bs = word_of_nat (le_nat bs)"

lemma length_le_bytes [simp, wire_simps]: "length (le_bytes n x) = n"
  by (induction n arbitrary: x) auto

lemma length_le [simp, wire_simps]:
  "length (le16 a) = 2" "length (le32 b) = 4" "length (le64 c) = 8"
  by (simp_all add: le16_def le32_def le64_def)

lemma le_nat_le_bytes: "le_nat (le_bytes n x) = x mod 256 ^ n"
proof (induction n arbitrary: x)
  case 0
  then show ?case by simp
next
  case (Suc n)
  have "unat (word_of_nat (x mod 256) :: byte) = x mod 256"
    by (simp add: unat_of_nat)
  then show ?case
    by (simp add: Suc mod_mult2_eq)
qed

lemma of_le_le [simp, wire_simps]:
  "of_le16 (le16 a) = a" "of_le32 (le32 b) = b" "of_le64 (le64 c) = c"
proof -
  have "unat a < 2 ^ LENGTH(16)" by (rule unsigned_less)
  moreover have "unat b < 2 ^ LENGTH(32)" by (rule unsigned_less)
  moreover have "unat c < 2 ^ LENGTH(64)" by (rule unsigned_less)
  ultimately show "of_le16 (le16 a) = a" "of_le32 (le32 b) = b" "of_le64 (le64 c) = c"
    by (simp_all add: of_le16_def of_le32_def of_le64_def le16_def le32_def le64_def
        le_nat_le_bytes)
qed

section \<open>Alignment\<close>

text \<open>
  \<open>P8_ALIGN_UP_8(x)\<close> is \<open>(x + 7) & ~7\<close> on \<open>size_t\<close>; on sizes it is the next multiple
  of 8, as \<open>align_up_8_bits\<close> shows.
\<close>
definition align_up_8 :: "nat \<Rightarrow> nat" where
  "align_up_8 n = (n + 7) div 8 * 8"

lemma align_up_8_ge: "n \<le> align_up_8 n"
  by (simp add: align_up_8_def)

lemma align_up_8_less: "align_up_8 n < n + 8"
  by (simp add: align_up_8_def)

lemma align_up_8_dvd [simp]: "8 dvd align_up_8 n"
  by (simp add: align_up_8_def)

lemma align_up_8_least: "n \<le> m \<Longrightarrow> 8 dvd m \<Longrightarrow> align_up_8 n \<le> m"
  by (auto simp: align_up_8_def elim!: dvdE)

lemma and_not_7_shift: "(x :: u64) AND NOT 7 = push_bit 3 (drop_bit 3 x)"
proof -
  have "x AND NOT (mask 3) = push_bit 3 (drop_bit 3 x)"
    by (rule bit_word_eqI)
      (auto simp: bit_and_iff bit_not_iff bit_mask_iff bit_push_bit_iff bit_drop_bit_eq)
  then show ?thesis by (simp add: mask_eq_exp_minus_1)
qed

lemma align_up_8_bits:
  assumes "n + 7 < 2 ^ 64"
  shows "unat ((word_of_nat n + 7 :: u64) AND NOT 7) = align_up_8 n"
proof -
  have "unat (word_of_nat n + 7 :: u64) = n + 7"
    using assms by (simp add: unat_word_ariths unat_of_nat)
  moreover have "unat (push_bit 3 (drop_bit 3 w)) = unat w div 8 * 8" for w :: u64
  proof -
    have "unat w < 2 ^ LENGTH(64)" by (rule unsigned_less)
    then have "unat w div 8 * 8 < 2 ^ 64" by simp
    then show ?thesis
      by (simp add: push_bit_eq_mult drop_bit_eq_div unat_word_ariths unat_div)
  qed
  ultimately show ?thesis
    by (simp only: and_not_7_shift align_up_8_def)
qed

section \<open>Buffer memory\<close>

text \<open>
  A buffer is named by its address; \<open>m b i\<close> is the byte at offset \<open>i\<close> of buffer \<open>b\<close>.
  The initial content is arbitrary, as in \<open>new uint8_t[n]\<close>. \<open>wr m b o bs\<close> is
  \<open>memcpy(b + o, bs, length bs)\<close>; that no write leaves its buffer is proved per operation,
  as a frame property, not assumed by the representation.
\<close>
type_synonym addr = nat
type_synonym mem = "addr \<Rightarrow> nat \<Rightarrow> byte"

definition rd :: "mem \<Rightarrow> addr \<Rightarrow> nat \<Rightarrow> nat \<Rightarrow> byte list" where
  "rd m b off n = map (m b) [off..<off + n]"

definition wr :: "mem \<Rightarrow> addr \<Rightarrow> nat \<Rightarrow> byte list \<Rightarrow> mem" where
  "wr m b off bs =
     m(b := (\<lambda>i. if off \<le> i \<and> i < off + length bs then bs ! (i - off) else m b i))"

lemma length_rd [simp, mem_simps]: "length (rd m b off n) = n"
  by (simp add: rd_def)

lemma rd_0 [simp, mem_simps]: "rd m b off 0 = []"
  by (simp add: rd_def)

lemma rd_Suc: "rd m b off (Suc n) = m b off # rd m b (Suc off) n"
  by (simp add: rd_def upt_rec)

lemma rd_add: "rd m b off (n + k) = rd m b off n @ rd m b (off + n) k"
proof -
  have "[off..<off + (n + k)] = [off..<off + n] @ [off + n..<off + n + k]"
    using upt_add_eq_append [of off "off + n" k] by (simp add: add.assoc)
  then show ?thesis by (simp only: rd_def map_append)
qed

lemma rd_cong:
  "(\<And>i. off \<le> i \<Longrightarrow> i < off + n \<Longrightarrow> m b i = m' b i) \<Longrightarrow> rd m b off n = rd m' b off n"
  by (simp add: rd_def)

lemma wr_Nil [simp, mem_simps]: "wr m b off [] = m"
  by (rule ext) (auto simp: wr_def fun_eq_iff)

lemma wr_other [simp, mem_simps]: "b' \<noteq> b \<Longrightarrow> wr m b off bs b' = m b'"
  by (simp add: wr_def)

lemma wr_frame: "i < off \<or> off + length bs \<le> i \<Longrightarrow> wr m b off bs b' i = m b' i"
  by (auto simp: wr_def)

lemma rd_wr_same [simp, mem_simps]: "n = length bs \<Longrightarrow> rd (wr m b off bs) b off n = bs"
  by (rule nth_equalityI) (auto simp: rd_def wr_def)

lemma rd_wr_other [simp, mem_simps]: "b' \<noteq> b \<Longrightarrow> rd (wr m b off bs) b' o' n = rd m b' o' n"
  by (simp add: rd_def)

lemma rd_wr_disjoint [mem_simps]:
  "o' + n \<le> off \<or> off + length bs \<le> o' \<Longrightarrow> rd (wr m b off bs) b' o' n = rd m b' o' n"
  by (rule rd_cong) (auto intro!: wr_frame)

text \<open>Appending at the write position extends what is read from any earlier start.\<close>

lemma rd_wr_append:
  assumes "s \<le> off"
  shows "rd (wr m b off bs) b s (off + length bs - s) = rd m b s (off - s) @ bs"
proof -
  have "off + length bs - s = (off - s) + length bs" using assms by simp
  then show ?thesis using assms
    by (simp only: rd_add) (simp add: rd_wr_disjoint)
qed

text \<open>Reading a part of what was written.\<close>

lemma rd_wr_inside:
  assumes "off \<le> o'" and "o' + n \<le> off + length bs"
  shows "rd (wr m b off bs) b o' n = take n (drop (o' - off) bs)"
  using assms by (intro nth_equalityI) (auto simp: rd_def wr_def algebra_simps)

section \<open>Lists\<close>

lemma filter_False_id: "(\<And>x. x \<in> set xs \<Longrightarrow> P x) \<Longrightarrow> filter P xs = xs"
  by (simp add: filter_id_conv)

lemma distinct_append_disjoint:
  "distinct (xs @ ys) \<longleftrightarrow> distinct xs \<and> distinct ys \<and> (\<forall>x \<in> set xs. x \<notin> set ys)"
  by auto

section \<open>Runs\<close>

text \<open>Operations in a row.\<close>

primrec run_ops :: "('o \<Rightarrow> 's \<Rightarrow> ('r \<times> 's) option) \<Rightarrow> 'o list \<Rightarrow> 's \<Rightarrow> ('r list \<times> 's) option" where
  "run_ops f [] s = Some ([], s)"
| "run_ops f (x # xs) s = do { (r, s1) \<leftarrow> f x s; (rs, s2) \<leftarrow> run_ops f xs s1; Some (r # rs, s2) }"

end
