(* ===== verification/P8_Budget.thy ===== *)
theory P8_Budget
  imports P8_Prelude
begin

text \<open>
  The memory budget of engine/p8_memory_budget.cpp: the atomic byte counter every buffer pool
  reserves from. \<open>try_reserve\<close> and \<open>budget_release\<close> are the sequential operations;
  \<open>budget_step\<close> is the compare-and-swap loop as an interleaving step relation over any
  number of threads.
\<close>

section \<open>Memory budget\<close>

record memory_budget =
  mu_used :: u64
  mz_max :: u64

text \<open>The guard of \<open>try_reserve\<close> on the value \<open>lz_current\<close> last read.\<close>

definition over_budget :: "u64 \<Rightarrow> u64 \<Rightarrow> u64 \<Rightarrow> bool" where
  "over_budget lz_max lz_current iz_bytes \<longleftrightarrow>
     lz_current > lz_max \<or> lz_max - lz_current < iz_bytes"

text \<open>\<open>try_reserve\<close> when no other thread interferes: the first compare-and-swap succeeds.\<close>

definition try_reserve :: "u64 \<Rightarrow> memory_budget \<Rightarrow> bool \<times> memory_budget" where
  "try_reserve iz_bytes b =
     (let lz_current = mu_used b in
      if over_budget (mz_max b) lz_current iz_bytes then (False, b)
      else (True, b\<lparr>mu_used := lz_current + iz_bytes\<rparr>))"

definition budget_release :: "u64 \<Rightarrow> memory_budget \<Rightarrow> memory_budget" where
  "budget_release iz_bytes b = b\<lparr>mu_used := mu_used b - iz_bytes\<rparr>"

lemma over_budget_iff:
  "over_budget m c n \<longleftrightarrow> unat m < unat c + unat n"
proof (cases "c \<le> m")
  case True
  then have "unat (m - c) = unat m - unat c" by (simp add: unat_sub)
  with True show ?thesis
    by (auto simp: over_budget_def word_less_nat_alt word_le_nat_alt)
next
  case False
  then show ?thesis
    by (auto simp: over_budget_def word_less_nat_alt word_le_nat_alt)
qed

lemma unat_add_bounded:
  fixes a b m :: u64
  shows "unat a + unat b \<le> unat m \<Longrightarrow> unat (a + b) = unat a + unat b"
proof -
  assume "unat a + unat b \<le> unat m"
  moreover have "unat m < 2 ^ LENGTH(64)" by (rule unsigned_less)
  ultimately show ?thesis by (simp add: unat_word_ariths)
qed

lemma unat_sub_le:
  fixes a b :: u64
  shows "unat b \<le> unat a \<Longrightarrow> unat (a - b) = unat a - unat b"
  by (simp add: unat_sub word_le_nat_alt)

text \<open>
  A reservation succeeds exactly when it fits, then adds its bytes without wrapping; otherwise
  nothing changes.
\<close>

lemma try_reserve_cases:
  "try_reserve n b = (if unat (mu_used b) + unat n \<le> unat (mz_max b)
     then (True, b\<lparr>mu_used := mu_used b + n\<rparr>) else (False, b))"
  by (auto simp: try_reserve_def over_budget_iff Let_def)

subsection \<open>The compare-and-swap loop under interleaving\<close>

text \<open>
  A thread outside \<open>try_reserve\<close> is \<open>BIdle\<close>; inside it is \<open>BTry n c\<close>, where \<open>c\<close> is its
  \<open>lz_current\<close>. \<open>reserved\<close> is a ghost: the reservations granted and not yet released.
\<close>

datatype budget_pc = BIdle | BTry u64 u64

record budget_sys =
  bs_budget :: memory_budget
  bs_pc :: "nat \<Rightarrow> budget_pc"
  bs_reserved :: "u64 multiset"

definition budget_init :: "u64 \<Rightarrow> budget_sys" where
  "budget_init m = \<lparr>bs_budget = \<lparr>mu_used = 0, mz_max = m\<rparr>, bs_pc = (\<lambda>_. BIdle),
     bs_reserved = {#}\<rparr>"

inductive budget_step :: "budget_sys \<Rightarrow> budget_sys \<Rightarrow> bool" where
  load: "bs_pc s t = BIdle \<Longrightarrow>
     budget_step s (s\<lparr>bs_pc := (bs_pc s)(t := BTry n (mu_used (bs_budget s)))\<rparr>)"
| reject: "bs_pc s t = BTry n c \<Longrightarrow> over_budget (mz_max (bs_budget s)) c n \<Longrightarrow>
     budget_step s (s\<lparr>bs_pc := (bs_pc s)(t := BIdle)\<rparr>)"
| cas_ok: "bs_pc s t = BTry n c \<Longrightarrow> \<not> over_budget (mz_max (bs_budget s)) c n \<Longrightarrow>
     mu_used (bs_budget s) = c \<Longrightarrow>
     budget_step s (s\<lparr>bs_pc := (bs_pc s)(t := BIdle),
       bs_budget := (bs_budget s)\<lparr>mu_used := c + n\<rparr>,
       bs_reserved := add_mset n (bs_reserved s)\<rparr>)"
| cas_fail: "bs_pc s t = BTry n c \<Longrightarrow> \<not> over_budget (mz_max (bs_budget s)) c n \<Longrightarrow>
     budget_step s (s\<lparr>bs_pc := (bs_pc s)(t := BTry n (mu_used (bs_budget s)))\<rparr>)"
| release: "n \<in># bs_reserved s \<Longrightarrow>
     budget_step s (s\<lparr>bs_budget := budget_release n (bs_budget s),
       bs_reserved := bs_reserved s - {#n#}\<rparr>)"

inductive budget_reach :: "u64 \<Rightarrow> budget_sys \<Rightarrow> bool" for m where
  start: "budget_reach m (budget_init m)"
| step: "budget_reach m s \<Longrightarrow> budget_step s t \<Longrightarrow> budget_reach m t"

definition budget_inv :: "u64 \<Rightarrow> budget_sys \<Rightarrow> bool" where
  "budget_inv m s \<longleftrightarrow> mz_max (bs_budget s) = m
     \<and> unat (mu_used (bs_budget s)) = sum_mset (image_mset unat (bs_reserved s))
     \<and> unat (mu_used (bs_budget s)) \<le> unat m"

lemma budget_step_inv: "budget_step s t \<Longrightarrow> budget_inv m s \<Longrightarrow> budget_inv m t"
proof (induction rule: budget_step.induct)
  case (cas_ok s t n c)
  then have "unat c + unat n \<le> unat m"
    by (simp add: over_budget_iff budget_inv_def)
  with cas_ok show ?case
    by (simp add: budget_inv_def unat_add_bounded [of c n m])
next
  case (release n s)
  then obtain R where R: "bs_reserved s = add_mset n R" by (metis insert_DiffM)
  with release have "unat n \<le> unat (mu_used (bs_budget s))"
    by (simp add: budget_inv_def)
  with release R show ?case
    by (simp add: budget_inv_def budget_release_def unat_sub_le)
qed (auto simp: budget_inv_def)

lemma budget_reach_inv: "budget_reach m s \<Longrightarrow> budget_inv m s"
proof (induction rule: budget_reach.induct)
  case start
  show ?case by (simp add: budget_inv_def budget_init_def)
next
  case (step s t)
  then show ?case by (blast intro: budget_step_inv)
qed

end
