(* ===== verification/P8_Pool.thy ===== *)
theory P8_Pool
  imports P8_Budget
begin

text \<open>
  The buffer pool of engine/p8_buffer_pool.cpp: grow-on-demand allocation under the budget,
  the free list, the intrusive FIFO queue of blocked acquirers with its condition-variable
  shards, and shutdown.

  Each operation runs under \<open>mo_mutex\<close>, so one definition is one atomic step;
  \<open>acquire_wait\<close>, which releases the mutex while it waits, is the three steps
  \<open>acquire_wait_enter\<close>, \<open>acquire_wait_resume\<close> and \<open>acquire_wait_leave\<close>. The queue is
  the code's linked list: a waiter is named by the address of its \<open>lo_self\<close>, nodes are linked
  by \<open>mp_next\<close>, and \<open>wait_queue\<close> relates the links to the list of waiters they stand for.

  \<open>new(std::nothrow)\<close> is \<open>pool_new\<close>: it hands out addresses it never handed out before and
  fails on the calls \<open>al_fail\<close> selects, so a theorem for every \<open>al_fail\<close> covers every
  pattern of failed allocations.
\<close>

section \<open>State\<close>

text \<open>\<open>s_waiter\<close>; \<open>wt_cv\<close> is the shard index, \<open>wt_asleep\<close> says that the thread is
  blocked in the shard's condition variable.\<close>

record s_waiter =
  wt_next :: "nat option"
  wt_buf :: "addr option"
  wt_done :: bool
  wt_cv :: nat
  wt_asleep :: bool

record buffer_pool =
  mz_buffer_size :: u64
  mp_budget :: "memory_budget option"
  mo_free :: "addr list"
  mo_all :: "addr list"
  mp_wait_head :: "nat option"
  mp_wait_tail :: "nat option"
  wt_node :: "nat \<Rightarrow> s_waiter"
  mu_wait_count :: u32
  mb_stopping :: bool
  mu_cv_next :: u32
  mu_inflight :: u32
  al_next :: addr
  al_fail :: "addr \<Rightarrow> bool"

text \<open>\<open>mz_wait_cv_count\<close>.\<close>
abbreviation (input) mz_wait_cv_count :: nat where "mz_wait_cv_count \<equiv> 64"

definition pool_create :: "u64 \<Rightarrow> memory_budget option \<Rightarrow> (addr \<Rightarrow> bool) \<Rightarrow> buffer_pool" where
  "pool_create iz_buffer_size ip_budget fail =
     \<lparr>mz_buffer_size = iz_buffer_size, mp_budget = ip_budget, mo_free = [], mo_all = [],
      mp_wait_head = None, mp_wait_tail = None,
      wt_node = (\<lambda>_. \<lparr>wt_next = None, wt_buf = None, wt_done = False, wt_cv = 0, wt_asleep = False\<rparr>),
      mu_wait_count = 0, mb_stopping = False, mu_cv_next = 0, mu_inflight = 0,
      al_next = 0, al_fail = fail\<rparr>"

section \<open>Allocation\<close>

text \<open>\<open>mp_budget && !mp_budget->try_reserve(mz_buffer_size)\<close>: a null budget never refuses.\<close>

definition pool_reserve :: "buffer_pool \<Rightarrow> bool \<times> buffer_pool" where
  "pool_reserve p = (case mp_budget p of
     None \<Rightarrow> (True, p)
   | Some b \<Rightarrow> (case try_reserve (mz_buffer_size p) b of
       (ok, b') \<Rightarrow> (ok, p\<lparr>mp_budget := Some b'\<rparr>)))"

definition pool_unreserve :: "u64 \<Rightarrow> buffer_pool \<Rightarrow> buffer_pool" where
  "pool_unreserve n p = p\<lparr>mp_budget := map_option (budget_release n) (mp_budget p)\<rparr>"

definition pool_new :: "buffer_pool \<Rightarrow> addr option \<times> buffer_pool" where
  "pool_new p = (if al_fail p (al_next p) then None else Some (al_next p),
     p\<lparr>al_next := Suc (al_next p)\<rparr>)"

text \<open>The allocation both \<open>init\<close> and \<open>acquire_no_lock\<close> make: reserve, allocate, give the
  reservation back when the allocation fails, put the buffer into both lists.\<close>

definition pool_grow :: "buffer_pool \<Rightarrow> bool \<times> buffer_pool" where
  "pool_grow p = (case pool_reserve p of
     (False, p1) \<Rightarrow> (False, p1)
   | (True, p1) \<Rightarrow> (case pool_new p1 of
       (None, p2) \<Rightarrow> (False, pool_unreserve (mz_buffer_size p2) p2)
     | (Some lp_buf, p2) \<Rightarrow>
         (True, p2\<lparr>mo_all := mo_all p2 @ [lp_buf], mo_free := mo_free p2 @ [lp_buf]\<rparr>)))"

fun pool_init_loop :: "nat \<Rightarrow> nat \<Rightarrow> buffer_pool \<Rightarrow> nat \<times> buffer_pool" where
  "pool_init_loop 0 lz_allocated p = (lz_allocated, p)"
| "pool_init_loop (Suc n) lz_allocated p = (case pool_grow p of
     (False, p') \<Rightarrow> (lz_allocated, p')
   | (True, p') \<Rightarrow> pool_init_loop n (Suc lz_allocated) p')"

definition pool_init :: "nat \<Rightarrow> buffer_pool \<Rightarrow> nat \<times> buffer_pool" where
  "pool_init iz_initial_count p = pool_init_loop iz_initial_count 0 p"

definition acquire_no_lock :: "buffer_pool \<Rightarrow> addr option \<times> buffer_pool" where
  "acquire_no_lock p = (case (if mo_free p = [] then pool_grow p else (True, p)) of
     (False, p') \<Rightarrow> (None, p')
   | (True, p') \<Rightarrow> (Some (hd (mo_free p')), p'\<lparr>mo_free := tl (mo_free p')\<rparr>))"

section \<open>Statistics\<close>

record pool_stat =
  st_buffer_size :: u64
  st_free_size :: u64
  st_max_size :: u64

definition pool_stat_of :: "buffer_pool \<Rightarrow> pool_stat" where
  "pool_stat_of p =
     (let lz_outstanding = (word_of_nat (length (mo_all p)) - word_of_nat (length (mo_free p)))
            * mz_buffer_size p;
          lz_max = (case mp_budget p of
            Some b \<Rightarrow> mz_max b
          | None \<Rightarrow> word_of_nat (length (mo_all p)) * mz_buffer_size p)
      in \<lparr>st_buffer_size = mz_buffer_size p,
          st_free_size = (if lz_max > lz_outstanding then lz_max - lz_outstanding else 0),
          st_max_size = lz_max\<rparr>)"

section \<open>Waiting\<close>

datatype acquire_result = Acquired addr | Refused | Parked

definition acquire_wait_enter :: "nat \<Rightarrow> buffer_pool \<Rightarrow> acquire_result \<times> buffer_pool" where
  "acquire_wait_enter lo_self p = (case acquire_no_lock p of
     (Some lp_buf, p1) \<Rightarrow> (Acquired lp_buf, p1)
   | (None, p1) \<Rightarrow>
       if mb_stopping p1 then (Refused, p1)
       else
         (let node = \<lparr>wt_next = None, wt_buf = None, wt_done = False,
                      wt_cv = unat (mu_cv_next p1) mod mz_wait_cv_count, wt_asleep = True\<rparr>;
              nodes = (wt_node p1)(lo_self := node);
              nodes' = (case mp_wait_tail p1 of
                Some t \<Rightarrow> nodes(t := (nodes t)\<lparr>wt_next := Some lo_self\<rparr>)
              | None \<Rightarrow> nodes);
              head' = (case mp_wait_tail p1 of Some t \<Rightarrow> mp_wait_head p1 | None \<Rightarrow> Some lo_self)
          in (Parked, p1\<lparr>mu_cv_next := mu_cv_next p1 + 1, wt_node := nodes',
                mp_wait_head := head', mp_wait_tail := Some lo_self,
                mu_wait_count := mu_wait_count p1 + 1, mu_inflight := mu_inflight p1 + 1\<rparr>)))"

text \<open>\<open>mo_wait_cvs[k].notify_all()\<close>: every thread asleep on shard \<open>k\<close> wakes.\<close>

definition notify_all :: "nat \<Rightarrow> buffer_pool \<Rightarrow> buffer_pool" where
  "notify_all k p = p\<lparr>wt_node := (\<lambda>w. if wt_cv (wt_node p w) = k
     then (wt_node p w)\<lparr>wt_asleep := False\<rparr> else wt_node p w)\<rparr>"

definition notify_every_shard :: "buffer_pool \<Rightarrow> buffer_pool" where
  "notify_every_shard p = fold notify_all [0..<mz_wait_cv_count] p"

text \<open>An awake waiter evaluates the predicate: it goes back to sleep or takes its result and
  releases the mutex; \<open>acquire_wait_leave\<close> is the last access, after the unlock.\<close>

definition acquire_wait_resume :: "nat \<Rightarrow> buffer_pool \<Rightarrow> addr option option \<times> buffer_pool" where
  "acquire_wait_resume lo_self p =
     (if wt_asleep (wt_node p lo_self) then (None, p)
      else if wt_done (wt_node p lo_self) then (Some (wt_buf (wt_node p lo_self)), p)
      else (None, p\<lparr>wt_node :=
        (wt_node p)(lo_self := (wt_node p lo_self)\<lparr>wt_asleep := True\<rparr>)\<rparr>))"

definition acquire_wait_leave :: "buffer_pool \<Rightarrow> buffer_pool" where
  "acquire_wait_leave p = p\<lparr>mu_inflight := mu_inflight p - 1\<rparr>"

section \<open>Recycling and shutdown\<close>

text \<open>\<open>try_handoff_no_lock\<close>: \<open>None\<close> stands for the code's \<open>-1\<close>. With a positive count
  the code dereferences the head, so a null head there has no defined result; the queue
  invariant excludes it and the model leaves the pool unchanged.\<close>

definition try_handoff_no_lock :: "addr \<Rightarrow> buffer_pool \<Rightarrow> nat option \<times> buffer_pool" where
  "try_handoff_no_lock ip_buf p =
     (if mu_wait_count p = 0 then (None, p)
      else case mp_wait_head p of
        None \<Rightarrow> (None, p)
      | Some w \<Rightarrow>
          (let head' = wt_next (wt_node p w)
           in (Some (wt_cv (wt_node p w)),
               p\<lparr>mp_wait_head := head',
                 mp_wait_tail := (if head' = None then None else mp_wait_tail p),
                 mu_wait_count := mu_wait_count p - 1,
                 wt_node := (wt_node p)(w := (wt_node p w)
                   \<lparr>wt_buf := Some ip_buf, wt_done := True\<rparr>)\<rparr>)))"

definition recycle :: "addr option \<Rightarrow> buffer_pool \<Rightarrow> buffer_pool" where
  "recycle ip_buf p = (case ip_buf of
     None \<Rightarrow> p
   | Some b \<Rightarrow> (case try_handoff_no_lock b p of
       (Some li_idx, p') \<Rightarrow> notify_all li_idx p'
     | (None, p') \<Rightarrow> p'\<lparr>mo_free := mo_free p' @ [b]\<rparr>))"

text \<open>The batch variant, over the elements of the list in order.\<close>

definition recycle_batch :: "addr option list \<Rightarrow> buffer_pool \<Rightarrow> buffer_pool" where
  "recycle_batch io_bufs p = fold recycle io_bufs p"

text \<open>The loop of \<open>stop_waiters\<close> over the links; \<open>None\<close> if they never end.\<close>

partial_function (option) stop_loop ::
    "(nat \<Rightarrow> s_waiter) \<Rightarrow> nat option \<Rightarrow> (nat \<Rightarrow> s_waiter) option" where
  "stop_loop nodes head = (case head of
     None \<Rightarrow> Some nodes
   | Some w \<Rightarrow> stop_loop (nodes(w := (nodes w)\<lparr>wt_buf := None, wt_done := True\<rparr>))
       (wt_next (nodes w)))"

definition stop_waiters :: "buffer_pool \<Rightarrow> buffer_pool option" where
  "stop_waiters p = do {
     nodes \<leftarrow> stop_loop (wt_node p) (mp_wait_head p);
     let p' = p\<lparr>mb_stopping := True, wt_node := nodes, mp_wait_head := None,
                mp_wait_tail := None, mu_wait_count := 0\<rparr>;
     Some (if mp_wait_head p \<noteq> None then notify_every_shard p' else p')
   }"

text \<open>The destructor: \<open>None\<close> while it spins on \<open>mu_inflight\<close>.\<close>

definition pool_destroy :: "buffer_pool \<Rightarrow> buffer_pool option" where
  "pool_destroy p = do {
     p1 \<leftarrow> stop_waiters p;
     if mu_inflight p1 \<noteq> 0 then None
     else let lz_reserved = word_of_nat (length (mo_all p1)) * mz_buffer_size p1;
              p2 = p1\<lparr>mo_all := [], mo_free := []\<rparr>
          in Some (if lz_reserved > 0 then pool_unreserve lz_reserved p2 else p2)
   }"

section \<open>Well-formed pools\<close>

text \<open>
  \<open>owned p\<close> are the buffers handed out and not back in the free list. A pool is well formed
  when no buffer is listed twice, free ones are the pool's own, addresses come from its own
  allocations, and the budget holds exactly the pool's bytes, within its cap.
\<close>

definition owned :: "buffer_pool \<Rightarrow> addr set" where
  "owned p = set (mo_all p) - set (mo_free p)"

definition budget_exact :: "buffer_pool \<Rightarrow> bool" where
  "budget_exact p = (case mp_budget p of
     None \<Rightarrow> True
   | Some b \<Rightarrow> unat (mu_used b) = length (mo_all p) * unat (mz_buffer_size p)
       \<and> unat (mu_used b) \<le> unat (mz_max b))"

definition pool_wf :: "buffer_pool \<Rightarrow> bool" where
  "pool_wf p \<longleftrightarrow> distinct (mo_all p) \<and> distinct (mo_free p) \<and> set (mo_free p) \<subseteq> set (mo_all p)
     \<and> (\<forall>a \<in> set (mo_all p). a < al_next p) \<and> budget_exact p"

text \<open>The waiting half of the state, which allocation and the free list do not touch.\<close>

definition wait_part :: "buffer_pool \<Rightarrow> nat option \<times> nat option \<times> (nat \<Rightarrow> s_waiter) \<times> u32 \<times> bool \<times> u32 \<times> u32" where
  "wait_part p = (mp_wait_head p, mp_wait_tail p, wt_node p, mu_wait_count p, mb_stopping p,
     mu_cv_next p, mu_inflight p)"

lemma budget_exact_upd [simp]:
  "budget_exact (p\<lparr>mo_free := fs\<rparr>) = budget_exact p"
  "budget_exact (p\<lparr>wt_node := nd\<rparr>) = budget_exact p"
  "budget_exact (p\<lparr>mp_wait_head := h\<rparr>) = budget_exact p"
  "budget_exact (p\<lparr>mp_wait_tail := h\<rparr>) = budget_exact p"
  "budget_exact (p\<lparr>mu_wait_count := c\<rparr>) = budget_exact p"
  "budget_exact (p\<lparr>mb_stopping := st\<rparr>) = budget_exact p"
  "budget_exact (p\<lparr>mu_cv_next := k\<rparr>) = budget_exact p"
  "budget_exact (p\<lparr>mu_inflight := k\<rparr>) = budget_exact p"
  by (simp_all add: budget_exact_def split: option.split)

lemma pool_create_wf [simp]:
  "pool_wf (pool_create n (map_option (\<lambda>m. \<lparr>mu_used = 0, mz_max = m\<rparr>) cap) fail)"
  by (cases cap) (simp_all add: pool_wf_def pool_create_def budget_exact_def)

lemma pool_create_owned [simp]: "owned (pool_create n b fail) = {}"
  by (simp add: owned_def pool_create_def)

text \<open>Growing: what a success and a failure mean.\<close>

definition pool_full :: "buffer_pool \<Rightarrow> bool" where
  "pool_full p \<longleftrightarrow> (\<exists>b. mp_budget p = Some b
     \<and> unat (mz_max b) < (length (mo_all p) + 1) * unat (mz_buffer_size p))"

text \<open>Growing, field by field: \<open>new_bufs\<close> is what a successful call adds.\<close>

definition new_bufs :: "bool \<Rightarrow> buffer_pool \<Rightarrow> addr list" where
  "new_bufs ok p = (if ok then [al_next p] else [])"

lemma pool_grow_fields:
  assumes "pool_grow p = (ok, p')"
  shows "mo_all p' = mo_all p @ new_bufs ok p" and "mo_free p' = mo_free p @ new_bufs ok p"
    and "wait_part p' = wait_part p" and "mz_buffer_size p' = mz_buffer_size p"
    and "al_fail p' = al_fail p" and "al_next p \<le> al_next p'"
    and "ok \<Longrightarrow> al_next p' = Suc (al_next p)"
  using assms
  by (auto simp: pool_grow_def pool_reserve_def pool_new_def pool_unreserve_def new_bufs_def
      wait_part_def split: option.splits prod.splits bool.splits if_splits)

lemma pool_grow_budget:
  assumes "budget_exact p" and "pool_grow p = (ok, p')"
  shows "budget_exact p'" and "\<not> ok \<Longrightarrow> pool_full p \<or> al_fail p (al_next p)"
    and "ok \<Longrightarrow> \<not> pool_full p \<and> \<not> al_fail p (al_next p)"
proof (atomize (full), cases "mp_budget p")
  case None
  with assms show "budget_exact p' \<and> (\<not> ok \<longrightarrow> pool_full p \<or> al_fail p (al_next p))
      \<and> (ok \<longrightarrow> \<not> pool_full p \<and> \<not> al_fail p (al_next p))"
    by (auto simp: pool_grow_def pool_reserve_def pool_new_def pool_unreserve_def pool_full_def
        budget_exact_def split: if_splits)
next
  case (Some b)
  with assms(1) have used: "unat (mu_used b) = length (mo_all p) * unat (mz_buffer_size p)"
    and le: "unat (mu_used b) \<le> unat (mz_max b)"
    by (simp_all add: budget_exact_def)
  have full: "pool_full p \<longleftrightarrow> unat (mz_max b) < unat (mu_used b) + unat (mz_buffer_size p)"
    using Some used by (simp add: pool_full_def algebra_simps)
  show "budget_exact p' \<and> (\<not> ok \<longrightarrow> pool_full p \<or> al_fail p (al_next p))
      \<and> (ok \<longrightarrow> \<not> pool_full p \<and> \<not> al_fail p (al_next p))"
  proof (cases "pool_full p")
    case True
    with assms(2) Some used le show ?thesis
      by (auto simp: pool_grow_def pool_reserve_def try_reserve_cases full budget_exact_def)
  next
    case False
    with full have fits: "unat (mu_used b) + unat (mz_buffer_size p) \<le> unat (mz_max b)" by simp
    with assms(2) Some False used le show ?thesis
      by (auto simp: pool_grow_def pool_reserve_def try_reserve_cases pool_new_def
          pool_unreserve_def budget_release_def budget_exact_def unat_add_bounded [OF fits]
          split: if_splits)
  qed
qed

lemma pool_grow_wf:
  assumes "pool_wf p" and "pool_grow p = (ok, p')"
  shows "pool_wf p'" and "owned p' = owned p"
proof -
  note f = pool_grow_fields [OF assms(2)]
  have "budget_exact p'" using assms pool_grow_budget(1) by (auto simp: pool_wf_def)
  moreover have "al_next p \<notin> set (mo_all p)" using assms(1) by (auto simp: pool_wf_def)
  ultimately show "pool_wf p'" "owned p' = owned p"
    using assms(1) f(1,2,6,7)
    by (cases ok; force simp: pool_wf_def new_bufs_def owned_def)+
qed

text \<open>\<open>acquire_no_lock\<close>: a fresh owned buffer, or nothing when the pool cannot grow.\<close>

lemma acquire_no_lock_Some:
  assumes "pool_wf p" and "acquire_no_lock p = (Some b, p')"
  shows "pool_wf p'" and "b \<notin> owned p" and "owned p' = insert b (owned p)"
    and "wait_part p' = wait_part p" and "mz_buffer_size p' = mz_buffer_size p"
    and "b \<in> set (mo_all p')"
proof -
  obtain q where q: "pool_wf q" "owned q = owned p" "wait_part q = wait_part p" "mo_free q \<noteq> []"
      "mz_buffer_size q = mz_buffer_size p"
    and b: "b = hd (mo_free q)" and p': "p' = q\<lparr>mo_free := tl (mo_free q)\<rparr>"
  proof (cases "mo_free p = []")
    case True
    with assms(2) obtain q where g: "pool_grow p = (True, q)"
      and q: "b = hd (mo_free q)" "p' = q\<lparr>mo_free := tl (mo_free q)\<rparr>"
      by (auto simp: acquire_no_lock_def split: prod.splits bool.splits)
    from pool_grow_fields [OF g] pool_grow_wf [OF assms(1) g] q show ?thesis
      by (intro that [of q]) (auto simp: new_bufs_def)
  next
    case False
    with assms show ?thesis
      by (intro that [of p]) (auto simp: acquire_no_lock_def)
  qed
  from q(4) obtain rest where fr: "mo_free q = b # rest" using b by (cases "mo_free q") auto
  with q(1) have "b \<in> set (mo_all q)" "b \<notin> set rest" "distinct rest" "set rest \<subseteq> set (mo_all q)"
    by (auto simp: pool_wf_def)
  with q fr p' show "pool_wf p'" "b \<notin> owned p" "owned p' = insert b (owned p)"
      "wait_part p' = wait_part p" "mz_buffer_size p' = mz_buffer_size p" "b \<in> set (mo_all p')"
    by (auto simp: pool_wf_def owned_def wait_part_def)
qed

lemma acquire_no_lock_None:
  assumes "pool_wf p" and "acquire_no_lock p = (None, p')"
  shows "pool_wf p'" and "owned p' = owned p" and "wait_part p' = wait_part p"
    and "mo_free p = []" and "mo_free p' = []" and "pool_full p \<or> al_fail p (al_next p)"
    and "mz_buffer_size p' = mz_buffer_size p"
proof -
  from assms(2) have g: "pool_grow p = (False, p')" and e: "mo_free p = []"
    by (auto simp: acquire_no_lock_def split: prod.splits bool.splits if_splits)
  from assms(1) have "budget_exact p" by (simp add: pool_wf_def)
  from pool_grow_fields [OF g] pool_grow_wf [OF assms(1) g] pool_grow_budget [OF this g] e
  show "pool_wf p'" "owned p' = owned p" "wait_part p' = wait_part p" "mo_free p = []"
      "mo_free p' = []" "pool_full p \<or> al_fail p (al_next p)" "mz_buffer_size p' = mz_buffer_size p"
    by (auto simp: new_bufs_def)
qed

end
