(* ===== verification/P8_Wait_Queue.thy ===== *)
theory P8_Wait_Queue
  imports P8_Pool
begin

text \<open>
  The FIFO queue of blocked acquirers: the linked nodes of the pool refine a list of waiters.
  \<open>wait_queue p ws\<close> says that the links from \<open>mp_wait_head\<close> run through exactly \<open>ws\<close>;
  enqueueing, handing a buffer over and stopping act on \<open>ws\<close> as append, tail and empty. The
  order in which a batch of recycled buffers is served is proved once, in the locale
  \<open>fifo_handoff\<close>, and interpreted on \<open>recycle\<close>.
\<close>

section \<open>Linked nodes as a list\<close>

fun chain :: "(nat \<Rightarrow> s_waiter) \<Rightarrow> nat option \<Rightarrow> nat list \<Rightarrow> bool" where
  "chain nd h [] \<longleftrightarrow> h = None"
| "chain nd h (w # ws) \<longleftrightarrow> h = Some w \<and> chain nd (wt_next (nd w)) ws"

definition wait_queue :: "buffer_pool \<Rightarrow> nat list \<Rightarrow> bool" where
  "wait_queue p ws \<longleftrightarrow> chain (wt_node p) (mp_wait_head p) ws
     \<and> mp_wait_tail p = (if ws = [] then None else Some (last ws))
     \<and> distinct ws \<and> mu_wait_count p = word_of_nat (length ws) \<and> length ws < 2 ^ 32
     \<and> (\<forall>w \<in> set ws. \<not> wt_done (wt_node p w))"

text \<open>The buffer a waiter has been handed: \<open>None\<close> while it is not served.\<close>

definition served :: "buffer_pool \<Rightarrow> nat \<Rightarrow> addr option" where
  "served p w = (if wt_done (wt_node p w) then wt_buf (wt_node p w) else None)"

lemma chain_cong:
  "(\<And>w. w \<in> set ws \<Longrightarrow> wt_next (nd' w) = wt_next (nd w)) \<Longrightarrow> chain nd' h ws = chain nd h ws"
  by (induction ws arbitrary: h) auto

lemma chain_snoc:
  assumes "chain nd h ws" and "x \<notin> set ws" and "distinct ws" and "ws \<noteq> []"
    and "wt_next n = None"
  shows "chain ((nd(x := n))(last ws := (nd (last ws))\<lparr>wt_next := Some x\<rparr>)) h (ws @ [x])"
  using assms
proof (induction ws arbitrary: h)
  case Nil
  then show ?case by simp
next
  case (Cons w ws)
  show ?case
  proof (cases "ws = []")
    case True
    with Cons.prems show ?thesis by auto
  next
    case False
    with Cons.prems have "w \<noteq> last ws" "w \<noteq> x" by auto
    moreover have "chain ((nd(x := n))(last ws := (nd (last ws))\<lparr>wt_next := Some x\<rparr>))
        (wt_next (nd w)) (ws @ [x])"
      using Cons.prems Cons.IH [of "wt_next (nd w)"] False by (simp del: fun_upd_apply)
    moreover have "((nd(x := n))(last ws := (nd (last ws))\<lparr>wt_next := Some x\<rparr>)) w = nd w"
      using calculation(1,2) by simp
    ultimately show ?thesis using Cons.prems False by (simp del: fun_upd_apply)
  qed
qed

lemma chain_head: "chain nd h ws \<Longrightarrow> h = None \<longleftrightarrow> ws = []"
  by (cases ws) auto

lemma wait_queue_NilD: "wait_queue p [] \<Longrightarrow> mu_wait_count p = 0 \<and> mp_wait_head p = None"
  by (simp add: wait_queue_def)

lemma wait_queue_count:
  "wait_queue p ws \<Longrightarrow> mu_wait_count p = 0 \<longleftrightarrow> ws = []"
proof -
  assume q: "wait_queue p ws"
  then have "unat (mu_wait_count p) = length ws"
    by (simp add: wait_queue_def unat_of_nat)
  then show ?thesis by (metis length_0_conv unat_eq_0)
qed

lemma wait_queue_cong:
  assumes "wait_part p' = wait_part p"
  shows "wait_queue p' ws = wait_queue p ws" and "served p' = served p"
  using assms by (auto simp: wait_queue_def wait_part_def served_def)

text \<open>Notification touches only who is asleep.\<close>

lemma notify_all_fields [simp]:
  "wt_next (wt_node (notify_all k p) w) = wt_next (wt_node p w)"
  "wt_done (wt_node (notify_all k p) w) = wt_done (wt_node p w)"
  "wt_buf (wt_node (notify_all k p) w) = wt_buf (wt_node p w)"
  "wt_cv (wt_node (notify_all k p) w) = wt_cv (wt_node p w)"
  "wt_asleep (wt_node (notify_all k p) w) \<longleftrightarrow> wt_asleep (wt_node p w) \<and> wt_cv (wt_node p w) \<noteq> k"
  by (simp_all add: notify_all_def)

lemma notify_all_frame [simp]:
  "mo_free (notify_all k p) = mo_free p" "mo_all (notify_all k p) = mo_all p"
  "mp_wait_head (notify_all k p) = mp_wait_head p" "mp_wait_tail (notify_all k p) = mp_wait_tail p"
  "mu_wait_count (notify_all k p) = mu_wait_count p" "mb_stopping (notify_all k p) = mb_stopping p"
  "mu_inflight (notify_all k p) = mu_inflight p" "al_next (notify_all k p) = al_next p"
  "mu_cv_next (notify_all k p) = mu_cv_next p"
  "pool_wf (notify_all k p) = pool_wf p" "owned (notify_all k p) = owned p"
  "mz_buffer_size (notify_all k p) = mz_buffer_size p" "mp_budget (notify_all k p) = mp_budget p"
  by (simp_all add: notify_all_def pool_wf_def owned_def)

lemma wait_queue_notify_all [simp]: "wait_queue (notify_all k p) ws = wait_queue p ws"
  by (simp add: wait_queue_def chain_cong [of ws "wt_node (notify_all k p)" "wt_node p"])

lemma served_notify_all [simp]: "served (notify_all k p) = served p"
  by (simp add: served_def fun_eq_iff)

lemma notify_every_shard_asleep:
  assumes "wt_cv (wt_node p w) < mz_wait_cv_count"
  shows "\<not> wt_asleep (wt_node (notify_every_shard p) w)"
proof -
  have "wt_asleep (wt_node (fold notify_all ks q) w)
      \<longleftrightarrow> wt_asleep (wt_node q w) \<and> wt_cv (wt_node q w) \<notin> set ks" for ks q
    by (induction ks arbitrary: q) auto
  with assms show ?thesis by (simp add: notify_every_shard_def)
qed

lemma notify_every_shard_frame:
  "pool_wf (notify_every_shard p) = pool_wf p" "owned (notify_every_shard p) = owned p"
  "mo_free (notify_every_shard p) = mo_free p" "mo_all (notify_every_shard p) = mo_all p"
  "wait_queue (notify_every_shard p) ws = wait_queue p ws"
  "served (notify_every_shard p) = served p"
  "mb_stopping (notify_every_shard p) = mb_stopping p"
  "mu_inflight (notify_every_shard p) = mu_inflight p"
  "wt_done (wt_node (notify_every_shard p) w) = wt_done (wt_node p w)"
  "wt_cv (wt_node (notify_every_shard p) w) = wt_cv (wt_node p w)"
  "mu_wait_count (notify_every_shard p) = mu_wait_count p"
proof -
  have "pool_wf (fold notify_all ks q) = pool_wf q \<and> owned (fold notify_all ks q) = owned q
      \<and> mo_free (fold notify_all ks q) = mo_free q \<and> mo_all (fold notify_all ks q) = mo_all q
      \<and> wait_queue (fold notify_all ks q) ws = wait_queue q ws
      \<and> served (fold notify_all ks q) = served q
      \<and> mb_stopping (fold notify_all ks q) = mb_stopping q
      \<and> mu_inflight (fold notify_all ks q) = mu_inflight q
      \<and> wt_done (wt_node (fold notify_all ks q) w) = wt_done (wt_node q w)
      \<and> wt_cv (wt_node (fold notify_all ks q) w) = wt_cv (wt_node q w)
      \<and> mu_wait_count (fold notify_all ks q) = mu_wait_count q" for ks q
    by (induction ks arbitrary: q) auto
  then show "pool_wf (notify_every_shard p) = pool_wf p" "owned (notify_every_shard p) = owned p"
    "mo_free (notify_every_shard p) = mo_free p" "mo_all (notify_every_shard p) = mo_all p"
    "wait_queue (notify_every_shard p) ws = wait_queue p ws"
    "served (notify_every_shard p) = served p"
    "mb_stopping (notify_every_shard p) = mb_stopping p"
    "mu_inflight (notify_every_shard p) = mu_inflight p"
    "wt_done (wt_node (notify_every_shard p) w) = wt_done (wt_node p w)"
    "wt_cv (wt_node (notify_every_shard p) w) = wt_cv (wt_node p w)"
    "mu_wait_count (notify_every_shard p) = mu_wait_count p"
    unfolding notify_every_shard_def by blast+
qed

section \<open>The operations on the list\<close>

lemma enter_Parked:
  assumes wf: "pool_wf p" and q: "wait_queue p ws" and new: "lo_self \<notin> set ws"
    and room: "length ws + 1 < 2 ^ 32"
    and e: "acquire_wait_enter lo_self p = (Parked, p')"
  shows "wait_queue p' (ws @ [lo_self])" and "pool_wf p'" and "owned p' = owned p"
    and "mo_free p' = []" and "served p' = (served p)(lo_self := None)" and "\<not> mb_stopping p'"
    and "mb_stopping p' = mb_stopping p" and "mu_inflight p' = mu_inflight p + 1"
    and "wt_cv (wt_node p' lo_self) < mz_wait_cv_count"
    and "\<And>w. w \<noteq> lo_self \<Longrightarrow> wt_cv (wt_node p' w) = wt_cv (wt_node p w)
          \<and> wt_asleep (wt_node p' w) = wt_asleep (wt_node p w)
          \<and> wt_done (wt_node p' w) = wt_done (wt_node p w)"
    and "pool_full p \<or> al_fail p (al_next p)"
proof -
  from e obtain p1 where p1: "acquire_no_lock p = (None, p1)" and ns: "\<not> mb_stopping p1"
    by (auto simp: acquire_wait_enter_def Let_def split: prod.splits option.splits if_splits)
  note a = acquire_no_lock_None [OF wf p1]
  have q1: "wait_queue p1 ws" and s1: "served p1 = served p"
    using wait_queue_cong [OF a(3)] q by auto
  have cnt: "word_of_nat (length ws) + 1 = (word_of_nat (length ws + 1) :: u32)" by simp
  show "wait_queue p' (ws @ [lo_self])"
  proof (cases "ws = []")
    case True
    with e p1 ns q1 show ?thesis
      by (auto simp: acquire_wait_enter_def Let_def wait_queue_def)
  next
    case False
    let ?n = "\<lparr>wt_next = None, wt_buf = None, wt_done = False,
        wt_cv = unat (mu_cv_next p1) mod mz_wait_cv_count, wt_asleep = True\<rparr>"
    have "last ws \<noteq> lo_self" using new False by (metis last_in_set)
    with e p1 ns q1 False have
      p': "p' = p1\<lparr>mu_cv_next := mu_cv_next p1 + 1,
        wt_node := ((wt_node p1)(lo_self := ?n))(last ws := (wt_node p1 (last ws))\<lparr>wt_next := Some lo_self\<rparr>),
        mp_wait_head := mp_wait_head p1, mp_wait_tail := Some lo_self,
        mu_wait_count := mu_wait_count p1 + 1, mu_inflight := mu_inflight p1 + 1\<rparr>"
      by (auto simp: acquire_wait_enter_def Let_def wait_queue_def)
    have "chain (wt_node p') (mp_wait_head p') (ws @ [lo_self])"
      unfolding p' using q1 new False by (simp add: wait_queue_def chain_snoc)
    then show ?thesis
      using p' q1 new room False by (auto simp: wait_queue_def cnt)
  qed
  have wp: "wt_node p1 = wt_node p" "mb_stopping p1 = mb_stopping p" "mu_inflight p1 = mu_inflight p"
    using a(3) by (auto simp: wait_part_def)
  have p'1: "mo_free p' = mo_free p1" "mo_all p' = mo_all p1" "mb_stopping p' = mb_stopping p1"
      "mu_inflight p' = mu_inflight p1 + 1" "pool_wf p' = pool_wf p1"
    using e p1 ns by (auto simp: acquire_wait_enter_def Let_def pool_wf_def split: option.splits)
  with a ns wp show "pool_wf p'" "owned p' = owned p" "mo_free p' = []" "\<not> mb_stopping p'"
      "mb_stopping p' = mb_stopping p" "mu_inflight p' = mu_inflight p + 1"
      "pool_full p \<or> al_fail p (al_next p)"
    by (auto simp: owned_def)
  have nd: "wt_done (wt_node p' w) = (w \<noteq> lo_self \<and> wt_done (wt_node p w))"
      "wt_buf (wt_node p' w) = (if w = lo_self then None else wt_buf (wt_node p w))"
      "wt_cv (wt_node p' w) = (if w = lo_self then unat (mu_cv_next p1) mod mz_wait_cv_count
          else wt_cv (wt_node p w))"
      "wt_asleep (wt_node p' w) = (w = lo_self \<or> wt_asleep (wt_node p w))" for w
    using e p1 ns wp new q1
    by (auto simp: acquire_wait_enter_def Let_def wait_queue_def split: option.splits if_splits)
  then show "served p' = (served p)(lo_self := None)"
    by (auto simp: served_def)
  from nd show "wt_cv (wt_node p' lo_self) < mz_wait_cv_count"
    "\<And>w. w \<noteq> lo_self \<Longrightarrow> wt_cv (wt_node p' w) = wt_cv (wt_node p w)
          \<and> wt_asleep (wt_node p' w) = wt_asleep (wt_node p w)
          \<and> wt_done (wt_node p' w) = wt_done (wt_node p w)"
    by simp_all
qed

lemma handoff_Nil: "wait_queue p [] \<Longrightarrow> try_handoff_no_lock b p = (None, p)"
  by (simp add: try_handoff_no_lock_def wait_queue_def)

lemma handoff_Cons:
  assumes "wait_queue p (w # ws)"
  shows "try_handoff_no_lock b p = (Some (wt_cv (wt_node p w)),
      p\<lparr>mp_wait_head := wt_next (wt_node p w),
        mp_wait_tail := (if ws = [] then None else mp_wait_tail p),
        mu_wait_count := mu_wait_count p - 1,
        wt_node := (wt_node p)(w := (wt_node p w)\<lparr>wt_buf := Some b, wt_done := True\<rparr>)\<rparr>)"
proof -
  have "mu_wait_count p \<noteq> 0" using wait_queue_count [OF assms] by simp
  moreover have "wt_next (wt_node p w) = None \<longleftrightarrow> ws = []" "mp_wait_head p = Some w"
    using assms chain_head by (auto simp: wait_queue_def)
  ultimately show ?thesis by (simp add: try_handoff_no_lock_def Let_def)
qed

lemma recycle_Nil:
  assumes "wait_queue p []"
  shows "recycle (Some b) p = p\<lparr>mo_free := mo_free p @ [b]\<rparr>"
  using assms by (simp add: recycle_def handoff_Nil)

lemma recycle_Cons:
  assumes "wait_queue p (w # ws)"
  shows "wait_queue (recycle (Some b) p) ws"
    and "served (recycle (Some b) p) = (served p)(w := Some b)"
    and "mo_free (recycle (Some b) p) = mo_free p" and "mo_all (recycle (Some b) p) = mo_all p"
    and "pool_wf (recycle (Some b) p) = pool_wf p"
    and "mb_stopping (recycle (Some b) p) = mb_stopping p"
    and "mu_inflight (recycle (Some b) p) = mu_inflight p"
    and "\<And>v. wt_cv (wt_node (recycle (Some b) p) v) = wt_cv (wt_node p v)"
    and "\<And>v. wt_done (wt_node (recycle (Some b) p) v) \<longleftrightarrow> v = w \<or> wt_done (wt_node p v)"
    and "\<not> wt_asleep (wt_node (recycle (Some b) p) w)"
    and "\<And>v. wt_asleep (wt_node (recycle (Some b) p) v) \<Longrightarrow> wt_asleep (wt_node p v)"
proof -
  define p1 where "p1 = p\<lparr>mp_wait_head := wt_next (wt_node p w),
        mp_wait_tail := (if ws = [] then None else mp_wait_tail p),
        mu_wait_count := mu_wait_count p - 1,
        wt_node := (wt_node p)(w := (wt_node p w)\<lparr>wt_buf := Some b, wt_done := True\<rparr>)\<rparr>"
  have r: "recycle (Some b) p = notify_all (wt_cv (wt_node p w)) p1"
    by (simp add: recycle_def handoff_Cons [OF assms] p1_def)
  have nw: "w \<notin> set ws" using assms by (simp add: wait_queue_def)
  then have "chain (wt_node p1) h ws = chain (wt_node p) h ws" for h
    by (intro chain_cong) (auto simp: p1_def)
  moreover have "(1 :: u32) + word_of_nat (length ws) - 1 = word_of_nat (length ws)" by simp
  ultimately have "wait_queue p1 ws"
    using assms nw by (auto simp: wait_queue_def p1_def split: if_splits)
  then show "wait_queue (recycle (Some b) p) ws" by (simp add: r)
  show "served (recycle (Some b) p) = (served p)(w := Some b)"
    by (auto simp: r p1_def served_def)
  have "pool_wf p1 = pool_wf p" by (simp add: p1_def pool_wf_def)
  then show "mo_free (recycle (Some b) p) = mo_free p" "mo_all (recycle (Some b) p) = mo_all p"
    "pool_wf (recycle (Some b) p) = pool_wf p"
    "mb_stopping (recycle (Some b) p) = mb_stopping p"
    "mu_inflight (recycle (Some b) p) = mu_inflight p"
    "\<And>v. wt_cv (wt_node (recycle (Some b) p) v) = wt_cv (wt_node p v)"
    "\<And>v. wt_done (wt_node (recycle (Some b) p) v) \<longleftrightarrow> v = w \<or> wt_done (wt_node p v)"
    "\<not> wt_asleep (wt_node (recycle (Some b) p) w)"
    "\<And>v. wt_asleep (wt_node (recycle (Some b) p) v) \<Longrightarrow> wt_asleep (wt_node p v)"
    by (simp add: r, auto simp: r p1_def split: if_splits)
qed

section \<open>FIFO service of a batch\<close>

text \<open>
  A queue of waiters that is served from the head. Whatever the representation, a batch of
  recycled buffers goes to the oldest waiters, one each and in order; only what is left when
  nobody waits reaches the free list.
\<close>

locale fifo_handoff =
  fixes queue :: "'s \<Rightarrow> 'w list \<Rightarrow> bool"
    and serve :: "'b \<Rightarrow> 's \<Rightarrow> 's"
    and result :: "'s \<Rightarrow> 'w \<Rightarrow> 'b option"
    and free :: "'s \<Rightarrow> 'b list"
  assumes queue_distinct: "queue s ws \<Longrightarrow> distinct ws"
    and serve_queue: "queue s (w # ws) \<Longrightarrow> queue (serve b s) ws"
    and serve_result: "queue s (w # ws) \<Longrightarrow> result (serve b s) = (result s)(w := Some b)"
    and serve_free: "queue s (w # ws) \<Longrightarrow> free (serve b s) = free s"
    and idle_queue: "queue s [] \<Longrightarrow> queue (serve b s) []"
    and idle_result: "queue s [] \<Longrightarrow> result (serve b s) = result s"
    and idle_free: "queue s [] \<Longrightarrow> free (serve b s) = free s @ [b]"
begin

lemma batch_queue: "queue s ws \<Longrightarrow> queue (fold serve bs s) (drop (length bs) ws)"
proof (induction bs arbitrary: s ws)
  case Nil
  then show ?case by simp
next
  case (Cons b bs)
  then show ?case
  proof (cases ws)
    case Nil
    with Cons.prems have "queue (serve b s) []" by (simp add: idle_queue)
    from Cons.IH [OF this] Nil show ?thesis by simp
  qed (auto simp: serve_queue)
qed

lemma batch_free: "queue s ws \<Longrightarrow> free (fold serve bs s) = free s @ drop (length ws) bs"
proof (induction bs arbitrary: s ws)
  case Nil
  then show ?case by simp
next
  case (Cons b bs)
  show ?case
  proof (cases ws)
    case Nil
    with Cons.prems have "queue (serve b s) []" by (simp add: idle_queue)
    from Cons.IH [OF this] Nil Cons.prems show ?thesis by (simp add: idle_free)
  next
    case (Cons w ws')
    with Cons.prems have "queue s (w # ws')" by simp
    with Cons.IH [OF serve_queue [OF this]] Cons show ?thesis by (simp add: serve_free)
  qed
qed

lemma batch_result:
  "queue s ws \<Longrightarrow> result (fold serve bs s) = result s ++ map_of (zip ws bs)"
proof (induction bs arbitrary: s ws)
  case Nil
  then show ?case by simp
next
  case (Cons b bs)
  show ?case
  proof (cases ws)
    case Nil
    with Cons.prems have "queue (serve b s) []" by (simp add: idle_queue)
    from Cons.IH [OF this] Nil Cons.prems show ?thesis by (simp add: idle_result)
  next
    case (Cons w ws')
    with Cons.prems have q: "queue s (w # ws')" by simp
    have "w \<notin> set ws'" using queue_distinct [OF q] by simp
    then have "map_of (zip ws' bs) w = None" by (auto simp: map_of_eq_None_iff dest: set_zip_leftD)
    with Cons.IH [OF serve_queue [OF q]] Cons q show ?thesis
      by (auto simp: serve_result map_add_def fun_eq_iff)
  qed
qed

end

lemma recycle_idle_served: "wait_queue p [] \<Longrightarrow> served (recycle (Some b) p) = served p"
  by (simp add: recycle_Nil served_def fun_eq_iff)

interpretation wq: fifo_handoff wait_queue "\<lambda>b. recycle (Some b)" served mo_free
proof unfold_locales
  fix p ws
  show "wait_queue p ws \<Longrightarrow> distinct ws" by (simp add: wait_queue_def)
next
  fix p b
  assume q: "wait_queue p []"
  show "wait_queue (recycle (Some b) p) []"
    using q by (simp add: recycle_Nil [OF q]) (simp add: wait_queue_def)
  show "served (recycle (Some b) p) = served p" by (rule recycle_idle_served [OF q])
qed (simp_all add: recycle_Cons recycle_Nil)

section \<open>Shutdown\<close>

lemma stop_loop_chain:
  "chain nd h ws \<Longrightarrow> distinct ws \<Longrightarrow> stop_loop nd h
     = Some (\<lambda>w. if w \<in> set ws then (nd w)\<lparr>wt_buf := None, wt_done := True\<rparr> else nd w)"
proof (induction ws arbitrary: nd h)
  case Nil
  then show ?case by (simp add: stop_loop.simps)
next
  case (Cons w ws)
  let ?nd = "nd(w := (nd w)\<lparr>wt_buf := None, wt_done := True\<rparr>)"
  have "chain ?nd (wt_next (nd w)) ws = chain nd (wt_next (nd w)) ws"
    using Cons.prems by (intro chain_cong) auto
  with Cons.prems Cons.IH [of ?nd "wt_next (nd w)"]
  have "stop_loop ?nd (wt_next (nd w))
      = Some (\<lambda>v. if v \<in> set ws then (?nd v)\<lparr>wt_buf := None, wt_done := True\<rparr> else ?nd v)"
    by (simp del: fun_upd_apply)
  moreover have "(\<lambda>v. if v \<in> set ws then (?nd v)\<lparr>wt_buf := None, wt_done := True\<rparr> else ?nd v)
      = (\<lambda>v. if v \<in> set (w # ws) then (nd v)\<lparr>wt_buf := None, wt_done := True\<rparr> else nd v)"
    using Cons.prems by (auto simp: fun_eq_iff)
  ultimately have "stop_loop ?nd (wt_next (nd w))
      = Some (\<lambda>v. if v \<in> set (w # ws) then (nd v)\<lparr>wt_buf := None, wt_done := True\<rparr> else nd v)"
    by (simp only:)
  moreover have "stop_loop nd h = stop_loop ?nd (wt_next (nd w))"
    using Cons.prems by (subst stop_loop.simps) simp
  ultimately show ?case by (simp only:)
qed

text \<open>Stopping returns, empties the queue and wakes every waiter with a null result.\<close>

lemma stop_waiters_spec:
  assumes "pool_wf p" and "wait_queue p ws"
    and "\<forall>w \<in> set ws. wt_cv (wt_node p w) < mz_wait_cv_count"
  obtains p' where "stop_waiters p = Some p'" "wait_queue p' []" "mb_stopping p'" "pool_wf p'"
    "owned p' = owned p" "mo_free p' = mo_free p" "mo_all p' = mo_all p"
    "mu_inflight p' = mu_inflight p"
    "\<And>w. w \<in> set ws \<Longrightarrow> wt_done (wt_node p' w) \<and> \<not> wt_asleep (wt_node p' w)"
    "served p' = (\<lambda>w. if w \<in> set ws then None else served p w)"
    "\<And>w. wt_done (wt_node p' w) \<longleftrightarrow> w \<in> set ws \<or> wt_done (wt_node p w)"
    "\<And>w. wt_cv (wt_node p' w) = wt_cv (wt_node p w)"
    "\<And>w. \<not> wt_asleep (wt_node p w) \<Longrightarrow> \<not> wt_asleep (wt_node p' w)"
proof -
  define nodes where
    "nodes = (\<lambda>w. if w \<in> set ws then (wt_node p w)\<lparr>wt_buf := None, wt_done := True\<rparr> else wt_node p w)"
  define p1 where "p1 = p\<lparr>mb_stopping := True, wt_node := nodes, mp_wait_head := None,
                mp_wait_tail := None, mu_wait_count := 0\<rparr>"
  have l: "stop_loop (wt_node p) (mp_wait_head p) = Some nodes"
    using assms(2) stop_loop_chain unfolding nodes_def wait_queue_def by blast
  have hd: "mp_wait_head p = None \<longleftrightarrow> ws = []"
    using assms(2) chain_head by (auto simp: wait_queue_def)
  have base: "wait_queue p1 []" "mb_stopping p1" "pool_wf p1 = pool_wf p" "owned p1 = owned p"
      "mo_free p1 = mo_free p" "mo_all p1 = mo_all p" "mu_inflight p1 = mu_inflight p"
    by (simp_all add: p1_def wait_queue_def pool_wf_def owned_def)
  have sv: "served p1 = (\<lambda>w. if w \<in> set ws then None else served p w)"
    by (auto simp: p1_def nodes_def served_def)
  have dn: "wt_done (wt_node p1 w) \<longleftrightarrow> w \<in> set ws \<or> wt_done (wt_node p w)" for w
    by (simp add: p1_def nodes_def)
  have cv: "wt_cv (wt_node p1 w) = wt_cv (wt_node p w)"
      "wt_asleep (wt_node p1 w) = wt_asleep (wt_node p w)" for w
    by (simp_all add: p1_def nodes_def)
  show ?thesis
  proof (cases "ws = []")
    case True
    then have "stop_waiters p = Some p1" using l hd by (simp add: stop_waiters_def p1_def)
    with base sv dn cv True assms(1) show ?thesis by (intro that [of p1]) auto
  next
    case False
    then have "stop_waiters p = Some (notify_every_shard p1)"
      using l hd by (simp add: stop_waiters_def p1_def)
    moreover have "\<not> wt_asleep (wt_node (notify_every_shard p1) w)" if "w \<in> set ws" for w
      using that assms(3) cv by (intro notify_every_shard_asleep) simp
    moreover have "\<not> wt_asleep (wt_node (notify_every_shard p1) w)" if "\<not> wt_asleep (wt_node p w)" for w
    proof -
      have "wt_asleep (wt_node (fold notify_all ks q) w) \<Longrightarrow> wt_asleep (wt_node q w)" for ks q
        by (induction ks arbitrary: q) fastforce+
      with that cv show ?thesis unfolding notify_every_shard_def by blast
    qed
    ultimately show ?thesis using base sv dn cv assms(1)
      by (intro that [of "notify_every_shard p1"]) (auto simp: notify_every_shard_frame)
  qed
qed

lemma stop_waiters_facts:
  assumes "pool_wf p" and "wait_queue p ws"
    and "\<forall>w \<in> set ws. wt_cv (wt_node p w) < mz_wait_cv_count"
    and "stop_waiters p = Some p'"
  shows "wait_queue p' []" and "mb_stopping p'" and "pool_wf p'" and "owned p' = owned p"
    and "mo_free p' = mo_free p" and "mo_all p' = mo_all p" and "mu_inflight p' = mu_inflight p"
    and "w \<in> set ws \<Longrightarrow> wt_done (wt_node p' w) \<and> \<not> wt_asleep (wt_node p' w)"
    and "served p' = (\<lambda>w. if w \<in> set ws then None else served p w)"
    and "wt_done (wt_node p' w) \<longleftrightarrow> w \<in> set ws \<or> wt_done (wt_node p w)"
    and "wt_cv (wt_node p' w) = wt_cv (wt_node p w)"
    and "\<not> wt_asleep (wt_node p w) \<Longrightarrow> \<not> wt_asleep (wt_node p' w)"
  by (rule stop_waiters_spec [OF assms(1-3)]; simp add: assms(4))+

lemma stop_waiters_size: "stop_waiters p = Some p' \<Longrightarrow> mz_buffer_size p' = mz_buffer_size p"
proof -
  have "mz_buffer_size (fold notify_all ks q) = mz_buffer_size q" for ks q
    by (induction ks arbitrary: q) (auto simp: notify_all_def)
  then show "stop_waiters p = Some p' \<Longrightarrow> mz_buffer_size p' = mz_buffer_size p"
    by (auto simp: stop_waiters_def notify_every_shard_def Let_def split: bind_splits if_splits)
qed

end
