(* ===== verification/P8_Pool_Sys.thy ===== *)
theory P8_Pool_Sys
  imports P8_Wait_Queue
begin

text \<open>
  The buffer pool with all its client threads: a transition system whose steps are the
  critical sections of engine/p8_buffer_pool.cpp in any order, any spurious wakeup included.
  The state adds to the pool what the clients hold: the threads inside \<open>acquire_wait\<close>, those
  between its unlock and its last access, and the buffers the clients own.
\<close>

section \<open>The system\<close>

record pool_sys =
  ps_pool :: buffer_pool
  ps_inside :: "nat set"
  ps_leaving :: "nat set"
  ps_held :: "addr set"

definition pool_sys_init :: "buffer_pool \<Rightarrow> pool_sys" where
  "pool_sys_init p = \<lparr>ps_pool = p, ps_inside = {}, ps_leaving = {}, ps_held = {}\<rparr>"

text \<open>A spurious wakeup of a condition variable.\<close>

definition wake :: "nat \<Rightarrow> buffer_pool \<Rightarrow> buffer_pool" where
  "wake w p = p\<lparr>wt_node := (wt_node p)(w := (wt_node p w)\<lparr>wt_asleep := False\<rparr>)\<rparr>"

text \<open>
  \<open>st_try\<close> is \<open>lock; acquire_no_lock; unlock\<close>, \<open>st_take\<close>, \<open>st_refuse\<close> and \<open>st_park\<close> the
  three ways through the entry of \<open>acquire_wait\<close>. A thread parks with its own node, which
  no thread inside the call uses; fewer than 2^32 threads are inside at a time, the range of
  \<open>mu_inflight\<close>.
\<close>

inductive pool_step :: "pool_sys \<Rightarrow> pool_sys \<Rightarrow> bool" where
  st_try: "acquire_no_lock (ps_pool s) = (r, p) \<Longrightarrow>
     pool_step s (s\<lparr>ps_pool := p, ps_held := ps_held s \<union> set_option r\<rparr>)"
| st_take: "acquire_wait_enter w (ps_pool s) = (Acquired b, p) \<Longrightarrow>
     pool_step s (s\<lparr>ps_pool := p, ps_held := insert b (ps_held s)\<rparr>)"
| st_refuse: "acquire_wait_enter w (ps_pool s) = (Refused, p) \<Longrightarrow>
     pool_step s (s\<lparr>ps_pool := p\<rparr>)"
| st_park: "acquire_wait_enter w (ps_pool s) = (Parked, p) \<Longrightarrow>
     w \<notin> ps_inside s \<Longrightarrow> w \<notin> ps_leaving s \<Longrightarrow>
     card (ps_inside s) + card (ps_leaving s) + 1 < 2 ^ 32 \<Longrightarrow>
     pool_step s (s\<lparr>ps_pool := p, ps_inside := insert w (ps_inside s)\<rparr>)"
| st_wake: "w \<in> ps_inside s \<Longrightarrow> pool_step s (s\<lparr>ps_pool := wake w (ps_pool s)\<rparr>)"
| st_sleep: "w \<in> ps_inside s \<Longrightarrow> acquire_wait_resume w (ps_pool s) = (None, p) \<Longrightarrow>
     pool_step s (s\<lparr>ps_pool := p\<rparr>)"
| st_resume: "w \<in> ps_inside s \<Longrightarrow> acquire_wait_resume w (ps_pool s) = (Some r, p) \<Longrightarrow>
     pool_step s (s\<lparr>ps_pool := p, ps_inside := ps_inside s - {w},
       ps_leaving := insert w (ps_leaving s), ps_held := ps_held s \<union> set_option r\<rparr>)"
| st_leave: "w \<in> ps_leaving s \<Longrightarrow>
     pool_step s (s\<lparr>ps_pool := acquire_wait_leave (ps_pool s), ps_leaving := ps_leaving s - {w}\<rparr>)"
| st_recycle: "b \<in> ps_held s \<Longrightarrow>
     pool_step s (s\<lparr>ps_pool := recycle (Some b) (ps_pool s), ps_held := ps_held s - {b}\<rparr>)"
| st_batch: "distinct bs \<Longrightarrow> set bs \<subseteq> ps_held s \<Longrightarrow>
     pool_step s (s\<lparr>ps_pool := recycle_batch (map Some bs) (ps_pool s),
       ps_held := ps_held s - set bs\<rparr>)"
| st_stop: "stop_waiters (ps_pool s) = Some p \<Longrightarrow> pool_step s (s\<lparr>ps_pool := p\<rparr>)"

inductive pool_reach :: "buffer_pool \<Rightarrow> pool_sys \<Rightarrow> bool" for p0 where
  reach_init: "pool_reach p0 (pool_sys_init p0)"
| reach_step: "pool_reach p0 s \<Longrightarrow> pool_step s t \<Longrightarrow> pool_reach p0 t"

section \<open>The invariant\<close>

text \<open>\<open>handed s\<close>: buffers given to a thread that has not yet picked them up.\<close>

definition handed :: "pool_sys \<Rightarrow> addr set" where
  "handed s = {b. \<exists>w \<in> ps_inside s. served (ps_pool s) w = Some b}"

definition waiters_ok :: "nat list \<Rightarrow> pool_sys \<Rightarrow> bool" where
  "waiters_ok ws s \<longleftrightarrow> wait_queue (ps_pool s) ws \<and> set ws \<subseteq> ps_inside s
     \<and> (\<forall>w \<in> ps_inside s. w \<notin> set ws \<longrightarrow> wt_done (wt_node (ps_pool s) w))
     \<and> (\<forall>w \<in> ps_inside s. wt_cv (wt_node (ps_pool s) w) < mz_wait_cv_count)
     \<and> (\<forall>w \<in> ps_inside s. wt_done (wt_node (ps_pool s) w) \<longrightarrow> \<not> wt_asleep (wt_node (ps_pool s) w))
     \<and> (ws \<noteq> [] \<longrightarrow> mo_free (ps_pool s) = [] \<and> \<not> mb_stopping (ps_pool s))"

definition ownership_ok :: "pool_sys \<Rightarrow> bool" where
  "ownership_ok s \<longleftrightarrow> owned (ps_pool s) = ps_held s \<union> handed s \<and> ps_held s \<inter> handed s = {}
     \<and> inj_on (served (ps_pool s)) {w \<in> ps_inside s. served (ps_pool s) w \<noteq> None}"

definition inflight_ok :: "pool_sys \<Rightarrow> bool" where
  "inflight_ok s \<longleftrightarrow> finite (ps_inside s) \<and> finite (ps_leaving s) \<and> ps_inside s \<inter> ps_leaving s = {}
     \<and> unat (mu_inflight (ps_pool s)) = card (ps_inside s) + card (ps_leaving s)"

definition pool_inv :: "nat list \<Rightarrow> pool_sys \<Rightarrow> bool" where
  "pool_inv ws s \<longleftrightarrow> pool_wf (ps_pool s) \<and> waiters_ok ws s \<and> ownership_ok s \<and> inflight_ok s"

lemma pool_inv_cong:
  assumes "pool_inv ws s" and "pool_wf p" and "wait_part p = wait_part (ps_pool s)"
    and "owned p = owned (ps_pool s)" and "ws \<noteq> [] \<Longrightarrow> mo_free p = []"
  shows "pool_inv ws (s\<lparr>ps_pool := p\<rparr>)"
  using assms wait_queue_cong [OF assms(3)]
  by (auto simp: pool_inv_def waiters_ok_def ownership_ok_def inflight_ok_def handed_def wait_part_def)

lemma owned_recycle_Nil:
  assumes "pool_wf p" and "wait_queue p []" and "b \<in> owned p"
  shows "pool_wf (recycle (Some b) p)" and "owned (recycle (Some b) p) = owned p - {b}"
  using assms by (auto simp: recycle_Nil pool_wf_def owned_def)

text \<open>One buffer held by a client goes to the head of the queue, or to the free list.\<close>

lemma inv_recycle:
  assumes inv: "pool_inv ws s" and held: "b \<in> ps_held s"
  shows "pool_inv (tl ws) (s\<lparr>ps_pool := recycle (Some b) (ps_pool s), ps_held := ps_held s - {b}\<rparr>)"
proof (cases ws)
  case Nil
  with inv have q: "wait_queue (ps_pool s) []" and wf: "pool_wf (ps_pool s)"
    by (auto simp: pool_inv_def waiters_ok_def)
  have bo: "b \<in> owned (ps_pool s)" using inv held by (auto simp: pool_inv_def ownership_ok_def)
  note o = owned_recycle_Nil [OF wf q bo]
  have w: "wait_part (recycle (Some b) (ps_pool s)) = wait_part (ps_pool s)"
    by (simp add: recycle_Nil [OF q] wait_part_def)
  note c = wait_queue_cong [OF w]
  from w have nodes: "wt_node (recycle (Some b) (ps_pool s)) = wt_node (ps_pool s)"
      "mu_inflight (recycle (Some b) (ps_pool s)) = mu_inflight (ps_pool s)"
    by (auto simp: wait_part_def)
  from inv held Nil o c nodes show ?thesis
    by (auto simp: pool_inv_def waiters_ok_def ownership_ok_def inflight_ok_def handed_def)
next
  case (Cons w ws')
  with inv have q: "wait_queue (ps_pool s) (w # ws')" and wi: "w \<in> ps_inside s"
    by (auto simp: pool_inv_def waiters_ok_def)
  note r = recycle_Cons [OF q, of b]
  have nd: "w \<notin> set ws'" "\<not> wt_done (wt_node (ps_pool s) w)"
    using q by (auto simp: wait_queue_def)
  then have sw: "served (ps_pool s) w = None" by (simp add: served_def)
  let ?t = "s\<lparr>ps_pool := recycle (Some b) (ps_pool s), ps_held := ps_held s - {b}\<rparr>"
  have own: "owned (recycle (Some b) (ps_pool s)) = owned (ps_pool s)" by (simp add: owned_def r)
  have h: "handed ?t = insert b (handed s)"
  proof -
    have "v \<noteq> w" if "served (ps_pool s) v = Some x" for v x using that sw by auto
    then show ?thesis using wi by (auto simp: handed_def r)
  qed
  have hb: "\<And>v. v \<in> ps_inside s \<Longrightarrow> served (ps_pool s) v \<noteq> Some b"
    using inv held by (auto simp: pool_inv_def ownership_ok_def handed_def)
  have inj: "inj_on ((served (ps_pool s))(w := Some b)) {v \<in> ps_inside s. ((served (ps_pool s))(w := Some b)) v \<noteq> None}"
    using inv hb unfolding pool_inv_def ownership_ok_def inj_on_def by (metis (mono_tags, lifting) fun_upd_apply mem_Collect_eq)
  have "ownership_ok ?t"
    using inv held own inj by (auto simp: pool_inv_def ownership_ok_def h r)
  moreover have "waiters_ok ws' ?t"
    using inv Cons r nd by (auto simp: pool_inv_def waiters_ok_def)
  ultimately show ?thesis using inv r Cons by (auto simp: pool_inv_def inflight_ok_def)
qed

lemma inv_recycle_batch:
  assumes "pool_inv ws s" and "distinct bs" and "set bs \<subseteq> ps_held s"
  shows "pool_inv (drop (length bs) ws)
    (s\<lparr>ps_pool := recycle_batch (map Some bs) (ps_pool s), ps_held := ps_held s - set bs\<rparr>)"
  using assms
proof (induction bs arbitrary: s ws)
  case Nil
  then show ?case by (simp add: recycle_batch_def)
next
  case (Cons b bs)
  let ?t = "s\<lparr>ps_pool := recycle (Some b) (ps_pool s), ps_held := ps_held s - {b}\<rparr>"
  have "pool_inv (tl ws) ?t" using Cons.prems by (intro inv_recycle) auto
  from Cons.IH [OF this] Cons.prems have
    "pool_inv (drop (length bs) (tl ws)) (?t\<lparr>ps_pool := recycle_batch (map Some bs) (ps_pool ?t),
       ps_held := ps_held ?t - set bs\<rparr>)"
    by auto
  moreover have "ps_held s - insert b (set bs) = ps_held s - {b} - set bs" by auto
  ultimately show ?case by (simp add: recycle_batch_def drop_Suc)
qed

lemma inv_take:
  assumes inv: "pool_inv ws s" and a: "acquire_no_lock (ps_pool s) = (Some b, p)"
  shows "pool_inv ws (s\<lparr>ps_pool := p, ps_held := insert b (ps_held s)\<rparr>)"
proof -
  have wf: "pool_wf (ps_pool s)" using inv by (simp add: pool_inv_def)
  note f = acquire_no_lock_Some [OF wf a] and c = wait_queue_cong [OF acquire_no_lock_Some(4) [OF wf a]]
  have "mo_free p = []" if "mo_free (ps_pool s) = []"
  proof -
    from that a obtain q where "pool_grow (ps_pool s) = (True, q)" "p = q\<lparr>mo_free := tl (mo_free q)\<rparr>"
      by (auto simp: acquire_no_lock_def split: prod.splits bool.splits)
    with pool_grow_fields(2) that show ?thesis by (auto simp: new_bufs_def)
  qed
  moreover have nodes: "wt_node p = wt_node (ps_pool s)" "mb_stopping p = mb_stopping (ps_pool s)"
      "mu_inflight p = mu_inflight (ps_pool s)"
    using f(4) by (auto simp: wait_part_def)
  ultimately show ?thesis
    using inv f(1-3) c
    by (auto simp: pool_inv_def waiters_ok_def ownership_ok_def inflight_ok_def handed_def)
qed

lemma inv_no_buffer:
  assumes "pool_inv ws s" and "acquire_no_lock (ps_pool s) = (None, p)"
  shows "pool_inv ws (s\<lparr>ps_pool := p\<rparr>)"
  using assms acquire_no_lock_None [of "ps_pool s" p]
  by (intro pool_inv_cong) (auto simp: pool_inv_def)

lemma inv_park:
  assumes inv: "pool_inv ws s" and e: "acquire_wait_enter w (ps_pool s) = (Parked, p)"
    and new: "w \<notin> ps_inside s" "w \<notin> ps_leaving s"
    and room: "card (ps_inside s) + card (ps_leaving s) + 1 < 2 ^ 32"
  shows "pool_inv (ws @ [w]) (s\<lparr>ps_pool := p, ps_inside := insert w (ps_inside s)\<rparr>)"
proof -
  from inv have wf: "pool_wf (ps_pool s)" and q: "wait_queue (ps_pool s) ws"
    and sub: "set ws \<subseteq> ps_inside s" and fin: "finite (ps_inside s)"
    by (auto simp: pool_inv_def waiters_ok_def inflight_ok_def)
  have "length ws \<le> card (ps_inside s)"
    using q sub fin by (metis card_mono distinct_card wait_queue_def)
  with room have len: "length ws + 1 < 2 ^ 32" by simp
  have nw: "w \<notin> set ws" using new sub by auto
  note p = enter_Parked [OF wf q nw len e]
  let ?t = "s\<lparr>ps_pool := p, ps_inside := insert w (ps_inside s)\<rparr>"
  have done_cv: "wt_done (wt_node p v) = wt_done (wt_node (ps_pool s) v)
      \<and> wt_cv (wt_node p v) = wt_cv (wt_node (ps_pool s) v)
      \<and> wt_asleep (wt_node p v) = wt_asleep (wt_node (ps_pool s) v)" if "v \<in> ps_inside s" for v
    using p(10) [of v] that new by auto
  have nd: "\<not> wt_done (wt_node p w)" using p(1) by (simp add: wait_queue_def)
  have "handed ?t = handed s" using new p(5) by (auto simp: handed_def)
  moreover have "{v \<in> insert w (ps_inside s). served p v \<noteq> None}
      = {v \<in> ps_inside s. served (ps_pool s) v \<noteq> None}" using new p(5) by auto
  moreover have "inj_on (served p) {v \<in> ps_inside s. served (ps_pool s) v \<noteq> None}
      = inj_on (served (ps_pool s)) {v \<in> ps_inside s. served (ps_pool s) v \<noteq> None}"
    using new p(5) by (intro inj_on_cong) auto
  ultimately have "ownership_ok ?t" using inv p(3) by (simp add: pool_inv_def ownership_ok_def)
  moreover have "waiters_ok (ws @ [w]) ?t"
    using inv p(1,4,6,9) done_cv nd by (auto simp: pool_inv_def waiters_ok_def)
  moreover have "unat (mu_inflight p) = unat (mu_inflight (ps_pool s)) + 1"
    using inv room p(8) by (simp add: pool_inv_def inflight_ok_def unat_word_ariths)
  then have "inflight_ok ?t"
    using inv new by (simp add: pool_inv_def inflight_ok_def)
  ultimately show ?thesis using p(2) by (simp add: pool_inv_def)
qed

lemma enter_other:
  "acquire_wait_enter w p = (Acquired b, p') \<Longrightarrow> acquire_no_lock p = (Some b, p')"
  "acquire_wait_enter w p = (Refused, p') \<Longrightarrow> acquire_no_lock p = (None, p') \<and> mb_stopping p'"
  by (auto simp: acquire_wait_enter_def Let_def split: prod.splits option.splits if_splits)

text \<open>Sleeping and waking change \<open>wt_asleep\<close> only.\<close>

lemma inv_asleep:
  assumes inv: "pool_inv ws s"
    and up: "p = (ps_pool s)\<lparr>wt_node := (wt_node (ps_pool s))(w := (wt_node (ps_pool s) w)\<lparr>wt_asleep := a\<rparr>)\<rparr>"
    and ok: "wt_done (wt_node (ps_pool s) w) \<Longrightarrow> \<not> a"
  shows "pool_inv ws (s\<lparr>ps_pool := p\<rparr>)"
proof -
  have sv: "served p = served (ps_pool s)" by (auto simp: up served_def)
  have ch: "chain (wt_node p) h ws = chain (wt_node (ps_pool s)) h ws" for h
    by (rule chain_cong) (simp add: up)
  have fr: "mp_wait_head p = mp_wait_head (ps_pool s)" "mp_wait_tail p = mp_wait_tail (ps_pool s)"
    "mu_wait_count p = mu_wait_count (ps_pool s)" "mo_free p = mo_free (ps_pool s)"
    "mb_stopping p = mb_stopping (ps_pool s)" "mu_inflight p = mu_inflight (ps_pool s)"
    "pool_wf p = pool_wf (ps_pool s)" "owned p = owned (ps_pool s)"
    by (simp_all add: up pool_wf_def owned_def)
  have nd: "wt_done (wt_node p v) = wt_done (wt_node (ps_pool s) v)"
    "wt_cv (wt_node p v) = wt_cv (wt_node (ps_pool s) v)"
    "wt_asleep (wt_node p v) = (if v = w then a else wt_asleep (wt_node (ps_pool s) v))" for v
    by (simp_all add: up)
  show ?thesis using inv ok
    by (simp add: pool_inv_def waiters_ok_def ownership_ok_def inflight_ok_def handed_def
        wait_queue_def ch sv fr nd)
qed

lemma resume_cases:
  "acquire_wait_resume w p = (None, p') \<Longrightarrow> p' = p \<or>
     (\<not> wt_done (wt_node p w) \<and> p' = p\<lparr>wt_node := (wt_node p)(w := (wt_node p w)\<lparr>wt_asleep := True\<rparr>)\<rparr>)"
  "acquire_wait_resume w p = (Some r, p') \<Longrightarrow> p' = p \<and> wt_done (wt_node p w) \<and> r = wt_buf (wt_node p w)"
  by (auto simp: acquire_wait_resume_def split: if_splits)

lemma inv_resume:
  assumes inv: "pool_inv ws s" and w: "w \<in> ps_inside s"
    and r: "acquire_wait_resume w (ps_pool s) = (Some r, p)"
  shows "pool_inv ws (s\<lparr>ps_pool := p, ps_inside := ps_inside s - {w},
       ps_leaving := insert w (ps_leaving s), ps_held := ps_held s \<union> set_option r\<rparr>)"
proof -
  from resume_cases(2) [OF r] have p: "p = ps_pool s" and d: "wt_done (wt_node p w)"
    and rb: "r = served p w" by (auto simp: served_def)
  let ?t = "s\<lparr>ps_pool := p, ps_inside := ps_inside s - {w},
       ps_leaving := insert w (ps_leaving s), ps_held := ps_held s \<union> set_option r\<rparr>"
  have nws: "w \<notin> set ws" using inv d p by (auto simp: pool_inv_def waiters_ok_def wait_queue_def)
  have inj: "inj_on (served p) {v \<in> ps_inside s. served p v \<noteq> None}"
    using inv by (simp add: pool_inv_def ownership_ok_def p)
  have hs1: "handed s = handed ?t \<union> set_option r"
  proof -
    have "x \<in> handed s \<longleftrightarrow> x \<in> handed ?t \<or> served p w = Some x" for x
      using w by (cases "served p w = Some x") (auto simp: handed_def p)
    then show ?thesis by (auto simp: rb)
  qed
  have hs2: "handed ?t \<inter> set_option r = {}"
  proof -
    have "v = w" if "v \<in> ps_inside s" "served p v = Some x" "served p w = Some x" for v x
      using inj_onD [OF inj, of v w] that w by simp
    then show ?thesis by (auto simp: handed_def rb p)
  qed
  have "inj_on (served p) {v \<in> ps_inside s - {w}. served p v \<noteq> None}"
    using inj by (rule inj_on_subset) auto
  moreover have "owned p = ps_held s \<union> handed s" "ps_held s \<inter> handed s = {}"
    using inv by (auto simp: pool_inv_def ownership_ok_def p)
  then have "owned p = (ps_held s \<union> set_option r) \<union> handed ?t"
      "(ps_held s \<union> set_option r) \<inter> handed ?t = {}"
    using hs1 hs2 by blast+
  ultimately have "ownership_ok ?t"
    by (simp add: ownership_ok_def)
  moreover have "waiters_ok ws ?t" using inv nws by (auto simp: pool_inv_def waiters_ok_def p)
  moreover have "inflight_ok ?t"
  proof -
    have fin: "finite (ps_inside s)" "finite (ps_leaving s)" "w \<notin> ps_leaving s"
      using inv w by (auto simp: pool_inv_def inflight_ok_def)
    then have "card (ps_inside s - {w}) + 1 = card (ps_inside s)"
      using w by (metis card_Suc_Diff1 Suc_eq_plus1)
    with fin inv w show ?thesis by (auto simp: pool_inv_def inflight_ok_def p)
  qed
  ultimately show ?thesis using inv by (simp add: pool_inv_def p)
qed

lemma inv_leave:
  assumes inv: "pool_inv ws s" and w: "w \<in> ps_leaving s"
  shows "pool_inv ws (s\<lparr>ps_pool := acquire_wait_leave (ps_pool s), ps_leaving := ps_leaving s - {w}\<rparr>)"
proof -
  let ?p = "acquire_wait_leave (ps_pool s)"
  have wp: "wait_queue ?p ws = wait_queue (ps_pool s) ws" "served ?p = served (ps_pool s)"
    "wt_node ?p = wt_node (ps_pool s)" "pool_wf ?p = pool_wf (ps_pool s)"
    "owned ?p = owned (ps_pool s)" "mo_free ?p = mo_free (ps_pool s)"
    "mb_stopping ?p = mb_stopping (ps_pool s)" "mu_inflight ?p = mu_inflight (ps_pool s) - 1"
    by (simp_all add: acquire_wait_leave_def wait_queue_def served_def pool_wf_def owned_def fun_eq_iff)
  have fin: "finite (ps_leaving s)" "unat (mu_inflight (ps_pool s)) = card (ps_inside s) + card (ps_leaving s)"
    using inv by (auto simp: pool_inv_def inflight_ok_def)
  have c: "card (ps_leaving s - {w}) + 1 = card (ps_leaving s)" using fin w by (metis card_Suc_Diff1 Suc_eq_plus1)
  then have "mu_inflight (ps_pool s) \<noteq> 0" using fin by auto
  then have "unat (mu_inflight (ps_pool s) - 1) = unat (mu_inflight (ps_pool s)) - 1"
    by (metis unat_minus_one)
  with fin c inv show ?thesis
    by (auto simp: pool_inv_def inflight_ok_def waiters_ok_def ownership_ok_def handed_def wp)
qed

lemma inv_stop:
  assumes inv: "pool_inv ws s" and e: "stop_waiters (ps_pool s) = Some p"
  shows "pool_inv [] (s\<lparr>ps_pool := p\<rparr>)" and "mb_stopping p"
    and "\<And>w. w \<in> ps_inside s \<Longrightarrow> wt_done (wt_node p w) \<and> \<not> wt_asleep (wt_node p w)"
proof -
  from inv have pre: "pool_wf (ps_pool s)" "wait_queue (ps_pool s) ws"
    "\<forall>w \<in> set ws. wt_cv (wt_node (ps_pool s) w) < mz_wait_cv_count"
    by (auto simp: pool_inv_def waiters_ok_def)
  note f = stop_waiters_facts [OF this e]
  have "served (ps_pool s) w = None" if "w \<in> set ws" for w
    using that pre(2) by (auto simp: wait_queue_def served_def)
  with f(9) have sv: "served p = served (ps_pool s)" by auto
  show "mb_stopping p" by (rule f(2))
  show *: "wt_done (wt_node p w) \<and> \<not> wt_asleep (wt_node p w)" if "w \<in> ps_inside s" for w
  proof (cases "w \<in> set ws")
    case True
    from f(8) [OF this] show ?thesis .
  next
    case False
    with inv that have "wt_done (wt_node (ps_pool s) w) \<and> \<not> wt_asleep (wt_node (ps_pool s) w)"
      by (auto simp: pool_inv_def waiters_ok_def)
    with f(10,12) show ?thesis by simp
  qed
  show "pool_inv [] (s\<lparr>ps_pool := p\<rparr>)"
    using inv f(1-7,11) *
    by (simp add: pool_inv_def waiters_ok_def ownership_ok_def inflight_ok_def handed_def sv)
qed

section \<open>Reachable states\<close>

lemma pool_step_inv:
  assumes "pool_step s t" and "pool_inv ws s"
  shows "\<exists>ws'. pool_inv ws' t"
  using assms
proof (induction rule: pool_step.induct)
  case (st_try s r p)
  then show ?case using inv_take inv_no_buffer by (cases r) fastforce+
next
  case (st_take w s b p)
  then show ?case using inv_take enter_other(1) by blast
next
  case (st_refuse w s p)
  then show ?case using inv_no_buffer enter_other(2) by blast
next
  case (st_wake w s)
  then show ?case using inv_asleep [of ws s "wake w (ps_pool s)" w False] by (auto simp: wake_def)
next
  case (st_sleep w s p)
  from resume_cases(1) [OF st_sleep(2)] show ?case
    using st_sleep(3) inv_asleep [of ws s p w True] by auto
qed (blast intro: inv_park inv_resume inv_leave inv_recycle inv_recycle_batch inv_stop)+

definition pool_start :: "buffer_pool \<Rightarrow> bool" where
  "pool_start p \<longleftrightarrow> pool_wf p \<and> owned p = {} \<and> wait_queue p [] \<and> \<not> mb_stopping p \<and> mu_inflight p = 0"

lemma pool_reach_inv:
  assumes "pool_reach p0 s" and "pool_start p0"
  obtains ws where "pool_inv ws s"
proof -
  from assms have "\<exists>ws. pool_inv ws s"
  proof (induction rule: pool_reach.induct)
    case reach_init
    then have "pool_inv [] (pool_sys_init p0)"
      by (simp add: pool_inv_def pool_sys_init_def pool_start_def waiters_ok_def ownership_ok_def
          inflight_ok_def handed_def)
    then show ?case ..
  next
    case (reach_step s t)
    then show ?case using pool_step_inv by blast
  qed
  then show thesis using that by blast
qed

lemma pool_init_loop_start:
  "pool_start p \<Longrightarrow> pool_init_loop n k p = (k', p') \<Longrightarrow>
    pool_start p' \<and> k \<le> k' \<and> k' \<le> k + n \<and> length (mo_all p') = length (mo_all p) + (k' - k)
    \<and> mz_buffer_size p' = mz_buffer_size p"
proof (induction n arbitrary: k p)
  case 0
  then show ?case by simp
next
  case (Suc n)
  obtain ok q where g: "pool_grow p = (ok, q)" by fastforce
  note f = pool_grow_fields [OF g] and c = wait_queue_cong [OF pool_grow_fields(3) [OF g]]
  have w: "pool_wf p" using Suc.prems by (simp add: pool_start_def)
  have "mb_stopping q = mb_stopping p" "mu_inflight q = mu_inflight p"
    using f(3) by (auto simp: wait_part_def)
  then have q: "pool_start q" using Suc.prems pool_grow_wf [OF w g] c by (simp add: pool_start_def)
  show ?case
  proof (cases ok)
    case True
    with Suc.prems g have "pool_init_loop n (Suc k) q = (k', p')" by simp
    from Suc.IH [OF q this] f True show ?thesis by (auto simp: new_bufs_def)
  next
    case False
    with Suc.prems g q f show ?thesis by (auto simp: new_bufs_def)
  qed
qed

lemma pool_create_start:
  "pool_start (pool_create n (map_option (\<lambda>m. \<lparr>mu_used = 0, mz_max = m\<rparr>) cap) fail)"
proof -
  have "wait_queue (pool_create n b fail) []" for b
    by (simp add: wait_queue_def pool_create_def)
  moreover have "\<not> mb_stopping (pool_create n b fail) \<and> mu_inflight (pool_create n b fail) = 0" for b
    by (simp add: pool_create_def)
  ultimately show ?thesis
    unfolding pool_start_def using pool_create_wf pool_create_owned by blast
qed

lemma pool_init_start: "pool_start p \<Longrightarrow> pool_start (snd (pool_init k p))"
proof -
  assume "pool_start p"
  moreover obtain n q where e: "pool_init_loop k 0 p = (n, q)" by fastforce
  ultimately have "pool_start q" using pool_init_loop_start by blast
  with e show ?thesis by (simp add: pool_init_def)
qed

lemma stop_waiters_returns:
  "pool_inv ws s \<Longrightarrow> \<exists>p. stop_waiters (ps_pool s) = Some p"
  by (rule stop_waiters_spec [of "ps_pool s" ws]) (auto simp: pool_inv_def waiters_ok_def)

section \<open>Correctness of the pool\<close>

text \<open>
  C8 Conservation. Whatever the threads do, every allocated buffer is in exactly one place (the
  free list, a client, or handed to a thread that has not picked it up), no buffer is listed
  twice, and the budget holds exactly the pool's bytes and never more than its cap.
\<close>

theorem pool_conservation:
  assumes "pool_start p0" and "pool_reach p0 s"
  shows "set (mo_all (ps_pool s)) = set (mo_free (ps_pool s)) \<union> ps_held s \<union> handed s
    \<and> set (mo_free (ps_pool s)) \<inter> (ps_held s \<union> handed s) = {} \<and> ps_held s \<inter> handed s = {}
    \<and> distinct (mo_all (ps_pool s)) \<and> distinct (mo_free (ps_pool s))
    \<and> (case mp_budget (ps_pool s) of None \<Rightarrow> True | Some b \<Rightarrow>
          unat (mu_used b) = length (mo_all (ps_pool s)) * unat (mz_buffer_size (ps_pool s))
          \<and> mu_used b \<le> mz_max b)"
proof -
  from pool_reach_inv [OF assms(2,1)] obtain ws where inv: "pool_inv ws s" .
  then have wf: "pool_wf (ps_pool s)" and own: "ownership_ok s" by (auto simp: pool_inv_def)
  have "set (mo_all (ps_pool s)) = set (mo_free (ps_pool s)) \<union> owned (ps_pool s)"
    "set (mo_free (ps_pool s)) \<inter> owned (ps_pool s) = {}"
    using wf by (auto simp: pool_wf_def owned_def)
  moreover have "budget_exact (ps_pool s)" using wf by (simp add: pool_wf_def)
  ultimately show ?thesis using wf own
    by (auto simp: pool_wf_def ownership_ok_def budget_exact_def word_le_nat_alt split: option.splits)
qed

text \<open>
  C9 No lost wakeup. A thread that waits unserved implies that the free list is empty and that
  the pool is not stopping; a thread that was served, with a buffer or by shutdown, is awake and
  its next look at the predicate returns that result.
\<close>

theorem pool_no_lost_wakeup:
  assumes "pool_start p0" and "pool_reach p0 s" and "w \<in> ps_inside s"
  shows "if wt_done (wt_node (ps_pool s) w)
    then acquire_wait_resume w (ps_pool s) = (Some (served (ps_pool s) w), ps_pool s)
    else mo_free (ps_pool s) = [] \<and> \<not> mb_stopping (ps_pool s) \<and> mu_wait_count (ps_pool s) \<noteq> 0"
proof -
  from pool_reach_inv [OF assms(2,1)] obtain ws where inv: "pool_inv ws s" .
  then have ok: "waiters_ok ws s" by (simp add: pool_inv_def)
  show ?thesis
  proof (cases "wt_done (wt_node (ps_pool s) w)")
    case True
    with ok assms(3) show ?thesis by (auto simp: waiters_ok_def acquire_wait_resume_def served_def)
  next
    case False
    with ok assms(3) have "w \<in> set ws" by (auto simp: waiters_ok_def)
    with ok False wait_queue_count show ?thesis by (fastforce simp: waiters_ok_def)
  qed
qed

text \<open>
  FIFO service. Recycling a batch gives its buffers, in order, to the oldest waiters, one
  each; only what is left over reaches the free list.
\<close>

lemma recycle_batch_fifo:
  assumes "wait_queue p ws"
  shows "wait_queue (recycle_batch (map Some bs) p) (drop (length bs) ws)
    \<and> served (recycle_batch (map Some bs) p) = served p ++ map_of (zip ws bs)
    \<and> mo_free (recycle_batch (map Some bs) p) = mo_free p @ drop (length ws) bs"
  using wq.batch_queue [OF assms, of bs] wq.batch_result [OF assms, of bs] wq.batch_free [OF assms, of bs]
  by (simp_all add: recycle_batch_def fold_map comp_def)

text \<open>
  C36 Shutdown of the waiters. Stopping always returns; afterwards every thread inside
  \<open>acquire_wait\<close> gets a result at its next look, unserved ones the null buffer, the queue is
  empty, and no later entry parks.
\<close>

theorem pool_stop_releases:
  assumes "pool_start p0" and "pool_reach p0 s"
  shows "\<exists>p. stop_waiters (ps_pool s) = Some p \<and> mu_wait_count p = 0
    \<and> (\<forall>w \<in> ps_inside s. \<exists>r. acquire_wait_resume w p = (Some r, p)
         \<and> (\<not> wt_done (wt_node (ps_pool s) w) \<longrightarrow> r = None))
    \<and> (\<forall>w. fst (acquire_wait_enter w p) \<noteq> Parked)"
proof -
  from pool_reach_inv [OF assms(2,1)] obtain ws where inv: "pool_inv ws s" .
  from stop_waiters_returns [OF this] obtain p where e: "stop_waiters (ps_pool s) = Some p" ..
  note st = inv_stop [OF inv e]
  from st(1) have wf: "pool_wf p" and q: "wait_queue p []"
    by (auto simp: pool_inv_def waiters_ok_def)
  have un: "served p w = None" if "w \<in> ps_inside s" "\<not> wt_done (wt_node (ps_pool s) w)" for w
  proof -
    have "w \<in> set ws" using inv that by (auto simp: pool_inv_def waiters_ok_def)
    moreover have "pool_wf (ps_pool s)" "wait_queue (ps_pool s) ws"
      "\<forall>w \<in> set ws. wt_cv (wt_node (ps_pool s) w) < mz_wait_cv_count"
      using inv by (auto simp: pool_inv_def waiters_ok_def)
    ultimately show ?thesis using stop_waiters_facts(9) [OF _ _ _ e] by auto
  qed
  have "fst (acquire_wait_enter w p) \<noteq> Parked" for w
  proof (cases "acquire_no_lock p")
    case (Pair r p')
    with acquire_no_lock_None(3) [OF wf] st(2) show ?thesis
      by (cases r) (auto simp: acquire_wait_enter_def wait_part_def)
  qed
  moreover have "acquire_wait_resume w p = (Some (served p w), p)" if "w \<in> ps_inside s" for w
    using st(3) [OF that] by (simp add: acquire_wait_resume_def served_def)
  ultimately show ?thesis using e un wait_queue_NilD [OF q] by auto
qed

text \<open>
  Destruction. The destructor ends exactly when no thread is left inside the pool; then
  every buffer is freed and the whole reservation goes back to the budget.
\<close>

theorem pool_destroy_spec:
  assumes "pool_start p0" and "pool_reach p0 s"
  shows "case pool_destroy (ps_pool s) of
      None \<Rightarrow> ps_inside s \<union> ps_leaving s \<noteq> {}
    | Some p \<Rightarrow> ps_inside s \<union> ps_leaving s = {} \<and> mo_all p = [] \<and> mo_free p = []
        \<and> (\<forall>b. mp_budget p = Some b \<longrightarrow> mu_used b = 0)"
proof -
  from pool_reach_inv [OF assms(2,1)] obtain ws where inv: "pool_inv ws s" .
  from stop_waiters_returns [OF this] obtain q where e: "stop_waiters (ps_pool s) = Some q" ..
  note st = inv_stop [OF inv e]
  from st(1) have fl: "unat (mu_inflight q) = card (ps_inside s) + card (ps_leaving s)"
    "finite (ps_inside s)" "finite (ps_leaving s)" and wf: "pool_wf q"
    by (auto simp: pool_inv_def inflight_ok_def)
  then have z: "mu_inflight q = 0 \<longleftrightarrow> ps_inside s \<union> ps_leaving s = {}"
    by (metis Un_empty add_is_0 card_0_eq unat_eq_0)
  have u: "mu_used b = word_of_nat (length (mo_all q)) * mz_buffer_size q" if "mp_budget q = Some b" for b
  proof -
    have "unat (mu_used b) = length (mo_all q) * unat (mz_buffer_size q)"
      using wf that by (simp add: pool_wf_def budget_exact_def)
    from arg_cong [OF this, of "word_of_nat :: nat \<Rightarrow> u64"] show ?thesis by simp
  qed
  show ?thesis
  proof (cases "mu_inflight q = 0")
    case True
    with z u show ?thesis
      by (auto simp: pool_destroy_def e Let_def pool_unreserve_def budget_release_def word_gt_0)
  next
    case False
    with z show ?thesis by (auto simp: pool_destroy_def e)
  qed
qed

section \<open>A pool of one buffer\<close>

text \<open>
  A budget of one buffer, a client that takes it and two threads, 7 and 9, that have to wait:
  the states at which the properties above are instantiated.
\<close>

definition ex_start :: buffer_pool where
  "ex_start = pool_create 4096 (Some \<lparr>mu_used = 0, mz_max = 5000\<rparr>) (\<lambda>_. False)"

definition ex_taken :: buffer_pool where
  "ex_taken = ex_start\<lparr>mp_budget := Some \<lparr>mu_used = 4096, mz_max = 5000\<rparr>, mo_all := [0], al_next := 1\<rparr>"

definition ex_waiter :: "nat \<Rightarrow> s_waiter" where
  "ex_waiter k = \<lparr>wt_next = None, wt_buf = None, wt_done = False, wt_cv = k, wt_asleep = True\<rparr>"

definition ex_parked :: buffer_pool where
  "ex_parked = ex_taken\<lparr>mu_cv_next := 1, wt_node := (wt_node ex_taken)(7 := ex_waiter 0),
     mp_wait_head := Some 7, mp_wait_tail := Some 7, mu_wait_count := 1, mu_inflight := 1\<rparr>"

definition ex_parked2 :: buffer_pool where
  "ex_parked2 = ex_parked\<lparr>mu_cv_next := 2, mp_wait_tail := Some 9, mu_wait_count := 2, mu_inflight := 2,
     wt_node := (wt_node ex_taken)(7 := (ex_waiter 0)\<lparr>wt_next := Some 9\<rparr>, 9 := ex_waiter 1)\<rparr>"

lemmas ex_defs = ex_start_def ex_taken_def ex_parked_def ex_parked2_def ex_waiter_def pool_create_def

lemma ex_start_ok: "pool_start ex_start"
  using pool_create_start [of 4096 "Some 5000" "\<lambda>_. False"] by (simp add: ex_start_def)

lemma ex_take_step: "acquire_wait_enter 1 ex_start = (Acquired 0, ex_taken)"
  by (simp add: ex_defs acquire_wait_enter_def acquire_no_lock_def pool_grow_def pool_reserve_def
      try_reserve_def over_budget_def pool_new_def Let_def)

lemma ex_full:
  "acquire_no_lock ex_taken = (None, ex_taken)" "acquire_no_lock ex_parked = (None, ex_parked)"
  by (simp_all add: ex_defs acquire_no_lock_def pool_grow_def pool_reserve_def
      try_reserve_def over_budget_def)

lemma ex_park_step: "acquire_wait_enter 7 ex_taken = (Parked, ex_parked)"
  by (simp add: acquire_wait_enter_def ex_full Let_def) (simp add: ex_defs)

lemma ex_park_step2: "acquire_wait_enter 9 ex_parked = (Parked, ex_parked2)"
  by (simp add: acquire_wait_enter_def ex_full Let_def) (auto simp: ex_defs fun_eq_iff)

definition ex_sys :: pool_sys where
  "ex_sys = \<lparr>ps_pool = ex_parked2, ps_inside = {7, 9}, ps_leaving = {}, ps_held = {0}\<rparr>"

lemma ex_reach: "pool_reach ex_start ex_sys"
proof -
  let ?s1 = "\<lparr>ps_pool = ex_taken, ps_inside = {}, ps_leaving = {}, ps_held = {0}\<rparr>"
  let ?s2 = "\<lparr>ps_pool = ex_parked, ps_inside = {7}, ps_leaving = {}, ps_held = {0}\<rparr>"
  have "pool_step (pool_sys_init ex_start) ?s1"
    using st_take [of 1 "pool_sys_init ex_start" 0 ex_taken] ex_take_step by (simp add: pool_sys_init_def)
  moreover have "pool_step ?s1 ?s2"
    using st_park [of 7 ?s1 ex_parked] ex_park_step by simp
  moreover have "pool_step ?s2 ex_sys"
    using st_park [of 9 ?s2 ex_parked2] ex_park_step2 by (simp add: ex_sys_def insert_commute)
  ultimately show ?thesis by (blast intro: pool_reach.intros)
qed

lemma ex_queue: "wait_queue ex_parked2 [7, 9]"
  by (simp add: wait_queue_def ex_defs)

lemma pool_conservation_witness:
  "set (mo_all ex_parked2) = set (mo_free ex_parked2) \<union> {0} \<union> handed ex_sys"
  using pool_conservation [OF ex_start_ok ex_reach] by (simp add: ex_sys_def)

lemma pool_no_lost_wakeup_witness: "mo_free ex_parked2 = [] \<and> \<not> mb_stopping ex_parked2"
  using pool_no_lost_wakeup [OF ex_start_ok ex_reach, of 7] by (simp add: ex_sys_def) (simp add: ex_defs)

lemma recycle_batch_fifo_witness:
  "served (recycle_batch (map Some [0, 3, 4]) ex_parked2) 9 = Some 3
   \<and> mo_free (recycle_batch (map Some [0, 3, 4]) ex_parked2) = [4]"
  using recycle_batch_fifo [OF ex_queue, of "[0, 3, 4]"] by (simp add: ex_defs)

lemma pool_stop_releases_witness:
  "\<exists>p. stop_waiters ex_parked2 = Some p \<and> (\<exists>r. acquire_wait_resume 9 p = (Some r, p))"
  using pool_stop_releases [OF ex_start_ok ex_reach] by (auto simp: ex_sys_def)

lemma pool_destroy_spec_witness: "pool_destroy ex_parked2 = None"
  using pool_destroy_spec [OF ex_start_ok ex_reach]
  by (auto simp: ex_sys_def split: option.splits)

end
