(* ===== verification/P8_Protocol.thy ===== *)
theory P8_Protocol
  imports P8_Prelude
begin

text \<open>
  The wire protocol of api/p8_protocol.h and the layout contract of
  engine/p8_static_checks.cpp: the packet, service and type codes, one record per fixed-size
  structure with its encoder (the bytes its fields occupy, in layout order, little endian)
  and decoder, and the locale \<open>wire_codec\<close> that states the contract all of them share. Each
  field carries the structure's prefix, since Isabelle records share one name space.
\<close>

section \<open>Codes\<close>

abbreviation (input) P8_PACKET_MAIN :: byte where "P8_PACKET_MAIN \<equiv> 0"
abbreviation (input) P8_PACKET_LOGS :: byte where "P8_PACKET_LOGS \<equiv> 1"
abbreviation (input) P8_PACKET_TRACES :: byte where "P8_PACKET_TRACES \<equiv> 2"
abbreviation (input) P8_PACKET_METRICS :: byte where "P8_PACKET_METRICS \<equiv> 3"
abbreviation (input) P8_PACKET_SERVICE :: byte where "P8_PACKET_SERVICE \<equiv> 4"
abbreviation (input) P8_PACKET_BATCH :: byte where "P8_PACKET_BATCH \<equiv> 5"
abbreviation (input) P8_SVC_TYPE_UNK :: byte where "P8_SVC_TYPE_UNK \<equiv> 0"
abbreviation (input) P8_SVC_TYPE_LOG_DESC :: byte where "P8_SVC_TYPE_LOG_DESC \<equiv> 1"
abbreviation (input) P8_SVC_TYPE_ATTR :: byte where "P8_SVC_TYPE_ATTR \<equiv> 2"
abbreviation (input) P8_SVC_TYPE_THREAD :: byte where "P8_SVC_TYPE_THREAD \<equiv> 3"
abbreviation (input) P8_SVC_TYPE_TRACE :: byte where "P8_SVC_TYPE_TRACE \<equiv> 4"
abbreviation (input) P8_SVC_TYPE_MTK :: byte where "P8_SVC_TYPE_MTK \<equiv> 5"
abbreviation (input) P8_SVC_TYPE_MODULE :: byte where "P8_SVC_TYPE_MODULE \<equiv> 6"
abbreviation (input) P8_SVC_TYPE_FILE_NAME :: byte where "P8_SVC_TYPE_FILE_NAME \<equiv> 7"
abbreviation (input) P8_SVC_TYPE_FUNC_NAME :: byte where "P8_SVC_TYPE_FUNC_NAME \<equiv> 8"
abbreviation (input) P8_SVC_TYPE_SPAN_NAME :: byte where "P8_SVC_TYPE_SPAN_NAME \<equiv> 9"
abbreviation (input) P8_MTK_FLAG_ON :: byte where "P8_MTK_FLAG_ON \<equiv> 1"
abbreviation (input) P8_DATA_FLAG_FRAGMENT :: byte where "P8_DATA_FLAG_FRAGMENT \<equiv> 1"
abbreviation (input) P8_ATTR_TYPE_STR :: byte where "P8_ATTR_TYPE_STR \<equiv> 0"
abbreviation (input) P8_ATTR_TYPE_F64 :: byte where "P8_ATTR_TYPE_F64 \<equiv> 1"
abbreviation (input) P8_ATTR_TYPE_I64 :: byte where "P8_ATTR_TYPE_I64 \<equiv> 2"
abbreviation (input) P8_ATTR_TYPE_U64 :: byte where "P8_ATTR_TYPE_U64 \<equiv> 3"
abbreviation (input) P8_LOG_ARG_TYPE_UNK :: byte where "P8_LOG_ARG_TYPE_UNK \<equiv> 0"
abbreviation (input) P8_LOG_ARG_TYPE_CHAR :: byte where "P8_LOG_ARG_TYPE_CHAR \<equiv> 1"
abbreviation (input) P8_LOG_ARG_TYPE_INT8 :: byte where "P8_LOG_ARG_TYPE_INT8 \<equiv> 1"
abbreviation (input) P8_LOG_ARG_TYPE_CHAR16 :: byte where "P8_LOG_ARG_TYPE_CHAR16 \<equiv> 2"
abbreviation (input) P8_LOG_ARG_TYPE_INT16 :: byte where "P8_LOG_ARG_TYPE_INT16 \<equiv> 3"
abbreviation (input) P8_LOG_ARG_TYPE_INT32 :: byte where "P8_LOG_ARG_TYPE_INT32 \<equiv> 4"
abbreviation (input) P8_LOG_ARG_TYPE_INT64 :: byte where "P8_LOG_ARG_TYPE_INT64 \<equiv> 5"
abbreviation (input) P8_LOG_ARG_TYPE_DOUBLE :: byte where "P8_LOG_ARG_TYPE_DOUBLE \<equiv> 6"
abbreviation (input) P8_LOG_ARG_TYPE_PVOID :: byte where "P8_LOG_ARG_TYPE_PVOID \<equiv> 7"
abbreviation (input) P8_LOG_ARG_TYPE_USTR16 :: byte where "P8_LOG_ARG_TYPE_USTR16 \<equiv> 8"
abbreviation (input) P8_LOG_ARG_TYPE_STRA :: byte where "P8_LOG_ARG_TYPE_STRA \<equiv> 9"
abbreviation (input) P8_LOG_ARG_TYPE_USTR8 :: byte where "P8_LOG_ARG_TYPE_USTR8 \<equiv> 10"
abbreviation (input) P8_LOG_ARG_TYPE_USTR32 :: byte where "P8_LOG_ARG_TYPE_USTR32 \<equiv> 11"
abbreviation (input) P8_LOG_ARG_TYPE_CHAR32 :: byte where "P8_LOG_ARG_TYPE_CHAR32 \<equiv> 12"
abbreviation (input) P8_LOG_ARG_TYPE_INTMAX :: byte where "P8_LOG_ARG_TYPE_INTMAX \<equiv> 13"
abbreviation (input) P8_LOG_ARG_TYPE_LDOUBLE :: byte where "P8_LOG_ARG_TYPE_LDOUBLE \<equiv> 14"
abbreviation (input) P8_TRC_ITEM_BEGIN :: byte where "P8_TRC_ITEM_BEGIN \<equiv> 1"
abbreviation (input) P8_TRC_ITEM_BEGIN_ASYNC :: byte where "P8_TRC_ITEM_BEGIN_ASYNC \<equiv> 2"
abbreviation (input) P8_TRC_ITEM_END :: byte where "P8_TRC_ITEM_END \<equiv> 3"

text \<open>\<open>P8_SVC_STR_MAX_LEN\<close>: longest string of a service entry, in bytes.\<close>
abbreviation (input) P8_SVC_STR_MAX_LEN :: nat where "P8_SVC_STR_MAX_LEN \<equiv> 1024"

text \<open>\<open>sizeof\<close> of the structures, as engine/p8_static_checks.cpp freezes them.\<close>
abbreviation (input) sizeof_data_buf_hdr :: nat where "sizeof_data_buf_hdr \<equiv> 16"
abbreviation (input) sizeof_batch :: nat where "sizeof_batch \<equiv> 16"
abbreviation (input) sizeof_log_item_dat :: nat where "sizeof_log_item_dat \<equiv> 40"
abbreviation (input) sizeof_trc_begin_dat :: nat where "sizeof_trc_begin_dat \<equiv> 40"
abbreviation (input) sizeof_trc_end_dat :: nat where "sizeof_trc_end_dat \<equiv> 24"
abbreviation (input) sizeof_mtk_item_dat :: nat where "sizeof_mtk_item_dat \<equiv> 24"

section \<open>Fixed-size structures\<close>

text \<open>Header of every data buffer.\<close>

record s_p8_data_buf_hdr =
  dbh_packet_type :: byte
  dbh_flags :: byte
  dbh_size :: u16
  dbh_thread_id :: u32
  dbh_writer_id :: u32
  dbh_buf_seq :: u32

definition enc_dbh :: "s_p8_data_buf_hdr \<Rightarrow> byte list" where
  "enc_dbh h =
     [dbh_packet_type h] @ [dbh_flags h] @ le16 (dbh_size h) @ le32 (dbh_thread_id h) @ le32 (dbh_writer_id h) @ le32 (dbh_buf_seq h)"

definition dec_dbh :: "byte list \<Rightarrow> s_p8_data_buf_hdr" where
  "dec_dbh bs =
     \<lparr>dbh_packet_type = bs ! 0,
      dbh_flags = bs ! 1,
      dbh_size = of_le16 (take 2 (drop 2 bs)),
      dbh_thread_id = of_le32 (take 4 (drop 4 bs)),
      dbh_writer_id = of_le32 (take 4 (drop 8 bs)),
      dbh_buf_seq = of_le32 (take 4 (drop 12 bs))\<rparr>"

text \<open>Packet that opens a data batch.\<close>

record s_p8_batch =
  bat_packet_type :: byte
  bat_padding :: byte
  bat_batch :: u16
  bat_count :: u32
  bat_timestamp :: u64

definition enc_bat :: "s_p8_batch \<Rightarrow> byte list" where
  "enc_bat h =
     [bat_packet_type h] @ [bat_padding h] @ le16 (bat_batch h) @ le32 (bat_count h) @ le64 (bat_timestamp h)"

definition dec_bat :: "byte list \<Rightarrow> s_p8_batch" where
  "dec_bat bs =
     \<lparr>bat_packet_type = bs ! 0,
      bat_padding = bs ! 1,
      bat_batch = of_le16 (take 2 (drop 2 bs)),
      bat_count = of_le32 (take 4 (drop 4 bs)),
      bat_timestamp = of_le64 (take 8 (drop 8 bs))\<rparr>"

text \<open>Log record; 38 bytes of fields, then two bytes of tail padding (\<open>sizeof\<close> is 40).\<close>

record s_p8_log_item_dat =
  lid_hash :: u64
  lid_timestamp :: u64
  lid_trace_id :: u64
  lid_thread_id :: u32
  lid_level :: byte
  lid_processor :: byte
  lid_args_size :: u16
  lid_size :: u16
  lid_mod_id :: u16
  lid_attrs_count :: byte
  lid_flags :: byte

definition enc_lid :: "s_p8_log_item_dat \<Rightarrow> byte list" where
  "enc_lid h =
     le64 (lid_hash h) @ le64 (lid_timestamp h) @ le64 (lid_trace_id h) @ le32 (lid_thread_id h) @ [lid_level h] @ [lid_processor h] @ le16 (lid_args_size h) @ le16 (lid_size h) @ le16 (lid_mod_id h) @ [lid_attrs_count h] @ [lid_flags h]"

definition dec_lid :: "byte list \<Rightarrow> s_p8_log_item_dat" where
  "dec_lid bs =
     \<lparr>lid_hash = of_le64 (take 8 bs),
      lid_timestamp = of_le64 (take 8 (drop 8 bs)),
      lid_trace_id = of_le64 (take 8 (drop 16 bs)),
      lid_thread_id = of_le32 (take 4 (drop 24 bs)),
      lid_level = bs ! 28,
      lid_processor = bs ! 29,
      lid_args_size = of_le16 (take 2 (drop 30 bs)),
      lid_size = of_le16 (take 2 (drop 32 bs)),
      lid_mod_id = of_le16 (take 2 (drop 34 bs)),
      lid_attrs_count = bs ! 36,
      lid_flags = bs ! 37\<rparr>"

text \<open>Start of a span.\<close>

record s_p8_trc_begin_dat =
  tbd_timestamp :: u64
  tbd_span_id :: u64
  tbd_size :: u16
  tbd_type :: byte
  tbd_attrs_count :: byte
  tbd_thread_id :: u32
  tbd_hash :: u64
  tbd_parent_id :: u64

definition enc_tbd :: "s_p8_trc_begin_dat \<Rightarrow> byte list" where
  "enc_tbd h =
     le64 (tbd_timestamp h) @ le64 (tbd_span_id h) @ le16 (tbd_size h) @ [tbd_type h] @ [tbd_attrs_count h] @ le32 (tbd_thread_id h) @ le64 (tbd_hash h) @ le64 (tbd_parent_id h)"

definition dec_tbd :: "byte list \<Rightarrow> s_p8_trc_begin_dat" where
  "dec_tbd bs =
     \<lparr>tbd_timestamp = of_le64 (take 8 bs),
      tbd_span_id = of_le64 (take 8 (drop 8 bs)),
      tbd_size = of_le16 (take 2 (drop 16 bs)),
      tbd_type = bs ! 18,
      tbd_attrs_count = bs ! 19,
      tbd_thread_id = of_le32 (take 4 (drop 20 bs)),
      tbd_hash = of_le64 (take 8 (drop 24 bs)),
      tbd_parent_id = of_le64 (take 8 (drop 32 bs))\<rparr>"

text \<open>End of a span.\<close>

record s_p8_trc_end_dat =
  ted_timestamp :: u64
  ted_span_id :: u64
  ted_size :: u16
  ted_type :: byte
  ted_padding :: byte
  ted_thread_id :: u32

definition enc_ted :: "s_p8_trc_end_dat \<Rightarrow> byte list" where
  "enc_ted h =
     le64 (ted_timestamp h) @ le64 (ted_span_id h) @ le16 (ted_size h) @ [ted_type h] @ [ted_padding h] @ le32 (ted_thread_id h)"

definition dec_ted :: "byte list \<Rightarrow> s_p8_trc_end_dat" where
  "dec_ted bs =
     \<lparr>ted_timestamp = of_le64 (take 8 bs),
      ted_span_id = of_le64 (take 8 (drop 8 bs)),
      ted_size = of_le16 (take 2 (drop 16 bs)),
      ted_type = bs ! 18,
      ted_padding = bs ! 19,
      ted_thread_id = of_le32 (take 4 (drop 20 bs))\<rparr>"

text \<open>Metric sample; the \<open>double\<close> is its 64 bits.\<close>

record s_p8_mtk_item_dat =
  mid_timestamp :: u64
  mid_value :: u64
  mid_id :: u32
  mid_size :: u16
  mid_flags :: byte
  mid_attrs_count :: byte

definition enc_mid :: "s_p8_mtk_item_dat \<Rightarrow> byte list" where
  "enc_mid h =
     le64 (mid_timestamp h) @ le64 (mid_value h) @ le32 (mid_id h) @ le16 (mid_size h) @ [mid_flags h] @ [mid_attrs_count h]"

definition dec_mid :: "byte list \<Rightarrow> s_p8_mtk_item_dat" where
  "dec_mid bs =
     \<lparr>mid_timestamp = of_le64 (take 8 bs),
      mid_value = of_le64 (take 8 (drop 8 bs)),
      mid_id = of_le32 (take 4 (drop 16 bs)),
      mid_size = of_le16 (take 2 (drop 20 bs)),
      mid_flags = bs ! 22,
      mid_attrs_count = bs ! 23\<rparr>"

text \<open>Header of every service entry.\<close>

record s_p8_svc_hdr =
  svh_packet_type :: byte
  svh_svc_type :: byte
  svh_size :: u16

definition enc_svh :: "s_p8_svc_hdr \<Rightarrow> byte list" where
  "enc_svh h =
     [svh_packet_type h] @ [svh_svc_type h] @ le16 (svh_size h)"

definition dec_svh :: "byte list \<Rightarrow> s_p8_svc_hdr" where
  "dec_svh bs =
     \<lparr>svh_packet_type = bs ! 0,
      svh_svc_type = bs ! 1,
      svh_size = of_le16 (take 2 (drop 2 bs))\<rparr>"

text \<open>Variable argument descriptor of a log item: \<open>mu_type\<close>, \<open>mu_size\<close>.\<close>

record s_p8_log_varg =
  va_mu_type :: byte
  va_mu_size :: byte

definition enc_varg :: "s_p8_log_varg \<Rightarrow> byte list" where
  "enc_varg h = [va_mu_type h, va_mu_size h]"

definition dec_varg :: "byte list \<Rightarrow> s_p8_log_varg" where
  "dec_varg bs = \<lparr>va_mu_type = bs ! 0, va_mu_size = bs ! 1\<rparr>"

section \<open>The contract of a fixed-size structure\<close>

text \<open>
  Every structure occupies the same number of bytes whatever its fields hold, and a receiver
  that reads that many bytes gets the fields back, whatever follows. From these two laws: the
  encoding is injective, and a run of structures laid end to end decodes one by one.
\<close>

locale wire_codec =
  fixes enc :: "'a \<Rightarrow> byte list"
    and dec :: "byte list \<Rightarrow> 'a"
    and width :: nat
  assumes enc_width: "length (enc x) = width"
    and dec_enc_rest: "dec (enc x @ rest) = x"
begin

lemma dec_enc: "dec (enc x) = x"
  using dec_enc_rest [of x "[]"] by simp

lemma enc_eq_iff: "enc x = enc y \<longleftrightarrow> x = y"
  by (metis dec_enc)

lemma run_decodes:
  "i < length xs \<Longrightarrow> dec (drop (i * width) (concat (map enc xs) @ rest)) = xs ! i"
proof (induction xs arbitrary: i)
  case Nil
  then show ?case by simp
next
  case (Cons x xs)
  then show ?case
    by (cases i) (auto simp: dec_enc_rest enc_width)
qed

lemma run_width: "length (concat (map enc xs)) = length xs * width"
  by (induction xs) (auto simp: enc_width)

end

lemmas enc_defs = enc_dbh_def enc_bat_def enc_lid_def enc_tbd_def enc_ted_def enc_mid_def
  enc_svh_def enc_varg_def
lemmas dec_defs = dec_dbh_def dec_bat_def dec_lid_def dec_tbd_def dec_ted_def dec_mid_def
  dec_svh_def dec_varg_def

lemma length_enc [simp, wire_simps]:
  "length (enc_dbh a) = 16" "length (enc_bat b) = 16" "length (enc_lid c) = 38"
  "length (enc_tbd d) = 40" "length (enc_ted e) = 24" "length (enc_mid f) = 24"
  "length (enc_svh g) = 4" "length (enc_varg v) = 2"
  by (simp_all add: enc_defs)

interpretation dbh: wire_codec enc_dbh dec_dbh 16
  by unfold_locales (simp_all add: enc_dbh_def dec_dbh_def nth_append)

interpretation bat: wire_codec enc_bat dec_bat 16
  by unfold_locales (simp_all add: enc_bat_def dec_bat_def nth_append)

interpretation lid: wire_codec enc_lid dec_lid 38
  by unfold_locales (simp_all add: enc_lid_def dec_lid_def nth_append)

interpretation tbd: wire_codec enc_tbd dec_tbd 40
  by unfold_locales (simp_all add: enc_tbd_def dec_tbd_def nth_append)

interpretation ted: wire_codec enc_ted dec_ted 24
  by unfold_locales (simp_all add: enc_ted_def dec_ted_def nth_append)

interpretation mid: wire_codec enc_mid dec_mid 24
  by unfold_locales (simp_all add: enc_mid_def dec_mid_def nth_append)

interpretation svh: wire_codec enc_svh dec_svh 4
  by unfold_locales (simp_all add: enc_svh_def dec_svh_def nth_append)

interpretation varg: wire_codec enc_varg dec_varg 2
  by unfold_locales (simp_all add: enc_varg_def dec_varg_def nth_append)

end
