(* ===== verification/P8_Core_State.thy ===== *)
theory P8_Core_State
  imports P8_Pool_Sys P8_Protocol
begin

text \<open>
  The state of \<open>cp8_core\<close> (engine/p8_core.hpp) that the operations on buffers, registries,
  service entries and batches share, its data types from api/p8_client_api.h and the engine's
  headers, and the core's buffer interface: \<open>acquire_buffer\<close>, \<open>release_buffer\<close>,
  \<open>release_buffers\<close>, \<open>submit_buffer\<close>, \<open>submit_chain\<close>, \<open>notify\<close>, \<open>notify_pressure\<close>.

  The memory of all buffers is one field, \<open>co_mem\<close>. Pointers to registry entries are indices
  into the registry's vector, whose entries are never removed while the core lives. The wake
  signal of the worker's event is the field \<open>ev_wake\<close>.

  Two fields are history variables, which no operation reads to decide anything:
  \<open>co_svc_sent\<close> are the service bytes the worker has taken for sending, and \<open>co_moment\<close>
  counts the moments at which the calling thread held no lock, so that what other threads do
  may differ from one to the next.
\<close>

section \<open>Log levels\<close>

datatype e_p8_level = e_p8_trace0 | e_p8_trace1 | e_p8_trace2 | e_p8_trace3
  | e_p8_debug0 | e_p8_debug1 | e_p8_debug2 | e_p8_debug3
  | e_p8_info0 | e_p8_info1 | e_p8_info2 | e_p8_info3
  | e_p8_warning0 | e_p8_warning1 | e_p8_warning2 | e_p8_warning3
  | e_p8_error0 | e_p8_error1 | e_p8_error2 | e_p8_error3
  | e_p8_critical0 | e_p8_critical1 | e_p8_critical2 | e_p8_critical3

definition all_levels :: "e_p8_level list" where
  "all_levels = [e_p8_trace0, e_p8_trace1, e_p8_trace2, e_p8_trace3,
     e_p8_debug0, e_p8_debug1, e_p8_debug2, e_p8_debug3,
     e_p8_info0, e_p8_info1, e_p8_info2, e_p8_info3,
     e_p8_warning0, e_p8_warning1, e_p8_warning2, e_p8_warning3,
     e_p8_error0, e_p8_error1, e_p8_error2, e_p8_error3,
     e_p8_critical0, e_p8_critical1, e_p8_critical2, e_p8_critical3]"

text \<open>The value of the enumerator.\<close>

fun level_code :: "e_p8_level \<Rightarrow> nat" where
  "level_code e_p8_trace0 = 0" | "level_code e_p8_trace1 = 1" | "level_code e_p8_trace2 = 2"
| "level_code e_p8_trace3 = 3" | "level_code e_p8_debug0 = 4" | "level_code e_p8_debug1 = 5"
| "level_code e_p8_debug2 = 6" | "level_code e_p8_debug3 = 7" | "level_code e_p8_info0 = 8"
| "level_code e_p8_info1 = 9" | "level_code e_p8_info2 = 10" | "level_code e_p8_info3 = 11"
| "level_code e_p8_warning0 = 12" | "level_code e_p8_warning1 = 13" | "level_code e_p8_warning2 = 14"
| "level_code e_p8_warning3 = 15" | "level_code e_p8_error0 = 16" | "level_code e_p8_error1 = 17"
| "level_code e_p8_error2 = 18" | "level_code e_p8_error3 = 19" | "level_code e_p8_critical0 = 20"
| "level_code e_p8_critical1 = 21" | "level_code e_p8_critical2 = 22" | "level_code e_p8_critical3 = 23"

lemma all_levels_code: "all_levels ! level_code l = l"
  by (cases l) (simp_all add: all_levels_def)

lemma level_code_inj: "level_code a = level_code b \<Longrightarrow> a = b"
  by (metis all_levels_code)

text \<open>Enumerators compare by value, which is how the verbosity gate uses them.\<close>

instantiation e_p8_level :: linorder
begin

definition less_eq_e_p8_level :: "e_p8_level \<Rightarrow> e_p8_level \<Rightarrow> bool" where
  "a \<le> b \<longleftrightarrow> level_code a \<le> level_code b"

definition less_e_p8_level :: "e_p8_level \<Rightarrow> e_p8_level \<Rightarrow> bool" where
  "a < b \<longleftrightarrow> level_code a < level_code b"

instance
  by standard (auto simp: less_eq_e_p8_level_def less_e_p8_level_def intro: level_code_inj)

end

section \<open>Descriptors\<close>

datatype e_p8_attr_type = e_p8_attr_str | e_p8_attr_f64 | e_p8_attr_i64 | e_p8_attr_u64

fun attr_type_code :: "e_p8_attr_type \<Rightarrow> byte" where
  "attr_type_code e_p8_attr_str = P8_ATTR_TYPE_STR" | "attr_type_code e_p8_attr_f64 = P8_ATTR_TYPE_F64"
| "attr_type_code e_p8_attr_i64 = P8_ATTR_TYPE_I64" | "attr_type_code e_p8_attr_u64 = P8_ATTR_TYPE_U64"

text \<open>\<open>s_p8_attr_val\<close>: the union is read as \<open>mp_str\<close> for a string attribute and as \<open>mu_u64\<close>,
  its 64 bits, for a number; both views are fields here.\<close>

record s_p8_attr_val =
  av_id :: i32
  av_str :: "cstr option"
  av_u64 :: u64

record s_p8_attr_desc =
  ad_id :: i32
  ad_type :: e_p8_attr_type
  ad_name :: cstr

record s_p8_log_desc =
  ld_hash :: u64
  ld_format :: "cstr option"
  ld_file :: "cstr option"
  ld_function :: "cstr option"
  ld_line :: u32
  ld_fixed_args_size :: nat
  ld_args :: "s_p8_log_varg list"

record s_p8_log_mod =
  lm_name :: cstr
  lm_id :: u16
  lm_verbosity :: e_p8_level

record s_p8_mtk_desc =
  mkd_id :: i32
  mkd_name :: cstr
  mkd_description :: "cstr option"
  mkd_unit :: "cstr option"
  mkd_flags :: byte
  mkd_min :: u64
  mkd_max :: u64

record s_p8_svc_buf =
  sb_buf :: addr
  sb_used :: nat

record s_p8_drop_stats =
  ds_logs :: u64
  ds_metrics :: u64
  ds_traces :: u64
  ds_svc :: u64

section \<open>The core\<close>

record core =
  mb_initialized :: bool
  mp_data_pool :: buffer_pool
  co_mem :: mem
  mu_outstanding_buffers :: u64
  mb_wake_pending :: bool
  ev_wake :: bool
  co_dropped :: s_p8_drop_stats
  mo_ready_queue :: "addr list"
  mo_attr_descs :: "s_p8_attr_desc list"
  mo_attr_name_map :: "cstr \<rightharpoonup> i32"
  mo_log_mods :: "s_p8_log_mod list"
  mo_log_mod_map :: "cstr \<rightharpoonup> nat"
  me_default_verbosity :: e_p8_level
  mo_mtk_descs :: "s_p8_mtk_desc list"
  mo_mtk_name_map :: "cstr \<rightharpoonup> i32"
  mu_mtk_count :: u32
  mo_svc_buffers :: "s_p8_svc_buf list"
  mo_log_descs :: "u64 \<rightharpoonup> s_p8_log_desc"
  mo_trc_descs :: "u64 set"
  mo_file_names :: "u64 set"
  mo_func_names :: "u64 set"
  mo_span_names :: "u64 set"
  mu_span_id_seq :: u64
  mu_batch_margin_ticks :: u64
  mu_batch_tail_ticks :: u64
  mu_batch_idle_ticks :: u64
  mu_batch_last_ts :: u64
  mb_batch_with_data :: bool
  mu_batch_index :: u16
  co_svc_sent :: "byte list"
  co_moment :: nat

text \<open>The core when its construction has succeeded: every member has its initial value, the
  pool is the one \<open>init_buffer_pool\<close> made.\<close>

definition core_new :: "buffer_pool \<Rightarrow> core" where
  "core_new p = \<lparr>mb_initialized = True, mp_data_pool = p, co_mem = (\<lambda>_ _. 0), mu_outstanding_buffers = 0,
     mb_wake_pending = False, ev_wake = False,
     co_dropped = \<lparr>ds_logs = 0, ds_metrics = 0, ds_traces = 0, ds_svc = 0\<rparr>,
     mo_ready_queue = [], mo_attr_descs = [], mo_attr_name_map = (\<lambda>_. None), mo_log_mods = [],
     mo_log_mod_map = (\<lambda>_. None), me_default_verbosity = e_p8_trace0, mo_mtk_descs = [],
     mo_mtk_name_map = (\<lambda>_. None), mu_mtk_count = 0, mo_svc_buffers = [], mo_log_descs = (\<lambda>_. None),
     mo_trc_descs = {}, mo_file_names = {}, mo_func_names = {}, mo_span_names = {}, mu_span_id_seq = 1,
     mu_batch_margin_ticks = 0, mu_batch_tail_ticks = 0, mu_batch_idle_ticks = 0, mu_batch_last_ts = 0,
     mb_batch_with_data = False, mu_batch_index = 0, co_svc_sent = [], co_moment = 0\<rparr>"

text \<open>\<open>mz_data_buffer_size\<close>, \<open>P8_CORE_FREE_MEM_PERCENT\<close> and the number of span IDs a writer
  reserves at once.\<close>

abbreviation (input) mz_data_buffer_size :: nat where "mz_data_buffer_size \<equiv> 8192"
abbreviation (input) P8_CORE_FREE_MEM_PERCENT :: u64 where "P8_CORE_FREE_MEM_PERCENT \<equiv> 75"
abbreviation (input) P8_CORE_SPAN_ID_BLOCK :: u64 where "P8_CORE_SPAN_ID_BLOCK \<equiv> 65536"

section \<open>Waking the worker\<close>

definition notify :: "core \<Rightarrow> core" where
  "notify c = c\<lparr>ev_wake := True\<rparr>"

definition notify_pressure :: "core \<Rightarrow> core" where
  "notify_pressure c =
     (if mb_wake_pending c then c else notify (c\<lparr>mb_wake_pending := True\<rparr>))"

section \<open>Buffers\<close>

text \<open>The test for low memory, on the pool's statistics.\<close>

definition under_pressure :: "pool_stat \<Rightarrow> bool" where
  "under_pressure s \<longleftrightarrow> st_max_size s > 0
     \<and> st_free_size s * 100 div st_max_size s < P8_CORE_FREE_MEM_PERCENT"

text \<open>\<open>acquire_buffer(false)\<close>, which is also the fast path of \<open>acquire_buffer(true)\<close>: one
  critical section of the pool that takes a buffer and samples the statistics.\<close>

definition acquire_buffer :: "core \<Rightarrow> addr option \<times> core" where
  "acquire_buffer c =
     (if \<not> mb_initialized c then (None, c)
      else case acquire_no_lock (mp_data_pool c) of
        (None, p) \<Rightarrow> (None, c\<lparr>mp_data_pool := p\<rparr>)
      | (Some lp_buf, p) \<Rightarrow>
          (let c1 = c\<lparr>mp_data_pool := p\<rparr> in
           (Some lp_buf, if under_pressure (pool_stat_of p) then notify_pressure c1 else c1)))"

text \<open>The rest of \<open>acquire_buffer(true)\<close> after the fast path found nothing, up to the point
  where the thread has a result or is parked.\<close>

definition acquire_buffer_slow :: "nat \<Rightarrow> core \<Rightarrow> acquire_result \<times> core" where
  "acquire_buffer_slow lo_self c =
     (let c1 = notify_pressure c in case acquire_wait_enter lo_self (mp_data_pool c1) of
        (r, p) \<Rightarrow> (r, c1\<lparr>mp_data_pool := p\<rparr>))"

definition release_buffer :: "addr option \<Rightarrow> core \<Rightarrow> core" where
  "release_buffer ip_buffer c =
     (if ip_buffer = None \<or> \<not> mb_initialized c then c
      else c\<lparr>mp_data_pool := recycle ip_buffer (mp_data_pool c),
             mu_outstanding_buffers := mu_outstanding_buffers c - 1\<rparr>)"

text \<open>The list is emptied; its elements go to the pool in one critical section.\<close>

definition release_buffers :: "addr list \<Rightarrow> core \<Rightarrow> core" where
  "release_buffers io_buffers c =
     (if \<not> mb_initialized c \<or> length io_buffers = 0 then c
      else c\<lparr>mp_data_pool := recycle_batch (map Some io_buffers) (mp_data_pool c),
             mu_outstanding_buffers := mu_outstanding_buffers c - word_of_nat (length io_buffers)\<rparr>)"

definition submit_buffer :: "addr option \<Rightarrow> core \<Rightarrow> core" where
  "submit_buffer ip_buffer c = (case ip_buffer of
     None \<Rightarrow> c
   | Some b \<Rightarrow> if \<not> mb_initialized c then c
       else notify (c\<lparr>mo_ready_queue := mo_ready_queue c @ [b]\<rparr>))"

text \<open>\<open>submit_chain\<close>; the first component is what is left in the caller's list.\<close>

definition submit_chain :: "addr list \<Rightarrow> core \<Rightarrow> addr list \<times> core" where
  "submit_chain io_buffers c =
     (if \<not> mb_initialized c then (io_buffers, c)
      else if length io_buffers = 0 then (io_buffers, c)
      else ([], notify (c\<lparr>mo_ready_queue := mo_ready_queue c @ io_buffers\<rparr>)))"

section \<open>What the buffer operations keep\<close>

text \<open>The pool of a running core: well formed, its waiters queued, each on one of the shards.\<close>

definition on_shards :: "buffer_pool \<Rightarrow> nat list \<Rightarrow> bool" where
  "on_shards p ws \<longleftrightarrow> (\<forall>w \<in> set ws. wt_cv (wt_node p w) < mz_wait_cv_count)"

definition pool_ok :: "buffer_pool \<Rightarrow> bool" where
  "pool_ok p \<longleftrightarrow> pool_wf p \<and> (\<exists>ws. wait_queue p ws \<and> on_shards p ws)"

definition core_ok :: "core \<Rightarrow> bool" where
  "core_ok c \<longleftrightarrow> mb_initialized c \<and> pool_ok (mp_data_pool c)
     \<and> mz_buffer_size (mp_data_pool c) = word_of_nat mz_data_buffer_size"

lemma notify_pressure_fields [simp]:
  "mp_data_pool (notify_pressure c) = mp_data_pool c" "co_mem (notify_pressure c) = co_mem c"
  "mb_initialized (notify_pressure c) = mb_initialized c"
  "mo_attr_descs (notify_pressure c) = mo_attr_descs c"
  "mo_ready_queue (notify_pressure c) = mo_ready_queue c"
  "mo_svc_buffers (notify_pressure c) = mo_svc_buffers c"
  "mu_mtk_count (notify_pressure c) = mu_mtk_count c"
  "co_dropped (notify_pressure c) = co_dropped c"
  "mu_span_id_seq (notify_pressure c) = mu_span_id_seq c"
  "mo_trc_descs (notify_pressure c) = mo_trc_descs c"
  "mo_file_names (notify_pressure c) = mo_file_names c"
  "mo_func_names (notify_pressure c) = mo_func_names c"
  "mo_span_names (notify_pressure c) = mo_span_names c"
  "mo_log_descs (notify_pressure c) = mo_log_descs c"
  by (simp_all add: notify_pressure_def notify_def)

text \<open>What the buffer operations leave alone: everything but the pool, the memory and the wake
  signals.\<close>

definition core_static :: "core \<Rightarrow> core" where
  "core_static c = c\<lparr>mp_data_pool := pool_create 0 None (\<lambda>_. False), co_mem := (\<lambda>_ _. 0),
     mu_outstanding_buffers := 0, mb_wake_pending := False, ev_wake := False\<rparr>"

lemma core_static_upd [simp]:
  "core_static (c\<lparr>mp_data_pool := p\<rparr>) = core_static c" "core_static (c\<lparr>co_mem := m\<rparr>) = core_static c"
  "core_static (c\<lparr>mu_outstanding_buffers := n\<rparr>) = core_static c"
  "core_static (c\<lparr>mb_wake_pending := x\<rparr>) = core_static c" "core_static (c\<lparr>ev_wake := y\<rparr>) = core_static c"
  "core_static (notify_pressure c) = core_static c"
  by (simp_all add: core_static_def notify_pressure_def notify_def)

lemma core_static_fields:
  assumes "core_static c' = core_static c"
  shows "mo_attr_descs c' = mo_attr_descs c" "mo_ready_queue c' = mo_ready_queue c"
    "mo_svc_buffers c' = mo_svc_buffers c" "mb_initialized c' = mb_initialized c"
    "mo_log_descs c' = mo_log_descs c" "mo_trc_descs c' = mo_trc_descs c"
    "mo_file_names c' = mo_file_names c" "mo_func_names c' = mo_func_names c"
    "mo_span_names c' = mo_span_names c" "mu_span_id_seq c' = mu_span_id_seq c"
    "co_svc_sent c' = co_svc_sent c" "mu_mtk_count c' = mu_mtk_count c"
    "mo_mtk_descs c' = mo_mtk_descs c" "mo_mtk_name_map c' = mo_mtk_name_map c"
    "mo_log_mods c' = mo_log_mods c" "mo_log_mod_map c' = mo_log_mod_map c"
    "mo_attr_name_map c' = mo_attr_name_map c" "me_default_verbosity c' = me_default_verbosity c"
  using arg_cong [OF assms, of mo_attr_descs] arg_cong [OF assms, of mo_ready_queue]
    arg_cong [OF assms, of mo_svc_buffers] arg_cong [OF assms, of mb_initialized]
    arg_cong [OF assms, of mo_log_descs] arg_cong [OF assms, of mo_trc_descs]
    arg_cong [OF assms, of mo_file_names] arg_cong [OF assms, of mo_func_names]
    arg_cong [OF assms, of mo_span_names] arg_cong [OF assms, of mu_span_id_seq]
    arg_cong [OF assms, of co_svc_sent] arg_cong [OF assms, of mu_mtk_count]
    arg_cong [OF assms, of mo_mtk_descs] arg_cong [OF assms, of mo_mtk_name_map]
    arg_cong [OF assms, of mo_log_mods] arg_cong [OF assms, of mo_log_mod_map]
    arg_cong [OF assms, of mo_attr_name_map] arg_cong [OF assms, of me_default_verbosity]
  by (simp_all add: core_static_def)

lemma pool_ok_cong:
  "wait_part p' = wait_part p \<Longrightarrow> pool_wf p' \<Longrightarrow> pool_ok p \<Longrightarrow> pool_ok p'"
  unfolding pool_ok_def on_shards_def using wait_queue_cong(1) [of p' p]
  by (auto simp: wait_part_def)

lemma acquire_buffer_Some:
  assumes "acquire_buffer c = (Some b, c')" and "core_ok c"
  shows "core_ok c'" and "b \<notin> owned (mp_data_pool c)"
    and "owned (mp_data_pool c') = insert b (owned (mp_data_pool c))"
    and "co_mem c' = co_mem c" and "core_static c' = core_static c"
proof -
  from assms obtain p where a: "acquire_no_lock (mp_data_pool c) = (Some b, p)"
    and c': "mp_data_pool c' = p" "co_mem c' = co_mem c" "core_static c' = core_static c"
      "mb_initialized c'"
    by (auto simp: acquire_buffer_def core_ok_def Let_def split: prod.splits option.splits if_splits)
  from assms(2) have "pool_wf (mp_data_pool c)" by (simp add: core_ok_def pool_ok_def)
  note f = acquire_no_lock_Some [OF this a]
  show "core_ok c'" using assms(2) f c' pool_ok_cong [OF f(4)] by (simp add: core_ok_def)
  show "b \<notin> owned (mp_data_pool c)" "owned (mp_data_pool c') = insert b (owned (mp_data_pool c))"
    "co_mem c' = co_mem c" "core_static c' = core_static c"
    using f c' by auto
qed

lemma acquire_buffer_None:
  assumes "acquire_buffer c = (None, c')" and "core_ok c"
  shows "core_ok c'" and "owned (mp_data_pool c') = owned (mp_data_pool c)"
    and "co_mem c' = co_mem c" and "core_static c' = core_static c"
proof -
  from assms obtain p where a: "acquire_no_lock (mp_data_pool c) = (None, p)"
    and c': "c' = c\<lparr>mp_data_pool := p\<rparr>"
    by (auto simp: acquire_buffer_def core_ok_def Let_def split: prod.splits option.splits if_splits)
  from assms(2) have "pool_wf (mp_data_pool c)" by (simp add: core_ok_def pool_ok_def)
  note f = acquire_no_lock_None [OF this a]
  show "core_ok c'" using assms(2) f c' pool_ok_cong [OF f(3)] by (simp add: core_ok_def)
  show "owned (mp_data_pool c') = owned (mp_data_pool c)" "co_mem c' = co_mem c"
    "core_static c' = core_static c"
    using f c' by auto
qed

text \<open>A recycled buffer becomes free, or belongs to the waiter it is handed to.\<close>

lemma recycle_pool_ok:
  assumes "pool_ok p" and "b \<in> owned p"
  shows "pool_ok (recycle (Some b) p)" and "owned p - {b} \<subseteq> owned (recycle (Some b) p)"
    and "owned (recycle (Some b) p) \<subseteq> owned p"
    and "mz_buffer_size (recycle (Some b) p) = mz_buffer_size p"
    and "mu_wait_count p = 0 \<Longrightarrow> owned (recycle (Some b) p) = owned p - {b}"
proof -
  from assms(1) obtain ws where q: "wait_queue p ws" and wf: "pool_wf p" and sh: "on_shards p ws"
    by (auto simp: pool_ok_def)
  have z: "mz_buffer_size (recycle (Some b) p) = mz_buffer_size p"
    by (simp add: recycle_def try_handoff_no_lock_def Let_def split: option.split)
  have "pool_ok (recycle (Some b) p) \<and> owned p - {b} \<subseteq> owned (recycle (Some b) p)
    \<and> owned (recycle (Some b) p) \<subseteq> owned p
    \<and> (mu_wait_count p = 0 \<longrightarrow> owned (recycle (Some b) p) = owned p - {b})"
  proof (cases ws)
    case Nil
    with q have q0: "wait_queue p []" by simp
    from wq.idle_queue [OF q0] owned_recycle_Nil [OF wf q0 assms(2)] show ?thesis
      by (auto simp: pool_ok_def on_shards_def intro!: exI [of _ "[]"])
  next
    case (Cons w ws')
    with q have q1: "wait_queue p (w # ws')" by simp
    from recycle_Cons [OF q1, of b] wf wait_queue_count [OF q1] sh Cons show ?thesis
      by (auto simp: pool_ok_def owned_def on_shards_def)
  qed
  with z show "pool_ok (recycle (Some b) p)" "owned p - {b} \<subseteq> owned (recycle (Some b) p)"
    "owned (recycle (Some b) p) \<subseteq> owned p"
    "mz_buffer_size (recycle (Some b) p) = mz_buffer_size p"
    "mu_wait_count p = 0 \<Longrightarrow> owned (recycle (Some b) p) = owned p - {b}"
    by auto
qed

lemma release_buffer_ok:
  assumes "core_ok c" and "b \<in> owned (mp_data_pool c)"
  shows "core_ok (release_buffer (Some b) c)"
    and "owned (mp_data_pool c) - {b} \<subseteq> owned (mp_data_pool (release_buffer (Some b) c))"
    and "mp_data_pool (release_buffer (Some b) c) = recycle (Some b) (mp_data_pool c)"
    and "co_mem (release_buffer (Some b) c) = co_mem c"
    and "core_static (release_buffer (Some b) c) = core_static c"
    and "owned (mp_data_pool (release_buffer (Some b) c)) \<subseteq> owned (mp_data_pool c)"
  using assms recycle_pool_ok [of "mp_data_pool c" b]
  by (auto simp: release_buffer_def core_ok_def)

lemma acquire_buffer_wait_part:
  assumes "acquire_buffer c = (r, c')" and "core_ok c"
  shows "wait_part (mp_data_pool c') = wait_part (mp_data_pool c)"
proof -
  have wf: "pool_wf (mp_data_pool c)" and i: "mb_initialized c"
    using assms(2) by (auto simp: core_ok_def pool_ok_def)
  show ?thesis
  proof (cases "acquire_no_lock (mp_data_pool c)")
    case (Pair a p)
    then have "mp_data_pool c' = p"
      using assms(1) i by (auto simp: acquire_buffer_def Let_def split: option.splits)
    moreover have "wait_part p = wait_part (mp_data_pool c)"
      using Pair acquire_no_lock_Some(4) [OF wf] acquire_no_lock_None(3) [OF wf] by (cases a) auto
    ultimately show ?thesis by simp
  qed
qed

end
