(* ===== verification/P8_Text.thy ===== *)
theory P8_Text
  imports P8_Protocol
begin

text \<open>
  The string helpers of engine/p8_core.hpp and engine/p8_core.cpp: cutting a string on a UTF-8
  boundary (\<open>p8_cut_utf8\<close>, \<open>get_svc_str_len\<close>) and reading a memory size from the
  configuration (\<open>parse_size\<close>). The first group of lemmas shows that a cut keeps valid UTF-8
  valid and drops as little as possible; the second that \<open>parse_size\<close> inverts the decimal
  notation, modulo 2^64.
\<close>

section \<open>UTF-8\<close>

text \<open>\<open>ip_str[i]\<close> of a C string: its bytes, then the terminating NUL.\<close>

definition str_at :: "cstr \<Rightarrow> nat \<Rightarrow> byte" where
  "str_at s i = (if i < length s then s ! i else 0)"

definition is_cont :: "byte \<Rightarrow> bool" where
  "is_cont b \<longleftrightarrow> 0x80 = b AND 0xC0"

fun p8_cut_utf8 :: "cstr \<Rightarrow> nat \<Rightarrow> nat" where
  "p8_cut_utf8 ip_str 0 = 0"
| "p8_cut_utf8 ip_str (Suc iz_len) =
     (if is_cont (str_at ip_str (Suc iz_len)) then p8_cut_utf8 ip_str iz_len else Suc iz_len)"

text \<open>
  Well-formed UTF-8 (RFC 3629): a lead byte fixes the length of the sequence and, for some, the
  range of the second byte; the bytes after the lead are continuation bytes.
\<close>

definition utf8_width :: "byte \<Rightarrow> nat" where
  "utf8_width b = (if b < 0x80 then 1 else if 0xC2 \<le> b \<and> b \<le> 0xDF then 2
     else if 0xE0 \<le> b \<and> b \<le> 0xEF then 3 else if 0xF0 \<le> b \<and> b \<le> 0xF4 then 4 else 0)"

definition utf8_second :: "byte \<Rightarrow> byte list \<Rightarrow> bool" where
  "utf8_second b rest \<longleftrightarrow> (case rest of [] \<Rightarrow> True | c # _ \<Rightarrow>
     (b = 0xE0 \<longrightarrow> 0xA0 \<le> c) \<and> (b = 0xED \<longrightarrow> c \<le> 0x9F) \<and> (b = 0xF0 \<longrightarrow> 0x90 \<le> c) \<and> (b = 0xF4 \<longrightarrow> c \<le> 0x8F))"

function utf8_valid :: "byte list \<Rightarrow> bool" where
  "utf8_valid [] = True"
| "utf8_valid (b # bs) =
     (let n = utf8_width b - 1 in utf8_width b > 0 \<and> n \<le> length bs \<and> list_all is_cont (take n bs)
        \<and> utf8_second b (take n bs) \<and> utf8_valid (drop n bs))"
  by pat_completeness auto
termination by (relation "measure length") auto

lemma is_cont_range: "is_cont b \<longleftrightarrow> 0x80 \<le> b \<and> b < 0xC0"
proof -
  have "b AND NOT (mask 6) = push_bit 6 (drop_bit 6 b)"
    by (rule bit_word_eqI)
      (auto simp: bit_and_iff bit_not_iff bit_mask_iff bit_push_bit_iff bit_drop_bit_eq)
  moreover have "NOT (mask 6) = (0xC0 :: byte)" by (simp add: mask_eq_exp_minus_1)
  ultimately have "b AND 0xC0 = push_bit 6 (drop_bit 6 b)" by metis
  moreover have "unat (push_bit 6 (drop_bit 6 b)) = unat b div 64 * 64"
  proof -
    have "unat b < 2 ^ LENGTH(8)" by (rule unsigned_less)
    then have "unat b div 64 * 64 < 2 ^ 8" by simp
    then show ?thesis by (simp add: push_bit_eq_mult drop_bit_eq_div unat_word_ariths unat_div)
  qed
  ultimately have "is_cont b \<longleftrightarrow> unat b div 64 * 64 = 128"
    by (auto simp: is_cont_def word_unat_eq_iff)
  then show ?thesis by (simp add: word_le_nat_alt word_less_nat_alt) linarith
qed

lemma lead_not_cont: "utf8_width b > 0 \<Longrightarrow> \<not> is_cont b"
  by (auto simp: is_cont_range utf8_width_def word_le_nat_alt word_less_nat_alt split: if_splits)

lemma utf8_width_le: "utf8_width b \<le> 4"
  by (simp add: utf8_width_def)

text \<open>Character boundaries of valid text: a prefix is valid iff the byte after it starts a
  character.\<close>

lemma valid_boundary:
  "utf8_valid s \<Longrightarrow> m < length s \<Longrightarrow> utf8_valid (take m s) \<longleftrightarrow> \<not> is_cont (s ! m)"
proof (induction s arbitrary: m rule: utf8_valid.induct)
  case 1
  then show ?case by simp
next
  case (2 b bs)
  let ?n = "utf8_width b - 1"
  from 2(2) have v: "utf8_width b > 0" "?n \<le> length bs" "list_all is_cont (take ?n bs)"
    "utf8_second b (take ?n bs)" "utf8_valid (drop ?n bs)"
    by (auto simp: Let_def)
  show ?case
  proof (cases m)
    case 0
    then show ?thesis using lead_not_cont [OF v(1)] by simp
  next
    case (Suc k)
    show ?thesis
    proof (cases "k < ?n")
      case True
      with v(3) have "is_cont (bs ! k)" using v(2) by (auto simp: list_all_length)
      then have "is_cont ((b # bs) ! m)" using Suc by simp
      moreover have "\<not> ?n \<le> length (take k bs)" using True by simp
      then have "\<not> utf8_valid (take m (b # bs))" unfolding Suc take_Suc_Cons utf8_valid.simps Let_def by blast
      ultimately show ?thesis by simp
    next
      case False
      then have k: "k = ?n + (k - ?n)" by simp
      have "utf8_valid (take (k - ?n) (drop ?n bs)) \<longleftrightarrow> \<not> is_cont (drop ?n bs ! (k - ?n))"
        using 2(1) [OF refl v(5)] 2(3) Suc k v(2) by simp
      moreover have "take ?n (take k bs) = take ?n bs" "drop ?n (take k bs) = take (k - ?n) (drop ?n bs)"
        using False by (simp_all add: min_def drop_take)
      moreover have "drop ?n bs ! (k - ?n) = bs ! k" using k v(2) by simp
      ultimately show ?thesis using v 2(3) Suc False by (simp add: Let_def)
    qed
  qed
qed

lemma valid_lead_near:
  "utf8_valid s \<Longrightarrow> m < length s \<Longrightarrow> \<exists>j \<le> m. m < j + 4 \<and> \<not> is_cont (s ! j)"
proof (induction s arbitrary: m rule: utf8_valid.induct)
  case 1
  then show ?case by simp
next
  case (2 b bs)
  let ?n = "utf8_width b - 1"
  from 2(2) have v: "utf8_width b > 0" "?n \<le> length bs" "utf8_valid (drop ?n bs)"
    by (auto simp: Let_def)
  show ?case
  proof (cases "m \<le> ?n")
    case True
    then have "m < 0 + 4" using utf8_width_le [of b] v(1) by linarith
    with lead_not_cont [OF v(1)] show ?thesis by (intro exI [of _ 0]) simp
  next
    case False
    then obtain k where m: "m = Suc (?n + k)" by (metis less_imp_Suc_add not_le)
    with 2(3) have "k < length (drop ?n bs)" by simp
    from 2(1) [OF refl v(3) this] obtain j where
      "j \<le> k" "k < j + 4" "\<not> is_cont (drop ?n bs ! j)" by blast
    with m v(2) show ?thesis by (intro exI [of _ "Suc (?n + j)"]) simp
  qed
qed

lemma cut_le: "p8_cut_utf8 s n \<le> n"
  by (induction n) auto

lemma cut_stop: "p8_cut_utf8 s n = 0 \<or> \<not> is_cont (str_at s (p8_cut_utf8 s n))"
  by (induction n) auto

lemma cut_skipped: "p8_cut_utf8 s n < m \<Longrightarrow> m \<le> n \<Longrightarrow> is_cont (str_at s m)"
  by (induction n) (auto split: if_splits simp: le_Suc_eq)

lemma cut_valid:
  assumes "utf8_valid s" and "n < length s"
  shows "utf8_valid (take (p8_cut_utf8 s n) s)"
proof (cases "p8_cut_utf8 s n = 0")
  case False
  have "p8_cut_utf8 s n < length s" using cut_le [of s n] assms(2) by simp
  moreover from this have "\<not> is_cont (s ! p8_cut_utf8 s n)"
    using cut_stop [of s n] False by (simp add: str_at_def)
  ultimately show ?thesis using valid_boundary [OF assms(1)] by simp
qed simp

text \<open>
  C38 Cutting UTF-8. The cut of a longer valid string is valid, is the longest valid prefix of at
  most \<open>n\<close> bytes, and drops at most three bytes.
\<close>

theorem cut_utf8_longest_valid:
  assumes "utf8_valid s" and "n < length s"
  shows "utf8_valid (take (p8_cut_utf8 s n) s) \<and> p8_cut_utf8 s n \<le> n \<and> n \<le> p8_cut_utf8 s n + 3
    \<and> (\<forall>m. p8_cut_utf8 s n < m \<and> m \<le> n \<longrightarrow> \<not> utf8_valid (take m s))"
proof -
  let ?c = "p8_cut_utf8 s n"
  have at: "str_at s m = s ! m" if "m \<le> n" for m using that assms(2) by (simp add: str_at_def)
  have "utf8_valid (take ?c s)" by (rule cut_valid [OF assms])
  moreover have "\<not> utf8_valid (take m s)" if "?c < m" "m \<le> n" for m
    using cut_skipped [OF that] at [OF that(2)] valid_boundary [OF assms(1), of m] that assms(2) by simp
  moreover obtain j where "j \<le> n" "n < j + 4" "\<not> is_cont (s ! j)"
    using valid_lead_near [OF assms] by blast
  then have "n \<le> ?c + 3" using cut_skipped [of s n j] at [of j] by fastforce
  ultimately show ?thesis using cut_le by blast
qed

lemma cut_utf8_longest_valid_witness:
  "utf8_valid (take (p8_cut_utf8 [0x61, 0xE2, 0x82, 0xAC] 3) [0x61, 0xE2, 0x82, 0xAC])
   \<and> p8_cut_utf8 [0x61, 0xE2, 0x82, 0xAC] 3 = 1"
proof -
  have "utf8_valid [0x61, 0xE2, 0x82, 0xAC]"
    by (simp add: utf8_width_def utf8_second_def is_cont_def)
  from cut_utf8_longest_valid [OF this, of 3] show ?thesis
    by (simp add: numeral_3_eq_3 is_cont_def str_at_def)
qed

section \<open>Service strings\<close>

definition get_svc_str_len :: "cstr option \<Rightarrow> nat" where
  "get_svc_str_len ip_str =
     (let lz_len = (case ip_str of None \<Rightarrow> 0 | Some s \<Rightarrow> length s)
      in if lz_len > P8_SVC_STR_MAX_LEN then p8_cut_utf8 (the ip_str) P8_SVC_STR_MAX_LEN else lz_len)"

text \<open>The bytes a service entry carries for a string.\<close>

definition svc_str :: "cstr option \<Rightarrow> byte list" where
  "svc_str ip_str = (case ip_str of None \<Rightarrow> [] | Some s \<Rightarrow> take (get_svc_str_len ip_str) s)"

lemma get_svc_str_len_max: "get_svc_str_len s \<le> P8_SVC_STR_MAX_LEN"
  using cut_le [of "the s" 1024] by (simp add: get_svc_str_len_def Let_def)

lemma length_svc_str [simp]: "length (svc_str s) = get_svc_str_len s"
  using cut_le [of "the s" 1024]
  by (cases s) (auto simp: svc_str_def get_svc_str_len_def Let_def min_def)

lemma svc_str_short: "length s \<le> P8_SVC_STR_MAX_LEN \<Longrightarrow> svc_str (Some s) = s"
  by (simp add: svc_str_def get_svc_str_len_def)

lemma svc_str_valid: "utf8_valid s \<Longrightarrow> utf8_valid (svc_str (Some s))"
  using cut_valid [of s 1024] by (auto simp: svc_str_def get_svc_str_len_def Let_def)

section \<open>Memory sizes\<close>

text \<open>\<open>strtoull(s, &end, 10)\<close> of the C library: white space, a sign, digits. \<open>None\<close> is the
  call that converts nothing and leaves \<open>end\<close> at the start; a value out of range gives
  \<open>ULLONG_MAX\<close>, a minus sign negates modulo 2^64.\<close>

definition is_space :: "byte \<Rightarrow> bool" where
  "is_space c \<longleftrightarrow> c = 32 \<or> (9 \<le> c \<and> c \<le> 13)"

definition is_digit :: "byte \<Rightarrow> bool" where
  "is_digit c \<longleftrightarrow> 48 \<le> c \<and> c \<le> 57"

fun digits_value :: "nat \<Rightarrow> byte list \<Rightarrow> nat" where
  "digits_value acc [] = acc"
| "digits_value acc (c # cs) = digits_value (10 * acc + (unat c - 48)) cs"

definition strtoull10 :: "cstr \<Rightarrow> (u64 \<times> cstr) option" where
  "strtoull10 s =
     (let t = dropWhile is_space s;
          neg = (case t of c # _ \<Rightarrow> c = 45 | [] \<Rightarrow> False);
          u = (case t of c # r \<Rightarrow> if c = 45 \<or> c = 43 then r else t | [] \<Rightarrow> []);
          v = digits_value 0 (takeWhile is_digit u)
      in if takeWhile is_digit u = [] then None
         else Some (if v \<ge> 2 ^ 64 then - 1 else if neg then - word_of_nat v else word_of_nat v,
                    dropWhile is_digit u))"

text \<open>The loop that copies the value without blanks into \<open>la_buf\<close>, of which \<open>room\<close> bytes are
  left before the terminating NUL.\<close>

fun strip_blanks :: "nat \<Rightarrow> cstr \<Rightarrow> cstr" where
  "strip_blanks room [] = []"
| "strip_blanks 0 (c # cs) = []"
| "strip_blanks (Suc room) (c # cs) =
     (if c \<noteq> 32 \<and> c \<noteq> 9 then c # strip_blanks room cs else strip_blanks (Suc room) cs)"

text \<open>\<open>str_casecmp\<close> is not part of the sources: \<open>casecmp a b\<close> says that it returns 0.\<close>

definition parse_size :: "(cstr \<Rightarrow> cstr \<Rightarrow> bool) \<Rightarrow> cstr \<Rightarrow> u64 option" where
  "parse_size casecmp ip_str =
     (let la_buf = strip_blanks 127 ip_str in
      if casecmp la_buf (bytes_of ''infinite'') then Some (- 1)
      else case strtoull10 la_buf of
        None \<Rightarrow> None
      | Some (lu_val, lp_end) \<Rightarrow>
          if lp_end = [] then Some lu_val
          else if casecmp lp_end (bytes_of ''KB'') \<or> casecmp lp_end (bytes_of ''Ki'')
            then Some (lu_val * 1024)
          else if casecmp lp_end (bytes_of ''MB'') \<or> casecmp lp_end (bytes_of ''Mi'')
            then Some (lu_val * 1024 * 1024)
          else None)"

text \<open>What the C library documents of a comparison that ignores case.\<close>

definition to_lower :: "byte \<Rightarrow> byte" where
  "to_lower c = (if 65 \<le> c \<and> c \<le> 90 then c + 32 else c)"

definition casecmp_spec :: "(cstr \<Rightarrow> cstr \<Rightarrow> bool) \<Rightarrow> bool" where
  "casecmp_spec casecmp \<longleftrightarrow> (\<forall>a b. casecmp a b \<longleftrightarrow> map to_lower a = map to_lower b)"

text \<open>Decimal notation.\<close>

fun decimal :: "nat \<Rightarrow> cstr" where
  "decimal n = (if n < 10 then [] else decimal (n div 10)) @ [word_of_nat (48 + n mod 10)]"

declare decimal.simps [simp del]

lemma digit_byte:
  assumes "d < 10"
  shows "is_digit (word_of_nat (48 + d))" and "unat (word_of_nat (48 + d) :: byte) = 48 + d"
proof -
  show u: "unat (word_of_nat (48 + d) :: byte) = 48 + d" using assms by (simp add: unat_of_nat del: of_nat_add)
  then show "is_digit (word_of_nat (48 + d))"
    using assms by (simp add: is_digit_def word_le_nat_alt del: of_nat_add)
qed

lemma decimal_digits: "list_all is_digit (decimal n)"
  by (induction n rule: decimal.induct) (subst decimal.simps, simp add: digit_byte del: of_nat_add)

lemma digits_value_snoc: "digits_value acc (cs @ [c]) = 10 * digits_value acc cs + (unat c - 48)"
  by (induction cs arbitrary: acc) auto

lemma decimal_value: "digits_value 0 (decimal n) = n"
proof (induction n rule: decimal.induct)
  case (1 n)
  then show ?case
    by (subst decimal.simps) (simp add: digits_value_snoc digit_byte del: of_nat_add)
qed

lemma decimal_ne [simp]: "decimal n \<noteq> []"
  by (subst decimal.simps) simp

lemma digit_not_blank: "is_digit c \<Longrightarrow> \<not> is_space c \<and> c \<noteq> 45 \<and> c \<noteq> 43 \<and> c \<noteq> 32 \<and> c \<noteq> 9"
  by (auto simp: is_digit_def is_space_def word_le_nat_alt)

lemma strtoull10_decimal:
  assumes "n < 2 ^ 64" and "rest = [] \<or> \<not> is_digit (hd rest)"
  shows "strtoull10 (decimal n @ rest) = Some (word_of_nat n, rest)"
proof -
  have all: "\<forall>c \<in> set (decimal n). is_digit c" using decimal_digits by (simp add: list_all_iff)
  obtain c cs where d: "decimal n = c # cs" by (cases "decimal n") auto
  then have c: "\<not> is_space c" "c \<noteq> 45" "c \<noteq> 43" using all digit_not_blank by auto
  have tw: "takeWhile is_digit (decimal n @ rest) = decimal n" "dropWhile is_digit (decimal n @ rest) = rest"
    using all assms(2) by (cases rest; simp)+
  have "dropWhile is_space (decimal n @ rest) = decimal n @ rest" using d c by simp
  then show ?thesis
    using tw c d assms(1) decimal_value [of n] by (simp add: strtoull10_def Let_def)
qed

lemma strip_blanks_filter:
  "strip_blanks room s = take room (filter (\<lambda>c. c \<noteq> 32 \<and> c \<noteq> 9) s)"
  by (induction room s rule: strip_blanks.induct) auto

datatype size_unit = Bytes | KiB | MiB

fun unit_names :: "size_unit \<Rightarrow> string list" where
  "unit_names Bytes = [[]]"
| "unit_names KiB = [''KB'', ''Ki'', ''kb'', ''kB'', ''Kb'', ''KI'', ''ki'', ''kI'']"
| "unit_names MiB = [''MB'', ''Mi'', ''mb'', ''mB'', ''Mb'', ''MI'', ''mi'', ''mI'']"

fun unit_factor :: "size_unit \<Rightarrow> nat" where
  "unit_factor Bytes = 1"
| "unit_factor KiB = 1024"
| "unit_factor MiB = 1024 * 1024"

lemma unit_names_head: "u \<in> set (unit_names k) \<Longrightarrow> bytes_of u = [] \<or> \<not> is_digit (hd (bytes_of u))"
  by (cases k) (auto simp: bytes_of_def of_char_def is_digit_def)

text \<open>
  Memory sizes. A decimal number below 2^64 and a unit, in any case and with blanks anywhere,
  reads as the number of bytes it names, modulo 2^64: the product with the unit wraps.
\<close>

theorem parse_size_value:
  assumes "casecmp_spec casecmp" and "n < 2 ^ 64" and "u \<in> set (unit_names k)"
    and "filter (\<lambda>c. c \<noteq> 32 \<and> c \<noteq> 9) s = decimal n @ bytes_of u"
    and "length (decimal n @ bytes_of u) \<le> 127"
  shows "parse_size casecmp s = Some (word_of_nat (n * unit_factor k))"
proof -
  have b: "strip_blanks 127 s = decimal n @ bytes_of u"
    using assms(4,5) by (simp add: strip_blanks_filter)
  obtain c cs where d: "decimal n = c # cs" "is_digit c"
    using decimal_digits [of n] by (cases "decimal n") auto
  then have "to_lower c \<noteq> 105"
    by (auto simp: to_lower_def is_digit_def word_le_nat_alt)
  then have inf: "\<not> casecmp (decimal n @ bytes_of u) (bytes_of ''infinite'')"
    using assms(1) d by (auto simp: casecmp_spec_def bytes_of_def of_char_def to_lower_def)
  have cc: "casecmp a b \<longleftrightarrow> map to_lower a = map to_lower b" for a b
    using assms(1) by (simp add: casecmp_spec_def)
  note sv = strtoull10_decimal [OF assms(2) unit_names_head [OF assms(3)]]
  have "parse_size casecmp s = (if bytes_of u = [] then Some (word_of_nat n)
      else if casecmp (bytes_of u) (bytes_of ''KB'') \<or> casecmp (bytes_of u) (bytes_of ''Ki'')
        then Some (word_of_nat n * 1024)
      else if casecmp (bytes_of u) (bytes_of ''MB'') \<or> casecmp (bytes_of u) (bytes_of ''Mi'')
        then Some (word_of_nat n * 1024 * 1024) else None)"
    using inf by (simp only: parse_size_def Let_def b sv option.case prod.case if_False)
  then show ?thesis
    using assms(3) by (cases k) (auto simp: cc bytes_of_def of_char_def to_lower_def)
qed

text \<open>\<open>" 16 mB"\<close>.\<close>

lemma parse_size_value_witness:
  "parse_size (\<lambda>a b. map to_lower a = map to_lower b) [32, 49, 54, 9, 109, 66] = Some 16777216"
proof -
  have "casecmp_spec (\<lambda>a b. map to_lower a = map to_lower b)" by (simp add: casecmp_spec_def)
  moreover have "decimal 16 = [49, 54]" by (simp add: decimal.simps)
  moreover have "bytes_of ''mB'' = [109, 66]" by (simp add: bytes_of_def of_char_def)
  ultimately show ?thesis
    using parse_size_value [of "\<lambda>a b. map to_lower a = map to_lower b" 16 "''mB''" MiB
        "[32, 49, 54, 9, 109, 66]"] by simp
qed

end
