(* ===== verification/P8_Writer.thy ===== *)
theory P8_Writer
  imports P8_Core_State P8_Text
begin

text \<open>
  \<open>cp8_tls_writer\<close> of engine/p8_tls_writer.cpp: the buffers a thread's writer holds, rotation to
  the next buffer inside a record, copying across buffers (\<open>copy_fragmented\<close>,
  \<open>P8_WRITE_PIECE\<close>), attributes (\<open>serialize_attrs\<close>), and handing the buffers over
  (\<open>core_push\<close>, \<open>pull\<close>, \<open>pull_dropped\<close>).

  The write cursor of a record in progress is a \<open>pen\<close>: the writer and the core as they are now,
  and the locals \<open>io_dst\<close>, \<open>io_buf_end\<close> as offsets into \<open>mp_buffer\<close>. Every operation on a
  record runs under the writer's spin lock, so no other thread touches the writer meanwhile.
\<close>

section \<open>Writers\<close>

record tls_writer =
  mp_core :: bool
  mo_attr_cache :: "s_p8_attr_desc list"
  mo_fragments :: "addr list"
  mp_buffer :: "addr option"
  mz_buf_used :: nat
  mz_buf_max :: nat
  mu_thread_id :: u32
  mu_writer_id :: u32
  mu_buf_seq :: u32
  wr_dropped :: s_p8_drop_stats

definition no_drops :: s_p8_drop_stats where
  "no_drops = \<lparr>ds_logs = 0, ds_metrics = 0, ds_traces = 0, ds_svc = 0\<rparr>"

text \<open>The constructor: \<open>has_core\<close> says that a core was found; the identifiers are the hash of
  the thread and the number \<open>register_writer\<close> gives.\<close>

definition tls_writer_create :: "bool \<Rightarrow> u32 \<Rightarrow> u32 \<Rightarrow> tls_writer" where
  "tls_writer_create has_core thread writer =
     \<lparr>mp_core = has_core, mo_attr_cache = [], mo_fragments = [], mp_buffer = None, mz_buf_used = 0,
      mz_buf_max = (if has_core then mz_data_buffer_size else 0), mu_thread_id = thread,
      mu_writer_id = (if has_core then writer else 0), mu_buf_seq = 0, wr_dropped = no_drops\<rparr>"

text \<open>The header of a fresh buffer and the reset of the cursor, as in
  \<open>rotate_fragment_buffer\<close> and where a record finds no current buffer.\<close>

definition start_buffer :: "byte \<Rightarrow> addr \<Rightarrow> tls_writer \<Rightarrow> core \<Rightarrow> tls_writer \<times> core" where
  "start_buffer lu_packet_type lp_new w c =
     (w\<lparr>mp_buffer := Some lp_new, mu_buf_seq := mu_buf_seq w + 1, mz_buf_used := sizeof_data_buf_hdr\<rparr>,
      c\<lparr>co_mem := wr (co_mem c) lp_new 0 (enc_dbh
        \<lparr>dbh_packet_type = lu_packet_type, dbh_flags = 0, dbh_size = word_of_nat sizeof_data_buf_hdr,
         dbh_thread_id = mu_thread_id w, dbh_writer_id = mu_writer_id w, dbh_buf_seq = mu_buf_seq w\<rparr>)\<rparr>)"

text \<open>\<open>mu_flags |= P8_DATA_FLAG_FRAGMENT; mu_size = n\<close> in a buffer's header.\<close>

definition mark_fragment :: "addr \<Rightarrow> nat \<Rightarrow> mem \<Rightarrow> mem" where
  "mark_fragment b n m =
     wr (wr m b 1 [m b 1 OR P8_DATA_FLAG_FRAGMENT]) b 2 (le16 (word_of_nat n))"

text \<open>\<open>rotate_fragment_buffer\<close> is called with a current buffer; without one the code would
  dereference null.\<close>

definition rotate_fragment_buffer :: "tls_writer \<Rightarrow> core \<Rightarrow> bool \<times> tls_writer \<times> core" where
  "rotate_fragment_buffer w c = (case mp_buffer w of
     None \<Rightarrow> (False, w, c)
   | Some b \<Rightarrow>
       (let lu_packet_type = co_mem c b 0;
            c1 = c\<lparr>co_mem := mark_fragment b (mz_buf_used w) (co_mem c)\<rparr>;
            w1 = w\<lparr>mo_fragments := mo_fragments w @ [b], mp_buffer := None\<rparr>
        in case acquire_buffer c1 of
          (None, c2) \<Rightarrow> (False, w1, c2)
        | (Some lp_new, c2) \<Rightarrow> (case start_buffer lu_packet_type lp_new w1 c2 of
            (w3, c3) \<Rightarrow> (True, w3, c3))))"

section \<open>Writing\<close>

record pen =
  pn_w :: tls_writer
  pn_c :: core
  io_dst :: nat
  io_buf_end :: nat
  oz_written :: nat

text \<open>\<open>memcpy\<close> at the cursor, which advances.\<close>

definition put_bytes :: "byte list \<Rightarrow> pen \<Rightarrow> pen" where
  "put_bytes bs p = (case mp_buffer (pn_w p) of
     None \<Rightarrow> p
   | Some b \<Rightarrow> p\<lparr>pn_c := (pn_c p)\<lparr>co_mem := wr (co_mem (pn_c p)) b (io_dst p) bs\<rparr>,
       io_dst := io_dst p + length bs, oz_written := oz_written p + length bs\<rparr>)"

definition make_space :: "pen \<Rightarrow> bool \<times> pen" where
  "make_space p =
     (if io_buf_end p - io_dst p = 0 then
        (case rotate_fragment_buffer ((pn_w p)\<lparr>mz_buf_used := io_dst p\<rparr>) (pn_c p) of
           (False, w, c) \<Rightarrow> (False, p\<lparr>pn_w := w, pn_c := c\<rparr>)
         | (True, w, c) \<Rightarrow>
             (True, p\<lparr>pn_w := w, pn_c := c, io_dst := mz_buf_used w, io_buf_end := mz_buf_max w\<rparr>))
      else (True, p))"

text \<open>A buffer that has no room after its header would make the loop spin: \<open>None\<close>.\<close>

partial_function (option) copy_fragmented :: "byte list \<Rightarrow> pen \<Rightarrow> (bool \<times> pen) option" where
  "copy_fragmented lp_src p =
     (if lp_src = [] then Some (True, p)
      else let (ok, p1) = make_space p in
        if \<not> ok then Some (False, p1)
        else let lz_copy = min (length lp_src) (io_buf_end p1 - io_dst p1)
          in copy_fragmented (drop lz_copy lp_src) (put_bytes (take lz_copy lp_src) p1))"

definition write_piece :: "byte list \<Rightarrow> pen \<Rightarrow> (bool \<times> pen) option" where
  "write_piece bs p =
     (if io_dst p + length bs \<le> io_buf_end p then Some (True, put_bytes bs p)
      else copy_fragmented bs p)"

text \<open>Several pieces in a row, up to the first that finds no buffer.\<close>

fun copy_pieces :: "byte list list \<Rightarrow> pen \<Rightarrow> (bool \<times> pen) option" where
  "copy_pieces [] p = Some (True, p)"
| "copy_pieces (bs # rest) p = do {
     (ok, p1) \<leftarrow> copy_fragmented bs p;
     if ok then copy_pieces rest p1 else Some (False, p1)
   }"

section \<open>Attributes\<close>

text \<open>\<open>P8_MAX_RECORD_SIZE\<close>.\<close>
abbreviation (input) P8_MAX_RECORD_SIZE :: nat where "P8_MAX_RECORD_SIZE \<equiv> 65528"

record s_p8_attrs_result =
  mb_done :: bool
  mu_count :: nat
  mz_bytes :: nat

definition sync_attr_cache :: "core \<Rightarrow> s_p8_attr_desc list \<Rightarrow> s_p8_attr_desc list" where
  "sync_attr_cache c io_cache =
     (let lz_old = length io_cache; lz_new = length (mo_attr_descs c)
      in if lz_old \<ge> lz_new then io_cache
         else io_cache @ map ((!) (mo_attr_descs c)) [lz_old..<lz_new])"

text \<open>The descriptor of an attribute id, through the cache; \<open>None\<close> is the code's
  \<open>continue\<close>.\<close>

definition attr_lookup :: "i32 \<Rightarrow> tls_writer \<Rightarrow> core \<Rightarrow> s_p8_attr_desc option \<times> tls_writer" where
  "attr_lookup li_id w c =
     (if sint li_id < 0 then (None, w)
      else let lz_idx = nat (sint li_id) in
        if lz_idx < length (mo_attr_cache w) then (Some (mo_attr_cache w ! lz_idx), w)
        else let w1 = w\<lparr>mo_attr_cache := sync_attr_cache c (mo_attr_cache w)\<rparr> in
          if lz_idx < length (mo_attr_cache w1) then (Some (mo_attr_cache w1 ! lz_idx), w1)
          else (None, w1))"

definition attr_room :: "nat \<Rightarrow> nat" where
  "attr_room lz_used = (if lz_used < P8_MAX_RECORD_SIZE then P8_MAX_RECORD_SIZE - lz_used else 0)"

text \<open>What an attribute writes into a record with \<open>lz_room\<close> bytes left: \<open>None\<close> when it is
  skipped, otherwise its pieces: id and value, or id, length and string.\<close>

definition attr_pieces :: "s_p8_attr_desc \<Rightarrow> s_p8_attr_val \<Rightarrow> nat \<Rightarrow> byte list list option" where
  "attr_pieces d v lz_room =
     (if ad_type d = e_p8_attr_str then
        if lz_room < 4 + 2 then None
        else let lp_str = (case av_str v of None \<Rightarrow> [] | Some s \<Rightarrow> s);
                 lz_len = (if length lp_str > lz_room - 4 - 2 then p8_cut_utf8 lp_str (lz_room - 4 - 2)
                           else length lp_str)
             in Some [le32 (av_id v), le16 (word_of_nat lz_len), take lz_len lp_str]
      else if lz_room < 4 + 8 then None
      else Some [le32 (av_id v), le64 (av_u64 v)])"

fun serialize_attrs_loop ::
    "nat \<Rightarrow> s_p8_attr_val list \<Rightarrow> s_p8_attrs_result \<Rightarrow> pen \<Rightarrow> (s_p8_attrs_result \<times> pen) option" where
  "serialize_attrs_loop iz_record [] lo_result p = Some (lo_result, p)"
| "serialize_attrs_loop iz_record (v # vs) lo_result p =
     (if mu_count lo_result \<ge> UINT8_MAX then Some (lo_result, p)
      else case attr_lookup (av_id v) (pn_w p) (pn_c p) of
        (None, w) \<Rightarrow> serialize_attrs_loop iz_record vs lo_result (p\<lparr>pn_w := w\<rparr>)
      | (Some d, w) \<Rightarrow> (case attr_pieces d v (attr_room (iz_record + mz_bytes lo_result)) of
          None \<Rightarrow> serialize_attrs_loop iz_record vs lo_result (p\<lparr>pn_w := w\<rparr>)
        | Some ps \<Rightarrow> do {
            let lz_size = length (concat ps);
            (ok, p1) \<leftarrow> (if lz_size \<le> io_buf_end p - io_dst p
                          then Some (True, put_bytes (concat ps) (p\<lparr>pn_w := w\<rparr>))
                          else copy_pieces ps (p\<lparr>pn_w := w\<rparr>));
            if \<not> ok then Some (lo_result\<lparr>mb_done := False\<rparr>, p1)
            else serialize_attrs_loop iz_record vs
              (lo_result\<lparr>mz_bytes := mz_bytes lo_result + lz_size, mu_count := mu_count lo_result + 1\<rparr>) p1
          }))"

definition serialize_attrs ::
    "nat \<Rightarrow> s_p8_attr_val list option \<Rightarrow> pen \<Rightarrow> (s_p8_attrs_result \<times> pen) option" where
  "serialize_attrs iz_record ip_attrs p =
     serialize_attrs_loop iz_record (case ip_attrs of None \<Rightarrow> [] | Some vs \<Rightarrow> vs)
       \<lparr>mb_done = True, mu_count = 0, mz_bytes = 0\<rparr> p"

section \<open>Handing buffers over\<close>

definition core_push :: "tls_writer \<Rightarrow> core \<Rightarrow> tls_writer \<times> core" where
  "core_push w c =
     (if length (mo_fragments w) > 0 then
        (let w1 = (case mp_buffer w of
               None \<Rightarrow> w
             | Some b \<Rightarrow> w\<lparr>mo_fragments := mo_fragments w @ [b], mp_buffer := None\<rparr>)
         in case submit_chain (mo_fragments w1) c of
           (rest, c1) \<Rightarrow> (w1\<lparr>mo_fragments := rest, mz_buf_used := 0\<rparr>, c1))
      else if mp_buffer w \<noteq> None then
        (w\<lparr>mp_buffer := None, mz_buf_used := 0\<rparr>, submit_buffer (mp_buffer w) c)
      else (w\<lparr>mz_buf_used := 0\<rparr>, c))"

text \<open>\<open>pull\<close>: the buffers appended to \<open>io_data\<close>, and the writer without them.\<close>

definition pull :: "tls_writer \<Rightarrow> addr list \<Rightarrow> addr list \<times> tls_writer" where
  "pull w io_data = (case mp_buffer w of
     None \<Rightarrow> (io_data @ mo_fragments w, w\<lparr>mo_fragments := []\<rparr>)
   | Some b \<Rightarrow> (io_data @ mo_fragments w @ [b],
       w\<lparr>mo_fragments := [], mp_buffer := None, mz_buf_used := 0\<rparr>))"

definition pull_dropped :: "tls_writer \<Rightarrow> s_p8_drop_stats \<times> tls_writer" where
  "pull_dropped w = ((wr_dropped w)\<lparr>ds_svc := 0\<rparr>,
     w\<lparr>wr_dropped := (wr_dropped w)\<lparr>ds_logs := 0, ds_metrics := 0, ds_traces := 0\<rparr>\<rparr>)"

section \<open>Discarding a record\<close>

text \<open>
  \<open>lbl_discard\<close>, the same code in \<open>cp8_log::send\<close> and \<open>cp8_trc::write_begin\<close>. \<open>lp_hdr\<close> is the
  offset at which the record began in its first buffer, \<open>lz_frag_commit\<close> the length of
  \<open>mo_fragments\<close> then.
\<close>

fun release_extra :: "nat \<Rightarrow> tls_writer \<Rightarrow> core \<Rightarrow> tls_writer \<times> core" where
  "release_extra 0 w c = (w, c)"
| "release_extra (Suc n) w c =
     release_extra n (w\<lparr>mo_fragments := butlast (mo_fragments w), mu_buf_seq := mu_buf_seq w - 1\<rparr>)
       (release_buffer (Some (last (mo_fragments w))) c)"

definition unmark_fragment :: "addr \<Rightarrow> nat \<Rightarrow> mem \<Rightarrow> mem" where
  "unmark_fragment b n m =
     wr (wr m b 1 [m b 1 AND NOT P8_DATA_FLAG_FRAGMENT]) b 2 (le16 (word_of_nat n))"

definition discard_record :: "nat \<Rightarrow> nat \<Rightarrow> tls_writer \<Rightarrow> core \<Rightarrow> tls_writer \<times> core" where
  "discard_record lz_frag_commit lp_hdr w c =
     (case release_extra (length (mo_fragments w) - (lz_frag_commit + 1)) w c of
       (w1, c1) \<Rightarrow>
         (let b = last (mo_fragments w1);
              w2 = w1\<lparr>mo_fragments := butlast (mo_fragments w1), mp_buffer := Some b, mz_buf_used := lp_hdr\<rparr>
          in if sizeof_data_buf_hdr = mz_buf_used w2 then
               (w2\<lparr>mp_buffer := None, mz_buf_used := 0, mu_buf_seq := mu_buf_seq w2 - 1\<rparr>,
                release_buffer (Some b) c1)
             else (w2, c1\<lparr>co_mem := unmark_fragment b (mz_buf_used w2) (co_mem c1)\<rparr>)))"

end
