(* ===== verification/P8_Record.thy ===== *)
theory P8_Record
  imports P8_Writer
begin

text \<open>
  Records that span buffers. A record begins in the writer's current buffer \<open>b0\<close> and continues
  in the buffers \<open>xs\<close> taken for it. \<open>rec_open\<close> describes the state while it is being written:
  which bytes it holds so far (read across the buffers, \<open>span_bytes\<close>), which buffers belong to
  it, and that nothing else changed; \<open>rec_stuck\<close> describes the state in which no further buffer
  was found. The operations of \<open>P8_Writer\<close> keep these, so fragmentation is transparent:
  whatever is written is appended to the record, byte by byte.
\<close>

section \<open>Bytes across buffers\<close>

text \<open>The bytes from offset \<open>s\<close> of the first buffer to offset \<open>e\<close> of the last, each buffer but
  the last read to its end \<open>M\<close> and each but the first from its header on.\<close>

fun span_bytes :: "mem \<Rightarrow> nat \<Rightarrow> nat \<Rightarrow> addr list \<Rightarrow> nat \<Rightarrow> byte list" where
  "span_bytes m M s [] e = []"
| "span_bytes m M s [b] e = rd m b s (e - s)"
| "span_bytes m M s (b # b' # bs) e = rd m b s (M - s) @ span_bytes m M sizeof_data_buf_hdr (b' # bs) e"

lemma span_cong:
  "(\<And>a i. a \<in> set bs \<Longrightarrow> (a = hd bs \<Longrightarrow> s \<le> i) \<Longrightarrow> sizeof_data_buf_hdr \<le> i \<Longrightarrow> m' a i = m a i) \<Longrightarrow>
   sizeof_data_buf_hdr \<le> s \<Longrightarrow> distinct bs \<Longrightarrow> span_bytes m' M s bs e = span_bytes m M s bs e"
proof (induction m M s bs e rule: span_bytes.induct)
  case (1 m M s e)
  then show ?case by simp
next
  case (2 m M s b e)
  have "rd m' b s (e - s) = rd m b s (e - s)"
    using 2(2) by (intro rd_cong 2(1)) auto
  then show ?case by simp
next
  case (3 m M s b b' bs e)
  have "rd m' b s (M - s) = rd m b s (M - s)"
    using 3(3) by (intro rd_cong 3(2)) auto
  moreover have "span_bytes m' M 16 (b' # bs) e = span_bytes m M 16 (b' # bs) e"
    using 3(4) by (intro 3(1) 3(2)) auto
  ultimately show ?case by simp
qed

text \<open>A full last buffer is the same as a fresh one after it.\<close>

lemma span_rotate:
  "span_bytes m M s (bs @ [b, b']) sizeof_data_buf_hdr = span_bytes m M s (bs @ [b]) M"
proof (induction bs arbitrary: s)
  case Nil
  then show ?case by simp
next
  case (Cons a bs)
  then show ?case by (cases bs) auto
qed

lemma span_append:
  assumes "distinct (bs @ [b])" and "if bs = [] then s \<le> e else sizeof_data_buf_hdr \<le> e"
    and "sizeof_data_buf_hdr \<le> s"
  shows "span_bytes (wr m b e cs) M s (bs @ [b]) (e + length cs) = span_bytes m M s (bs @ [b]) e @ cs"
  using assms
proof (induction bs arbitrary: s)
  case Nil
  then show ?case using rd_wr_append [of s e m b cs] by simp
next
  case (Cons a bs)
  then have "a \<noteq> b" by auto
  moreover have "span_bytes (wr m b e cs) M 16 (bs @ [b]) (e + length cs) = span_bytes m M 16 (bs @ [b]) e @ cs"
    using Cons by (intro Cons.IH) (auto split: if_splits)
  ultimately show ?case by (cases bs) auto
qed

lemma span_split:
  assumes "sizeof_data_buf_hdr \<le> s" and "if xs = [] then s \<le> e else s \<le> M"
  shows "span_bytes m M sizeof_data_buf_hdr (b # xs) e
    = rd m b sizeof_data_buf_hdr (s - sizeof_data_buf_hdr) @ span_bytes m M s (b # xs) e"
proof -
  have split: "rd m b 16 (k - 16) = rd m b 16 (s - 16) @ rd m b s (k - s)" if "s \<le> k" for k
  proof -
    have "k - 16 = (s - 16) + (k - s)" using that assms(1) by simp
    then show ?thesis using assms(1) rd_add [of m b 16 "s - 16" "k - s"] by simp
  qed
  show ?thesis
  proof (cases xs)
    case Nil
    then show ?thesis using assms(2) split [of e] by simp
  next
    case (Cons x ys)
    then show ?thesis using assms(2) split [of M] by simp
  qed
qed

lemma last_notin_butlast: "distinct ys \<Longrightarrow> ys \<noteq> [] \<Longrightarrow> last ys \<notin> set (butlast ys)"
  by (cases ys rule: rev_cases) auto

lemma in_butlast_or_last: "a \<in> set ys \<Longrightarrow> a \<in> set (butlast ys) \<or> a = last ys"
  by (cases ys rule: rev_cases) auto

section \<open>Records in progress\<close>

definition writer_static :: "tls_writer \<Rightarrow> bool \<times> nat \<times> u32 \<times> u32 \<times> s_p8_drop_stats" where
  "writer_static w = (mp_core w, mz_buf_max w, mu_thread_id w, mu_writer_id w, wr_dropped w)"

text \<open>The state at the start: the cursor at \<open>d\<close> in the current buffer \<open>b0\<close>.\<close>

definition rec_start :: "tls_writer \<Rightarrow> core \<Rightarrow> addr \<Rightarrow> nat \<Rightarrow> bool" where
  "rec_start w0 c0 b0 d \<longleftrightarrow> core_ok c0 \<and> mp_buffer w0 = Some b0 \<and> distinct (mo_fragments w0 @ [b0])
     \<and> set (mo_fragments w0 @ [b0]) \<subseteq> owned (mp_data_pool c0)
     \<and> sizeof_data_buf_hdr \<le> d \<and> d \<le> mz_buf_max w0 \<and> mz_buf_max w0 = mz_data_buffer_size"

text \<open>Header of the \<open>k\<close>-th buffer taken for the record: the writer's next number.\<close>

definition extra_hdr :: "tls_writer \<Rightarrow> core \<Rightarrow> addr \<Rightarrow> core \<Rightarrow> nat \<Rightarrow> addr \<Rightarrow> bool" where
  "extra_hdr w0 c0 b0 c k a \<longleftrightarrow> co_mem c a 0 = co_mem c0 b0 0
     \<and> rd (co_mem c) a 4 12 = le32 (mu_thread_id w0) @ le32 (mu_writer_id w0)
         @ le32 (mu_buf_seq w0 + word_of_nat k)"

text \<open>A buffer left full: its size is recorded and the fragment flag set.\<close>

definition closed_buf :: "mem \<Rightarrow> nat \<Rightarrow> addr \<Rightarrow> bool" where
  "closed_buf m M a \<longleftrightarrow> rd m a 2 2 = le16 (word_of_nat M) \<and> bit (m a 1) 0"

lemma closed_cong: "m' a = m a \<Longrightarrow> closed_buf m' M a = closed_buf m M a"
  by (simp add: closed_buf_def rd_def)

definition rec_frame :: "tls_writer \<Rightarrow> core \<Rightarrow> addr \<Rightarrow> nat \<Rightarrow> addr list \<Rightarrow> tls_writer \<Rightarrow> core \<Rightarrow> bool" where
  "rec_frame w0 c0 b0 d xs w c \<longleftrightarrow> core_ok c
     \<and> owned (mp_data_pool c) = owned (mp_data_pool c0) \<union> set xs \<and> distinct xs
     \<and> set xs \<inter> owned (mp_data_pool c0) = {}
     \<and> mu_buf_seq w = mu_buf_seq w0 + word_of_nat (length xs)
     \<and> writer_static w = writer_static w0 \<and> core_static c = core_static c0
     \<and> wait_part (mp_data_pool c) = wait_part (mp_data_pool c0)
     \<and> (\<forall>a. a \<notin> set xs \<longrightarrow> a \<noteq> b0 \<longrightarrow> co_mem c a = co_mem c0 a)
     \<and> (\<forall>i < d. i \<notin> {1, 2, 3} \<longrightarrow> co_mem c b0 i = co_mem c0 b0 i)
     \<and> (\<forall>k < length xs. extra_hdr w0 c0 b0 c k (xs ! k))"

definition rec_open :: "tls_writer \<Rightarrow> core \<Rightarrow> addr \<Rightarrow> nat \<Rightarrow> byte list \<Rightarrow> addr list \<Rightarrow> pen \<Rightarrow> bool" where
  "rec_open w0 c0 b0 d bs xs p \<longleftrightarrow> rec_frame w0 c0 b0 d xs (pn_w p) (pn_c p)
     \<and> mp_buffer (pn_w p) = Some (last (b0 # xs))
     \<and> mo_fragments (pn_w p) = mo_fragments w0 @ butlast (b0 # xs)
     \<and> (\<forall>a \<in> set (butlast (b0 # xs)). closed_buf (co_mem (pn_c p)) (mz_buf_max w0) a)
     \<and> (if xs = [] then \<forall>i \<in> {1, 2, 3}. co_mem (pn_c p) b0 i = co_mem c0 b0 i
        else co_mem (pn_c p) b0 1 = co_mem c0 b0 1 OR P8_DATA_FLAG_FRAGMENT
          \<and> co_mem (pn_c p) (last xs) 1 = 0)
     \<and> io_buf_end p = mz_buf_max w0 \<and> sizeof_data_buf_hdr \<le> io_dst p \<and> io_dst p \<le> mz_buf_max w0
     \<and> (xs = [] \<longrightarrow> d \<le> io_dst p)
     \<and> span_bytes (co_mem (pn_c p)) (mz_buf_max w0) d (b0 # xs) (io_dst p) = bs"

definition rec_stuck :: "tls_writer \<Rightarrow> core \<Rightarrow> addr \<Rightarrow> nat \<Rightarrow> addr list \<Rightarrow> tls_writer \<Rightarrow> core \<Rightarrow> bool" where
  "rec_stuck w0 c0 b0 d xs w c \<longleftrightarrow> rec_frame w0 c0 b0 d xs w c
     \<and> mp_buffer w = None \<and> mo_fragments w = mo_fragments w0 @ b0 # xs
     \<and> co_mem c b0 1 = co_mem c0 b0 1 OR P8_DATA_FLAG_FRAGMENT"

lemma rec_open_start:
  assumes "rec_start w0 c0 b0 d" and "pn_w p = w0" and "pn_c p = c0" and "io_dst p = d"
    and "io_buf_end p = mz_buf_max w0"
  shows "rec_open w0 c0 b0 d [] [] p"
  using assms by (simp add: rec_open_def rec_frame_def rec_start_def)

lemma mp_buffer_fresh:
  assumes "rec_start w0 c0 b0 d" and "rec_open w0 c0 b0 d bs xs p"
  shows "distinct (b0 # xs)" and "set (b0 # xs) \<inter> set (mo_fragments w0) = {}"
  using assms by (auto simp: rec_start_def rec_open_def rec_frame_def)

lemma span_bytes_put:
  assumes s: "rec_start w0 c0 b0 d" and o: "rec_open w0 c0 b0 d bs xs p"
  shows "span_bytes (wr (co_mem (pn_c p)) (last (b0 # xs)) (io_dst p) cs) (mz_buf_max w0) d (b0 # xs)
    (io_dst p + length cs) = bs @ cs"
proof -
  let ?ys = "butlast (b0 # xs)" and ?y = "last (b0 # xs)"
  have e: "?ys @ [?y] = b0 # xs" by (rule append_butlast_last_id) simp
  have "distinct (?ys @ [?y])" unfolding e by (rule mp_buffer_fresh(1) [OF s o])
  moreover have "if ?ys = [] then d \<le> io_dst p else 16 \<le> io_dst p" "16 \<le> d"
    using s o by (auto simp: rec_open_def rec_start_def)
  ultimately have "span_bytes (wr (co_mem (pn_c p)) ?y (io_dst p) cs) (mz_buf_max w0) d
      (?ys @ [?y]) (io_dst p + length cs)
    = span_bytes (co_mem (pn_c p)) (mz_buf_max w0) d (?ys @ [?y]) (io_dst p) @ cs"
    by (intro span_append)
  then show ?thesis unfolding e using o by (simp add: rec_open_def)
qed

text \<open>Writing below the buffer's end.\<close>

lemma rec_open_put:
  assumes s: "rec_start w0 c0 b0 d" and o: "rec_open w0 c0 b0 d bs xs p"
    and room: "io_dst p + length cs \<le> mz_buf_max w0"
  shows "rec_open w0 c0 b0 d (bs @ cs) xs (put_bytes cs p)"
proof -
  let ?l = "last (b0 # xs)"
  define m where "m = wr (co_mem (pn_c p)) ?l (io_dst p) cs"
  have p': "put_bytes cs p = p\<lparr>pn_c := (pn_c p)\<lparr>co_mem := m\<rparr>, io_dst := io_dst p + length cs,
      oz_written := oz_written p + length cs\<rparr>"
    using o by (simp add: put_bytes_def rec_open_def m_def)
  have low: "m a i = co_mem (pn_c p) a i" if "a = ?l \<Longrightarrow> i < io_dst p" for a i
    using that by (cases "a = ?l") (auto simp: wr_frame m_def simp del: last.simps)
  have h16: "16 \<le> io_dst p" using o by (simp add: rec_open_def)
  have hd_same: "m a i = co_mem (pn_c p) a i" if "i < 16" for a i
    using low that h16 by simp
  have rd_same: "rd m a i n = rd (co_mem (pn_c p)) a i n" if "i + n \<le> 16" for a i n
    using that by (intro rd_cong hd_same) simp
  have d_le: "xs = [] \<Longrightarrow> d \<le> io_dst p" using o by (simp add: rec_open_def)
  have b0_same: "m b0 i = co_mem (pn_c p) b0 i" if "i < d" for i
  proof (rule low)
    assume "b0 = ?l"
    then have "xs = []" using mp_buffer_fresh(1) [OF s o] by (cases xs rule: rev_cases) auto
    with d_le that show "i < io_dst p" by simp
  qed
  have other: "m a = co_mem (pn_c p) a" if "a \<notin> set xs" "a \<noteq> b0" for a
    unfolding m_def using that by (intro wr_other) (metis last_ConsL last_ConsR last_in_set)
  have fr: "rec_frame w0 c0 b0 d xs (pn_w p) (pn_c p)" using o by (simp add: rec_open_def)
  have "extra_hdr w0 c0 b0 ((pn_c p)\<lparr>co_mem := m\<rparr>) k a \<longleftrightarrow> extra_hdr w0 c0 b0 (pn_c p) k a" for k a
    by (simp add: extra_hdr_def hd_same rd_same)
  with fr other b0_same have "rec_frame w0 c0 b0 d xs (pn_w p) ((pn_c p)\<lparr>co_mem := m\<rparr>)"
    by (simp add: rec_frame_def core_ok_def)
  moreover have "\<forall>a \<in> set (butlast (b0 # xs)). closed_buf m (mz_buf_max w0) a"
    using o by (simp add: rec_open_def closed_buf_def hd_same rd_same)
  ultimately show ?thesis
    using o room span_bytes_put [OF s o, of cs, folded m_def] h16 unfolding rec_open_def p'
    by (auto simp: hd_same simp del: last.simps butlast.simps split: if_splits)
qed

text \<open>Closing the current buffer: only its flags and size change.\<close>

lemma mark_fragment_bytes:
  "a \<noteq> b \<Longrightarrow> mark_fragment b n m a = m a"
  "i \<notin> {1, 2, 3} \<Longrightarrow> mark_fragment b n m a i = m a i"
  "mark_fragment b n m b 1 = m b 1 OR P8_DATA_FLAG_FRAGMENT"
  "rd (mark_fragment b n m) b 2 2 = le16 (word_of_nat n)"
proof -
  show "a \<noteq> b \<Longrightarrow> mark_fragment b n m a = m a" by (simp add: mark_fragment_def)
  show "i \<notin> {1, 2, 3} \<Longrightarrow> mark_fragment b n m a i = m a i"
    by (auto simp: mark_fragment_def wr_def le16_def)
  show "mark_fragment b n m b 1 = m b 1 OR P8_DATA_FLAG_FRAGMENT"
    by (simp add: mark_fragment_def wr_def)
  show "rd (mark_fragment b n m) b 2 2 = le16 (word_of_nat n)"
    by (simp add: mark_fragment_def)
qed

lemma closed_mark: "n = M \<Longrightarrow> closed_buf (mark_fragment b n m) M b"
  using mark_fragment_bytes(3,4) [of b n m] by (simp add: closed_buf_def bit_or_iff)

lemma rec_close:
  assumes s: "rec_start w0 c0 b0 d" and o: "rec_open w0 c0 b0 d bs xs p"
    and full: "io_dst p = mz_buf_max w0"
    and m: "m = mark_fragment (last (b0 # xs)) (mz_buf_max w0) (co_mem (pn_c p))"
  shows "rec_frame w0 c0 b0 d xs (pn_w p) ((pn_c p)\<lparr>co_mem := m\<rparr>)"
    and "\<forall>a \<in> set (b0 # xs). closed_buf m (mz_buf_max w0) a"
    and "m b0 1 = co_mem c0 b0 1 OR P8_DATA_FLAG_FRAGMENT"
    and "span_bytes m (mz_buf_max w0) d (b0 # xs) (mz_buf_max w0) = bs"
proof -
  let ?l = "last (b0 # xs)"
  note dist = mp_buffer_fresh(1) [OF s o]
  have ml: "m a = co_mem (pn_c p) a" if "a \<noteq> ?l" for a
    using mark_fragment_bytes(1) that by (simp add: m del: last.simps)
  have keep: "m a i = co_mem (pn_c p) a i" if "i \<notin> {1, 2, 3}" for a i
    using mark_fragment_bytes(2) [OF that] by (simp add: m del: last.simps)
  have rdk: "rd m a i n = rd (co_mem (pn_c p)) a i n" if "4 \<le> i" for a i n
    using that by (intro rd_cong keep) auto
  have fr: "rec_frame w0 c0 b0 d xs (pn_w p) (pn_c p)" using o by (simp add: rec_open_def)
  have ex: "extra_hdr w0 c0 b0 ((pn_c p)\<lparr>co_mem := m\<rparr>) k a \<longleftrightarrow> extra_hdr w0 c0 b0 (pn_c p) k a" for k a
    using keep [of 0] rdk by (simp add: extra_hdr_def)
  have other: "m a = co_mem (pn_c p) a" if "a \<notin> set xs" "a \<noteq> b0" for a
    using that by (intro ml) (metis last_ConsL last_ConsR last_in_set)
  from fr ex other keep show "rec_frame w0 c0 b0 d xs (pn_w p) ((pn_c p)\<lparr>co_mem := m\<rparr>)"
    by (simp add: rec_frame_def core_ok_def)
  have eq: "butlast (b0 # xs) @ [?l] = b0 # xs" by (rule append_butlast_last_id) simp
  have nl: "?l \<notin> set (butlast (b0 # xs))" by (rule last_notin_butlast [OF dist]) simp
  have st: "a \<in> set (b0 # xs) \<Longrightarrow> a \<in> set (butlast (b0 # xs)) \<or> a = ?l" for a
    by (rule in_butlast_or_last)
  have "closed_buf m (mz_buf_max w0) a" if "a \<in> set (butlast (b0 # xs))" for a
  proof -
    have "closed_buf (co_mem (pn_c p)) (mz_buf_max w0) a" using o that by (simp add: rec_open_def)
    moreover have "m a = co_mem (pn_c p) a" using that nl by (intro ml) auto
    ultimately show ?thesis by (simp add: closed_buf_def rd_def)
  qed
  moreover have "closed_buf m (mz_buf_max w0) ?l" unfolding m by (rule closed_mark) simp
  ultimately show "\<forall>a \<in> set (b0 # xs). closed_buf m (mz_buf_max w0) a"
    using st by blast
  show "m b0 1 = co_mem c0 b0 1 OR P8_DATA_FLAG_FRAGMENT"
  proof (cases "xs = []")
    case True
    with o show ?thesis using mark_fragment_bytes(3) by (simp add: rec_open_def m)
  next
    case False
    then have "b0 \<noteq> ?l" using dist by auto
    with o False show ?thesis using ml by (simp add: rec_open_def)
  qed
  have "span_bytes m (mz_buf_max w0) d (b0 # xs) (mz_buf_max w0)
      = span_bytes (co_mem (pn_c p)) (mz_buf_max w0) d (b0 # xs) (mz_buf_max w0)"
    using dist s by (intro span_cong keep) (auto simp: rec_start_def)
  then show "span_bytes m (mz_buf_max w0) d (b0 # xs) (mz_buf_max w0) = bs"
    using o full by (simp add: rec_open_def)
qed

lemma rec_rotate:
  assumes s: "rec_start w0 c0 b0 d" and o: "rec_open w0 c0 b0 d bs xs p"
    and full: "io_dst p = mz_buf_max w0"
    and r: "rotate_fragment_buffer ((pn_w p)\<lparr>mz_buf_used := io_dst p\<rparr>) (pn_c p) = (ok, w', c')"
  shows "\<not> ok \<Longrightarrow> rec_stuck w0 c0 b0 d xs w' c'"
    and "ok \<Longrightarrow> \<exists>x. rec_open w0 c0 b0 d bs (xs @ [x])
      (p\<lparr>pn_w := w', pn_c := c', io_dst := mz_buf_used w', io_buf_end := mz_buf_max w'\<rparr>)"
    and "ok \<Longrightarrow> mz_buf_used w' = sizeof_data_buf_hdr"
proof -
  let ?l = "last (b0 # xs)" and ?M = "mz_buf_max w0"
  define m where "m = mark_fragment ?l ?M (co_mem (pn_c p))"
  define c1 where "c1 = (pn_c p)\<lparr>co_mem := m\<rparr>"
  define w1 where "w1 = (pn_w p)\<lparr>mz_buf_used := ?M, mo_fragments := mo_fragments (pn_w p) @ [?l], mp_buffer := None\<rparr>"
  note cl = rec_close [OF s o full m_def]
  have b: "mp_buffer (pn_w p) = Some ?l" and fg: "mo_fragments (pn_w p) = mo_fragments w0 @ butlast (b0 # xs)"
    using o by (auto simp: rec_open_def)
  have eq: "butlast (b0 # xs) @ [?l] = b0 # xs" by (rule append_butlast_last_id) simp
  have fg1: "mo_fragments w1 = mo_fragments w0 @ b0 # xs"
    unfolding w1_def using fg eq by simp
  have fr1: "rec_frame w0 c0 b0 d xs w1 c1"
    using cl(1) by (simp add: rec_frame_def w1_def c1_def writer_static_def)
  then have ok1: "core_ok c1" by (simp add: rec_frame_def)
  have r1: "rotate_fragment_buffer ((pn_w p)\<lparr>mz_buf_used := io_dst p\<rparr>) (pn_c p) =
      (case acquire_buffer c1 of (None, c2) \<Rightarrow> (False, w1, c2)
       | (Some lp_new, c2) \<Rightarrow> (case start_buffer (co_mem (pn_c p) ?l 0) lp_new w1 c2 of (w3, c3) \<Rightarrow> (True, w3, c3)))"
    unfolding w1_def c1_def m_def using b full
    by (simp add: rotate_fragment_buffer_def Let_def del: last.simps)
  have ty: "co_mem (pn_c p) ?l 0 = co_mem c0 b0 0"
  proof (cases "xs = []")
    case True
    with o s show ?thesis by (simp add: rec_open_def rec_frame_def rec_start_def)
  next
    case False
    then have "xs ! (length xs - 1) = ?l" by (simp add: last_conv_nth)
    moreover have "extra_hdr w0 c0 b0 (pn_c p) (length xs - 1) (xs ! (length xs - 1))"
      using o False by (simp add: rec_open_def rec_frame_def)
    ultimately show ?thesis by (simp add: extra_hdr_def)
  qed
  show "\<not> ok \<Longrightarrow> rec_stuck w0 c0 b0 d xs w' c'"
  proof -
    assume "\<not> ok"
    with r r1 obtain c2 where a: "acquire_buffer c1 = (None, c2)" and wc: "w' = w1" "c' = c2"
      by (auto split: prod.splits option.splits)
    note f = acquire_buffer_None [OF a ok1]
    have "extra_hdr w0 c0 b0 c2 k x \<longleftrightarrow> extra_hdr w0 c0 b0 c1 k x" for k x by (simp add: extra_hdr_def f)
    with fr1 f acquire_buffer_wait_part [OF a ok1] have "rec_frame w0 c0 b0 d xs w1 c2"
      by (simp add: rec_frame_def)
    moreover have "co_mem c2 b0 1 = co_mem c0 b0 1 OR P8_DATA_FLAG_FRAGMENT"
      using cl(3) f by (simp add: c1_def)
    ultimately show ?thesis using fg1 by (simp add: rec_stuck_def wc w1_def)
  qed
  assume ok
  with r r1 obtain x c2 where a: "acquire_buffer c1 = (Some x, c2)"
    and st: "start_buffer (co_mem (pn_c p) ?l 0) x w1 c2 = (w', c')"
    by (auto split: prod.splits option.splits)
  note f = acquire_buffer_Some [OF a ok1]
  define h where "h = \<lparr>dbh_packet_type = co_mem c0 b0 0, dbh_flags = 0, dbh_size = word_of_nat 16,
         dbh_thread_id = mu_thread_id w0, dbh_writer_id = mu_writer_id w0,
         dbh_buf_seq = mu_buf_seq w0 + word_of_nat (length xs)\<rparr>"
  define m2 where "m2 = wr m x 0 (enc_dbh h)"
  have ws: "writer_static w1 = writer_static w0" "mu_buf_seq w1 = mu_buf_seq w0 + word_of_nat (length xs)"
    using fr1 by (auto simp: rec_frame_def)
  have w': "w' = w1\<lparr>mp_buffer := Some x, mu_buf_seq := mu_buf_seq w1 + 1, mz_buf_used := 16\<rparr>"
    and c': "c' = c2\<lparr>co_mem := m2\<rparr>"
    using st [unfolded ty] ws f(4) by (auto simp: start_buffer_def writer_static_def m2_def h_def c1_def)
  show "mz_buf_used w' = 16" by (simp add: w')
  have own: "owned (mp_data_pool c1) = owned (mp_data_pool c0) \<union> set xs"
    using fr1 by (simp add: rec_frame_def)
  have x: "x \<notin> owned (mp_data_pool c0)" "x \<notin> set xs" using f(2) own by auto
  have xb: "x \<noteq> b0" using x s by (auto simp: rec_start_def)
  have m2o: "m2 a = m a" if "a \<noteq> x" for a using that by (simp add: m2_def)
  have lenh: "length (enc_dbh h) = 16" by simp
  have m2x: "m2 x i = enc_dbh h ! i" if "i < 16" for i
    using that by (simp add: m2_def wr_def)
  have hdrx: "extra_hdr w0 c0 b0 c' (length xs) x"
  proof -
    have "rd m2 x 4 12 = take 12 (drop 4 (enc_dbh h))"
      using rd_wr_inside [of 0 4 12 "enc_dbh h" m x] by (simp add: m2_def)
    then show ?thesis using m2x [of 0] by (simp add: extra_hdr_def c' enc_dbh_def h_def)
  qed
  have ex: "extra_hdr w0 c0 b0 c' k a \<longleftrightarrow> extra_hdr w0 c0 b0 c1 k a" if "a \<noteq> x" for k a
    using m2o [OF that] by (simp add: extra_hdr_def c' c1_def rd_def)
  have hdrs: "\<forall>k < length (xs @ [x]). extra_hdr w0 c0 b0 c' k ((xs @ [x]) ! k)"
  proof (intro allI impI)
    fix k
    assume k: "k < length (xs @ [x])"
    show "extra_hdr w0 c0 b0 c' k ((xs @ [x]) ! k)"
    proof (cases "k = length xs")
      case False
      with k have "k < length xs" by simp
      then have "xs ! k \<noteq> x" using x by (metis nth_mem)
      with \<open>k < length xs\<close> fr1 show ?thesis using ex [of "xs ! k" k] by (simp add: nth_append rec_frame_def)
    qed (simp add: hdrx)
  qed
  have fr2: "rec_frame w0 c0 b0 d (xs @ [x]) w' c'"
  proof -
    have "core_ok c'" using f(1) by (simp add: c' core_ok_def)
    moreover have "owned (mp_data_pool c') = owned (mp_data_pool c0) \<union> set (xs @ [x])"
      using f(3) own by (auto simp: c')
    moreover have "\<forall>a. a \<notin> set (xs @ [x]) \<longrightarrow> a \<noteq> b0 \<longrightarrow> co_mem c' a = co_mem c0 a"
      using fr1 m2o by (simp add: rec_frame_def c' c1_def)
    moreover have "\<forall>i < d. i \<notin> {1, 2, 3} \<longrightarrow> co_mem c' b0 i = co_mem c0 b0 i"
      using fr1 m2o [of b0] xb by (simp add: rec_frame_def c' c1_def)
    moreover have "writer_static w' = writer_static w0" "core_static c' = core_static c0"
      using ws fr1 f by (simp_all add: w' c' writer_static_def rec_frame_def c1_def)
    moreover have "wait_part (mp_data_pool c') = wait_part (mp_data_pool c0)"
      using fr1 acquire_buffer_wait_part [OF a ok1] by (simp add: rec_frame_def c')
    ultimately show ?thesis
      using fr1 x hdrs unfolding rec_frame_def by (simp add: w' ws add.assoc)
  qed
  have sp: "span_bytes m2 ?M d (b0 # xs @ [x]) 16 = bs"
  proof -
    have "span_bytes m2 ?M d (b0 # xs @ [x]) 16 = span_bytes m2 ?M d (b0 # xs) ?M"
      using span_rotate [of m2 ?M d "butlast (b0 # xs)" ?l x] eq
      by (metis append.assoc append_Cons append_Nil)
    also have "\<dots> = span_bytes m ?M d (b0 # xs) ?M"
      using mp_buffer_fresh(1) [OF s o] s x xb
      by (intro span_cong fun_cong [OF m2o]) (auto simp: rec_start_def)
    finally show ?thesis using cl(4) by simp
  qed
  have "\<forall>a \<in> set (b0 # xs). closed_buf m2 ?M a"
  proof
    fix a
    assume "a \<in> set (b0 # xs)"
    moreover from this have "m2 a = m a" using x xb by (intro m2o) auto
    ultimately show "closed_buf m2 ?M a" using cl(2) closed_cong [of m2 a m] by blast
  qed
  moreover have "m2 b0 1 = co_mem c0 b0 1 OR P8_DATA_FLAG_FRAGMENT" using m2o [of b0] xb cl(3) by simp
  moreover have "m2 x 1 = 0" using m2x [of 1] by (simp add: enc_dbh_def h_def)
  moreover have "mz_buf_max w' = ?M" "16 \<le> ?M" using ws s by (auto simp: w' writer_static_def rec_start_def)
  moreover have "mo_fragments w' = mo_fragments w0 @ b0 # xs" using fg1 by (simp add: w')
  ultimately have "rec_open w0 c0 b0 d bs (xs @ [x])
      (p\<lparr>pn_w := w', pn_c := c', io_dst := mz_buf_used w', io_buf_end := mz_buf_max w'\<rparr>)"
    using fr2 sp unfolding rec_open_def by (simp add: w' c')
  then show "\<exists>x. rec_open w0 c0 b0 d bs (xs @ [x])
      (p\<lparr>pn_w := w', pn_c := c', io_dst := mz_buf_used w', io_buf_end := mz_buf_max w'\<rparr>)" ..
qed

section \<open>Copying\<close>

text \<open>What a write does to a record: it appends the bytes, or runs out of buffers.\<close>

definition rec_result ::
    "tls_writer \<Rightarrow> core \<Rightarrow> addr \<Rightarrow> nat \<Rightarrow> byte list \<Rightarrow> bool \<times> pen \<Rightarrow> bool" where
  "rec_result w0 c0 b0 d bs r \<longleftrightarrow> (case r of (ok, p) \<Rightarrow>
     if ok then \<exists>xs. rec_open w0 c0 b0 d bs xs p
     else \<exists>xs. rec_stuck w0 c0 b0 d xs (pn_w p) (pn_c p))"

lemma make_space_spec:
  assumes s: "rec_start w0 c0 b0 d" and o: "rec_open w0 c0 b0 d bs xs p"
    and m: "make_space p = (ok, p1)"
  shows "rec_result w0 c0 b0 d bs (ok, p1)" and "ok \<Longrightarrow> io_dst p1 < mz_buf_max w0"
    and "oz_written p1 = oz_written p"
proof -
  have M: "mz_buf_max w0 = 8192" and e: "io_buf_end p = mz_buf_max w0" "io_dst p \<le> mz_buf_max w0"
    using s o by (auto simp: rec_start_def rec_open_def)
  have "rec_result w0 c0 b0 d bs (ok, p1) \<and> (ok \<longrightarrow> io_dst p1 < mz_buf_max w0) \<and> oz_written p1 = oz_written p"
  proof (cases "io_dst p = mz_buf_max w0")
    case False
    with m e o show ?thesis by (auto simp: make_space_def rec_result_def)
  next
    case True
    obtain w' c' where r: "rotate_fragment_buffer ((pn_w p)\<lparr>mz_buf_used := io_dst p\<rparr>) (pn_c p) = (ok, w', c')"
      using m e True by (cases "rotate_fragment_buffer ((pn_w p)\<lparr>mz_buf_used := io_dst p\<rparr>) (pn_c p)")
        (auto simp: make_space_def split: bool.splits)
    note rr = rec_rotate [OF s o True r]
    show ?thesis
    proof (cases ok)
      case False
      with m e True r rr(1) show ?thesis by (auto simp: make_space_def rec_result_def)
    next
      case okt: True
      with m e True r have "p1 = p\<lparr>pn_w := w', pn_c := c', io_dst := mz_buf_used w', io_buf_end := mz_buf_max w'\<rparr>"
        by (simp add: make_space_def)
      with okt rr(2,3) M show ?thesis by (auto simp: rec_result_def)
    qed
  qed
  then show "rec_result w0 c0 b0 d bs (ok, p1)" "ok \<Longrightarrow> io_dst p1 < mz_buf_max w0"
    "oz_written p1 = oz_written p" by auto
qed

lemma put_bytes_written: "rec_open w0 c0 b0 d bs xs p \<Longrightarrow>
   oz_written (put_bytes cs p) = oz_written p + length cs"
  by (simp add: put_bytes_def rec_open_def)

lemma put_bytes_cache:
  "mo_attr_cache (pn_w (put_bytes cs p)) = mo_attr_cache (pn_w p)"
  "mo_attr_descs (pn_c (put_bytes cs p)) = mo_attr_descs (pn_c p)"
  by (simp_all add: put_bytes_def split: option.split)

lemma rotate_cache:
  "rotate_fragment_buffer w c = (ok, w', c') \<Longrightarrow> mo_attr_cache w' = mo_attr_cache w"
  by (auto simp: rotate_fragment_buffer_def Let_def start_buffer_def
      split: option.splits prod.splits if_splits)

lemma make_space_cache:
  "make_space p = (ok, p1) \<Longrightarrow> mo_attr_cache (pn_w p1) = mo_attr_cache (pn_w p)"
  using rotate_cache by (fastforce simp: make_space_def split: prod.splits bool.splits if_splits)

text \<open>\<open>copy_fragmented\<close> returns.\<close>

lemma copy_fragmented_spec:
  assumes s: "rec_start w0 c0 b0 d" and o: "rec_open w0 c0 b0 d bs xs p"
  shows "\<exists>ok p'. copy_fragmented cs p = Some (ok, p') \<and> rec_result w0 c0 b0 d (bs @ cs) (ok, p')
    \<and> (ok \<longrightarrow> oz_written p' = oz_written p + length cs)
    \<and> mo_attr_cache (pn_w p') = mo_attr_cache (pn_w p)"
  using o
proof (induction "length cs" arbitrary: cs bs xs p rule: less_induct)
  case less
  show ?case
  proof (cases "cs = []")
    case True
    moreover have "copy_fragmented [] p = Some (True, p)" by (subst copy_fragmented.simps) simp
    ultimately show ?thesis using less.prems by (auto simp: rec_result_def)
  next
    case False
    obtain ok p1 where m: "make_space p = (ok, p1)" by fastforce
    note ms = make_space_spec [OF s less.prems m]
    show ?thesis
    proof (cases ok)
      case okf: False
      with ms(1) have "rec_result w0 c0 b0 d (bs @ cs) (ok, p1)" by (simp add: rec_result_def)
      moreover have "copy_fragmented cs p = Some (ok, p1)"
        using False m okf by (subst copy_fragmented.simps) simp
      ultimately show ?thesis using okf make_space_cache [OF m]
        by (intro exI [of _ False] exI [of _ p1]) simp
    next
      case True
      with ms(1) obtain ys where o1: "rec_open w0 c0 b0 d bs ys p1" by (auto simp: rec_result_def)
      define n where "n = min (length cs) (io_buf_end p1 - io_dst p1)"
      have e1: "io_buf_end p1 = mz_buf_max w0" using o1 by (simp add: rec_open_def)
      with ms(2) [OF True] False have n: "0 < n" "n \<le> length cs" "io_dst p1 + n \<le> mz_buf_max w0"
        by (auto simp: n_def)
      then have "length (drop n cs) < length cs" "io_dst p1 + length (take n cs) \<le> mz_buf_max w0" by auto
      from less.hyps [OF this(1) rec_open_put [OF s o1 this(2)]] obtain ok' p' where
        "copy_fragmented (drop n cs) (put_bytes (take n cs) p1) = Some (ok', p')"
        "rec_result w0 c0 b0 d (bs @ cs) (ok', p')"
        "ok' \<longrightarrow> oz_written p' = oz_written (put_bytes (take n cs) p1) + length (drop n cs)"
        "mo_attr_cache (pn_w p') = mo_attr_cache (pn_w p1)"
        by (auto simp: put_bytes_cache)
      moreover have "copy_fragmented cs p = copy_fragmented (drop n cs) (put_bytes (take n cs) p1)"
        using False m True by (subst copy_fragmented.simps) (simp add: n_def Let_def)
      ultimately show ?thesis
        using ms(3) put_bytes_written [OF o1, of "take n cs"] n make_space_cache [OF m] by auto
    qed
  qed
qed

lemma write_piece_spec:
  assumes s: "rec_start w0 c0 b0 d" and o: "rec_open w0 c0 b0 d bs xs p"
  shows "\<exists>ok p'. write_piece cs p = Some (ok, p') \<and> rec_result w0 c0 b0 d (bs @ cs) (ok, p')
    \<and> (ok \<longrightarrow> oz_written p' = oz_written p + length cs)
    \<and> mo_attr_cache (pn_w p') = mo_attr_cache (pn_w p)"
proof (cases "io_dst p + length cs \<le> io_buf_end p")
  case True
  moreover have "io_buf_end p = mz_buf_max w0" using o by (simp add: rec_open_def)
  ultimately show ?thesis
    using rec_open_put [OF s o] put_bytes_written [OF o]
    by (auto simp: write_piece_def rec_result_def put_bytes_cache)
next
  case False
  then show ?thesis using copy_fragmented_spec [OF s o] by (simp add: write_piece_def)
qed

lemma copy_pieces_spec:
  assumes s: "rec_start w0 c0 b0 d" and o: "rec_open w0 c0 b0 d bs xs p"
  shows "\<exists>ok p'. copy_pieces ps p = Some (ok, p') \<and> rec_result w0 c0 b0 d (bs @ concat ps) (ok, p')
    \<and> mo_attr_cache (pn_w p') = mo_attr_cache (pn_w p)"
  using o
proof (induction ps arbitrary: bs xs p)
  case Nil
  then show ?case by (auto simp: rec_result_def)
next
  case (Cons cs ps)
  from copy_fragmented_spec [OF s Cons.prems, of cs] obtain ok p1 where
    c: "copy_fragmented cs p = Some (ok, p1)" "rec_result w0 c0 b0 d (bs @ cs) (ok, p1)"
      "mo_attr_cache (pn_w p1) = mo_attr_cache (pn_w p)" by blast
  show ?case
  proof (cases ok)
    case True
    with c(2) obtain ys where "rec_open w0 c0 b0 d (bs @ cs) ys p1" by (auto simp: rec_result_def)
    from Cons.IH [OF this] c True show ?thesis by simp
  next
    case False
    with c show ?thesis by (intro exI [of _ False] exI [of _ p1]) (simp add: rec_result_def)
  qed
qed

section \<open>Attributes\<close>

text \<open>The bytes the attributes of a record amount to: the attributes that are known, have room
  and come before the 255 limit, with their count and size.\<close>

fun attrs_spec :: "s_p8_attr_desc list \<Rightarrow> nat \<Rightarrow> s_p8_attr_val list \<Rightarrow> nat \<Rightarrow> nat \<Rightarrow> byte list list" where
  "attrs_spec descs iz_record [] n k = []"
| "attrs_spec descs iz_record (v # vs) n k =
     (if k \<ge> UINT8_MAX then []
      else if sint (av_id v) < 0 \<or> length descs \<le> nat (sint (av_id v)) then attrs_spec descs iz_record vs n k
      else case attr_pieces (descs ! nat (sint (av_id v))) v (attr_room (iz_record + n)) of
        None \<Rightarrow> attrs_spec descs iz_record vs n k
      | Some ps \<Rightarrow> concat ps # attrs_spec descs iz_record vs (n + length (concat ps)) (k + 1))"

text \<open>A writer's cache is an initial part of the registry, which only grows.\<close>

definition cache_ok :: "tls_writer \<Rightarrow> core \<Rightarrow> bool" where
  "cache_ok w c \<longleftrightarrow> (\<exists>n. mo_attr_cache w = take n (mo_attr_descs c))"

lemma sync_attr_cache_take:
  "io_cache = take n (mo_attr_descs c) \<Longrightarrow> sync_attr_cache c io_cache = mo_attr_descs c"
proof -
  assume t: "io_cache = take n (mo_attr_descs c)"
  have "map ((!) xs) [k..<length xs] = drop k xs" for xs :: "s_p8_attr_desc list" and k
    by (intro nth_equalityI) auto
  with t show ?thesis by (auto simp: sync_attr_cache_def Let_def min_def)
qed

lemma attr_lookup_spec:
  assumes "cache_ok w c"
  shows "fst (attr_lookup i w c) = (if sint i < 0 \<or> length (mo_attr_descs c) \<le> nat (sint i) then None
      else Some (mo_attr_descs c ! nat (sint i)))"
    and "cache_ok (snd (attr_lookup i w c)) c"
    and "\<exists>ds. snd (attr_lookup i w c) = w\<lparr>mo_attr_cache := ds\<rparr>"
proof -
  from assms obtain n where t: "mo_attr_cache w = take n (mo_attr_descs c)" by (auto simp: cache_ok_def)
  note y = sync_attr_cache_take [OF t]
  show "fst (attr_lookup i w c) = (if sint i < 0 \<or> length (mo_attr_descs c) \<le> nat (sint i) then None
      else Some (mo_attr_descs c ! nat (sint i)))"
    using t y by (auto simp: attr_lookup_def Let_def)
  show "cache_ok (snd (attr_lookup i w c)) c"
    using assms y by (auto simp: attr_lookup_def Let_def cache_ok_def intro: exI [of _ "length (mo_attr_descs c)"])
  have "snd (attr_lookup i w c) = w \<or>
      snd (attr_lookup i w c) = w\<lparr>mo_attr_cache := sync_attr_cache c (mo_attr_cache w)\<rparr>"
    by (simp add: attr_lookup_def Let_def)
  moreover have "w = w\<lparr>mo_attr_cache := mo_attr_cache w\<rparr>" by simp
  ultimately show "\<exists>ds. snd (attr_lookup i w c) = w\<lparr>mo_attr_cache := ds\<rparr>" by metis
qed

lemma rec_open_cache:
  "rec_open w0 c0 b0 d bs xs p \<Longrightarrow> rec_open w0 c0 b0 d bs xs (p\<lparr>pn_w := (pn_w p)\<lparr>mo_attr_cache := ds\<rparr>\<rparr>)"
  by (simp add: rec_open_def rec_frame_def writer_static_def del: One_nat_def)

lemma cache_ok_frame:
  assumes "cache_ok w c" and "mo_attr_cache w' = mo_attr_cache w" and "mo_attr_descs c' = mo_attr_descs c"
  shows "cache_ok w' c'"
  using assms by (simp add: cache_ok_def)

lemma rec_result_descs:
  assumes "rec_result w0 c0 b0 d bs (ok, p)"
  shows "mo_attr_descs (pn_c p) = mo_attr_descs c0"
  using assms
  by (auto simp: rec_result_def rec_open_def rec_stuck_def rec_frame_def dest: core_static_fields(1) split: if_splits)

text \<open>\<open>serialize_attrs\<close> returns; it writes what \<open>attrs_spec\<close> says, however the buffers fall.\<close>

lemma serialize_attrs_loop_spec:
  assumes s: "rec_start w0 c0 b0 d"
  shows "rec_open w0 c0 b0 d bs xs p \<Longrightarrow> cache_ok (pn_w p) (pn_c p) \<Longrightarrow> mb_done r \<Longrightarrow>
    \<exists>r' p'. serialize_attrs_loop iz_record vs r p = Some (r', p')
     \<and> (let ps = attrs_spec (mo_attr_descs c0) iz_record vs (mz_bytes r) (mu_count r) in
        rec_result w0 c0 b0 d (bs @ concat ps) (mb_done r', p') \<and> cache_ok (pn_w p') (pn_c p')
        \<and> (mb_done r' \<longrightarrow> mz_bytes r' = mz_bytes r + length (concat ps)
             \<and> mu_count r' = mu_count r + length ps))"
proof (induction vs arbitrary: bs xs p r)
  case Nil
  then show ?case by (auto simp: rec_result_def)
next
  case (Cons v vs)
  let ?i = "av_id v" and ?D = "mo_attr_descs c0"
  have D: "mo_attr_descs (pn_c p) = ?D"
    by (rule core_static_fields(1)) (use Cons.prems(1) in \<open>simp add: rec_open_def rec_frame_def\<close>)
  obtain r0 w where l: "attr_lookup ?i (pn_w p) (pn_c p) = (r0, w)" by fastforce
  from attr_lookup_spec [OF Cons.prems(2), of ?i] l D obtain ds where
    r0: "r0 = (if sint ?i < 0 \<or> length ?D \<le> nat (sint ?i) then None else Some (?D ! nat (sint ?i)))"
    and w: "w = (pn_w p)\<lparr>mo_attr_cache := ds\<rparr>" and cw: "cache_ok w (pn_c p)"
    by auto
  let ?p = "p\<lparr>pn_w := w\<rparr>"
  have o: "rec_open w0 c0 b0 d bs xs ?p" using rec_open_cache [OF Cons.prems(1)] by (simp add: w)
  have co: "cache_ok (pn_w ?p) (pn_c ?p)" using cw by simp
  show ?case
  proof (cases "mu_count r \<ge> 255")
    case True
    with Cons.prems show ?thesis by (auto simp: rec_result_def)
  next
    case nf: False
    show ?thesis
    proof (cases r0)
      case None
      then have "sint ?i < 0 \<or> length ?D \<le> nat (sint ?i)" using r0 by (auto split: if_splits)
      with Cons.IH [OF o co Cons.prems(3)] nf l None show ?thesis by simp
    next
      case (Some a)
      then have a: "\<not> (sint ?i < 0 \<or> length ?D \<le> nat (sint ?i))" "a = ?D ! nat (sint ?i)"
        using r0 by (auto split: if_splits)
      show ?thesis
      proof (cases "attr_pieces a v (attr_room (iz_record + mz_bytes r))")
        case None
        with Cons.IH [OF o co Cons.prems(3)] nf l Some a show ?thesis by simp
      next
        case (Some ps)
        let ?n = "length (concat ps)"
        let ?wr = "if ?n \<le> io_buf_end p - io_dst p then Some (True, put_bytes (concat ps) ?p) else copy_pieces ps ?p"
        have "\<exists>ok p1. ?wr = Some (ok, p1) \<and> rec_result w0 c0 b0 d (bs @ concat ps) (ok, p1)
          \<and> mo_attr_cache (pn_w p1) = mo_attr_cache w"
        proof (cases "?n \<le> io_buf_end p - io_dst p")
          case True
          have "io_buf_end p = mz_buf_max w0" "io_dst p \<le> mz_buf_max w0"
            using Cons.prems(1) by (auto simp: rec_open_def)
          with True have "io_dst ?p + length (concat ps) \<le> mz_buf_max w0" by simp
          from rec_open_put [OF s o this] True show ?thesis
            by (auto simp: rec_result_def put_bytes_cache)
        next
          case False
          with copy_pieces_spec [OF s o, of ps] show ?thesis by simp
        qed
        then obtain ok p1 where wr: "?wr = Some (ok, p1)"
          and rr: "rec_result w0 c0 b0 d (bs @ concat ps) (ok, p1)"
          and ca: "mo_attr_cache (pn_w p1) = mo_attr_cache w" by blast
        have step: "serialize_attrs_loop iz_record (v # vs) r p =
            (if \<not> ok then Some (r\<lparr>mb_done := False\<rparr>, p1)
             else serialize_attrs_loop iz_record vs
               (r\<lparr>mz_bytes := mz_bytes r + ?n, mu_count := mu_count r + 1\<rparr>) p1)"
          using nf l \<open>r0 = Some a\<close> Some wr by (simp add: Let_def split del: if_split)
        have spec: "attrs_spec ?D iz_record (v # vs) (mz_bytes r) (mu_count r)
            = concat ps # attrs_spec ?D iz_record vs (mz_bytes r + ?n) (mu_count r + 1)"
          using nf a Some by simp
        have c1: "cache_ok (pn_w p1) (pn_c p1)"
          using cache_ok_frame [OF cw ca] rec_result_descs [OF rr] D by simp
        show ?thesis
        proof (cases ok)
          case False
          with rr step c1 show ?thesis by (simp add: rec_result_def)
        next
          case True
          with rr obtain ys where o1: "rec_open w0 c0 b0 d (bs @ concat ps) ys p1"
            by (auto simp: rec_result_def)
          from Cons.IH [OF o1 c1, of "r\<lparr>mz_bytes := mz_bytes r + ?n, mu_count := mu_count r + 1\<rparr>"]
          obtain r' p' where
            "serialize_attrs_loop iz_record vs (r\<lparr>mz_bytes := mz_bytes r + ?n, mu_count := mu_count r + 1\<rparr>) p1 = Some (r', p')"
            "let qs = attrs_spec ?D iz_record vs (mz_bytes r + ?n) (mu_count r + 1) in
              rec_result w0 c0 b0 d ((bs @ concat ps) @ concat qs) (mb_done r', p') \<and> cache_ok (pn_w p') (pn_c p')
              \<and> (mb_done r' \<longrightarrow> mz_bytes r' = mz_bytes r + ?n + length (concat qs)
                 \<and> mu_count r' = mu_count r + 1 + length qs)"
            using Cons.prems(3) by auto
          with step spec True show ?thesis by (auto simp: Let_def)
        qed
      qed
    qed
  qed
qed

text \<open>Attributes stay within the record limit and the 8-bit count.\<close>

lemma attr_pieces_size:
  assumes "attr_pieces a v room = Some ps"
  shows "length (concat ps) \<le> room"
  using assms cut_le [of "case av_str v of None \<Rightarrow> [] | Some s \<Rightarrow> s" "room - 6"]
  by (auto simp: attr_pieces_def Let_def split: if_splits)

lemma attrs_spec_bounds:
  "iz_record + n \<le> P8_MAX_RECORD_SIZE \<Longrightarrow> k \<le> UINT8_MAX \<Longrightarrow>
   iz_record + n + length (concat (attrs_spec descs iz_record vs n k)) \<le> P8_MAX_RECORD_SIZE
   \<and> k + length (attrs_spec descs iz_record vs n k) \<le> UINT8_MAX"
proof (induction vs arbitrary: n k)
  case Nil
  then show ?case by simp
next
  case (Cons v vs)
  show ?case
  proof (cases "attr_pieces (descs ! nat (sint (av_id v))) v (attr_room (iz_record + n))")
    case None
    with Cons.IH [OF Cons.prems] Cons.prems show ?thesis by simp
  next
    case (Some ps)
    have "length (concat ps) \<le> 65528 - (iz_record + n)"
      using attr_pieces_size [OF Some] Cons.prems(1) by (simp add: attr_room_def split: if_splits)
    then have "iz_record + (n + length (concat ps)) \<le> 65528" using Cons.prems by linarith
    from Cons.IH [OF this, of "Suc k"] Cons.IH [OF Cons.prems] Cons.prems Some show ?thesis
      by (auto simp: add.assoc)
  qed
qed

end
