(* ===== verification/P8_Stream.thy ===== *)
theory P8_Stream
  imports P8_Record
begin

text \<open>
  The stream of a writer: the payloads of the buffers it holds, in the order the worker will
  take them. \<open>wr_inv\<close> is the invariant every operation on a writer keeps between two records.
  A record that completes is appended to the stream (\<open>commit_record\<close>), however many buffers it
  took; a record that finds no buffer leaves the stream, the sequence numbers and the buffers
  as they were (\<open>discard_record_spec\<close>). Log and trace writers share both.
\<close>

section \<open>Streams and the invariant\<close>

definition bufs :: "tls_writer \<Rightarrow> addr list" where
  "bufs w = mo_fragments w @ (case mp_buffer w of None \<Rightarrow> [] | Some b \<Rightarrow> [b])"

definition buf_size :: "mem \<Rightarrow> addr \<Rightarrow> nat" where
  "buf_size m a = unat (of_le16 (rd m a 2 2))"

definition payload :: "mem \<Rightarrow> addr \<Rightarrow> byte list" where
  "payload m a = rd m a sizeof_data_buf_hdr (buf_size m a - sizeof_data_buf_hdr)"

definition stream_of :: "tls_writer \<Rightarrow> mem \<Rightarrow> byte list" where
  "stream_of w m = concat (map (payload m) (bufs w))"

text \<open>Type, owner and number in a buffer's header.\<close>

definition hdr_ids :: "byte \<Rightarrow> tls_writer \<Rightarrow> u32 \<Rightarrow> mem \<Rightarrow> addr \<Rightarrow> bool" where
  "hdr_ids ty w s m a \<longleftrightarrow> m a 0 = ty
     \<and> rd m a 4 12 = le32 (mu_thread_id w) @ le32 (mu_writer_id w) @ le32 s"

text \<open>
  The buffers of a writer are its own and distinct, carry consecutive numbers up to the next
  one, and record their size; the current buffer is no fragment, its size is the write offset,
  a multiple of 8.
\<close>

definition wr_inv :: "byte \<Rightarrow> tls_writer \<Rightarrow> core \<Rightarrow> bool" where
  "wr_inv ty w c \<longleftrightarrow> core_ok c \<and> mz_buf_max w = mz_data_buffer_size \<and> distinct (bufs w)
     \<and> set (bufs w) \<subseteq> owned (mp_data_pool c) \<and> cache_ok w c
     \<and> (\<forall>k < length (bufs w). hdr_ids ty w (mu_buf_seq w - word_of_nat (length (bufs w) - k))
          (co_mem c) (bufs w ! k))
     \<and> (\<forall>a \<in> set (bufs w). sizeof_data_buf_hdr \<le> buf_size (co_mem c) a
          \<and> buf_size (co_mem c) a \<le> mz_data_buffer_size)
     \<and> (\<forall>b. mp_buffer w = Some b \<longrightarrow> buf_size (co_mem c) b = mz_buf_used w
          \<and> 8 dvd mz_buf_used w \<and> co_mem c b 1 = 0)"

lemma bufs_Some: "mp_buffer w = Some b \<Longrightarrow> bufs w = mo_fragments w @ [b]"
  and bufs_None: "mp_buffer w = None \<Longrightarrow> bufs w = mo_fragments w"
  by (simp_all add: bufs_def)

lemma wr_inv_bytes:
  assumes "\<And>a. a \<in> set (bufs w) \<Longrightarrow> m' a = m a"
  shows "stream_of w m' = stream_of w m" and "a \<in> set (bufs w) \<Longrightarrow> buf_size m' a = buf_size m a"
    and "a \<in> set (bufs w) \<Longrightarrow> hdr_ids ty w s m' a = hdr_ids ty w s m a"
  using assms by (auto simp: stream_of_def payload_def buf_size_def hdr_ids_def rd_def
      intro!: arg_cong [of _ _ concat])

lemma wr_inv_start:
  assumes "wr_inv ty w c" and "mp_buffer w = Some b"
  shows "rec_start w c b (mz_buf_used w)"
  using assms by (auto simp: wr_inv_def rec_start_def bufs_def)

section \<open>Bytes of the buffers of a record\<close>

lemma buf_size_closed: "closed_buf m M a \<Longrightarrow> M \<le> UINT16_MAX \<Longrightarrow> buf_size m a = M"
  by (simp add: closed_buf_def buf_size_def unat_of_nat)

lemma payloads_span:
  "(\<forall>a \<in> set (butlast (b # xs)). buf_size m a = M) \<Longrightarrow> buf_size m (last (b # xs)) = e \<Longrightarrow>
   concat (map (payload m) (b # xs)) = span_bytes m M sizeof_data_buf_hdr (b # xs) e"
proof (induction xs arbitrary: b)
  case Nil
  then show ?case by (simp add: payload_def)
next
  case (Cons x xs)
  then show ?case by (cases xs) (auto simp: payload_def)
qed

lemma length_span:
  assumes "8 dvd s" and "8 dvd M" and "bs \<noteq> []" and "length bs = 1 \<Longrightarrow> s \<le> e"
    and "s \<le> M" and "sizeof_data_buf_hdr \<le> e" and "sizeof_data_buf_hdr \<le> M"
  shows "length (span_bytes m M s bs e) mod 8 = e mod 8"
  using assms
proof (induction m M s bs e rule: span_bytes.induct)
  case (1 m M s e)
  then show ?case by simp
next
  case (2 m M s b e)
  then have "8 dvd s" "s \<le> e" by simp_all
  from this(1) obtain k where "s = 8 * k" ..
  moreover from \<open>s \<le> e\<close> obtain t where "e = s + t" by (auto dest: le_Suc_ex)
  ultimately show ?case by simp
next
  case (3 m M s b1 b2 bs e)
  have "length (span_bytes m M 16 (b2 # bs) e) mod 8 = e mod 8"
    using 3(3,7,8) by (intro 3(1)) simp_all
  moreover have "8 dvd M - s" using 3(2,3) by (rule dvd_diff_nat [rotated])
  ultimately show ?case by (auto elim!: dvdE)
qed

section \<open>Committing a record\<close>

text \<open>The record's last statements: the offset and the size in the last buffer's header.\<close>

definition set_buf_size :: "addr \<Rightarrow> nat \<Rightarrow> core \<Rightarrow> core" where
  "set_buf_size b n c = c\<lparr>co_mem := wr (co_mem c) b 2 (le16 (word_of_nat n))\<rparr>"

lemma set_buf_size_simps [simp]:
  "mp_data_pool (set_buf_size b n c) = mp_data_pool c" "core_ok (set_buf_size b n c) = core_ok c"
  "core_static (set_buf_size b n c) = core_static c" "mo_attr_descs (set_buf_size b n c) = mo_attr_descs c"
  by (simp_all add: set_buf_size_def core_ok_def)

lemma set_buf_size_bytes:
  "a \<noteq> b \<Longrightarrow> co_mem (set_buf_size b n c) a = co_mem c a"
  "i \<notin> {2, 3} \<Longrightarrow> co_mem (set_buf_size b n c) a i = co_mem c a i"
  "n \<le> UINT16_MAX \<Longrightarrow> buf_size (co_mem (set_buf_size b n c)) b = n"
proof -
  show "a \<noteq> b \<Longrightarrow> co_mem (set_buf_size b n c) a = co_mem c a" by (simp add: set_buf_size_def)
  show "i \<notin> {2, 3} \<Longrightarrow> co_mem (set_buf_size b n c) a i = co_mem c a i"
    by (auto simp: set_buf_size_def wr_def)
  show "n \<le> UINT16_MAX \<Longrightarrow> buf_size (co_mem (set_buf_size b n c)) b = n"
    by (simp add: set_buf_size_def buf_size_def unat_of_nat)
qed

text \<open>Headers of the buffers taken for the record.\<close>

lemma rec_frame_ids:
  assumes inv: "wr_inv ty w0 c0" and b: "mp_buffer w0 = Some b0" and f: "rec_frame w0 c0 b0 d xs w c"
    and st: "rec_start w0 c0 b0 d" and k: "k < length (bufs w0 @ xs)"
  shows "hdr_ids ty w (mu_buf_seq w - word_of_nat (length (bufs w0 @ xs) - k)) (co_mem c) ((bufs w0 @ xs) ! k)"
proof -
  let ?n = "length (bufs w0)"
  have ws: "mu_thread_id w = mu_thread_id w0" "mu_writer_id w = mu_writer_id w0"
    and sq: "mu_buf_seq w = mu_buf_seq w0 + word_of_nat (length xs)"
    using f by (auto simp: rec_frame_def writer_static_def)
  have b0: "bufs w0 = mo_fragments w0 @ [b0]" using b by (simp add: bufs_def)
  have ty0: "co_mem c0 b0 0 = ty"
  proof -
    have "length (mo_fragments w0) < ?n" by (simp add: b0)
    with inv show ?thesis by (force simp: wr_inv_def hdr_ids_def b0 nth_append)
  qed
  show ?thesis
  proof (cases "k < ?n")
    case True
    define a where "a = bufs w0 ! k"
    have a: "a \<in> set (bufs w0)" using True by (simp add: a_def)
    have "hdr_ids ty w0 (mu_buf_seq w0 - word_of_nat (?n - k)) (co_mem c0) a"
      using inv True by (auto simp: wr_inv_def a_def)
    moreover have "a \<notin> set xs" using a f inv by (auto simp: rec_frame_def wr_inv_def)
    then have "co_mem c a i = co_mem c0 a i" if "i < d" "i \<notin> {1, 2, 3}" for i
      using f that by (cases "a = b0") (auto simp: rec_frame_def)
    moreover have "16 \<le> d" using st by (simp add: rec_start_def)
    ultimately have h: "hdr_ids ty w (mu_buf_seq w0 - word_of_nat (?n - k)) (co_mem c) a"
      using rd_cong [of 4 12 "co_mem c" a "co_mem c0"] by (simp add: hdr_ids_def ws)
    have e: "mu_buf_seq w - word_of_nat (length (bufs w0 @ xs) - k) = mu_buf_seq w0 - word_of_nat (?n - k)"
    proof -
      have "length (bufs w0 @ xs) - k = (?n - k) + length xs" using True by simp
      then show ?thesis by (simp only: sq of_nat_add) simp
    qed
    show ?thesis unfolding e using h True by (simp add: nth_append a_def)
  next
    case False
    define j where "j = k - ?n"
    have j: "j < length xs" "length (bufs w0 @ xs) - k = length xs - j" using k False by (auto simp: j_def)
    have "extra_hdr w0 c0 b0 c j (xs ! j)" using f j by (simp add: rec_frame_def)
    moreover have "mu_buf_seq w - word_of_nat (length xs - j) = mu_buf_seq w0 + word_of_nat j"
      using j(1) by (simp add: sq of_nat_diff)
    ultimately have "hdr_ids ty w (mu_buf_seq w - word_of_nat (length xs - j)) (co_mem c) (xs ! j)"
      by (simp add: hdr_ids_def extra_hdr_def ws ty0)
    then show ?thesis using False j by (simp add: nth_append j_def)
  qed
qed

text \<open>What the buffers of a record in progress hold, and their addresses.\<close>

lemma rec_frame_bytes:
  assumes inv: "wr_inv ty w0 c0" and b: "mp_buffer w0 = Some b0" and f: "rec_frame w0 c0 b0 d xs w c"
  shows "distinct (bufs w0 @ xs)" and "set (bufs w0 @ xs) \<subseteq> owned (mp_data_pool c)"
    and "\<And>a. a \<in> set (mo_fragments w0) \<Longrightarrow> co_mem c a = co_mem c0 a"
    and "b0 \<notin> set (mo_fragments w0)" and "b0 \<notin> set xs"
proof -
  have b0: "bufs w0 = mo_fragments w0 @ [b0]" using b by (simp add: bufs_def)
  show d: "distinct (bufs w0 @ xs)" using inv f by (auto simp: wr_inv_def rec_frame_def)
  show "set (bufs w0 @ xs) \<subseteq> owned (mp_data_pool c)" using inv f by (auto simp: wr_inv_def rec_frame_def)
  show "b0 \<notin> set (mo_fragments w0)" "b0 \<notin> set xs" using d by (auto simp: b0)
  fix a
  assume "a \<in> set (mo_fragments w0)"
  then have "a \<notin> set xs" "a \<noteq> b0" using d by (auto simp: b0)
  then show "co_mem c a = co_mem c0 a" using f by (simp add: rec_frame_def)
qed

definition end_record :: "pen \<Rightarrow> tls_writer \<times> core" where
  "end_record p = (let w = (pn_w p)\<lparr>mz_buf_used := io_dst p\<rparr> in
     case mp_buffer w of None \<Rightarrow> (w, pn_c p) | Some b \<Rightarrow> (w, set_buf_size b (io_dst p) (pn_c p)))"

lemma commit_record:
  assumes inv: "wr_inv ty w0 c0" and b: "mp_buffer w0 = Some b0"
    and o: "rec_open w0 c0 b0 (mz_buf_used w0) bs xs p" and al: "8 dvd length bs"
    and ca: "cache_ok (pn_w p) (pn_c p)" and e: "end_record p = (w, c)"
  shows "wr_inv ty w c" and "bufs w = bufs w0 @ xs"
    and "stream_of w (co_mem c) = stream_of w0 (co_mem c0) @ bs" and "mp_buffer w \<noteq> None"
    and "core_static c = core_static c0" and "writer_static w = writer_static w0"
    and "mz_buf_used w = io_dst p"
proof -
  define l where "l = last (b0 # xs)"
  define d where "d = mz_buf_used w0"
  define n where "n = io_dst p"
  let ?mi = "co_mem c0" and ?mp = "co_mem (pn_c p)" and ?m = "co_mem c"
  note st = wr_inv_start [OF inv b]
  have f: "rec_frame w0 c0 b0 d xs (pn_w p) (pn_c p)" and lb: "mp_buffer (pn_w p) = Some l"
    and fg: "mo_fragments (pn_w p) = mo_fragments w0 @ butlast (b0 # xs)"
    and n: "16 \<le> n" "n \<le> 8192" "xs = [] \<Longrightarrow> d \<le> n"
    and cl: "\<forall>a \<in> set (butlast (b0 # xs)). closed_buf ?mp 8192 a"
    and sp: "span_bytes ?mp 8192 d (b0 # xs) n = bs"
    using o st by (auto simp: rec_open_def l_def n_def d_def rec_start_def)
  have w: "w = (pn_w p)\<lparr>mz_buf_used := n\<rparr>" and c: "c = set_buf_size l n (pn_c p)"
    using e lb by (auto simp: end_record_def n_def)
  note fb = rec_frame_bytes [OF inv b f]
  have eq: "butlast (b0 # xs) @ [l] = b0 # xs" unfolding l_def by (rule append_butlast_last_id) simp
  have b0: "bufs w0 = mo_fragments w0 @ [b0]" using b by (simp add: bufs_def)
  show bu: "bufs w = bufs w0 @ xs"
  proof -
    have "bufs w = mo_fragments w0 @ (butlast (b0 # xs) @ [l])"
      using lb fg by (simp add: w bufs_def)
    then show ?thesis unfolding eq by (simp add: b0)
  qed
  have same: "?m a i = ?mp a i" if "i \<notin> {2, 3}" for a i
    using set_buf_size_bytes(2) [OF that] by (simp add: c)
  have other: "?m a = ?mp a" if "a \<noteq> l" for a
    using set_buf_size_bytes(1) [OF that] by (simp add: c)
  have ids: "hdr_ids ty w s ?m a = hdr_ids ty (pn_w p) s ?mp a" for s a
    using same rd_cong [of 4 12 ?m a ?mp] by (simp add: hdr_ids_def w)
  have dl: "l \<notin> set (butlast (b0 # xs))"
    unfolding l_def by (rule last_notin_butlast) (use fb(1,5) b0 in auto)
  have ln: "buf_size ?m l = n" using set_buf_size_bytes(3) [of n l] n by (simp add: c)
  have sz: "buf_size ?m a = 8192" if "a \<in> set (butlast (b0 # xs))" for a
  proof -
    from that dl have "a \<noteq> l" by auto
    then have "?m a = ?mp a" by (rule other)
    with cl that closed_cong [of ?m a ?mp] have "closed_buf ?m 8192 a" by blast
    then show ?thesis using buf_size_closed by simp
  qed
  have frag: "?m a = ?mi a" if "a \<in> set (mo_fragments w0)" for a
  proof -
    have "l \<in> set (b0 # xs)" unfolding l_def by (rule last_in_set) simp
    with that fb(1) have "a \<noteq> l" by (auto simp: b0)
    then show ?thesis using other fb(3) [OF that] by simp
  qed
  have al0: "8 dvd d" and us0: "buf_size ?mi b0 = d" and fl0: "?mi b0 1 = 0"
    using inv b by (auto simp: wr_inv_def d_def)
  have d16: "16 \<le> d" "d \<le> 8192" using st by (auto simp: rec_start_def d_def)
  have aln: "8 dvd n"
  proof -
    have "length (span_bytes ?mp 8192 d (b0 # xs) n) mod 8 = n mod 8"
      using al0 d16 n by (intro length_span) auto
    then show ?thesis using al unfolding sp by (simp add: dvd_eq_mod_eq_0)
  qed
  have fl: "?m l 1 = 0"
  proof -
    have "?mp l 1 = 0"
      using o fl0 by (cases "xs = []") (auto simp: rec_open_def l_def simp del: One_nat_def)
    then show ?thesis using same [of 1 l] by simp
  qed
  have sizes: "16 \<le> buf_size ?m a \<and> buf_size ?m a \<le> 8192" if "a \<in> set (bufs w)" for a
  proof -
    from that bu b0 eq have "a \<in> set (mo_fragments w0) \<or> a \<in> set (butlast (b0 # xs)) \<or> a = l"
      by (metis Un_iff append.assoc append_Cons append_Nil in_set_conv_decomp_last set_append set_ConsD
          list.set_intros(1) empty_iff empty_set)
    then show ?thesis
    proof (elim disjE)
      assume a: "a \<in> set (mo_fragments w0)"
      then have "buf_size ?m a = buf_size ?mi a" using frag by (simp add: buf_size_def rd_def)
      with a inv b0 show ?thesis by (auto simp: wr_inv_def)
    qed (use sz ln n in auto)
  qed
  show "wr_inv ty w c"
    unfolding wr_inv_def
  proof (intro conjI)
    show "core_ok c" using f by (simp add: c rec_frame_def)
    show "mz_buf_max w = 8192" using f inv by (simp add: w rec_frame_def writer_static_def wr_inv_def)
    show "distinct (bufs w)" unfolding bu by (rule fb(1))
    show "set (bufs w) \<subseteq> owned (mp_data_pool c)" unfolding bu using fb(2) by (simp add: c)
    show "cache_ok w c" using ca by (simp add: cache_ok_def w c)
    show "\<forall>k < length (bufs w). hdr_ids ty w (mu_buf_seq w - word_of_nat (length (bufs w) - k)) ?m (bufs w ! k)"
      unfolding bu ids using rec_frame_ids [OF inv b f st [folded d_def]] by (simp add: w)
    show "\<forall>a \<in> set (bufs w). 16 \<le> buf_size ?m a \<and> buf_size ?m a \<le> 8192" using sizes by blast
    show "\<forall>b. mp_buffer w = Some b \<longrightarrow> buf_size ?m b = mz_buf_used w \<and> 8 dvd mz_buf_used w \<and> ?m b 1 = 0"
      using lb ln aln fl by (auto simp: w)
  qed
  show "stream_of w ?m = stream_of w0 ?mi @ bs"
  proof -
    have p1: "concat (map (payload ?m) (mo_fragments w0)) = concat (map (payload ?mi) (mo_fragments w0))"
      using frag by (auto intro!: arg_cong [of _ _ concat] simp: payload_def buf_size_def rd_def)
    have "concat (map (payload ?m) (b0 # xs)) = span_bytes ?m 8192 16 (b0 # xs) n"
      using sz ln unfolding l_def by (intro payloads_span) blast+
    also have "\<dots> = rd ?m b0 16 (d - 16) @ span_bytes ?m 8192 d (b0 # xs) n"
      using n(3) d16 by (intro span_split) auto
    also have "span_bytes ?m 8192 d (b0 # xs) n = bs"
      unfolding sp [symmetric] using fb(1) d16 by (intro span_cong same) (auto simp: b0)
    also have "rd ?m b0 16 (d - 16) = rd ?mi b0 16 (d - 16)"
      using f by (intro rd_cong) (auto simp: same rec_frame_def)
    finally have "concat (map (payload ?m) (b0 # xs)) = rd ?mi b0 16 (d - 16) @ bs" .
    moreover have "payload ?mi b0 = rd ?mi b0 16 (d - 16)" by (simp add: payload_def us0)
    ultimately have p2: "concat (map (payload ?m) (b0 # xs)) = payload ?mi b0 @ bs" by simp
    show ?thesis
      unfolding stream_of_def bu b0 using p1 p2 by (simp add: b0)
  qed
  show "mp_buffer w \<noteq> None" "core_static c = core_static c0" "writer_static w = writer_static w0"
    "mz_buf_used w = io_dst p"
    using lb f by (auto simp: w c rec_frame_def writer_static_def n_def)
qed

section \<open>Changing a record's header\<close>

text \<open>The header of a record stays in its first buffer; fields assigned after the rest was
  written replace its first bytes.\<close>

lemma rd_wr_prefix:
  "length ps \<le> n \<Longrightarrow> rd (wr m b off ps) b off n = ps @ drop (length ps) (rd m b off n)"
proof -
  assume "length ps \<le> n"
  then have n: "n = length ps + (n - length ps)" by simp
  have "rd (wr m b off ps) b off n = ps @ rd m b (off + length ps) (n - length ps)"
    by (subst n, subst rd_add) (simp add: rd_wr_disjoint)
  moreover have "drop (length ps) (rd m b off n) = rd m b (off + length ps) (n - length ps)"
    by (subst n, subst rd_add) simp
  ultimately show ?thesis by simp
qed

lemma span_patch:
  assumes "distinct (b # xs)" and "length ps \<le> (if xs = [] then e - s else M - s)"
  shows "span_bytes (wr m b s ps) M s (b # xs) e = ps @ drop (length ps) (span_bytes m M s (b # xs) e)"
proof (cases xs)
  case Nil
  then show ?thesis using assms rd_wr_prefix [of ps "e - s" m b s] by simp
next
  case (Cons x ys)
  have "span_bytes (wr m b s ps) M 16 (x # ys) e = span_bytes m M 16 (x # ys) e"
    using assms(1) Cons by (intro span_cong fun_cong [OF wr_other]) auto
  then show ?thesis using assms rd_wr_prefix [of ps "M - s" m b s] Cons by simp
qed

definition patch :: "addr \<Rightarrow> nat \<Rightarrow> byte list \<Rightarrow> core \<Rightarrow> core" where
  "patch b off ps c = c\<lparr>co_mem := wr (co_mem c) b off ps\<rparr>"

lemma patch_simps [simp]:
  "mp_data_pool (patch b i ps c) = mp_data_pool c" "core_ok (patch b i ps c) = core_ok c"
  "core_static (patch b i ps c) = core_static c" "mo_attr_descs (patch b i ps c) = mo_attr_descs c"
  by (simp_all add: patch_def core_ok_def)

lemma rec_open_patch:
  assumes s: "rec_start w0 c0 b0 d" and o: "rec_open w0 c0 b0 d bs xs p"
    and fits: "length ps \<le> (if xs = [] then io_dst p - d else mz_buf_max w0 - d)"
  shows "rec_open w0 c0 b0 d (ps @ drop (length ps) bs) xs (p\<lparr>pn_c := patch b0 d ps (pn_c p)\<rparr>)"
proof -
  define m where "m = wr (co_mem (pn_c p)) b0 d ps"
  note dist = mp_buffer_fresh(1) [OF s o]
  have d16: "16 \<le> d" using s by (simp add: rec_start_def)
  have low: "m a i = co_mem (pn_c p) a i" if "a = b0 \<Longrightarrow> i < d" for a i
    using that by (cases "a = b0") (auto simp: wr_frame m_def)
  have lo: "m a i = co_mem (pn_c p) a i" if "i < 16" for a i using that d16 by (intro low) simp
  have rl: "rd m a i n = rd (co_mem (pn_c p)) a i n" if "i + n \<le> 16" for a i n
    using that by (intro rd_cong lo) simp
  have sp: "span_bytes m (mz_buf_max w0) d (b0 # xs) (io_dst p) = ps @ drop (length ps) bs"
    unfolding m_def using o fits dist by (subst span_patch) (auto simp: rec_open_def)
  define q where "q = (pn_c p)\<lparr>co_mem := m\<rparr>"
  have q: "patch b0 d ps (pn_c p) = q" by (simp add: patch_def q_def m_def)
  have qm: "co_mem q = m" "mp_data_pool q = mp_data_pool (pn_c p)" "core_static q = core_static (pn_c p)"
    "core_ok q = core_ok (pn_c p)"
    by (simp_all add: q_def core_ok_def)
  have ex: "extra_hdr w0 c0 b0 q k a \<longleftrightarrow> extra_hdr w0 c0 b0 (pn_c p) k a" for k a
    by (simp add: extra_hdr_def qm lo rl)
  have om: "m a = co_mem (pn_c p) a" if "a \<noteq> b0" for a using that by (simp add: m_def)
  have fr: "rec_frame w0 c0 b0 d xs (pn_w p) q"
    using o by (simp add: rec_open_def rec_frame_def ex qm low om)
  have "\<forall>a \<in> set (butlast (b0 # xs)). closed_buf m (mz_buf_max w0) a"
    using o by (simp add: rec_open_def closed_buf_def lo rl del: butlast.simps)
  with o fr sp show ?thesis
    unfolding rec_open_def q by (auto simp: qm lo simp del: last.simps butlast.simps span_bytes.simps)
qed

section \<open>Discarding a record\<close>

lemma release_extra_spec:
  assumes "core_ok c" and "mo_fragments w = fs @ xs" and "distinct xs"
    and "set xs \<subseteq> owned (mp_data_pool c)"
  shows "case release_extra (length xs) w c of (w', c') \<Rightarrow>
     w' = w\<lparr>mo_fragments := fs, mu_buf_seq := mu_buf_seq w - word_of_nat (length xs)\<rparr>
     \<and> core_ok c' \<and> co_mem c' = co_mem c \<and> core_static c' = core_static c
     \<and> mp_data_pool c' = fold (\<lambda>b. recycle (Some b)) (rev xs) (mp_data_pool c)
     \<and> owned (mp_data_pool c) - set xs \<subseteq> owned (mp_data_pool c')"
  using assms
proof (induction xs arbitrary: w c rule: rev_induct)
  case Nil
  then show ?case by simp
next
  case (snoc x xs)
  let ?w = "w\<lparr>mo_fragments := butlast (mo_fragments w), mu_buf_seq := mu_buf_seq w - 1\<rparr>"
    and ?c = "release_buffer (Some x) c"
  have x: "x \<in> owned (mp_data_pool c)" using snoc.prems by simp
  note r = release_buffer_ok [OF snoc.prems(1) x]
  have "set xs \<subseteq> owned (mp_data_pool ?c)" using snoc.prems r(2) by auto
  then have "case release_extra (length xs) ?w ?c of (w', c') \<Rightarrow>
     w' = ?w\<lparr>mo_fragments := fs, mu_buf_seq := mu_buf_seq ?w - word_of_nat (length xs)\<rparr>
     \<and> core_ok c' \<and> co_mem c' = co_mem ?c \<and> core_static c' = core_static ?c
     \<and> mp_data_pool c' = fold (\<lambda>b. recycle (Some b)) (rev xs) (mp_data_pool ?c)
     \<and> owned (mp_data_pool ?c) - set xs \<subseteq> owned (mp_data_pool c')"
    using snoc.prems r(1) by (intro snoc.IH) (simp_all add: butlast_append)
  then show ?case
    using snoc.prems(2) r by (auto split: prod.splits simp: algebra_simps)
qed

lemma unmark_fragment_bytes:
  "a \<noteq> b \<Longrightarrow> unmark_fragment b n m a = m a"
  "i \<notin> {1, 2, 3} \<Longrightarrow> unmark_fragment b n m a i = m a i"
  "unmark_fragment b n m b 1 = m b 1 AND NOT P8_DATA_FLAG_FRAGMENT"
  "n \<le> UINT16_MAX \<Longrightarrow> buf_size (unmark_fragment b n m) b = n"
proof -
  show "a \<noteq> b \<Longrightarrow> unmark_fragment b n m a = m a" by (simp add: unmark_fragment_def)
  show "i \<notin> {1, 2, 3} \<Longrightarrow> unmark_fragment b n m a i = m a i"
    by (auto simp: unmark_fragment_def wr_def)
  show "unmark_fragment b n m b 1 = m b 1 AND NOT P8_DATA_FLAG_FRAGMENT"
    by (simp add: unmark_fragment_def wr_def)
  show "n \<le> UINT16_MAX \<Longrightarrow> buf_size (unmark_fragment b n m) b = n"
    by (simp add: unmark_fragment_def buf_size_def unat_of_nat)
qed

lemma discard_record_spec:
  assumes inv: "wr_inv ty w0 c0" and b: "mp_buffer w0 = Some b0" and d: "d = mz_buf_used w0"
    and stuck: "rec_stuck w0 c0 b0 d xs w c" and ca: "cache_ok w c"
    and e: "discard_record (length (mo_fragments w0)) d w c = (w', c')"
  shows "wr_inv ty w' c'" and "stream_of w' (co_mem c') = stream_of w0 (co_mem c0)"
    and "if d = sizeof_data_buf_hdr then bufs w' = mo_fragments w0 \<and> mp_buffer w' = None
           \<and> mu_buf_seq w' = mu_buf_seq w0 - 1
         else bufs w' = bufs w0 \<and> mp_buffer w' = Some b0 \<and> mu_buf_seq w' = mu_buf_seq w0
           \<and> mz_buf_used w' = d"
    and "core_static c' = core_static c0" and "writer_static w' = writer_static w0"
    and "mp_data_pool c' = fold (\<lambda>b. recycle (Some b))
      (rev xs @ (if d = sizeof_data_buf_hdr then [b0] else [])) (mp_data_pool c)"
proof -
  let ?f = "mo_fragments w0"
  obtain w1 c1 where r: "release_extra (length xs) w c = (w1, c1)" by fastforce
  have fr: "rec_frame w0 c0 b0 d xs w c" and mf: "mo_fragments w = (?f @ [b0]) @ xs"
    and fl: "co_mem c b0 1 = co_mem c0 b0 1 OR P8_DATA_FLAG_FRAGMENT"
    using stuck by (auto simp: rec_stuck_def)
  have rel: "w1 = w\<lparr>mo_fragments := ?f @ [b0], mu_buf_seq := mu_buf_seq w - word_of_nat (length xs)\<rparr>"
    and ok1: "core_ok c1" and m1: "co_mem c1 = co_mem c" and s1: "core_static c1 = core_static c"
    and p1: "mp_data_pool c1 = fold (\<lambda>b. recycle (Some b)) (rev xs) (mp_data_pool c)"
    and own1: "owned (mp_data_pool c) - set xs \<subseteq> owned (mp_data_pool c1)"
    using release_extra_spec [OF _ mf, of c] r fr by (auto simp: rec_frame_def)
  have sq: "mu_buf_seq w1 = mu_buf_seq w0" using fr by (simp add: rel rec_frame_def)
  have ws: "writer_static w1 = writer_static w0" "mo_attr_cache w1 = mo_attr_cache w"
    using fr by (simp_all add: rel rec_frame_def writer_static_def)
  have own: "owned (mp_data_pool c0) \<subseteq> owned (mp_data_pool c1)"
    using own1 fr by (auto simp: rec_frame_def)
  have b0: "bufs w0 = ?f @ [b0]" using b by (simp add: bufs_def)
  have i0: "mz_buf_max w0 = 8192" "distinct (?f @ [b0])" "set (?f @ [b0]) \<subseteq> owned (mp_data_pool c0)"
    "\<And>k. k < length (?f @ [b0]) \<Longrightarrow> hdr_ids ty w0 (mu_buf_seq w0 - word_of_nat (length (?f @ [b0]) - k))
        (co_mem c0) ((?f @ [b0]) ! k)"
    "\<And>a. a \<in> set (?f @ [b0]) \<Longrightarrow> 16 \<le> buf_size (co_mem c0) a \<and> buf_size (co_mem c0) a \<le> 8192"
    "buf_size (co_mem c0) b0 = d" "8 dvd d" "co_mem c0 b0 1 = 0"
    using inv b d by (auto simp: wr_inv_def b0)
  have d16: "16 \<le> d" "d \<le> 8192" using i0(5) [of b0] i0(6) by auto
  have frag: "co_mem c a = co_mem c0 a" if "a \<in> set ?f" for a
    using rec_frame_bytes(3) [OF inv b fr that] .
  have nb: "b0 \<notin> set ?f" using i0(2) by auto
  have wid: "mu_thread_id w1 = mu_thread_id w0" "mu_writer_id w1 = mu_writer_id w0" "mz_buf_max w1 = 8192"
    using ws i0(1) by (auto simp: writer_static_def)
  have ca1: "cache_ok w1 c1"
    using ca ws(2) core_static_fields(1) [OF s1] by (simp add: cache_ok_def)
  let ?w2 = "w1\<lparr>mo_fragments := ?f, mp_buffer := Some b0, mz_buf_used := d\<rparr>"
  have e': "(w', c') = (if 16 = d then (?w2\<lparr>mp_buffer := None, mz_buf_used := 0, mu_buf_seq := mu_buf_seq ?w2 - 1\<rparr>,
        release_buffer (Some b0) c1)
      else (?w2, c1\<lparr>co_mem := unmark_fragment b0 d (co_mem c1)\<rparr>))"
  proof -
    have "length (mo_fragments w) - (length ?f + 1) = length xs" by (simp add: mf)
    with r have "release_extra (length (mo_fragments w) - (length ?f + 1)) w c = (w1, c1)" by (simp only:)
    moreover have "mo_fragments w1 = ?f @ [b0]" by (simp add: rel)
    ultimately show ?thesis using e by (simp add: discard_record_def Let_def split: if_splits)
  qed
  have "wr_inv ty w' c' \<and> stream_of w' (co_mem c') = stream_of w0 (co_mem c0)
    \<and> (if d = 16 then bufs w' = ?f \<and> mp_buffer w' = None \<and> mu_buf_seq w' = mu_buf_seq w0 - 1
         else bufs w' = bufs w0 \<and> mp_buffer w' = Some b0 \<and> mu_buf_seq w' = mu_buf_seq w0 \<and> mz_buf_used w' = d)
    \<and> core_static c' = core_static c0 \<and> writer_static w' = writer_static w0
    \<and> mp_data_pool c' = fold (\<lambda>b. recycle (Some b)) (rev xs @ (if d = 16 then [b0] else [])) (mp_data_pool c)"
  proof (cases "d = 16")
    case True
    then have w': "w' = ?w2\<lparr>mp_buffer := None, mz_buf_used := 0, mu_buf_seq := mu_buf_seq ?w2 - 1\<rparr>"
      and c': "c' = release_buffer (Some b0) c1" using e' by auto
    have "b0 \<in> owned (mp_data_pool c1)" using i0(3) own by auto
    note rb = release_buffer_ok [OF ok1 this]
    have bu: "bufs w' = ?f" by (simp add: w' bufs_def)
    have mem: "co_mem c' a = co_mem c0 a" if "a \<in> set ?f" for a using frag [OF that] rb(4) m1 by (simp add: c')
    have st: "stream_of w' (co_mem c') = stream_of w0 (co_mem c0)"
      using mem True i0(6) unfolding stream_of_def bu b0
      by (auto intro!: arg_cong [of _ _ concat] simp: payload_def buf_size_def rd_def)
    have ids: "hdr_ids ty w' (mu_buf_seq w' - word_of_nat (length ?f - k)) (co_mem c') (?f ! k)"
      if "k < length ?f" for k
    proof -
      have e1: "mu_buf_seq w' - word_of_nat (length ?f - k) = mu_buf_seq w0 - word_of_nat (length (?f @ [b0]) - k)"
        using that by (simp add: w' sq Suc_diff_le)
      have "co_mem c' (?f ! k) = co_mem c0 (?f ! k)" using that by (intro mem) simp
      then show ?thesis unfolding e1
        using i0(4) [of k] that by (simp add: hdr_ids_def rd_def nth_append w' wid)
    qed
    have sz: "16 \<le> buf_size (co_mem c') a \<and> buf_size (co_mem c') a \<le> 8192" if "a \<in> set ?f" for a
      using i0(5) [of a] mem [OF that] that by (simp add: buf_size_def rd_def)
    have "set ?f \<subseteq> owned (mp_data_pool c')" using i0(3) own rb(2) nb by (auto simp: c')
    moreover have "cache_ok w' c'" using ca1 core_static_fields(1) [OF rb(5)] by (simp add: cache_ok_def w' c')
    ultimately have "wr_inv ty w' c'"
      unfolding wr_inv_def bu using ids sz rb(1) i0(2) wid by (simp add: w' c' del: of_nat_diff)
    with st bu show ?thesis
      using True rb(3,5) s1 fr ws p1 by (simp add: w' sq c' rec_frame_def writer_static_def)
  next
    case False
    then have w': "w' = ?w2" and c': "c' = c1\<lparr>co_mem := unmark_fragment b0 d (co_mem c1)\<rparr>" using e' by auto
    have bu: "bufs w' = bufs w0" by (simp add: w' bufs_def b)
    have mem: "co_mem c' a = co_mem c0 a" if "a \<in> set ?f" for a
    proof -
      have "a \<noteq> b0" using that nb by auto
      then show ?thesis using frag [OF that] unmark_fragment_bytes(1) m1 by (simp add: c')
    qed
    have mem0: "co_mem c' b0 i = co_mem c0 b0 i" if "i < d" "i \<notin> {1, 2, 3}" for i
      using unmark_fragment_bytes(2) [OF that(2)] fr that m1 by (simp add: c' rec_frame_def)
    have sz0: "buf_size (co_mem c') b0 = d"
      using unmark_fragment_bytes(4) [of d] d16 by (simp add: c')
    have fl0: "co_mem c' b0 1 = 0"
      using unmark_fragment_bytes(3) [of b0 d] fl i0(8) m1 by (simp add: c')
    have pay: "payload (co_mem c') a = payload (co_mem c0) a" if "a \<in> set (bufs w0)" for a
    proof (cases "a = b0")
      case True
      have "rd (co_mem c') b0 16 (d - 16) = rd (co_mem c0) b0 16 (d - 16)"
        by (intro rd_cong mem0) auto
      then show ?thesis by (simp add: True payload_def sz0 i0(6))
    next
      case False
      then show ?thesis using that mem [of a] by (simp add: b0 payload_def buf_size_def rd_def)
    qed
    have ids: "hdr_ids ty w' s (co_mem c') a = hdr_ids ty w0 s (co_mem c0) a" if "a \<in> set (bufs w0)" for s a
    proof (cases "a = b0")
      case True
      have "rd (co_mem c') b0 4 12 = rd (co_mem c0) b0 4 12" using d16 by (intro rd_cong mem0) auto
      moreover have "co_mem c' b0 0 = co_mem c0 b0 0" using d16 by (intro mem0) auto
      ultimately show ?thesis by (simp add: True hdr_ids_def w' wid)
    next
      case False
      then show ?thesis using that mem [of a] by (simp add: b0 hdr_ids_def rd_def w' wid)
    qed
    have sz: "buf_size (co_mem c') a = buf_size (co_mem c0) a" if "a \<in> set (bufs w0)" for a
      using that mem [of a] sz0 i0(6) by (cases "a = b0") (auto simp: b0 buf_size_def rd_def)
    have "stream_of w' (co_mem c') = stream_of w0 (co_mem c0)"
      unfolding stream_of_def bu using pay by (auto intro!: arg_cong [of _ _ concat])
    moreover have "wr_inv ty w' c'"
      unfolding wr_inv_def bu
    proof (intro conjI)
      show "core_ok c'" using ok1 by (simp add: c' core_ok_def)
      show "set (bufs w0) \<subseteq> owned (mp_data_pool c')" using i0(3) own by (auto simp: c' b0)
      show "cache_ok w' c'" using ca1 by (simp add: cache_ok_def w' c')
      show "\<forall>k < length (bufs w0). hdr_ids ty w' (mu_buf_seq w' - word_of_nat (length (bufs w0) - k))
          (co_mem c') (bufs w0 ! k)"
      proof (intro allI impI)
        fix k
        assume k: "k < length (bufs w0)"
        have "mu_buf_seq w' = mu_buf_seq w0" by (simp add: w' sq)
        then show "hdr_ids ty w' (mu_buf_seq w' - word_of_nat (length (bufs w0) - k)) (co_mem c') (bufs w0 ! k)"
          using i0(4) [folded b0, OF k] by (simp only: ids [OF nth_mem [OF k]])
      qed
    qed (use i0 sz sz0 fl0 wid in \<open>auto simp: w' b0\<close>)
    ultimately show ?thesis
      using False s1 fr ws p1 bu by (simp add: w' sq c' rec_frame_def writer_static_def)
  qed
  then show "wr_inv ty w' c'" "stream_of w' (co_mem c') = stream_of w0 (co_mem c0)"
    "if d = sizeof_data_buf_hdr then bufs w' = ?f \<and> mp_buffer w' = None \<and> mu_buf_seq w' = mu_buf_seq w0 - 1
     else bufs w' = bufs w0 \<and> mp_buffer w' = Some b0 \<and> mu_buf_seq w' = mu_buf_seq w0 \<and> mz_buf_used w' = d"
    "core_static c' = core_static c0" "writer_static w' = writer_static w0"
    "mp_data_pool c' = fold (\<lambda>b. recycle (Some b)) (rev xs @ (if d = sizeof_data_buf_hdr then [b0] else [])) (mp_data_pool c)"
    by simp_all
qed

end
