(* ===== verification/P8_Catalog.thy ===== *)
theory P8_Catalog
  imports P8_Core_State P8_Text "HOL-Library.Sublist"
begin

text \<open>
  Service entries as a receiver reads them: the bytes of each kind of entry, how a receiver
  walks a run of entries by their size fields, and the catalog: what the core's registries
  promise about the entries that were written. The engine's operations are in \<open>P8_Service\<close>.
\<close>

section \<open>Entries\<close>

definition entry_hdr :: "byte \<Rightarrow> nat \<Rightarrow> byte list" where
  "entry_hdr ty n = enc_svh \<lparr>svh_packet_type = P8_PACKET_SERVICE, svh_svc_type = ty, svh_size = word_of_nat n\<rparr>"

lemma length_entry_hdr [simp]: "length (entry_hdr ty n) = 4"
  by (simp add: entry_hdr_def)

text \<open>\<open>zpad n bs\<close>: the bytes and zeros up to \<open>n\<close>.\<close>

definition zpad :: "nat \<Rightarrow> byte list \<Rightarrow> byte list" where
  "zpad n bs = bs @ replicate (n - length bs) 0"

lemma length_zpad: "length bs \<le> n \<Longrightarrow> length (zpad n bs) = n"
  by (simp add: zpad_def)

definition attr_entry :: "s_p8_attr_desc \<Rightarrow> byte list" where
  "attr_entry d = (let s = svc_str (Some (ad_name d)); n = align_up_8 (12 + length s + 1)
     in zpad n (entry_hdr P8_SVC_TYPE_ATTR n @ le32 (ad_id d) @ [attr_type_code (ad_type d), 0, 0, 0] @ s))"

definition mod_entry :: "s_p8_log_mod \<Rightarrow> byte list" where
  "mod_entry d = (let s = svc_str (Some (lm_name d)); n = align_up_8 (8 + length s + 1)
     in zpad n (entry_hdr P8_SVC_TYPE_MODULE n @ le16 (lm_id d) @ [word_of_nat (level_code (lm_verbosity d)), 0] @ s))"

definition mtk_entry :: "s_p8_mtk_desc \<Rightarrow> byte list \<Rightarrow> byte \<Rightarrow> byte list" where
  "mtk_entry d blob k = (let s = svc_str (Some (mkd_name d)); t = svc_str (mkd_description d);
       u = svc_str (mkd_unit d); n = align_up_8 (32 + length s + length t + length u + length blob)
     in zpad n (entry_hdr P8_SVC_TYPE_MTK n @ le32 (mkd_id d) @ le64 (mkd_min d) @ le64 (mkd_max d)
          @ [mkd_flags d, k] @ le16 (word_of_nat (length s)) @ le16 (word_of_nat (length t))
          @ le16 (word_of_nat (length u)) @ s @ t @ u @ blob))"

definition log_entry :: "s_p8_log_desc \<Rightarrow> byte list" where
  "log_entry d = (let f = svc_str (ld_file d); g = svc_str (ld_function d); t = svc_str (ld_format d);
       vs = take 32 (ld_args d); n = align_up_8 (24 + length f + length g + length t + length vs * 2)
     in zpad n (entry_hdr P8_SVC_TYPE_LOG_DESC n @ le32 (ld_line d) @ le64 (ld_hash d)
          @ le16 (word_of_nat (length t)) @ le16 (word_of_nat (length f)) @ le16 (word_of_nat (length g))
          @ [word_of_nat (length vs), 0] @ f @ g @ t @ concat (map enc_varg vs)))"

definition str_entry :: "byte \<Rightarrow> byte list \<Rightarrow> u64 \<Rightarrow> byte list" where
  "str_entry ty s h = (let n = align_up_8 (16 + length s)
     in zpad n (entry_hdr ty n @ le16 (word_of_nat (length s)) @ [0, 0] @ le64 h @ s))"

definition trc_entry :: "u64 \<Rightarrow> u32 \<Rightarrow> u64 \<Rightarrow> u64 \<Rightarrow> u64 \<Rightarrow> byte list" where
  "trc_entry h line f g n = entry_hdr P8_SVC_TYPE_TRACE 40 @ le32 line @ le64 h @ le64 f @ le64 g @ le64 n"

section \<open>Walking a run of entries\<close>

definition is_entry :: "byte list \<Rightarrow> bool" where
  "is_entry e \<longleftrightarrow> 8 dvd length e \<and> 8 \<le> length e \<and> length e \<le> mz_data_buffer_size
     \<and> (\<exists>ty. take 4 e = entry_hdr ty (length e))"

lemma is_entry_zpad:
  assumes "n = align_up_8 k" and "length bs \<le> n" and "4 \<le> length bs" and "5 \<le> k" and "n \<le> mz_data_buffer_size"
    and "take 4 bs = entry_hdr ty n"
  shows "is_entry (zpad n bs)"
proof -
  have "8 \<le> n" using assms(1,4) by (simp add: align_up_8_def)
  moreover have "take 4 (zpad n bs) = entry_hdr ty n" using assms(3,6) by (simp add: zpad_def)
  ultimately show ?thesis using assms length_zpad by (auto simp: is_entry_def)
qed

fun split_entries :: "nat \<Rightarrow> byte list \<Rightarrow> byte list list option" where
  "split_entries 0 bs = (if bs = [] then Some [] else None)"
| "split_entries (Suc k) bs =
     (if bs = [] then Some []
      else let h = dec_svh bs; n = unat (svh_size h) in
        if length bs < 4 \<or> svh_packet_type h \<noteq> P8_PACKET_SERVICE \<or> n = 0 \<or> length bs < n then None
        else map_option ((#) (take n bs)) (split_entries k (drop n bs)))"

lemma split_one:
  assumes "is_entry e"
  shows "split_entries (Suc k) (e @ bs) = map_option ((#) e) (split_entries k bs)"
proof -
  from assms obtain ty where t: "take 4 e = entry_hdr ty (length e)" by (auto simp: is_entry_def)
  have l: "8 \<le> length e" "length e \<le> 8192" using assms by (auto simp: is_entry_def)
  define rest where "rest = drop 4 e @ bs"
  have e: "e @ bs = entry_hdr ty (length e) @ rest"
    using append_take_drop_id [of 4 e] by (simp add: rest_def flip: t)
  have d: "dec_svh (e @ bs) = \<lparr>svh_packet_type = P8_PACKET_SERVICE, svh_svc_type = ty, svh_size = word_of_nat (length e)\<rparr>"
    unfolding e entry_hdr_def by (rule svh.dec_enc_rest)
  have "unat (word_of_nat (length e) :: u16) = length e" using l by (simp add: unat_of_nat)
  with l d show ?thesis by (cases e) (simp_all add: Let_def)
qed

lemma split_concat:
  "(\<forall>e \<in> set es. is_entry e) \<Longrightarrow> length es \<le> k \<Longrightarrow> split_entries k (concat es) = Some es"
proof (induction es arbitrary: k)
  case Nil
  then show ?case by (cases k) auto
next
  case (Cons e es)
  then obtain j where "k = Suc j" by (cases k) auto
  with Cons split_one [of e j "concat es"] show ?case by simp
qed

section \<open>The service bytes of the core\<close>

definition svc_bytes :: "mem \<Rightarrow> s_p8_svc_buf list \<Rightarrow> byte list" where
  "svc_bytes m bs = concat (map (\<lambda>s. rd m (sb_buf s) 0 (sb_used s)) bs)"

text \<open>All service bytes, those the worker has taken and those it has not.\<close>

definition svc_total :: "core \<Rightarrow> byte list" where
  "svc_total c = co_svc_sent c @ svc_bytes (co_mem c) (mo_svc_buffers c)"

text \<open>A buffer of whole entries.\<close>

definition framed :: "mem \<Rightarrow> s_p8_svc_buf \<Rightarrow> bool" where
  "framed m s \<longleftrightarrow> (\<exists>es. rd m (sb_buf s) 0 (sb_used s) = concat es \<and> (\<forall>e \<in> set es. is_entry e))"

section \<open>The catalog\<close>

text \<open>The three sets of strings already sent.\<close>

datatype name_set = File_names | Func_names | Span_names

fun names_of :: "name_set \<Rightarrow> core \<Rightarrow> u64 set" where
  "names_of File_names c = mo_file_names c"
| "names_of Func_names c = mo_func_names c"
| "names_of Span_names c = mo_span_names c"

fun names_insert :: "name_set \<Rightarrow> u64 \<Rightarrow> core \<Rightarrow> core" where
  "names_insert File_names h c = c\<lparr>mo_file_names := insert h (mo_file_names c)\<rparr>"
| "names_insert Func_names h c = c\<lparr>mo_func_names := insert h (mo_func_names c)\<rparr>"
| "names_insert Span_names h c = c\<lparr>mo_span_names := insert h (mo_span_names c)\<rparr>"

fun names_type :: "name_set \<Rightarrow> byte" where
  "names_type File_names = P8_SVC_TYPE_FILE_NAME"
| "names_type Func_names = P8_SVC_TYPE_FUNC_NAME"
| "names_type Span_names = P8_SVC_TYPE_SPAN_NAME"

text \<open>The string with hash \<open>h\<close> is among the bytes.\<close>

definition named :: "(byte list \<Rightarrow> u64) \<Rightarrow> byte list \<Rightarrow> name_set \<Rightarrow> u64 \<Rightarrow> bool" where
  "named xxh t kind h \<longleftrightarrow> (\<exists>s. xxh s = h \<and> length s \<le> P8_SVC_STR_MAX_LEN \<and> sublist (str_entry (names_type kind) s h) t)"

text \<open>A span descriptor, after the three strings it refers to.\<close>

definition span_described :: "(byte list \<Rightarrow> u64) \<Rightarrow> byte list \<Rightarrow> u64 \<Rightarrow> bool" where
  "span_described xxh t h \<longleftrightarrow> (\<exists>line f g n pre post. t = pre @ trc_entry h line f g n @ post
     \<and> named xxh pre File_names f \<and> named xxh pre Func_names g \<and> named xxh pre Span_names n)"

definition catalog :: "(byte list \<Rightarrow> u64) \<Rightarrow> core \<Rightarrow> bool" where
  "catalog xxh c \<longleftrightarrow>
     (\<forall>h d. mo_log_descs c h = Some d \<longrightarrow> ld_hash d = h \<and> sublist (log_entry d) (svc_total c))
     \<and> (\<forall>kind. \<forall>h \<in> names_of kind c. named xxh (svc_total c) kind h)
     \<and> (\<forall>h \<in> mo_trc_descs c. span_described xxh (svc_total c) h)"

lemma named_mono: "named xxh t kind h \<Longrightarrow> prefix t t' \<Longrightarrow> named xxh t' kind h"
  unfolding named_def by (blast intro: sublist_order.order_trans prefix_imp_sublist)

lemma span_described_mono: "span_described xxh t h \<Longrightarrow> prefix t t' \<Longrightarrow> span_described xxh t' h"
  unfolding span_described_def prefix_def by fastforce

lemma names_of_cong:
  "mo_file_names c' = mo_file_names c \<Longrightarrow> mo_func_names c' = mo_func_names c \<Longrightarrow>
   mo_span_names c' = mo_span_names c \<Longrightarrow> names_of kind c' = names_of kind c"
  by (cases kind) auto

lemma catalog_mono:
  assumes "catalog xxh c" and "prefix (svc_total c) (svc_total c')"
    and "mo_log_descs c' = mo_log_descs c" and "mo_trc_descs c' = mo_trc_descs c"
    and "mo_file_names c' = mo_file_names c" and "mo_func_names c' = mo_func_names c"
    and "mo_span_names c' = mo_span_names c"
  shows "catalog xxh c'"
proof -
  have "sublist e (svc_total c')" if "sublist e (svc_total c)" for e
    using that prefix_imp_sublist [OF assms(2)] by (rule sublist_order.order_trans)
  then show ?thesis
    using assms(1) named_mono [OF _ assms(2)] span_described_mono [OF _ assms(2)] names_of_cong [OF assms(5-7)]
    unfolding catalog_def assms(3,4) by simp
qed

end
