(* ===== verification/P8_Threads.thy ===== *)
theory P8_Threads
  imports P8_Stream P8_Catalog
begin

text \<open>
  What happens while a thread holds no lock. A writer that finds no buffer releases its spin
  lock, calls \<open>acquire_buffer(true)\<close> and takes the lock again; meanwhile the worker may take
  the writer's buffers (\<open>pull\<close>), other threads may take and return buffers, register names and
  append service entries. \<open>acquire_blocking\<close> is that call with the other threads' doings as a
  parameter \<open>env\<close>, a function of the moment and of the state; the locale \<open>other_threads\<close> states
  what the engine's own operations guarantee of it. A call that is never woken is \<open>None\<close>.
\<close>

section \<open>The blocking acquire\<close>

type_synonym interference = "nat \<Rightarrow> tls_writer \<times> core \<Rightarrow> tls_writer \<times> core"

definition others :: "interference \<Rightarrow> tls_writer \<Rightarrow> core \<Rightarrow> tls_writer \<times> core" where
  "others env w c = (case env (co_moment c) (w, c) of
     (w', c') \<Rightarrow> (w', c'\<lparr>co_moment := Suc (co_moment c)\<rparr>))"

text \<open>\<open>unlock(); acquire_buffer(true); lock()\<close>: others act before the call, while the thread is
  parked, and before the lock is taken again.\<close>

definition acquire_blocking ::
    "interference \<Rightarrow> nat \<Rightarrow> tls_writer \<Rightarrow> core \<Rightarrow> (addr option \<times> tls_writer \<times> core) option" where
  "acquire_blocking env lo_self w c = (case others env w c of (w1, c1) \<Rightarrow>
     if \<not> mb_initialized c1 then Some (None, others env w1 c1)
     else case acquire_buffer c1 of
       (Some lp_buf, c2) \<Rightarrow> Some (Some lp_buf, others env w1 c2)
     | (None, c2) \<Rightarrow> (case others env w1 c2 of (w2, c3) \<Rightarrow>
         case acquire_buffer_slow lo_self c3 of
           (Acquired lp_buf, c4) \<Rightarrow> Some (Some lp_buf, others env w2 c4)
         | (Refused, c4) \<Rightarrow> Some (None, others env w2 c4)
         | (Parked, c4) \<Rightarrow> (case others env w2 c4 of (w3, c5) \<Rightarrow>
             case acquire_wait_resume lo_self (mp_data_pool c5) of
               (None, p) \<Rightarrow> None
             | (Some lp_result, p) \<Rightarrow>
                 Some (lp_result, others env w3 (c5\<lparr>mp_data_pool := acquire_wait_leave p\<rparr>)))))"

section \<open>What belongs to the calling thread\<close>

definition svc_addrs :: "core \<Rightarrow> addr list" where
  "svc_addrs c = map sb_buf (mo_svc_buffers c)"

text \<open>Service buffers: distinct, the pool's, with whole entries.\<close>

definition svc_inv :: "core \<Rightarrow> bool" where
  "svc_inv c \<longleftrightarrow> distinct (svc_addrs c) \<and> set (svc_addrs c) \<subseteq> owned (mp_data_pool c)
     \<and> (\<forall>s \<in> set (mo_svc_buffers c). sb_used s \<le> mz_data_buffer_size \<and> framed (co_mem c) s)"

text \<open>A thread that is about to wait is not in the queue yet, and the queue has room.\<close>

definition may_wait :: "nat \<Rightarrow> core \<Rightarrow> bool" where
  "may_wait self c \<longleftrightarrow> (\<forall>ws. wait_queue (mp_data_pool c) ws \<longrightarrow> self \<notin> set ws \<and> length ws + 1 < 2 ^ 32)"

text \<open>The thread's buffers: its writer's, and those of \<open>h\<close> it holds besides; apart from them
  and from each other the core's service buffers.\<close>

definition own_bufs :: "byte \<Rightarrow> addr set \<Rightarrow> tls_writer \<Rightarrow> core \<Rightarrow> bool" where
  "own_bufs ty h w c \<longleftrightarrow> wr_inv ty w c \<and> svc_inv c \<and> h \<subseteq> owned (mp_data_pool c) \<and> h \<inter> set (bufs w) = {} \<and> h \<inter> set (svc_addrs c) = {}
     \<and> set (bufs w) \<inter> set (svc_addrs c) = {}"

definition own_inv :: "byte \<Rightarrow> nat \<Rightarrow> addr set \<Rightarrow> tls_writer \<Rightarrow> core \<Rightarrow> bool" where
  "own_inv ty self h w c \<longleftrightarrow> own_bufs ty h w c \<and> may_wait self c"

text \<open>How the writer and the core may change meanwhile: the worker took all of the writer's
  buffers or none, and none of its other fields; registries and service entries only grow, and
  whatever the registries hold is described by entries.\<close>

definition writer_ids :: "tls_writer \<Rightarrow> bool \<times> nat \<times> u32 \<times> u32 \<times> u32 \<times> s_p8_attr_desc list" where
  "writer_ids w = (mp_core w, mz_buf_max w, mu_thread_id w, mu_writer_id w, mu_buf_seq w, mo_attr_cache w)"

definition evolves :: "(byte list \<Rightarrow> u64) \<Rightarrow> tls_writer \<Rightarrow> core \<Rightarrow> tls_writer \<Rightarrow> core \<Rightarrow> bool" where
  "evolves xxh w c w' c' \<longleftrightarrow> writer_ids w' = writer_ids w
     \<and> (bufs w' = [] \<or> (mo_fragments w' = mo_fragments w \<and> mp_buffer w' = mp_buffer w
          \<and> (mp_buffer w \<noteq> None \<longrightarrow> mz_buf_used w' = mz_buf_used w)
          \<and> (\<forall>a \<in> set (bufs w). co_mem c' a = co_mem c a)))
     \<and> prefix (mo_attr_descs c) (mo_attr_descs c') \<and> mo_log_descs c \<subseteq>\<^sub>m mo_log_descs c'
     \<and> mo_trc_descs c \<subseteq> mo_trc_descs c' \<and> mo_file_names c \<subseteq> mo_file_names c'
     \<and> mo_func_names c \<subseteq> mo_func_names c' \<and> mo_span_names c \<subseteq> mo_span_names c'
     \<and> prefix (svc_total c) (svc_total c') \<and> (catalog xxh c \<longrightarrow> catalog xxh c')"

lemma bufs_Nil: "bufs w = [] \<longleftrightarrow> mo_fragments w = [] \<and> mp_buffer w = None"
  by (auto simp: bufs_def split: option.splits)

lemma evolves_refl [simp]: "evolves xxh w c w c"
  by (simp add: evolves_def)

lemma evolves_trans:
  assumes "evolves xxh w c w1 c1" and "evolves xxh w1 c1 w2 c2"
  shows "evolves xxh w c w2 c2"
proof -
  have "bufs w2 = [] \<or> (mo_fragments w2 = mo_fragments w \<and> mp_buffer w2 = mp_buffer w
          \<and> (mp_buffer w \<noteq> None \<longrightarrow> mz_buf_used w2 = mz_buf_used w)
          \<and> (\<forall>a \<in> set (bufs w). co_mem c2 a = co_mem c a))"
  proof (cases "bufs w1 = []")
    case True
    with assms(2) have "bufs w2 = []" by (auto simp: evolves_def bufs_def split: option.splits)
    then show ?thesis ..
  next
    case False
    with assms(1) have "mo_fragments w1 = mo_fragments w" "mp_buffer w1 = mp_buffer w"
      "mp_buffer w \<noteq> None \<longrightarrow> mz_buf_used w1 = mz_buf_used w"
      "\<forall>a \<in> set (bufs w). co_mem c1 a = co_mem c a"
      by (auto simp: evolves_def)
    moreover from this have "bufs w1 = bufs w" by (simp add: bufs_def)
    ultimately show ?thesis using assms(2) by (auto simp: evolves_def)
  qed
  moreover have "prefix (mo_attr_descs c) (mo_attr_descs c2)" "prefix (svc_total c) (svc_total c2)"
    using assms unfolding evolves_def by (blast intro: prefix_order.trans)+
  moreover have "mo_log_descs c \<subseteq>\<^sub>m mo_log_descs c2"
    using assms unfolding evolves_def by (blast intro: map_le_trans)
  moreover have "mo_trc_descs c \<subseteq> mo_trc_descs c2" "mo_file_names c \<subseteq> mo_file_names c2"
    "mo_func_names c \<subseteq> mo_func_names c2" "mo_span_names c \<subseteq> mo_span_names c2"
    "catalog xxh c \<longrightarrow> catalog xxh c2"
    using assms unfolding evolves_def by blast+
  moreover have "writer_ids w2 = writer_ids w" using assms by (simp add: evolves_def)
  ultimately show ?thesis by (simp add: evolves_def)
qed

text \<open>The stream a waiting thread finds again: its own, or nothing.\<close>

lemma evolves_stream:
  assumes "evolves xxh w c w' c'"
  shows "stream_of w' (co_mem c') \<in> {stream_of w (co_mem c), []}"
proof (cases "bufs w' = []")
  case False
  with assms have "bufs w' = bufs w" "\<forall>a \<in> set (bufs w). co_mem c' a = co_mem c a"
    by (auto simp: evolves_def bufs_def)
  then have "stream_of w' (co_mem c') = stream_of w (co_mem c)"
    by (auto simp: stream_of_def payload_def buf_size_def rd_def intro!: arg_cong [of _ _ concat])
  then show ?thesis by simp
qed (simp add: stream_of_def)

section \<open>Steps of the calling thread\<close>

lemma own_moment [simp]:
  "own_inv ty self h w (c\<lparr>co_moment := k\<rparr>) = own_inv ty self h w c"
  "own_bufs ty h w (c\<lparr>co_moment := k\<rparr>) = own_bufs ty h w c"
  "evolves xxh w c w' (c'\<lparr>co_moment := k\<rparr>) = evolves xxh w c w' c'"
proof -
  have "svc_total (c'\<lparr>co_moment := k\<rparr>) = svc_total c'" by (simp add: svc_total_def)
  moreover have "names_of kind (c'\<lparr>co_moment := k\<rparr>) = names_of kind c'" for kind by (cases kind) auto
  ultimately show "evolves xxh w c w' (c'\<lparr>co_moment := k\<rparr>) = evolves xxh w c w' c'"
    by (simp add: evolves_def catalog_def)
qed (simp_all add: own_inv_def own_bufs_def wr_inv_def core_ok_def cache_ok_def svc_inv_def svc_addrs_def
      may_wait_def)

text \<open>A step that only touches the pool and the wake signals, and keeps what is ours.\<close>

lemma own_bufs_pool:
  assumes "own_bufs ty h w c" and "core_static c' = core_static c" and "co_mem c' = co_mem c"
    and "core_ok c'" and "owned (mp_data_pool c) \<union> h' \<subseteq> owned (mp_data_pool c')"
    and "h' \<inter> owned (mp_data_pool c) \<subseteq> h"
  shows "own_bufs ty h' w c'" and "evolves xxh w c w c'"
proof -
  note st = core_static_fields [OF assms(2)]
  have b: "set (bufs w) \<subseteq> owned (mp_data_pool c)" "set (svc_addrs c) \<subseteq> owned (mp_data_pool c)"
    using assms(1) by (auto simp: own_bufs_def wr_inv_def svc_inv_def)
  have "svc_addrs c' = svc_addrs c" by (simp add: svc_addrs_def st)
  with assms b st(1,3) show "own_bufs ty h' w c'"
    by (auto simp: own_bufs_def wr_inv_def svc_inv_def cache_ok_def)
  have tt: "svc_total c' = svc_total c" by (simp add: st svc_total_def assms(3))
  have "catalog xxh c'" if k: "catalog xxh c" by (rule catalog_mono [OF k]) (simp_all add: tt st)
  with tt assms(3) show "evolves xxh w c w c'" by (simp add: evolves_def st)
qed

lemma may_wait_part:
  assumes "wait_part (mp_data_pool c') = wait_part (mp_data_pool c)" and "may_wait self c"
  shows "may_wait self c'"
  using assms(2) wait_queue_cong(1) [OF assms(1)] by (simp add: may_wait_def)

lemma acquire_buffer_held:
  assumes "own_inv ty self h w c" and "acquire_buffer c = (r, c')"
  shows "own_inv ty self (h \<union> set_option r) w c'" and "evolves xxh w c w c'"
    and "co_mem c' = co_mem c" and "core_static c' = core_static c" and "h \<inter> set_option r = {}"
proof -
  have ok: "core_ok c" using assms(1) by (simp add: own_inv_def own_bufs_def wr_inv_def)
  have *: "core_static c' = core_static c \<and> co_mem c' = co_mem c \<and> core_ok c'
      \<and> owned (mp_data_pool c') = owned (mp_data_pool c) \<union> set_option r
      \<and> set_option r \<inter> owned (mp_data_pool c) = {}"
    using acquire_buffer_Some [OF _ ok, of _ c'] acquire_buffer_None [OF _ ok, of c'] assms(2)
    by (cases r) auto
  then show "co_mem c' = co_mem c" "core_static c' = core_static c" by auto
  have m: "may_wait self c'"
    using may_wait_part [OF acquire_buffer_wait_part [OF assms(2) ok]] assms(1) by (simp add: own_inv_def)
  have o: "own_bufs ty h w c" and h: "h \<subseteq> owned (mp_data_pool c)"
    using assms(1) by (simp_all add: own_inv_def own_bufs_def)
  then show "h \<inter> set_option r = {}" using * by auto
  from own_bufs_pool [OF o, of c' "h \<union> set_option r"] * m h
  show "own_inv ty self (h \<union> set_option r) w c'" "evolves xxh w c w c'" by (auto simp: own_inv_def)
qed

lemma acquire_buffer_own:
  assumes "own_inv ty self {} w c" and "acquire_buffer c = (r, c')"
  shows "own_inv ty self (set_option r) w c'" and "evolves xxh w c w c'"
    and "co_mem c' = co_mem c" and "core_static c' = core_static c"
  using acquire_buffer_held [OF assms] by simp_all

section \<open>The other threads\<close>

definition parked :: "nat \<Rightarrow> core \<Rightarrow> bool" where
  "parked self c \<longleftrightarrow> (\<exists>ws. wait_queue (mp_data_pool c) ws \<and> self \<in> set ws)"

text \<open>Entering the queue.\<close>

lemma enter_own:
  assumes own: "own_inv ty self {} w c" and en: "acquire_wait_enter self (mp_data_pool c) = (Parked, p)"
  shows "own_bufs ty {} w ((notify_pressure c)\<lparr>mp_data_pool := p\<rparr>)
    \<and> parked self ((notify_pressure c)\<lparr>mp_data_pool := p\<rparr>)
    \<and> evolves xxh w c w ((notify_pressure c)\<lparr>mp_data_pool := p\<rparr>)"
proof -
  define c4 where "c4 = (notify_pressure c)\<lparr>mp_data_pool := p\<rparr>"
  have c4: "core_static c4 = core_static c" "co_mem c4 = co_mem c" "mp_data_pool c4 = p"
    "mb_initialized c4 = mb_initialized c"
    by (simp_all add: c4_def)
  have ok: "core_ok c" and o3: "own_bufs ty {} w c"
    using own by (simp_all add: own_inv_def own_bufs_def wr_inv_def)
  then obtain ws where wf: "pool_wf (mp_data_pool c)" and ws: "wait_queue (mp_data_pool c) ws"
    and sh: "on_shards (mp_data_pool c) ws"
    by (auto simp: core_ok_def pool_ok_def)
  then have mw: "self \<notin> set ws" "length ws + 1 < 2 ^ 32"
    using own by (auto simp: own_inv_def may_wait_def)
  note ep = enter_Parked [OF wf ws mw en]
  have pk: "parked self c4" using ep(1) by (auto simp: parked_def c4)
  have "mz_buffer_size p = mz_buffer_size (mp_data_pool c)"
    using en acquire_no_lock_None(7) [OF wf]
    by (auto simp: acquire_wait_enter_def Let_def split: prod.splits option.splits if_splits)
  moreover have "wt_cv (wt_node p w) < 64" if "w \<in> set (ws @ [self])" for w
    using that sh mw(1) ep(9) ep(10) [of w] by (cases "w = self") (auto simp: on_shards_def)
  then have "on_shards p (ws @ [self])" unfolding on_shards_def by blast
  ultimately have "core_ok c4" using ok ep(1,2) c4 unfolding core_ok_def pool_ok_def by auto
  with own_bufs_pool [OF o3 c4(1,2), of "{}"] ep(3) c4(3) pk show ?thesis by (auto simp flip: c4_def)
qed

text \<open>
  What a thread may rely on: others keep its invariant and change its state only as
  \<open>evolves\<close> says; and if the thread was parked and finds itself served, it was handed a
  buffer that is nobody else's, or refused.
\<close>

locale other_threads =
  fixes xxh :: "byte list \<Rightarrow> u64"
    and ty :: byte
    and self :: nat
    and env :: interference
  assumes keeps: "own_inv ty self h w c \<Longrightarrow> env n (w, c) = (w', c') \<Longrightarrow>
      own_inv ty self h w' c' \<and> evolves xxh w c w' c'"
    and hands_over: "own_bufs ty {} w c \<Longrightarrow> parked self c \<Longrightarrow> env n (w, c) = (w', c') \<Longrightarrow>
      fst (acquire_wait_resume self (mp_data_pool c')) = Some r \<Longrightarrow>
      own_inv ty self (set_option r) w' c' \<and> evolves xxh w c w' c'"
begin

lemma others_keep:
  assumes "own_inv ty self h w c" and "others env w c = (w', c')"
  shows "own_inv ty self h w' c'" and "evolves xxh w c w' c'"
  using assms keeps [OF assms(1), of "co_moment c"] by (auto simp: others_def split: prod.splits)

text \<open>Parked, served by another thread, and back.\<close>

lemma parked_own:
  assumes own: "own_inv ty self {} w c" and en: "acquire_wait_enter self (mp_data_pool c) = (Parked, p)"
    and o: "others env w ((notify_pressure c)\<lparr>mp_data_pool := p\<rparr>) = (w3, c5)"
    and re: "acquire_wait_resume self (mp_data_pool c5) = (Some r, p')"
    and fin: "others env w3 (c5\<lparr>mp_data_pool := acquire_wait_leave p'\<rparr>) = (w', c')"
  shows "own_inv ty self (set_option r) w' c' \<and> evolves xxh w c w' c'"
proof -
  define c4 where "c4 = (notify_pressure c)\<lparr>mp_data_pool := p\<rparr>"
  have o4: "own_bufs ty {} w c4" and pk: "parked self c4" and e4: "evolves xxh w c w c4"
    using enter_own [OF own en] by (simp_all flip: c4_def)
  obtain c5' where en5: "env (co_moment c4) (w, c4) = (w3, c5')"
    and c5: "c5 = c5'\<lparr>co_moment := Suc (co_moment c4)\<rparr>"
    using o by (auto simp: others_def c4_def split: prod.splits)
  have "fst (acquire_wait_resume self (mp_data_pool c5')) = Some r" using re c5 by simp
  then have k5: "own_inv ty self (set_option r) w3 c5'" "evolves xxh w c4 w3 c5'"
    using hands_over [OF o4 pk en5] by auto
  have p': "p' = mp_data_pool c5" using re by (auto simp: acquire_wait_resume_def split: if_splits)
  let ?c6 = "c5\<lparr>mp_data_pool := acquire_wait_leave p'\<rparr>"
  have wl: "wait_queue (acquire_wait_leave q) vs = wait_queue q vs"
    and sl: "on_shards (acquire_wait_leave q) vs = on_shards q vs" for q vs
    by (simp_all add: acquire_wait_leave_def wait_queue_def on_shards_def)
  have pl: "pool_wf (acquire_wait_leave q) = pool_wf q" "owned (acquire_wait_leave q) = owned q"
    "mz_buffer_size (acquire_wait_leave q) = mz_buffer_size q" for q
    by (simp_all add: acquire_wait_leave_def pool_wf_def owned_def)
  have "own_inv ty self (set_option r) w3 c5" using k5(1) by (simp add: c5)
  then have "own_inv ty self (set_option r) w3 ?c6"
    by (simp add: own_inv_def own_bufs_def wr_inv_def core_ok_def pool_ok_def cache_ok_def svc_inv_def
        svc_addrs_def may_wait_def wl sl pl p')
  from others_keep [OF this fin] have "own_inv ty self (set_option r) w' c'" "evolves xxh w3 ?c6 w' c'"
    by auto
  moreover have "evolves xxh w3 c5' w3 ?c6"
  proof -
    have tt: "svc_total ?c6 = svc_total c5'" by (simp add: c5 svc_total_def)
    have "catalog xxh ?c6" if k: "catalog xxh c5'"
      by (rule catalog_mono [OF k]) (simp_all add: tt, simp_all add: c5)
    with tt show ?thesis by (simp add: evolves_def c5)
  qed
  ultimately show ?thesis
    using evolves_trans [OF e4] evolves_trans [OF k5(2)] evolves_trans by blast
qed

text \<open>A buffer, or the refusal, without parking.\<close>

lemma not_parked_own:
  assumes own: "own_inv ty self {} w c" and h: "acquire_no_lock (mp_data_pool c) = (r, p)"
    and o: "others env w ((notify_pressure c)\<lparr>mp_data_pool := p\<rparr>) = (w', c')"
  shows "own_inv ty self (set_option r) w' c' \<and> evolves xxh w c w' c'"
proof -
  define c4 where "c4 = (notify_pressure c)\<lparr>mp_data_pool := p\<rparr>"
  have c4: "core_static c4 = core_static c" "co_mem c4 = co_mem c" "mp_data_pool c4 = p"
    "mb_initialized c4 = mb_initialized c"
    by (simp_all add: c4_def)
  have ok: "core_ok c" and o3: "own_bufs ty {} w c"
    using own by (simp_all add: own_inv_def own_bufs_def wr_inv_def)
  then have wf: "pool_wf (mp_data_pool c)" by (simp add: core_ok_def pool_ok_def)
  have p: "pool_wf p" "wait_part p = wait_part (mp_data_pool c)"
    "owned p = owned (mp_data_pool c) \<union> set_option r" "set_option r \<inter> owned (mp_data_pool c) = {}"
    "mz_buffer_size p = mz_buffer_size (mp_data_pool c)"
    using h acquire_no_lock_Some [OF wf, of _ p] acquire_no_lock_None [OF wf, of p]
    by (cases r; auto)+
  have "core_ok c4" using ok p pool_ok_cong [OF p(2,1)] c4 by (simp add: core_ok_def)
  moreover have "may_wait self c4"
    using may_wait_part [of c4 c self] p(2) own c4 by (simp add: own_inv_def)
  ultimately have "own_inv ty self (set_option r) w c4" "evolves xxh w c w c4"
    using own_bufs_pool [OF o3 c4(1,2), of "set_option r"] p(3,4) c4(3) by (auto simp: own_inv_def)
  with others_keep [OF _ o [folded c4_def]] show ?thesis using evolves_trans by blast
qed

lemma enter_result:
  assumes "acquire_wait_enter self q = (x, p)" and "x \<noteq> Parked"
  shows "acquire_no_lock q = (case x of Acquired b \<Rightarrow> Some b | _ \<Rightarrow> None, p)"
  using assms by (auto simp: acquire_wait_enter_def Let_def split: prod.splits option.splits if_splits)

lemma acquire_blocking_own:
  assumes own: "own_inv ty self {} w c" and a: "acquire_blocking env self w c = Some (r, w', c')"
  shows "own_inv ty self (set_option r) w' c' \<and> evolves xxh w c w' c'"
proof -
  obtain w1 c1 where o1: "others env w c = (w1, c1)" by fastforce
  note k1 = others_keep [OF own o1]
  have i1: "mb_initialized c1" using k1(1) by (auto simp: own_inv_def own_bufs_def wr_inv_def core_ok_def)
  obtain r1 c2 where a1: "acquire_buffer c1 = (r1, c2)" by fastforce
  note k2 = acquire_buffer_own [OF k1(1) a1]
  note e2 = evolves_trans [OF k1(2) k2(2)]
  show ?thesis
  proof (cases r1)
    case (Some b)
    then have "r = Some b" "others env w1 c2 = (w', c')"
      using a o1 a1 i1 by (auto simp: acquire_blocking_def)
    with others_keep [OF k2(1) this(2)] Some show ?thesis by (auto intro: evolves_trans [OF e2])
  next
    case None
    obtain w2 c3 where o2: "others env w1 c2 = (w2, c3)" by fastforce
    have k2': "own_inv ty self {} w1 c2" using k2(1) None by simp
    note k3 = others_keep [OF k2' o2]
    note e3 = evolves_trans [OF e2 k3(2)]
    obtain q p where en: "acquire_wait_enter self (mp_data_pool c3) = (q, p)" by fastforce
    let ?c4 = "(notify_pressure c3)\<lparr>mp_data_pool := p\<rparr>"
    have sl: "acquire_buffer_slow self c3 = (q, ?c4)"
      by (simp add: acquire_buffer_slow_def Let_def en)
    have "own_inv ty self (set_option r) w' c' \<and> evolves xxh w2 c3 w' c'"
    proof (cases "q = Parked")
      case True
      obtain w3 c5 where o5: "others env w2 ?c4 = (w3, c5)" by fastforce
      obtain x p' where re: "acquire_wait_resume self (mp_data_pool c5) = (x, p')" by fastforce
      have "x = Some r" "others env w3 (c5\<lparr>mp_data_pool := acquire_wait_leave p'\<rparr>) = (w', c')"
        using a o1 a1 i1 o2 sl None True o5 re by (auto simp: acquire_blocking_def split: option.splits)
      with re show ?thesis by (intro parked_own [OF k3(1) en [unfolded True] o5]) auto
    next
      case False
      have "r = (case q of Acquired b \<Rightarrow> Some b | _ \<Rightarrow> None)" "others env w2 ?c4 = (w', c')"
        using a o1 a1 i1 o2 sl None False by (cases q; auto simp: acquire_blocking_def)+
      with not_parked_own [OF k3(1)] enter_result [OF en False] show ?thesis by simp
    qed
    then show ?thesis using evolves_trans [OF e3] by blast
  qed
qed

end

text \<open>Whoever waits is served: then the call returns.\<close>

locale others_serve = other_threads +
  assumes serves: "own_bufs ty {} w c \<Longrightarrow> parked self c \<Longrightarrow> env n (w, c) = (w', c') \<Longrightarrow>
      fst (acquire_wait_resume self (mp_data_pool c')) \<noteq> None"
begin

lemma acquire_blocking_returns:
  assumes own: "own_inv ty self {} w c"
  shows "\<exists>r w' c'. acquire_blocking env self w c = Some (r, w', c')"
proof -
  obtain w1 c1 where o1: "others env w c = (w1, c1)" by fastforce
  note k1 = others_keep [OF own o1]
  obtain r1 c2 where a1: "acquire_buffer c1 = (r1, c2)" by fastforce
  note k2 = acquire_buffer_own [OF k1(1) a1]
  obtain w2 c3 where o2: "others env w1 c2 = (w2, c3)" by fastforce
  obtain q p where en: "acquire_wait_enter self (mp_data_pool c3) = (q, p)" by fastforce
  let ?c4 = "(notify_pressure c3)\<lparr>mp_data_pool := p\<rparr>"
  have sl: "acquire_buffer_slow self c3 = (q, ?c4)"
    by (simp add: acquire_buffer_slow_def Let_def en)
  obtain w3 c5 where o5: "others env w2 ?c4 = (w3, c5)" by fastforce
  have "fst (acquire_wait_resume self (mp_data_pool c5)) \<noteq> None" if "q = Parked" "r1 = None"
  proof -
    have k2': "own_inv ty self {} w1 c2" using k2(1) that(2) by simp
    have k3: "own_inv ty self {} w2 c3" using others_keep [OF k2' o2] by simp
    have "own_bufs ty {} w2 ?c4 \<and> parked self ?c4"
      using enter_own [OF k3 en [unfolded that(1)]] by simp
    with serves [of w2 ?c4] o5 show ?thesis by (auto simp: others_def split: prod.splits)
  qed
  then show ?thesis
    using o1 a1 o2 sl o5
    by (cases q; cases r1) (auto simp: acquire_blocking_def split: prod.splits option.splits)
qed

end

section \<open>Threads that run into a shutdown\<close>

text \<open>Meanwhile another thread stops the pool: whoever is parked gets a null buffer.\<close>

definition stop_env :: interference where
  "stop_env n s = (case s of (w, c) \<Rightarrow> (w, c\<lparr>mp_data_pool :=
     (case stop_waiters (mp_data_pool c) of Some p \<Rightarrow> p | None \<Rightarrow> mp_data_pool c)\<rparr>))"

lemma chain_unique: "chain nd h ws \<Longrightarrow> chain nd h vs \<Longrightarrow> ws = vs"
proof (induction ws arbitrary: h vs)
  case Nil
  then show ?case using chain_head by auto
next
  case (Cons w ws)
  then show ?case by (cases vs) auto
qed

lemma wait_queue_unique: "wait_queue p ws \<Longrightarrow> wait_queue p vs \<Longrightarrow> ws = vs"
  using chain_unique by (auto simp: wait_queue_def)

lemma stop_env_facts:
  assumes "own_bufs ty h w c" and "stop_env n (w, c) = (w', c')"
  shows "own_inv ty self h w' c' \<and> evolves xxh w c w' c'"
    and "parked self c \<Longrightarrow> fst (acquire_wait_resume self (mp_data_pool c')) = Some None"
proof -
  let ?p = "mp_data_pool c"
  have ok: "core_ok c" using assms(1) by (simp add: own_bufs_def wr_inv_def)
  then obtain ws where q: "pool_wf ?p" "wait_queue ?p ws" "on_shards ?p ws"
    by (auto simp: core_ok_def pool_ok_def)
  have sh: "\<forall>w \<in> set ws. wt_cv (wt_node ?p w) < 64" using q(3) by (simp add: on_shards_def)
  obtain p where p: "stop_waiters ?p = Some p" by (rule stop_waiters_spec [OF q(1,2) sh])
  note f = stop_waiters_facts [OF q(1,2) sh p]
  have e: "w' = w" "c' = c\<lparr>mp_data_pool := p\<rparr>" using assms(2) p by (auto simp: stop_env_def)
  have "core_ok c'" using ok f(1,3) stop_waiters_size [OF p]
    by (auto simp: core_ok_def pool_ok_def on_shards_def e intro!: exI [of _ "[]"])
  moreover have "vs = []" if "wait_queue p vs" for vs using wait_queue_unique [OF f(1) that] by simp
  then have "may_wait self c'" by (force simp: may_wait_def e)
  moreover have "core_static c' = core_static c" "co_mem c' = co_mem c" "owned (mp_data_pool c') = owned ?p"
    using f(4) by (simp_all add: e)
  moreover have "h \<subseteq> owned ?p" using assms(1) by (simp add: own_bufs_def)
  ultimately show "own_inv ty self h w' c' \<and> evolves xxh w c w' c'"
    using own_bufs_pool [OF assms(1), of c' h] by (auto simp: own_inv_def e(1))
  assume "parked self c"
  then have s: "self \<in> set ws" using wait_queue_unique [OF q(2)] by (auto simp: parked_def)
  from f(8) [OF s] fun_cong [OF f(9), of self] s
  show "fst (acquire_wait_resume self (mp_data_pool c')) = Some None"
    by (simp add: acquire_wait_resume_def e served_def)
qed

interpretation stopping: others_serve xxh ty self stop_env for xxh ty self
proof unfold_locales
  fix h w c n w' c'
  assume "own_inv ty self h w c" "stop_env n (w, c) = (w', c')"
  then show "own_inv ty self h w' c' \<and> evolves xxh w c w' c'"
    using stop_env_facts(1) by (auto simp: own_inv_def)
next
  fix w c n w' c' r
  assume a: "own_bufs ty {} w c" "parked self c" "stop_env n (w, c) = (w', c')"
  note f = stop_env_facts [OF a(1,3), of self]
  show "fst (acquire_wait_resume self (mp_data_pool c')) \<noteq> None" using f(2) [OF a(2)] by simp
  assume "fst (acquire_wait_resume self (mp_data_pool c')) = Some r"
  with f a(2) show "own_inv ty self (set_option r) w' c' \<and> evolves xxh w c w' c'" by auto
qed

section \<open>A new core and a new writer\<close>

lemma new_own:
  assumes "pool_start p" and "mz_buffer_size p = word_of_nat mz_data_buffer_size"
  shows "own_inv ty self {} (tls_writer_create True t k) (core_new p)" and "catalog xxh (core_new p)"
proof -
  have p: "pool_wf p" "wait_queue p []" using assms(1) by (auto simp: pool_start_def)
  have "vs = []" if "wait_queue p vs" for vs using wait_queue_unique [OF p(2) that] by simp
  then have "may_wait self (core_new p)" by (force simp: may_wait_def core_new_def)
  moreover have "pool_ok p" using p by (auto simp: pool_ok_def on_shards_def)
  ultimately show "own_inv ty self {} (tls_writer_create True t k) (core_new p)"
    using assms(2) by (simp add: own_inv_def own_bufs_def wr_inv_def svc_inv_def svc_addrs_def core_ok_def
        cache_ok_def bufs_def core_new_def tls_writer_create_def)
  have "names_of kind (core_new p) = {}" for kind by (cases kind) (simp_all add: core_new_def)
  then show "catalog xxh (core_new p)" by (simp add: catalog_def) (simp add: core_new_def)
qed

text \<open>The pool the examples use: 8 KB buffers and room for four of them.\<close>

definition ex_pool :: buffer_pool where
  "ex_pool = pool_create 8192 (Some \<lparr>mu_used = 0, mz_max = 32768\<rparr>) (\<lambda>_. False)"

lemma ex_pool_start: "pool_start ex_pool" "mz_buffer_size ex_pool = word_of_nat mz_data_buffer_size"
  using pool_create_start [of 8192 "Some 32768" "\<lambda>_. False"] by (simp_all add: ex_pool_def pool_create_def)

lemmas ex_own = new_own [OF ex_pool_start]

end
