(* ===== verification/P8_Format.thy ===== *)
theory P8_Format
  imports P8_Protocol
begin

text \<open>
  The printf format scanner of engine/p8_log.cpp: \<open>gs_prefixes\<close>, \<open>find_prefix\<close> and
  \<open>parse_format_string\<close>, which derives the types of a log call's variable arguments from its
  format. The reference it is checked against is the grammar of conversion specifications
  (\<open>fmt_item\<close>, \<open>render\<close>): scanning the text of any sequence of items yields exactly the
  arguments the items consume, in order, up to the capacity of the result.

  The build is the 64-bit Linux one: \<open>long\<close>, \<open>size_t\<close> and pointers have 8 bytes, \<open>wchar_t\<close>
  has 4 and \<open>long double\<close> 16.
\<close>

section \<open>Length modifiers\<close>

datatype e_prefix_type = e_prefix_i64 | e_prefix_i32 | e_prefix_ll | e_prefix_l | e_prefix_hh
  | e_prefix_h | e_prefix_i | e_prefix_w | e_prefix_j | e_prefix_upper_l | e_prefix_unknown

record s_prefix_desc =
  mp_prefix :: cstr
  mu_len :: nat
  me_type :: e_prefix_type

definition prefix_desc :: "string \<Rightarrow> e_prefix_type \<Rightarrow> s_prefix_desc" where
  "prefix_desc s t = \<lparr>mp_prefix = bytes_of s, mu_len = length s, me_type = t\<rparr>"

definition gs_prefixes :: "s_prefix_desc list" where
  "gs_prefixes =
     [prefix_desc ''I64'' e_prefix_i64, prefix_desc ''I32'' e_prefix_i32,
      prefix_desc ''ll'' e_prefix_ll, prefix_desc ''hh'' e_prefix_hh,
      prefix_desc ''h'' e_prefix_h, prefix_desc ''l'' e_prefix_l,
      prefix_desc ''L'' e_prefix_upper_l, prefix_desc ''I'' e_prefix_i,
      prefix_desc ''z'' e_prefix_i, prefix_desc ''t'' e_prefix_i,
      prefix_desc ''w'' e_prefix_w, prefix_desc ''j'' e_prefix_j]"

text \<open>\<open>strncmp(ip_fmt, mp_prefix, mu_len) == 0\<close>: the first \<open>mu_len\<close> bytes agree.\<close>

definition find_prefix :: "cstr \<Rightarrow> s_prefix_desc option" where
  "find_prefix ip_fmt = find (\<lambda>d. take (mu_len d) ip_fmt = mp_prefix d) gs_prefixes"

section \<open>Arguments\<close>

text \<open>\<open>P8_SIZE_OF_ARG\<close> of a type of \<open>n\<close> bytes.\<close>

definition P8_SIZE_OF_ARG :: "nat \<Rightarrow> byte" where
  "P8_SIZE_OF_ARG n = word_of_nat (align_up_8 n)"

definition varg :: "byte \<Rightarrow> byte \<Rightarrow> s_p8_log_varg" where
  "varg ty sz = \<lparr>va_mu_type = ty, va_mu_size = sz\<rparr>"

definition int_arg :: "e_prefix_type \<Rightarrow> s_p8_log_varg" where
  "int_arg le_prefix = (case le_prefix of
     e_prefix_unknown \<Rightarrow> varg P8_LOG_ARG_TYPE_INT32 (P8_SIZE_OF_ARG 4)
   | e_prefix_ll \<Rightarrow> varg P8_LOG_ARG_TYPE_INT64 (P8_SIZE_OF_ARG 8)
   | e_prefix_i64 \<Rightarrow> varg P8_LOG_ARG_TYPE_INT64 (P8_SIZE_OF_ARG 8)
   | e_prefix_h \<Rightarrow> varg P8_LOG_ARG_TYPE_INT16 (P8_SIZE_OF_ARG 2)
   | e_prefix_hh \<Rightarrow> varg P8_LOG_ARG_TYPE_INT8 (P8_SIZE_OF_ARG 1)
   | e_prefix_l \<Rightarrow> varg P8_LOG_ARG_TYPE_INT64 (P8_SIZE_OF_ARG 8)
   | e_prefix_i32 \<Rightarrow> varg P8_LOG_ARG_TYPE_INT32 (P8_SIZE_OF_ARG 4)
   | e_prefix_i \<Rightarrow> varg P8_LOG_ARG_TYPE_INT64 (P8_SIZE_OF_ARG 8)
   | e_prefix_j \<Rightarrow> varg P8_LOG_ARG_TYPE_INTMAX (P8_SIZE_OF_ARG 8)
   | _ \<Rightarrow> varg P8_LOG_ARG_TYPE_INT32 (P8_SIZE_OF_ARG 4))"

definition str_arg :: "byte \<Rightarrow> e_prefix_type \<Rightarrow> byte \<Rightarrow> s_p8_log_varg" where
  "str_arg c le_prefix lu_has_width =
     (if le_prefix = e_prefix_h then varg P8_LOG_ARG_TYPE_STRA lu_has_width
      else if c = of_char CHR ''S'' then varg P8_LOG_ARG_TYPE_USTR32 lu_has_width
      else if le_prefix = e_prefix_l then varg P8_LOG_ARG_TYPE_USTR32 lu_has_width
      else varg P8_LOG_ARG_TYPE_USTR8 lu_has_width)"

definition float_arg :: "e_prefix_type \<Rightarrow> s_p8_log_varg" where
  "float_arg le_prefix =
     (if le_prefix = e_prefix_upper_l then varg P8_LOG_ARG_TYPE_LDOUBLE (P8_SIZE_OF_ARG 16)
      else varg P8_LOG_ARG_TYPE_DOUBLE (P8_SIZE_OF_ARG 8))"

definition char_arg :: "e_prefix_type \<Rightarrow> s_p8_log_varg" where
  "char_arg le_prefix =
     (if le_prefix = e_prefix_h then varg P8_LOG_ARG_TYPE_CHAR (P8_SIZE_OF_ARG 1)
      else if le_prefix = e_prefix_l then varg P8_LOG_ARG_TYPE_CHAR32 (P8_SIZE_OF_ARG 4)
      else varg P8_LOG_ARG_TYPE_CHAR (P8_SIZE_OF_ARG 1))"

text \<open>The conversions that take an argument and end the specification; \<open>None\<close> for the other
  characters of the switch.\<close>

definition conversion :: "byte \<Rightarrow> e_prefix_type \<Rightarrow> byte \<Rightarrow> s_p8_log_varg option" where
  "conversion c le_prefix lu_has_width =
     (if c \<in> set (bytes_of ''diouxXbB'') then Some (int_arg le_prefix)
      else if c \<in> set (bytes_of ''sS'') then Some (str_arg c le_prefix lu_has_width)
      else if c = of_char CHR ''p'' then Some (varg P8_LOG_ARG_TYPE_PVOID (P8_SIZE_OF_ARG 8))
      else if c \<in> set (bytes_of ''eEfFgGaA'') then Some (float_arg le_prefix)
      else if c \<in> set (bytes_of ''cC'') then Some (char_arg le_prefix)
      else None)"

section \<open>The scanner\<close>

text \<open>\<open>lu_has_width\<close> after the switch: a digit at \<open>lp_iter\<close> inside a specification.\<close>

definition width_flag :: "byte \<Rightarrow> byte \<Rightarrow> byte" where
  "width_flag c lu_has_width = (if 48 \<le> c \<and> c \<le> 57 then 1 else lu_has_width)"

text \<open>The loop of \<open>parse_format_string\<close>; \<open>args\<close> are the entries of \<open>op_args\<close> filled so far.\<close>

function parse_loop ::
    "nat \<Rightarrow> s_p8_log_varg list \<Rightarrow> bool \<Rightarrow> e_prefix_type \<Rightarrow> byte \<Rightarrow> cstr \<Rightarrow> s_p8_log_varg list" where
  "parse_loop iz_args_max args lb_percent le_prefix lu_has_width [] = args"
| "parse_loop iz_args_max args lb_percent le_prefix lu_has_width (c # cs) =
     (if \<not> lb_percent then
        if c = of_char CHR ''%'' then parse_loop iz_args_max args True e_prefix_unknown 0 cs
        else parse_loop iz_args_max args False le_prefix lu_has_width cs
      else if c = of_char CHR ''*'' then
        if length args \<ge> iz_args_max then args
        else parse_loop iz_args_max (args @ [varg P8_LOG_ARG_TYPE_INT32 (P8_SIZE_OF_ARG 4)])
               True le_prefix 1 cs
      else if c \<in> set (bytes_of ''IlhwzjtL'') then
        case find_prefix (c # cs) of
          None \<Rightarrow> parse_loop iz_args_max args True le_prefix (width_flag c lu_has_width) cs
        | Some d \<Rightarrow> parse_loop iz_args_max args True (me_type d)
            (width_flag ((c # cs) ! (mu_len d - 1)) lu_has_width) (drop (mu_len d - 1) cs)
      else case conversion c le_prefix lu_has_width of
        Some a \<Rightarrow>
          if length args \<ge> iz_args_max then args
          else parse_loop iz_args_max (args @ [a]) False le_prefix lu_has_width cs
      | None \<Rightarrow>
          if c = of_char CHR ''%'' then parse_loop iz_args_max args False le_prefix lu_has_width cs
          else parse_loop iz_args_max args True le_prefix (width_flag c lu_has_width) cs)"
  by pat_completeness auto
termination
  by (relation "measure (\<lambda>(_, _, _, _, _, cs). length cs)") auto

text \<open>\<open>parse_format_string\<close>: \<open>op_args\<close> says whether the array pointer is non-null; the result
  is the filled part of the array, its length the returned count.\<close>

definition parse_format_string :: "bool \<Rightarrow> nat \<Rightarrow> cstr option \<Rightarrow> s_p8_log_varg list" where
  "parse_format_string op_args iz_args_max ip_format = (case ip_format of
     None \<Rightarrow> []
   | Some s \<Rightarrow> if \<not> op_args \<or> iz_args_max = 0 then []
       else parse_loop iz_args_max [] False e_prefix_unknown 0 s)"

section \<open>Bounds\<close>

lemma parse_loop_length:
  "length args \<le> iz_args_max \<Longrightarrow> length (parse_loop iz_args_max args pc pf w cs) \<le> iz_args_max"
  by (induction iz_args_max args pc pf w cs rule: parse_loop.induct)
    (auto split: option.splits)

text \<open>Outside a specification the prefix and the width flag are dead.\<close>

lemma parse_loop_text:
  "parse_loop n args False pf w cs = parse_loop n args False e_prefix_unknown 0 cs"
  by (induction cs) (auto simp del: of_char_Char)

section \<open>Conversion specifications\<close>

datatype len_mod = Len_none | Len_h | Len_hh | Len_l | Len_ll | Len_upper_L | Len_z | Len_t | Len_j
  | Len_I | Len_I64 | Len_I32 | Len_w

fun len_text :: "len_mod \<Rightarrow> string" where
  "len_text Len_none = []" | "len_text Len_h = ''h''" | "len_text Len_hh = ''hh''"
| "len_text Len_l = ''l''" | "len_text Len_ll = ''ll''" | "len_text Len_upper_L = ''L''"
| "len_text Len_z = ''z''" | "len_text Len_t = ''t''" | "len_text Len_j = ''j''"
| "len_text Len_I = ''I''" | "len_text Len_I64 = ''I64''" | "len_text Len_I32 = ''I32''"
| "len_text Len_w = ''w''"

text \<open>The bytes of an integer argument with this modifier, as the code and its type code.\<close>

fun int_type :: "len_mod \<Rightarrow> byte" where
  "int_type Len_h = P8_LOG_ARG_TYPE_INT16" | "int_type Len_hh = P8_LOG_ARG_TYPE_INT8"
| "int_type Len_l = P8_LOG_ARG_TYPE_INT64" | "int_type Len_ll = P8_LOG_ARG_TYPE_INT64"
| "int_type Len_I64 = P8_LOG_ARG_TYPE_INT64" | "int_type Len_z = P8_LOG_ARG_TYPE_INT64"
| "int_type Len_t = P8_LOG_ARG_TYPE_INT64" | "int_type Len_I = P8_LOG_ARG_TYPE_INT64"
| "int_type Len_j = P8_LOG_ARG_TYPE_INTMAX" | "int_type _ = P8_LOG_ARG_TYPE_INT32"

datatype conv = Conv_int char | Conv_str char | Conv_ptr | Conv_float char | Conv_char char

fun conv_char :: "conv \<Rightarrow> char" where
  "conv_char (Conv_int c) = c" | "conv_char (Conv_str c) = c" | "conv_char Conv_ptr = CHR ''p''"
| "conv_char (Conv_float c) = c" | "conv_char (Conv_char c) = c"

fun conv_ok :: "conv \<Rightarrow> bool" where
  "conv_ok (Conv_int c) \<longleftrightarrow> c \<in> set ''diouxXbB''" | "conv_ok (Conv_str c) \<longleftrightarrow> c \<in> set ''sS''"
| "conv_ok Conv_ptr \<longleftrightarrow> True" | "conv_ok (Conv_float c) \<longleftrightarrow> c \<in> set ''eEfFgGaA''"
| "conv_ok (Conv_char c) \<longleftrightarrow> c \<in> set ''cC''"

text \<open>What a conversion consumes. Numbers, pointers and characters are 8-byte slots, a
  \<open>long double\<close> 16; for a string the size is the flag "has a width or a precision".\<close>

fun conv_arg :: "len_mod \<Rightarrow> bool \<Rightarrow> conv \<Rightarrow> s_p8_log_varg" where
  "conv_arg m w (Conv_int _) = varg (int_type m) 8"
| "conv_arg m w (Conv_str c) = varg
     (if m = Len_h then P8_LOG_ARG_TYPE_STRA
      else if m = Len_l \<or> c = CHR ''S'' then P8_LOG_ARG_TYPE_USTR32
      else P8_LOG_ARG_TYPE_USTR8) (if w then 1 else 0)"
| "conv_arg m w Conv_ptr = varg P8_LOG_ARG_TYPE_PVOID 8"
| "conv_arg m w (Conv_float _) =
     (if m = Len_upper_L then varg P8_LOG_ARG_TYPE_LDOUBLE 16 else varg P8_LOG_ARG_TYPE_DOUBLE 8)"
| "conv_arg m w (Conv_char _) =
     varg (if m = Len_l then P8_LOG_ARG_TYPE_CHAR32 else P8_LOG_ARG_TYPE_CHAR) 8"

text \<open>Flags, width and precision, as one list of marks in any order.\<close>

datatype mark = Flag char | Digit char | Star

fun mark_ok :: "mark \<Rightarrow> bool" where
  "mark_ok (Flag c) \<longleftrightarrow> c \<in> set ''-+ #.''" | "mark_ok (Digit c) \<longleftrightarrow> c \<in> set ''0123456789''"
| "mark_ok Star \<longleftrightarrow> True"

fun mark_char :: "mark \<Rightarrow> char" where
  "mark_char (Flag c) = c" | "mark_char (Digit c) = c" | "mark_char Star = CHR ''*''"

fun mark_args :: "mark \<Rightarrow> s_p8_log_varg list" where
  "mark_args Star = [varg P8_LOG_ARG_TYPE_INT32 8]" | "mark_args _ = []"

fun mark_width :: "mark \<Rightarrow> bool" where
  "mark_width (Flag _) = False" | "mark_width _ = True"

datatype fmt_item = Text string | Percent | Spec "mark list" len_mod conv

fun item_ok :: "fmt_item \<Rightarrow> bool" where
  "item_ok (Text s) \<longleftrightarrow> CHR ''%'' \<notin> set s" | "item_ok Percent \<longleftrightarrow> True"
| "item_ok (Spec ms m c) \<longleftrightarrow> list_all mark_ok ms \<and> conv_ok c"

fun render_item :: "fmt_item \<Rightarrow> string" where
  "render_item (Text s) = s" | "render_item Percent = ''%%''"
| "render_item (Spec ms m c) = ''%'' @ map mark_char ms @ len_text m @ [conv_char c]"

fun item_args :: "fmt_item \<Rightarrow> s_p8_log_varg list" where
  "item_args (Spec ms m c) =
     concat (map mark_args ms) @ [conv_arg m (list_ex mark_width ms \<or> m = Len_I64 \<or> m = Len_I32) c]"
| "item_args _ = []"

section \<open>Scanning a specification\<close>

declare parse_loop.simps(2) [simp del]

lemma size_of_arg [simp]:
  "P8_SIZE_OF_ARG 1 = 8" "P8_SIZE_OF_ARG 2 = 8" "P8_SIZE_OF_ARG 4 = 8" "P8_SIZE_OF_ARG 8 = 8"
  "P8_SIZE_OF_ARG 16 = 16"
  by (simp_all add: P8_SIZE_OF_ARG_def align_up_8_def)

lemma size_of_arg_Suc [simp]: "P8_SIZE_OF_ARG (Suc 0) = 8"
  using size_of_arg(1) by simp

text \<open>Reasoning about characters rather than bytes.\<close>

lemma unat_of_char: "unat (of_char c :: byte) = of_char c"
proof -
  have "(of_char c :: byte) = word_of_nat (of_char c)" by (simp add: of_nat_of_char)
  then show ?thesis by (simp add: unat_of_nat)
qed

lemma byte_char_eq: "(of_char c :: byte) = of_char d \<longleftrightarrow> c = d"
  by (metis unat_of_char of_char_eq_iff)

lemma in_bytes: "(of_char c :: byte) \<in> set (bytes_of s) \<longleftrightarrow> c \<in> set s"
  by (auto simp: bytes_of_def byte_char_eq)

lemma width_flag_char: "width_flag (of_char c) w = (if c \<in> set ''0123456789'' then 1 else w)"
proof -
  have "48 \<le> (of_char c :: byte) \<and> (of_char c :: byte) \<le> 57 \<longleftrightarrow> (of_char c :: nat) \<in> {48..57}"
    by (simp add: word_le_nat_alt unat_of_char)
  moreover have "{48..57::nat} = of_char ` set ''0123456789''"
    by (auto simp: atLeastAtMost_upt upt_rec)
  moreover have "(of_char c :: nat) \<in> of_char ` set ''0123456789'' \<longleftrightarrow> c \<in> set ''0123456789''"
    by (intro inj_image_mem_iff) (simp add: inj_on_def)
  ultimately show ?thesis by (simp only: width_flag_def)
qed

text \<open>One step of the scanner, by the class of the character.\<close>

lemma loop_skip: "c \<noteq> CHR ''%'' \<Longrightarrow>
   parse_loop n args False pf w (of_char c # cs) = parse_loop n args False pf w cs"
  by (simp add: parse_loop.simps(2) byte_char_eq del: of_char_Char)

lemma loop_open: "parse_loop n args False pf w (of_char CHR ''%'' # cs)
     = parse_loop n args True e_prefix_unknown 0 cs"
  by (simp add: parse_loop.simps(2))

lemma loop_star: "parse_loop n args True pf w (of_char CHR ''*'' # cs) =
    (if n \<le> length args then args
     else parse_loop n (args @ [varg P8_LOG_ARG_TYPE_INT32 8]) True pf 1 cs)"
  by (simp add: parse_loop.simps(2))

lemma loop_len:
  assumes "c \<in> set ''IlhwzjtL''" and "find_prefix (of_char c # cs) = Some d"
  shows "parse_loop n args True pf w (of_char c # cs) = parse_loop n args True (me_type d)
    (width_flag ((of_char c # cs) ! (mu_len d - 1)) w) (drop (mu_len d - 1) cs)"
proof -
  have "c \<noteq> CHR ''*''" using assms(1) by auto
  with assms show ?thesis
    by (simp only: parse_loop.simps(2) byte_char_eq in_bytes option.case if_True if_False not_True_eq_False)
qed

lemma loop_conv:
  assumes "c \<notin> set ''*IlhwzjtL''" and "conversion (of_char c) pf w = Some a"
  shows "parse_loop n args True pf w (of_char c # cs) =
    (if n \<le> length args then args else parse_loop n (args @ [a]) False pf w cs)"
proof -
  have "c \<noteq> CHR ''*''" "c \<notin> set ''IlhwzjtL''" using assms(1) by simp_all
  with assms(2) show ?thesis
    by (simp only: parse_loop.simps(2) byte_char_eq in_bytes option.case if_True if_False not_True_eq_False)
qed

lemma loop_other:
  assumes "c \<notin> set ''*IlhwzjtLdiouxXbBsSpeEfFgGaAcC''"
  shows "parse_loop n args True pf w (of_char c # cs) =
    (if c = CHR ''%'' then parse_loop n args False pf w cs
     else parse_loop n args True pf (width_flag (of_char c) w) cs)"
proof -
  have "c \<noteq> CHR ''*''" "c \<notin> set ''IlhwzjtL''" "c \<notin> set ''diouxXbB''" "c \<notin> set ''sS''" "c \<noteq> CHR ''p''"
    "c \<notin> set ''eEfFgGaA''" "c \<notin> set ''cC''" using assms by simp_all
  then show ?thesis
    by (simp only: parse_loop.simps(2) conversion_def byte_char_eq in_bytes option.case if_True if_False not_True_eq_False)
qed

lemma scan_mark:
  assumes "mark_ok m"
  shows "parse_loop n args True pf w (of_char (mark_char m) # cs) =
    (if m = Star \<and> n \<le> length args then args
     else parse_loop n (args @ mark_args m) True pf (if mark_width m then 1 else w) cs)"
proof (cases m)
  case Star
  then show ?thesis by (simp add: loop_star del: of_char_Char)
next
  case (Flag c)
  then have "c \<notin> set ''*IlhwzjtLdiouxXbBsSpeEfFgGaAcC''" "c \<noteq> CHR ''%''" "c \<notin> set ''0123456789''"
    using assms by auto
  then show ?thesis using loop_other [of c n args pf w cs] Flag by (simp only: width_flag_char) simp
next
  case (Digit c)
  then have "c \<notin> set ''*IlhwzjtLdiouxXbBsSpeEfFgGaAcC''" "c \<noteq> CHR ''%''" "c \<in> set ''0123456789''"
    using assms by auto
  then show ?thesis using loop_other [of c n args pf w cs] Digit by (simp only: width_flag_char) simp
qed

lemma scan_marks:
  "list_all mark_ok ms \<Longrightarrow> length args \<le> n \<Longrightarrow>
   parse_loop n args True pf w (map (of_char \<circ> mark_char) ms @ cs) =
    (if n < length (args @ concat (map mark_args ms)) then take n (args @ concat (map mark_args ms))
     else parse_loop n (args @ concat (map mark_args ms)) True pf
       (if list_ex mark_width ms then 1 else w) cs)"
proof (induction ms arbitrary: args w)
  case Nil
  then show ?case by simp
next
  case (Cons m ms)
  have ok: "mark_ok m" "list_all mark_ok ms" using Cons.prems by auto
  show ?case
  proof (cases "m = Star \<and> n \<le> length args")
    case True
    with Cons.prems show ?thesis using scan_mark [OF ok(1)] by simp
  next
    case False
    then have len: "length (args @ mark_args m) \<le> n" using Cons.prems by (cases m) auto
    from Cons.IH [OF ok(2) len] scan_mark [OF ok(1)] False show ?thesis by auto
  qed
qed

text \<open>The prefix a modifier leaves; \<open>len_prefix Len_none\<close> is the state before one.\<close>

fun len_prefix :: "len_mod \<Rightarrow> e_prefix_type" where
  "len_prefix Len_none = e_prefix_unknown" | "len_prefix Len_h = e_prefix_h"
| "len_prefix Len_hh = e_prefix_hh" | "len_prefix Len_l = e_prefix_l"
| "len_prefix Len_ll = e_prefix_ll" | "len_prefix Len_upper_L = e_prefix_upper_l"
| "len_prefix Len_z = e_prefix_i" | "len_prefix Len_t = e_prefix_i"
| "len_prefix Len_j = e_prefix_j" | "len_prefix Len_I = e_prefix_i"
| "len_prefix Len_I64 = e_prefix_i64" | "len_prefix Len_I32 = e_prefix_i32"
| "len_prefix Len_w = e_prefix_w"

lemma find_prefix_char:
  assumes "c \<notin> set ''hl63''"
  shows "find_prefix (bytes_of (len_text m) @ of_char c # cs) =
    (if m = Len_none then find_prefix (of_char c # cs) else Some (prefix_desc (len_text m) (len_prefix m)))"
proof -
  have "c \<noteq> CHR ''h''" "c \<noteq> CHR ''l''" "c \<noteq> CHR ''6''" "c \<noteq> CHR ''3''" using assms by simp_all
  then show ?thesis
    by (cases m) (simp_all add: find_prefix_def gs_prefixes_def prefix_desc_def bytes_of_def byte_char_eq del: of_char_Char)
qed

lemma scan_len:
  assumes "c \<notin> set ''hl63''"
  shows "parse_loop n args True e_prefix_unknown w (bytes_of (len_text m) @ of_char c # cs) =
    parse_loop n args True (len_prefix m) (if m = Len_I64 \<or> m = Len_I32 then 1 else w) (of_char c # cs)"
proof (cases "m = Len_none")
  case True
  then show ?thesis by (simp add: bytes_of_def)
next
  case False
  obtain d ds where d: "len_text m = d # ds" "d \<in> set ''IlhwzjtL''"
    using False by (cases m) auto
  have fp: "find_prefix (of_char d # bytes_of ds @ of_char c # cs) = Some (prefix_desc (d # ds) (len_prefix m))"
    using find_prefix_char [OF assms, of m cs] False d(1) by (simp add: bytes_of_def)
  have "((of_char d :: byte) # bytes_of ds @ of_char c # cs) ! length ds = of_char (last (d # ds))"
    by (simp add: bytes_of_def nth_append nth_Cons' last_conv_nth)
  moreover have "last (len_text m) \<in> set ''0123456789'' \<longleftrightarrow> m = Len_I64 \<or> m = Len_I32"
    using False by (cases m) auto
  ultimately show ?thesis
    using loop_len [OF d(2) fp] d(1) width_flag_char [of "last (d # ds)" w]
    by (simp add: prefix_desc_def bytes_of_def del: set_simps)
qed

lemma conv_char_not: "conv_ok c \<Longrightarrow> conv_char c \<notin> set ''*IlhwzjtL'' \<and> conv_char c \<notin> set ''hl63''"
  by (cases c) auto

lemma int_arg_type: "int_arg (len_prefix m) = varg (int_type m) 8"
  by (cases m) (simp_all add: int_arg_def)

lemma conversion_arg:
  assumes "conv_ok c"
  shows "conversion (of_char (conv_char c)) (len_prefix m) (if w then 1 else 0) = Some (conv_arg m w c)"
proof -
  have pf: "len_prefix m = e_prefix_h \<longleftrightarrow> m = Len_h" "len_prefix m = e_prefix_l \<longleftrightarrow> m = Len_l"
    "len_prefix m = e_prefix_upper_l \<longleftrightarrow> m = Len_upper_L"
    by (cases m; simp)+
  show ?thesis
  proof (cases c)
    case (Conv_int d)
    with assms show ?thesis by (simp only: conversion_def in_bytes conv_char.simps conv_ok.simps int_arg_type conv_arg.simps if_True)
  next
    case (Conv_str d)
    with assms have "d \<notin> set ''diouxXbB''" "d \<in> set ''sS''" by auto
    with Conv_str show ?thesis
      by (simp only: conversion_def in_bytes conv_char.simps if_True if_False str_arg_def byte_char_eq pf conv_arg.simps) simp
  next
    case Conv_ptr
    have "CHR ''p'' \<notin> set ''diouxXbB''" "CHR ''p'' \<notin> set ''sS''" by simp_all
    with Conv_ptr show ?thesis
      by (simp only: conversion_def in_bytes conv_char.simps if_True if_False conv_arg.simps size_of_arg refl)
  next
    case (Conv_float d)
    with assms have "d \<notin> set ''diouxXbB''" "d \<notin> set ''sS''" "d \<noteq> CHR ''p''" "d \<in> set ''eEfFgGaA''" by auto
    with Conv_float show ?thesis
      by (simp only: conversion_def in_bytes conv_char.simps if_True if_False float_arg_def byte_char_eq pf conv_arg.simps) simp
  next
    case (Conv_char d)
    with assms have "d \<notin> set ''diouxXbB''" "d \<notin> set ''sS''" "d \<noteq> CHR ''p''" "d \<notin> set ''eEfFgGaA''" "d \<in> set ''cC''" by auto
    with Conv_char show ?thesis
      by (simp only: conversion_def in_bytes conv_char.simps if_True if_False char_arg_def byte_char_eq pf conv_arg.simps) simp
  qed
qed

lemma scan_conv:
  assumes "conv_ok c"
  shows "parse_loop n args True (len_prefix m) (if w then 1 else 0) (of_char (conv_char c) # cs) =
    (if n \<le> length args then args
     else parse_loop n (args @ [conv_arg m w c]) False e_prefix_unknown 0 cs)"
  using loop_conv [OF conjunct1 [OF conv_char_not [OF assms]] conversion_arg [OF assms, of m w]]
  by (simp only: parse_loop_text [of n _ "len_prefix m"])

lemma scan_item:
  assumes "item_ok it" and "length args \<le> n"
  shows "parse_loop n args False e_prefix_unknown 0 (bytes_of (render_item it) @ cs) =
    (if n < length (args @ item_args it) then take n (args @ item_args it)
     else parse_loop n (args @ item_args it) False e_prefix_unknown 0 cs)"
proof (cases it)
  case (Text s)
  have "CHR ''%'' \<notin> set s \<Longrightarrow> parse_loop n args False e_prefix_unknown 0 (bytes_of s @ cs)
      = parse_loop n args False e_prefix_unknown 0 cs" for s
  proof (induction s)
    case (Cons c s)
    then have "c \<noteq> CHR ''%''" by auto
    with Cons show ?case by (simp add: bytes_of_def loop_skip)
  qed (simp add: bytes_of_def)
  with Text assms show ?thesis by simp
next
  case Percent
  have "parse_loop n args True e_prefix_unknown 0 (of_char CHR ''%'' # cs)
      = parse_loop n args False e_prefix_unknown 0 cs"
    by (subst loop_other) simp_all
  with Percent assms show ?thesis by (simp add: bytes_of_def loop_open del: of_char_Char)
next
  case (Spec ms m c)
  then have ok: "list_all mark_ok ms" "conv_ok c" using assms by auto
  let ?A = "args @ concat (map mark_args ms)"
  let ?w = "list_ex mark_width ms"
  have "parse_loop n args False e_prefix_unknown 0 (bytes_of (render_item it) @ cs) =
     parse_loop n args True e_prefix_unknown 0
       (map (of_char \<circ> mark_char) ms @ bytes_of (len_text m) @ of_char (conv_char c) # cs)"
    using Spec by (simp add: bytes_of_def loop_open del: of_char_Char)
  also have "\<dots> = (if n < length ?A then take n ?A
     else parse_loop n ?A True (len_prefix m) (if ?w \<or> m = Len_I64 \<or> m = Len_I32 then 1 else 0)
       (of_char (conv_char c) # cs))"
    using scan_len conv_char_not [OF ok(2)] by (simp add: scan_marks [OF ok(1) assms(2)] del: set_simps)
  also have "\<dots> = (if n < length (?A @ [conv_arg m (?w \<or> m = Len_I64 \<or> m = Len_I32) c])
      then take n (?A @ [conv_arg m (?w \<or> m = Len_I64 \<or> m = Len_I32) c])
      else parse_loop n (?A @ [conv_arg m (?w \<or> m = Len_I64 \<or> m = Len_I32) c]) False e_prefix_unknown 0 cs)"
    by (auto simp: scan_conv [OF ok(2)])
  finally show ?thesis using Spec by simp
qed

lemma scan_items:
  "list_all item_ok its \<Longrightarrow> length args \<le> n \<Longrightarrow>
   parse_loop n args False e_prefix_unknown 0 (bytes_of (concat (map render_item its))) =
     take n (args @ concat (map item_args its))"
proof (induction its arbitrary: args)
  case Nil
  then show ?case by (simp add: bytes_of_def)
next
  case (Cons it its)
  have b: "parse_loop n args False e_prefix_unknown 0 (bytes_of (concat (map render_item (it # its))))
      = parse_loop n args False e_prefix_unknown 0
          (bytes_of (render_item it) @ bytes_of (concat (map render_item its)))"
    by (simp add: bytes_of_def)
  have ok: "item_ok it" "list_all item_ok its" using Cons.prems by auto
  show ?case
  proof (cases "n < length (args @ item_args it)")
    case True
    with scan_item [OF ok(1) Cons.prems(2)] show ?thesis by (simp only: b) simp
  next
    case False
    with scan_item [OF ok(1) Cons.prems(2)] Cons.IH [OF ok(2), of "args @ item_args it"]
    show ?thesis by (simp only: b) simp
  qed
qed

text \<open>
  C37 Format strings. For the text of any sequence of plain text, \<open>%%\<close> and conversion
  specifications, with any flags, width, precision (given or as \<open>*\<close>) and length modifier, the
  scanner returns the arguments the C library would take for it, in order, cut at the capacity.
\<close>

theorem parse_format_string_spec:
  assumes "list_all item_ok its"
  shows "parse_format_string True n (Some (bytes_of (concat (map render_item its))))
    = take n (concat (map item_args its))"
  using scan_items [OF assms, of "[]" n] by (auto simp: parse_format_string_def)

text \<open>\<open>"load %5.1f%% of %s at %p"\<close>.\<close>

lemma parse_format_string_spec_witness:
  "parse_format_string True 32 (Some (bytes_of (concat (map render_item
     [Text ''load '', Spec [Digit CHR ''5'', Flag CHR ''.'', Digit CHR ''1''] Len_none (Conv_float CHR ''f''),
      Percent, Text '' of '', Spec [] Len_none (Conv_str CHR ''s''), Text '' at '', Spec [] Len_none Conv_ptr]))))
   = [varg P8_LOG_ARG_TYPE_DOUBLE 8, varg P8_LOG_ARG_TYPE_USTR8 0, varg P8_LOG_ARG_TYPE_PVOID 8]"
  by (subst parse_format_string_spec) simp_all

end
