(* ===== verification/P8_Service.thy ===== *)
theory P8_Service
  imports P8_Threads P8_Format
begin

text \<open>
  Service entries of engine/p8_core.cpp: taking a service buffer (\<open>svc_acquire_new\<close>), room for
  an entry in it (\<open>svc_reserve\<close>), the entries themselves (\<open>serialize_*\<close>), and the descriptors
  that are known only once their entries are written (\<open>resolve_log_desc\<close>,
  \<open>resolve_trc_desc\<close>).

  The service mutex is released only inside \<open>svc_acquire_new\<close> when the caller passes its lock;
  \<open>svc_reserve\<close> is therefore a function of that step. The hashes of xxhash, code the
  repository includes, are parameters: \<open>xxh\<close> for \<open>XXH3_64bits\<close> and \<open>xxh_seed\<close> for
  \<open>XXH3_64bits_withSeed\<close>.
\<close>

section \<open>Room for an entry\<close>

abbreviation (input) sizeof_str_svc :: nat where "sizeof_str_svc \<equiv> 16"
abbreviation (input) sizeof_attr_svc :: nat where "sizeof_attr_svc \<equiv> 12"
abbreviation (input) sizeof_log_mod_svc :: nat where "sizeof_log_mod_svc \<equiv> 8"
abbreviation (input) sizeof_log_item_svc :: nat where "sizeof_log_item_svc \<equiv> 24"
abbreviation (input) sizeof_trc_item_svc :: nat where "sizeof_trc_item_svc \<equiv> 40"
abbreviation (input) sizeof_mtk_svc :: nat where "sizeof_mtk_svc \<equiv> 32"
abbreviation (input) P8_LOG_MAX_ARGS :: nat where "P8_LOG_MAX_ARGS \<equiv> 32"

text \<open>The second half of \<open>svc_acquire_new\<close>: a new last buffer, or a counted drop.\<close>

definition svc_take :: "addr option \<Rightarrow> core \<Rightarrow> bool \<times> core" where
  "svc_take lp_buf c = (case lp_buf of
     None \<Rightarrow> (False, c\<lparr>co_dropped := (co_dropped c)\<lparr>ds_svc := ds_svc (co_dropped c) + 1\<rparr>\<rparr>)
   | Some b \<Rightarrow> (True, c\<lparr>mo_svc_buffers := mo_svc_buffers c @ [\<lparr>sb_buf = b, sb_used = 0\<rparr>]\<rparr>))"

text \<open>\<open>svc_acquire_new(nullptr)\<close>: without waiting; there is no thread state to carry.\<close>

definition svc_acquire_now :: "unit \<times> core \<Rightarrow> (bool \<times> unit \<times> core) option" where
  "svc_acquire_now s = (case acquire_buffer (snd s) of (lp_buf, c1) \<Rightarrow>
     (case svc_take lp_buf c1 of (ok, c2) \<Rightarrow> Some (ok, (), c2)))"

text \<open>\<open>svc_acquire_new(&lock)\<close>: waits with the service mutex released.\<close>

definition svc_acquire_wait ::
    "interference \<Rightarrow> nat \<Rightarrow> tls_writer \<times> core \<Rightarrow> (bool \<times> tls_writer \<times> core) option" where
  "svc_acquire_wait env lo_self s = do {
     (lp_buf, w1, c1) \<leftarrow> acquire_blocking env lo_self (fst s) (snd s);
     (case svc_take lp_buf c1 of (ok, c2) \<Rightarrow> Some (ok, w1, c2))
   }"

definition svc_full :: "nat \<Rightarrow> core \<Rightarrow> bool" where
  "svc_full iz_padded c \<longleftrightarrow> 0 = length (mo_svc_buffers c)
     \<or> sb_used (last (mo_svc_buffers c)) + iz_padded > mz_data_buffer_size"

partial_function (option) svc_reserve_loop ::
    "('s \<times> core \<Rightarrow> (bool \<times> 's \<times> core) option) \<Rightarrow> nat \<Rightarrow> 's \<times> core \<Rightarrow> (bool \<times> 's \<times> core) option" where
  "svc_reserve_loop acq iz_padded s =
     (if svc_full iz_padded (snd s) then do {
        (ok, s1) \<leftarrow> acq s;
        if \<not> ok then Some (False, s1) else svc_reserve_loop acq iz_padded s1
      } else Some (True, s))"

text \<open>The claimed bytes are zeroed and the buffer's fill advances; the result is the entry's
  address: a buffer and an offset.\<close>

definition svc_claim :: "nat \<Rightarrow> core \<Rightarrow> (addr \<times> nat) \<times> core" where
  "svc_claim iz_padded c = (let lp_cur = last (mo_svc_buffers c);
       lp_dst = (sb_buf lp_cur, sb_used lp_cur)
     in (lp_dst, c\<lparr>co_mem := wr (co_mem c) (fst lp_dst) (snd lp_dst) (replicate iz_padded 0),
          mo_svc_buffers := butlast (mo_svc_buffers c) @ [lp_cur\<lparr>sb_used := sb_used lp_cur + iz_padded\<rparr>]\<rparr>))"

definition svc_reserve ::
    "('s \<times> core \<Rightarrow> (bool \<times> 's \<times> core) option) \<Rightarrow> nat \<Rightarrow> 's \<times> core \<Rightarrow> ((addr \<times> nat) option \<times> 's \<times> core) option" where
  "svc_reserve acq iz_padded s =
     (if iz_padded > mz_data_buffer_size then Some (None, s)
      else do {
        (ok, t, c1) \<leftarrow> svc_reserve_loop acq iz_padded s;
        if \<not> ok then Some (None, t, c1)
        else (case svc_claim iz_padded c1 of (lp_dst, c2) \<Rightarrow> Some (Some lp_dst, t, c2))
      })"

text \<open>Assignments to an entry's fields and \<open>memcpy\<close> into it, at offsets from its start.\<close>

definition svc_fill :: "(nat \<times> byte list) list \<Rightarrow> addr \<times> nat \<Rightarrow> core \<Rightarrow> core" where
  "svc_fill ws lp_dst c =
     c\<lparr>co_mem := fold (\<lambda>(o', bs) m. wr m (fst lp_dst) (snd lp_dst + o') bs) ws (co_mem c)\<rparr>"

text \<open>The fields of \<open>ms_hdr\<close>.\<close>

definition svc_hdr :: "byte \<Rightarrow> nat \<Rightarrow> nat \<times> byte list" where
  "svc_hdr ty lz_padded = (0, enc_svh \<lparr>svh_packet_type = P8_PACKET_SERVICE, svh_svc_type = ty,
     svh_size = word_of_nat lz_padded\<rparr>)"

section \<open>Entries that do not wait\<close>

definition svc_put_now :: "nat \<Rightarrow> (nat \<times> byte list) list \<Rightarrow> core \<Rightarrow> core option" where
  "svc_put_now lz_padded ws c = do {
     (lp_dst, _, c1) \<leftarrow> svc_reserve svc_acquire_now lz_padded ((), c);
     (case lp_dst of None \<Rightarrow> Some c1 | Some dst \<Rightarrow> Some (svc_fill ws dst c1))
   }"

definition serialize_attr_desc :: "s_p8_attr_desc \<Rightarrow> core \<Rightarrow> core option" where
  "serialize_attr_desc ip_desc c =
     (let lz_name = get_svc_str_len (Some (ad_name ip_desc));
          lz_padded = align_up_8 (sizeof_attr_svc + lz_name + 1)
      in svc_put_now lz_padded [svc_hdr P8_SVC_TYPE_ATTR lz_padded, (4, le32 (ad_id ip_desc)),
           (8, [attr_type_code (ad_type ip_desc)]),
           (sizeof_attr_svc, take lz_name (ad_name ip_desc)), (sizeof_attr_svc + lz_name, [0])] c)"

definition serialize_log_mod :: "s_p8_log_mod \<Rightarrow> core \<Rightarrow> core option" where
  "serialize_log_mod ip_mod c =
     (let lz_name = get_svc_str_len (Some (lm_name ip_mod));
          lz_padded = align_up_8 (sizeof_log_mod_svc + lz_name + 1)
      in svc_put_now lz_padded [svc_hdr P8_SVC_TYPE_MODULE lz_padded, (4, le16 (lm_id ip_mod)),
           (6, [word_of_nat (level_code (lm_verbosity ip_mod))]),
           (sizeof_log_mod_svc, take lz_name (lm_name ip_mod)), (sizeof_log_mod_svc + lz_name, [0])] c)"

definition serialize_mtk_desc :: "s_p8_mtk_desc \<Rightarrow> byte list \<Rightarrow> byte \<Rightarrow> core \<Rightarrow> core option" where
  "serialize_mtk_desc ip_desc ip_attr_blob iu_attr_count c =
     (let lz_name = get_svc_str_len (Some (mkd_name ip_desc));
          lz_desc = get_svc_str_len (mkd_description ip_desc);
          lz_unit = get_svc_str_len (mkd_unit ip_desc);
          lz_padded = align_up_8 (sizeof_mtk_svc + lz_name + lz_desc + lz_unit + length ip_attr_blob)
      in svc_put_now lz_padded [svc_hdr P8_SVC_TYPE_MTK lz_padded, (4, le32 (mkd_id ip_desc)),
           (8, le64 (mkd_min ip_desc)), (16, le64 (mkd_max ip_desc)), (24, [mkd_flags ip_desc]),
           (25, [iu_attr_count]), (26, le16 (word_of_nat lz_name)), (28, le16 (word_of_nat lz_desc)),
           (30, le16 (word_of_nat lz_unit)),
           (sizeof_mtk_svc, svc_str (Some (mkd_name ip_desc))),
           (sizeof_mtk_svc + lz_name, svc_str (mkd_description ip_desc)),
           (sizeof_mtk_svc + lz_name + lz_desc, svc_str (mkd_unit ip_desc)),
           (sizeof_mtk_svc + lz_name + lz_desc + lz_unit, ip_attr_blob)] c)"

section \<open>Entries that wait for a buffer\<close>

definition svc_put_wait ::
    "interference \<Rightarrow> nat \<Rightarrow> nat \<Rightarrow> (nat \<times> byte list) list \<Rightarrow> tls_writer \<Rightarrow> core \<Rightarrow> (bool \<times> tls_writer \<times> core) option" where
  "svc_put_wait env lo_self lz_padded ws w c = do {
     (lp_dst, w1, c1) \<leftarrow> svc_reserve (svc_acquire_wait env lo_self) lz_padded (w, c);
     (case lp_dst of None \<Rightarrow> Some (False, w1, c1) | Some dst \<Rightarrow> Some (True, w1, svc_fill ws dst c1))
   }"

definition serialize_log_desc ::
    "interference \<Rightarrow> nat \<Rightarrow> s_p8_log_desc \<Rightarrow> tls_writer \<Rightarrow> core \<Rightarrow> (bool \<times> tls_writer \<times> core) option" where
  "serialize_log_desc env lo_self ip_desc w c =
     (let lz_file = get_svc_str_len (ld_file ip_desc);
          lz_func = get_svc_str_len (ld_function ip_desc);
          lz_fmt = get_svc_str_len (ld_format ip_desc);
          lz_args = (if length (ld_args ip_desc) > P8_LOG_MAX_ARGS then P8_LOG_MAX_ARGS
                     else length (ld_args ip_desc));
          lz_padded = align_up_8 (sizeof_log_item_svc + lz_file + lz_func + lz_fmt + lz_args * 2)
      in svc_put_wait env lo_self lz_padded [svc_hdr P8_SVC_TYPE_LOG_DESC lz_padded,
           (4, le32 (ld_line ip_desc)), (8, le64 (ld_hash ip_desc)), (16, le16 (word_of_nat lz_fmt)),
           (18, le16 (word_of_nat lz_file)), (20, le16 (word_of_nat lz_func)), (22, [word_of_nat lz_args]),
           (sizeof_log_item_svc, svc_str (ld_file ip_desc)),
           (sizeof_log_item_svc + lz_file, svc_str (ld_function ip_desc)),
           (sizeof_log_item_svc + lz_file + lz_func, svc_str (ld_format ip_desc)),
           (sizeof_log_item_svc + lz_file + lz_func + lz_fmt,
              concat (map enc_varg (take lz_args (ld_args ip_desc))))] w c)"

definition serialize_str ::
    "(byte list \<Rightarrow> u64) \<Rightarrow> interference \<Rightarrow> nat \<Rightarrow> name_set \<Rightarrow> cstr option \<Rightarrow> tls_writer \<Rightarrow> core
      \<Rightarrow> (bool \<times> u64 \<times> tls_writer \<times> core) option" where
  "serialize_str xxh env lo_self kind ip_str w c =
     (let lp_str = (case ip_str of None \<Rightarrow> [] | Some s \<Rightarrow> s);
          lz_len = get_svc_str_len (Some lp_str);
          ou_hash = xxh (take lz_len lp_str)
      in if ou_hash \<in> names_of kind c then Some (True, ou_hash, w, c)
      else (let lz_padded = align_up_8 (sizeof_str_svc + lz_len) in do {
        (ok, w1, c1) \<leftarrow> svc_put_wait env lo_self lz_padded [svc_hdr (names_type kind) lz_padded,
           (4, le16 (word_of_nat lz_len)), (8, le64 ou_hash), (sizeof_str_svc, take lz_len lp_str)] w c;
        Some (if \<not> ok then (False, ou_hash, w1, c1) else (True, ou_hash, w1, names_insert kind ou_hash c1))
      }))"

definition serialize_trc_desc ::
    "interference \<Rightarrow> nat \<Rightarrow> u64 \<Rightarrow> u32 \<Rightarrow> u64 \<Rightarrow> u64 \<Rightarrow> u64 \<Rightarrow> tls_writer \<Rightarrow> core
      \<Rightarrow> (bool \<times> tls_writer \<times> core) option" where
  "serialize_trc_desc env lo_self iu_hash iu_line iu_file_hash iu_func_hash iu_name_hash w c =
     svc_put_wait env lo_self sizeof_trc_item_svc [svc_hdr P8_SVC_TYPE_TRACE sizeof_trc_item_svc,
       (4, le32 iu_line), (8, le64 iu_hash), (16, le64 iu_file_hash), (24, le64 iu_func_hash),
       (32, le64 iu_name_hash)] w c"

section \<open>Descriptors\<close>

definition is_str_arg :: "byte \<Rightarrow> bool" where
  "is_str_arg lu_type \<longleftrightarrow> lu_type = P8_LOG_ARG_TYPE_USTR8 \<or> lu_type = P8_LOG_ARG_TYPE_USTR16
     \<or> lu_type = P8_LOG_ARG_TYPE_USTR32 \<or> lu_type = P8_LOG_ARG_TYPE_STRA"

text \<open>The descriptor \<open>resolve_log_desc\<close> fills in.\<close>

definition make_log_desc :: "u64 \<Rightarrow> cstr option \<Rightarrow> u32 \<Rightarrow> cstr option \<Rightarrow> cstr option \<Rightarrow> s_p8_log_desc" where
  "make_log_desc iu_hash ip_file iu_line ip_function ip_format =
     (let args = parse_format_string True P8_LOG_MAX_ARGS ip_format in
      \<lparr>ld_hash = iu_hash, ld_format = ip_format, ld_file = ip_file, ld_function = ip_function,
       ld_line = iu_line,
       ld_fixed_args_size = sum_list (map (\<lambda>a. if is_str_arg (va_mu_type a) then 0 else unat (va_mu_size a)) args),
       ld_args = args\<rparr>)"

text \<open>\<open>alloc\<close> says whether \<open>new(std::nothrow)\<close> of the descriptor succeeds.\<close>

definition resolve_log_desc ::
    "interference \<Rightarrow> nat \<Rightarrow> bool \<Rightarrow> u64 \<Rightarrow> cstr option \<Rightarrow> u32 \<Rightarrow> cstr option \<Rightarrow> cstr option
      \<Rightarrow> tls_writer \<Rightarrow> core \<Rightarrow> (s_p8_log_desc option \<times> tls_writer \<times> core) option" where
  "resolve_log_desc env lo_self alloc iu_hash ip_file iu_line ip_function ip_format w c =
     (case mo_log_descs c iu_hash of
        Some d \<Rightarrow> Some (Some d, w, c)
      | None \<Rightarrow> if \<not> alloc then Some (None, w, c)
          else (let lp_desc = make_log_desc iu_hash ip_file iu_line ip_function ip_format in do {
            (ok, w1, c1) \<leftarrow> serialize_log_desc env lo_self lp_desc w c;
            Some (if \<not> ok then (None, w1, c1)
              else (Some lp_desc, w1, c1\<lparr>mo_log_descs := (mo_log_descs c1)(iu_hash \<mapsto> lp_desc)\<rparr>))
          }))"

definition resolve_trc_desc ::
    "(byte list \<Rightarrow> u64) \<Rightarrow> interference \<Rightarrow> nat \<Rightarrow> u64 \<Rightarrow> cstr option \<Rightarrow> u32 \<Rightarrow> cstr option \<Rightarrow> cstr option
      \<Rightarrow> tls_writer \<Rightarrow> core \<Rightarrow> (bool \<times> tls_writer \<times> core) option" where
  "resolve_trc_desc xxh env lo_self iu_hash ip_file iu_line ip_function ip_name w c =
     (if iu_hash \<in> mo_trc_descs c then Some (True, w, c)
      else do {
        (ok1, lu_file_hash, w1, c1) \<leftarrow> serialize_str xxh env lo_self File_names ip_file w c;
        if \<not> ok1 then Some (False, w1, c1) else do {
          (ok2, lu_func_hash, w2, c2) \<leftarrow> serialize_str xxh env lo_self Func_names ip_function w1 c1;
          if \<not> ok2 then Some (False, w2, c2) else do {
            (ok3, lu_name_hash, w3, c3) \<leftarrow> serialize_str xxh env lo_self Span_names ip_name w2 c2;
            if \<not> ok3 then Some (False, w3, c3) else do {
              (ok4, w4, c4) \<leftarrow> serialize_trc_desc env lo_self iu_hash iu_line lu_file_hash lu_func_hash lu_name_hash w3 c3;
              Some (if \<not> ok4 then (False, w4, c4)
                else (True, w4, c4\<lparr>mo_trc_descs := insert iu_hash (mo_trc_descs c4)\<rparr>))
            }
          }
        }
      })"

definition reserve_span_ids :: "core \<Rightarrow> u64 \<times> core" where
  "reserve_span_ids c = (mu_span_id_seq c, c\<lparr>mu_span_id_seq := mu_span_id_seq c + P8_CORE_SPAN_ID_BLOCK\<rparr>)"

end
