(* ===== verification/P8_Service_Proofs.thy ===== *)
theory P8_Service_Proofs
  imports P8_Service
begin

text \<open>
  What the service operations promise. An entry's bytes are appended to the service bytes of
  the core and nothing of another thread changes (\<open>harmless\<close>); the reservation loop is shared
  by the waiting and the non-waiting callers through the locale \<open>svc_source\<close>; a descriptor is
  known only when its entries are among the service bytes, each string before the span
  descriptor that refers to it.
\<close>

section \<open>The bytes of an entry\<close>

text \<open>Assignments at increasing offsets into zeroed bytes.\<close>

fun writes_ok :: "nat \<Rightarrow> (nat \<times> byte list) list \<Rightarrow> nat \<Rightarrow> bool" where
  "writes_ok pos [] n \<longleftrightarrow> pos \<le> n"
| "writes_ok pos ((o', bs) # ws) n \<longleftrightarrow> pos \<le> o' \<and> writes_ok (o' + length bs) ws n"

fun entry_bytes :: "nat \<Rightarrow> (nat \<times> byte list) list \<Rightarrow> nat \<Rightarrow> byte list" where
  "entry_bytes pos [] n = replicate (n - pos) 0"
| "entry_bytes pos ((o', bs) # ws) n = replicate (o' - pos) 0 @ bs @ entry_bytes (o' + length bs) ws n"

lemma writes_ok_le: "writes_ok pos ws n \<Longrightarrow> pos \<le> n"
  by (induction pos ws n rule: writes_ok.induct) auto

lemma length_entry_bytes: "writes_ok pos ws n \<Longrightarrow> length (entry_bytes pos ws n) = n - pos"
proof (induction pos ws n rule: writes_ok.induct)
  case (2 pos o' bs ws n)
  then show ?case using writes_ok_le [of "o' + length bs" ws n] by auto
qed simp

lemma rd_zeros: "(\<And>i. off \<le> i \<Longrightarrow> i < off + n \<Longrightarrow> m b i = 0) \<Longrightarrow> rd m b off n = replicate n 0"
  by (intro nth_equalityI) (auto simp: rd_def)

lemma fill_bytes:
  assumes "writes_ok pos ws n" and "\<And>i. pos \<le> i \<Longrightarrow> i < n \<Longrightarrow> m b (off + i) = 0"
  shows "rd (fold (\<lambda>(o', bs) m. wr m b (off + o') bs) ws m) b (off + pos) (n - pos) = entry_bytes pos ws n"
    and "\<And>a i. a \<noteq> b \<or> i < off + pos \<or> off + n \<le> i \<Longrightarrow>
      fold (\<lambda>(o', bs) m. wr m b (off + o') bs) ws m a i = m a i"
proof -
  have "rd (fold (\<lambda>(o', bs) m. wr m b (off + o') bs) ws m) b (off + pos) (n - pos) = entry_bytes pos ws n
    \<and> (\<forall>a i. a \<noteq> b \<or> i < off + pos \<or> off + n \<le> i \<longrightarrow>
      fold (\<lambda>(o', bs) m. wr m b (off + o') bs) ws m a i = m a i)"
    using assms
  proof (induction ws arbitrary: pos m)
    case Nil
    then have "m b i = 0" if "off + pos \<le> i" "i < off + pos + (n - pos)" for i
      using that Nil(2) [of "i - off"] by (simp add: le_diff_conv2)
    then show ?case using rd_zeros by simp
  next
    case (Cons x ws)
    obtain k bs where x: "x = (k, bs)" by fastforce
    let ?m = "wr m b (off + k) bs" and ?q = "k + length bs"
    have k: "pos \<le> k" "writes_ok ?q ws n" using Cons.prems(1) x by auto
    then have q: "?q \<le> n" using writes_ok_le by blast
    have z: "?m b (off + i) = 0" if "?q \<le> i" "i < n" for i
      using that k Cons.prems(2) [of i] by (simp add: wr_frame)
    note ih = Cons.IH [OF k(2), of ?m, OF z]
    let ?f = "fold (\<lambda>(o', bs) m. wr m b (off + o') bs) ws ?m"
    have low: "?f b i = ?m b i" if "i < off + ?q" for i using ih that by blast
    have n: "n - pos = (k - pos) + (length bs + (n - ?q))" using k q by simp
    have "rd ?f b (off + pos) (k - pos) = replicate (k - pos) 0"
    proof (rule rd_zeros)
      fix i
      assume i: "off + pos \<le> i" "i < off + pos + (k - pos)"
      then have "?f b i = m b i" using low k by (simp add: wr_frame)
      moreover have "m b (off + (i - off)) = 0" using i k q by (intro Cons.prems(2)) auto
      ultimately show "?f b i = 0" using i by simp
    qed
    moreover have "rd ?f b (off + k) (length bs) = bs"
    proof -
      have "rd ?f b (off + k) (length bs) = rd ?m b (off + k) (length bs)" by (intro rd_cong low) simp
      then show ?thesis by simp
    qed
    moreover have "rd ?f b (off + pos) (n - pos) = rd ?f b (off + pos) (k - pos)
        @ rd ?f b (off + k) (length bs) @ rd ?f b (off + ?q) (n - ?q)"
    proof -
      have "off + pos + (k - pos) = off + k" "off + k + length bs = off + ?q" using k by simp_all
      then show ?thesis by (simp only: n rd_add)
    qed
    moreover have "rd ?f b (off + ?q) (n - ?q) = entry_bytes ?q ws n" using ih by simp
    ultimately have "rd ?f b (off + pos) (n - pos) = entry_bytes pos (x # ws) n" by (simp add: x)
    moreover have "?f a i = m a i" if a: "a \<noteq> b \<or> i < off + pos \<or> off + n \<le> i" for a i
    proof -
      have "?f a i = ?m a i" using ih a k by auto
      also have "\<dots> = m a i" using a k q by (cases "a = b") (auto simp: wr_frame)
      finally show ?thesis .
    qed
    ultimately show ?case by (simp add: x)
  qed
  then show "rd (fold (\<lambda>(o', bs) m. wr m b (off + o') bs) ws m) b (off + pos) (n - pos) = entry_bytes pos ws n"
    "\<And>a i. a \<noteq> b \<or> i < off + pos \<or> off + n \<le> i \<Longrightarrow>
      fold (\<lambda>(o', bs) m. wr m b (off + o') bs) ws m a i = m a i"
    by blast+
qed

section \<open>Steps that leave other threads alone\<close>

definition harmless :: "(byte list \<Rightarrow> u64) \<Rightarrow> core \<Rightarrow> core \<Rightarrow> bool" where
  "harmless xxh c c' \<longleftrightarrow> (\<forall>ty self h w. own_inv ty self h w c \<longrightarrow> own_inv ty self h w c' \<and> evolves xxh w c w c')"

lemma harmless_refl [simp]: "harmless xxh c c"
  by (simp add: harmless_def)

lemma harmless_trans: "harmless xxh c c1 \<Longrightarrow> harmless xxh c1 c2 \<Longrightarrow> harmless xxh c c2"
  unfolding harmless_def by (meson evolves_trans)

text \<open>The service invariant of the core alone.\<close>

definition svc_ok :: "core \<Rightarrow> bool" where
  "svc_ok c \<longleftrightarrow> core_ok c \<and> svc_inv c"

lemma own_svc_ok: "own_inv ty self h w c \<Longrightarrow> svc_ok c"
  by (simp add: own_inv_def own_bufs_def wr_inv_def svc_ok_def)

text \<open>Writing an entry into claimed bytes.\<close>

lemma svc_write:
  assumes ok: "svc_ok c" and room: "\<not> svc_full n c" and ws: "writes_ok 0 ws n"
    and en: "is_entry (entry_bytes 0 ws n)"
    and cl: "svc_claim n c = (dst, c1)"
  shows "svc_ok (svc_fill ws dst c1)" and "svc_total (svc_fill ws dst c1) = svc_total c @ entry_bytes 0 ws n"
    and "harmless xxh c (svc_fill ws dst c1)"
    and "\<exists>m sb. svc_fill ws dst c1 = c\<lparr>co_mem := m, mo_svc_buffers := sb\<rparr>"
proof -
  define s where "s = last (mo_svc_buffers c)"
  define b where "b = sb_buf s"
  define u where "u = sb_used s"
  define ss where "ss = butlast (mo_svc_buffers c)"
  have ne: "mo_svc_buffers c = ss @ [s]" and un: "u + n \<le> 8192"
    using room by (auto simp: svc_full_def s_def u_def ss_def)
  have dst: "dst = (b, u)" and c1: "c1 = c\<lparr>co_mem := wr (co_mem c) b u (replicate n 0),
      mo_svc_buffers := ss @ [s\<lparr>sb_used := u + n\<rparr>]\<rparr>"
    using cl by (auto simp: svc_claim_def Let_def s_def b_def u_def ss_def)
  define m where "m = fold (\<lambda>(o', bs) m. wr m b (u + o') bs) ws (co_mem c1)"
  define c2 where "c2 = svc_fill ws dst c1"
  have c2: "c2 = c\<lparr>co_mem := m, mo_svc_buffers := ss @ [s\<lparr>sb_used := u + n\<rparr>]\<rparr>"
    by (simp add: c2_def svc_fill_def dst m_def c1)
  have z: "co_mem c1 b (u + i) = 0" if "0 \<le> i" "i < n" for i
    using that by (simp add: c1 wr_def)
  note fb = fill_bytes [OF ws, of "co_mem c1" b u, OF z, folded m_def]
  have far: "m a i = co_mem c a i" if "a \<noteq> b \<or> i < u \<or> u + n \<le> i" for a i
  proof -
    have "m a i = co_mem c1 a i" using that by (intro fb(2)) auto
    then show ?thesis using that by (cases "a = b") (auto simp: c1 wr_frame)
  qed
  have inv: "svc_inv c" and cok: "core_ok c" using ok by (auto simp: svc_ok_def)
  have ad: "svc_addrs c2 = svc_addrs c" by (simp add: svc_addrs_def c2 ne b_def)
  have bs: "b \<in> set (svc_addrs c)" by (simp add: svc_addrs_def ne b_def)
  have rb: "rd m b 0 (u + n) = rd (co_mem c) b 0 u @ entry_bytes 0 ws n"
  proof -
    have "rd m b 0 u = rd (co_mem c) b 0 u" by (intro rd_cong far) simp
    moreover have "rd m b u n = entry_bytes 0 ws n" using fb(1) by simp
    ultimately show ?thesis by (simp add: rd_add)
  qed
  have oth: "sb_buf x \<noteq> b" if "x \<in> set ss" for x
    using inv that by (force simp: svc_inv_def svc_addrs_def ne b_def)
  then have ss: "rd m (sb_buf x) 0 k = rd (co_mem c) (sb_buf x) 0 k" if "x \<in> set ss" for x k
    using that far by (simp add: rd_def)
  have "framed m (s\<lparr>sb_used := u + n\<rparr>)"
  proof -
    obtain es where "rd (co_mem c) b 0 u = concat es" "\<forall>e \<in> set es. is_entry e"
      using inv by (auto simp: svc_inv_def ne framed_def u_def b_def)
    with rb en show ?thesis unfolding framed_def
      by (intro exI [of _ "es @ [entry_bytes 0 ws n]"]) (simp add: b_def)
  qed
  moreover have "framed m x" if "x \<in> set ss" for x
    using inv that ss by (auto simp: svc_inv_def ne framed_def)
  ultimately have inv2: "svc_inv c2" using inv un ad unfolding svc_inv_def by (auto simp: c2 ne)
  then show "svc_ok (svc_fill ws dst c1)" using cok unfolding c2_def [symmetric]
    by (simp add: svc_ok_def core_ok_def c2)
  have "svc_bytes m ss = svc_bytes (co_mem c) ss"
    using ss by (auto simp: svc_bytes_def intro!: arg_cong [of _ _ concat] map_cong)
  with rb have tot: "svc_total c2 = svc_total c @ entry_bytes 0 ws n"
    by (simp add: svc_total_def c2 ne svc_bytes_def b_def u_def)
  then show "svc_total (svc_fill ws dst c1) = svc_total c @ entry_bytes 0 ws n" by (simp add: c2_def)
  show "\<exists>m sb. svc_fill ws dst c1 = c\<lparr>co_mem := m, mo_svc_buffers := sb\<rparr>"
    unfolding c2_def [symmetric] c2 by blast
  have "own_inv ty self h w c2 \<and> evolves xxh w c w c2" if o: "own_inv ty self h w c" for ty self h w
  proof -
    have same: "m a = co_mem c a" if "a \<in> set (bufs w)" for a
      using far bs o that by (intro ext far) (auto simp: own_inv_def own_bufs_def)
    have "wr_inv ty w c2"
      using o unfolding own_inv_def own_bufs_def wr_inv_def
      by (auto simp: c2 core_ok_def cache_ok_def hdr_ids_def buf_size_def rd_def same bufs_Some)
    then have "own_inv ty self h w c2"
      using o inv2 ad by (auto simp: own_inv_def own_bufs_def may_wait_def c2)
    moreover have "catalog xxh c2" if k: "catalog xxh c"
      by (rule catalog_mono [OF k]) (simp_all add: tot, simp_all add: c2)
    then have "evolves xxh w c w c2" using same tot by (simp add: evolves_def c2)
    ultimately show ?thesis by blast
  qed
  then show "harmless xxh c (svc_fill ws dst c1)" by (simp add: harmless_def c2_def)
qed

section \<open>The reservation loop\<close>

text \<open>
  Where service buffers come from: a step that keeps the caller's invariant and, when it
  succeeds, leaves an empty buffer last. The loop of \<open>svc_reserve\<close> then runs at most twice.
\<close>

locale svc_source =
  fixes acq :: "'s \<times> core \<Rightarrow> (bool \<times> 's \<times> core) option"
    and inv :: "'s \<Rightarrow> core \<Rightarrow> bool"
    and step :: "'s \<Rightarrow> core \<Rightarrow> 's \<Rightarrow> core \<Rightarrow> bool"
  assumes step_refl: "step s c s c"
    and acq_step: "inv s c \<Longrightarrow> acq (s, c) = Some (ok, s', c') \<Longrightarrow> inv s' c' \<and> step s c s' c'
      \<and> (ok \<longrightarrow> mo_svc_buffers c' \<noteq> [] \<and> sb_used (last (mo_svc_buffers c')) = 0)"
begin

lemma fresh_not_full:
  "mo_svc_buffers c \<noteq> [] \<and> sb_used (last (mo_svc_buffers c)) = 0 \<Longrightarrow> n \<le> mz_data_buffer_size \<Longrightarrow> \<not> svc_full n c"
  by (simp add: svc_full_def)

lemma loop_unfold:
  assumes "inv s c" and "n \<le> mz_data_buffer_size"
  shows "svc_reserve_loop acq n (s, c) = (if svc_full n c then acq (s, c) else Some (True, s, c))"
proof (cases "acq (s, c)")
  case None
  then show ?thesis by (subst svc_reserve_loop.simps) simp
next
  case (Some r)
  obtain ok s1 c1 where r: "r = (ok, s1, c1)" by (cases r) auto
  have "svc_reserve_loop acq n (s1, c1) = Some (True, s1, c1)" if ok
    using that acq_step [OF assms(1) Some [unfolded r]] fresh_not_full [OF _ assms(2), of c1]
    by (subst svc_reserve_loop.simps) simp
  then show ?thesis using Some r by (subst svc_reserve_loop.simps) auto
qed

lemma reserve:
  assumes "inv s c" and "svc_reserve acq n (s, c) = Some (dst, s', c')"
  shows "case dst of None \<Rightarrow> inv s' c' \<and> step s c s' c'
     | Some d \<Rightarrow> \<exists>c1. n \<le> mz_data_buffer_size \<and> inv s' c1 \<and> step s c s' c1 \<and> \<not> svc_full n c1
         \<and> svc_claim n c1 = (d, c')"
proof (cases "n \<le> mz_data_buffer_size")
  case False
  with assms step_refl show ?thesis by (simp add: svc_reserve_def)
next
  case True
  with assms(2) obtain ok c1 where l: "svc_reserve_loop acq n (s, c) = Some (ok, s', c1)"
    and r: "if ok then \<exists>d. dst = Some d \<and> svc_claim n c1 = (d, c') else dst = None \<and> c' = c1"
    by (auto simp: svc_reserve_def split: bind_splits if_splits prod.splits)
  have "inv s' c1 \<and> step s c s' c1 \<and> (ok \<longrightarrow> \<not> svc_full n c1)"
    using l loop_unfold [OF assms(1) True] acq_step [OF assms(1)] step_refl assms(1) fresh_not_full [OF _ True]
    by (auto split: if_splits)
  with r True show ?thesis by (auto split: if_splits)
qed

lemma reserve_returns:
  assumes "inv s c" and "acq (s, c) \<noteq> None"
  shows "svc_reserve acq n (s, c) \<noteq> None"
  using assms loop_unfold [OF assms(1), of n]
  by (auto simp: svc_reserve_def split: bind_splits prod.splits)

end

text \<open>A buffer the caller holds becomes the last service buffer.\<close>

lemma catalog_push:
  "catalog xxh (c\<lparr>mo_svc_buffers := mo_svc_buffers c @ [\<lparr>sb_buf = b, sb_used = 0\<rparr>]\<rparr>) = catalog xxh c"
  "catalog xxh (c\<lparr>co_dropped := d\<rparr>) = catalog xxh c"
proof -
  have "names_of kind (c\<lparr>mo_svc_buffers := sb\<rparr>) = names_of kind c"
    "names_of kind (c\<lparr>co_dropped := d\<rparr>) = names_of kind c" for kind sb
    by (cases kind; simp)+
  then show "catalog xxh (c\<lparr>mo_svc_buffers := mo_svc_buffers c @ [\<lparr>sb_buf = b, sb_used = 0\<rparr>]\<rparr>) = catalog xxh c"
    "catalog xxh (c\<lparr>co_dropped := d\<rparr>) = catalog xxh c"
    by (simp_all add: catalog_def svc_total_def svc_bytes_def)
qed

lemma framed_empty [simp]: "framed m \<lparr>sb_buf = b, sb_used = 0\<rparr>"
  by (auto simp: framed_def intro!: exI [of _ "[]"])

lemma svc_push_own:
  assumes "own_inv ty self (insert b h) w c" and "b \<notin> h"
  shows "own_inv ty self h w (c\<lparr>mo_svc_buffers := mo_svc_buffers c @ [\<lparr>sb_buf = b, sb_used = 0\<rparr>]\<rparr>)"
    and "evolves xxh w c w (c\<lparr>mo_svc_buffers := mo_svc_buffers c @ [\<lparr>sb_buf = b, sb_used = 0\<rparr>]\<rparr>)"
  using assms
  by (auto simp: own_inv_def own_bufs_def wr_inv_def core_ok_def cache_ok_def svc_inv_def svc_addrs_def
      may_wait_def evolves_def svc_total_def svc_bytes_def catalog_push)

lemma svc_drop_own:
  "own_inv ty self h w c \<Longrightarrow> own_inv ty self h w (c\<lparr>co_dropped := d\<rparr>)"
  "evolves xxh w c w (c\<lparr>co_dropped := d\<rparr>)"
  by (simp_all add: own_inv_def own_bufs_def wr_inv_def core_ok_def cache_ok_def svc_inv_def svc_addrs_def
      may_wait_def evolves_def svc_total_def catalog_push)

lemma svc_take_own:
  assumes "own_inv ty self (h \<union> set_option r) w c" and "h \<inter> set_option r = {}" and "svc_take r c = (ok, c')"
  shows "own_inv ty self h w c' \<and> evolves xxh w c w c'"
  using assms svc_push_own [of ty self "the r" h w c] svc_drop_own(1) [of ty self h w c] svc_drop_own(2)
  by (cases r) (auto simp: svc_take_def)

lemma svc_take_last:
  "svc_take r c = (ok, c') \<Longrightarrow> ok \<Longrightarrow> mo_svc_buffers c' \<noteq> [] \<and> sb_used (last (mo_svc_buffers c')) = 0"
  by (auto simp: svc_take_def split: option.splits)

text \<open>Waiting for a buffer: what the other threads do meanwhile is \<open>evolves\<close>.\<close>

sublocale other_threads \<subseteq> waiting: svc_source "svc_acquire_wait env self" "own_inv ty self {}" "evolves xxh"
proof
  fix w c ok w' c'
  show "evolves xxh w c w c" by simp
  assume o: "own_inv ty self {} w c" and a: "svc_acquire_wait env self (w, c) = Some (ok, w', c')"
  then obtain r c1 where b: "acquire_blocking env self w c = Some (r, w', c1)" and t: "svc_take r c1 = (ok, c')"
    by (auto simp: svc_acquire_wait_def split: bind_splits prod.splits)
  from acquire_blocking_own [OF o b] svc_take_own [of ty self "{}" r w' c1, OF _ _ t] svc_take_last [OF t]
  show "own_inv ty self {} w' c' \<and> evolves xxh w c w' c'
      \<and> (ok \<longrightarrow> mo_svc_buffers c' \<noteq> [] \<and> sb_used (last (mo_svc_buffers c')) = 0)"
    using evolves_trans by auto
qed

text \<open>Not waiting: only the pool, the service buffers and the drop counter change.\<close>

definition svc_static :: "core \<Rightarrow> core" where
  "svc_static c = (core_static c)\<lparr>mo_svc_buffers := [], co_dropped := no_drops, co_svc_sent := []\<rparr>"

definition now_step :: "(byte list \<Rightarrow> u64) \<Rightarrow> unit \<Rightarrow> core \<Rightarrow> unit \<Rightarrow> core \<Rightarrow> bool" where
  "now_step xxh s c s' c' \<longleftrightarrow> harmless xxh c c' \<and> svc_static c' = svc_static c \<and> svc_total c' = svc_total c"

interpretation svc_now: svc_source svc_acquire_now "\<lambda>_. svc_ok" "now_step xxh" for xxh
proof
  fix s :: unit and c ok and s' :: unit and c'
  show "now_step xxh s c s c" by (simp add: now_step_def)
  assume o: "svc_ok c" and a: "svc_acquire_now (s, c) = Some (ok, s', c')"
  then obtain r c1 where b: "acquire_buffer c = (r, c1)" and t: "svc_take r c1 = (ok, c')"
    by (auto simp: svc_acquire_now_def split: prod.splits)
  have ok: "core_ok c" and sv: "svc_inv c" using o by (auto simp: svc_ok_def)
  have *: "core_static c1 = core_static c \<and> co_mem c1 = co_mem c \<and> core_ok c1
      \<and> owned (mp_data_pool c1) = owned (mp_data_pool c) \<union> set_option r
      \<and> set_option r \<inter> owned (mp_data_pool c) = {}"
    using acquire_buffer_Some [OF _ ok, of _ c1] acquire_buffer_None [OF _ ok, of c1] b by (cases r) auto
  note f = core_static_fields [OF conjunct1 [OF *]]
  have "own_inv ty self h w c' \<and> evolves xxh w c w c'" if "own_inv ty self h w c" for ty self h w
    using acquire_buffer_held [OF that b] svc_take_own [OF _ _ t] evolves_trans by blast
  then have "harmless xxh c c'" by (simp add: harmless_def)
  moreover have "svc_static c' = svc_static c" "svc_total c' = svc_total c"
    using t * f(3,11)
    by (auto simp: svc_take_def svc_static_def core_static_def svc_total_def svc_bytes_def split: option.splits)
  moreover have "svc_ok c'"
    using t * f(3) sv by (cases r) (force simp: svc_take_def svc_ok_def core_ok_def svc_inv_def svc_addrs_def)+
  ultimately show "svc_ok c' \<and> now_step xxh s c s' c'
      \<and> (ok \<longrightarrow> mo_svc_buffers c' \<noteq> [] \<and> sb_used (last (mo_svc_buffers c')) = 0)"
    using svc_take_last [OF t] by (simp add: now_step_def)
qed

section \<open>Writing an entry\<close>

lemma svc_static_upd [simp]:
  "svc_static (c\<lparr>co_mem := m, mo_svc_buffers := sb\<rparr>) = svc_static c"
  by (simp add: svc_static_def core_static_def)

lemma is_entry_size: "writes_ok 0 ws n \<Longrightarrow> is_entry (entry_bytes 0 ws n) \<Longrightarrow> n \<le> mz_data_buffer_size"
  using length_entry_bytes by (fastforce simp: is_entry_def)

text \<open>Without waiting the entry is appended, or dropped when a new buffer is needed and the pool
  has none.\<close>

lemma svc_put_now_spec:
  assumes ok: "svc_ok c" and ws: "writes_ok 0 ws n" and en: "is_entry (entry_bytes 0 ws n)"
  shows "\<exists>c'. svc_put_now n ws c = Some c' \<and> svc_ok c' \<and> harmless xxh c c' \<and> svc_static c' = svc_static c
    \<and> svc_total c' = svc_total c
        @ (if svc_full n c \<and> fst (acquire_buffer c) = None then [] else entry_bytes 0 ws n)"
proof -
  note n = is_entry_size [OF ws en]
  have a: "svc_acquire_now ((), c) \<noteq> None" by (simp add: svc_acquire_now_def split: prod.splits)
  from svc_now.reserve_returns [OF ok a, of n] obtain dst c1 where
    r: "svc_reserve svc_acquire_now n ((), c) = Some (dst, (), c1)" by auto
  have dn: "dst = None \<longleftrightarrow> svc_full n c \<and> fst (acquire_buffer c) = None"
    using r n svc_now.loop_unfold [OF ok n, of "()"]
    by (auto simp: svc_reserve_def svc_acquire_now_def svc_take_def split: bind_splits prod.splits option.splits if_splits)
  show ?thesis
  proof (cases dst)
    case None
    with svc_now.reserve [OF ok r] r dn show ?thesis by (auto simp: svc_put_now_def now_step_def)
  next
    case (Some d)
    with svc_now.reserve [OF ok r] obtain c0 where c0: "svc_ok c0" "now_step xxh () c () c0" "\<not> svc_full n c0"
      "svc_claim n c0 = (d, c1)" by auto
    note w = svc_write [OF c0(1,3) ws en c0(4)]
    from w(4) have "svc_static (svc_fill ws d c1) = svc_static c0" by auto
    moreover have "harmless xxh c (svc_fill ws d c1)"
      using w(3) c0(2) harmless_trans by (auto simp: now_step_def)
    ultimately show ?thesis
      using w(1,2) c0(2) r Some dn by (auto simp: svc_put_now_def now_step_def)
  qed
qed

text \<open>An entry larger than a buffer is never sent.\<close>

lemma svc_put_now_large: "mz_data_buffer_size < n \<Longrightarrow> svc_put_now n ws c = Some c"
  by (simp add: svc_put_now_def svc_reserve_def)

context other_threads
begin

text \<open>With waiting: the entry is the last of the service bytes, or there was no buffer.\<close>

lemma svc_put_wait_own:
  assumes o: "own_inv ty self {} w c" and ws: "writes_ok 0 ws n" and en: "is_entry (entry_bytes 0 ws n)"
    and p: "svc_put_wait env self n ws w c = Some (ok, w', c')"
  shows "own_inv ty self {} w' c' \<and> evolves xxh w c w' c'
    \<and> (ok \<longrightarrow> (\<exists>t. svc_total c' = t @ entry_bytes 0 ws n \<and> prefix (svc_total c) t))"
proof -
  from p obtain dst c1 where r: "svc_reserve (svc_acquire_wait env self) n (w, c) = Some (dst, w', c1)"
    and f: "(ok, c') = (case dst of None \<Rightarrow> (False, c1) | Some d \<Rightarrow> (True, svc_fill ws d c1))"
    by (auto simp: svc_put_wait_def split: bind_splits prod.splits option.splits)
  show ?thesis
  proof (cases dst)
    case None
    with waiting.reserve [OF o r] f show ?thesis by simp
  next
    case (Some d)
    with waiting.reserve [OF o r] obtain c0 where c0: "own_inv ty self {} w' c0" "evolves xxh w c w' c0"
      "\<not> svc_full n c0" "svc_claim n c0 = (d, c1)" by auto
    note sw = svc_write [OF own_svc_ok [OF c0(1)] c0(3) ws en c0(4)]
    have "own_inv ty self {} w' c'" "evolves xxh w' c0 w' c'"
      using sw(3) c0(1) f Some by (auto simp: harmless_def)
    moreover have "prefix (svc_total c) (svc_total c0)" using c0(2) by (simp add: evolves_def)
    moreover have "svc_total c' = svc_total c0 @ entry_bytes 0 ws n" using sw(2) f Some by simp
    ultimately show ?thesis using evolves_trans [OF c0(2)] by blast
  qed
qed

end

context others_serve
begin

lemma svc_put_wait_returns:
  assumes o: "own_inv ty self {} w c"
  shows "svc_put_wait env self n ws w c \<noteq> None"
proof -
  have "svc_acquire_wait env self (w, c) \<noteq> None"
    using acquire_blocking_returns [OF o] by (auto simp: svc_acquire_wait_def split: prod.splits)
  from waiting.reserve_returns [OF o this, of n] show ?thesis
    by (auto simp: svc_put_wait_def split: bind_splits prod.splits option.splits)
qed

end

section \<open>The kinds of entry\<close>

lemma svc_str_Some: "take (get_svc_str_len (Some s)) s = svc_str (Some s)"
  by (simp add: svc_str_def)

lemma replicate_split: "k \<le> n \<Longrightarrow> replicate n x = replicate k x @ replicate (n - k) x"
  by (simp flip: replicate_add)

lemmas entry_defs = attr_entry_def mod_entry_def mtk_entry_def log_entry_def str_entry_def trc_entry_def

text \<open>Names up to 1024 bytes leave every entry within a buffer.\<close>

lemma align_le: "k \<le> 8192 \<Longrightarrow> align_up_8 k \<le> 8192"
  by (rule align_up_8_least) auto

lemma attr_is_entry: "is_entry (attr_entry d)"
  using get_svc_str_len_max [of "Some (ad_name d)"] align_up_8_ge [of "12 + get_svc_str_len (Some (ad_name d)) + 1"]
  unfolding attr_entry_def Let_def
  by (intro is_entry_zpad [OF refl]) (auto intro!: align_le)

lemma attr_writes:
  fixes d :: s_p8_attr_desc
  defines "k \<equiv> get_svc_str_len (Some (ad_name d))"
  defines "n \<equiv> align_up_8 (sizeof_attr_svc + k + 1)"
  defines "ws \<equiv> [svc_hdr P8_SVC_TYPE_ATTR n, (4, le32 (ad_id d)), (8, [attr_type_code (ad_type d)]),
     (sizeof_attr_svc, take k (ad_name d)), (sizeof_attr_svc + k, [0])]"
  shows "writes_ok 0 ws n" and "entry_bytes 0 ws n = attr_entry d"
proof -
  have g: "12 + k + 1 \<le> n" unfolding n_def by (rule align_up_8_ge)
  have t: "take k (ad_name d) = svc_str (Some (ad_name d))" unfolding k_def by (rule svc_str_Some)
  have r: "replicate (n - (12 + k)) 0 = (0 :: byte) # replicate (n - (12 + k + 1)) 0"
    using g by (simp flip: replicate_Suc add: Suc_diff_Suc)
  show "writes_ok 0 ws n" using g by (simp add: ws_def svc_hdr_def t) (simp add: k_def)
  show "entry_bytes 0 ws n = attr_entry d"
    using r by (simp add: ws_def svc_hdr_def t attr_entry_def zpad_def Let_def entry_hdr_def numeral_3_eq_3)
      (simp add: k_def n_def)
qed

lemma mod_is_entry: "is_entry (mod_entry d)"
  using get_svc_str_len_max [of "Some (lm_name d)"] align_up_8_ge [of "8 + get_svc_str_len (Some (lm_name d)) + 1"]
  unfolding mod_entry_def Let_def
  by (intro is_entry_zpad [OF refl]) (auto intro!: align_le)

lemma mod_writes:
  fixes d :: s_p8_log_mod
  defines "k \<equiv> get_svc_str_len (Some (lm_name d))"
  defines "n \<equiv> align_up_8 (sizeof_log_mod_svc + k + 1)"
  defines "ws \<equiv> [svc_hdr P8_SVC_TYPE_MODULE n, (4, le16 (lm_id d)), (6, [word_of_nat (level_code (lm_verbosity d))]),
     (sizeof_log_mod_svc, take k (lm_name d)), (sizeof_log_mod_svc + k, [0])]"
  shows "writes_ok 0 ws n" and "entry_bytes 0 ws n = mod_entry d"
proof -
  have g: "8 + k + 1 \<le> n" unfolding n_def by (rule align_up_8_ge)
  have t: "take k (lm_name d) = svc_str (Some (lm_name d))" unfolding k_def by (rule svc_str_Some)
  have r: "replicate (n - (8 + k)) 0 = (0 :: byte) # replicate (n - (8 + k + 1)) 0"
    using g by (simp flip: replicate_Suc add: Suc_diff_Suc)
  show "writes_ok 0 ws n" using g by (simp add: ws_def svc_hdr_def t) (simp add: k_def)
  show "entry_bytes 0 ws n = mod_entry d"
    using r by (simp add: ws_def svc_hdr_def t mod_entry_def zpad_def Let_def entry_hdr_def)
      (simp add: k_def n_def)
qed

lemma mtk_is_entry:
  assumes "align_up_8 (32 + get_svc_str_len (Some (mkd_name d)) + get_svc_str_len (mkd_description d)
    + get_svc_str_len (mkd_unit d) + length blob) \<le> mz_data_buffer_size"
  shows "is_entry (mtk_entry d blob j)"
  using assms align_up_8_ge [of "32 + get_svc_str_len (Some (mkd_name d)) + get_svc_str_len (mkd_description d)
    + get_svc_str_len (mkd_unit d) + length blob"]
  unfolding mtk_entry_def Let_def length_svc_str
  by (intro is_entry_zpad [OF refl]) auto

lemma mtk_writes:
  fixes d :: s_p8_mtk_desc and blob :: "byte list" and j :: byte
  defines "k \<equiv> get_svc_str_len (Some (mkd_name d))" and "l \<equiv> get_svc_str_len (mkd_description d)"
    and "u \<equiv> get_svc_str_len (mkd_unit d)"
  defines "n \<equiv> align_up_8 (sizeof_mtk_svc + k + l + u + length blob)"
  defines "ws \<equiv> [svc_hdr P8_SVC_TYPE_MTK n, (4, le32 (mkd_id d)),
           (8, le64 (mkd_min d)), (16, le64 (mkd_max d)), (24, [mkd_flags d]),
           (25, [j]), (26, le16 (word_of_nat k)), (28, le16 (word_of_nat l)), (30, le16 (word_of_nat u)),
           (sizeof_mtk_svc, svc_str (Some (mkd_name d))),
           (sizeof_mtk_svc + k, svc_str (mkd_description d)),
           (sizeof_mtk_svc + k + l, svc_str (mkd_unit d)),
           (sizeof_mtk_svc + k + l + u, blob)]"
  shows "writes_ok 0 ws n" and "entry_bytes 0 ws n = mtk_entry d blob j"
proof -
  have g: "32 + k + l + u + length blob \<le> n" unfolding n_def by (rule align_up_8_ge)
  then show "writes_ok 0 ws n" by (simp add: ws_def svc_hdr_def k_def l_def u_def)
  show "entry_bytes 0 ws n = mtk_entry d blob j"
    by (simp add: ws_def svc_hdr_def mtk_entry_def zpad_def Let_def entry_hdr_def k_def l_def u_def n_def)
qed

lemma length_vargs: "length (concat (map enc_varg vs)) = length vs * 2"
  using varg.run_width [of vs] .

lemma log_is_entry: "is_entry (log_entry d)"
  using get_svc_str_len_max [of "ld_file d"] get_svc_str_len_max [of "ld_function d"]
    get_svc_str_len_max [of "ld_format d"] align_up_8_ge [of "24 + get_svc_str_len (ld_file d)
      + get_svc_str_len (ld_function d) + get_svc_str_len (ld_format d) + min (length (ld_args d)) 32 * 2"]
  unfolding log_entry_def Let_def length_svc_str length_take
  by (intro is_entry_zpad [OF refl]) (auto simp: length_vargs intro!: align_le)

lemma log_writes:
  fixes d :: s_p8_log_desc
  defines "f \<equiv> get_svc_str_len (ld_file d)" and "g \<equiv> get_svc_str_len (ld_function d)"
    and "t \<equiv> get_svc_str_len (ld_format d)"
  defines "k \<equiv> if length (ld_args d) > P8_LOG_MAX_ARGS then P8_LOG_MAX_ARGS else length (ld_args d)"
  defines "n \<equiv> align_up_8 (sizeof_log_item_svc + f + g + t + k * 2)"
  defines "ws \<equiv> [svc_hdr P8_SVC_TYPE_LOG_DESC n,
           (4, le32 (ld_line d)), (8, le64 (ld_hash d)), (16, le16 (word_of_nat t)),
           (18, le16 (word_of_nat f)), (20, le16 (word_of_nat g)), (22, [word_of_nat k]),
           (sizeof_log_item_svc, svc_str (ld_file d)),
           (sizeof_log_item_svc + f, svc_str (ld_function d)),
           (sizeof_log_item_svc + f + g, svc_str (ld_format d)),
           (sizeof_log_item_svc + f + g + t, concat (map enc_varg (take k (ld_args d))))]"
  shows "writes_ok 0 ws n" and "entry_bytes 0 ws n = log_entry d"
proof -
  have k: "take k (ld_args d) = take 32 (ld_args d)" "k = length (take 32 (ld_args d))" by (auto simp: k_def)
  have b: "24 + f + g + t + k * 2 \<le> n" unfolding n_def by (rule align_up_8_ge)
  have v: "length (concat (map enc_varg (take k (ld_args d)))) = k * 2"
    using k by (simp only: length_vargs)
  show "writes_ok 0 ws n" using b by (simp add: ws_def svc_hdr_def f_def g_def t_def v)
  show "entry_bytes 0 ws n = log_entry d"
    using v unfolding log_entry_def Let_def length_svc_str k(2) [symmetric] n_def [symmetric] k(1)
    by (simp add: ws_def svc_hdr_def zpad_def entry_hdr_def k(1) flip: f_def g_def t_def n_def)
qed

lemma str_is_entry: "length s \<le> P8_SVC_STR_MAX_LEN \<Longrightarrow> is_entry (str_entry ty s h)"
  using align_up_8_ge [of "16 + length s"]
  unfolding str_entry_def Let_def
  by (intro is_entry_zpad [OF refl]) (auto intro!: align_le)

lemma str_writes:
  fixes s :: "byte list" and ty :: byte and h :: u64
  defines "n \<equiv> align_up_8 (sizeof_str_svc + length s)"
  defines "ws \<equiv> [svc_hdr ty n, (4, le16 (word_of_nat (length s))), (8, le64 h), (sizeof_str_svc, s)]"
  shows "writes_ok 0 ws n" and "entry_bytes 0 ws n = str_entry ty s h"
proof -
  have g: "16 + length s \<le> n" unfolding n_def by (rule align_up_8_ge)
  then show "writes_ok 0 ws n" by (simp add: ws_def svc_hdr_def)
  show "entry_bytes 0 ws n = str_entry ty s h"
    by (simp add: ws_def svc_hdr_def str_entry_def zpad_def Let_def entry_hdr_def numeral_2_eq_2 flip: n_def)
qed

lemma trc_is_entry: "is_entry (trc_entry h line f g n)"
  by (auto simp: is_entry_def trc_entry_def)

lemma trc_writes:
  fixes line :: u32 and h f g n :: u64
  defines "ws \<equiv> [svc_hdr P8_SVC_TYPE_TRACE 40, (4, le32 line), (8, le64 h), (16, le64 f), (24, le64 g), (32, le64 n)]"
  shows "writes_ok 0 ws 40" and "entry_bytes 0 ws 40 = trc_entry h line f g n"
  by (simp_all add: ws_def svc_hdr_def trc_entry_def entry_hdr_def)

section \<open>Attributes, modules, metrics\<close>

text \<open>What a non-waiting entry does: it is appended, or dropped for want of a buffer.\<close>

definition entry_put :: "(byte list \<Rightarrow> u64) \<Rightarrow> nat \<Rightarrow> byte list \<Rightarrow> core \<Rightarrow> core \<Rightarrow> bool" where
  "entry_put xxh n e c c' \<longleftrightarrow> svc_ok c' \<and> harmless xxh c c' \<and> svc_static c' = svc_static c
     \<and> svc_total c' = svc_total c @ (if svc_full n c \<and> fst (acquire_buffer c) = None then [] else e)"

lemma put_entry:
  assumes "svc_ok c" and "writes_ok 0 ws n" and "entry_bytes 0 ws n = e" and "is_entry e"
  shows "\<exists>c'. svc_put_now n ws c = Some c' \<and> entry_put xxh (length e) e c c'"
proof -
  have "length e = n" using length_entry_bytes [OF assms(2)] assms(3) by simp
  then show ?thesis using svc_put_now_spec [OF assms(1,2)] assms(3,4) unfolding entry_put_def by metis
qed

lemma serialize_attr_desc_spec:
  "svc_ok c \<Longrightarrow> \<exists>c'. serialize_attr_desc d c = Some c' \<and> entry_put xxh (length (attr_entry d)) (attr_entry d) c c'"
  unfolding serialize_attr_desc_def Let_def by (rule put_entry [OF _ attr_writes attr_is_entry])

lemma serialize_log_mod_spec:
  "svc_ok c \<Longrightarrow> \<exists>c'. serialize_log_mod d c = Some c' \<and> entry_put xxh (length (mod_entry d)) (mod_entry d) c c'"
  unfolding serialize_log_mod_def Let_def by (rule put_entry [OF _ mod_writes mod_is_entry])

lemma length_mtk_entry: "length (mtk_entry d blob j) = align_up_8 (32 + get_svc_str_len (Some (mkd_name d))
    + get_svc_str_len (mkd_description d) + get_svc_str_len (mkd_unit d) + length blob)"
  using length_entry_bytes [OF mtk_writes(1), of d blob j] by (simp add: mtk_writes(2))

lemma serialize_mtk_desc_spec:
  assumes "svc_ok c"
  shows "\<exists>c'. serialize_mtk_desc d blob j c = Some c' \<and>
    (if length (mtk_entry d blob j) \<le> mz_data_buffer_size
     then entry_put xxh (length (mtk_entry d blob j)) (mtk_entry d blob j) c c' else c' = c)"
proof (cases "length (mtk_entry d blob j) \<le> mz_data_buffer_size")
  case True
  then have "is_entry (mtk_entry d blob j)" by (intro mtk_is_entry) (simp add: length_mtk_entry)
  from put_entry [OF assms mtk_writes this] True show ?thesis
    unfolding serialize_mtk_desc_def Let_def by simp
next
  case False
  then show ?thesis by (simp add: serialize_mtk_desc_def Let_def svc_put_now_large length_mtk_entry)
qed

section \<open>Descriptors\<close>

text \<open>Steps that change only a registry.\<close>

lemma own_registry:
  assumes "own_inv ty self h w c"
  shows "own_inv ty self h w (c\<lparr>mo_log_descs := ld\<rparr>)" and "own_inv ty self h w (c\<lparr>mo_trc_descs := td\<rparr>)"
    and "own_inv ty self h w (names_insert kind x c)"
  using assms
  by (cases kind; simp add: own_inv_def own_bufs_def wr_inv_def core_ok_def cache_ok_def svc_inv_def
      svc_addrs_def may_wait_def)+

lemma svc_total_registry [simp]:
  "svc_total (c\<lparr>mo_log_descs := ld\<rparr>) = svc_total c" "svc_total (c\<lparr>mo_trc_descs := td\<rparr>) = svc_total c"
  "svc_total (names_insert kind x c) = svc_total c"
  by (cases kind; simp add: svc_total_def)+

lemma names_of_registry [simp]:
  "names_of kind (c\<lparr>mo_log_descs := ld\<rparr>) = names_of kind c"
  "names_of kind (c\<lparr>mo_trc_descs := td\<rparr>) = names_of kind c"
  "names_of kind (names_insert kind' x c) = (if kind = kind' then insert x (names_of kind c) else names_of kind c)"
  by (cases kind; cases kind'; simp)+

lemma names_insert_fields [simp]:
  "mo_log_descs (names_insert kind x c) = mo_log_descs c" "mo_trc_descs (names_insert kind x c) = mo_trc_descs c"
  by (cases kind; simp)+

lemma catalog_log:
  assumes "catalog xxh c" and "sublist (log_entry d) (svc_total c)" and "ld_hash d = h"
  shows "catalog xxh (c\<lparr>mo_log_descs := (mo_log_descs c)(h \<mapsto> d)\<rparr>)"
  using assms by (simp add: catalog_def)

lemma catalog_name:
  assumes "catalog xxh c" and "named xxh (svc_total c) kind h"
  shows "catalog xxh (names_insert kind h c)"
  using assms by (simp add: catalog_def)

lemma catalog_trc:
  assumes "catalog xxh c" and "span_described xxh (svc_total c) h"
  shows "catalog xxh (c\<lparr>mo_trc_descs := insert h (mo_trc_descs c)\<rparr>)"
  using assms by (simp add: catalog_def)

lemma evolves_catalog: "evolves xxh w c w' c' \<Longrightarrow> catalog xxh c \<Longrightarrow> catalog xxh c'"
  by (simp add: evolves_def)

lemma evolves_names: "evolves xxh w c w' c' \<Longrightarrow> names_of kind c \<subseteq> names_of kind c'"
  by (cases kind) (simp_all add: evolves_def)

lemma make_log_desc_hash [simp]: "ld_hash (make_log_desc h file line func fmt) = h"
  by (simp add: make_log_desc_def Let_def)

lemma sublist_end: "sublist e (t @ e)"
  unfolding sublist_def by (intro exI [of _ t] exI [of _ "[]"]) simp

context other_threads
begin

lemma put_wait_entry:
  assumes "own_inv ty self {} w c" and "writes_ok 0 ws n" and e: "entry_bytes 0 ws n = e" and "is_entry e"
    and "svc_put_wait env self n ws w c = Some (ok, w', c')"
  shows "own_inv ty self {} w' c' \<and> evolves xxh w c w' c'
    \<and> (ok \<longrightarrow> (\<exists>t. svc_total c' = t @ e \<and> prefix (svc_total c) t))"
  using svc_put_wait_own [OF assms(1,2) _ assms(5)] assms(4) unfolding e by blast

lemma resolve_log_desc_own:
  assumes o: "own_inv ty self {} w c"
    and r: "resolve_log_desc env self alloc h file line func fmt w c = Some (r, w', c')"
  shows "own_inv ty self {} w' c' \<and> evolves xxh w c w' c'
    \<and> (\<forall>d. r = Some d \<longrightarrow> mo_log_descs c' h = Some d)"
proof (cases "mo_log_descs c h = None \<and> alloc")
  case False
  with o r show ?thesis by (auto simp: resolve_log_desc_def split: option.splits)
next
  case True
  let ?d = "make_log_desc h file line func fmt"
  from True r obtain ok c1 where s: "serialize_log_desc env self ?d w c = Some (ok, w', c1)"
    and c': "if ok then r = Some ?d \<and> c' = c1\<lparr>mo_log_descs := (mo_log_descs c1)(h \<mapsto> ?d)\<rparr> else r = None \<and> c' = c1"
    by (auto simp: resolve_log_desc_def Let_def split: bind_splits if_splits)
  from put_wait_entry [OF o log_writes log_is_entry s [unfolded serialize_log_desc_def Let_def]] sublist_end
  have own: "own_inv ty self {} w' c1" and ev: "evolves xxh w c w' c1"
    and en: "ok \<longrightarrow> sublist (log_entry ?d) (svc_total c1)"
    by auto
  show ?thesis
  proof (cases ok)
    case False
    with c' own ev show ?thesis by simp
  next
    case okt: True
    then have "catalog xxh c \<longrightarrow> catalog xxh c'" using c' en catalog_log [OF evolves_catalog [OF ev]] by simp
    moreover have "mo_log_descs c \<subseteq>\<^sub>m mo_log_descs c'"
      using ev True c' okt by (auto simp: evolves_def map_le_def)
    ultimately have "evolves xxh w c w' c'" using ev c' okt by (simp add: evolves_def)
    with c' okt own_registry(1) [OF own] show ?thesis by simp
  qed
qed

lemma serialize_str_own:
  assumes o: "own_inv ty self {} w c"
    and s: "serialize_str xxh env self kind str w c = Some (ok, h, w', c')"
  shows "own_inv ty self {} w' c' \<and> evolves xxh w c w' c' \<and> (ok \<longrightarrow> h \<in> names_of kind c')"
proof -
  define b where "b = svc_str (Some (case str of None \<Rightarrow> [] | Some s \<Rightarrow> s))"
  have b: "length b = get_svc_str_len (Some (case str of None \<Rightarrow> [] | Some s \<Rightarrow> s))"
    "length b \<le> 1024" "take (length b) (case str of None \<Rightarrow> [] | Some s \<Rightarrow> s) = b"
    using get_svc_str_len_max [of "Some (case str of None \<Rightarrow> [] | Some s \<Rightarrow> s)"]
    by (simp_all add: b_def svc_str_Some)
  have h: "h = xxh b" using s unfolding serialize_str_def Let_def b(1) [symmetric] b(3)
    by (auto split: if_splits bind_splits)
  show ?thesis
  proof (cases "xxh b \<in> names_of kind c")
    case True
    with o s h show ?thesis unfolding serialize_str_def Let_def b(1) [symmetric] b(3) by simp
  next
    case False
    let ?n = "align_up_8 (sizeof_str_svc + length b)"
    let ?ws = "[svc_hdr (names_type kind) ?n, (4, le16 (word_of_nat (length b))), (8, le64 h), (sizeof_str_svc, b)]"
    from False s h obtain c1 where p: "svc_put_wait env self ?n ?ws w c = Some (ok, w', c1)"
      and c': "c' = (if ok then names_insert kind h c1 else c1)"
      unfolding serialize_str_def Let_def b(1) [symmetric] b(3) by (auto split: bind_splits if_splits)
    from put_wait_entry [OF o str_writes str_is_entry [OF b(2)] p] sublist_end
    have own: "own_inv ty self {} w' c1" and ev: "evolves xxh w c w' c1"
      and en: "ok \<longrightarrow> sublist (str_entry (names_type kind) b h) (svc_total c1)"
      by auto
    show ?thesis
    proof (cases ok)
      case False
      with c' own ev show ?thesis by simp
    next
      case True
      then have "named xxh (svc_total c1) kind h" using en b(2) h by (auto simp: named_def)
      from catalog_name [OF evolves_catalog [OF ev] this] have "catalog xxh c \<longrightarrow> catalog xxh c'" using c' True by simp
      moreover have "svc_total c' = svc_total c1" using c' True by simp
      ultimately have "evolves xxh w c w' c'"
        using ev c' True by (cases kind) (auto simp: evolves_def)
      with c' True own_registry(3) [OF own] show ?thesis by simp
    qed
  qed
qed

lemma serialize_trc_desc_own:
  assumes o: "own_inv ty self {} w c"
    and s: "serialize_trc_desc env self h line f g n w c = Some (ok, w', c')"
  shows "own_inv ty self {} w' c' \<and> evolves xxh w c w' c'
    \<and> (ok \<longrightarrow> (\<exists>t. svc_total c' = t @ trc_entry h line f g n \<and> prefix (svc_total c) t))"
  by (rule put_wait_entry [OF o trc_writes trc_is_entry s [unfolded serialize_trc_desc_def]])

text \<open>The strings of a span descriptor are sent before it.\<close>

lemma resolve_trc_desc_own:
  assumes o: "own_inv ty self {} w c"
    and r: "resolve_trc_desc xxh env self h file line func name w c = Some (r, w', c')"
  shows "own_inv ty self {} w' c' \<and> evolves xxh w c w' c' \<and> (r \<longrightarrow> h \<in> mo_trc_descs c')"
proof (cases "h \<in> mo_trc_descs c")
  case True
  with o r show ?thesis by (simp add: resolve_trc_desc_def)
next
  case False
  obtain ok1 f w1 c1 where s1: "serialize_str xxh env self File_names file w c = Some (ok1, f, w1, c1)"
    using r False by (cases "serialize_str xxh env self File_names file w c") (auto simp: resolve_trc_desc_def)
  note a1 = serialize_str_own [OF o s1]
  have o1: "own_inv ty self {} w1 c1" and e1: "evolves xxh w c w1 c1" and k1: "catalog xxh c \<longrightarrow> catalog xxh c1"
    using a1 evolves_catalog by auto
  show ?thesis
  proof (cases ok1)
    case n1: False
    with r False s1 o1 e1 show ?thesis by (simp add: resolve_trc_desc_def)
  next
    case t1: True
    obtain ok2 g w2 c2 where s2: "serialize_str xxh env self Func_names func w1 c1 = Some (ok2, g, w2, c2)"
      using r False s1 t1 by (cases "serialize_str xxh env self Func_names func w1 c1") (auto simp: resolve_trc_desc_def)
    note a2 = serialize_str_own [OF o1 s2]
    have o2: "own_inv ty self {} w2 c2" and e2: "evolves xxh w c w2 c2" and k2: "catalog xxh c \<longrightarrow> catalog xxh c2"
      using a2 evolves_catalog k1 evolves_trans [OF e1] by auto
    show ?thesis
    proof (cases ok2)
      case n2: False
      with r False s1 t1 s2 o2 e2 show ?thesis by (simp add: resolve_trc_desc_def)
    next
      case t2: True
      obtain ok3 n w3 c3 where s3: "serialize_str xxh env self Span_names name w2 c2 = Some (ok3, n, w3, c3)"
        using r False s1 t1 s2 t2 by (cases "serialize_str xxh env self Span_names name w2 c2") (auto simp: resolve_trc_desc_def)
      note a3 = serialize_str_own [OF o2 s3]
      have o3: "own_inv ty self {} w3 c3" and e3: "evolves xxh w c w3 c3" and k3: "catalog xxh c \<longrightarrow> catalog xxh c3"
        using a3 evolves_catalog k2 evolves_trans [OF e2] by auto
      show ?thesis
      proof (cases ok3)
        case n3: False
        with r False s1 t1 s2 t2 s3 o3 e3 show ?thesis by (simp add: resolve_trc_desc_def)
      next
        case t3: True
        obtain ok4 w4 c4 where s4: "serialize_trc_desc env self h line f g n w3 c3 = Some (ok4, w4, c4)"
          and c': "w' = w4" "r = ok4" "c' = (if ok4 then c4\<lparr>mo_trc_descs := insert h (mo_trc_descs c4)\<rparr> else c4)"
          using r False s1 t1 s2 t2 s3 t3
          by (cases "serialize_trc_desc env self h line f g n w3 c3") (auto simp: resolve_trc_desc_def split: if_splits)
        note a4 = serialize_trc_desc_own [OF o3 s4]
        have o4: "own_inv ty self {} w4 c4" and e4: "evolves xxh w c w4 c4" and k4: "catalog xxh c \<longrightarrow> catalog xxh c4"
          using a4 evolves_catalog k3 evolves_trans [OF e3] by auto
        show ?thesis
        proof (cases ok4)
          case n4: False
          with c' o4 e4 show ?thesis by simp
        next
          case t4: True
          have "f \<in> names_of File_names c3" "g \<in> names_of Func_names c3" "n \<in> names_of Span_names c3"
            using a1 t1 a2 t2 a3 t3 evolves_names by blast+
          then have nm: "named xxh (svc_total c3) File_names f" "named xxh (svc_total c3) Func_names g"
            "named xxh (svc_total c3) Span_names n" if "catalog xxh c"
            using k3 that unfolding catalog_def by blast+
          from a4 t4 obtain t where t: "svc_total c4 = t @ trc_entry h line f g n" "prefix (svc_total c3) t" by blast
          have "span_described xxh (svc_total c4) h" if "catalog xxh c"
            unfolding span_described_def t(1) using nm [OF that, THEN named_mono, OF t(2)] by (metis append_Nil2)
          then have "catalog xxh c \<longrightarrow> catalog xxh c'" using catalog_trc [OF k4 [THEN mp]] c' t4 by simp
          then have "evolves xxh w c w' c'" using e4 c' t4 by (auto simp: evolves_def)
          with c' t4 own_registry(2) [OF o4] show ?thesis by simp
        qed
      qed
    qed
  qed
qed

end


context others_serve
begin

lemma resolve_log_desc_returns:
  "own_inv ty self {} w c \<Longrightarrow> resolve_log_desc env self alloc h file line func fmt w c \<noteq> None"
  by (simp add: resolve_log_desc_def serialize_log_desc_def Let_def bind_eq_None_conv svc_put_wait_returns
      del: not_None_eq split: option.split prod.split)

lemma serialize_str_returns:
  "own_inv ty self {} w c \<Longrightarrow> serialize_str xxh env self kind str w c \<noteq> None"
  by (simp add: serialize_str_def Let_def bind_eq_None_conv svc_put_wait_returns
      del: not_None_eq split: prod.split)

lemma resolve_trc_desc_returns:
  assumes o: "own_inv ty self {} w c" and k: "catalog xxh c"
  shows "resolve_trc_desc xxh env self h file line func name w c \<noteq> None"
proof (cases "h \<in> mo_trc_descs c")
  case False
  obtain ok1 f w1 c1 where s1: "serialize_str xxh env self File_names file w c = Some (ok1, f, w1, c1)"
    using serialize_str_returns [OF o] by (metis not_Some_eq prod_cases4)
  note a1 = serialize_str_own [OF o s1]
  then have o1: "own_inv ty self {} w1 c1" and k1: "catalog xxh c1" using evolves_catalog k by auto
  obtain ok2 g w2 c2 where s2: "serialize_str xxh env self Func_names func w1 c1 = Some (ok2, g, w2, c2)"
    using serialize_str_returns [OF o1] by (metis not_Some_eq prod_cases4)
  note a2 = serialize_str_own [OF o1 s2]
  then have o2: "own_inv ty self {} w2 c2" and k2: "catalog xxh c2" using evolves_catalog k1 by auto
  obtain ok3 n w3 c3 where s3: "serialize_str xxh env self Span_names name w2 c2 = Some (ok3, n, w3, c3)"
    using serialize_str_returns [OF o2] by (metis not_Some_eq prod_cases4)
  have o3: "own_inv ty self {} w3 c3" using serialize_str_own [OF o2 s3] by simp
  obtain r where s4: "serialize_trc_desc env self h line f g n w3 c3 = Some r"
    using svc_put_wait_returns [OF o3] by (force simp: serialize_trc_desc_def)
  show ?thesis using False s1 s2 s3 s4 
    by (cases ok1; cases ok2; cases ok3; cases r) (simp_all add: resolve_trc_desc_def)
qed (simp add: resolve_trc_desc_def)

end

end
