(* ===== verification/P8_Emit.thy ===== *)
theory P8_Emit
  imports P8_Service_Proofs
begin

text \<open>
  The frame the emit paths share (\<open>cp8_log::send\<close>, \<open>cp8_mtk::emit\<close>, \<open>cp8_trc::write_begin\<close>,
  \<open>cp8_trc::write_end\<close>): a current buffer with room is found or taken (\<open>park\<close>,
  \<open>take_buffer\<close>), the record is written behind the write offset, its header is completed
  last, the record is padded to 8 bytes and the buffer's size updated; a record that runs out
  of buffers is discarded. The lemmas state each step on the writer's stream and on what the
  thread may rely on.
\<close>

section \<open>Steps\<close>

text \<open>\<open>mo_fragments.push_last(mp_buffer); mp_buffer = nullptr\<close>.\<close>

definition park :: "tls_writer \<Rightarrow> tls_writer" where
  "park w = (case mp_buffer w of None \<Rightarrow> w
     | Some b \<Rightarrow> w\<lparr>mo_fragments := mo_fragments w @ [b], mp_buffer := None\<rparr>)"

text \<open>The current buffer cannot hold \<open>n\<close> more bytes.\<close>

definition lacks_room :: "nat \<Rightarrow> tls_writer \<Rightarrow> bool" where
  "lacks_room n w \<longleftrightarrow> mp_buffer w \<noteq> None \<and> mz_buf_max w - mz_buf_used w < n"

text \<open>Without a current buffer one is taken, with the writer's lock released, and its header
  written; \<open>False\<close> is the null buffer of a shutdown.\<close>

definition take_buffer ::
    "interference \<Rightarrow> nat \<Rightarrow> byte \<Rightarrow> tls_writer \<Rightarrow> core \<Rightarrow> (bool \<times> tls_writer \<times> core) option" where
  "take_buffer env lo_self lu_packet_type w c =
     (if mp_buffer w \<noteq> None then Some (True, w, c)
      else do {
        (lp_new, w1, c1) \<leftarrow> acquire_blocking env lo_self w c;
        (case lp_new of None \<Rightarrow> Some (False, w1, c1)
         | Some b \<Rightarrow> (case start_buffer lu_packet_type b w1 c1 of (w2, c2) \<Rightarrow> Some (True, w2, c2)))
      })"

text \<open>The pen at the write offset, and \<open>lp_dst += n\<close> without writing.\<close>

definition pen_at :: "tls_writer \<Rightarrow> core \<Rightarrow> pen" where
  "pen_at w c = \<lparr>pn_w = w, pn_c = c, io_dst = mz_buf_used w, io_buf_end = mz_buf_max w, oz_written = 0\<rparr>"

definition advance :: "nat \<Rightarrow> pen \<Rightarrow> pen" where
  "advance n p = p\<lparr>io_dst := io_dst p + n\<rparr>"

text \<open>Assignments through \<open>lp_hdr\<close>, which stays on the buffer the record began in.\<close>

definition at_hdr :: "addr \<Rightarrow> nat \<Rightarrow> (mem \<Rightarrow> byte list) \<Rightarrow> pen \<Rightarrow> pen" where
  "at_hdr b off f p = p\<lparr>pn_c := patch b off (f (co_mem (pn_c p))) (pn_c p)\<rparr>"

text \<open>The bytes that pad \<open>lz_size\<close> to 8.\<close>

definition lz_pad :: "nat \<Rightarrow> nat" where
  "lz_pad lz_size = align_up_8 lz_size - lz_size"

lemma lz_pad: "lz_pad n < 8" "8 dvd n + lz_pad n" "n + lz_pad n = align_up_8 n"
  using align_up_8_ge [of n] align_up_8_less [of n] align_up_8_dvd [of n] by (simp_all add: lz_pad_def)

lemma lz_pad_mod: "lz_pad n = (if n mod 8 = 0 then 0 else 8 - n mod 8)"
proof -
  define q where "q = n div 8"
  define r where "r = n mod 8"
  have n: "n = 8 * q + r" "r < 8" by (simp_all add: q_def r_def)
  have "(8 * q + (r + 7)) div 8 = q + (r + 7) div 8" by (rule div_mult_self4) simp
  moreover have "(r + 7) div 8 = (if r = 0 then 0 else 1)"
  proof (cases "r = 0")
    case False
    then have "r + 7 = 8 + (r - 1)" by simp
    with n(2) show ?thesis using False by simp
  qed simp
  ultimately have "align_up_8 n = 8 * (q + (if r = 0 then 0 else 1))"
    by (simp add: align_up_8_def n(1) add.assoc)
  then show ?thesis unfolding lz_pad_def r_def [symmetric] using n by auto
qed

text \<open>Assignments to fields of a header of \<open>n\<close> bytes.\<close>

definition set_hdr ::
    "('h \<Rightarrow> byte list) \<Rightarrow> (byte list \<Rightarrow> 'h) \<Rightarrow> nat \<Rightarrow> addr \<Rightarrow> nat \<Rightarrow> ('h \<Rightarrow> 'h) \<Rightarrow> pen \<Rightarrow> pen" where
  "set_hdr enc dec n b off f = at_hdr b off (\<lambda>m. enc (f (dec (rd m b off n))))"

definition chars :: "'a list option \<Rightarrow> 'a list" where
  "chars s = (case s of None \<Rightarrow> [] | Some cs \<Rightarrow> cs)"

text \<open>\<open>if (ip_attrs && iz_attrs)\<close>.\<close>

definition serialize_some_attrs ::
    "nat \<Rightarrow> s_p8_attr_val list option \<Rightarrow> pen \<Rightarrow> (s_p8_attrs_result \<times> pen) option" where
  "serialize_some_attrs iz_record ip_attrs p =
     (if ip_attrs = None \<or> ip_attrs = Some [] then Some (\<lparr>mb_done = True, mu_count = 0, mz_bytes = 0\<rparr>, p)
      else serialize_attrs iz_record ip_attrs p)"

section \<open>What the core keeps\<close>

text \<open>The core's side of \<open>evolves\<close>.\<close>

definition grows :: "(byte list \<Rightarrow> u64) \<Rightarrow> core \<Rightarrow> core \<Rightarrow> bool" where
  "grows xxh c c' \<longleftrightarrow> prefix (mo_attr_descs c) (mo_attr_descs c') \<and> mo_log_descs c \<subseteq>\<^sub>m mo_log_descs c'
     \<and> mo_trc_descs c \<subseteq> mo_trc_descs c' \<and> mo_file_names c \<subseteq> mo_file_names c'
     \<and> mo_func_names c \<subseteq> mo_func_names c' \<and> mo_span_names c \<subseteq> mo_span_names c'
     \<and> prefix (svc_total c) (svc_total c') \<and> (catalog xxh c \<longrightarrow> catalog xxh c')"

lemma evolves_grows: "evolves xxh w c w' c' \<Longrightarrow> grows xxh c c'"
  by (simp add: evolves_def grows_def)

lemma grows_refl [simp]: "grows xxh c c"
  by (simp add: grows_def)

lemma grows_trans: "grows xxh c c1 \<Longrightarrow> grows xxh c1 c2 \<Longrightarrow> grows xxh c c2"
  unfolding grows_def by (meson map_le_trans prefix_order.trans subset_trans)

lemma grows_catalog: "grows xxh c c' \<Longrightarrow> catalog xxh c \<Longrightarrow> catalog xxh c'"
  by (simp add: grows_def)

lemma grows_log_desc: "grows xxh c c' \<Longrightarrow> mo_log_descs c h = Some d \<Longrightarrow> mo_log_descs c' h = Some d"
  unfolding grows_def map_le_def by (metis domI)

lemma grows_trc_desc: "grows xxh c c' \<Longrightarrow> h \<in> mo_trc_descs c \<Longrightarrow> h \<in> mo_trc_descs c'"
  unfolding grows_def by blast

text \<open>A step that leaves the service buffers alone.\<close>

lemma svc_frame:
  assumes "svc_inv c" and "core_static c' = core_static c"
    and "\<And>a. a \<in> set (svc_addrs c) \<Longrightarrow> co_mem c' a = co_mem c a"
    and "set (svc_addrs c) \<subseteq> owned (mp_data_pool c')"
  shows "svc_inv c'" and "svc_addrs c' = svc_addrs c" and "grows xxh c c'"
proof -
  note st = core_static_fields [OF assms(2)]
  show ad: "svc_addrs c' = svc_addrs c" by (simp add: svc_addrs_def st)
  have rd: "rd (co_mem c') (sb_buf s) 0 n = rd (co_mem c) (sb_buf s) 0 n" if "s \<in> set (mo_svc_buffers c)" for s n
    using assms(3) [of "sb_buf s"] that by (simp add: svc_addrs_def rd_def)
  then show "svc_inv c'"
    using assms(1,4) unfolding svc_inv_def ad st(3) framed_def by simp
  have tt: "svc_total c' = svc_total c"
    using rd by (auto simp: svc_total_def svc_bytes_def st intro!: arg_cong [of _ _ concat])
  have "catalog xxh c'" if k: "catalog xxh c"
    by (rule catalog_mono [OF k]) (simp_all add: tt st)
  with tt show "grows xxh c c'" by (simp add: grows_def st)
qed

text \<open>
  What a call leaves to others: the data buffers handed out that are not the writer's, and the
  ready queue. None of them changes, becomes the writer's or a service buffer, or goes back to the pool.
\<close>

definition foreign :: "tls_writer \<Rightarrow> core \<Rightarrow> addr set" where
  "foreign w c = owned (mp_data_pool c) - set (bufs w) - set (svc_addrs c)"

definition leaves :: "tls_writer \<Rightarrow> core \<Rightarrow> tls_writer \<Rightarrow> core \<Rightarrow> bool" where
  "leaves w c w' c' \<longleftrightarrow> foreign w c \<subseteq> foreign w' c' \<and> (\<forall>a \<in> foreign w c. co_mem c' a = co_mem c a)
     \<and> mo_ready_queue c' = mo_ready_queue c \<and> co_svc_sent c' = co_svc_sent c"

lemma leaves_refl [simp]: "leaves w c w c"
  by (simp add: leaves_def)

lemma leaves_trans: "leaves w c w1 c1 \<Longrightarrow> leaves w1 c1 w2 c2 \<Longrightarrow> leaves w c w2 c2"
  unfolding leaves_def by (metis subset_iff)

lemma leaves_bufs: "bufs w1 = bufs w \<Longrightarrow> leaves w1 c w' c' = leaves w c w' c'"
  and leaves_bufs': "bufs w1 = bufs w' \<Longrightarrow> leaves w c w1 c' = leaves w c w' c'"
  by (simp_all add: leaves_def foreign_def)

lemma leaves_owned:
  assumes "core_static c' = core_static c" and "\<And>a. a \<in> owned (mp_data_pool c) \<Longrightarrow> a \<notin> A \<Longrightarrow> co_mem c' a = co_mem c a"
    and "owned (mp_data_pool c) - A \<subseteq> owned (mp_data_pool c')" and "A \<subseteq> set (bufs w)"
    and "set (bufs w') \<inter> owned (mp_data_pool c) \<subseteq> set (bufs w)"
  shows "leaves w c w' c'"
proof -
  note st = core_static_fields [OF assms(1)]
  have "svc_addrs c' = svc_addrs c" by (simp add: svc_addrs_def st)
  then have "foreign w c \<subseteq> foreign w' c'" using assms(3-5) unfolding foreign_def by auto
  moreover have "co_mem c' a = co_mem c a" if "a \<in> foreign w c" for a
    using assms(2) [of a] assms(4) that by (auto simp: foreign_def)
  ultimately show ?thesis by (simp add: leaves_def st)
qed

section \<open>Parking and taking a buffer\<close>

lemma park_bufs [simp]: "bufs (park w) = bufs w"
  by (simp add: park_def bufs_def split: option.split)

lemma park_fields [simp]:
  "mp_buffer (park w) = None" "mu_buf_seq (park w) = mu_buf_seq w" "mo_attr_cache (park w) = mo_attr_cache w"
  "mz_buf_max (park w) = mz_buf_max w" "mu_thread_id (park w) = mu_thread_id w" "mp_core (park w) = mp_core w"
  "mu_writer_id (park w) = mu_writer_id w" "wr_dropped (park w) = wr_dropped w"
  "mz_buf_used (park w) = mz_buf_used w"
  by (simp_all add: park_def split: option.split)

lemma park_wr_inv: "wr_inv ty w c \<Longrightarrow> wr_inv ty ((park w)\<lparr>mz_buf_used := n\<rparr>) c"
  and park_wr_inv': "wr_inv ty w c \<Longrightarrow> wr_inv ty (park w) c"
proof -
  have "bufs ((park w)\<lparr>mz_buf_used := n\<rparr>) = bufs w" using park_bufs [of w] by (simp add: bufs_def)
  then show "wr_inv ty w c \<Longrightarrow> wr_inv ty ((park w)\<lparr>mz_buf_used := n\<rparr>) c"
    by (simp add: wr_inv_def hdr_ids_def cache_ok_def)
  show "wr_inv ty w c \<Longrightarrow> wr_inv ty (park w) c"
    by (simp add: wr_inv_def hdr_ids_def cache_ok_def)
qed

lemma park_stream [simp]:
  "stream_of (park w) m = stream_of w m" "stream_of ((park w)\<lparr>mz_buf_used := n\<rparr>) m = stream_of w m"
  using park_bufs [of w] by (simp_all add: stream_of_def bufs_def)

lemma park_leaves:
  "leaves w c (park w') c' = leaves w c w' c'" "leaves w c ((park w')\<lparr>mz_buf_used := n\<rparr>) c' = leaves w c w' c'"
  "leaves (park w) c w' c' = leaves w c w' c'" "leaves ((park w)\<lparr>mz_buf_used := n\<rparr>) c w' c' = leaves w c w' c'"
proof -
  have "bufs ((park w)\<lparr>mz_buf_used := n\<rparr>) = bufs w" for w using park_bufs [of w] by (simp add: bufs_def)
  then show "leaves w c (park w') c' = leaves w c w' c'" "leaves w c ((park w')\<lparr>mz_buf_used := n\<rparr>) c' = leaves w c w' c'"
    "leaves (park w) c w' c' = leaves w c w' c'" "leaves ((park w)\<lparr>mz_buf_used := n\<rparr>) c w' c' = leaves w c w' c'"
    by (simp_all add: leaves_def foreign_def)
qed

lemma park_own:
  "own_inv ty self h w c \<Longrightarrow> own_inv ty self h (park w) c"
  "own_inv ty self h w c \<Longrightarrow> own_inv ty self h ((park w)\<lparr>mz_buf_used := n\<rparr>) c"
proof -
  have "bufs ((park w)\<lparr>mz_buf_used := n\<rparr>) = bufs w" using park_bufs [of w] by (simp add: bufs_def)
  then show "own_inv ty self h w c \<Longrightarrow> own_inv ty self h (park w) c"
    "own_inv ty self h w c \<Longrightarrow> own_inv ty self h ((park w)\<lparr>mz_buf_used := n\<rparr>) c"
    using park_wr_inv park_wr_inv' by (simp_all add: own_inv_def own_bufs_def)
qed

text \<open>The fields of a writer that only its owner sets, and that no record changes.\<close>

definition writer_who :: "tls_writer \<Rightarrow> bool \<times> nat \<times> u32 \<times> u32" where
  "writer_who w = (mp_core w, mz_buf_max w, mu_thread_id w, mu_writer_id w)"

lemma writer_who_simps:
  "writer_ids w' = writer_ids w \<Longrightarrow> writer_who w' = writer_who w"
  "writer_static w' = writer_static w \<Longrightarrow> writer_who w' = writer_who w"
  "writer_who (park w) = writer_who w" "writer_who (w\<lparr>mz_buf_used := n\<rparr>) = writer_who w"
  by (simp_all add: writer_who_def writer_ids_def writer_static_def)

text \<open>A fresh buffer after the others.\<close>

lemma start_buffer_own:
  assumes own: "own_inv ty self {b} w c" and n: "mp_buffer w = None"
    and s: "start_buffer ty b w c = (w', c')"
  shows "own_inv ty self {} w' c'" and "stream_of w' (co_mem c') = stream_of w (co_mem c)"
    and "mp_buffer w' = Some b" and "mz_buf_used w' = sizeof_data_buf_hdr" and "grows xxh c c'"
    and "writer_who w' = writer_who w" and "mu_buf_seq w' = mu_buf_seq w + 1" and "core_static c' = core_static c"
proof -
  define h where "h = \<lparr>dbh_packet_type = ty, dbh_flags = 0, dbh_size = word_of_nat sizeof_data_buf_hdr,
         dbh_thread_id = mu_thread_id w, dbh_writer_id = mu_writer_id w, dbh_buf_seq = mu_buf_seq w\<rparr>"
  have w': "w' = w\<lparr>mp_buffer := Some b, mu_buf_seq := mu_buf_seq w + 1, mz_buf_used := 16\<rparr>"
    and c': "c' = c\<lparr>co_mem := wr (co_mem c) b 0 (enc_dbh h)\<rparr>"
    using s by (simp_all add: start_buffer_def h_def)
  show "mp_buffer w' = Some b" "mz_buf_used w' = sizeof_data_buf_hdr" "writer_who w' = writer_who w"
    "mu_buf_seq w' = mu_buf_seq w + 1" "core_static c' = core_static c"
    by (simp_all add: w' c' writer_who_def)
  have inv: "wr_inv ty w c" and sv: "svc_inv c" and b: "b \<in> owned (mp_data_pool c)" "b \<notin> set (bufs w)"
    "b \<notin> set (svc_addrs c)" and dj: "set (bufs w) \<inter> set (svc_addrs c) = {}" and mw: "may_wait self c"
    using own by (auto simp: own_inv_def own_bufs_def)
  have bw: "bufs w' = bufs w @ [b]" using n by (simp add: w' bufs_def)
  have wf: "mu_buf_seq w' = mu_buf_seq w + 1" "mz_buf_max w' = mz_buf_max w" "mo_attr_cache w' = mo_attr_cache w"
    "mp_buffer w' = Some b" "mz_buf_used w' = 16"
    and cf: "mp_data_pool c' = mp_data_pool c" "mb_initialized c' = mb_initialized c" "mo_attr_descs c' = mo_attr_descs c"
    by (simp_all add: w' c')
  have om: "co_mem c' a = co_mem c a" if "a \<noteq> b" for a using that by (simp add: c')
  have bm: "rd (co_mem c') b off k = take k (drop off (enc_dbh h))" if "off + k \<le> 16" for off k
    unfolding c' using that rd_wr_inside [of 0 off k "enc_dbh h" "co_mem c" b] by simp
  have b0: "co_mem c' b i = enc_dbh h ! i" if "i < 16" for i
    using that by (simp add: c' wr_def)
  have szb: "buf_size (co_mem c') b = 16" unfolding buf_size_def by (subst bm) (simp_all add: enc_dbh_def h_def)
  have idb: "hdr_ids ty w' (mu_buf_seq w) (co_mem c') b"
    using bm [of 4 12] b0 [of 0] by (simp add: hdr_ids_def enc_dbh_def h_def w')
  have old: "buf_size (co_mem c') a = buf_size (co_mem c) a" "hdr_ids ty w' q (co_mem c') a = hdr_ids ty w q (co_mem c) a"
    "payload (co_mem c') a = payload (co_mem c) a" if "a \<in> set (bufs w)" for a q
  proof -
    have "co_mem c' a = co_mem c a" using om [of a] b(2) that by blast
    then show "buf_size (co_mem c') a = buf_size (co_mem c) a" "payload (co_mem c') a = payload (co_mem c) a"
      "hdr_ids ty w' q (co_mem c') a = hdr_ids ty w q (co_mem c) a"
      by (simp_all add: buf_size_def hdr_ids_def payload_def rd_def w')
  qed
  show "stream_of w' (co_mem c') = stream_of w (co_mem c)"
    using old(3) by (auto simp: stream_of_def bw payload_def [of _ b] szb intro!: arg_cong [of _ _ concat])
  have "hdr_ids ty w' (mu_buf_seq w' - word_of_nat (length (bufs w') - k)) (co_mem c') (bufs w' ! k)"
    if k: "k < length (bufs w')" for k
  proof (cases "k = length (bufs w)")
    case True
    then show ?thesis using idb by (simp add: bw wf)
  next
    case False
    with k have k: "k < length (bufs w)" by (simp add: bw)
    have "mu_buf_seq w' - word_of_nat (length (bufs w') - k) = mu_buf_seq w - word_of_nat (length (bufs w) - k)"
      using k by (simp add: bw wf Suc_diff_le)
    moreover have "hdr_ids ty w (mu_buf_seq w - word_of_nat (length (bufs w) - k)) (co_mem c) (bufs w ! k)"
      using inv k by (simp add: wr_inv_def)
    moreover have "bufs w' ! k = bufs w ! k" using k by (simp add: bw nth_append)
    ultimately show ?thesis using old(2) [OF nth_mem [OF k]] by (simp only:)
  qed
  moreover have "co_mem c' b 1 = 0" using b0 [of 1] by (simp add: enc_dbh_def h_def)
  moreover have "16 \<le> buf_size (co_mem c') a \<and> buf_size (co_mem c') a \<le> 8192" if "a \<in> set (bufs w')" for a
    using that inv old(1) [of a] szb by (cases "a = b") (auto simp: bw wr_inv_def)
  ultimately have inv': "wr_inv ty w' c'"
    using inv b szb unfolding wr_inv_def by (auto simp: wf cf bw core_ok_def cache_ok_def)
  have st: "core_static c' = core_static c" by (simp add: c')
  have "co_mem c' a = co_mem c a" if "a \<in> set (svc_addrs c)" for a using om b(3) that by metis
  moreover have "set (svc_addrs c) \<subseteq> owned (mp_data_pool c')" using sv by (simp add: svc_inv_def c')
  ultimately have sf: "svc_inv c'" "svc_addrs c' = svc_addrs c" "grows xxh c c'" for xxh
    using svc_frame [OF sv st] by blast+
  then show "grows xxh c c'" by blast
  have "may_wait self c'" using mw by (simp add: may_wait_def c')
  then show "own_inv ty self {} w' c'" using inv' sf(1,2) b dj by (auto simp: own_inv_def own_bufs_def bw)
qed

text \<open>What \<open>take_buffer\<close> leaves: the stream the worker has not pulled meanwhile, and, unless
  the core shuts down, a current buffer.\<close>

definition took ::
    "(byte list \<Rightarrow> u64) \<Rightarrow> byte \<Rightarrow> nat \<Rightarrow> tls_writer \<Rightarrow> core \<Rightarrow> bool \<Rightarrow> tls_writer \<Rightarrow> core \<Rightarrow> bool" where
  "took xxh ty self w c ok w' c' \<longleftrightarrow> own_inv ty self {} w' c' \<and> grows xxh c c' \<and> writer_who w' = writer_who w
     \<and> stream_of w' (co_mem c') \<in> {stream_of w (co_mem c), []}
     \<and> (ok \<longleftrightarrow> mp_buffer w' \<noteq> None)
     \<and> (mp_buffer w \<noteq> None \<longrightarrow> w' = w \<and> c' = c)
     \<and> (mp_buffer w = None \<and> ok \<longrightarrow> mz_buf_used w' = sizeof_data_buf_hdr)"

context other_threads
begin

lemma take_buffer_own:
  assumes own: "own_inv ty self {} w c" and t: "take_buffer env self ty w c = Some (ok, w', c')"
  shows "took xxh ty self w c ok w' c'"
proof (cases "mp_buffer w")
  case (Some b)
  then show ?thesis using own t by (auto simp: take_buffer_def took_def)
next
  case None
  with t obtain r w1 c1 where a: "acquire_blocking env self w c = Some (r, w1, c1)"
    and r: "case r of None \<Rightarrow> \<not> ok \<and> w' = w1 \<and> c' = c1
      | Some b \<Rightarrow> ok \<and> start_buffer ty b w1 c1 = (w', c')"
    by (auto simp: take_buffer_def split: bind_splits option.splits prod.splits)
  from acquire_blocking_own [OF own a] have o1: "own_inv ty self (set_option r) w1 c1"
    and e1: "evolves xxh w c w1 c1" by auto
  have n1: "mp_buffer w1 = None" using e1 None by (auto simp: evolves_def bufs_Nil)
  have who: "writer_who w1 = writer_who w" by (rule writer_who_simps(1)) (use e1 in \<open>simp add: evolves_def\<close>)
  note st = evolves_stream [OF e1] and g1 = evolves_grows [OF e1]
  show ?thesis
  proof (cases r)
    case None
    with r have "\<not> ok" "w' = w1" "c' = c1" by auto
    moreover from o1 None have "own_inv ty self {} w1 c1" by simp
    ultimately show ?thesis using n1 who st g1 \<open>mp_buffer w = None\<close> unfolding took_def by simp
  next
    case (Some b)
    with r have s: "start_buffer ty b w1 c1 = (w', c')" and "ok" by auto
    from o1 Some have "own_inv ty self {b} w1 c1" by simp
    note sb = start_buffer_own [OF this n1 s]
    from sb(3) have "mp_buffer w' \<noteq> None" by simp
    with sb(1,2,4,6) who st grows_trans [OF g1 sb(5)] \<open>mp_buffer w = None\<close> \<open>ok\<close>
    show ?thesis unfolding took_def by simp
  qed
qed

end

context others_serve
begin

lemma take_buffer_returns:
  assumes "own_inv ty self {} w c"
  shows "\<exists>ok w' c'. take_buffer env self ty w c = Some (ok, w', c')"
  using acquire_blocking_returns [OF assms]
  by (auto simp: take_buffer_def split: bind_splits option.splits prod.splits)

end

section \<open>Committing and discarding\<close>

text \<open>A record only changes its own buffers, which are no service buffers.\<close>

lemma rec_frame_own:
  assumes own: "own_inv ty self {} w0 c0" and b: "mp_buffer w0 = Some b0"
    and f: "rec_frame w0 c0 b0 d xs w c"
  shows "set (b0 # xs) \<inter> set (svc_addrs c0) = {}" and "set (svc_addrs c0) \<subseteq> owned (mp_data_pool c)"
    and "set xs \<inter> set (bufs w0) = {}" and "\<And>a. a \<in> set (svc_addrs c0) \<Longrightarrow> co_mem c a = co_mem c0 a"
    and "may_wait self c"
proof -
  have *: "b0 \<in> set (bufs w0)" "set (bufs w0) \<subseteq> owned (mp_data_pool c0)"
    "set (svc_addrs c0) \<subseteq> owned (mp_data_pool c0)" "set (bufs w0) \<inter> set (svc_addrs c0) = {}"
    using own b by (auto simp: own_inv_def own_bufs_def wr_inv_def svc_inv_def bufs_def)
  have **: "set xs \<inter> owned (mp_data_pool c0) = {}" "owned (mp_data_pool c) = owned (mp_data_pool c0) \<union> set xs"
    using f by (simp_all add: rec_frame_def)
  show sd: "set (b0 # xs) \<inter> set (svc_addrs c0) = {}" using * ** by auto
  show "set (svc_addrs c0) \<subseteq> owned (mp_data_pool c)" "set xs \<inter> set (bufs w0) = {}" using * ** by auto
  show "co_mem c a = co_mem c0 a" if "a \<in> set (svc_addrs c0)" for a
    using f sd that unfolding rec_frame_def by (metis disjoint_iff list.set_intros(1) list.set_intros(2))
  show "may_wait self c"
    using may_wait_part [of c c0 self] f own by (simp add: rec_frame_def own_inv_def)
qed

lemma commit_own:
  assumes own: "own_inv ty self {} w0 c0" and b: "mp_buffer w0 = Some b0"
    and o: "rec_open w0 c0 b0 (mz_buf_used w0) bs xs p" and al: "8 dvd length bs"
    and ca: "cache_ok (pn_w p) (pn_c p)" and e: "end_record p = (w, c)"
  shows "own_inv ty self {} w c" and "stream_of w (co_mem c) = stream_of w0 (co_mem c0) @ bs"
    and "mp_buffer w \<noteq> None" and "grows xxh c0 c" and "writer_who w = writer_who w0"
    and "core_static c = core_static c0" and "leaves w0 c0 w c"
proof -
  have inv: "wr_inv ty w0 c0" and sv: "svc_inv c0" using own by (auto simp: own_inv_def own_bufs_def)
  note cr = commit_record [OF inv b o al ca e]
  show "stream_of w (co_mem c) = stream_of w0 (co_mem c0) @ bs" "mp_buffer w \<noteq> None" using cr by simp_all
  show "writer_who w = writer_who w0" by (rule writer_who_simps(2) [OF cr(6)])
  show "core_static c = core_static c0" by (rule cr(5))
  have f: "rec_frame w0 c0 b0 (mz_buf_used w0) xs (pn_w p) (pn_c p)" and lb: "mp_buffer (pn_w p) = Some (last (b0 # xs))"
    using o by (auto simp: rec_open_def)
  note ro = rec_frame_own [OF own b f]
  have c: "c = set_buf_size (last (b0 # xs)) (io_dst p) (pn_c p)" using e lb by (simp add: end_record_def)
  have "last (b0 # xs) \<notin> set (svc_addrs c0)" using ro(1) last_in_set [of "b0 # xs"] by blast
  then have m: "co_mem c a = co_mem c0 a" if "a \<in> set (svc_addrs c0)" for a
    using ro(4) [OF that] set_buf_size_bytes(1) [of a "last (b0 # xs)"] that unfolding c by metis
  have p: "mp_data_pool c = mp_data_pool (pn_c p)" by (simp add: c)
  note sf = svc_frame [OF sv cr(5) m ro(2) [folded p]]
  show "grows xxh c0 c" by (rule sf(3))
  show "leaves w0 c0 w c"
  proof (rule leaves_owned [OF cr(5), of "{b0}"])
    have x: "owned (mp_data_pool (pn_c p)) = owned (mp_data_pool c0) \<union> set xs" "set xs \<inter> owned (mp_data_pool c0) = {}"
      and k: "\<And>a. a \<notin> set xs \<Longrightarrow> a \<noteq> b0 \<Longrightarrow> co_mem (pn_c p) a = co_mem c0 a" using f by (auto simp: rec_frame_def)
    show "co_mem c a = co_mem c0 a" if "a \<in> owned (mp_data_pool c0)" "a \<notin> {b0}" for a
    proof -
      have "a \<notin> set xs" "a \<noteq> last (b0 # xs)" using that x(2) last_in_set [of "b0 # xs"] by auto
      with that(2) k set_buf_size_bytes(1) show ?thesis unfolding c by simp
    qed
    show "owned (mp_data_pool c0) - {b0} \<subseteq> owned (mp_data_pool c)" using x(1) by (auto simp: p)
    show "{b0} \<subseteq> set (bufs w0)" using b by (simp add: bufs_def)
    show "set (bufs w) \<inter> owned (mp_data_pool c0) \<subseteq> set (bufs w0)" using x(2) by (auto simp: cr(2))
  qed
  have "set (bufs w) \<inter> set (svc_addrs c0) = {}"
    using ro(1) own by (auto simp: cr(2) own_inv_def own_bufs_def)
  moreover have "may_wait self c" using ro(5) by (simp add: may_wait_def p)
  ultimately show "own_inv ty self {} w c" using cr(1) sf(1,2) by (simp add: own_inv_def own_bufs_def)
qed

text \<open>Returning a buffer only takes waiters out of the queue.\<close>

lemma recycle_queue:
  assumes "wait_queue p ws"
  shows "wait_queue (recycle (Some b) p) (tl ws)"
proof (cases ws)
  case Nil
  with assms wq.idle_queue [of p] show ?thesis by simp
next
  case (Cons w ws')
  with assms recycle_Cons [of p w ws' b] show ?thesis by simp
qed

lemma fold_recycle_queue: "wait_queue p ws \<Longrightarrow> \<exists>n. wait_queue (fold (\<lambda>b. recycle (Some b)) bs p) (drop n ws)"
proof (induction bs arbitrary: p ws)
  case Nil
  then show ?case by (auto intro: exI [of _ 0])
next
  case (Cons b bs)
  from Cons.IH [OF recycle_queue [OF Cons.prems, of b]] show ?case
    by (auto simp: drop_Suc [symmetric])
qed

lemma may_wait_recycle:
  assumes "may_wait self c" and "pool_ok (mp_data_pool c)"
    and "mp_data_pool c' = fold (\<lambda>b. recycle (Some b)) bs (mp_data_pool c)"
  shows "may_wait self c'"
proof -
  obtain ws where ws: "wait_queue (mp_data_pool c) ws" using assms(2) by (auto simp: pool_ok_def)
  with assms(1) have s: "self \<notin> set ws" "length ws + 1 < 2 ^ 32" by (auto simp: may_wait_def)
  from fold_recycle_queue [OF ws] assms(3) obtain n where n: "wait_queue (mp_data_pool c') (drop n ws)" by auto
  have "vs = drop n ws" if "wait_queue (mp_data_pool c') vs" for vs using wait_queue_unique [OF n that] ..
  moreover have "self \<notin> set (drop n ws)" using s(1) in_set_dropD by fast
  moreover have "length (drop n ws) + 1 < 2 ^ 32" using s(2) by simp
  ultimately show ?thesis unfolding may_wait_def by blast
qed


lemma discard_frame:
  assumes "core_ok c" and mf: "mo_fragments w = (fs @ [b0]) @ xs" and d: "distinct (b0 # xs)"
    and ow: "set (b0 # xs) \<subseteq> owned (mp_data_pool c)"
    and e: "discard_record (length fs) n w c = (w', c')"
  shows "a \<noteq> b0 \<Longrightarrow> co_mem c' a = co_mem c a"
    and "owned (mp_data_pool c) - set (b0 # xs) \<subseteq> owned (mp_data_pool c')"
proof -
  obtain w1 c1 where r: "release_extra (length xs) w c = (w1, c1)" by fastforce
  have rel: "mo_fragments w1 = fs @ [b0]" "core_ok c1" "co_mem c1 = co_mem c"
    "owned (mp_data_pool c) - set xs \<subseteq> owned (mp_data_pool c1)"
    using release_extra_spec [OF assms(1) mf, of] d ow r by auto
  have "length (mo_fragments w) - (length fs + 1) = length xs" by (simp add: mf)
  then have c': "c' = (if n = 16 then release_buffer (Some b0) c1
      else c1\<lparr>co_mem := unmark_fragment b0 n (co_mem c1)\<rparr>)"
    using e r rel(1) by (auto simp: discard_record_def Let_def split: if_splits)
  have "b0 \<in> owned (mp_data_pool c1)" using rel(4) ow d by auto
  note rb = release_buffer_ok [OF rel(2) this]
  show "co_mem c' a = co_mem c a" if "a \<noteq> b0"
    using rb(4) rel(3) unmark_fragment_bytes(1) [OF that] by (simp add: c')
  show "owned (mp_data_pool c) - set (b0 # xs) \<subseteq> owned (mp_data_pool c')"
    using rb(2) rel(4) by (auto simp: c')
qed

lemma discard_own:
  assumes own: "own_inv ty self {} w0 c0" and b: "mp_buffer w0 = Some b0"
    and s: "rec_stuck w0 c0 b0 (mz_buf_used w0) xs w c" and ca: "cache_ok w c"
    and e: "discard_record (length (mo_fragments w0)) (mz_buf_used w0) w c = (w', c')"
  shows "own_inv ty self {} w' c'" and "stream_of w' (co_mem c') = stream_of w0 (co_mem c0)"
    and "grows xxh c0 c'" and "writer_who w' = writer_who w0"
    and "mu_buf_seq w' - word_of_nat (length (bufs w')) = mu_buf_seq w0 - word_of_nat (length (bufs w0))"
    and "core_static c' = core_static c0" and "leaves w0 c0 w' c'"
proof -
  let ?d = "mz_buf_used w0"
  have inv: "wr_inv ty w0 c0" and sv: "svc_inv c0" using own by (auto simp: own_inv_def own_bufs_def)
  note ds = discard_record_spec [OF inv b refl s ca e]
  show "stream_of w' (co_mem c') = stream_of w0 (co_mem c0)" by (rule ds(2))
  show "writer_who w' = writer_who w0" by (rule writer_who_simps(2) [OF ds(5)])
  show "core_static c' = core_static c0" by (rule ds(4))
  have b0: "bufs w0 = mo_fragments w0 @ [b0]" using b by (simp add: bufs_def)
  show "mu_buf_seq w' - word_of_nat (length (bufs w')) = mu_buf_seq w0 - word_of_nat (length (bufs w0))"
    using ds(3) by (auto simp: b0 split: if_splits)
  have f: "rec_frame w0 c0 b0 ?d xs w c" and mf: "mo_fragments w = (mo_fragments w0 @ [b0]) @ xs"
    using s by (auto simp: rec_stuck_def)
  note ro = rec_frame_own [OF own b f] and rb = rec_frame_bytes [OF inv b f]
  have ok: "core_ok c" using f by (simp add: rec_frame_def)
  have "distinct (b0 # xs)" "set (b0 # xs) \<subseteq> owned (mp_data_pool c)" using rb(1,2) by (auto simp: b0)
  note df = discard_frame [OF ok mf this e]
  have m: "co_mem c' a = co_mem c0 a" if "a \<in> set (svc_addrs c0)" for a
  proof -
    have "a \<noteq> b0" using that ro(1) by auto
    then show ?thesis using df(1) ro(4) [OF that] by simp
  qed
  have so: "set (svc_addrs c0) \<subseteq> owned (mp_data_pool c')" using ro(1,2) df(2) by blast
  note sf = svc_frame [OF sv ds(4) m so]
  show "grows xxh c0 c'" by (rule sf(3))
  show "leaves w0 c0 w' c'"
  proof (rule leaves_owned [OF ds(4), of "{b0}"])
    have x: "owned (mp_data_pool c) = owned (mp_data_pool c0) \<union> set xs" "set xs \<inter> owned (mp_data_pool c0) = {}"
      and k: "\<And>a. a \<notin> set xs \<Longrightarrow> a \<noteq> b0 \<Longrightarrow> co_mem c a = co_mem c0 a" using f by (auto simp: rec_frame_def)
    show "co_mem c' a = co_mem c0 a" if "a \<in> owned (mp_data_pool c0)" "a \<notin> {b0}" for a
    proof -
      have "a \<notin> set xs" using that x(2) by auto
      with that(2) k [of a] df(1) [of a] show ?thesis by simp
    qed
    show "owned (mp_data_pool c0) - {b0} \<subseteq> owned (mp_data_pool c')" using x df(2) by auto
    show "{b0} \<subseteq> set (bufs w0)" by (simp add: b0)
    show "set (bufs w') \<inter> owned (mp_data_pool c0) \<subseteq> set (bufs w0)" using ds(3) by (auto simp: b0 split: if_splits)
  qed
  have "pool_ok (mp_data_pool c)" using ok by (simp add: core_ok_def)
  then have "may_wait self c'" by (rule may_wait_recycle [OF ro(5) _ ds(6)])
  moreover have "set (bufs w') \<inter> set (svc_addrs c0) = {}"
    using ds(3) own by (auto simp: b0 own_inv_def own_bufs_def split: if_splits)
  ultimately show "own_inv ty self {} w' c'" using ds(1) sf(1,2) by (simp add: own_inv_def own_bufs_def)
qed

section \<open>Records with a header\<close>

text \<open>
  A record of a header of \<open>n\<close> bytes, a body, and padding. The header is written first and
  completed in place; how \<open>lp_dst\<close> moves over bytes it does not write is \<open>advance\<close>.
\<close>

lemma rec_open_advance:
  assumes s: "rec_start w0 c0 b0 d" and o: "rec_open w0 c0 b0 d bs xs p"
    and room: "io_dst p + n \<le> mz_buf_max w0"
  shows "rec_open w0 c0 b0 d (bs @ rd (co_mem (pn_c p)) (last (b0 # xs)) (io_dst p) n) xs (advance n p)"
proof -
  define m where "m = co_mem (pn_c p)"
  define l where "l = last (b0 # xs)"
  have w: "wr m l (io_dst p) (rd m l (io_dst p) n) = m"
    by (intro ext) (auto simp: wr_def rd_def)
  have b: "mp_buffer (pn_w p) = Some l" using o by (simp add: rec_open_def l_def)
  have "rec_open w0 c0 b0 d (bs @ rd m l (io_dst p) n) xs (put_bytes (rd m l (io_dst p) n) p)"
    using rec_open_put [OF s o, of "rd m l (io_dst p) n"] room by simp
  moreover have "put_bytes (rd m l (io_dst p) n) p = (advance n p)\<lparr>oz_written := oz_written p + n\<rparr>"
    by (simp add: put_bytes_def b advance_def w [unfolded m_def] m_def)
  moreover have "rec_open w0 c0 b0 d cs xs (q\<lparr>oz_written := k\<rparr>) = rec_open w0 c0 b0 d cs xs q" for cs q k
    by (simp add: rec_open_def)
  ultimately show ?thesis by (simp add: m_def l_def)
qed

text \<open>Completing the header in place.\<close>

lemma rec_open_hdr:
  assumes s: "rec_start w0 c0 b0 d" and o: "rec_open w0 c0 b0 d bs xs p"
    and n: "length (f (co_mem (pn_c p))) \<le> length bs" "d + length (f (co_mem (pn_c p))) \<le> mz_buf_max w0"
  shows "rec_open w0 c0 b0 d (f (co_mem (pn_c p)) @ drop (length (f (co_mem (pn_c p)))) bs) xs (at_hdr b0 d f p)"
proof -
  let ?ps = "f (co_mem (pn_c p))"
  have "length ?ps \<le> (if xs = [] then io_dst p - d else mz_buf_max w0 - d)"
  proof (cases "xs = []")
    case True
    then have "length bs = io_dst p - d" using o by (auto simp: rec_open_def)
    with True n show ?thesis by simp
  qed (use n in simp)
  from rec_open_patch [OF s o this] show ?thesis by (simp add: at_hdr_def)
qed

lemma rec_open_hdr_bytes:
  assumes s: "rec_start w0 c0 b0 d" and o: "rec_open w0 c0 b0 d bs xs p"
    and n: "n \<le> length bs" "d + n \<le> mz_buf_max w0"
  shows "rd (co_mem (pn_c p)) b0 d n = take n bs"
proof (cases xs)
  case Nil
  then have "bs = rd (co_mem (pn_c p)) b0 d (io_dst p - d)" using o by (auto simp: rec_open_def)
  with n show ?thesis by (simp add: rd_def take_map min_def)
next
  case (Cons x ys)
  then have "bs = rd (co_mem (pn_c p)) b0 d (mz_buf_max w0 - d)
      @ span_bytes (co_mem (pn_c p)) (mz_buf_max w0) 16 (x # ys) (io_dst p)"
    using o by (auto simp: rec_open_def)
  with n show ?thesis by (simp add: rd_def take_map min_def)
qed

text \<open>The pad never crosses the buffer's end.\<close>

lemma pad_fits:
  assumes inv: "wr_inv ty w0 c0" and b: "mp_buffer w0 = Some b0"
    and o: "rec_open w0 c0 b0 (mz_buf_used w0) bs xs p"
  shows "io_dst p + lz_pad (length bs) \<le> mz_buf_max w0"
proof -
  let ?d = "mz_buf_used w0"
  have d: "8 dvd ?d" "?d \<le> 8192" "16 \<le> ?d" and M: "mz_buf_max w0 = 8192" using inv b by (auto simp: wr_inv_def bufs_def)
  have i: "16 \<le> io_dst p" "io_dst p \<le> 8192" "xs = [] \<longrightarrow> ?d \<le> io_dst p"
    and sp: "bs = span_bytes (co_mem (pn_c p)) 8192 ?d (b0 # xs) (io_dst p)"
    using o by (auto simp: rec_open_def M)
  have "length bs mod 8 = io_dst p mod 8"
    unfolding sp by (rule length_span) (use d i in \<open>auto\<close>)
  then have "lz_pad (length bs) = lz_pad (io_dst p)" by (simp only: lz_pad_mod)
  then show ?thesis using i(2) align_up_8_least [of "io_dst p" 8192] lz_pad(3) by (simp add: M)
qed


lemma advance_simps [simp]:
  "pn_w (advance n p) = pn_w p" "pn_c (advance n p) = pn_c p" "io_dst (advance n p) = io_dst p + n"
  "oz_written (advance n p) = oz_written p" "io_buf_end (advance n p) = io_buf_end p"
  by (simp_all add: advance_def)

lemma set_hdr_simps [simp]:
  "pn_w (set_hdr enc dec n b d f p) = pn_w p" "io_dst (set_hdr enc dec n b d f p) = io_dst p"
  "oz_written (set_hdr enc dec n b d f p) = oz_written p"
  "mo_attr_descs (pn_c (set_hdr enc dec n b d f p)) = mo_attr_descs (pn_c p)"
  "advance k (set_hdr enc dec n b d f p) = set_hdr enc dec n b d f (advance k p)"
  by (simp_all add: set_hdr_def at_hdr_def advance_def patch_def)

lemma took_room_if:
  assumes "took xxh ty self v c True w' c'" and "mp_buffer v = None \<or> \<not> lacks_room n v" and "n \<le> 8176"
  shows "n \<le> mz_buf_max w' - mz_buf_used w'" and "\<exists>b. mp_buffer w' = Some b"
proof -
  have t: "own_inv ty self {} w' c'" "mp_buffer w' \<noteq> None" using assms(1) by (auto simp: took_def)
  then show "\<exists>b. mp_buffer w' = Some b" by auto
  have M: "mz_buf_max w' = 8192" using t(1) by (simp add: own_inv_def own_bufs_def wr_inv_def)
  show "n \<le> mz_buf_max w' - mz_buf_used w'"
  proof (cases "mp_buffer v")
    case None
    with assms(1) have "mz_buf_used w' = 16" by (simp add: took_def)
    with M assms(3) show ?thesis by simp
  next
    case (Some b)
    with assms(1,2) show ?thesis by (auto simp: took_def lacks_room_def)
  qed
qed

lemma took_room:
  assumes "took xxh ty self (if lacks_room n w then park w else w) c True w' c'" and "n \<le> 8176"
  shows "n \<le> mz_buf_max w' - mz_buf_used w'" and "\<exists>b. mp_buffer w' = Some b"
  using took_room_if [OF assms(1) _ assms(2)] by auto

lemma rec_result_fail: "rec_result w0 c0 b0 d bs (ok, p) \<Longrightarrow> \<not> ok \<Longrightarrow> rec_result w0 c0 b0 d cs (ok, p)"
  by (simp add: rec_result_def)

lemma rec_result_ok: "rec_result w0 c0 b0 d bs (ok, p) \<Longrightarrow> ok \<Longrightarrow> \<exists>xs. rec_open w0 c0 b0 d bs xs p"
  by (simp add: rec_result_def)

text \<open>The attributes of a record.\<close>

definition attrs_of :: "core \<Rightarrow> nat \<Rightarrow> s_p8_attr_val list option \<Rightarrow> byte list list" where
  "attrs_of c n ip_attrs = attrs_spec (mo_attr_descs c) n (chars ip_attrs) 0 0"

lemma serialize_some_attrs_spec:
  assumes s: "rec_start w0 c0 b0 d" and o: "rec_open w0 c0 b0 d bs xs p" and ca: "cache_ok (pn_w p) (pn_c p)"
  shows "\<exists>r p'. serialize_some_attrs n ip_attrs p = Some (r, p')
    \<and> rec_result w0 c0 b0 d (bs @ concat (attrs_of c0 n ip_attrs)) (mb_done r, p') \<and> cache_ok (pn_w p') (pn_c p')
    \<and> (mb_done r \<longrightarrow> mz_bytes r = length (concat (attrs_of c0 n ip_attrs)) \<and> mu_count r = length (attrs_of c0 n ip_attrs))"
proof (cases "ip_attrs = None \<or> ip_attrs = Some []")
  case True
  with o ca show ?thesis by (auto simp: serialize_some_attrs_def attrs_of_def chars_def rec_result_def)
next
  case False
  then obtain vs where vs: "ip_attrs = Some vs" "vs \<noteq> []" by auto
  let ?r = "\<lparr>mb_done = True, mu_count = 0, mz_bytes = 0\<rparr>"
  from serialize_attrs_loop_spec [OF s o ca, of ?r n vs] vs show ?thesis
    by (auto simp: serialize_some_attrs_def serialize_attrs_def attrs_of_def chars_def Let_def)
qed

text \<open>What a record, written or discarded, keeps.\<close>

definition rec_step ::
    "(byte list \<Rightarrow> u64) \<Rightarrow> byte \<Rightarrow> nat \<Rightarrow> tls_writer \<Rightarrow> core \<Rightarrow> tls_writer \<Rightarrow> core \<Rightarrow> bool" where
  "rec_step xxh ty self w c w' c' \<longleftrightarrow> own_inv ty self {} w' c' \<and> grows xxh c c'
     \<and> writer_who w' = writer_who w \<and> core_static c' = core_static c \<and> leaves w c w' c'"

lemma discard_step:
  assumes own: "own_inv ty self {} w0 c0" and b: "mp_buffer w0 = Some b0"
    and r: "rec_result w0 c0 b0 (mz_buf_used w0) bs (False, p)" and ca: "cache_ok (pn_w p) (pn_c p)"
    and e: "discard_record (length (mo_fragments w0)) (mz_buf_used w0) (pn_w p) (pn_c p) = (w, c)"
  shows "rec_step xxh ty self w0 c0 w c \<and> stream_of w (co_mem c) = stream_of w0 (co_mem c0)"
proof -
  from r obtain xs where st: "rec_stuck w0 c0 b0 (mz_buf_used w0) xs (pn_w p) (pn_c p)"
    by (auto simp: rec_result_def)
  from discard_own [OF own b st ca e] show ?thesis by (simp add: rec_step_def)
qed

text \<open>For every kind of header: beginning a record, assigning to its header, and its end.\<close>

context wire_codec
begin

lemma set_hdr_open:
  assumes s: "rec_start w0 c0 b0 d" and o: "rec_open w0 c0 b0 d bs xs p"
    and n: "width \<le> length bs" "d + width \<le> mz_buf_max w0"
  shows "rec_open w0 c0 b0 d (enc (f (dec (take width bs))) @ drop width bs) xs (set_hdr enc dec width b0 d f p)"
  using rec_open_hdr [OF s o, of "\<lambda>m. enc (f (dec (rd m b0 d width)))"] n rec_open_hdr_bytes [OF s o n]
  by (simp add: set_hdr_def enc_width)

lemma set_hdr_open':
  assumes s: "rec_start w0 c0 b0 d" and o: "rec_open w0 c0 b0 d (enc h @ bs) xs p"
    and n: "d + width \<le> mz_buf_max w0"
  shows "rec_open w0 c0 b0 d (enc (f h) @ bs) xs (set_hdr enc dec width b0 d f p)"
  using set_hdr_open [OF s o _ n, of f] by (simp add: enc_width dec_enc)

lemma begin_record:
  assumes own: "own_inv ty self {} w c" and b: "mp_buffer w = Some b"
    and n: "width \<le> n" "n \<le> mz_buf_max w - mz_buf_used w"
  obtains h0 t where "rec_open w c b (mz_buf_used w) (enc (f0 h0) @ t) []
      (advance n (set_hdr enc dec width b (mz_buf_used w) f0 (pen_at w c)))"
    and "length t = n - width" and "rec_start w c b (mz_buf_used w)" and "mz_buf_used w + width \<le> mz_buf_max w"
proof -
  let ?d = "mz_buf_used w"
  have inv: "wr_inv ty w c" using own by (simp add: own_inv_def own_bufs_def)
  note s = wr_inv_start [OF inv b]
  have st: "rec_open w c b ?d [] [] (pen_at w c)" by (rule rec_open_start [OF s]) (simp_all add: pen_at_def)
  have "mz_buf_max w = 8192" "?d \<le> 8192" using inv b by (auto simp: wr_inv_def bufs_def)
  with n have rm: "io_dst (pen_at w c) + n \<le> mz_buf_max w" "?d + width \<le> mz_buf_max w" by (auto simp: pen_at_def)
  define old where "old = rd (co_mem c) b ?d n"
  have l: "length old = n" by (simp add: old_def)
  have "rec_open w c b ?d old [] (advance n (pen_at w c))"
    using rec_open_advance [OF s st rm(1)] by (simp add: old_def pen_at_def)
  from set_hdr_open [OF s this, of f0] rm n l have
    "rec_open w c b ?d (enc (f0 (dec (take width old))) @ drop width old) []
      (advance n (set_hdr enc dec width b ?d f0 (pen_at w c)))"
    by simp
  moreover have "length (drop width old) = n - width" by (simp add: l)
  ultimately show ?thesis using that s rm(2) by blast
qed

lemma end_step:
  assumes own: "own_inv ty self {} w0 c0" and b: "mp_buffer w0 = Some b0"
    and n: "mz_buf_used w0 + width \<le> mz_buf_max w0"
    and o: "rec_open w0 c0 b0 (mz_buf_used w0) (enc h @ body) xs p"
    and ca: "cache_ok (pn_w p) (pn_c p)" and z: "z = width + length body"
    and e: "end_record (advance (lz_pad z) (set_hdr enc dec width b0 (mz_buf_used w0) up p)) = (w, c)"
  shows "rec_step xxh ty self w0 c0 w c \<and> mp_buffer w \<noteq> None
    \<and> (\<exists>ps. stream_of w (co_mem c) = stream_of w0 (co_mem c0) @ enc (up h) @ body @ ps
         \<and> length (enc (up h) @ body @ ps) = align_up_8 z)"
proof -
  let ?d = "mz_buf_used w0"
  define q where "q = set_hdr enc dec width b0 ?d up p"
  have inv: "wr_inv ty w0 c0" using own by (simp add: own_inv_def own_bufs_def)
  note s = wr_inv_start [OF inv b]
  have o1: "rec_open w0 c0 b0 ?d (enc (up h) @ body) xs q"
    unfolding q_def by (rule set_hdr_open' [OF s o n])
  have lz: "length (enc (up h) @ body) = z" by (simp add: z enc_width)
  have "io_dst q + lz_pad z \<le> mz_buf_max w0" using pad_fits [OF inv b o1] by (simp only: lz)
  from rec_open_advance [OF s o1 this] obtain ps where
    o2: "rec_open w0 c0 b0 ?d ((enc (up h) @ body) @ ps) xs (advance (lz_pad z) q)" and ps: "length ps = lz_pad z"
    by (metis length_rd)
  have ll: "length ((enc (up h) @ body) @ ps) = align_up_8 z"
    using lz_pad(3) [of z] by (simp only: length_append [of _ ps] lz ps)
  then have al: "8 dvd length ((enc (up h) @ body) @ ps)" by simp
  have ca2: "cache_ok (pn_w (advance (lz_pad z) q)) (pn_c (advance (lz_pad z) q))"
    using ca by (simp add: q_def cache_ok_def)
  note co = commit_own [OF own b o2 al ca2 e [folded q_def]]
  show ?thesis using co ll by (auto simp: rec_step_def)
qed

end

end
