(* ===== verification/P8_Log.thy ===== *)
theory P8_Log
  imports P8_Emit
begin

text \<open>
  \<open>cp8_log::send\<close> of engine/p8_log.cpp: the verbosity gate, the call site's descriptor, room in
  the current buffer, the record's header, its arguments as the descriptor's types say, the
  attributes, the padding, and the discard of a record that finds no buffer.

  A \<open>va_list\<close> is the list of the values passed; reading a value of another type than was
  passed, or more values than were passed, is undefined in C and \<open>None\<close> here. Strings are
  lists of code units before the terminator. Time is an argument, the value \<open>get_ticks()\<close>
  returns.
\<close>

section \<open>Arguments\<close>

datatype va_arg = VA64 u64 | VA_ldouble "128 word" | VA_str "cstr option" | VA_str16 "u16 list option"
  | VA_str32 "u32 list option"

text \<open>The bytes of a string argument, before the length is limited.\<close>

definition str_arg_bytes :: "byte \<Rightarrow> va_arg \<Rightarrow> byte list option" where
  "str_arg_bytes mu_type a =
     (if P8_LOG_ARG_TYPE_USTR16 = mu_type then (case a of VA_str16 s \<Rightarrow> Some (concat (map le16 (chars s))) | _ \<Rightarrow> None)
      else if P8_LOG_ARG_TYPE_USTR32 = mu_type then (case a of VA_str32 s \<Rightarrow> Some (concat (map le32 (chars s))) | _ \<Rightarrow> None)
      else (case a of VA_str s \<Rightarrow> Some (chars s) | _ \<Rightarrow> None))"

text \<open>The next value of the \<open>va_list\<close> as a string, or as 8 or 16 bytes.\<close>

definition next_str :: "byte \<Rightarrow> va_arg list \<Rightarrow> (byte list \<times> va_arg list) option" where
  "next_str mu_type io_args = (case io_args of [] \<Rightarrow> None
     | a # rest \<Rightarrow> map_option (\<lambda>s. (s, rest)) (str_arg_bytes mu_type a))"

fun next_u64 :: "va_arg list \<Rightarrow> (byte list \<times> va_arg list) option" where
  "next_u64 (VA64 v # rest) = Some (le64 v, rest)"
| "next_u64 _ = None"

fun next_ldouble :: "va_arg list \<Rightarrow> (byte list \<times> va_arg list) option" where
  "next_ldouble (VA_ldouble v # rest) = Some (le_bytes 16 (unat v), rest)"
| "next_ldouble _ = None"

text \<open>The loop over the descriptor's arguments; a descriptor of another size reads nothing.\<close>

fun send_args :: "s_p8_log_varg list \<Rightarrow> va_arg list \<Rightarrow> pen \<Rightarrow> (bool \<times> pen) option" where
  "send_args [] io_args p = Some (True, p)"
| "send_args (lp_arg # args) io_args p =
     (if is_str_arg (va_mu_type lp_arg) then do {
        (lp_str, io_rest) \<leftarrow> next_str (va_mu_type lp_arg) io_args;
        let lu_len = (if length lp_str > UINT16_MAX then UINT16_MAX else length lp_str);
        (ok1, p1) \<leftarrow> write_piece (le16 (word_of_nat lu_len)) p;
        if \<not> ok1 then Some (False, p1) else do {
          (ok2, p2) \<leftarrow> copy_fragmented (take lu_len lp_str) p1;
          if \<not> ok2 then Some (False, p2) else send_args args io_rest p2
        }
      }
      else if 8 = va_mu_size lp_arg then do {
        (lu_val, io_rest) \<leftarrow> next_u64 io_args;
        (ok1, p1) \<leftarrow> write_piece lu_val p;
        if \<not> ok1 then Some (False, p1) else send_args args io_rest p1
      }
      else if P8_LOG_ARG_TYPE_LDOUBLE = va_mu_type lp_arg then do {
        (ld_val, io_rest) \<leftarrow> next_ldouble io_args;
        (ok1, p1) \<leftarrow> write_piece ld_val p;
        if \<not> ok1 then Some (False, p1) else send_args args io_rest p1
      }
      else send_args args io_args p)"

section \<open>The record\<close>

abbreviation (input) P8_LOG_MIN_BUFFER_SPACE :: nat where "P8_LOG_MIN_BUFFER_SPACE \<equiv> 32"

definition drop_log :: "tls_writer \<Rightarrow> tls_writer" where
  "drop_log w = w\<lparr>wr_dropped := (wr_dropped w)\<lparr>ds_logs := ds_logs (wr_dropped w) + 1\<rparr>\<rparr>"

text \<open>Assignments to fields of the record's header: the 38 bytes before its tail padding.\<close>

definition set_lid :: "addr \<Rightarrow> nat \<Rightarrow> (s_p8_log_item_dat \<Rightarrow> s_p8_log_item_dat) \<Rightarrow> pen \<Rightarrow> pen" where
  "set_lid = set_hdr enc_lid dec_lid 38"

text \<open>The end of a record: it is padded, its size set, and a buffer that cannot hold another
  record is parked.\<close>

definition finish_log :: "addr \<Rightarrow> nat \<Rightarrow> nat \<Rightarrow> s_p8_attrs_result \<Rightarrow> pen \<Rightarrow> tls_writer \<times> core" where
  "finish_log b lp_hdr lz_args_written lo_attrs p =
     (let lz_size = sizeof_log_item_dat + lz_args_written + mz_bytes lo_attrs;
          p1 = advance (lz_pad lz_size) (set_lid b lp_hdr (\<lambda>h. h\<lparr>lid_attrs_count := word_of_nat (mu_count lo_attrs),
                 lid_size := word_of_nat (lz_size + lz_pad lz_size)\<rparr>) p)
      in case end_record p1 of (w, c) \<Rightarrow>
        (if mz_buf_max w - mz_buf_used w < P8_LOG_MIN_BUFFER_SPACE then ((park w)\<lparr>mz_buf_used := 0\<rparr>, c)
         else (w, c)))"

text \<open>The record, with the current buffer in hand; \<open>lp_hdr\<close> is its offset in that buffer.\<close>

definition write_log ::
    "s_p8_log_desc \<Rightarrow> u64 \<Rightarrow> u64 \<Rightarrow> e_p8_level \<Rightarrow> u16 \<Rightarrow> s_p8_attr_val list option \<Rightarrow> va_arg list
      \<Rightarrow> tls_writer \<Rightarrow> core \<Rightarrow> (bool \<times> tls_writer \<times> core) option" where
  "write_log lp_desc lu_ticks iu_trace_id ie_level lu_mod_id ip_attrs io_args w c = (case mp_buffer w of
     None \<Rightarrow> None
   | Some b \<Rightarrow>
       (let lz_frag_commit = length (mo_fragments w);
            lp_hdr = mz_buf_used w;
            lbl_discard = (\<lambda>p. case discard_record lz_frag_commit lp_hdr (pn_w p) (pn_c p) of
              (w', c') \<Rightarrow> Some (False, drop_log w', c'));
            p0 = advance sizeof_log_item_dat (set_lid b lp_hdr (\<lambda>h. h\<lparr>lid_hash := ld_hash lp_desc,
                lid_timestamp := lu_ticks, lid_trace_id := iu_trace_id, lid_thread_id := mu_thread_id w,
                lid_level := word_of_nat (level_code ie_level), lid_processor := 0, lid_attrs_count := 0,
                lid_mod_id := lu_mod_id, lid_flags := 0\<rparr>) (pen_at w c))
        in do {
          (ok, p1) \<leftarrow> send_args (ld_args lp_desc) io_args p0;
          if \<not> ok then lbl_discard p1
          else do {
            let lz_args_written = oz_written p1;
            let p2 = set_lid b lp_hdr (\<lambda>h. h\<lparr>lid_args_size := word_of_nat lz_args_written\<rparr>) p1;
            (lo_attrs, p3) \<leftarrow> serialize_some_attrs (sizeof_log_item_dat + lz_args_written) ip_attrs p2;
            if \<not> mb_done lo_attrs then lbl_discard p3
            else Some (True, finish_log b lp_hdr lz_args_written lo_attrs p3)
          }
        }))"

section \<open>Sending\<close>

record log_writer =
  lg_base :: tls_writer
  mo_desc_map :: "u64 \<rightharpoonup> s_p8_log_desc"

text \<open>The threshold and the module id of a record; a module handle that is none is undefined.\<close>

definition log_gate :: "nat option \<Rightarrow> tls_writer \<Rightarrow> core \<Rightarrow> (e_p8_level \<times> u16) option" where
  "log_gate ip_module w c = (case ip_module of
     Some m \<Rightarrow> if m < length (mo_log_mods c)
       then Some (lm_verbosity (mo_log_mods c ! m), lm_id (mo_log_mods c ! m)) else None
   | None \<Rightarrow> Some (if mp_core w then me_default_verbosity c else e_p8_trace0, 0xFFFF))"

text \<open>The descriptor of the call site, from the writer's map or from the core.\<close>

definition find_log_desc ::
    "interference \<Rightarrow> nat \<Rightarrow> bool \<Rightarrow> u64 \<Rightarrow> cstr \<Rightarrow> u32 \<Rightarrow> cstr option \<Rightarrow> cstr option \<Rightarrow> log_writer \<Rightarrow> core
      \<Rightarrow> (s_p8_log_desc option \<times> log_writer \<times> core) option" where
  "find_log_desc env lo_self alloc lu_hash file iu_line ip_function ip_format lw c =
     (case mo_desc_map lw lu_hash of
        Some d \<Rightarrow> Some (Some d, lw, c)
      | None \<Rightarrow> do {
          (r, w1, c1) \<leftarrow> resolve_log_desc env lo_self alloc lu_hash (Some file) iu_line ip_function ip_format (lg_base lw) c;
          Some (case r of
              None \<Rightarrow> (None, lw\<lparr>lg_base := drop_log w1\<rparr>, c1)
            | Some d \<Rightarrow> (Some d, lw\<lparr>lg_base := w1, mo_desc_map := (mo_desc_map lw)(lu_hash \<mapsto> d)\<rparr>, c1))
        })"

text \<open>The record with the descriptor at hand: room, buffer, record.\<close>

definition emit_log ::
    "interference \<Rightarrow> nat \<Rightarrow> s_p8_log_desc \<Rightarrow> u64 \<Rightarrow> u64 \<Rightarrow> e_p8_level \<Rightarrow> u16 \<Rightarrow> s_p8_attr_val list option
      \<Rightarrow> va_arg list \<Rightarrow> tls_writer \<Rightarrow> core \<Rightarrow> (bool \<times> tls_writer \<times> core) option" where
  "emit_log env lo_self lp_desc lu_ticks iu_trace_id ie_level lu_mod_id ip_attrs io_args w c = do {
     (ok, w1, c1) \<leftarrow> take_buffer env lo_self P8_PACKET_LOGS
       (if lacks_room (P8_LOG_MIN_BUFFER_SPACE + sizeof_log_item_dat) w then park w else w) c;
     if \<not> ok then Some (False, drop_log w1, c1)
     else write_log lp_desc lu_ticks iu_trace_id ie_level lu_mod_id ip_attrs io_args w1 c1
   }"

text \<open>The call behind the gate. \<open>xxh_seed\<close> is \<open>XXH3_64bits_withSeed\<close>, seeded with the line; a null file
  name is passed to \<open>strlen\<close>, which is undefined.\<close>

definition log_gated ::
    "(cstr \<Rightarrow> u32 \<Rightarrow> u64) \<Rightarrow> interference \<Rightarrow> nat \<Rightarrow> bool \<Rightarrow> u64 \<Rightarrow> e_p8_level \<Rightarrow> e_p8_level \<Rightarrow> u16 \<Rightarrow> u64 \<Rightarrow> u32
      \<Rightarrow> cstr option \<Rightarrow> cstr option \<Rightarrow> s_p8_attr_val list option \<Rightarrow> cstr option \<Rightarrow> va_arg list
      \<Rightarrow> log_writer \<Rightarrow> core \<Rightarrow> (bool \<times> log_writer \<times> core) option" where
  "log_gated xxh_seed env lo_self alloc lu_ticks ie_level le_min lu_mod_id iu_trace_id iu_line ip_file ip_function
      ip_attrs ip_format io_args lw c =
     (if ie_level < le_min then Some (False, lw, c)
      else if \<not> mp_core (lg_base lw) then Some (False, lw, c)
      else do {
        file \<leftarrow> ip_file;
        (lp_desc, lw1, c1) \<leftarrow> find_log_desc env lo_self alloc (xxh_seed file iu_line) file iu_line ip_function ip_format lw c;
        (case lp_desc of None \<Rightarrow> Some (False, lw1, c1)
         | Some d \<Rightarrow> do {
             (ok, w2, c2) \<leftarrow> emit_log env lo_self d lu_ticks iu_trace_id ie_level lu_mod_id ip_attrs io_args (lg_base lw1) c1;
             Some (ok, lw1\<lparr>lg_base := w2\<rparr>, c2)
           })
      })"

definition log_send ::
    "(cstr \<Rightarrow> u32 \<Rightarrow> u64) \<Rightarrow> interference \<Rightarrow> nat \<Rightarrow> bool \<Rightarrow> u64 \<Rightarrow> e_p8_level \<Rightarrow> nat option \<Rightarrow> u64 \<Rightarrow> u32
      \<Rightarrow> cstr option \<Rightarrow> cstr option \<Rightarrow> s_p8_attr_val list option \<Rightarrow> cstr option \<Rightarrow> va_arg list
      \<Rightarrow> log_writer \<Rightarrow> core \<Rightarrow> (bool \<times> log_writer \<times> core) option" where
  "log_send xxh_seed env lo_self alloc lu_ticks ie_level ip_module iu_trace_id iu_line ip_file ip_function
      ip_attrs ip_format io_args lw c = do {
     (le_min, lu_mod_id) \<leftarrow> log_gate ip_module (lg_base lw) c;
     log_gated xxh_seed env lo_self alloc lu_ticks ie_level le_min lu_mod_id iu_trace_id iu_line ip_file ip_function
       ip_attrs ip_format io_args lw c
   }"

lemmas log_send_unfold = log_send_def [unfolded log_gated_def]

section \<open>What is written\<close>

text \<open>The bytes of the arguments, by the descriptor's types.\<close>

fun args_bytes :: "s_p8_log_varg list \<Rightarrow> va_arg list \<Rightarrow> byte list list option" where
  "args_bytes [] io_args = Some []"
| "args_bytes (a # args) io_args =
     (if is_str_arg (va_mu_type a) then do {
        (s, rest) \<leftarrow> next_str (va_mu_type a) io_args;
        let s' = take UINT16_MAX s;
        bs \<leftarrow> args_bytes args rest;
        Some ((le16 (word_of_nat (length s')) @ s') # bs)
      }
      else if 8 = va_mu_size a then do {
        (v, rest) \<leftarrow> next_u64 io_args; bs \<leftarrow> args_bytes args rest; Some (v # bs)
      }
      else if P8_LOG_ARG_TYPE_LDOUBLE = va_mu_type a then do {
        (v, rest) \<leftarrow> next_ldouble io_args; bs \<leftarrow> args_bytes args rest; Some (v # bs)
      }
      else args_bytes args io_args)"

text \<open>A record: its header, two bytes of tail padding, its body, and up to 7 bytes of padding.\<close>

definition is_log_record :: "s_p8_log_item_dat \<Rightarrow> byte list \<Rightarrow> byte list \<Rightarrow> bool" where
  "is_log_record h body bs \<longleftrightarrow> length bs = align_up_8 (sizeof_log_item_dat + length body)
     \<and> take 38 bs = enc_lid h \<and> take (length body) (drop sizeof_log_item_dat bs) = body"

lemma write_then:
  assumes s: "rec_start w0 c0 b0 d" and o: "rec_open w0 c0 b0 d bs xs p"
    and w: "write_piece cs p = Some (ok, p1) \<or> copy_fragmented cs p = Some (ok, p1)"
  shows "rec_result w0 c0 b0 d (bs @ cs) (ok, p1)" and "ok \<Longrightarrow> oz_written p1 = oz_written p + length cs"
    and "mo_attr_cache (pn_w p1) = mo_attr_cache (pn_w p)"
  using w write_piece_spec [OF s o, of cs] copy_fragmented_spec [OF s o, of cs] by auto

lemma send_args_spec:
  assumes s: "rec_start w0 c0 b0 d"
  shows "rec_open w0 c0 b0 d bs xs p \<Longrightarrow> args_bytes args io_args = Some as \<Longrightarrow>
    \<exists>ok p'. send_args args io_args p = Some (ok, p') \<and> rec_result w0 c0 b0 d (bs @ concat as) (ok, p')
      \<and> (ok \<longrightarrow> oz_written p' = oz_written p + length (concat as))
      \<and> mo_attr_cache (pn_w p') = mo_attr_cache (pn_w p)"
proof (induction args io_args arbitrary: bs xs p as rule: args_bytes.induct)
  case (1 io_args)
  then show ?case by (auto simp: rec_result_def)
next
  case (2 a args io_args)
  show ?case
  proof (cases "is_str_arg (va_mu_type a)")
    case True
    with "2.prems"(2) obtain t rest ts where n: "next_str (va_mu_type a) io_args = Some (t, rest)"
      and ts: "args_bytes args rest = Some ts"
      and as: "as = (le16 (word_of_nat (length (take UINT16_MAX t))) @ take UINT16_MAX t) # ts"
      by (auto simp: Let_def split: bind_splits prod.splits)
    let ?n = "if length t > UINT16_MAX then UINT16_MAX else length t"
    have tk: "take ?n t = take UINT16_MAX t" and ln: "length (take UINT16_MAX t) = ?n" by auto
    let ?l = "le16 (word_of_nat ?n)"
    obtain ok1 p1 where w1: "write_piece ?l p = Some (ok1, p1)"
      using write_piece_spec [OF s "2.prems"(1)] by blast
    note f1 = write_then [OF s "2.prems"(1) disjI1, OF w1]
    show ?thesis
    proof (cases ok1)
      case False
      with True n w1 f1 show ?thesis by (auto simp: Let_def as dest: rec_result_fail)
    next
      case okt: True
      then obtain ys where o1: "rec_open w0 c0 b0 d (bs @ ?l) ys p1" using f1(1) rec_result_ok by blast
      obtain ok2 p2 where w2: "copy_fragmented (take ?n t) p1 = Some (ok2, p2)"
        using copy_fragmented_spec [OF s o1] by blast
      note f2 = write_then [OF s o1 disjI2, OF w2]
      show ?thesis
      proof (cases ok2)
        case False
        with True n w1 okt w2 f1 f2 show ?thesis by (auto simp: Let_def as dest: rec_result_fail)
      next
        case okt2: True
        then obtain zs where "rec_open w0 c0 b0 d ((bs @ ?l) @ take ?n t) zs p2" using f2(1) rec_result_ok by blast
        from "2.IH"(1) [OF True n refl refl this ts] obtain ok' p' where
          r: "send_args args rest p2 = Some (ok', p')"
            "rec_result w0 c0 b0 d (((bs @ ?l) @ take ?n t) @ concat ts) (ok', p')"
            "ok' \<longrightarrow> oz_written p' = oz_written p2 + length (concat ts)"
            "mo_attr_cache (pn_w p') = mo_attr_cache (pn_w p2)" by blast
        have "bs @ concat as = ((bs @ ?l) @ take ?n t) @ concat ts" by (simp add: as tk ln)
        moreover have "send_args (a # args) io_args p = Some (ok', p')"
          using True n w1 okt w2 okt2 r(1) by (simp add: Let_def)
        moreover have "length (concat as) = 2 + length (take ?n t) + length (concat ts)"
          by (simp add: as tk)
        ultimately show ?thesis using r f1 f2 okt okt2 by auto
      qed
    qed
  next
    case ns: False
    show ?thesis
    proof (cases "8 = va_mu_size a \<or> P8_LOG_ARG_TYPE_LDOUBLE = va_mu_type a")
      case False
      with ns "2.prems" "2.IH"(4) [OF ns _ _ "2.prems"(1)] show ?thesis by simp
    next
      case True
      define nx where "nx = (if 8 = va_mu_size a then next_u64 io_args else next_ldouble io_args)"
      from "2.prems"(2) ns True obtain v rest ts where n: "nx = Some (v, rest)"
        and ts: "args_bytes args rest = Some ts" and as: "as = v # ts"
        by (auto simp: nx_def split: bind_splits if_splits)
      have e: "send_args (a # args) io_args p = do {
          (ok1, p1) \<leftarrow> write_piece v p;
          if \<not> ok1 then Some (False, p1) else send_args args rest p1 }"
        using ns True n by (auto simp: nx_def split: if_splits)
      have ih: "rec_open w0 c0 b0 d cs zs q \<Longrightarrow>
          \<exists>ok p'. send_args args rest q = Some (ok, p') \<and> rec_result w0 c0 b0 d (cs @ concat ts) (ok, p')
            \<and> (ok \<longrightarrow> oz_written p' = oz_written q + length (concat ts))
            \<and> mo_attr_cache (pn_w p') = mo_attr_cache (pn_w q)" for cs zs q
        using "2.IH"(2) [OF ns _ _ refl, of v rest cs zs q ts] "2.IH"(3) [OF ns _ _ _ refl, of v rest cs zs q ts]
          True n ts by (auto simp: nx_def split: if_splits)
      obtain ok1 p1 where w1: "write_piece v p = Some (ok1, p1)"
        using write_piece_spec [OF s "2.prems"(1)] by blast
      note f1 = write_then [OF s "2.prems"(1) disjI1, OF w1]
      show ?thesis
      proof (cases ok1)
        case False
        with e w1 f1 show ?thesis by (auto dest: rec_result_fail)
      next
        case okt: True
        then obtain ys where "rec_open w0 c0 b0 d (bs @ v) ys p1" using f1(1) rec_result_ok by blast
        from ih [OF this] e w1 okt f1 show ?thesis by (auto simp: as)
      qed
    qed
  qed
qed


text \<open>Where the values passed are not what the descriptor reads, nothing is committed.\<close>

lemma send_args_mismatch:
  assumes s: "rec_start w0 c0 b0 d"
  shows "rec_open w0 c0 b0 d bs xs p \<Longrightarrow> send_args args io_args p = Some (ok, p') \<Longrightarrow>
    args_bytes args io_args = None \<Longrightarrow>
    \<not> ok \<and> rec_result w0 c0 b0 d bs (False, p') \<and> mo_attr_cache (pn_w p') = mo_attr_cache (pn_w p)"
proof (induction args io_args arbitrary: bs xs p rule: args_bytes.induct)
  case (1 io_args)
  then show ?case by simp
next
  case (2 a args io_args)
  have step: "\<not> ok \<and> rec_result w0 c0 b0 d bs (False, p') \<and> mo_attr_cache (pn_w p') = mo_attr_cache (pn_w p)"
    if w: "write_piece v q = Some (ok1, p1) \<or> copy_fragmented v q = Some (ok1, p1)"
      and q: "rec_open w0 c0 b0 d cs ys q" "mo_attr_cache (pn_w q) = mo_attr_cache (pn_w p)"
      and fail: "\<not> ok1 \<Longrightarrow> (ok, p') = (False, p1)"
      and go: "\<And>zs. ok1 \<Longrightarrow> rec_open w0 c0 b0 d (cs @ v) zs p1 \<Longrightarrow> mo_attr_cache (pn_w p1) = mo_attr_cache (pn_w p) \<Longrightarrow>
        \<not> ok \<and> rec_result w0 c0 b0 d bs (False, p') \<and> mo_attr_cache (pn_w p') = mo_attr_cache (pn_w p)"
    for v q ok1 p1 cs ys
  proof (cases ok1)
    case True
    with write_then [OF s q(1) w] q(2) go rec_result_ok show ?thesis by metis
  next
    case False
    with write_then [OF s q(1) w] q(2) fail rec_result_fail show ?thesis by auto
  qed
  note o = "2.prems"(1) and sa = "2.prems"(2) and ab = "2.prems"(3)
  consider (str) "is_str_arg (va_mu_type a)" | (u64) "\<not> is_str_arg (va_mu_type a)" "8 = va_mu_size a"
    | (ld) "\<not> is_str_arg (va_mu_type a)" "8 \<noteq> va_mu_size a" "P8_LOG_ARG_TYPE_LDOUBLE = va_mu_type a"
    | (none) "\<not> is_str_arg (va_mu_type a)" "8 \<noteq> va_mu_size a" "P8_LOG_ARG_TYPE_LDOUBLE \<noteq> va_mu_type a"
    by blast
  then show ?case
  proof cases
    case str
    then obtain t rest where n: "next_str (va_mu_type a) io_args = Some (t, rest)"
      and ts: "args_bytes args rest = None"
      using sa ab by (auto simp: Let_def split: bind_splits)
    let ?n = "if length t > UINT16_MAX then UINT16_MAX else length t"
    obtain ok1 p1 where w1: "write_piece (le16 (word_of_nat ?n)) p = Some (ok1, p1)"
      using write_piece_spec [OF s o] by blast
    show ?thesis
    proof (rule step [OF disjI1 [OF w1] o refl])
      show "\<not> ok1 \<Longrightarrow> (ok, p') = (False, p1)" using sa str n w1 by (simp add: Let_def)
      fix zs
      assume ok1 and o1: "rec_open w0 c0 b0 d (bs @ le16 (word_of_nat ?n)) zs p1"
        and c1: "mo_attr_cache (pn_w p1) = mo_attr_cache (pn_w p)"
      obtain ok2 p2 where w2: "copy_fragmented (take ?n t) p1 = Some (ok2, p2)"
        using copy_fragmented_spec [OF s o1] by blast
      show "\<not> ok \<and> rec_result w0 c0 b0 d bs (False, p') \<and> mo_attr_cache (pn_w p') = mo_attr_cache (pn_w p)"
      proof (rule step [OF disjI2 [OF w2] o1 c1])
        show "\<not> ok2 \<Longrightarrow> (ok, p') = (False, p2)" using sa str n w1 w2 \<open>ok1\<close> by (simp add: Let_def)
        fix us
        assume ok2 and o2: "rec_open w0 c0 b0 d ((bs @ le16 (word_of_nat ?n)) @ take ?n t) us p2"
          and c2: "mo_attr_cache (pn_w p2) = mo_attr_cache (pn_w p)"
        have "send_args args rest p2 = Some (ok, p')" using sa str n w1 w2 \<open>ok1\<close> \<open>ok2\<close> by (simp add: Let_def)
        from "2.IH"(1) [OF str n refl refl o2 this ts] c2
        show "\<not> ok \<and> rec_result w0 c0 b0 d bs (False, p') \<and> mo_attr_cache (pn_w p') = mo_attr_cache (pn_w p)"
          using rec_result_fail by auto
      qed
    qed
  next
    case u64
    then obtain v rest where n: "next_u64 io_args = Some (v, rest)" and ts: "args_bytes args rest = None"
      using sa ab by (auto split: bind_splits)
    obtain ok1 p1 where w1: "write_piece v p = Some (ok1, p1)" using write_piece_spec [OF s o] by blast
    show ?thesis
    proof (rule step [OF disjI1 [OF w1] o refl])
      show "\<not> ok1 \<Longrightarrow> (ok, p') = (False, p1)" using sa u64 n w1 by simp
      fix zs
      assume ok1 and o1: "rec_open w0 c0 b0 d (bs @ v) zs p1"
        and c1: "mo_attr_cache (pn_w p1) = mo_attr_cache (pn_w p)"
      have "send_args args rest p1 = Some (ok, p')" using sa u64 n w1 \<open>ok1\<close> by simp
      from "2.IH"(2) [OF u64 n refl o1 this ts] c1
      show "\<not> ok \<and> rec_result w0 c0 b0 d bs (False, p') \<and> mo_attr_cache (pn_w p') = mo_attr_cache (pn_w p)"
        using rec_result_fail by auto
    qed
  next
    case ld
    then obtain v rest where n: "next_ldouble io_args = Some (v, rest)" and ts: "args_bytes args rest = None"
      using sa ab by (auto split: bind_splits)
    obtain ok1 p1 where w1: "write_piece v p = Some (ok1, p1)" using write_piece_spec [OF s o] by blast
    show ?thesis
    proof (rule step [OF disjI1 [OF w1] o refl])
      show "\<not> ok1 \<Longrightarrow> (ok, p') = (False, p1)" using sa ld n w1 by simp
      fix zs
      assume ok1 and o1: "rec_open w0 c0 b0 d (bs @ v) zs p1"
        and c1: "mo_attr_cache (pn_w p1) = mo_attr_cache (pn_w p)"
      have "send_args args rest p1 = Some (ok, p')" using sa ld n w1 \<open>ok1\<close> by simp
      from "2.IH"(3) [OF ld n refl o1 this ts] c1
      show "\<not> ok \<and> rec_result w0 c0 b0 d bs (False, p') \<and> mo_attr_cache (pn_w p') = mo_attr_cache (pn_w p)"
        using rec_result_fail by auto
    qed
  next
    case none
    with "2.IH"(4) [OF none o] sa ab show ?thesis by simp
  qed
qed

section \<open>Writing a record\<close>

lemma drop_log_simps [simp]:
  "bufs (drop_log w) = bufs w" "stream_of (drop_log w) m = stream_of w m" "writer_who (drop_log w) = writer_who w"
  "own_inv ty self h (drop_log w) c = own_inv ty self h w c" "mp_buffer (drop_log w) = mp_buffer w"
  "leaves w c (drop_log w') c' = leaves w c w' c'"
  by (simp_all add: drop_log_def bufs_def stream_of_def writer_who_def own_inv_def own_bufs_def wr_inv_def
      hdr_ids_def cache_ok_def leaves_def foreign_def)

definition log_hdr ::
    "s_p8_log_desc \<Rightarrow> u64 \<Rightarrow> u64 \<Rightarrow> e_p8_level \<Rightarrow> u16 \<Rightarrow> u32 \<Rightarrow> nat \<Rightarrow> byte list list \<Rightarrow> s_p8_log_item_dat" where
  "log_hdr d ticks trace level mod_id thread lz_args atts =
     \<lparr>lid_hash = ld_hash d, lid_timestamp = ticks, lid_trace_id = trace, lid_thread_id = thread,
      lid_level = word_of_nat (level_code level), lid_processor = 0, lid_args_size = word_of_nat lz_args,
      lid_size = word_of_nat (align_up_8 (sizeof_log_item_dat + lz_args + length (concat atts))),
      lid_mod_id = mod_id, lid_attrs_count = word_of_nat (length atts), lid_flags = 0\<rparr>"

text \<open>The end of a record whose bytes so far are its header, its tail padding and its body.\<close>

lemma finish_log_spec:
  assumes own: "own_inv P8_PACKET_LOGS self {} w0 c0" and b: "mp_buffer w0 = Some b0"
    and room: "mz_buf_used w0 + 38 \<le> mz_buf_max w0"
    and o: "rec_open w0 c0 b0 (mz_buf_used w0) (enc_lid h @ t @ body) xs p" and t: "length t = 2"
    and ca: "cache_ok (pn_w p) (pn_c p)" and n: "length body = n + mz_bytes r"
    and f: "finish_log b0 (mz_buf_used w0) n r p = (w, c)"
  shows "rec_step xxh P8_PACKET_LOGS self w0 c0 w c
    \<and> (\<exists>bs. stream_of w (co_mem c) = stream_of w0 (co_mem c0) @ bs
        \<and> is_log_record (h\<lparr>lid_attrs_count := word_of_nat (mu_count r),
             lid_size := word_of_nat (align_up_8 (sizeof_log_item_dat + length body))\<rparr>) body bs)"
proof -
  let ?z = "40 + n + mz_bytes r"
  define up where "up = (\<lambda>h::s_p8_log_item_dat. h\<lparr>lid_attrs_count := word_of_nat (mu_count r),
    lid_size := word_of_nat (?z + lz_pad ?z)\<rparr>)"
  define q where "q = advance (lz_pad ?z) (set_lid b0 (mz_buf_used w0) up p)"
  have lz: "?z = 38 + length (t @ body)" by (simp add: t n)
  obtain w1 c1 where e: "end_record q = (w1, c1)" by fastforce
  from lid.end_step [OF own b room o ca lz e [unfolded q_def set_lid_def]] obtain ps where
    st: "rec_step xxh P8_PACKET_LOGS self w0 c0 w1 c1"
    and sm: "stream_of w1 (co_mem c1) = stream_of w0 (co_mem c0) @ enc_lid (up h) @ (t @ body) @ ps"
    and ln: "length (enc_lid (up h) @ (t @ body) @ ps) = align_up_8 ?z" for xxh by blast
  have w: "c = c1" "w = w1 \<or> w = (park w1)\<lparr>mz_buf_used := 0\<rparr>"
  proof -
    have "finish_log b0 (mz_buf_used w0) n r p = (case end_record q of (w, c) \<Rightarrow>
        (if mz_buf_max w - mz_buf_used w < 32 then ((park w)\<lparr>mz_buf_used := 0\<rparr>, c) else (w, c)))"
      by (simp only: finish_log_def Let_def q_def up_def)
    with f e show "c = c1" "w = w1 \<or> w = (park w1)\<lparr>mz_buf_used := 0\<rparr>" by (auto split: if_splits)
  qed
  have up: "up h = h\<lparr>lid_attrs_count := word_of_nat (mu_count r),
      lid_size := word_of_nat (align_up_8 (40 + length body))\<rparr>"
    using lz_pad(3) [of ?z] by (simp add: up_def n add.assoc)
  have rec: "is_log_record (up h) body (enc_lid (up h) @ (t @ body) @ ps)"
    using ln by (simp add: is_log_record_def t n add.assoc)
  have "rec_step xxh P8_PACKET_LOGS self w0 c0 w c"
    using w st [of xxh] park_own(2) writer_who_simps(3,4) by (auto simp: rec_step_def park_leaves)
  moreover have "stream_of w (co_mem c) = stream_of w0 (co_mem c0) @ enc_lid (up h) @ (t @ body) @ ps"
    using w sm by auto
  ultimately show ?thesis using rec unfolding up by blast
qed

text \<open>The header's fields that are set when the record begins.\<close>

definition begin_lid ::
    "s_p8_log_desc \<Rightarrow> u64 \<Rightarrow> u64 \<Rightarrow> e_p8_level \<Rightarrow> u16 \<Rightarrow> u32 \<Rightarrow> s_p8_log_item_dat \<Rightarrow> s_p8_log_item_dat" where
  "begin_lid d ticks trace level mod_id thread h = h\<lparr>lid_hash := ld_hash d, lid_timestamp := ticks,
     lid_trace_id := trace, lid_thread_id := thread, lid_level := word_of_nat (level_code level),
     lid_processor := 0, lid_attrs_count := 0, lid_mod_id := mod_id, lid_flags := 0\<rparr>"

text \<open>The committed record.\<close>

definition log_record_of ::
    "s_p8_log_desc \<Rightarrow> u64 \<Rightarrow> u64 \<Rightarrow> e_p8_level \<Rightarrow> u16 \<Rightarrow> u32 \<Rightarrow> byte list list \<Rightarrow> byte list list \<Rightarrow> byte list \<Rightarrow> bool" where
  "log_record_of d ticks trace level mod_id thread as atts bs \<longleftrightarrow>
     is_log_record (log_hdr d ticks trace level mod_id thread (length (concat as)) atts) (concat as @ concat atts) bs"

lemma write_log_own:
  assumes own: "own_inv P8_PACKET_LOGS self {} w c" and b: "mp_buffer w = Some b"
    and room: "40 \<le> mz_buf_max w - mz_buf_used w"
  shows "write_log d ticks trace level mod_id ip_attrs io_args w c = Some (ok, w', c') \<Longrightarrow>
      rec_step xxh P8_PACKET_LOGS self w c w' c' \<and> (if ok then \<exists>as bs. args_bytes (ld_args d) io_args = Some as
          \<and> stream_of w' (co_mem c') = stream_of w (co_mem c) @ bs
          \<and> log_record_of d ticks trace level mod_id (mu_thread_id w) as
              (attrs_of c (sizeof_log_item_dat + length (concat as)) ip_attrs) bs
       else stream_of w' (co_mem c') = stream_of w (co_mem c))"
    and "args_bytes (ld_args d) io_args \<noteq> None \<Longrightarrow>
      write_log d ticks trace level mod_id ip_attrs io_args w c \<noteq> None"
proof -
  let ?d = "mz_buf_used w"
  define f0 where "f0 = begin_lid d ticks trace level mod_id (mu_thread_id w)"
  define p0 where "p0 = advance 40 (set_lid b ?d f0 (pen_at w c))"
  define disc where "disc = (\<lambda>p::pen. case discard_record (length (mo_fragments w)) ?d (pn_w p) (pn_c p) of
              (w', c') \<Rightarrow> Some (False, drop_log w', c'))"
  have ca: "cache_ok w c" using own by (simp add: own_inv_def own_bufs_def wr_inv_def)
  let ?attrs = "\<lambda>p1. serialize_some_attrs (40 + oz_written p1) ip_attrs
              (set_lid b ?d (\<lambda>h. h\<lparr>lid_args_size := word_of_nat (oz_written p1)\<rparr>) p1)"
  have wl: "write_log d ticks trace level mod_id ip_attrs io_args w c = do {
          (ok, p1) \<leftarrow> send_args (ld_args d) io_args p0;
          if \<not> ok then disc p1
          else do {
            (lo_attrs, p3) \<leftarrow> ?attrs p1;
            if \<not> mb_done lo_attrs then disc p3
            else Some (True, finish_log b ?d (oz_written p1) lo_attrs p3)
          }
        }"
    by (simp only: write_log_def b option.case Let_def p0_def f0_def begin_lid_def [abs_def] disc_def)
  have disc: "\<exists>w' c'. disc p = Some (False, w', c') \<and> rec_step xxh P8_PACKET_LOGS self w c w' c'
        \<and> stream_of w' (co_mem c') = stream_of w (co_mem c)"
    if "rec_result w c b ?d bs (False, p)" "cache_ok (pn_w p) (pn_c p)" for bs p
    using discard_step [OF own b that, of _ _ xxh]
    by (cases "discard_record (length (mo_fragments w)) ?d (pn_w p) (pn_c p)") (simp add: disc_def rec_step_def)
  obtain hh t where o0: "rec_open w c b ?d (enc_lid (f0 hh) @ t) [] p0" and t: "length t = 2"
    and s: "rec_start w c b ?d" and rm: "?d + 38 \<le> mz_buf_max w"
    using lid.begin_record [OF own b _ room, of f0, folded set_lid_def] unfolding p0_def [symmetric] by auto
  have z0: "oz_written p0 = 0" "pn_w p0 = w" "mo_attr_descs (pn_c p0) = mo_attr_descs c"
    by (simp_all add: p0_def pen_at_def set_lid_def)
  let ?goal = "\<lambda>r. case r of (ok, w', c') \<Rightarrow> rec_step xxh P8_PACKET_LOGS self w c w' c'
      \<and> (if ok then \<exists>as bs. args_bytes (ld_args d) io_args = Some as
          \<and> stream_of w' (co_mem c') = stream_of w (co_mem c) @ bs
          \<and> log_record_of d ticks trace level mod_id (mu_thread_id w) as
              (attrs_of c (sizeof_log_item_dat + length (concat as)) ip_attrs) bs
       else stream_of w' (co_mem c') = stream_of w (co_mem c))"
  have spec: "\<exists>r. write_log d ticks trace level mod_id ip_attrs io_args w c = Some r \<and> ?goal r"
    if a: "args_bytes (ld_args d) io_args = Some as" for as
  proof -
    from send_args_spec [OF s o0 a] obtain ok p1 where sa: "send_args (ld_args d) io_args p0 = Some (ok, p1)"
      and r1: "rec_result w c b ?d ((enc_lid (f0 hh) @ t) @ concat as) (ok, p1)"
      and n1: "ok \<longrightarrow> oz_written p1 = length (concat as)" and c1: "mo_attr_cache (pn_w p1) = mo_attr_cache w"
      by (auto simp: z0)
    have ca1: "cache_ok (pn_w p1) (pn_c p1)" using cache_ok_frame [OF ca c1 rec_result_descs [OF r1]] .
    show ?thesis
    proof (cases ok)
      case False
      from disc [OF _ ca1] r1 False obtain w1 c1 where "disc p1 = Some (False, w1, c1)" "?goal (False, w1, c1)"
        by fastforce
      then show ?thesis unfolding wl using sa False by (intro exI [of _ "(False, w1, c1)"]) simp
    next
      case True
      then obtain xs where o1: "rec_open w c b ?d ((enc_lid (f0 hh) @ t) @ concat as) xs p1"
        using r1 rec_result_ok by blast
      define n where "n = length (concat as)"
      have oz: "oz_written p1 = n" using n1 True by (simp add: n_def)
      define h1 where "h1 = (f0 hh)\<lparr>lid_args_size := word_of_nat n\<rparr>"
      define p2 where "p2 = set_lid b ?d (\<lambda>h. h\<lparr>lid_args_size := word_of_nat n\<rparr>) p1"
      have o2: "rec_open w c b ?d (enc_lid h1 @ t @ concat as) xs p2"
        unfolding p2_def h1_def set_lid_def by (rule lid.set_hdr_open' [OF s _ rm]) (use o1 in simp)
      have ca2: "cache_ok (pn_w p2) (pn_c p2)" using ca1 by (simp add: p2_def set_lid_def cache_ok_def)
      define atts where "atts = attrs_of c (40 + n) ip_attrs"
      from serialize_some_attrs_spec [OF s o2 ca2, of "40 + n" ip_attrs] obtain r p3 where
        sl: "serialize_some_attrs (40 + n) ip_attrs p2 = Some (r, p3)"
        and r3: "rec_result w c b ?d ((enc_lid h1 @ t @ concat as) @ concat atts) (mb_done r, p3)"
        and ca3: "cache_ok (pn_w p3) (pn_c p3)"
        and n3: "mb_done r \<longrightarrow> mz_bytes r = length (concat atts) \<and> mu_count r = length atts"
        by (auto simp: atts_def)
      have wl1: "write_log d ticks trace level mod_id ip_attrs io_args w c =
          (if \<not> mb_done r then disc p3 else Some (True, finish_log b ?d n r p3))"
        unfolding wl by (simp add: sa True oz sl [unfolded p2_def])
      show ?thesis
      proof (cases "mb_done r")
        case False
        from disc [OF _ ca3] r3 False obtain w1 c1 where "disc p3 = Some (False, w1, c1)" "?goal (False, w1, c1)"
          by fastforce
        then show ?thesis unfolding wl1 using False by (intro exI [of _ "(False, w1, c1)"]) simp
      next
        case dn: True
        then obtain ys where "rec_open w c b ?d ((enc_lid h1 @ t @ concat as) @ concat atts) ys p3"
          using r3 rec_result_ok by blast
        then have o3: "rec_open w c b ?d (enc_lid h1 @ t @ (concat as @ concat atts)) ys p3" by simp
        obtain w1 c1 where fl: "finish_log b ?d n r p3 = (w1, c1)" by fastforce
        have m: "length (concat as @ concat atts) = n + mz_bytes r" using n3 dn by (simp add: n_def)
        have hd: "h1\<lparr>lid_attrs_count := word_of_nat (mu_count r),
               lid_size := word_of_nat (align_up_8 (40 + length (concat as @ concat atts)))\<rparr>
            = log_hdr d ticks trace level mod_id (mu_thread_id w) n atts"
          using n3 dn by (simp add: h1_def f0_def begin_lid_def log_hdr_def n_def add.assoc)
        from finish_log_spec [OF own b rm o3 t ca3 m fl, of xxh, unfolded hd]
        have "?goal (True, w1, c1)"
          using a unfolding log_record_of_def n_def [symmetric] atts_def by (auto simp: n_def)
        then show ?thesis unfolding wl1 using dn fl by (intro exI [of _ "(True, w1, c1)"]) simp
      qed
    qed
  qed
  show "write_log d ticks trace level mod_id ip_attrs io_args w c \<noteq> None"
    if "args_bytes (ld_args d) io_args \<noteq> None"
    using spec that by fastforce
  assume wr: "write_log d ticks trace level mod_id ip_attrs io_args w c = Some (ok, w', c')"
  have "?goal (ok, w', c')"
  proof (cases "args_bytes (ld_args d) io_args")
    case (Some as)
    from spec [OF this] wr show ?thesis by auto
  next
    case None
    from wr obtain ok1 p1 where sa: "send_args (ld_args d) io_args p0 = Some (ok1, p1)"
      unfolding wl by (auto split: bind_splits)
    from send_args_mismatch [OF s o0 sa None] have f: "\<not> ok1"
      and r1: "rec_result w c b ?d (enc_lid (f0 hh) @ t) (False, p1)"
      and c1: "mo_attr_cache (pn_w p1) = mo_attr_cache w" by (auto simp: z0)
    have "cache_ok (pn_w p1) (pn_c p1)" using cache_ok_frame [OF ca c1 rec_result_descs [OF r1]] .
    from disc [OF r1 this] wr sa f show ?thesis unfolding wl by auto
  qed
  then show "rec_step xxh P8_PACKET_LOGS self w c w' c' \<and> (if ok then \<exists>as bs. args_bytes (ld_args d) io_args = Some as
          \<and> stream_of w' (co_mem c') = stream_of w (co_mem c) @ bs
          \<and> log_record_of d ticks trace level mod_id (mu_thread_id w) as
              (attrs_of c (sizeof_log_item_dat + length (concat as)) ip_attrs) bs
       else stream_of w' (co_mem c') = stream_of w (co_mem c))" unfolding prod.case .
qed


section \<open>Sending\<close>

definition log_inv :: "(byte list \<Rightarrow> u64) \<Rightarrow> nat \<Rightarrow> log_writer \<Rightarrow> core \<Rightarrow> bool" where
  "log_inv xxh self lw c \<longleftrightarrow> own_inv P8_PACKET_LOGS self {} (lg_base lw) c \<and> catalog xxh c
     \<and> mo_desc_map lw \<subseteq>\<^sub>m mo_log_descs c"

lemma emit_log_own:
  assumes ot: "other_threads xxh P8_PACKET_LOGS self env" and own: "own_inv P8_PACKET_LOGS self {} w c"
    and e: "emit_log env self d ticks trace level mod_id ip_attrs io_args w c = Some (ok, w', c')"
  shows "own_inv P8_PACKET_LOGS self {} w' c' \<and> grows xxh c c' \<and> writer_who w' = writer_who w
    \<and> (\<exists>s \<in> {stream_of w (co_mem c), []}. if ok then \<exists>as bs. args_bytes (ld_args d) io_args = Some as
          \<and> stream_of w' (co_mem c') = s @ bs
          \<and> log_record_of d ticks trace level mod_id (mu_thread_id w) as
              (attrs_of c' (sizeof_log_item_dat + length (concat as)) ip_attrs) bs
       else stream_of w' (co_mem c') = s)"
proof -
  let ?w = "if lacks_room (P8_LOG_MIN_BUFFER_SPACE + sizeof_log_item_dat) w then park w else w"
  have o1: "own_inv P8_PACKET_LOGS self {} ?w c" using own park_own(1) by simp
  have st: "stream_of ?w m = stream_of w m" "writer_who ?w = writer_who w" for m
    by (simp_all add: writer_who_simps(3))
  obtain ok1 w1 c1 where t: "take_buffer env self P8_PACKET_LOGS ?w c = Some (ok1, w1, c1)"
    using e by (auto simp: emit_log_def split: bind_splits)
  note k = other_threads.take_buffer_own [OF ot o1 t]
  then have k1: "own_inv P8_PACKET_LOGS self {} w1 c1" "grows xxh c c1" "writer_who w1 = writer_who w"
    "stream_of w1 (co_mem c1) \<in> {stream_of w (co_mem c), []}"
    using st by (auto simp: took_def)
  show ?thesis
  proof (cases ok1)
    case False
    with e t have "\<not> ok" "w' = drop_log w1" "c' = c1" by (auto simp: emit_log_def)
    with k1 show ?thesis by auto
  next
    case True
    have "ok1 = True" using True by simp
    note rm = took_room [OF k [unfolded this]]
    obtain b where b: "mp_buffer w1 = Some b" using rm(2) by auto
    have r: "40 \<le> mz_buf_max w1 - mz_buf_used w1" using rm(1) by simp
    have wl: "write_log d ticks trace level mod_id ip_attrs io_args w1 c1 = Some (ok, w', c')"
      using e t True by (simp add: emit_log_def)
    note wo = write_log_own(1) [OF k1(1) b r wl, of xxh]
    have ls: "own_inv P8_PACKET_LOGS self {} w' c'" "grows xxh c1 c'" "writer_who w' = writer_who w1"
      and cs: "core_static c' = core_static c1"
      using wo by (simp_all add: rec_step_def)
    have la: "attrs_of c' n ip_attrs = attrs_of c1 n ip_attrs" for n
      using core_static_fields(1) [OF cs] by (simp add: attrs_of_def)
    have th: "mu_thread_id w1 = mu_thread_id w" using k1(3) by (simp add: writer_who_def)
    show ?thesis
      using ls k1 grows_trans [OF k1(2) ls(2)] wo unfolding la th by (intro conjI bexI [OF _ k1(4)]) auto
  qed
qed

lemma find_log_desc_own:
  assumes ot: "other_threads xxh P8_PACKET_LOGS self env" and inv: "log_inv xxh self lw c"
    and f: "find_log_desc env self alloc h file line func fmt lw c = Some (r, lw', c')"
  shows "log_inv xxh self lw' c' \<and> grows xxh c c' \<and> writer_who (lg_base lw') = writer_who (lg_base lw)
    \<and> stream_of (lg_base lw') (co_mem c') \<in> {stream_of (lg_base lw) (co_mem c), []}
    \<and> (\<forall>d. r = Some d \<longrightarrow> mo_log_descs c' h = Some d)"
proof (cases "mo_desc_map lw h")
  case (Some d)
  with f inv show ?thesis by (auto simp: find_log_desc_def log_inv_def map_le_def dom_def)
next
  case None
  have own: "own_inv P8_PACKET_LOGS self {} (lg_base lw) c" and k: "catalog xxh c"
    and mp: "mo_desc_map lw \<subseteq>\<^sub>m mo_log_descs c" using inv by (simp_all add: log_inv_def)
  from f None obtain w1 where
    re: "resolve_log_desc env self alloc h (Some file) line func fmt (lg_base lw) c = Some (r, w1, c')"
    and lw': "lw' = (case r of None \<Rightarrow> lw\<lparr>lg_base := drop_log w1\<rparr>
       | Some d \<Rightarrow> lw\<lparr>lg_base := w1, mo_desc_map := (mo_desc_map lw)(h \<mapsto> d)\<rparr>)"
    by (auto simp: find_log_desc_def split: bind_splits option.splits)
  from other_threads.resolve_log_desc_own [OF ot own re]
  have o: "own_inv P8_PACKET_LOGS self {} w1 c'" and e: "evolves xxh (lg_base lw) c w1 c'"
    and d: "\<forall>d. r = Some d \<longrightarrow> mo_log_descs c' h = Some d" by auto
  have wh: "writer_who w1 = writer_who (lg_base lw)"
    by (rule writer_who_simps(1)) (use e in \<open>simp add: evolves_def\<close>)
  have mo: "mo_desc_map lw \<subseteq>\<^sub>m mo_log_descs c'"
    using map_le_trans [OF mp] e by (simp add: evolves_def)
  then have "(mo_desc_map lw)(h \<mapsto> x) \<subseteq>\<^sub>m mo_log_descs c'" if "r = Some x" for x
    using d that by (simp add: map_le_def)
  with mo o evolves_catalog [OF e k] have "log_inv xxh self lw' c'"
    by (cases r) (simp_all add: lw' log_inv_def)
  moreover have "bufs (lg_base lw') = bufs w1" "writer_who (lg_base lw') = writer_who w1"
    by (cases r; simp add: lw')+
  ultimately show ?thesis
    using evolves_grows [OF e] evolves_stream [OF e] wh d by (simp add: stream_of_def)
qed

text \<open>Behind the gate; \<open>le_min\<close> and \<open>mod_id\<close> may come from another core's module.\<close>

lemma log_gated_own:
  assumes ot: "other_threads xxh P8_PACKET_LOGS self env" and inv: "log_inv xxh self lw c"
    and s: "log_gated xxh_seed env self alloc ticks level le_min mod_id trace line ip_file func ip_attrs fmt io_args lw c
      = Some (ok, lw', c')"
  shows "log_inv xxh self lw' c' \<and> (\<exists>s \<in> {stream_of (lg_base lw) (co_mem c), []}.
    if ok then \<exists>file d as bs. ip_file = Some file \<and> le_min \<le> level \<and> mo_log_descs c' (xxh_seed file line) = Some d \<and> sublist (log_entry d) (svc_total c')
        \<and> args_bytes (ld_args d) io_args = Some as
        \<and> stream_of (lg_base lw') (co_mem c') = s @ bs
        \<and> log_record_of d ticks trace level mod_id (mu_thread_id (lg_base lw)) as
            (attrs_of c' (sizeof_log_item_dat + length (concat as)) ip_attrs) bs
    else stream_of (lg_base lw') (co_mem c') = s)"
proof -
  show ?thesis
  proof (cases "level < le_min \<or> \<not> mp_core (lg_base lw)")
    case True
    with s have "(ok, lw', c') = (False, lw, c)" by (simp add: log_gated_def split: if_splits)
    with inv show ?thesis by simp
  next
    case False
    with s obtain fl where fl: "ip_file = Some fl"
      by (auto simp: log_gated_def split: bind_splits)
    let ?h = "xxh_seed fl line"
    from s fl False obtain r lw1 c1 where
      f: "find_log_desc env self alloc ?h fl line func fmt lw c = Some (r, lw1, c1)"
      and k: "case r of None \<Rightarrow> \<not> ok \<and> lw' = lw1 \<and> c' = c1
         | Some d \<Rightarrow> (\<exists>w2. emit_log env self d ticks trace level mod_id ip_attrs io_args (lg_base lw1) c1 = Some (ok, w2, c')
             \<and> lw' = lw1\<lparr>lg_base := w2\<rparr>)"
      by (auto simp: log_gated_def split: bind_splits option.splits)
    note fd = find_log_desc_own [OF ot inv f]
    then have i1: "log_inv xxh self lw1 c1"
      and s1: "stream_of (lg_base lw1) (co_mem c1) \<in> {stream_of (lg_base lw) (co_mem c), []}"
      and th: "mu_thread_id (lg_base lw1) = mu_thread_id (lg_base lw)"
      by (auto simp: writer_who_def)
    show ?thesis
    proof (cases r)
      case None
      with k i1 s1 show ?thesis by auto
    next
      case (Some d)
      with k obtain w2 where e: "emit_log env self d ticks trace level mod_id ip_attrs io_args (lg_base lw1) c1 = Some (ok, w2, c')"
        and lw': "lw' = lw1\<lparr>lg_base := w2\<rparr>" by auto
      have o1: "own_inv P8_PACKET_LOGS self {} (lg_base lw1) c1" and k1: "catalog xxh c1"
        and m1: "mo_desc_map lw1 \<subseteq>\<^sub>m mo_log_descs c1" using i1 by (simp_all add: log_inv_def)
      note em = emit_log_own [OF ot o1 e]
      then have o2: "own_inv P8_PACKET_LOGS self {} w2 c'" and g2: "grows xxh c1 c'" by auto
      have k2: "catalog xxh c'" by (rule grows_catalog [OF g2 k1])
      have i2: "log_inv xxh self lw' c'"
        using o2 k2 map_le_trans [OF m1] g2 by (simp add: log_inv_def lw' grows_def)
      have d: "mo_log_descs c' ?h = Some d" using grows_log_desc [OF g2] fd Some by blast
      then have sl: "sublist (log_entry d) (svc_total c')" using k2 unfolding catalog_def by blast
      from em obtain s where s2: "s \<in> {stream_of (lg_base lw1) (co_mem c1), []}" and
        res: "if ok then \<exists>as bs. args_bytes (ld_args d) io_args = Some as
          \<and> stream_of w2 (co_mem c') = s @ bs
          \<and> log_record_of d ticks trace level mod_id (mu_thread_id (lg_base lw1)) as
              (attrs_of c' (sizeof_log_item_dat + length (concat as)) ip_attrs) bs
          else stream_of w2 (co_mem c') = s" by blast
      have s3: "s \<in> {stream_of (lg_base lw) (co_mem c), []}" using s1 s2 by auto
      have le: "le_min \<le> level" using False by (simp add: not_less)
      show ?thesis
      proof (intro conjI bexI [OF _ s3] i2)
        show "if ok then \<exists>file d as bs. ip_file = Some file \<and> le_min \<le> level \<and> mo_log_descs c' (xxh_seed file line) = Some d \<and> sublist (log_entry d) (svc_total c')
            \<and> args_bytes (ld_args d) io_args = Some as
            \<and> stream_of (lg_base lw') (co_mem c') = s @ bs
            \<and> log_record_of d ticks trace level mod_id (mu_thread_id (lg_base lw)) as
                (attrs_of c' (sizeof_log_item_dat + length (concat as)) ip_attrs) bs
          else stream_of (lg_base lw') (co_mem c') = s"
        proof (cases ok)
          case True
          with res obtain as bs where "args_bytes (ld_args d) io_args = Some as"
            "stream_of w2 (co_mem c') = s @ bs"
            "log_record_of d ticks trace level mod_id (mu_thread_id (lg_base lw)) as
              (attrs_of c' (sizeof_log_item_dat + length (concat as)) ip_attrs) bs"
            unfolding th by auto
          with True fl le d sl show ?thesis by (simp add: lw')
        qed (use res in \<open>simp add: lw'\<close>)
      qed
    qed
  qed
qed

lemma log_send_gated:
  assumes "log_send xxh_seed env self alloc ticks level ip_module trace line ip_file func ip_attrs fmt io_args lw c
      = Some (ok, lw', c')"
  obtains le_min mod_id where "log_gate ip_module (lg_base lw) c = Some (le_min, mod_id)"
    and "log_gated xxh_seed env self alloc ticks level le_min mod_id trace line ip_file func ip_attrs fmt io_args lw c = Some (ok, lw', c')"
  using assms by (auto simp: log_send_def split: bind_splits)

lemma log_send_own:
  assumes ot: "other_threads xxh P8_PACKET_LOGS self env" and inv: "log_inv xxh self lw c"
    and s: "log_send xxh_seed env self alloc ticks level ip_module trace line ip_file func ip_attrs fmt io_args lw c
      = Some (ok, lw', c')"
  shows "log_inv xxh self lw' c' \<and> (\<exists>s \<in> {stream_of (lg_base lw) (co_mem c), []}.
    if ok then \<exists>file le_min mod_id d as bs. ip_file = Some file \<and> log_gate ip_module (lg_base lw) c = Some (le_min, mod_id)
        \<and> le_min \<le> level \<and> mo_log_descs c' (xxh_seed file line) = Some d \<and> sublist (log_entry d) (svc_total c')
        \<and> args_bytes (ld_args d) io_args = Some as
        \<and> stream_of (lg_base lw') (co_mem c') = s @ bs
        \<and> log_record_of d ticks trace level mod_id (mu_thread_id (lg_base lw)) as
            (attrs_of c' (sizeof_log_item_dat + length (concat as)) ip_attrs) bs
    else stream_of (lg_base lw') (co_mem c') = s)"
proof -
  from s obtain le_min mod_id where g: "log_gate ip_module (lg_base lw) c = Some (le_min, mod_id)"
    and r: "log_gated xxh_seed env self alloc ticks level le_min mod_id trace line ip_file func ip_attrs fmt io_args lw c = Some (ok, lw', c')"
    by (rule log_send_gated)
  show ?thesis using log_gated_own [OF ot inv r] g by (cases ok) fastforce+
qed


text \<open>Whoever waits is served: then the call returns, provided the values passed are what the
  descriptor of the call site reads.\<close>

lemma emit_log_returns:
  assumes ot: "others_serve xxh P8_PACKET_LOGS self env" and own: "own_inv P8_PACKET_LOGS self {} w c"
    and a: "args_bytes (ld_args d) io_args \<noteq> None"
  shows "emit_log env self d ticks trace level mod_id ip_attrs io_args w c \<noteq> None"
proof -
  let ?w = "if lacks_room (P8_LOG_MIN_BUFFER_SPACE + sizeof_log_item_dat) w then park w else w"
  have o1: "own_inv P8_PACKET_LOGS self {} ?w c" using own park_own(1) by simp
  obtain ok1 w1 c1 where t: "take_buffer env self P8_PACKET_LOGS ?w c = Some (ok1, w1, c1)"
    using others_serve.take_buffer_returns [OF ot o1] by blast
  show ?thesis
  proof (cases ok1)
    case True
    then have k: "took xxh P8_PACKET_LOGS self ?w c True w1 c1"
      using other_threads.take_buffer_own [OF others_serve.axioms(1) [OF ot] o1 t] by simp
    obtain b where b: "mp_buffer w1 = Some b" using took_room(2) [OF k] by auto
    have r: "40 \<le> mz_buf_max w1 - mz_buf_used w1" using took_room(1) [OF k] by simp
    have o2: "own_inv P8_PACKET_LOGS self {} w1 c1" using k by (simp add: took_def)
    from write_log_own(2) [OF o2 b r a] t True show ?thesis by (simp add: emit_log_def)
  qed (use t in \<open>simp add: emit_log_def\<close>)
qed

lemma log_gated_returns:
  assumes ot: "others_serve xxh P8_PACKET_LOGS self env" and inv: "log_inv xxh self lw c"
    and a: "\<And>d. mo_log_descs c (xxh_seed fl line) = Some d \<or> d = make_log_desc (xxh_seed fl line) (Some fl) line func fmt \<Longrightarrow>
      args_bytes (ld_args d) io_args \<noteq> None"
  shows "log_gated xxh_seed env self alloc ticks level le_min mod_id trace line (Some fl) func ip_attrs fmt io_args lw c \<noteq> None"
proof -
  let ?h = "xxh_seed fl line"
  have ow: "own_inv P8_PACKET_LOGS self {} (lg_base lw) c" and mp: "mo_desc_map lw \<subseteq>\<^sub>m mo_log_descs c"
    using inv by (simp_all add: log_inv_def)
  note ot' = others_serve.axioms(1) [OF ot]
  obtain r lw1 c1 where f: "find_log_desc env self alloc ?h fl line func fmt lw c = Some (r, lw1, c1)"
  proof -
    have "find_log_desc env self alloc ?h fl line func fmt lw c \<noteq> None"
      using others_serve.resolve_log_desc_returns [OF ot ow, of alloc ?h "Some fl" line func fmt]
      by (auto simp: find_log_desc_def split: option.split)
    then show ?thesis using that by auto
  qed
  have ar: "args_bytes (ld_args d) io_args \<noteq> None" if "r = Some d" for d
  proof (rule a, cases "mo_desc_map lw ?h")
    case (Some x)
    then have "mo_log_descs c ?h = Some x" using mp by (metis domI map_le_def)
    with Some f that show "mo_log_descs c ?h = Some d \<or> d = make_log_desc ?h (Some fl) line func fmt"
      by (simp add: find_log_desc_def)
  next
    case None
    with f that show "mo_log_descs c ?h = Some d \<or> d = make_log_desc ?h (Some fl) line func fmt"
      by (auto simp: find_log_desc_def resolve_log_desc_def Let_def split: option.splits bind_splits if_splits)
  qed
  have o1: "own_inv P8_PACKET_LOGS self {} (lg_base lw1) c1"
    using find_log_desc_own [OF ot' inv f] by (simp add: log_inv_def)
  show ?thesis
  proof (cases r)
    case (Some d)
    with emit_log_returns [OF ot o1 ar [OF Some]] f show ?thesis
      by (simp add: log_gated_def bind_eq_None_conv del: not_None_eq split: prod.split)
  qed (use f in \<open>auto simp: log_gated_def\<close>)
qed

lemma log_send_returns_lemma:
  assumes "others_serve xxh P8_PACKET_LOGS self env" and "log_inv xxh self lw c"
    and g: "log_gate ip_module (lg_base lw) c \<noteq> None"
    and "\<And>d. mo_log_descs c (xxh_seed fl line) = Some d \<or> d = make_log_desc (xxh_seed fl line) (Some fl) line func fmt \<Longrightarrow>
      args_bytes (ld_args d) io_args \<noteq> None"
  shows "log_send xxh_seed env self alloc ticks level ip_module trace line (Some fl) func ip_attrs fmt io_args lw c \<noteq> None"
proof -
  obtain le_min mod_id where "log_gate ip_module (lg_base lw) c = Some (le_min, mod_id)" using g by auto
  then show ?thesis using log_gated_returns [OF assms(1,2,4)] by (simp add: log_send_def)
qed

section \<open>Properties\<close>

text \<open>
  C1 A log call appends exactly one record or nothing. Whatever other threads do while the
  call waits, the writer's invariant is kept and the stream of the writer is afterwards the
  stream before (or nothing, when the worker pulled it meanwhile), followed, when the call
  reports success, by one record: the header with the module, level, time and the descriptor's
  hash, the arguments the descriptor describes, the attributes the registry knows, padded to 8
  bytes. A successful call passed the module's threshold, and its descriptor's entry is among
  the service bytes.
\<close>

theorem log_send_record:
  assumes "other_threads xxh P8_PACKET_LOGS self env" and "log_inv xxh self lw c"
    and "log_send xxh_seed env self alloc ticks level ip_module trace line ip_file func ip_attrs fmt io_args lw c
      = Some (ok, lw', c')"
  shows "log_inv xxh self lw' c' \<and> (\<exists>s \<in> {stream_of (lg_base lw) (co_mem c), []}.
    if ok then \<exists>fl le_min mod_id d as bs. ip_file = Some fl \<and> log_gate ip_module (lg_base lw) c = Some (le_min, mod_id)
        \<and> le_min \<le> level \<and> mo_log_descs c' (xxh_seed fl line) = Some d \<and> sublist (log_entry d) (svc_total c')
        \<and> args_bytes (ld_args d) io_args = Some as
        \<and> stream_of (lg_base lw') (co_mem c') = s @ bs
        \<and> log_record_of d ticks trace level mod_id (mu_thread_id (lg_base lw)) as
            (attrs_of c' (sizeof_log_item_dat + length (concat as)) ip_attrs) bs
    else stream_of (lg_base lw') (co_mem c') = s)"
  by (rule log_send_own [OF assms])

text \<open>
  A log call returns: when whoever waits in the pool is eventually served, a call with a
  valid module, a file name, and the values its descriptor reads has a result; the copy loop,
  the reservation loop and the discard all end.
\<close>

theorem log_send_returns:
  assumes "others_serve xxh P8_PACKET_LOGS self env" and "log_inv xxh self lw c"
    and "log_gate ip_module (lg_base lw) c \<noteq> None"
    and "\<And>d. mo_log_descs c (xxh_seed fl line) = Some d \<or> d = make_log_desc (xxh_seed fl line) (Some fl) line func fmt \<Longrightarrow>
      args_bytes (ld_args d) io_args \<noteq> None"
  shows "log_send xxh_seed env self alloc ticks level ip_module trace line (Some fl) func ip_attrs fmt io_args lw c \<noteq> None"
  by (rule log_send_returns_lemma [OF assms])

text \<open>An example call: a new writer of a new core logs \<open>"x"\<close> while another thread stops the
  pool.\<close>

definition ex_log :: log_writer where
  "ex_log = \<lparr>lg_base = tls_writer_create True 7 1, mo_desc_map = (\<lambda>_. None)\<rparr>"

lemma ex_log_inv: "log_inv (\<lambda>_. 0) 1 ex_log (core_new ex_pool)"
  using ex_own by (simp add: log_inv_def ex_log_def core_new_def)

lemma ex_log_args: "args_bytes (ld_args (make_log_desc h (Some [97]) 3 None (Some [120]))) [] = Some []"
  by (simp add: make_log_desc_def) code_simp

lemma ex_log_gate: "log_gate None (lg_base ex_log) (core_new ex_pool) \<noteq> None"
  by (simp add: log_gate_def)

theorem log_send_returns_witness:
  "log_send (\<lambda>_ _. 0) stop_env 1 True 5 e_p8_info0 None 0 3 (Some [97]) None None (Some [120]) [] ex_log
     (core_new ex_pool) \<noteq> None"
proof (rule log_send_returns [OF stopping.others_serve_axioms ex_log_inv ex_log_gate])
  fix d
  assume "mo_log_descs (core_new ex_pool) 0 = Some d \<or> d = make_log_desc 0 (Some [97]) 3 None (Some [120])"
  then show "args_bytes (ld_args d) [] \<noteq> None" using ex_log_args by (simp add: core_new_def)
qed

lemma ex_log_returns:
  obtains ok lw' c' where "log_send (\<lambda>_ _. 0) stop_env 1 True 5 e_p8_info0 None 0 3 (Some [97]) None None (Some [120])
     [] ex_log (core_new ex_pool) = Some (ok, lw', c')"
proof -
  have "log_send (\<lambda>_ _. 0) stop_env 1 True 5 e_p8_info0 None 0 3 (Some [97]) None None (Some [120]) [] ex_log
     (core_new ex_pool) \<noteq> None"
  proof (rule log_send_returns_lemma [OF stopping.others_serve_axioms ex_log_inv ex_log_gate])
    fix d
    assume "mo_log_descs (core_new ex_pool) 0 = Some d \<or> d = make_log_desc 0 (Some [97]) 3 None (Some [120])"
    then show "args_bytes (ld_args d) [] \<noteq> None" using ex_log_args by (simp add: core_new_def)
  qed
  then show ?thesis using that by auto
qed

theorem log_send_record_witness:
  "\<exists>ok lw' c'. log_send (\<lambda>_ _. 0) stop_env 1 True 5 e_p8_info0 None 0 3 (Some [97]) None None (Some [120]) [] ex_log
     (core_new ex_pool) = Some (ok, lw', c') \<and> log_inv (\<lambda>_. 0) 1 lw' c'"
proof -
  obtain ok lw' c' where s: "log_send (\<lambda>_ _. 0) stop_env 1 True 5 e_p8_info0 None 0 3 (Some [97]) None None (Some [120])
     [] ex_log (core_new ex_pool) = Some (ok, lw', c')" by (rule ex_log_returns)
  from log_send_record [OF stopping.other_threads_axioms ex_log_inv s] s show ?thesis by blast
qed

end
