(* ===== verification/P8_Metric.thy ===== *)
theory P8_Metric
  imports P8_Emit
begin

text \<open>
  \<open>cp8_mtk::emit\<close> of engine/p8_mtk.cpp: the bounds check against the registry, a buffer with
  room for a sample, the sample, and parking of a buffer that is full. A sample has a fixed
  size, so the writer's stream is a run of samples. The query and group operations of
  \<open>cp8_mtk\<close> are stubs that fail.
\<close>

section \<open>Emitting a sample\<close>

definition drop_metric :: "tls_writer \<Rightarrow> tls_writer" where
  "drop_metric w = w\<lparr>wr_dropped := (wr_dropped w)\<lparr>ds_metrics := ds_metrics (wr_dropped w) + 1\<rparr>\<rparr>"

text \<open>The sample behind the write offset, and the new offset in the buffer's header.\<close>

definition write_sample :: "i32 \<Rightarrow> u64 \<Rightarrow> u64 \<Rightarrow> addr \<Rightarrow> tls_writer \<Rightarrow> core \<Rightarrow> tls_writer \<times> core" where
  "write_sample ih_id id_value lu_timestamp b w c = end_record (put_bytes (enc_mid
     \<lparr>mid_timestamp = lu_timestamp, mid_value = id_value, mid_id = ih_id,
      mid_size = word_of_nat sizeof_mtk_item_dat, mid_flags = 0, mid_attrs_count = 0\<rparr>) (pen_at w c))"

definition mtk_emit ::
    "interference \<Rightarrow> nat \<Rightarrow> i32 \<Rightarrow> u64 \<Rightarrow> u64 \<Rightarrow> tls_writer \<Rightarrow> core \<Rightarrow> (bool \<times> tls_writer \<times> core) option" where
  "mtk_emit env lo_self ih_id id_value lu_timestamp w c =
     (if \<not> mp_core w then Some (False, w, c)
      else if sint ih_id < 0 \<or> ih_id \<ge> mu_mtk_count c then Some (False, w, c)
      else do {
        (ok, w1, c1) \<leftarrow> take_buffer env lo_self P8_PACKET_METRICS
          (if lacks_room sizeof_mtk_item_dat w then park w else w) c;
        if \<not> ok then Some (False, drop_metric w1, c1)
        else do {
          b \<leftarrow> mp_buffer w1;
          (case write_sample ih_id id_value lu_timestamp b w1 c1 of (w2, c2) \<Rightarrow>
            Some (True, if mz_buf_max w2 - mz_buf_used w2 < sizeof_mtk_item_dat then (park w2)\<lparr>mz_buf_used := 0\<rparr> else w2, c2))
        }
      })"

text \<open>The operations that are not implemented yet.\<close>

definition mtk_create_query :: i32 where "mtk_create_query = -1"
definition mtk_create_group :: "16 word" where "mtk_create_group = -1"
definition mtk_create_group_query :: "16 word" where "mtk_create_group_query = -1"
definition mtk_begin_group_emit :: bool where "mtk_begin_group_emit = False"
definition mtk_emit_group :: bool where "mtk_emit_group = False"
definition mtk_end_group_emit :: bool where "mtk_end_group_emit = False"

section \<open>What a sample does to the stream\<close>

lemma drop_metric_simps [simp]:
  "bufs (drop_metric w) = bufs w" "stream_of (drop_metric w) m = stream_of w m"
  "writer_who (drop_metric w) = writer_who w" "own_inv ty self h (drop_metric w) c = own_inv ty self h w c"
  "leaves w c (drop_metric w') c' = leaves w c w' c'"
  by (simp_all add: drop_metric_def bufs_def stream_of_def writer_who_def own_inv_def own_bufs_def wr_inv_def
      hdr_ids_def cache_ok_def leaves_def foreign_def)

definition sample :: "i32 \<Rightarrow> u64 \<Rightarrow> u64 \<Rightarrow> s_p8_mtk_item_dat" where
  "sample i v t = \<lparr>mid_timestamp = t, mid_value = v, mid_id = i, mid_size = word_of_nat sizeof_mtk_item_dat,
     mid_flags = 0, mid_attrs_count = 0\<rparr>"

lemma write_sample_own:
  assumes own: "own_inv P8_PACKET_METRICS self {} w c" and b: "mp_buffer w = Some b"
    and room: "24 \<le> mz_buf_max w - mz_buf_used w"
    and e: "write_sample i v t b w c = (w', c')"
  shows "own_inv P8_PACKET_METRICS self {} w' c'" and "grows xxh c c'" and "writer_who w' = writer_who w"
    and "stream_of w' (co_mem c') = stream_of w (co_mem c) @ enc_mid (sample i v t)" and "leaves w c w' c'"
proof -
  let ?p = "put_bytes (enc_mid (sample i v t)) (pen_at w c)"
  have inv: "wr_inv P8_PACKET_METRICS w c" using own by (simp add: own_inv_def own_bufs_def)
  note s = wr_inv_start [OF inv b]
  have st: "rec_open w c b (mz_buf_used w) [] [] (pen_at w c)" by (rule rec_open_start [OF s]) (simp_all add: pen_at_def)
  have "mz_buf_max w = 8192" "mz_buf_used w \<le> 8192" using inv b by (auto simp: wr_inv_def bufs_def)
  with room have "io_dst (pen_at w c) + length (enc_mid (sample i v t)) \<le> mz_buf_max w" by (auto simp: pen_at_def)
  from rec_open_put [OF s st this] have o: "rec_open w c b (mz_buf_used w) (enc_mid (sample i v t)) [] ?p" by simp
  have "cache_ok (pn_w ?p) (pn_c ?p)"
    using inv by (simp add: wr_inv_def cache_ok_def put_bytes_cache pen_at_def)
  note co = commit_own [OF own b o _ this e [unfolded write_sample_def, folded sample_def]]
  from co(1,2,4,5,7) show "own_inv P8_PACKET_METRICS self {} w' c'" "grows xxh c c'" "writer_who w' = writer_who w"
    "stream_of w' (co_mem c') = stream_of w (co_mem c) @ enc_mid (sample i v t)" "leaves w c w' c'"
    by simp_all
qed

lemma mtk_emit_own:
  assumes ot: "other_threads xxh P8_PACKET_METRICS self env" and own: "own_inv P8_PACKET_METRICS self {} w c"
    and e: "mtk_emit env self i v t w c = Some (ok, w', c')"
  shows "own_inv P8_PACKET_METRICS self {} w' c' \<and> grows xxh c c' \<and> writer_who w' = writer_who w
    \<and> (ok \<longrightarrow> mp_core w \<and> 0 \<le> sint i \<and> i < mu_mtk_count c)
    \<and> (\<exists>s \<in> {stream_of w (co_mem c), []}.
        stream_of w' (co_mem c') = s @ (if ok then enc_mid (sample i v t) else []))"
proof (cases "\<not> mp_core w \<or> sint i < 0 \<or> i \<ge> mu_mtk_count c")
  case True
  with e have "(ok, w', c') = (False, w, c)" by (simp add: mtk_emit_def split: if_splits)
  with own show ?thesis by simp
next
  case False
  let ?w = "if lacks_room sizeof_mtk_item_dat w then park w else w"
  have o1: "own_inv P8_PACKET_METRICS self {} ?w c" using own park_own(1) by simp
  have st: "stream_of ?w m = stream_of w m" "writer_who ?w = writer_who w" for m
    by (simp_all add: writer_who_simps(3))
  obtain ok1 w1 c1 where t: "take_buffer env self P8_PACKET_METRICS ?w c = Some (ok1, w1, c1)"
    using e False by (auto simp: mtk_emit_def split: bind_splits)
  note k = other_threads.take_buffer_own [OF ot o1 t]
  then have k1: "own_inv P8_PACKET_METRICS self {} w1 c1" "grows xxh c c1" "writer_who w1 = writer_who w"
    "stream_of w1 (co_mem c1) \<in> {stream_of w (co_mem c), []}"
    using st by (auto simp: took_def)
  show ?thesis
  proof (cases ok1)
    case False
    with e t \<open>\<not> (_ \<or> _)\<close> have "\<not> ok" "w' = drop_metric w1" "c' = c1" by (auto simp: mtk_emit_def)
    with k1 show ?thesis by auto
  next
    case True
    then have "ok1 = True" by simp
    note rm = took_room [OF k [unfolded this]]
    obtain b where b: "mp_buffer w1 = Some b" using rm(2) by auto
    have r: "24 \<le> mz_buf_max w1 - mz_buf_used w1" using rm(1) by simp
    obtain w2 c2 where ws: "write_sample i v t b w1 c1 = (w2, c2)" by fastforce
    note wo = write_sample_own [OF k1(1) b r ws]
    have w': "ok" "c' = c2" "w' = w2 \<or> w' = (park w2)\<lparr>mz_buf_used := 0\<rparr>"
      using e t True b ws \<open>\<not> (_ \<or> _)\<close> by (auto simp: mtk_emit_def split: if_splits)
    have "own_inv P8_PACKET_METRICS self {} w' c'" using w' wo(1) park_own(2) by auto
    moreover have "writer_who w' = writer_who w" using w' wo(3) k1(3) writer_who_simps(3,4) by auto
    moreover have "stream_of w' (co_mem c') = stream_of w1 (co_mem c1) @ enc_mid (sample i v t)"
      using w' wo(4) by auto
    ultimately show ?thesis using grows_trans [OF k1(2) wo(2)] k1(4) w'(1,2) \<open>\<not> (_ \<or> _)\<close> by auto
  qed
qed


text \<open>Whoever waits is served: then the call returns.\<close>

lemma mtk_emit_not_None:
  assumes ot: "others_serve xxh P8_PACKET_METRICS self env" and own: "own_inv P8_PACKET_METRICS self {} w c"
  shows "mtk_emit env self i v t w c \<noteq> None"
proof -
  let ?w = "if lacks_room sizeof_mtk_item_dat w then park w else w"
  have o1: "own_inv P8_PACKET_METRICS self {} ?w c" using own park_own(1) by simp
  obtain ok1 w1 c1 where t: "take_buffer env self P8_PACKET_METRICS ?w c = Some (ok1, w1, c1)"
    using others_serve.take_buffer_returns [OF ot o1] by blast
  have "mp_buffer w1 \<noteq> None" if ok1
    using other_threads.take_buffer_own [OF others_serve.axioms(1) [OF ot] o1 t] that by (simp add: took_def)
  with t show ?thesis
    by (cases ok1) (auto simp: mtk_emit_def split: prod.split)
qed

section \<open>Properties\<close>

text \<open>
  C28 A metric writer's stream is a run of samples that a receiver decodes one by one. If it was
  the run of the samples \<open>ss\<close> before a call of \<open>emit\<close>, it is afterwards the run of \<open>ss\<close> (or of
  none of them, when the worker pulled the buffers while the call waited), followed, when the
  call reports success, by exactly the sample with the given id, value and time; cutting the
  stream every 24 bytes and decoding yields the samples in order. A call succeeds only for a
  registered metric.
\<close>

theorem mtk_emit_roundtrip:
  assumes "other_threads xxh P8_PACKET_METRICS self env" and "own_inv P8_PACKET_METRICS self {} w c"
    and "stream_of w (co_mem c) = concat (map enc_mid ss)"
    and "mtk_emit env self i v t w c = Some (ok, w', c')"
  shows "own_inv P8_PACKET_METRICS self {} w' c' \<and> (ok \<longrightarrow> 0 \<le> sint i \<and> i < mu_mtk_count c)
    \<and> (\<exists>old \<in> {ss, []}. let now = old @ (if ok then [sample i v t] else []) in
        stream_of w' (co_mem c') = concat (map enc_mid now)
        \<and> (\<forall>k < length now. dec_mid (drop (k * sizeof_mtk_item_dat) (stream_of w' (co_mem c'))) = now ! k))"
proof -
  note e = mtk_emit_own [OF assms(1,2,4)]
  then obtain s where s: "s \<in> {stream_of w (co_mem c), []}"
    and st: "stream_of w' (co_mem c') = s @ (if ok then enc_mid (sample i v t) else [])" by blast
  from s assms(3) obtain old where old: "old \<in> {ss, []}" "s = concat (map enc_mid old)" by fastforce
  let ?now = "old @ (if ok then [sample i v t] else [])"
  have now: "stream_of w' (co_mem c') = concat (map enc_mid ?now)" by (simp add: st old(2))
  have "dec_mid (drop (k * 24) (concat (map enc_mid ?now))) = ?now ! k" if "k < length ?now" for k
    using mid.run_decodes [OF that, of "[]"] by simp
  with e old(1) show ?thesis unfolding now Let_def by blast
qed

definition ex_metric :: core where
  "ex_metric = (core_new ex_pool)\<lparr>mu_mtk_count := 1\<rparr>"

lemma ex_metric_own: "own_inv ty self {} (tls_writer_create True t k) ex_metric"
  using ex_own(1) [of ty self t k]
  by (simp add: ex_metric_def own_inv_def own_bufs_def wr_inv_def core_ok_def cache_ok_def svc_inv_def svc_addrs_def
      may_wait_def)

theorem mtk_emit_roundtrip_witness:
  "\<exists>ok w' c'. mtk_emit stop_env 1 0 9 5 (tls_writer_create True 7 1) ex_metric = Some (ok, w', c')
     \<and> own_inv P8_PACKET_METRICS 1 {} w' c'"
proof -
  obtain ok w' c' where e: "mtk_emit stop_env 1 0 9 5 (tls_writer_create True 7 1) ex_metric = Some (ok, w', c')"
    using mtk_emit_not_None [OF stopping.others_serve_axioms ex_metric_own, of 1 0 9 5 7 1] by auto
  have "stream_of (tls_writer_create True 7 1) (co_mem ex_metric) = concat (map enc_mid [])"
    by (simp add: stream_of_def bufs_def tls_writer_create_def)
  from mtk_emit_roundtrip [OF stopping.other_threads_axioms ex_metric_own this e] e show ?thesis by blast
qed

end
