(* ===== verification/P8_Trace.thy ===== *)
theory P8_Trace
  imports P8_Emit
begin

text \<open>
  Spans: engine/p8_trc.cpp. A trace writer keeps the spans its thread has open, innermost last,
  and a block of span IDs reserved from the core. \<open>begin\<close> and \<open>begin_async\<close> write a record that
  may span buffers and carries attributes; \<open>end\<close> closes the span on the stack and writes a
  record of a fixed size.
\<close>

abbreviation (input) P8_INVALID_SPAN :: u64 where "P8_INVALID_SPAN \<equiv> 0"
abbreviation (input) P8_NO_PARENT_SPAN :: u64 where "P8_NO_PARENT_SPAN \<equiv> 0"
abbreviation (input) P8_ASYNC_SPAN_BIT :: u64 where "P8_ASYNC_SPAN_BIT \<equiv> 9223372036854775808"

definition P8_IS_ASYNC_SPAN :: "u64 \<Rightarrow> bool" where
  "P8_IS_ASYNC_SPAN iu_id \<longleftrightarrow> iu_id AND P8_ASYNC_SPAN_BIT = P8_ASYNC_SPAN_BIT"

record trc_writer =
  tc_base :: tls_writer
  mo_descs :: "u64 set"
  mo_open_spans :: "u64 list"
  mu_next_span_id :: u64
  mu_end_span_id :: u64

definition trc_create :: "tls_writer \<Rightarrow> trc_writer" where
  "trc_create w = \<lparr>tc_base = w, mo_descs = {}, mo_open_spans = [], mu_next_span_id = 0, mu_end_span_id = 0\<rparr>"

section \<open>The stack of open spans\<close>

text \<open>\<open>pull_last\<close>, \<open>n\<close> times.\<close>

fun pull_last_n :: "nat \<Rightarrow> 'a list \<Rightarrow> 'a list" where
  "pull_last_n 0 xs = xs"
| "pull_last_n (Suc n) xs = pull_last_n n (butlast xs)"

text \<open>The search below the top: the iterator is at depth \<open>lz_depth\<close> from the end.\<close>

function pop_search :: "u64 \<Rightarrow> nat \<Rightarrow> u64 list \<Rightarrow> u64 list" where
  "pop_search iu_span_id lz_depth spans =
     (if lz_depth < length spans then
        (if spans ! (length spans - Suc lz_depth) = iu_span_id then pull_last_n (Suc lz_depth) spans
         else pop_search iu_span_id (Suc lz_depth) spans)
      else spans)"
  by pat_completeness auto

termination
  by (relation "measure (\<lambda>(i, d, xs). length xs - d)") auto

declare pop_search.simps [simp del]

definition pop_span :: "u64 \<Rightarrow> u64 list \<Rightarrow> u64 list" where
  "pop_span iu_span_id spans =
     (if spans = [] then spans
      else if last spans = iu_span_id then butlast spans
      else pop_search iu_span_id 1 spans)"

section \<open>Span IDs\<close>

definition next_span_id :: "byte \<Rightarrow> trc_writer \<Rightarrow> core \<Rightarrow> u64 \<times> trc_writer \<times> core" where
  "next_span_id iu_type tw c =
     (case (if mu_next_span_id tw = mu_end_span_id tw then
              (case reserve_span_ids c of (lu_first, c1) \<Rightarrow>
                 (tw\<lparr>mu_next_span_id := lu_first, mu_end_span_id := lu_first + P8_CORE_SPAN_ID_BLOCK\<rparr>, c1))
            else (tw, c)) of
       (tw1, c1) \<Rightarrow>
         (if iu_type = P8_TRC_ITEM_BEGIN_ASYNC then mu_next_span_id tw1 OR P8_ASYNC_SPAN_BIT else mu_next_span_id tw1,
          tw1\<lparr>mu_next_span_id := mu_next_span_id tw1 + 1\<rparr>, c1))"

section \<open>Records\<close>

definition drop_trace :: "tls_writer \<Rightarrow> tls_writer" where
  "drop_trace w = w\<lparr>wr_dropped := (wr_dropped w)\<lparr>ds_traces := ds_traces (wr_dropped w) + 1\<rparr>\<rparr>"

definition ensure_buffer ::
    "interference \<Rightarrow> nat \<Rightarrow> nat \<Rightarrow> tls_writer \<Rightarrow> core \<Rightarrow> (bool \<times> tls_writer \<times> core) option" where
  "ensure_buffer env lo_self iz_needed w c = take_buffer env lo_self P8_PACKET_TRACES
     (if lacks_room iz_needed w then (park w)\<lparr>mz_buf_used := 0\<rparr> else w) c"

definition set_tbd :: "addr \<Rightarrow> nat \<Rightarrow> (s_p8_trc_begin_dat \<Rightarrow> s_p8_trc_begin_dat) \<Rightarrow> pen \<Rightarrow> pen" where
  "set_tbd = set_hdr enc_tbd dec_tbd 40"

text \<open>The record of a span's start, with the current buffer in hand.\<close>

definition write_span ::
    "byte \<Rightarrow> u64 \<Rightarrow> u64 \<Rightarrow> u64 \<Rightarrow> u64 \<Rightarrow> s_p8_attr_val list option \<Rightarrow> tls_writer \<Rightarrow> core
      \<Rightarrow> (bool \<times> tls_writer \<times> core) option" where
  "write_span iu_type iu_parent_id lu_hash lu_span_id lu_ticks ip_attrs w c = (case mp_buffer w of
     None \<Rightarrow> None
   | Some b \<Rightarrow>
       (let lz_frag_commit = length (mo_fragments w);
            lp_hdr = mz_buf_used w;
            p0 = advance sizeof_trc_begin_dat (set_tbd b lp_hdr (\<lambda>_. \<lparr>tbd_timestamp = lu_ticks,
                tbd_span_id = lu_span_id, tbd_size = word_of_nat sizeof_trc_begin_dat, tbd_type = iu_type,
                tbd_attrs_count = 0, tbd_thread_id = mu_thread_id w, tbd_hash = lu_hash,
                tbd_parent_id = iu_parent_id\<rparr>) (pen_at w c))
        in do {
          (lo_attrs, p1) \<leftarrow> serialize_some_attrs sizeof_trc_begin_dat ip_attrs p0;
          if \<not> mb_done lo_attrs then
            (case discard_record lz_frag_commit lp_hdr (pn_w p1) (pn_c p1) of
              (w', c') \<Rightarrow> Some (False, drop_trace w', c'))
          else (let lz_size = sizeof_trc_begin_dat + mz_bytes lo_attrs in
            Some (True, end_record (advance (lz_pad lz_size) (set_tbd b lp_hdr
              (\<lambda>h. h\<lparr>tbd_attrs_count := word_of_nat (mu_count lo_attrs),
                 tbd_size := word_of_nat (lz_size + lz_pad lz_size)\<rparr>) p1))))
        }))"

definition write_begin ::
    "(byte list \<Rightarrow> u64) \<Rightarrow> (cstr \<Rightarrow> u32 \<Rightarrow> u64) \<Rightarrow> interference \<Rightarrow> nat \<Rightarrow> u64 \<Rightarrow> byte \<Rightarrow> u64 \<Rightarrow> cstr option \<Rightarrow> u32
      \<Rightarrow> cstr option \<Rightarrow> cstr option \<Rightarrow> s_p8_attr_val list option \<Rightarrow> trc_writer \<Rightarrow> core
      \<Rightarrow> (u64 \<times> trc_writer \<times> core) option" where
  "write_begin xxh xxh_seed env lo_self lu_ticks iu_type iu_parent_id ip_name iu_line ip_file ip_function ip_attrs tw c =
     (if \<not> mp_core (tc_base tw) then Some (P8_INVALID_SPAN, tw, c)
      else (let lp_file = (case ip_file of None \<Rightarrow> [] | Some f \<Rightarrow> f); lu_hash = xxh_seed lp_file iu_line in do {
        (known, w1, c1) \<leftarrow> (if lu_hash \<in> mo_descs tw then Some (True, tc_base tw, c)
          else resolve_trc_desc xxh env lo_self lu_hash (Some lp_file) iu_line ip_function ip_name (tc_base tw) c);
        if \<not> known then Some (P8_INVALID_SPAN, tw\<lparr>tc_base := drop_trace w1\<rparr>, c1)
        else (case next_span_id iu_type (tw\<lparr>tc_base := w1, mo_descs := insert lu_hash (mo_descs tw)\<rparr>) c1 of
          (lu_span_id, tw2, c2) \<Rightarrow> do {
            (ok, w3, c3) \<leftarrow> ensure_buffer env lo_self sizeof_trc_begin_dat (tc_base tw2) c2;
            if \<not> ok then Some (P8_INVALID_SPAN, tw2\<lparr>tc_base := drop_trace w3\<rparr>, c3)
            else do {
              (done, w4, c4) \<leftarrow> write_span iu_type iu_parent_id lu_hash lu_span_id lu_ticks ip_attrs w3 c3;
              Some (if done then lu_span_id else P8_INVALID_SPAN, tw2\<lparr>tc_base := w4\<rparr>, c4)
            }
          })
      }))"

definition write_end ::
    "interference \<Rightarrow> nat \<Rightarrow> u64 \<Rightarrow> u64 \<Rightarrow> tls_writer \<Rightarrow> core \<Rightarrow> (tls_writer \<times> core) option" where
  "write_end env lo_self lu_ticks iu_span_id w c = do {
     (ok, w1, c1) \<leftarrow> ensure_buffer env lo_self sizeof_trc_end_dat w c;
     if \<not> ok then Some (drop_trace w1, c1)
     else Some (end_record (put_bytes (enc_ted \<lparr>ted_timestamp = lu_ticks, ted_span_id = iu_span_id,
       ted_size = word_of_nat sizeof_trc_end_dat, ted_type = P8_TRC_ITEM_END, ted_padding = 0,
       ted_thread_id = mu_thread_id w1\<rparr>) (pen_at w1 c1)))
   }"

section \<open>Operations\<close>

definition trc_begin ::
    "(byte list \<Rightarrow> u64) \<Rightarrow> (cstr \<Rightarrow> u32 \<Rightarrow> u64) \<Rightarrow> interference \<Rightarrow> nat \<Rightarrow> u64 \<Rightarrow> cstr option \<Rightarrow> u32
      \<Rightarrow> cstr option \<Rightarrow> cstr option \<Rightarrow> s_p8_attr_val list option \<Rightarrow> trc_writer \<Rightarrow> core
      \<Rightarrow> (u64 \<times> trc_writer \<times> core) option" where
  "trc_begin xxh xxh_seed env lo_self lu_ticks ip_name iu_line ip_file ip_function ip_attrs tw c = do {
     let lu_parent_id = (if mo_open_spans tw = [] then P8_NO_PARENT_SPAN else last (mo_open_spans tw));
     (lu_span_id, tw1, c1) \<leftarrow> write_begin xxh xxh_seed env lo_self lu_ticks P8_TRC_ITEM_BEGIN lu_parent_id ip_name
       iu_line ip_file ip_function ip_attrs tw c;
     Some (lu_span_id, if lu_span_id \<noteq> P8_INVALID_SPAN
       then tw1\<lparr>mo_open_spans := mo_open_spans tw1 @ [lu_span_id]\<rparr> else tw1, c1)
   }"

definition trc_begin_async ::
    "(byte list \<Rightarrow> u64) \<Rightarrow> (cstr \<Rightarrow> u32 \<Rightarrow> u64) \<Rightarrow> interference \<Rightarrow> nat \<Rightarrow> u64 \<Rightarrow> u64 \<Rightarrow> cstr option \<Rightarrow> u32
      \<Rightarrow> cstr option \<Rightarrow> cstr option \<Rightarrow> s_p8_attr_val list option \<Rightarrow> trc_writer \<Rightarrow> core
      \<Rightarrow> (u64 \<times> trc_writer \<times> core) option" where
  "trc_begin_async xxh xxh_seed env lo_self lu_ticks iu_parent_id ip_name iu_line ip_file ip_function ip_attrs tw c =
     write_begin xxh xxh_seed env lo_self lu_ticks P8_TRC_ITEM_BEGIN_ASYNC iu_parent_id ip_name iu_line ip_file
       ip_function ip_attrs tw c"

definition trc_end ::
    "interference \<Rightarrow> nat \<Rightarrow> u64 \<Rightarrow> u64 \<Rightarrow> trc_writer \<Rightarrow> core \<Rightarrow> (trc_writer \<times> core) option" where
  "trc_end env lo_self lu_ticks iu_span_id tw c =
     (if iu_span_id = P8_INVALID_SPAN \<or> \<not> mp_core (tc_base tw) then Some (tw, c)
      else (let tw1 = (if \<not> P8_IS_ASYNC_SPAN iu_span_id
                       then tw\<lparr>mo_open_spans := pop_span iu_span_id (mo_open_spans tw)\<rparr> else tw)
        in do {
          (w2, c2) \<leftarrow> write_end env lo_self lu_ticks iu_span_id (tc_base tw1) c;
          Some (tw1\<lparr>tc_base := w2\<rparr>, c2)
        }))"

section \<open>The stack against a reference\<close>

text \<open>Closing a span closes everything opened inside it; a span that is not open closes nothing.\<close>

definition close_span :: "u64 \<Rightarrow> u64 list \<Rightarrow> u64 list" where
  "close_span i xs = (if i \<in> set xs then rev (tl (dropWhile (\<lambda>x. x \<noteq> i) (rev xs))) else xs)"

lemma close_span_split: "i \<notin> set zs \<Longrightarrow> close_span i (ys @ i # zs) = ys"
proof -
  assume "i \<notin> set zs"
  then have "dropWhile (\<lambda>x. x \<noteq> i) (rev zs @ i # rev ys) = i # rev ys"
    by (subst dropWhile_append2) auto
  then show ?thesis by (simp add: close_span_def)
qed

lemma pull_last_n_take: "pull_last_n n xs = take (length xs - n) xs"
proof (induction n arbitrary: xs)
  case (Suc n)
  then show ?case by (simp add: butlast_conv_take min_def)
qed simp

lemma pop_search_spec:
  "(\<forall>k < d. k < length xs \<longrightarrow> xs ! (length xs - Suc k) \<noteq> i) \<Longrightarrow> pop_search i d xs = close_span i xs"
proof (induction i d xs rule: pop_search.induct)
  case (1 i d xs)
  show ?case
  proof (cases "d < length xs")
    case False
    have "i \<notin> set xs"
    proof
      assume "i \<in> set xs"
      then obtain j where j: "j < length xs" "xs ! j = i" by (auto simp: in_set_conv_nth)
      then have "length xs - Suc j < d" "length xs - Suc j < length xs" using False by simp_all
      moreover have "length xs - Suc (length xs - Suc j) = j" using j by simp
      ultimately show False using "1.prems" j(2) by metis
    qed
    with False show ?thesis by (subst pop_search.simps) (simp add: close_span_def)
  next
    case True
    let ?j = "length xs - Suc d"
    show ?thesis
    proof (cases "xs ! ?j = i")
      case False
      then have "\<forall>k < Suc d. k < length xs \<longrightarrow> xs ! (length xs - Suc k) \<noteq> i"
        using "1.prems" less_Suc_eq by metis
      from "1.IH" [OF True False this] True False show ?thesis by (subst pop_search.simps) simp
    next
      case hit: True
      have j: "?j < length xs" using True by simp
      have "i \<notin> set (drop (Suc ?j) xs)"
      proof
        assume "i \<in> set (drop (Suc ?j) xs)"
        then obtain q where q: "q < length xs - Suc ?j" "xs ! (Suc ?j + q) = i"
          by (auto simp: in_set_conv_nth)
        define m where "m = Suc ?j + q"
        have m: "m < length xs" "Suc ?j \<le> m" "xs ! m = i" using q by (simp_all add: m_def)
        then have "length xs - Suc m < d" "length xs - Suc m < length xs" using True by simp_all
        moreover have "length xs - Suc (length xs - Suc m) = m" using m by simp
        ultimately show False using "1.prems" m(3) by metis
      qed
      moreover have "xs = take ?j xs @ i # drop (Suc ?j) xs" using id_take_nth_drop [OF j] hit by simp
      ultimately have "close_span i xs = take ?j xs" using close_span_split by metis
      then show ?thesis using True hit by (subst pop_search.simps) (simp add: pull_last_n_take)
    qed
  qed
qed

lemma pop_span_close: "pop_span i xs = close_span i xs"
proof (cases xs rule: rev_cases)
  case Nil
  then show ?thesis by (simp add: pop_span_def close_span_def)
next
  case (snoc ys y)
  show ?thesis
  proof (cases "y = i")
    case True
    then show ?thesis using close_span_split [of i "[]" ys] by (simp add: pop_span_def snoc)
  next
    case False
    then have "\<forall>k < 1. k < length xs \<longrightarrow> xs ! (length xs - Suc k) \<noteq> i" by (simp add: snoc)
    from pop_search_spec [OF this] False show ?thesis by (simp add: pop_span_def snoc)
  qed
qed


section \<open>Span IDs are unique in the process\<close>

text \<open>The IDs that calls of any writers, in any order, are given.\<close>

fun issue_ids :: "(nat \<times> byte) list \<Rightarrow> (nat \<Rightarrow> trc_writer) \<Rightarrow> core \<Rightarrow> u64 list" where
  "issue_ids [] tws c = []"
| "issue_ids ((i, iu_type) # ops) tws c = (case next_span_id iu_type (tws i) c of
     (lu_span_id, tw, c') \<Rightarrow> lu_span_id # issue_ids ops (tws(i := tw)) c')"

text \<open>An ID without the bit that marks asynchronous spans.\<close>

definition raw_id :: "u64 \<Rightarrow> nat" where
  "raw_id x = unat (take_bit 63 x)"

lemma raw_id_small:
  assumes "unat x < 2 ^ 63"
  shows "raw_id x = unat x" and "raw_id (x OR P8_ASYNC_SPAN_BIT) = unat x"
proof -
  have t: "take_bit 63 x = x"
  proof (rule word_unat_eq_iff [THEN iffD2])
    show "unat (take_bit 63 x) = unat x" using assms by (simp add: unsigned_take_bit_eq take_bit_nat_eq_self)
  qed
  then show "raw_id x = unat x" by (simp add: raw_id_def)
  have "take_bit 63 (P8_ASYNC_SPAN_BIT) = (0 :: u64)" by (simp add: take_bit_eq_mod)
  then have "take_bit 63 (x OR P8_ASYNC_SPAN_BIT) = x" using t by (simp add: take_bit_or)
  then show "raw_id (x OR P8_ASYNC_SPAN_BIT) = unat x" by (simp add: raw_id_def)
qed

text \<open>The IDs a writer still has.\<close>

definition id_block :: "trc_writer \<Rightarrow> nat set" where
  "id_block tw = {unat (mu_next_span_id tw)..<unat (mu_end_span_id tw)}"

definition ids_inv :: "(nat \<Rightarrow> trc_writer) \<Rightarrow> core \<Rightarrow> nat set \<Rightarrow> bool" where
  "ids_inv tws c used \<longleftrightarrow> 1 \<le> unat (mu_span_id_seq c)
     \<and> (\<forall>i. mu_next_span_id (tws i) \<le> mu_end_span_id (tws i))
     \<and> (\<forall>i. \<forall>x \<in> id_block (tws i). 1 \<le> x \<and> x < unat (mu_span_id_seq c) \<and> x \<notin> used)
     \<and> (\<forall>i j. i \<noteq> j \<longrightarrow> id_block (tws i) \<inter> id_block (tws j) = {})
     \<and> (\<forall>x \<in> used. x < unat (mu_span_id_seq c))"

lemma next_span_id_step:
  assumes inv: "ids_inv tws c used" and room: "unat (mu_span_id_seq c) + 65536 < 2 ^ 63"
    and n: "next_span_id ty (tws i) c = (x, tw, c')"
  shows "ids_inv (tws(i := tw)) c' (insert (raw_id x) used)" and "raw_id x \<notin> used" and "1 \<le> raw_id x"
    and "unat (mu_span_id_seq c') \<le> unat (mu_span_id_seq c) + 65536"
proof -
  let ?N = "unat (mu_span_id_seq c)"
  have N: "1 \<le> ?N" and bl: "\<And>j y. y \<in> id_block (tws j) \<Longrightarrow> 1 \<le> y \<and> y < ?N \<and> y \<notin> used"
    and dj: "\<And>j k. j \<noteq> k \<Longrightarrow> id_block (tws j) \<inter> id_block (tws k) = {}"
    and us: "\<And>y. y \<in> used \<Longrightarrow> y < ?N" and le: "\<And>j. mu_next_span_id (tws j) \<le> mu_end_span_id (tws j)"
    using inv by (auto simp: ids_inv_def)
  define a where "a = (if mu_next_span_id (tws i) = mu_end_span_id (tws i) then mu_span_id_seq c else mu_next_span_id (tws i))"
  define e where "e = (if mu_next_span_id (tws i) = mu_end_span_id (tws i) then mu_span_id_seq c + 65536 else mu_end_span_id (tws i))"
  have sq: "unat (mu_span_id_seq c + 65536) = ?N + 65536"
    using room by (simp add: unat_word_ariths)
  have x: "x = (if ty = P8_TRC_ITEM_BEGIN_ASYNC then a OR P8_ASYNC_SPAN_BIT else a)"
    and tw: "mu_next_span_id tw = a + 1" "mu_end_span_id tw = e"
    and c': "mu_span_id_seq c' = (if mu_next_span_id (tws i) = mu_end_span_id (tws i) then mu_span_id_seq c + 65536
      else mu_span_id_seq c)"
    using n by (auto simp: next_span_id_def reserve_span_ids_def a_def e_def split: if_splits)
  have ae: "a < e" and aN: "1 \<le> unat a" "unat a < 2 ^ 63" "unat a \<notin> used"
    and blk: "{unat a..<unat e} = (if mu_next_span_id (tws i) = mu_end_span_id (tws i) then {?N..<?N + 65536} else id_block (tws i))"
  proof -
    show *: "{unat a..<unat e} = (if mu_next_span_id (tws i) = mu_end_span_id (tws i) then {?N..<?N + 65536} else id_block (tws i))"
      using sq by (simp add: a_def e_def id_block_def)
    show "a < e"
    proof (cases "mu_next_span_id (tws i) = mu_end_span_id (tws i)")
      case True
      with sq show ?thesis by (simp add: a_def e_def word_less_nat_alt)
    next
      case False
      with le [of i] show ?thesis by (simp add: a_def e_def order_less_le)
    qed
    then have m: "unat a \<in> {unat a..<unat e}" by (simp add: word_less_nat_alt)
    have "1 \<le> unat a \<and> unat a \<notin> used \<and> unat a < 2 ^ 63"
    proof (cases "mu_next_span_id (tws i) = mu_end_span_id (tws i)")
      case True
      with us [of ?N] N room show ?thesis by (auto simp: a_def)
    next
      case False
      with m * have "unat a \<in> id_block (tws i)" by simp
      from bl [OF this] room show ?thesis by simp
    qed
    then show "1 \<le> unat a" "unat a \<notin> used" "unat a < 2 ^ 63" by auto
  qed
  have rx: "raw_id x = unat a" using raw_id_small [OF aN(2)] by (simp add: x)
  have a1: "unat (a + 1) = unat a + 1" using aN(2) by (simp add: unat_word_ariths)
  have nb: "id_block tw = {unat a..<unat e} - {unat a}" unfolding id_block_def tw a1 by auto
  show "raw_id x \<notin> used" "1 \<le> raw_id x" using aN rx by simp_all
  show "unat (mu_span_id_seq c') \<le> ?N + 65536" using sq by (simp add: c')
  have mono: "?N \<le> unat (mu_span_id_seq c')" using sq by (simp add: c')
  show "ids_inv (tws(i := tw)) c' (insert (raw_id x) used)"
    unfolding ids_inv_def
  proof (intro conjI allI ballI impI)
    show "1 \<le> unat (mu_span_id_seq c')" using mono N by simp
    fix j
    show "mu_next_span_id ((tws(i := tw)) j) \<le> mu_end_span_id ((tws(i := tw)) j)"
      using le [of j] ae a1 by (simp add: tw word_le_nat_alt word_less_nat_alt)
    fix k
    assume jk: "j \<noteq> k"
    have other: "id_block tw \<inter> id_block (tws l) = {}" if "l \<noteq> i" for l
      using nb blk dj [OF that] bl [of _ l] by (fastforce split: if_splits)
    show "id_block ((tws(i := tw)) j) \<inter> id_block ((tws(i := tw)) k) = {}"
      using dj [OF jk] other [of j] other [of k] jk by auto
  next
    fix j y
    assume y: "y \<in> id_block ((tws(i := tw)) j)"
    have "1 \<le> y \<and> y < unat (mu_span_id_seq c') \<and> y \<notin> insert (raw_id x) used"
    proof (cases "j = i")
      case True
      with y nb have yi: "y \<in> {unat a..<unat e}" "y \<noteq> unat a" by auto
      show ?thesis
        using yi blk bl [of y i] N us [of y] rx sq by (auto simp: c' split: if_splits)
    next
      case False
      with y have yj: "y \<in> id_block (tws j)" by simp
      have "unat a \<noteq> y"
      proof
        assume "unat a = y"
        moreover have "unat a \<in> {unat a..<unat e}" using ae by (simp add: word_less_nat_alt)
        moreover have "unat a = ?N" if "mu_next_span_id (tws i) = mu_end_span_id (tws i)"
          using that by (simp add: a_def)
        ultimately show False using blk dj [OF False] yj bl [OF yj] by (auto split: if_splits)
      qed
      then show ?thesis using bl [OF yj] mono rx by auto
    qed
    then show "1 \<le> y" "y < unat (mu_span_id_seq c')" "y \<notin> insert (raw_id x) used" by auto
  next
    fix y
    assume "y \<in> insert (raw_id x) used"
    moreover have "unat a < unat (mu_span_id_seq c')"
    proof -
      have "unat a \<in> {unat a..<unat e}" using ae by (simp add: word_less_nat_alt)
      moreover have "unat a = ?N" if "mu_next_span_id (tws i) = mu_end_span_id (tws i)"
        using that by (simp add: a_def)
      ultimately show ?thesis using blk bl [of "unat a" i] sq by (auto simp: c' split: if_splits)
    qed
    ultimately show "y < unat (mu_span_id_seq c')" using us [of y] mono rx by auto
  qed
qed

lemma issue_ids_fresh:
  "ids_inv tws c used \<Longrightarrow> unat (mu_span_id_seq c) + 65536 * length ops < 2 ^ 63 \<Longrightarrow>
   distinct (map raw_id (issue_ids ops tws c)) \<and> raw_id ` set (issue_ids ops tws c) \<inter> used = {}
   \<and> (\<forall>x \<in> set (issue_ids ops tws c). 1 \<le> raw_id x)"
proof (induction ops arbitrary: tws c used)
  case (Cons op ops)
  obtain i ty where op: "op = (i, ty)" by fastforce
  obtain x tw c' where n: "next_span_id ty (tws i) c = (x, tw, c')" using prod_cases3 by blast
  have room: "unat (mu_span_id_seq c) + 65536 < 2 ^ 63" using Cons.prems(2) by simp
  note st = next_span_id_step [OF Cons.prems(1) room n]
  have "unat (mu_span_id_seq c') + 65536 * length ops < 2 ^ 63" using st(4) Cons.prems(2) by simp
  from Cons.IH [OF st(1) this] st(2,3) show ?case by (auto simp: op n simp del: fun_upd_apply)
qed simp


section \<open>What a span writes\<close>

lemma drop_trace_simps [simp]:
  "bufs (drop_trace w) = bufs w" "stream_of (drop_trace w) m = stream_of w m"
  "writer_who (drop_trace w) = writer_who w" "own_inv ty self h (drop_trace w) c = own_inv ty self h w c"
  "leaves w c (drop_trace w') c' = leaves w c w' c'"
  by (simp_all add: drop_trace_def bufs_def stream_of_def writer_who_def own_inv_def own_bufs_def wr_inv_def
      hdr_ids_def cache_ok_def leaves_def foreign_def)

text \<open>A record of a span's start: header, attributes, padding.\<close>

definition is_span_record :: "s_p8_trc_begin_dat \<Rightarrow> byte list \<Rightarrow> byte list \<Rightarrow> bool" where
  "is_span_record h body bs \<longleftrightarrow> length bs = align_up_8 (sizeof_trc_begin_dat + length body)
     \<and> (\<exists>ps. bs = enc_tbd h @ body @ ps)"

definition span_hdr ::
    "byte \<Rightarrow> u64 \<Rightarrow> u64 \<Rightarrow> u64 \<Rightarrow> u64 \<Rightarrow> u32 \<Rightarrow> byte list list \<Rightarrow> s_p8_trc_begin_dat" where
  "span_hdr ty parent hash span_id ticks thread atts =
     \<lparr>tbd_timestamp = ticks, tbd_span_id = span_id,
      tbd_size = word_of_nat (align_up_8 (sizeof_trc_begin_dat + length (concat atts))), tbd_type = ty,
      tbd_attrs_count = word_of_nat (length atts), tbd_thread_id = thread, tbd_hash = hash,
      tbd_parent_id = parent\<rparr>"

lemma write_span_own:
  assumes own: "own_inv P8_PACKET_TRACES self {} w c" and b: "mp_buffer w = Some b"
    and room: "40 \<le> mz_buf_max w - mz_buf_used w"
  shows "\<exists>ok w' c'. write_span ty parent hash sid ticks ip_attrs w c = Some (ok, w', c')
    \<and> rec_step xxh P8_PACKET_TRACES self w c w' c'
    \<and> (if ok then \<exists>bs. stream_of w' (co_mem c') = stream_of w (co_mem c) @ bs
          \<and> (let atts = attrs_of c sizeof_trc_begin_dat ip_attrs in
             is_span_record (span_hdr ty parent hash sid ticks (mu_thread_id w) atts) (concat atts) bs)
       else stream_of w' (co_mem c') = stream_of w (co_mem c))"
proof -
  let ?d = "mz_buf_used w"
  define h0 where "h0 = \<lparr>tbd_timestamp = ticks, tbd_span_id = sid, tbd_size = word_of_nat sizeof_trc_begin_dat,
    tbd_type = ty, tbd_attrs_count = 0, tbd_thread_id = mu_thread_id w, tbd_hash = hash, tbd_parent_id = parent\<rparr>"
  define p0 where "p0 = advance 40 (set_tbd b ?d (\<lambda>_. h0) (pen_at w c))"
  obtain t where o0: "rec_open w c b ?d (enc_tbd h0 @ t) [] p0" and t: "length t = 0"
    and s: "rec_start w c b ?d" and rm: "?d + 40 \<le> mz_buf_max w"
    using tbd.begin_record [OF own b _ room, of "\<lambda>_. h0", folded set_tbd_def] unfolding p0_def [symmetric] by auto
  have o0: "rec_open w c b ?d (enc_tbd h0) [] p0" using o0 t by simp
  have "cache_ok w c" using own by (simp add: own_inv_def own_bufs_def wr_inv_def)
  then have ca0: "cache_ok (pn_w p0) (pn_c p0)" by (simp add: p0_def set_tbd_def pen_at_def cache_ok_def)
  define atts where "atts = attrs_of c 40 ip_attrs"
  from serialize_some_attrs_spec [OF s o0 ca0, of 40 ip_attrs] obtain r p1 where
    sl: "serialize_some_attrs 40 ip_attrs p0 = Some (r, p1)"
    and r1: "rec_result w c b ?d (enc_tbd h0 @ concat atts) (mb_done r, p1)"
    and ca1: "cache_ok (pn_w p1) (pn_c p1)"
    and n1: "mb_done r \<longrightarrow> mz_bytes r = length (concat atts) \<and> mu_count r = length atts"
    by (auto simp: atts_def)
  let ?z = "40 + mz_bytes r"
  define up where "up = (\<lambda>h::s_p8_trc_begin_dat. h\<lparr>tbd_attrs_count := word_of_nat (mu_count r),
    tbd_size := word_of_nat (?z + lz_pad ?z)\<rparr>)"
  have wl: "write_span ty parent hash sid ticks ip_attrs w c =
      (if \<not> mb_done r then (case discard_record (length (mo_fragments w)) ?d (pn_w p1) (pn_c p1) of
         (w', c') \<Rightarrow> Some (False, drop_trace w', c'))
       else Some (True, end_record (advance (lz_pad ?z) (set_tbd b ?d up p1))))"
  proof -
    have "write_span ty parent hash sid ticks ip_attrs w c = do {
          (lo_attrs, p1) \<leftarrow> serialize_some_attrs 40 ip_attrs p0;
          if \<not> mb_done lo_attrs then
            (case discard_record (length (mo_fragments w)) ?d (pn_w p1) (pn_c p1) of
              (w', c') \<Rightarrow> Some (False, drop_trace w', c'))
          else (let lz_size = 40 + mz_bytes lo_attrs in
            Some (True, end_record (advance (lz_pad lz_size) (set_tbd b ?d
              (\<lambda>h. h\<lparr>tbd_attrs_count := word_of_nat (mu_count lo_attrs),
                 tbd_size := word_of_nat (lz_size + lz_pad lz_size)\<rparr>) p1))))
        }"
      by (simp only: write_span_def b option.case Let_def p0_def h0_def)
    then show ?thesis by (simp only: sl bind.simps prod.case Let_def up_def)
  qed
  show ?thesis
  proof (cases "mb_done r")
    case False
    obtain w1 c1 where e: "discard_record (length (mo_fragments w)) ?d (pn_w p1) (pn_c p1) = (w1, c1)" by fastforce
    have "rec_result w c b ?d (enc_tbd h0 @ concat atts) (False, p1)" using r1 False by simp
    from discard_step [OF own b this ca1 e, of xxh] show ?thesis
      unfolding wl using False e by (intro exI [of _ False]) (simp add: rec_step_def)
  next
    case True
    then obtain xs where o1: "rec_open w c b ?d (enc_tbd h0 @ concat atts) xs p1" using r1 rec_result_ok by blast
    obtain w1 c1 where e: "end_record (advance (lz_pad ?z) (set_tbd b ?d up p1)) = (w1, c1)" by fastforce
    have z: "?z = 40 + length (concat atts)" using n1 True by simp
    from tbd.end_step [OF own b rm o1 ca1 z e [unfolded set_tbd_def]] obtain ps where
      st: "rec_step xxh P8_PACKET_TRACES self w c w1 c1"
      and sm: "stream_of w1 (co_mem c1) = stream_of w (co_mem c) @ enc_tbd (up h0) @ concat atts @ ps"
      and ln: "length (enc_tbd (up h0) @ concat atts @ ps) = align_up_8 ?z" by blast
    have up: "up h0 = span_hdr ty parent hash sid ticks (mu_thread_id w) atts"
      using n1 True lz_pad(3) [of ?z] by (simp add: up_def h0_def span_hdr_def)
    have "is_span_record (up h0) (concat atts) (enc_tbd (up h0) @ concat atts @ ps)"
      using ln n1 True by (auto simp: is_span_record_def)
    with st sm show ?thesis unfolding wl up atts_def [symmetric] Let_def using True e
      by (intro exI [of _ True] exI [of _ w1] exI [of _ c1]) auto
  qed
qed


lemma ensure_buffer_own:
  assumes ot: "other_threads xxh P8_PACKET_TRACES self env" and own: "own_inv P8_PACKET_TRACES self {} w c"
    and n: "n \<le> 8176" and e: "ensure_buffer env self n w c = Some (ok, w', c')"
  shows "own_inv P8_PACKET_TRACES self {} w' c' \<and> grows xxh c c' \<and> writer_who w' = writer_who w
    \<and> stream_of w' (co_mem c') \<in> {stream_of w (co_mem c), []}
    \<and> (ok \<longrightarrow> (\<exists>b. mp_buffer w' = Some b) \<and> n \<le> mz_buf_max w' - mz_buf_used w')"
proof -
  let ?w = "if lacks_room n w then (park w)\<lparr>mz_buf_used := 0\<rparr> else w"
  have o1: "own_inv P8_PACKET_TRACES self {} ?w c" using own park_own(2) by simp
  have st: "stream_of ?w m = stream_of w m" "writer_who ?w = writer_who w" for m
    by (simp_all add: writer_who_simps(3,4))
  have t: "take_buffer env self P8_PACKET_TRACES ?w c = Some (ok, w', c')"
    using e by (simp add: ensure_buffer_def)
  note k = other_threads.take_buffer_own [OF ot o1 t]
  have "mp_buffer ?w = None \<or> \<not> lacks_room n ?w" by auto
  with k took_room_if [OF _ this n] have "ok \<longrightarrow> (\<exists>b. mp_buffer w' = Some b) \<and> n \<le> mz_buf_max w' - mz_buf_used w'"
    by (cases ok) auto
  with k st show ?thesis by (auto simp: took_def)
qed

definition trc_inv :: "(byte list \<Rightarrow> u64) \<Rightarrow> nat \<Rightarrow> trc_writer \<Rightarrow> core \<Rightarrow> bool" where
  "trc_inv xxh self tw c \<longleftrightarrow> own_inv P8_PACKET_TRACES self {} (tc_base tw) c \<and> catalog xxh c
     \<and> mo_descs tw \<subseteq> mo_trc_descs c"

text \<open>Reserving IDs leaves everything else.\<close>

lemma next_span_id_frame:
  assumes "next_span_id ty tw c = (x, tw', c')"
  shows "tc_base tw' = tc_base tw" and "mo_descs tw' = mo_descs tw" and "mo_open_spans tw' = mo_open_spans tw"
    and "\<exists>n. c' = c\<lparr>mu_span_id_seq := n\<rparr>"
proof -
  have "c = c\<lparr>mu_span_id_seq := mu_span_id_seq c\<rparr>" by simp
  then have "\<exists>n. c = c\<lparr>mu_span_id_seq := n\<rparr>" ..
  with assms show "tc_base tw' = tc_base tw" "mo_descs tw' = mo_descs tw" "mo_open_spans tw' = mo_open_spans tw"
    "\<exists>n. c' = c\<lparr>mu_span_id_seq := n\<rparr>"
    by (auto simp: next_span_id_def reserve_span_ids_def split: if_splits)
qed

lemma own_seq [simp]:
  "own_inv ty self h w (c\<lparr>mu_span_id_seq := n\<rparr>) = own_inv ty self h w c"
  "grows xxh c (c\<lparr>mu_span_id_seq := n\<rparr>)"
proof -
  have "svc_total (c\<lparr>mu_span_id_seq := n\<rparr>) = svc_total c" by (simp add: svc_total_def)
  moreover have "names_of kind (c\<lparr>mu_span_id_seq := n\<rparr>) = names_of kind c" for kind by (cases kind) auto
  ultimately show "grows xxh c (c\<lparr>mu_span_id_seq := n\<rparr>)" by (simp add: grows_def catalog_def)
qed (simp add: own_inv_def own_bufs_def wr_inv_def core_ok_def cache_ok_def svc_inv_def svc_addrs_def may_wait_def)

text \<open>The descriptor of the call site, known to the core before the record is written.\<close>

lemma known_desc:
  assumes ot: "other_threads xxh P8_PACKET_TRACES self env" and inv: "trc_inv xxh self tw c"
    and k: "(if h \<in> mo_descs tw then Some (True, tc_base tw, c)
      else resolve_trc_desc xxh env self h fl line func name (tc_base tw) c) = Some (known, w1, c1)"
  shows "own_inv P8_PACKET_TRACES self {} w1 c1 \<and> grows xxh c c1 \<and> catalog xxh c1
    \<and> writer_who w1 = writer_who (tc_base tw) \<and> stream_of w1 (co_mem c1) \<in> {stream_of (tc_base tw) (co_mem c), []}
    \<and> (known \<longrightarrow> h \<in> mo_trc_descs c1) \<and> mo_descs tw \<subseteq> mo_trc_descs c1"
proof (cases "h \<in> mo_descs tw")
  case True
  with k inv show ?thesis by (auto simp: trc_inv_def)
next
  case False
  have i: "own_inv P8_PACKET_TRACES self {} (tc_base tw) c" "catalog xxh c" "mo_descs tw \<subseteq> mo_trc_descs c"
    using inv by (simp_all add: trc_inv_def)
  from k False have r: "resolve_trc_desc xxh env self h fl line func name (tc_base tw) c = Some (known, w1, c1)" by simp
  from other_threads.resolve_trc_desc_own [OF ot i(1) r]
  have o: "own_inv P8_PACKET_TRACES self {} w1 c1" and e: "evolves xxh (tc_base tw) c w1 c1"
    and d: "known \<longrightarrow> h \<in> mo_trc_descs c1" by auto
  have "writer_who w1 = writer_who (tc_base tw)"
    by (rule writer_who_simps(1)) (use e in \<open>simp add: evolves_def\<close>)
  moreover have "mo_descs tw \<subseteq> mo_trc_descs c1" using i(3) e unfolding evolves_def by blast
  ultimately show ?thesis using o d evolves_grows [OF e] evolves_catalog [OF e i(2)] evolves_stream [OF e] by simp
qed

text \<open>What a live writer's \<open>begin\<close> does, its locals written out.\<close>

lemma write_begin_live:
  assumes "mp_core (tc_base tw)"
  shows "write_begin xxh xxh_seed env self ticks ty parent name line ip_file func ip_attrs tw c = do {
        (known, w1, c1) \<leftarrow> (if xxh_seed (chars ip_file) line \<in> mo_descs tw then Some (True, tc_base tw, c)
          else resolve_trc_desc xxh env self (xxh_seed (chars ip_file) line) (Some (chars ip_file)) line func name (tc_base tw) c);
        if \<not> known then Some (P8_INVALID_SPAN, tw\<lparr>tc_base := drop_trace w1\<rparr>, c1)
        else (case next_span_id ty (tw\<lparr>tc_base := w1, mo_descs := insert (xxh_seed (chars ip_file) line) (mo_descs tw)\<rparr>) c1 of
          (lu_span_id, tw2, c2) \<Rightarrow> do {
            (ok, w3, c3) \<leftarrow> ensure_buffer env self sizeof_trc_begin_dat (tc_base tw2) c2;
            if \<not> ok then Some (P8_INVALID_SPAN, tw2\<lparr>tc_base := drop_trace w3\<rparr>, c3)
            else do {
              (done, w4, c4) \<leftarrow> write_span ty parent (xxh_seed (chars ip_file) line) lu_span_id ticks ip_attrs w3 c3;
              Some (if done then lu_span_id else P8_INVALID_SPAN, tw2\<lparr>tc_base := w4\<rparr>, c4)
            }
          }) }"
  using assms by (simp only: write_begin_def not_True_eq_False if_False Let_def chars_def)

text \<open>What a successful start of a span has written, after the stream \<open>s\<close>.\<close>

definition span_started ::
    "(byte list \<Rightarrow> u64) \<Rightarrow> byte \<Rightarrow> u64 \<Rightarrow> u64 \<Rightarrow> u64 \<Rightarrow> u64 \<Rightarrow> s_p8_attr_val list option \<Rightarrow> byte list \<Rightarrow> tls_writer
      \<Rightarrow> core \<Rightarrow> bool" where
  "span_started xxh ty parent hash sid ticks ip_attrs s w c \<longleftrightarrow>
     span_described xxh (svc_total c) hash
     \<and> (\<exists>bs. stream_of w (co_mem c) = s @ bs
          \<and> (let atts = attrs_of c sizeof_trc_begin_dat ip_attrs in
             is_span_record (span_hdr ty parent hash sid ticks (mu_thread_id w) atts) (concat atts) bs))"

lemma write_begin_own:
  assumes ot: "other_threads xxh P8_PACKET_TRACES self env" and inv: "trc_inv xxh self tw c"
    and wb: "write_begin xxh xxh_seed env self ticks ty parent name line ip_file func ip_attrs tw c = Some (r, tw', c')"
  shows "trc_inv xxh self tw' c' \<and> mo_open_spans tw' = mo_open_spans tw
    \<and> writer_who (tc_base tw') = writer_who (tc_base tw)
    \<and> (\<exists>s \<in> {stream_of (tc_base tw) (co_mem c), []}.
        r = P8_INVALID_SPAN \<and> stream_of (tc_base tw') (co_mem c') = s
        \<or> span_started xxh ty parent (xxh_seed (chars ip_file) line) r ticks ip_attrs s (tc_base tw') c')"
proof (cases "mp_core (tc_base tw)")
  case False
  with wb inv show ?thesis by (auto simp: write_begin_def)
next
  case True
  define fl where "fl = chars ip_file"
  define h where "h = xxh_seed fl line"
  note wbd = write_begin_live [OF True, of xxh xxh_seed env self ticks ty parent name line ip_file func ip_attrs,
    folded fl_def, folded h_def]
  obtain known w1 c1 where k: "(if h \<in> mo_descs tw then Some (True, tc_base tw, c)
      else resolve_trc_desc xxh env self h (Some fl) line func name (tc_base tw) c) = Some (known, w1, c1)"
    using wb unfolding wbd by (auto split: bind_splits)
  note kd = known_desc [OF ot inv k]
  show ?thesis
  proof (cases known)
    case False
    with wb k have "r = 0" "tw' = tw\<lparr>tc_base := drop_trace w1\<rparr>" "c' = c1" unfolding wbd by auto
    with kd show ?thesis by (auto simp: trc_inv_def)
  next
    case kn: True
    obtain sid tw2 c2 where ns: "next_span_id ty (tw\<lparr>tc_base := w1, mo_descs := insert h (mo_descs tw)\<rparr>) c1 = (sid, tw2, c2)"
      using prod_cases3 by blast
    note nf = next_span_id_frame [OF ns]
    from nf(4) obtain n where c2: "c2 = c1\<lparr>mu_span_id_seq := n\<rparr>" ..
    have o2: "own_inv P8_PACKET_TRACES self {} w1 c2" using kd by (simp add: c2)
    have g2: "grows xxh c1 c2" by (simp add: c2)
    obtain ok w3 c3 where eb: "ensure_buffer env self 40 w1 c2 = Some (ok, w3, c3)"
      using wb k kn ns nf(1) unfolding wbd by (auto split: bind_splits)
    note en = ensure_buffer_own [OF ot o2 _ eb, simplified]
    have g3: "grows xxh c c3" using kd g2 en grows_trans by blast
    have g13: "grows xxh c1 c3" using g2 en grows_trans by blast
    have k3: "catalog xxh c3" using grows_catalog [OF g13] kd by blast
    have d3: "insert h (mo_descs tw) \<subseteq> mo_trc_descs c3"
      using kd kn g13 unfolding grows_def by blast
    have s3: "stream_of w3 (co_mem c3) \<in> {stream_of (tc_base tw) (co_mem c), []}"
      using en kd by (auto simp: c2)
    have wh3: "writer_who w3 = writer_who (tc_base tw)" using en kd by simp
    show ?thesis
    proof (cases ok)
      case False
      with wb k kn ns eb nf(1) have "r = 0" "tw' = tw2\<lparr>tc_base := drop_trace w3\<rparr>" "c' = c3" unfolding wbd by auto
      with en k3 d3 s3 wh3 nf show ?thesis by (auto simp: trc_inv_def)
    next
      case okt: True
      then obtain b where b: "mp_buffer w3 = Some b" and rm: "40 \<le> mz_buf_max w3 - mz_buf_used w3" using en by auto
      have o3: "own_inv P8_PACKET_TRACES self {} w3 c3" using en by simp
      from write_span_own [OF o3 b rm, of ty parent h sid ticks ip_attrs xxh] obtain dn w4 c4 where
        ws: "write_span ty parent h sid ticks ip_attrs w3 c3 = Some (dn, w4, c4)"
        and st: "rec_step xxh P8_PACKET_TRACES self w3 c3 w4 c4"
        and out: "if dn then \<exists>bs. stream_of w4 (co_mem c4) = stream_of w3 (co_mem c3) @ bs
          \<and> (let atts = attrs_of c3 sizeof_trc_begin_dat ip_attrs in
             is_span_record (span_hdr ty parent h sid ticks (mu_thread_id w3) atts) (concat atts) bs)
          else stream_of w4 (co_mem c4) = stream_of w3 (co_mem c3)" by blast
      have r: "r = (if dn then sid else 0)" "tw' = tw2\<lparr>tc_base := w4\<rparr>" "c' = c4"
        using wb k kn ns eb okt ws nf(1) unfolding wbd by auto
      have o4: "own_inv P8_PACKET_TRACES self {} w4 c4" and g4: "grows xxh c3 c4" and wh: "writer_who w4 = writer_who w3"
        and cs: "core_static c4 = core_static c3" using st by (simp_all add: rec_step_def)
      have k4: "catalog xxh c4" by (rule grows_catalog [OF g4 k3])
      have d4: "insert h (mo_descs tw) \<subseteq> mo_trc_descs c4" using d3 g4 unfolding grows_def by blast
      have "trc_inv xxh self tw' c'" using o4 k4 d4 by (simp add: r trc_inv_def nf)
      moreover have "mo_open_spans tw' = mo_open_spans tw" by (simp add: r nf)
      moreover have "writer_who (tc_base tw') = writer_who (tc_base tw)" using wh wh3 by (simp add: r)
      moreover have "r = P8_INVALID_SPAN \<and> stream_of w4 (co_mem c4) = stream_of w3 (co_mem c3)
        \<or> span_started xxh ty parent h r ticks ip_attrs (stream_of w3 (co_mem c3)) w4 c4"
      proof (cases dn)
        case True
        have "span_described xxh (svc_total c4) h" using k4 d4 unfolding catalog_def by blast
        moreover have "attrs_of c4 40 ip_attrs = attrs_of c3 40 ip_attrs"
          using core_static_fields(1) [OF cs] by (simp add: attrs_of_def)
        moreover have "mu_thread_id w4 = mu_thread_id w3" using wh by (simp add: writer_who_def)
        ultimately show ?thesis using out True by (simp add: span_started_def r)
      qed (use out r in simp)
      ultimately show ?thesis using s3 unfolding r(2,3) h_def fl_def by auto
    qed
  qed
qed


definition span_end :: "u64 \<Rightarrow> u64 \<Rightarrow> u32 \<Rightarrow> s_p8_trc_end_dat" where
  "span_end ticks sid thread = \<lparr>ted_timestamp = ticks, ted_span_id = sid, ted_size = word_of_nat sizeof_trc_end_dat,
     ted_type = P8_TRC_ITEM_END, ted_padding = 0, ted_thread_id = thread\<rparr>"

lemma put_end_own:
  assumes own: "own_inv P8_PACKET_TRACES self {} w c" and b: "mp_buffer w = Some b"
    and room: "24 \<le> mz_buf_max w - mz_buf_used w"
    and e: "end_record (put_bytes (enc_ted h) (pen_at w c)) = (w', c')"
  shows "own_inv P8_PACKET_TRACES self {} w' c'" and "grows xxh c c'" and "writer_who w' = writer_who w"
    and "stream_of w' (co_mem c') = stream_of w (co_mem c) @ enc_ted h" and "leaves w c w' c'"
proof -
  let ?p = "put_bytes (enc_ted h) (pen_at w c)"
  have inv: "wr_inv P8_PACKET_TRACES w c" using own by (simp add: own_inv_def own_bufs_def)
  note s = wr_inv_start [OF inv b]
  have st: "rec_open w c b (mz_buf_used w) [] [] (pen_at w c)" by (rule rec_open_start [OF s]) (simp_all add: pen_at_def)
  have "mz_buf_max w = 8192" "mz_buf_used w \<le> 8192" using inv b by (auto simp: wr_inv_def bufs_def)
  with room have "io_dst (pen_at w c) + length (enc_ted h) \<le> mz_buf_max w" by (auto simp: pen_at_def)
  from rec_open_put [OF s st this] have o: "rec_open w c b (mz_buf_used w) (enc_ted h) [] ?p" by simp
  have "cache_ok (pn_w ?p) (pn_c ?p)"
    using inv by (simp add: wr_inv_def cache_ok_def put_bytes_cache pen_at_def)
  note co = commit_own [OF own b o _ this e]
  from co(1,2,4,5,7) show "own_inv P8_PACKET_TRACES self {} w' c'" "grows xxh c c'" "writer_who w' = writer_who w"
    "stream_of w' (co_mem c') = stream_of w (co_mem c) @ enc_ted h" "leaves w c w' c'"
    by simp_all
qed

lemma write_end_own:
  assumes ot: "other_threads xxh P8_PACKET_TRACES self env" and own: "own_inv P8_PACKET_TRACES self {} w c"
    and e: "write_end env self ticks sid w c = Some (w', c')"
  shows "own_inv P8_PACKET_TRACES self {} w' c' \<and> grows xxh c c' \<and> writer_who w' = writer_who w
    \<and> (\<exists>s \<in> {stream_of w (co_mem c), []}. stream_of w' (co_mem c') = s
        \<or> stream_of w' (co_mem c') = s @ enc_ted \<lparr>ted_timestamp = ticks, ted_span_id = sid,
            ted_size = word_of_nat sizeof_trc_end_dat, ted_type = P8_TRC_ITEM_END, ted_padding = 0,
            ted_thread_id = mu_thread_id w\<rparr>)"
proof -
  obtain ok w1 c1 where eb: "ensure_buffer env self 24 w c = Some (ok, w1, c1)"
    using e by (auto simp: write_end_def split: bind_splits)
  note en = ensure_buffer_own [OF ot own _ eb, simplified]
  show ?thesis
  proof (cases ok)
    case False
    with e eb have "w' = drop_trace w1" "c' = c1" by (auto simp: write_end_def)
    with en show ?thesis by auto
  next
    case True
    obtain b where b: "mp_buffer w1 = Some b" and rm: "24 \<le> mz_buf_max w1 - mz_buf_used w1" using en True by auto
    have o1: "own_inv P8_PACKET_TRACES self {} w1 c1" using en by simp
    have er: "end_record (put_bytes (enc_ted (span_end ticks sid (mu_thread_id w1))) (pen_at w1 c1)) = (w', c')"
      using e eb True by (simp add: write_end_def span_end_def)
    note pe = put_end_own [OF o1 b rm er]
    have th: "mu_thread_id w1 = mu_thread_id w" using en by (simp add: writer_who_def)
    have "grows xxh c c'" by (rule grows_trans [OF _ pe(2)]) (use en in simp)
    moreover have "stream_of w1 (co_mem c1) \<in> {stream_of w (co_mem c), []}" using en by simp
    ultimately show ?thesis using pe(1,3,4) en unfolding span_end_def th by auto
  qed
qed

text \<open>Whoever waits is served: then spans begin and end.\<close>

lemma ensure_buffer_returns:
  assumes ot: "others_serve xxh P8_PACKET_TRACES self env" and own: "own_inv P8_PACKET_TRACES self {} w c"
  shows "\<exists>ok w' c'. ensure_buffer env self n w c = Some (ok, w', c')"
  unfolding ensure_buffer_def
  by (rule others_serve.take_buffer_returns [OF ot]) (use own park_own(2) in simp)

lemma write_begin_returns:
  assumes ot: "others_serve xxh P8_PACKET_TRACES self env" and inv: "trc_inv xxh self tw c"
  shows "write_begin xxh xxh_seed env self ticks ty parent name line ip_file func ip_attrs tw c \<noteq> None"
proof (cases "mp_core (tc_base tw)")
  case True
  define fl where "fl = chars ip_file"
  define h where "h = xxh_seed fl line"
  note wbd = write_begin_live [OF True, of xxh xxh_seed env self ticks ty parent name line ip_file func ip_attrs,
    folded fl_def, folded h_def]
  note ot' = others_serve.axioms(1) [OF ot]
  have i: "own_inv P8_PACKET_TRACES self {} (tc_base tw) c" "catalog xxh c"
    using inv by (simp_all add: trc_inv_def)
  obtain known w1 c1 where k: "(if h \<in> mo_descs tw then Some (True, tc_base tw, c)
      else resolve_trc_desc xxh env self h (Some fl) line func name (tc_base tw) c) = Some (known, w1, c1)"
    using others_serve.resolve_trc_desc_returns [OF ot i, of h "Some fl" line func name] by (cases "h \<in> mo_descs tw") auto
  have o1: "own_inv P8_PACKET_TRACES self {} w1 c1" using known_desc [OF ot' inv k] by simp
  obtain sid tw2 c2 where ns: "next_span_id ty (tw\<lparr>tc_base := w1, mo_descs := insert h (mo_descs tw)\<rparr>) c1 = (sid, tw2, c2)"
    using prod_cases3 by blast
  note nf = next_span_id_frame [OF ns]
  have o2: "own_inv P8_PACKET_TRACES self {} w1 c2" using o1 nf(4) by auto
  obtain ok w3 c3 where eb: "ensure_buffer env self 40 w1 c2 = Some (ok, w3, c3)"
    using ensure_buffer_returns [OF ot o2] by blast
  note en = ensure_buffer_own [OF ot' o2 _ eb, simplified]
  have "write_span ty parent h sid ticks ip_attrs w3 c3 \<noteq> None" if ok
    using en that write_span_own [of self w3 c3 _ ty parent h sid ticks ip_attrs] by fastforce
  with k ns nf(1) eb show ?thesis unfolding wbd
    by (cases known; cases ok) (auto simp: bind_eq_None_conv simp del: not_None_eq split: prod.split)
qed (simp add: write_begin_def)

lemma write_end_returns:
  assumes ot: "others_serve xxh P8_PACKET_TRACES self env" and own: "own_inv P8_PACKET_TRACES self {} w c"
  shows "write_end env self ticks sid w c \<noteq> None"
  using ensure_buffer_returns [OF ot own, of 24] by (auto simp: write_end_def)

section \<open>A span begins and ends\<close>

lemma trc_begin_own:
  assumes "other_threads xxh P8_PACKET_TRACES self env" and "trc_inv xxh self tw c"
    and "trc_begin xxh xxh_seed env self ticks name line ip_file func ip_attrs tw c = Some (r, tw', c')"
  shows "trc_inv xxh self tw' c' \<and> writer_who (tc_base tw') = writer_who (tc_base tw)
    \<and> mo_open_spans tw' = mo_open_spans tw @ (if r = P8_INVALID_SPAN then [] else [r])
    \<and> (\<exists>s \<in> {stream_of (tc_base tw) (co_mem c), []}.
        r = P8_INVALID_SPAN \<and> stream_of (tc_base tw') (co_mem c') = s
        \<or> span_started xxh P8_TRC_ITEM_BEGIN (if mo_open_spans tw = [] then P8_NO_PARENT_SPAN else last (mo_open_spans tw))
            (xxh_seed (chars ip_file) line) r ticks ip_attrs s (tc_base tw') c')"
proof -
  from assms(3) obtain tw1 where w: "write_begin xxh xxh_seed env self ticks P8_TRC_ITEM_BEGIN
      (if mo_open_spans tw = [] then P8_NO_PARENT_SPAN else last (mo_open_spans tw)) name line ip_file func ip_attrs tw c
      = Some (r, tw1, c')"
    and tw': "tw' = (if r \<noteq> P8_INVALID_SPAN then tw1\<lparr>mo_open_spans := mo_open_spans tw1 @ [r]\<rparr> else tw1)"
    by (auto simp: trc_begin_def Let_def split: bind_splits)
  from write_begin_own [OF assms(1,2) w] show ?thesis by (auto simp: tw' trc_inv_def)
qed

lemma trc_end_own:
  assumes "other_threads xxh P8_PACKET_TRACES self env" and "trc_inv xxh self tw c"
    and "sid \<noteq> P8_INVALID_SPAN" and "mp_core (tc_base tw)"
    and "trc_end env self ticks sid tw c = Some (tw', c')"
  shows "trc_inv xxh self tw' c' \<and> writer_who (tc_base tw') = writer_who (tc_base tw)
    \<and> mo_open_spans tw' = (if P8_IS_ASYNC_SPAN sid then mo_open_spans tw else close_span sid (mo_open_spans tw))
    \<and> (\<exists>s \<in> {stream_of (tc_base tw) (co_mem c), []}. stream_of (tc_base tw') (co_mem c') = s
        \<or> (let e = drop (length s) (stream_of (tc_base tw') (co_mem c')) in
           stream_of (tc_base tw') (co_mem c') = s @ e \<and> length e = sizeof_trc_end_dat
           \<and> ted_span_id (dec_ted e) = sid \<and> ted_timestamp (dec_ted e) = ticks \<and> ted_type (dec_ted e) = P8_TRC_ITEM_END))"
proof -
  have i: "own_inv P8_PACKET_TRACES self {} (tc_base tw) c" "catalog xxh c" "mo_descs tw \<subseteq> mo_trc_descs c"
    using assms(2) by (simp_all add: trc_inv_def)
  obtain w2 where we: "write_end env self ticks sid (tc_base tw) c = Some (w2, c')"
    and tw': "tw' = (if P8_IS_ASYNC_SPAN sid then tw
        else tw\<lparr>mo_open_spans := pop_span sid (mo_open_spans tw)\<rparr>)\<lparr>tc_base := w2\<rparr>"
    using assms(3-5) by (auto simp: trc_end_def Let_def split: bind_splits if_splits)
  note wo = write_end_own [OF assms(1) i(1) we]
  then have g: "grows xxh c c'" by simp
  have "trc_inv xxh self tw' c'"
    using wo grows_catalog [OF g i(2)] i(3) g by (auto simp: trc_inv_def tw' grows_def)
  moreover have "mo_open_spans tw' = (if P8_IS_ASYNC_SPAN sid then mo_open_spans tw else close_span sid (mo_open_spans tw))"
    by (simp add: tw' pop_span_close)
  moreover have "tc_base tw' = w2" by (simp add: tw')
  ultimately show ?thesis using wo by (auto simp: ted.dec_enc Let_def)
qed

section \<open>Properties\<close>

text \<open>
  C27 A span that begins is a child of the innermost open span. A call of \<open>begin\<close> keeps the
  writer's invariant, whatever others do meanwhile; it returns the invalid ID and writes nothing,
  or it appends exactly one record whose parent is the innermost open span of the thread (0 when
  none is open), with the call site's hash, whose span descriptor, after the strings it refers
  to, is among the service bytes by then; the new span is then the innermost open one.
\<close>

theorem trc_begin_nested:
  assumes "other_threads xxh P8_PACKET_TRACES self env" and "trc_inv xxh self tw c"
    and "trc_begin xxh xxh_seed env self ticks name line ip_file func ip_attrs tw c = Some (r, tw', c')"
  shows "trc_inv xxh self tw' c'
    \<and> mo_open_spans tw' = mo_open_spans tw @ (if r = P8_INVALID_SPAN then [] else [r])
    \<and> (\<exists>s \<in> {stream_of (tc_base tw) (co_mem c), []}.
        r = P8_INVALID_SPAN \<and> stream_of (tc_base tw') (co_mem c') = s
        \<or> span_started xxh P8_TRC_ITEM_BEGIN (if mo_open_spans tw = [] then P8_NO_PARENT_SPAN else last (mo_open_spans tw))
            (xxh_seed (chars ip_file) line) r ticks ip_attrs s (tc_base tw') c')"
  using trc_begin_own [OF assms] by blast

text \<open>
  A span that ends closes the spans opened inside it. \<open>end\<close> of a synchronous span removes
  it and everything above it from the stack of open spans, and leaves the stack as it is when
  the span is not on it (another thread's span); an asynchronous span is never looked for. One
  record of the end is appended unless the core shuts down.
\<close>

theorem trc_end_closes:
  assumes "other_threads xxh P8_PACKET_TRACES self env" and "trc_inv xxh self tw c"
    and "sid \<noteq> P8_INVALID_SPAN" and "mp_core (tc_base tw)"
    and "trc_end env self ticks sid tw c = Some (tw', c')"
  shows "trc_inv xxh self tw' c'
    \<and> mo_open_spans tw' = (if P8_IS_ASYNC_SPAN sid then mo_open_spans tw else close_span sid (mo_open_spans tw))
    \<and> (\<exists>s \<in> {stream_of (tc_base tw) (co_mem c), []}. stream_of (tc_base tw') (co_mem c') = s
        \<or> (let e = drop (length s) (stream_of (tc_base tw') (co_mem c')) in
           stream_of (tc_base tw') (co_mem c') = s @ e \<and> length e = sizeof_trc_end_dat
           \<and> ted_span_id (dec_ted e) = sid \<and> ted_timestamp (dec_ted e) = ticks \<and> ted_type (dec_ted e) = P8_TRC_ITEM_END))"
  using trc_end_own [OF assms] by blast

text \<open>
  C34 Span IDs are unique in the process: the IDs that any number of writers are given, in any
  interleaving of their calls and starting with empty blocks, are pairwise distinct, with and
  without the bit of asynchronous spans, and none is the invalid ID, as long as fewer than
  \<open>2 ^ 63\<close> IDs are reserved.
\<close>

theorem span_ids_unique:
  assumes "mu_span_id_seq c = 1" and "\<And>i. mu_next_span_id (tws i) = mu_end_span_id (tws i)"
    and "65536 * length ops + 1 < 2 ^ 63"
  shows "distinct (issue_ids ops tws c) \<and> distinct (map raw_id (issue_ids ops tws c))
    \<and> P8_INVALID_SPAN \<notin> set (issue_ids ops tws c)"
proof -
  have "ids_inv tws c {}" using assms(1,2) by (simp add: ids_inv_def id_block_def)
  from issue_ids_fresh [OF this, of ops] assms(1,3)
  have d: "distinct (map raw_id (issue_ids ops tws c))" and p: "\<forall>x \<in> set (issue_ids ops tws c). 1 \<le> raw_id x"
    by simp_all
  have "raw_id 0 = 0" by (simp add: raw_id_def)
  with p have "0 \<notin> set (issue_ids ops tws c)" by fastforce
  with d show ?thesis by (simp add: distinct_map)
qed

text \<open>
  C35 The search of the stack of open spans is a reference function: the loop over depths
  finds the innermost occurrence of the span, removes it with all spans above it, and leaves a
  stack without the span alone.
\<close>

theorem pop_span_equiv:
  "pop_span i xs = close_span i xs \<and> (\<forall>ys zs. xs = ys @ i # zs \<and> i \<notin> set zs \<longrightarrow> pop_span i xs = ys)"
  using pop_span_close close_span_split by simp


section \<open>Witnesses\<close>

text \<open>A new trace writer of a new core, with a span open.\<close>

definition ex_trc :: "u64 list \<Rightarrow> trc_writer" where
  "ex_trc spans = (trc_create (tls_writer_create True 7 1))\<lparr>mo_open_spans := spans\<rparr>"

lemma ex_trc_inv: "trc_inv (\<lambda>_. 0) 1 (ex_trc spans) (core_new ex_pool)"
  using ex_own by (simp add: trc_inv_def ex_trc_def trc_create_def core_new_def)

lemma ex_trc_base: "mp_core (tc_base (ex_trc spans))"
  by (simp add: ex_trc_def trc_create_def tls_writer_create_def)

lemma ex_begin_returns:
  "\<exists>r tw' c'. trc_begin (\<lambda>_. 0) (\<lambda>_ _. 0) stop_env 1 5 None 3 (Some [97]) None None (ex_trc spans) (core_new ex_pool)
     = Some (r, tw', c')"
proof -
  obtain r tw c where "write_begin (\<lambda>_. 0) (\<lambda>_ _. 0) stop_env 1 5 P8_TRC_ITEM_BEGIN
      (if mo_open_spans (ex_trc spans) = [] then P8_NO_PARENT_SPAN else last (mo_open_spans (ex_trc spans)))
      None 3 (Some [97]) None None (ex_trc spans) (core_new ex_pool) = Some (r, tw, c)"
    using write_begin_returns [OF stopping.others_serve_axioms ex_trc_inv] by (metis not_None_eq prod_cases3)
  then show ?thesis by (simp add: trc_begin_def Let_def)
qed

theorem trc_begin_nested_witness:
  "\<exists>r tw' c'. trc_begin (\<lambda>_. 0) (\<lambda>_ _. 0) stop_env 1 5 None 3 (Some [97]) None None (ex_trc [4, 9]) (core_new ex_pool)
     = Some (r, tw', c') \<and> mo_open_spans tw' = [4, 9] @ (if r = 0 then [] else [r])"
proof -
  obtain r tw' c' where b: "trc_begin (\<lambda>_. 0) (\<lambda>_ _. 0) stop_env 1 5 None 3 (Some [97]) None None (ex_trc [4, 9])
      (core_new ex_pool) = Some (r, tw', c')" using ex_begin_returns by blast
  from trc_begin_nested [OF stopping.other_threads_axioms ex_trc_inv b] b show ?thesis
    by (auto simp: ex_trc_def)
qed

theorem trc_end_closes_witness:
  "\<exists>tw' c'. trc_end stop_env 1 5 9 (ex_trc [4, 9, 12]) (core_new ex_pool) = Some (tw', c') \<and> mo_open_spans tw' = [4]"
proof -
  have "own_inv P8_PACKET_TRACES 1 {} (tc_base (ex_trc [4, 9, 12])) (core_new ex_pool)"
    using ex_trc_inv [of "[4, 9, 12]"] by (simp add: trc_inv_def)
  from write_end_returns [OF stopping.others_serve_axioms this, of 5 9] obtain w c where
    "write_end stop_env 1 5 9 (tc_base (ex_trc [4, 9, 12])) (core_new ex_pool) = Some (w, c)" by auto
  then obtain tw' c' where e: "trc_end stop_env 1 5 9 (ex_trc [4, 9, 12]) (core_new ex_pool) = Some (tw', c')"
    using ex_trc_base by (cases "P8_IS_ASYNC_SPAN 9") (simp_all add: trc_end_def)
  from trc_end_closes [OF stopping.other_threads_axioms ex_trc_inv _ ex_trc_base e]
  have "mo_open_spans tw' = (if P8_IS_ASYNC_SPAN 9 then [4, 9, 12] else close_span 9 [4, 9, 12])"
    by (simp add: ex_trc_def)
  also have "\<dots> = [4]" by code_simp
  finally show ?thesis using e by blast
qed

theorem span_ids_unique_witness:
  "distinct (issue_ids [(0, P8_TRC_ITEM_BEGIN), (1, P8_TRC_ITEM_BEGIN_ASYNC), (0, P8_TRC_ITEM_BEGIN)]
     (\<lambda>_. ex_trc []) (core_new ex_pool))"
  using span_ids_unique [of "core_new ex_pool" "\<lambda>_. ex_trc []"
    "[(0, P8_TRC_ITEM_BEGIN), (1, P8_TRC_ITEM_BEGIN_ASYNC), (0, P8_TRC_ITEM_BEGIN)]"]
  by (simp add: core_new_def ex_trc_def trc_create_def)

theorem pop_span_equiv_witness: "pop_span 9 [9, 4, 9, 12] = [9, 4]"
  using conjunct2 [OF pop_span_equiv [of 9 "[9, 4, 9, 12]"], THEN spec, of "[9, 4]", THEN spec, of "[12]"] by simp

end
