(* ===== verification/P8_Registry.thy ===== *)
theory P8_Registry
  imports P8_Emit
begin

text \<open>
  The registries of engine/p8_core.cpp: attributes, log modules and metrics, found by name and
  numbered in the order of their registration; verbosity; the attribute bytes of a metric's
  entry (\<open>encode_attr_blob\<close>); and the thread names, which the engine does not keep yet.

  All three registries refine one specification, a list of names with their definitions
  (\<open>spec_register\<close>); what follows for the handles they give is proved once, in the locale
  \<open>name_registry\<close>.
\<close>

section \<open>Results\<close>

abbreviation (input) P8_ATTR_ERROR_NOT_INITIALIZED :: i32 where "P8_ATTR_ERROR_NOT_INITIALIZED \<equiv> -1"
abbreviation (input) P8_ATTR_ERROR_INVALID_NAME :: i32 where "P8_ATTR_ERROR_INVALID_NAME \<equiv> -2"
abbreviation (input) P8_ATTR_ERROR_TYPE_MISMATCH :: i32 where "P8_ATTR_ERROR_TYPE_MISMATCH \<equiv> -3"
abbreviation (input) P8_ATTR_ERROR_ALLOC_FAILED :: i32 where "P8_ATTR_ERROR_ALLOC_FAILED \<equiv> -4"
abbreviation (input) P8_ATTR_ERROR_NOT_FOUND :: i32 where "P8_ATTR_ERROR_NOT_FOUND \<equiv> -5"
abbreviation (input) P8_MTK_ERROR_NOT_INITIALIZED :: i32 where "P8_MTK_ERROR_NOT_INITIALIZED \<equiv> -1"
abbreviation (input) P8_MTK_ERROR_INVALID_NAME :: i32 where "P8_MTK_ERROR_INVALID_NAME \<equiv> -2"
abbreviation (input) P8_MTK_ERROR_ALLOC_FAILED :: i32 where "P8_MTK_ERROR_ALLOC_FAILED \<equiv> -3"
abbreviation (input) P8_MTK_ERROR_CONFLICT :: i32 where "P8_MTK_ERROR_CONFLICT \<equiv> -4"

text \<open>\<open>vector[static_cast<size_t>(id)]\<close>; outside the vector it has no defined result.\<close>

definition vector_at :: "'a list \<Rightarrow> i32 \<Rightarrow> 'a option" where
  "vector_at xs i = (if 0 \<le> sint i \<and> nat (sint i) < length xs then Some (xs ! nat (sint i)) else None)"

section \<open>Attributes\<close>

text \<open>\<open>al_desc\<close> and \<open>al_name\<close> say whether the allocations of the descriptor and of its name's
  copy succeed.\<close>

definition attr_register :: "bool \<Rightarrow> bool \<Rightarrow> cstr option \<Rightarrow> e_p8_attr_type \<Rightarrow> core \<Rightarrow> (i32 \<times> core) option" where
  "attr_register al_desc al_name ip_name ie_type c =
     (if \<not> mb_initialized c then Some (P8_ATTR_ERROR_NOT_INITIALIZED, c)
      else case ip_name of
        None \<Rightarrow> Some (P8_ATTR_ERROR_INVALID_NAME, c)
      | Some name \<Rightarrow>
          if name = [] then Some (P8_ATTR_ERROR_INVALID_NAME, c)
          else (case mo_attr_name_map c name of
            Some li_existing \<Rightarrow> do {
              lp_ex \<leftarrow> vector_at (mo_attr_descs c) li_existing;
              Some (if ad_type lp_ex \<noteq> ie_type then P8_ATTR_ERROR_TYPE_MISMATCH else li_existing, c)
            }
          | None \<Rightarrow>
              if \<not> al_desc then Some (P8_ATTR_ERROR_ALLOC_FAILED, c)
              else if \<not> al_name then Some (P8_ATTR_ERROR_ALLOC_FAILED, c)
              else (let lp_desc = \<lparr>ad_id = word_of_nat (length (mo_attr_descs c)), ad_type = ie_type, ad_name = name\<rparr>;
                        c1 = c\<lparr>mo_attr_descs := mo_attr_descs c @ [lp_desc],
                          mo_attr_name_map := (mo_attr_name_map c)(name \<mapsto> ad_id lp_desc)\<rparr>
                    in do { c2 \<leftarrow> serialize_attr_desc lp_desc c1; Some (ad_id lp_desc, c2) })))"

definition attr_get :: "cstr option \<Rightarrow> core \<Rightarrow> i32" where
  "attr_get ip_name c =
     (if \<not> mb_initialized c then P8_ATTR_ERROR_NOT_INITIALIZED
      else case ip_name of
        None \<Rightarrow> P8_ATTR_ERROR_NOT_FOUND
      | Some name \<Rightarrow>
          if name = [] then P8_ATTR_ERROR_NOT_FOUND
          else (case mo_attr_name_map c name of Some i \<Rightarrow> i | None \<Rightarrow> P8_ATTR_ERROR_NOT_FOUND))"

text \<open>The loop of \<open>encode_attr_blob\<close>, with the bytes and the count so far.\<close>

fun encode_attr_loop :: "s_p8_attr_desc list \<Rightarrow> s_p8_attr_val list \<Rightarrow> byte list \<Rightarrow> byte \<Rightarrow> byte list \<times> byte" where
  "encode_attr_loop descs [] or_blob lu_count = (or_blob, lu_count)"
| "encode_attr_loop descs (v # vs) or_blob lu_count =
     (let li_id = av_id v in
      if sint li_id < 0 \<or> length descs \<le> nat (sint li_id) then encode_attr_loop descs vs or_blob lu_count
      else let lp_ad = descs ! nat (sint li_id);
               blob1 = or_blob @ le32 li_id;
               blob2 = (if ad_type lp_ad = e_p8_attr_str then
                   (let lp_str = (case av_str v of None \<Rightarrow> [] | Some s \<Rightarrow> s);
                        lz_slen = length lp_str;
                        lu_len = (if lz_slen > UINT16_MAX then UINT16_MAX else lz_slen)
                    in blob1 @ le16 (word_of_nat lu_len) @ take lu_len lp_str)
                 else blob1 @ le64 (av_u64 v));
               lu_count' = lu_count + 1
           in if lu_count' = word_of_nat UINT8_MAX then (blob2, lu_count') else encode_attr_loop descs vs blob2 lu_count')"

definition encode_attr_blob :: "core \<Rightarrow> s_p8_attr_val list option \<Rightarrow> byte list \<times> byte" where
  "encode_attr_blob c ip_attrs =
     encode_attr_loop (mo_attr_descs c) (case ip_attrs of None \<Rightarrow> [] | Some vs \<Rightarrow> vs) [] 0"

section \<open>Log modules\<close>

text \<open>The handle of a module is its place in \<open>mo_log_mods\<close>, \<open>None\<close> is
  \<open>P8_MODULE_INVALID_ID\<close>. The result is the call's and the value of \<open>*op_module\<close>; \<open>op_module\<close>
  says whether the pointer is not null.\<close>

definition register_module ::
    "bool \<Rightarrow> bool \<Rightarrow> cstr option \<Rightarrow> e_p8_level \<Rightarrow> bool \<Rightarrow> core \<Rightarrow> ((bool \<times> nat option) \<times> core) option" where
  "register_module al_mod al_name ip_name ie_verbosity op_module c =
     (if \<not> mb_initialized c then Some ((False, None), c)
      else case ip_name of
        None \<Rightarrow> Some ((False, None), c)
      | Some name \<Rightarrow>
          if name = [] \<or> \<not> op_module then Some ((False, None), c)
          else (case mo_log_mod_map c name of
            Some lp_existing \<Rightarrow> Some ((True, Some lp_existing), c\<lparr>mo_log_mods := (mo_log_mods c)
              [lp_existing := (mo_log_mods c ! lp_existing)\<lparr>lm_verbosity := ie_verbosity\<rparr>]\<rparr>)
          | None \<Rightarrow>
              if \<not> al_mod then Some ((False, None), c)
              else if \<not> al_name then Some ((False, None), c)
              else (let lp_mod = \<lparr>lm_name = name, lm_id = word_of_nat (length (mo_log_mods c)),
                          lm_verbosity = ie_verbosity\<rparr>;
                        handle = length (mo_log_mods c);
                        c1 = c\<lparr>mo_log_mods := mo_log_mods c @ [lp_mod],
                          mo_log_mod_map := (mo_log_mod_map c)(name \<mapsto> handle)\<rparr>
                    in do { c2 \<leftarrow> serialize_log_mod lp_mod c1; Some ((True, Some handle), c2) })))"

definition find_module :: "cstr option \<Rightarrow> core \<Rightarrow> nat option" where
  "find_module ip_name c =
     (if \<not> mb_initialized c then None
      else case ip_name of None \<Rightarrow> None | Some name \<Rightarrow> if name = [] then None else mo_log_mod_map c name)"

text \<open>A handle that no registration gave is a dangling pointer: \<open>None\<close>.\<close>

definition set_verbosity :: "nat option \<Rightarrow> e_p8_level \<Rightarrow> core \<Rightarrow> core option" where
  "set_verbosity ip_module ie_verbosity c = (case ip_module of
     None \<Rightarrow> Some (c\<lparr>me_default_verbosity := ie_verbosity\<rparr>)
   | Some m \<Rightarrow> if m < length (mo_log_mods c) then
        Some (c\<lparr>mo_log_mods := (mo_log_mods c)[m := (mo_log_mods c ! m)\<lparr>lm_verbosity := ie_verbosity\<rparr>]\<rparr>)
      else None)"

definition get_verbosity :: "nat option \<Rightarrow> core \<Rightarrow> e_p8_level option" where
  "get_verbosity ip_module c = (case ip_module of
     None \<Rightarrow> Some (me_default_verbosity c)
   | Some m \<Rightarrow> if m < length (mo_log_mods c) then Some (lm_verbosity (mo_log_mods c ! m)) else None)"

section \<open>Metrics\<close>

record s_p8_mtk_base =
  mb_name :: "cstr option"
  mb_description :: "cstr option"
  mb_unit :: "cstr option"
  mb_on :: bool
  mb_min :: u64
  mb_max :: u64
  mb_attrs :: "s_p8_attr_val list option"

text \<open>\<open>==\<close> on the 64 bits of two doubles: a NaN equals nothing, the zeros equal each other.\<close>

definition f64_nan :: "u64 \<Rightarrow> bool" where
  "f64_nan x \<longleftrightarrow> x AND 0x7FFFFFFFFFFFFFFF > 0x7FF0000000000000"

definition f64_eq :: "u64 \<Rightarrow> u64 \<Rightarrow> bool" where
  "f64_eq x y \<longleftrightarrow> \<not> f64_nan x \<and> \<not> f64_nan y
     \<and> (x = y \<or> x AND 0x7FFFFFFFFFFFFFFF = 0 \<and> y AND 0x7FFFFFFFFFFFFFFF = 0)"

definition is_str_equal :: "cstr option \<Rightarrow> cstr option \<Rightarrow> bool" where
  "is_str_equal ip_a ip_b = (case (ip_a, ip_b) of
     (None, None) \<Rightarrow> True | (Some a, Some b) \<Rightarrow> a = b | _ \<Rightarrow> False)"

text \<open>Which of the four allocations succeed.\<close>

record mtk_alloc =
  al_name :: bool
  al_descr :: bool
  al_unit :: bool
  al_desc :: bool

definition same_definition :: "s_p8_mtk_desc \<Rightarrow> byte \<Rightarrow> s_p8_mtk_base \<Rightarrow> bool" where
  "same_definition lp_ex lu_flags ip_base \<longleftrightarrow> mkd_flags lp_ex = lu_flags
     \<and> f64_eq (mkd_min lp_ex) (mb_min ip_base) \<and> f64_eq (mkd_max lp_ex) (mb_max ip_base)
     \<and> is_str_equal (mkd_description lp_ex) (mb_description ip_base)
     \<and> is_str_equal (mkd_unit lp_ex) (mb_unit ip_base)"

definition mtk_allocated :: "mtk_alloc \<Rightarrow> s_p8_mtk_base \<Rightarrow> bool" where
  "mtk_allocated al ip_base \<longleftrightarrow> al_name al \<and> (mb_description ip_base \<noteq> None \<longrightarrow> al_descr al)
     \<and> (mb_unit ip_base \<noteq> None \<longrightarrow> al_unit al) \<and> al_desc al"

definition register_mtk :: "mtk_alloc \<Rightarrow> s_p8_mtk_base option \<Rightarrow> core \<Rightarrow> (i32 \<times> core) option" where
  "register_mtk al ip_base c =
     (if \<not> mb_initialized c then Some (P8_MTK_ERROR_NOT_INITIALIZED, c)
      else case ip_base of
        None \<Rightarrow> Some (P8_MTK_ERROR_INVALID_NAME, c)
      | Some base \<Rightarrow> (case mb_name base of
          None \<Rightarrow> Some (P8_MTK_ERROR_INVALID_NAME, c)
        | Some name \<Rightarrow>
            if name = [] then Some (P8_MTK_ERROR_INVALID_NAME, c)
            else (let lu_flags = (if mb_on base then P8_MTK_FLAG_ON else 0) in
              (case mo_mtk_name_map c name of
                Some i \<Rightarrow> do {
                  lp_ex \<leftarrow> vector_at (mo_mtk_descs c) i;
                  Some (if same_definition lp_ex lu_flags base then mkd_id lp_ex else P8_MTK_ERROR_CONFLICT, c)
                }
              | None \<Rightarrow>
                  if \<not> mtk_allocated al base then Some (P8_MTK_ERROR_ALLOC_FAILED, c)
                  else (case encode_attr_blob c (mb_attrs base) of (lo_attrs, lu_attrs) \<Rightarrow>
                    (let lp_desc = \<lparr>mkd_id = word_of_nat (length (mo_mtk_descs c)), mkd_name = name,
                           mkd_description = mb_description base, mkd_unit = mb_unit base, mkd_flags = lu_flags,
                           mkd_min = mb_min base, mkd_max = mb_max base\<rparr>;
                         c1 = c\<lparr>mo_mtk_descs := mo_mtk_descs c @ [lp_desc],
                           mo_mtk_name_map := (mo_mtk_name_map c)(name \<mapsto> mkd_id lp_desc),
                           mu_mtk_count := word_of_nat (length (mo_mtk_descs c @ [lp_desc]))\<rparr>
                     in do { c2 \<leftarrow> serialize_mtk_desc lp_desc lo_attrs lu_attrs c1; Some (mkd_id lp_desc, c2) }))))))"

definition get_mtk_count :: "core \<Rightarrow> u32" where
  "get_mtk_count c = mu_mtk_count c"

section \<open>Threads\<close>

text \<open>The engine keeps no thread names.\<close>

definition register_current_thread :: "cstr option \<Rightarrow> core \<Rightarrow> bool \<times> core" where
  "register_current_thread ip_name c = (if \<not> mb_initialized c then (False, c) else (False, c))"

definition unregister_current_thread :: "core \<Rightarrow> core" where
  "unregister_current_thread c = c"


section \<open>The specification of a registry\<close>

datatype reg_error = Not_ready | Bad_name | Conflict | No_memory

fun index_of :: "'a \<Rightarrow> 'a list \<Rightarrow> nat option" where
  "index_of x [] = None"
| "index_of x (y # ys) = (if x = y then Some 0 else map_option Suc (index_of x ys))"

lemma index_of_None: "index_of x xs = None \<longleftrightarrow> x \<notin> set xs"
  by (induction xs) auto

lemma index_of_Some: "index_of x xs = Some i \<Longrightarrow> i < length xs \<and> xs ! i = x"
  by (induction xs arbitrary: i) (auto split: if_splits)

lemma index_of_nth: "distinct xs \<Longrightarrow> i < length xs \<Longrightarrow> index_of (xs ! i) xs = Some i"
  using index_of_Some [of "xs ! i" xs] index_of_None [of "xs ! i" xs]
  by (cases "index_of (xs ! i) xs") (auto simp: nth_eq_iff_index_eq)

text \<open>A list of names with what they were registered with. \<open>merge old new\<close> is what remains of a
  name that is registered again, or \<open>None\<close> when that is refused.\<close>

definition spec_register ::
    "('v \<Rightarrow> 'v \<Rightarrow> 'v option) \<Rightarrow> bool \<Rightarrow> bool \<Rightarrow> cstr option \<Rightarrow> 'v \<Rightarrow> (cstr \<times> 'v) list
      \<Rightarrow> (reg_error + nat) \<times> (cstr \<times> 'v) list" where
  "spec_register merge ready mem name v xs =
     (if \<not> ready then (Inl Not_ready, xs)
      else if name = None \<or> name = Some [] then (Inl Bad_name, xs)
      else (case index_of (the name) (map fst xs) of
          Some i \<Rightarrow> (case merge (snd (xs ! i)) v of
              None \<Rightarrow> (Inl Conflict, xs)
            | Some v' \<Rightarrow> (Inr i, xs[i := (the name, v')]))
        | None \<Rightarrow> if mem then (Inr (length xs), xs @ [(the name, v)]) else (Inl No_memory, xs)))"

lemma spec_register_names:
  assumes "spec_register merge ready mem name v xs = (r, ys)" and "distinct (map fst xs)"
  shows "distinct (map fst ys)" and "prefix (map fst xs) (map fst ys)" and "length ys \<le> Suc (length xs)"
    and "r = Inr i \<Longrightarrow> i < length ys \<and> name = Some (fst (ys ! i))"
proof -
  have "distinct (map fst ys) \<and> prefix (map fst xs) (map fst ys) \<and> length ys \<le> Suc (length xs)
    \<and> (\<forall>i. r = Inr i \<longrightarrow> i < length ys \<and> name = Some (fst (ys ! i)))"
  proof (cases "ready \<and> name \<noteq> None \<and> name \<noteq> Some []")
    case False
    then have "(r, ys) = (Inl (if ready then Bad_name else Not_ready), xs)"
      using assms(1) by (auto simp: spec_register_def)
    with assms(2) show ?thesis by simp
  next
    case True
    then obtain n where n: "name = Some n" by auto
    show ?thesis
    proof (cases "index_of n (map fst xs)")
      case None
      then have ni: "n \<notin> fst ` set xs" using index_of_None [of n "map fst xs"] by simp
      have "(r, ys) = (if mem then (Inr (length xs), xs @ [(n, v)]) else (Inl No_memory, xs))"
        unfolding assms(1) [symmetric] using True n None by (simp add: spec_register_def)
      with assms(2) ni n show ?thesis by (auto split: if_splits)
    next
      case (Some i)
      from index_of_Some [OF Some] have i: "i < length xs" "fst (xs ! i) = n" by auto
      then have "map fst (xs[i := (n, v')]) = map fst xs" for v'
        by (metis fst_conv length_map list_update_id map_update nth_map)
      with assms True n Some i show ?thesis by (auto simp: spec_register_def split: option.splits)
    qed
  qed
  then show "distinct (map fst ys)" "prefix (map fst xs) (map fst ys)" "length ys \<le> Suc (length xs)"
    "r = Inr i \<Longrightarrow> i < length ys \<and> name = Some (fst (ys ! i))"
    by blast+
qed

text \<open>A registry of the core that refines the specification: its state is seen through \<open>entries\<close>,
  its results through \<open>code\<close>.\<close>

locale name_registry =
  fixes inv :: "core \<Rightarrow> bool"
    and entries :: "core \<Rightarrow> (cstr \<times> 'v) list"
    and merge :: "'v \<Rightarrow> 'v \<Rightarrow> 'v option"
    and code :: "reg_error + nat \<Rightarrow> 'r"
    and mem :: "'x \<Rightarrow> 'v \<Rightarrow> bool"
    and register :: "'x \<Rightarrow> cstr option \<Rightarrow> 'v \<Rightarrow> core \<Rightarrow> ('r \<times> core) option"
    and limit :: nat
  assumes inv_names: "inv c \<Longrightarrow> distinct (map fst (entries c))"
    and refines: "inv c \<Longrightarrow> length (entries c) < limit \<Longrightarrow>
      \<exists>r c'. register x n v c = Some (code r, c') \<and> inv c' \<and> mb_initialized c' = mb_initialized c
        \<and> spec_register merge (mb_initialized c) (mem x v) n v (entries c) = (r, entries c')"
begin

lemma register_run:
  assumes "inv c" and "length (entries c) + length ops \<le> limit"
  shows "\<exists>hs c'. run_ops (\<lambda>(x, n, v). register x n v) ops c = Some (map code hs, c') \<and> inv c'
    \<and> length hs = length ops \<and> prefix (map fst (entries c)) (map fst (entries c'))
    \<and> length (entries c') \<le> length (entries c) + length ops
    \<and> (\<forall>i < length ops. \<forall>k. hs ! i = Inr k \<longrightarrow> k < length (entries c') \<and> fst (snd (ops ! i)) = Some (fst (entries c' ! k)))"
  using assms
proof (induction ops arbitrary: c)
  case Nil
  then show ?case by simp
next
  case (Cons o' ops)
  obtain x n v where o': "o' = (x, n, v)" by (cases o') auto
  from refines [of c x n v] Cons.prems obtain r c1 where
    r: "register x n v c = Some (code r, c1)" "inv c1"
    "spec_register merge (mb_initialized c) (mem x v) n v (entries c) = (r, entries c1)" by auto
  note sp = spec_register_names [OF r(3) inv_names [OF Cons.prems(1)]]
  have "length (entries c1) + length ops \<le> limit" using sp(3) Cons.prems(2) by simp
  from Cons.IH [OF r(2) this] obtain hs c' where
    t: "run_ops (\<lambda>(x, n, v). register x n v) ops c1 = Some (map code hs, c')" "inv c'" "length hs = length ops"
    "prefix (map fst (entries c1)) (map fst (entries c'))" "length (entries c') \<le> length (entries c1) + length ops"
    "\<forall>i < length ops. \<forall>k. hs ! i = Inr k \<longrightarrow> k < length (entries c') \<and> fst (snd (ops ! i)) = Some (fst (entries c' ! k))"
    by blast
  have "k < length (entries c') \<and> n = Some (fst (entries c' ! k))" if "r = Inr k" for k
  proof -
    have k: "k < length (entries c1)" "n = Some (fst (entries c1 ! k))" using sp(4) [OF that] by auto
    from t(4) have l: "length (entries c1) \<le> length (entries c')" by (metis length_map prefix_length_le)
    from t(4) k(1) have "map fst (entries c') ! k = map fst (entries c1) ! k" by (auto simp: prefix_def nth_append)
    with k l show ?thesis by simp
  qed
  then have "\<forall>i < length (o' # ops). \<forall>k. (r # hs) ! i = Inr k \<longrightarrow>
      k < length (entries c') \<and> fst (snd ((o' # ops) ! i)) = Some (fst (entries c' ! k))"
    using t(6) by (auto simp: o' less_Suc_eq_0_disj)
  moreover have "run_ops (\<lambda>(x, n, v). register x n v) (o' # ops) c = Some (map code (r # hs), c')"
    using r(1) t(1) by (simp add: o')
  moreover have "prefix (map fst (entries c)) (map fst (entries c'))" using sp(2) t(4) by (rule prefix_order.trans)
  moreover have "length (r # hs) = length (o' # ops)" "length (entries c') \<le> length (entries c) + length (o' # ops)"
    using t(3,5) sp(3) by simp_all
  ultimately show ?case using t(2) by blast
qed

text \<open>Two handles are the same handle exactly when the names are the same.\<close>

lemma handles_of_names:
  assumes "inv c" and "length (entries c) + length ops \<le> limit"
    and "run_ops (\<lambda>(x, n, v). register x n v) ops c = Some (rs, c')"
    and "i < length ops" and "j < length ops"
  shows "\<exists>hs. rs = map code hs \<and> length hs = length ops \<and> length (entries c') \<le> limit
    \<and> (\<forall>k l. hs ! i = Inr k \<and> hs ! j = Inr l \<longrightarrow> k < length (entries c') \<and> l < length (entries c')
        \<and> (k = l \<longleftrightarrow> fst (snd (ops ! i)) = fst (snd (ops ! j))))"
proof -
  from register_run [OF assms(1,2)] assms(3) obtain hs where
    hs: "rs = map code hs" "inv c'" "length hs = length ops" "length (entries c') \<le> length (entries c) + length ops"
    "\<forall>i < length ops. \<forall>k. hs ! i = Inr k \<longrightarrow> k < length (entries c') \<and> fst (snd (ops ! i)) = Some (fst (entries c' ! k))"
    by auto
  note d = inv_names [OF hs(2)]
  have "k = l \<longleftrightarrow> fst (entries c' ! k) = fst (entries c' ! l)" if "k < length (entries c')" "l < length (entries c')" for k l
    using nth_eq_iff_index_eq [OF d, of k l] that by simp
  then have "\<forall>k l. hs ! i = Inr k \<and> hs ! j = Inr l \<longrightarrow> k < length (entries c') \<and> l < length (entries c')
      \<and> (k = l \<longleftrightarrow> fst (snd (ops ! i)) = fst (snd (ops ! j)))"
    using hs(5) assms(4,5) by (metis option.inject)
  moreover have "length (entries c') \<le> limit" using hs(4) assms(2) by simp
  ultimately show ?thesis using hs(1,3) by blast
qed

end


section \<open>The invariant of the registries\<close>

lemma sint_of_nat_i32: "i < 2 ^ 31 \<Longrightarrow> sint (word_of_nat i :: i32) = int i"
  by (simp add: signed_of_nat signed_take_bit_int_eq_self)

definition index_map :: "(nat \<Rightarrow> 'i) \<Rightarrow> cstr list \<Rightarrow> cstr \<Rightarrow> 'i option" where
  "index_map handle names n = map_option handle (index_of n names)"

lemma index_map_Nil: "index_map handle [] = (\<lambda>_. None)"
  by (simp add: index_map_def fun_eq_iff)

lemma index_of_snoc: "n \<notin> set names \<Longrightarrow> index_of x (names @ [n]) = (if x = n then Some (length names) else index_of x names)"
  by (induction names) auto

lemma index_map_snoc:
  "n \<notin> set names \<Longrightarrow> index_map handle (names @ [n]) = (index_map handle names)(n \<mapsto> handle (length names))"
  by (auto simp: index_map_def index_of_snoc fun_eq_iff)

text \<open>Names are distinct, a name leads to its place, and an entry's number is its place.\<close>

definition attr_ok :: "core \<Rightarrow> bool" where
  "attr_ok c \<longleftrightarrow> distinct (map ad_name (mo_attr_descs c))
     \<and> map ad_id (mo_attr_descs c) = map word_of_nat [0..<length (mo_attr_descs c)]
     \<and> mo_attr_name_map c = index_map word_of_nat (map ad_name (mo_attr_descs c))"

definition mod_ok :: "core \<Rightarrow> bool" where
  "mod_ok c \<longleftrightarrow> distinct (map lm_name (mo_log_mods c))
     \<and> map lm_id (mo_log_mods c) = map word_of_nat [0..<length (mo_log_mods c)]
     \<and> mo_log_mod_map c = index_map (\<lambda>i. i) (map lm_name (mo_log_mods c))"

definition mtk_ok :: "core \<Rightarrow> bool" where
  "mtk_ok c \<longleftrightarrow> distinct (map mkd_name (mo_mtk_descs c))
     \<and> map mkd_id (mo_mtk_descs c) = map word_of_nat [0..<length (mo_mtk_descs c)]
     \<and> mo_mtk_name_map c = index_map word_of_nat (map mkd_name (mo_mtk_descs c))
     \<and> mu_mtk_count c = word_of_nat (length (mo_mtk_descs c))
     \<and> (\<forall>d \<in> set (mo_mtk_descs c). mkd_flags d \<in> {0, P8_MTK_FLAG_ON})"

definition registry_ok :: "core \<Rightarrow> bool" where
  "registry_ok c \<longleftrightarrow> svc_ok c \<and> attr_ok c \<and> mod_ok c \<and> mtk_ok c"

lemma registry_ok_new: "svc_ok (core_new p) \<Longrightarrow> registry_ok (core_new p)"
  by (simp add: registry_ok_def attr_ok_def mod_ok_def mtk_ok_def core_new_def index_map_Nil)

text \<open>The fields of a registry, and steps that leave the others alone.\<close>

definition registries :: "core \<Rightarrow> core" where
  "registries c = (core_new (pool_create 0 None (\<lambda>_. False)))\<lparr>mb_initialized := mb_initialized c,
     mo_attr_descs := mo_attr_descs c, mo_attr_name_map := mo_attr_name_map c,
     mo_log_mods := mo_log_mods c, mo_log_mod_map := mo_log_mod_map c,
     me_default_verbosity := me_default_verbosity c, mo_mtk_descs := mo_mtk_descs c,
     mo_mtk_name_map := mo_mtk_name_map c, mu_mtk_count := mu_mtk_count c\<rparr>"

lemma svc_static_registries: "svc_static c' = svc_static c \<Longrightarrow> registries c' = registries c"
proof -
  assume e: "svc_static c' = svc_static c"
  have "registries (svc_static x) = registries x" for x
    by (simp add: registries_def svc_static_def core_static_def)
  with e show ?thesis by metis
qed

lemma registries_fields:
  assumes "registries c' = registries c"
  shows "mb_initialized c' = mb_initialized c" "mo_attr_descs c' = mo_attr_descs c"
    "mo_attr_name_map c' = mo_attr_name_map c" "mo_log_mods c' = mo_log_mods c"
    "mo_log_mod_map c' = mo_log_mod_map c" "me_default_verbosity c' = me_default_verbosity c"
    "mo_mtk_descs c' = mo_mtk_descs c" "mo_mtk_name_map c' = mo_mtk_name_map c" "mu_mtk_count c' = mu_mtk_count c"
  using arg_cong [OF assms, of mb_initialized] arg_cong [OF assms, of mo_attr_descs]
    arg_cong [OF assms, of mo_attr_name_map] arg_cong [OF assms, of mo_log_mods]
    arg_cong [OF assms, of mo_log_mod_map] arg_cong [OF assms, of me_default_verbosity]
    arg_cong [OF assms, of mo_mtk_descs] arg_cong [OF assms, of mo_mtk_name_map]
    arg_cong [OF assms, of mu_mtk_count]
  by (simp_all add: registries_def)

lemma registries_ok:
  assumes "registries c' = registries c"
  shows "attr_ok c' = attr_ok c" "mod_ok c' = mod_ok c" "mtk_ok c' = mtk_ok c"
  using registries_fields [OF assms] by (simp_all add: attr_ok_def mod_ok_def mtk_ok_def)

text \<open>A change of the registries alone, the attributes growing, disturbs no thread.\<close>

definition set_registries :: "core \<Rightarrow> core \<Rightarrow> core" where
  "set_registries r c = c\<lparr>mo_attr_descs := mo_attr_descs r, mo_attr_name_map := mo_attr_name_map r,
     mo_log_mods := mo_log_mods r, mo_log_mod_map := mo_log_mod_map r,
     me_default_verbosity := me_default_verbosity r, mo_mtk_descs := mo_mtk_descs r,
     mo_mtk_name_map := mo_mtk_name_map r, mu_mtk_count := mu_mtk_count r\<rparr>"

lemma set_registries_simps:
  "svc_total (set_registries r c) = svc_total c" "svc_full n (set_registries r c) = svc_full n c"
  "svc_ok (set_registries r c) = svc_ok c" "fst (acquire_buffer (set_registries r c)) = fst (acquire_buffer c)"
  "mb_initialized (set_registries r c) = mb_initialized c" "names_of kind (set_registries r c) = names_of kind c"
  by (cases kind; simp add: set_registries_def svc_total_def svc_full_def svc_ok_def core_ok_def svc_inv_def
      svc_addrs_def acquire_buffer_def Let_def notify_pressure_def notify_def split: prod.split option.split)+

lemma set_registries_harmless:
  assumes "prefix (mo_attr_descs c) (mo_attr_descs r)"
  shows "harmless xxh c (set_registries r c)"
proof -
  let ?c = "set_registries r c"
  have ca: "cache_ok w ?c" if k: "cache_ok w c" for w
  proof -
    obtain zs n where "mo_attr_descs r = mo_attr_descs c @ zs" "mo_attr_cache w = take n (mo_attr_descs c)"
      using assms k by (auto simp: prefix_def cache_ok_def)
    then have "mo_attr_cache w = take (min n (length (mo_attr_descs c))) (mo_attr_descs ?c)"
      by (simp add: set_registries_def min_def)
    then show ?thesis unfolding cache_ok_def by blast
  qed
  have sv: "svc_inv ?c = svc_inv c" "core_ok ?c = core_ok c" "svc_addrs ?c = svc_addrs c" "may_wait self ?c = may_wait self c"
    for self by (simp_all add: set_registries_def svc_inv_def svc_addrs_def core_ok_def may_wait_def)
  have own: "own_inv ty self h w ?c" if "own_inv ty self h w c" for ty self h w
    using that ca unfolding own_inv_def own_bufs_def sv wr_inv_def by (auto simp: set_registries_def)
  have "catalog xxh ?c = catalog xxh c"
    by (simp add: catalog_def set_registries_simps) (simp add: set_registries_def)
  then have "evolves xxh w c w ?c" for w
    using assms by (simp add: evolves_def set_registries_simps) (simp add: set_registries_def)
  with own show ?thesis by (simp add: harmless_def)
qed


section \<open>The registries refine the specification\<close>

text \<open>What is sent of an entry that does not wait for a buffer.\<close>

definition sent :: "core \<Rightarrow> byte list \<Rightarrow> byte list" where
  "sent c e = (if mz_data_buffer_size < length e \<or> svc_full (length e) c \<and> fst (acquire_buffer c) = None then [] else e)"

lemma put_registered:
  assumes ser: "\<And>c. svc_ok c \<Longrightarrow> \<exists>c'. ser c = Some c' \<and>
      (if length e \<le> mz_data_buffer_size then entry_put xxh (length e) e c c' else c' = c)"
    and ok: "svc_ok c" and pre: "prefix (mo_attr_descs c) (mo_attr_descs r)"
  shows "\<exists>c'. ser (set_registries r c) = Some c' \<and> svc_ok c' \<and> harmless xxh c c'
    \<and> registries c' = registries (set_registries r c) \<and> svc_total c' = svc_total c @ sent c e"
proof -
  have s: "svc_ok (set_registries r c)" using ok by (simp add: set_registries_simps)
  from ser [OF s] obtain c' where e: "ser (set_registries r c) = Some c'"
    and p: "if length e \<le> mz_data_buffer_size then entry_put xxh (length e) e (set_registries r c) c' else c' = set_registries r c"
    by blast
  note h = set_registries_harmless [OF pre, of xxh]
  show ?thesis
  proof (cases "length e \<le> mz_data_buffer_size")
    case True
    with p have p: "entry_put xxh (length e) e (set_registries r c) c'" by simp
    then have "registries c' = registries (set_registries r c)"
      by (intro svc_static_registries) (simp add: entry_put_def)
    moreover have "harmless xxh c c'" using harmless_trans [OF h] p by (simp add: entry_put_def)
    ultimately show ?thesis using e p True by (auto simp: entry_put_def set_registries_simps sent_def)
  next
    case False
    with p e s h show ?thesis by (auto simp: set_registries_simps sent_def)
  qed
qed

lemma put_small:
  "is_entry e \<Longrightarrow> \<exists>c'. ser c = Some c' \<and> entry_put xxh (length e) e c c' \<Longrightarrow>
   \<exists>c'. ser c = Some c' \<and> (if length e \<le> mz_data_buffer_size then entry_put xxh (length e) e c c' else c' = c)"
  by (auto simp: is_entry_def)

lemmas attr_put = put_small [where ser = "serialize_attr_desc d" for d, OF attr_is_entry serialize_attr_desc_spec]
lemmas mod_put = put_small [where ser = "serialize_log_mod d" for d, OF mod_is_entry serialize_log_mod_spec]

lemma index_mapD:
  assumes "m = index_map handle names" and "m n = Some h"
  shows "\<exists>i. index_of n names = Some i \<and> i < length names \<and> names ! i = n \<and> h = handle i"
  using assms index_of_Some [of n names] by (auto simp: index_map_def)

definition attr_entries :: "core \<Rightarrow> (cstr \<times> e_p8_attr_type) list" where
  "attr_entries c = map (\<lambda>d. (ad_name d, ad_type d)) (mo_attr_descs c)"

definition attr_merge :: "e_p8_attr_type \<Rightarrow> e_p8_attr_type \<Rightarrow> e_p8_attr_type option" where
  "attr_merge old new = (if old = new then Some old else None)"

fun attr_code :: "reg_error + nat \<Rightarrow> i32" where
  "attr_code (Inr i) = word_of_nat i"
| "attr_code (Inl Not_ready) = P8_ATTR_ERROR_NOT_INITIALIZED"
| "attr_code (Inl Bad_name) = P8_ATTR_ERROR_INVALID_NAME"
| "attr_code (Inl Conflict) = P8_ATTR_ERROR_TYPE_MISMATCH"
| "attr_code (Inl No_memory) = P8_ATTR_ERROR_ALLOC_FAILED"

lemma attr_entries_names: "map fst (attr_entries c) = map ad_name (mo_attr_descs c)"
  by (simp add: attr_entries_def)

text \<open>What an operation of a registry keeps for everyone else.\<close>

definition reg_step :: "(byte list \<Rightarrow> u64) \<Rightarrow> core \<Rightarrow> core \<Rightarrow> bool" where
  "reg_step xxh c c' \<longleftrightarrow> registry_ok c' \<and> harmless xxh c c' \<and> mb_initialized c' = mb_initialized c"

lemma reg_step_refl: "registry_ok c \<Longrightarrow> reg_step xxh c c"
  by (simp add: reg_step_def)

lemma attr_register_step:
  assumes ok: "registry_ok c" and lim: "length (attr_entries c) < 2 ^ 31"
  shows "\<exists>r c' ds. attr_register a b n t c = Some (attr_code r, c') \<and> reg_step xxh c c'
    \<and> spec_register attr_merge (mb_initialized c) (a \<and> b) n t (attr_entries c) = (r, attr_entries c')
    \<and> mo_attr_descs c' = mo_attr_descs c @ ds \<and> svc_total c' = svc_total c @ concat (map (\<lambda>d. sent c (attr_entry d)) ds)"
proof (cases "mb_initialized c \<and> n \<noteq> None \<and> n \<noteq> Some []")
  case False
  have "attr_register a b n t c = Some (attr_code (Inl (if mb_initialized c then Bad_name else Not_ready)), c)"
    using False by (auto simp: attr_register_def)
  moreover have "spec_register attr_merge (mb_initialized c) (a \<and> b) n t (attr_entries c)
      = (Inl (if mb_initialized c then Bad_name else Not_ready), attr_entries c)"
    using False by (auto simp: spec_register_def)
  ultimately show ?thesis using reg_step_refl [OF ok] by (intro exI [of _ c] exI exI [of _ "[]"] conjI) auto
next
  case True
  then obtain nm where n: "n = Some nm" "nm \<noteq> []" and init: "mb_initialized c" by auto
  have aok: "attr_ok c" and sok: "svc_ok c" using ok by (simp_all add: registry_ok_def)
  have m: "mo_attr_name_map c = index_map word_of_nat (map ad_name (mo_attr_descs c))" using aok by (simp add: attr_ok_def)
  show ?thesis
  proof (cases "mo_attr_name_map c nm")
    case (Some h)
    from index_mapD [OF m Some] obtain i where i: "index_of nm (map ad_name (mo_attr_descs c)) = Some i"
      "i < length (mo_attr_descs c)" "ad_name (mo_attr_descs c ! i) = nm" "h = word_of_nat i" by auto
    let ?same = "ad_type (mo_attr_descs c ! i) = t"
    have s: "sint h = int i" using i lim by (simp add: attr_entries_def sint_of_nat_i32)
    have e: "attr_entries c ! i = (nm, ad_type (mo_attr_descs c ! i))" using i by (simp add: attr_entries_def)
    have "attr_register a b n t c = Some (attr_code (if ?same then Inr i else Inl Conflict), c)"
      using n init Some i(2,4) s by (simp add: attr_register_def vector_at_def)
    moreover have "(attr_entries c)[i := (nm, t)] = attr_entries c" if ?same
      using that e by (metis list_update_id)
    then have "spec_register attr_merge (mb_initialized c) (a \<and> b) n t (attr_entries c)
        = (if ?same then Inr i else Inl Conflict, attr_entries c)"
      using n init i(1) e by (simp add: spec_register_def attr_merge_def attr_entries_names)
    ultimately show ?thesis using reg_step_refl [OF ok] by (intro exI [of _ c] exI exI [of _ "[]"] conjI) auto
  next
    case None
    then have ix: "index_of nm (map fst (attr_entries c)) = None" using m by (simp add: index_map_def attr_entries_names)
    then have new: "nm \<notin> set (map ad_name (mo_attr_descs c))" unfolding index_of_None attr_entries_names .
    have sp: "spec_register attr_merge (mb_initialized c) (a \<and> b) n t (attr_entries c)
        = (if a \<and> b then (Inr (length (attr_entries c)), attr_entries c @ [(nm, t)]) else (Inl No_memory, attr_entries c))"
      using n init ix by (simp add: spec_register_def)
    show ?thesis
    proof (cases "a \<and> b")
      case False
      then have "attr_register a b n t c = Some (attr_code (Inl No_memory), c)"
        using n init None by (auto simp: attr_register_def)
      with sp False reg_step_refl [OF ok] show ?thesis by (intro exI [of _ c] exI exI [of _ "[]"] conjI) auto
    next
      case mem: True
      let ?d = "\<lparr>ad_id = word_of_nat (length (mo_attr_descs c)), ad_type = t, ad_name = nm\<rparr>"
      let ?r = "c\<lparr>mo_attr_descs := mo_attr_descs c @ [?d], mo_attr_name_map := (mo_attr_name_map c)(nm \<mapsto> ad_id ?d)\<rparr>"
      have r: "set_registries ?r c = ?r" by (cases c) (simp add: set_registries_def)
      from put_registered [OF attr_put [of _ ?d xxh] sok, of ?r] obtain c' where
        p: "serialize_attr_desc ?d ?r = Some c'" "svc_ok c'" "harmless xxh c c'" "registries c' = registries ?r"
        "svc_total c' = svc_total c @ sent c (attr_entry ?d)" unfolding r by auto
      note f = registries_fields [OF p(4)]
      have "attr_register a b n t c = Some (ad_id ?d, c')"
        using n init None mem p(1) by (simp add: attr_register_def Let_def)
      moreover have "attr_entries c' = attr_entries c @ [(nm, t)]" using f by (simp add: attr_entries_def)
      moreover have "attr_ok c'" using aok new index_map_snoc [of nm "map ad_name (mo_attr_descs c)" "word_of_nat :: nat \<Rightarrow> i32"]
        unfolding registries_ok(1) [OF p(4)] by (simp add: attr_ok_def)
      then have "reg_step xxh c c'"
        using ok p(2,3) f registries_ok(2,3) [OF p(4)]
        by (simp add: reg_step_def registry_ok_def mod_ok_def mtk_ok_def)
      moreover have "mo_attr_descs c' = mo_attr_descs c @ [?d]" using f by simp
      ultimately show ?thesis using sp mem p(5)
        by (intro exI [of _ c'] exI [of _ "Inr (length (attr_entries c))"] exI [of _ "[?d]"] conjI) (simp_all add: attr_entries_def)
    qed
  qed
qed


text \<open>Modules: a name that is registered again takes the new verbosity.\<close>

definition mod_entries :: "core \<Rightarrow> (cstr \<times> e_p8_level) list" where
  "mod_entries c = map (\<lambda>d. (lm_name d, lm_verbosity d)) (mo_log_mods c)"

definition mod_merge :: "e_p8_level \<Rightarrow> e_p8_level \<Rightarrow> e_p8_level option" where
  "mod_merge old new = Some new"

fun mod_code :: "reg_error + nat \<Rightarrow> bool \<times> nat option" where
  "mod_code (Inr i) = (True, Some i)"
| "mod_code (Inl _) = (False, None)"

lemma mod_entries_names: "map fst (mod_entries c) = map lm_name (mo_log_mods c)"
  by (simp add: mod_entries_def)

lemma set_verbosity_registries:
  "m < length (mo_log_mods c) \<Longrightarrow> mod_ok c \<Longrightarrow>
   mod_ok (c\<lparr>mo_log_mods := (mo_log_mods c)[m := (mo_log_mods c ! m)\<lparr>lm_verbosity := v\<rparr>]\<rparr>)"
proof -
  assume m: "m < length (mo_log_mods c)" and ok: "mod_ok c"
  have "map lm_name ((mo_log_mods c)[m := (mo_log_mods c ! m)\<lparr>lm_verbosity := v\<rparr>]) = map lm_name (mo_log_mods c)"
    "map lm_id ((mo_log_mods c)[m := (mo_log_mods c ! m)\<lparr>lm_verbosity := v\<rparr>]) = map lm_id (mo_log_mods c)"
    using m by (simp_all add: map_update) (metis list_update_id nth_map)+
  with ok show ?thesis by (simp add: mod_ok_def)
qed

lemma mods_update_step:
  assumes ok: "registry_ok c" and m: "m < length (mo_log_mods c)"
  shows "reg_step xxh c (c\<lparr>mo_log_mods := (mo_log_mods c)[m := (mo_log_mods c ! m)\<lparr>lm_verbosity := v\<rparr>]\<rparr>)"
proof -
  let ?c = "c\<lparr>mo_log_mods := (mo_log_mods c)[m := (mo_log_mods c ! m)\<lparr>lm_verbosity := v\<rparr>]\<rparr>"
  have r: "set_registries ?c c = ?c" by (cases c) (simp add: set_registries_def)
  have "harmless xxh c ?c" using set_registries_harmless [of c ?c] unfolding r by simp
  moreover have "svc_ok ?c" using set_registries_simps(3) [of ?c c] ok unfolding r by (simp add: registry_ok_def)
  ultimately show ?thesis using ok set_verbosity_registries [OF m, of v]
    by (simp add: reg_step_def registry_ok_def attr_ok_def mtk_ok_def)
qed

lemma register_module_step:
  assumes ok: "registry_ok c"
  shows "\<exists>r c' ds. register_module a b n v True c = Some (mod_code r, c') \<and> reg_step xxh c c'
    \<and> spec_register mod_merge (mb_initialized c) (a \<and> b) n v (mod_entries c) = (r, mod_entries c')
    \<and> length (mo_log_mods c') = length (mo_log_mods c) + length ds
    \<and> svc_total c' = svc_total c @ concat (map (\<lambda>d. sent c (mod_entry d)) ds)"
proof (cases "mb_initialized c \<and> n \<noteq> None \<and> n \<noteq> Some []")
  case False
  have "register_module a b n v True c = Some (mod_code (Inl (if mb_initialized c then Bad_name else Not_ready)), c)"
    using False by (auto simp: register_module_def)
  moreover have "spec_register mod_merge (mb_initialized c) (a \<and> b) n v (mod_entries c)
      = (Inl (if mb_initialized c then Bad_name else Not_ready), mod_entries c)"
    using False by (auto simp: spec_register_def)
  ultimately show ?thesis using reg_step_refl [OF ok] by (intro exI [of _ c] exI exI [of _ "[]"] conjI) auto
next
  case True
  then obtain nm where n: "n = Some nm" "nm \<noteq> []" and init: "mb_initialized c" by auto
  have mok: "mod_ok c" and sok: "svc_ok c" using ok by (simp_all add: registry_ok_def)
  have m: "mo_log_mod_map c = index_map (\<lambda>i. i) (map lm_name (mo_log_mods c))" using mok by (simp add: mod_ok_def)
  show ?thesis
  proof (cases "mo_log_mod_map c nm")
    case (Some h)
    from index_mapD [OF m Some] have i: "index_of nm (map lm_name (mo_log_mods c)) = Some h"
      "h < length (mo_log_mods c)" "lm_name (mo_log_mods c ! h) = nm" by auto
    let ?c = "c\<lparr>mo_log_mods := (mo_log_mods c)[h := (mo_log_mods c ! h)\<lparr>lm_verbosity := v\<rparr>]\<rparr>"
    have "register_module a b n v True c = Some (mod_code (Inr h), ?c)"
      using n init Some by (simp add: register_module_def)
    moreover have "mod_entries ?c = (mod_entries c)[h := (nm, v)]" using i by (simp add: mod_entries_def map_update)
    then have "spec_register mod_merge (mb_initialized c) (a \<and> b) n v (mod_entries c) = (Inr h, mod_entries ?c)"
      using n init i(1) by (simp add: spec_register_def mod_merge_def mod_entries_names)
    moreover have "svc_total ?c = svc_total c" by (simp add: svc_total_def)
    ultimately show ?thesis using mods_update_step [OF ok i(2)]
      by (intro exI [of _ ?c] exI [of _ "Inr h"] exI [of _ "[]"] conjI) auto
  next
    case None
    then have ix: "index_of nm (map fst (mod_entries c)) = None" using m by (simp add: index_map_def mod_entries_names)
    then have new: "nm \<notin> set (map lm_name (mo_log_mods c))" unfolding index_of_None mod_entries_names .
    have sp: "spec_register mod_merge (mb_initialized c) (a \<and> b) n v (mod_entries c)
        = (if a \<and> b then (Inr (length (mod_entries c)), mod_entries c @ [(nm, v)]) else (Inl No_memory, mod_entries c))"
      using n init ix by (simp add: spec_register_def)
    show ?thesis
    proof (cases "a \<and> b")
      case False
      then have "register_module a b n v True c = Some (mod_code (Inl No_memory), c)"
        using n init None by (auto simp: register_module_def)
      with sp False reg_step_refl [OF ok] show ?thesis by (intro exI [of _ c] exI exI [of _ "[]"] conjI) auto
    next
      case mem: True
      let ?d = "\<lparr>lm_name = nm, lm_id = word_of_nat (length (mo_log_mods c)), lm_verbosity = v\<rparr>"
      let ?r = "c\<lparr>mo_log_mods := mo_log_mods c @ [?d], mo_log_mod_map := (mo_log_mod_map c)(nm \<mapsto> length (mo_log_mods c))\<rparr>"
      have r: "set_registries ?r c = ?r" by (cases c) (simp add: set_registries_def)
      from put_registered [OF mod_put [of _ ?d xxh] sok, of ?r] obtain c' where
        p: "serialize_log_mod ?d ?r = Some c'" "svc_ok c'" "harmless xxh c c'" "registries c' = registries ?r"
        "svc_total c' = svc_total c @ sent c (mod_entry ?d)" unfolding r by auto
      note f = registries_fields [OF p(4)]
      have "register_module a b n v True c = Some ((True, Some (length (mo_log_mods c))), c')"
        using n init None mem p(1) by (simp add: register_module_def Let_def)
      moreover have "mod_entries c' = mod_entries c @ [(nm, v)]" using f by (simp add: mod_entries_def)
      moreover have "mod_ok c'" using mok new index_map_snoc [of nm "map lm_name (mo_log_mods c)" "\<lambda>i. i"]
        unfolding registries_ok(2) [OF p(4)] by (simp add: mod_ok_def)
      then have "reg_step xxh c c'"
        using ok p(2,3) f registries_ok(1,3) [OF p(4)]
        by (simp add: reg_step_def registry_ok_def attr_ok_def mtk_ok_def)
      moreover have "mo_log_mods c' = mo_log_mods c @ [?d]" using f by simp
      ultimately show ?thesis using sp mem p(5)
        by (intro exI [of _ c'] exI [of _ "Inr (length (mod_entries c))"] exI [of _ "[?d]"] conjI) (simp_all add: mod_entries_def)
    qed
  qed
qed


text \<open>Metrics: a name that is registered again needs the same definition.\<close>

type_synonym mtk_definition = "bool \<times> u64 \<times> u64 \<times> cstr option \<times> cstr option"

definition mtk_definition_of :: "s_p8_mtk_base \<Rightarrow> mtk_definition" where
  "mtk_definition_of b = (mb_on b, mb_min b, mb_max b, mb_description b, mb_unit b)"

definition mtk_entries :: "core \<Rightarrow> (cstr \<times> mtk_definition) list" where
  "mtk_entries c = map (\<lambda>d. (mkd_name d, mkd_flags d = P8_MTK_FLAG_ON, mkd_min d, mkd_max d, mkd_description d, mkd_unit d))
     (mo_mtk_descs c)"

fun mtk_merge :: "mtk_definition \<Rightarrow> mtk_definition \<Rightarrow> mtk_definition option" where
  "mtk_merge (on, mi, ma, de, un) (on', mi', ma', de', un') =
     (if on = on' \<and> f64_eq mi mi' \<and> f64_eq ma ma' \<and> de = de' \<and> un = un' then Some (on, mi, ma, de, un) else None)"

fun mtk_code :: "reg_error + nat \<Rightarrow> i32" where
  "mtk_code (Inr i) = word_of_nat i"
| "mtk_code (Inl Not_ready) = P8_MTK_ERROR_NOT_INITIALIZED"
| "mtk_code (Inl Bad_name) = P8_MTK_ERROR_INVALID_NAME"
| "mtk_code (Inl No_memory) = P8_MTK_ERROR_ALLOC_FAILED"
| "mtk_code (Inl Conflict) = P8_MTK_ERROR_CONFLICT"

lemma mtk_entries_names: "map fst (mtk_entries c) = map mkd_name (mo_mtk_descs c)"
  by (simp add: mtk_entries_def)

lemma is_str_equal_eq: "is_str_equal a b \<longleftrightarrow> a = b"
  by (auto simp: is_str_equal_def split: option.splits)

lemma same_definition_merge:
  assumes "mkd_flags d \<in> {0, P8_MTK_FLAG_ON}"
  shows "mtk_merge (mkd_flags d = P8_MTK_FLAG_ON, mkd_min d, mkd_max d, mkd_description d, mkd_unit d) (mtk_definition_of b)
    = (if same_definition d (if mb_on b then P8_MTK_FLAG_ON else 0) b
       then Some (mkd_flags d = P8_MTK_FLAG_ON, mkd_min d, mkd_max d, mkd_description d, mkd_unit d) else None)"
  using assms by (auto simp: mtk_definition_of_def same_definition_def is_str_equal_eq)

lemma register_mtk_step:
  assumes ok: "registry_ok c" and lim: "length (mtk_entries c) < 2 ^ 31"
  shows "\<exists>r c' ds. register_mtk al (Some b) c = Some (mtk_code r, c') \<and> reg_step xxh c c'
    \<and> spec_register mtk_merge (mb_initialized c) (mtk_allocated al b) (mb_name b) (mtk_definition_of b) (mtk_entries c)
        = (r, mtk_entries c')
    \<and> mo_mtk_descs c' = mo_mtk_descs c @ ds
    \<and> svc_total c' = svc_total c @ concat (map (\<lambda>d. sent c
        (mtk_entry d (fst (encode_attr_blob c (mb_attrs b))) (snd (encode_attr_blob c (mb_attrs b))))) ds)"
proof (cases "mb_initialized c \<and> mb_name b \<noteq> None \<and> mb_name b \<noteq> Some []")
  case False
  have "register_mtk al (Some b) c = Some (mtk_code (Inl (if mb_initialized c then Bad_name else Not_ready)), c)"
    using False by (auto simp: register_mtk_def)
  moreover have "spec_register mtk_merge (mb_initialized c) (mtk_allocated al b) (mb_name b) (mtk_definition_of b) (mtk_entries c)
      = (Inl (if mb_initialized c then Bad_name else Not_ready), mtk_entries c)"
    using False by (auto simp: spec_register_def)
  ultimately show ?thesis using reg_step_refl [OF ok] by (intro exI [of _ c] exI exI [of _ "[]"] conjI) auto
next
  case True
  then obtain nm where n: "mb_name b = Some nm" "nm \<noteq> []" and init: "mb_initialized c" by auto
  have mok: "mtk_ok c" and sok: "svc_ok c" using ok by (simp_all add: registry_ok_def)
  have m: "mo_mtk_name_map c = index_map word_of_nat (map mkd_name (mo_mtk_descs c))"
    and ids: "map mkd_id (mo_mtk_descs c) = map word_of_nat [0..<length (mo_mtk_descs c)]"
    and fl: "\<forall>d \<in> set (mo_mtk_descs c). mkd_flags d \<in> {0, P8_MTK_FLAG_ON}" using mok by (simp_all add: mtk_ok_def)
  let ?fl = "if mb_on b then P8_MTK_FLAG_ON else 0"
  show ?thesis
  proof (cases "mo_mtk_name_map c nm")
    case (Some h)
    from index_mapD [OF m Some] obtain i where i: "index_of nm (map mkd_name (mo_mtk_descs c)) = Some i"
      "i < length (mo_mtk_descs c)" "mkd_name (mo_mtk_descs c ! i) = nm" "h = word_of_nat i" by auto
    let ?d = "mo_mtk_descs c ! i"
    have s: "sint h = int i" using i lim by (simp add: mtk_entries_def sint_of_nat_i32)
    have id: "mkd_id ?d = word_of_nat i" using arg_cong [OF ids, of "\<lambda>xs. xs ! i"] i(2) by simp
    have e: "mtk_entries c ! i = (nm, mkd_flags ?d = P8_MTK_FLAG_ON, mkd_min ?d, mkd_max ?d, mkd_description ?d, mkd_unit ?d)"
      using i by (simp add: mtk_entries_def)
    have mg: "mtk_merge (snd (mtk_entries c ! i)) (mtk_definition_of b)
        = (if same_definition ?d ?fl b then Some (snd (mtk_entries c ! i)) else None)"
      unfolding e snd_conv by (rule same_definition_merge) (use fl i(2) in auto)
    have "register_mtk al (Some b) c = Some (mtk_code (if same_definition ?d ?fl b then Inr i else Inl Conflict), c)"
      using n init Some i(2,4) s id by (simp add: register_mtk_def vector_at_def Let_def)
    moreover have "(nm, snd (mtk_entries c ! i)) = mtk_entries c ! i" using e by (simp add: prod_eq_iff)
    then have "(mtk_entries c)[i := (nm, snd (mtk_entries c ! i))] = mtk_entries c" by (metis list_update_id)
    then have "spec_register mtk_merge (mb_initialized c) (mtk_allocated al b) (mb_name b) (mtk_definition_of b) (mtk_entries c)
        = (if same_definition ?d ?fl b then Inr i else Inl Conflict, mtk_entries c)"
      using n init i(1) mg by (simp add: spec_register_def mtk_entries_names)
    ultimately show ?thesis using reg_step_refl [OF ok] by (intro exI [of _ c] exI exI [of _ "[]"] conjI) auto
  next
    case None
    then have ix: "index_of nm (map fst (mtk_entries c)) = None" using m by (simp add: index_map_def mtk_entries_names)
    then have new: "nm \<notin> set (map mkd_name (mo_mtk_descs c))" unfolding index_of_None mtk_entries_names .
    have sp: "spec_register mtk_merge (mb_initialized c) (mtk_allocated al b) (mb_name b) (mtk_definition_of b) (mtk_entries c)
        = (if mtk_allocated al b then (Inr (length (mtk_entries c)), mtk_entries c @ [(nm, mtk_definition_of b)])
           else (Inl No_memory, mtk_entries c))"
      using n init ix by (simp add: spec_register_def)
    show ?thesis
    proof (cases "mtk_allocated al b")
      case False
      then have "register_mtk al (Some b) c = Some (mtk_code (Inl No_memory), c)"
        using n init None by (auto simp: register_mtk_def)
      with sp False reg_step_refl [OF ok] show ?thesis by (intro exI [of _ c] exI exI [of _ "[]"] conjI) auto
    next
      case mem: True
      let ?d = "\<lparr>mkd_id = word_of_nat (length (mo_mtk_descs c)), mkd_name = nm, mkd_description = mb_description b,
        mkd_unit = mb_unit b, mkd_flags = ?fl, mkd_min = mb_min b, mkd_max = mb_max b\<rparr>"
      let ?r = "c\<lparr>mo_mtk_descs := mo_mtk_descs c @ [?d], mo_mtk_name_map := (mo_mtk_name_map c)(nm \<mapsto> mkd_id ?d),
        mu_mtk_count := word_of_nat (length (mo_mtk_descs c @ [?d]))\<rparr>"
      have r: "set_registries ?r c = ?r" by (cases c) (simp add: set_registries_def)
      obtain bl k where bl: "encode_attr_blob c (mb_attrs b) = (bl, k)" by fastforce
      from put_registered [OF serialize_mtk_desc_spec [of _ ?d bl k xxh] sok, of ?r] obtain c' where
        p: "serialize_mtk_desc ?d bl k ?r = Some c'" "svc_ok c'" "harmless xxh c c'" "registries c' = registries ?r"
        "svc_total c' = svc_total c @ sent c (mtk_entry ?d bl k)" unfolding r by auto
      note f = registries_fields [OF p(4)]
      have "register_mtk al (Some b) c = Some (mkd_id ?d, c')"
        using n init None mem p(1) bl by (simp add: register_mtk_def Let_def)
      moreover have "mtk_entries c' = mtk_entries c @ [(nm, mtk_definition_of b)]"
        using f by (simp add: mtk_entries_def mtk_definition_of_def)
      moreover have "mtk_ok c'" using mok new index_map_snoc [of nm "map mkd_name (mo_mtk_descs c)" "word_of_nat :: nat \<Rightarrow> i32"]
        unfolding registries_ok(3) [OF p(4)] by (simp add: mtk_ok_def)
      then have "reg_step xxh c c'"
        using ok p(2,3) f registries_ok(1,2) [OF p(4)]
        by (simp add: reg_step_def registry_ok_def attr_ok_def mod_ok_def)
      moreover have "mo_mtk_descs c' = mo_mtk_descs c @ [?d]" using f by simp
      ultimately show ?thesis using sp mem p(5) bl
        by (intro exI [of _ c'] exI [of _ "Inr (length (mtk_entries c))"] exI [of _ "[?d]"] conjI) (simp_all add: mtk_entries_def)
    qed
  qed
qed


interpretation attrs: name_registry registry_ok attr_entries attr_merge attr_code
  "\<lambda>(a, b) t. a \<and> b" "\<lambda>(a, b) n t. attr_register a b n t" "2 ^ 31"
proof
  fix c
  assume "registry_ok c"
  then show "distinct (map fst (attr_entries c))" by (simp add: attr_entries_names registry_ok_def attr_ok_def)
next
  fix c x n t
  assume "registry_ok c" "length (attr_entries c) < 2 ^ 31"
  from attr_register_step [OF this] show "\<exists>r c'. (case x of (a, b) \<Rightarrow> \<lambda>n t. attr_register a b n t) n t c = Some (attr_code r, c')
      \<and> registry_ok c' \<and> mb_initialized c' = mb_initialized c
      \<and> spec_register attr_merge (mb_initialized c) ((case x of (a, b) \<Rightarrow> \<lambda>t. a \<and> b) t) n t (attr_entries c) = (r, attr_entries c')"
    unfolding reg_step_def by (cases x) (simp, blast)
qed

interpretation mods: name_registry registry_ok mod_entries mod_merge mod_code
  "\<lambda>(a, b) v. a \<and> b" "\<lambda>(a, b) n v. register_module a b n v True" k for k
proof
  fix c
  assume "registry_ok c"
  then show "distinct (map fst (mod_entries c))" by (simp add: mod_entries_names registry_ok_def mod_ok_def)
next
  fix c x n v
  assume "registry_ok c"
  from register_module_step [OF this] show "\<exists>r c'. (case x of (a, b) \<Rightarrow> \<lambda>n v. register_module a b n v True) n v c = Some (mod_code r, c')
      \<and> registry_ok c' \<and> mb_initialized c' = mb_initialized c
      \<and> spec_register mod_merge (mb_initialized c) ((case x of (a, b) \<Rightarrow> \<lambda>v. a \<and> b) v) n v (mod_entries c) = (r, mod_entries c')"
    unfolding reg_step_def by (cases x) (simp, blast)
qed

text \<open>A metric registration as name, definition and the rest.\<close>

fun mtk_base_of :: "cstr option \<Rightarrow> mtk_definition \<Rightarrow> s_p8_attr_val list option \<Rightarrow> s_p8_mtk_base" where
  "mtk_base_of n (on, mi, ma, de, un) attrs = \<lparr>mb_name = n, mb_description = de, mb_unit = un, mb_on = on,
     mb_min = mi, mb_max = ma, mb_attrs = attrs\<rparr>"

lemma mtk_base_of_simps [simp]: "mb_name (mtk_base_of n d at) = n" "mtk_definition_of (mtk_base_of n d at) = d"
  by (cases d; simp add: mtk_definition_of_def)+

interpretation mtks: name_registry registry_ok mtk_entries mtk_merge mtk_code
  "\<lambda>(al, at) d. mtk_allocated al (mtk_base_of None d at)"
  "\<lambda>(al, at) n d. register_mtk al (Some (mtk_base_of n d at))" "2 ^ 31"
proof
  fix c
  assume "registry_ok c"
  then show "distinct (map fst (mtk_entries c))" by (simp add: mtk_entries_names registry_ok_def mtk_ok_def)
next
  fix c and x :: "mtk_alloc \<times> s_p8_attr_val list option" and n and d :: mtk_definition
  assume "registry_ok c" "length (mtk_entries c) < 2 ^ 31"
  obtain al at where x: "x = (al, at)" by fastforce
  have "mtk_allocated al (mtk_base_of n d at) = mtk_allocated al (mtk_base_of None d at)"
    by (cases d) (simp add: mtk_allocated_def)
  with register_mtk_step [OF \<open>registry_ok c\<close> \<open>length (mtk_entries c) < 2 ^ 31\<close>, of al "mtk_base_of n d at"]
  show "\<exists>r c'. (case x of (al, at) \<Rightarrow> \<lambda>n d. register_mtk al (Some (mtk_base_of n d at))) n d c = Some (mtk_code r, c')
      \<and> registry_ok c' \<and> mb_initialized c' = mb_initialized c
      \<and> spec_register mtk_merge (mb_initialized c) ((case x of (al, at) \<Rightarrow> \<lambda>d. mtk_allocated al (mtk_base_of None d at)) d) n d
          (mtk_entries c) = (r, mtk_entries c')"
    unfolding reg_step_def x by (simp, blast)
qed

section \<open>The attributes of a metric\<close>

definition attr_bytes :: "s_p8_attr_desc \<Rightarrow> s_p8_attr_val \<Rightarrow> byte list" where
  "attr_bytes d v = le32 (av_id v) @ (if ad_type d = e_p8_attr_str
     then (let s = (case av_str v of None \<Rightarrow> [] | Some s \<Rightarrow> s); n = min (length s) UINT16_MAX in le16 (word_of_nat n) @ take n s)
     else le64 (av_u64 v))"

lemma attr_bytes_min: "4 \<le> length (attr_bytes d v)"
  by (simp add: attr_bytes_def)

lemma encode_attr_step:
  "encode_attr_loop descs (v # vs) bl k =
     (if sint (av_id v) < 0 \<or> length descs \<le> nat (sint (av_id v)) then encode_attr_loop descs vs bl k
      else if k + 1 = word_of_nat UINT8_MAX then (bl @ attr_bytes (descs ! nat (sint (av_id v))) v, k + 1)
      else encode_attr_loop descs vs (bl @ attr_bytes (descs ! nat (sint (av_id v))) v) (k + 1))"
  by (auto simp: attr_bytes_def Let_def min_def)

lemma encode_attr_grows: "length bl \<le> length (fst (encode_attr_loop descs vs bl k))"
proof (induction vs arbitrary: bl k)
  case (Cons v vs)
  from Cons.IH [of "bl @ attr_bytes (descs ! nat (sint (av_id v))) v" "k + 1"] Cons.IH [of bl k] show ?case
    by (simp only: encode_attr_step) (simp split: if_split)
qed simp

lemma attr_pieces_bytes:
  assumes "length (attr_bytes d v) \<le> room" and "room \<le> P8_MAX_RECORD_SIZE"
  shows "\<exists>ps. attr_pieces d v room = Some ps \<and> concat ps = attr_bytes d v"
  using assms by (auto simp: attr_bytes_def attr_pieces_def Let_def min_def split: if_splits option.splits)

lemma encode_attr_spec:
  assumes "k < UINT8_MAX" and "iz + n + (length (fst (encode_attr_loop descs vs bl (word_of_nat k))) - length bl) \<le> P8_MAX_RECORD_SIZE"
  shows "encode_attr_loop descs vs bl (word_of_nat k) =
    (bl @ concat (attrs_spec descs iz vs n k), word_of_nat (k + length (attrs_spec descs iz vs n k)))"
  using assms
proof (induction vs arbitrary: bl n k)
  case (Cons v vs)
  let ?i = "nat (sint (av_id v))"
  show ?case
  proof (cases "sint (av_id v) < 0 \<or> length descs \<le> ?i")
    case True
    with Cons.IH [of k n bl] Cons.prems show ?thesis by (simp only: encode_attr_step attrs_spec.simps) simp
  next
    case False
    let ?b = "attr_bytes (descs ! ?i) v"
    let ?bl = "bl @ ?b"
    have w: "(word_of_nat k + 1 :: byte) = word_of_nat (Suc k)" by simp
    have w255: "(word_of_nat (Suc k) :: byte) = word_of_nat UINT8_MAX \<longleftrightarrow> Suc k = UINT8_MAX"
      using Cons.prems(1) by (simp add: word_unat_eq_iff unat_of_nat del: of_nat_Suc)
    let ?res = "if Suc k = UINT8_MAX then (?bl, word_of_nat (Suc k)) else encode_attr_loop descs vs ?bl (word_of_nat (Suc k))"
    have e: "encode_attr_loop descs (v # vs) bl (word_of_nat k) = ?res"
      using False by (simp only: encode_attr_step w w255 if_False)
    have gr: "length bl + length ?b \<le> length (fst ?res)" using encode_attr_grows [of ?bl descs vs] by simp
    have fit: "iz + n + (length (fst ?res) - length bl) \<le> 65528" using Cons.prems(2) unfolding e .
    have "length ?b \<le> length (fst ?res) - length bl" using gr by linarith
    then have "iz + n + length ?b \<le> 65528" using fit by linarith
    then have "length ?b \<le> attr_room (iz + n)" unfolding attr_room_def using attr_bytes_min [of "descs ! ?i" v]
      by (cases "iz + n < 65528") auto
    moreover have "attr_room (iz + n) \<le> 65528" by (simp add: attr_room_def)
    ultimately obtain ps where
      ps: "attr_pieces (descs ! ?i) v (attr_room (iz + n)) = Some ps" "concat ps = ?b"
      using attr_pieces_bytes by blast
    have sp: "attrs_spec descs iz (v # vs) n k = ?b # attrs_spec descs iz vs (n + length ?b) (Suc k)"
      using False Cons.prems(1) ps by simp
    show ?thesis
    proof (cases "Suc k = UINT8_MAX")
      case True
      have "attrs_spec descs iz vs m 255 = []" for m by (cases vs) simp_all
      with True show ?thesis unfolding e sp by simp
    next
      case k: False
      then have "iz + (n + length ?b) + (length (fst (encode_attr_loop descs vs ?bl (word_of_nat (Suc k)))) - length ?bl) \<le> 65528"
        using fit gr by simp
      from Cons.IH [OF _ this] k Cons.prems(1) show ?thesis unfolding e sp by simp
    qed
  qed
qed simp


section \<open>Properties\<close>


text \<open>
  C10 Registering a metric refines the specification of a registry, with the comparison of
  definitions as the condition for a known name: flags, description and unit equal, minimum and
  maximum equal as floating-point numbers; any difference is the conflict error and changes
  nothing. A new metric's entry, with its attributes encoded, is appended to the service bytes
  when it fits a buffer and a buffer is found; the registry counts the metric in any case.
\<close>

theorem register_mtk_refines:
  assumes "registry_ok c" and "length (mtk_entries c) < 2 ^ 31"
  shows "\<exists>r c' ds. register_mtk al (Some b) c = Some (mtk_code r, c') \<and> registry_ok c'
    \<and> spec_register mtk_merge (mb_initialized c) (mtk_allocated al b) (mb_name b) (mtk_definition_of b) (mtk_entries c)
        = (r, mtk_entries c')
    \<and> get_mtk_count c' = word_of_nat (length (mtk_entries c')) \<and> mo_mtk_descs c' = mo_mtk_descs c @ ds
    \<and> svc_total c' = svc_total c @ concat (map (\<lambda>d. sent c
        (mtk_entry d (fst (encode_attr_blob c (mb_attrs b))) (snd (encode_attr_blob c (mb_attrs b))))) ds)"
proof -
  from register_mtk_step [OF assms, of al b] obtain r c' ds where
    s: "register_mtk al (Some b) c = Some (mtk_code r, c')" "reg_step (\<lambda>_. 0) c c'"
    "spec_register mtk_merge (mb_initialized c) (mtk_allocated al b) (mb_name b) (mtk_definition_of b) (mtk_entries c)
      = (r, mtk_entries c')" "mo_mtk_descs c' = mo_mtk_descs c @ ds"
    "svc_total c' = svc_total c @ concat (map (\<lambda>d. sent c
        (mtk_entry d (fst (encode_attr_blob c (mb_attrs b))) (snd (encode_attr_blob c (mb_attrs b))))) ds)" by blast
  then have "registry_ok c'" by (simp add: reg_step_def)
  moreover from this have "get_mtk_count c' = word_of_nat (length (mtk_entries c'))"
    by (simp add: registry_ok_def mtk_ok_def get_mtk_count_def mtk_entries_def)
  ultimately show ?thesis using s by blast
qed

text \<open>
  Handles identify names. In any sequence of attribute registrations, with any allocations
  failing and any types, two calls that succeed return the same ID exactly when they were given
  the same name, and every ID that is returned is an index of the registry.
\<close>

theorem attr_ids_identify_names:
  assumes "registry_ok c" and "length (attr_entries c) + length ops < 2 ^ 31"
    and "run_ops (\<lambda>(x, n, t). attr_register (fst x) (snd x) n t) ops c = Some (ids, c')"
    and "i < length ops" and "j < length ops" and "0 \<le> sint (ids ! i)" and "0 \<le> sint (ids ! j)"
  shows "(ids ! i = ids ! j \<longleftrightarrow> fst (snd (ops ! i)) = fst (snd (ops ! j)))
    \<and> nat (sint (ids ! i)) < length (mo_attr_descs c')"
proof -
  have f: "(\<lambda>(x, n, t). attr_register (fst x) (snd x) n t) = (\<lambda>(x, n, t). (case x of (a, b) \<Rightarrow> \<lambda>n t. attr_register a b n t) n t)"
    by (auto simp: fun_eq_iff)
  have lim: "length (attr_entries c) + length ops \<le> 2 ^ 31" using assms(2) by simp
  from attrs.handles_of_names [OF assms(1) lim assms(3) [unfolded f] assms(4,5)] obtain hs where
    hs: "ids = map attr_code hs" "length hs = length ops" "length (attr_entries c') \<le> 2 ^ 31"
    and kl: "\<forall>k l. hs ! i = Inr k \<and> hs ! j = Inr l \<longrightarrow> k < length (attr_entries c') \<and> l < length (attr_entries c')
        \<and> (k = l \<longleftrightarrow> fst (snd (ops ! i)) = fst (snd (ops ! j)))" by blast
  have pos: "\<exists>k. r = Inr k" if "0 \<le> sint (attr_code r)" for r
  proof (cases r)
    case (Inl e)
    with that show ?thesis by (cases e) simp_all
  qed simp
  from pos [of "hs ! i"] pos [of "hs ! j"] assms(4-7) hs(1,2) obtain k l where
    h: "hs ! i = Inr k" "hs ! j = Inr l" by auto
  with kl have b: "k < 2 ^ 31" "l < 2 ^ 31" "k < length (attr_entries c')" using hs(3) by auto
  have v: "ids ! i = word_of_nat k" "ids ! j = word_of_nat l" using hs(1,2) assms(4,5) h by simp_all
  have "ids ! i = ids ! j \<longleftrightarrow> k = l"
    unfolding v using sint_of_nat_i32 [OF b(1)] sint_of_nat_i32 [OF b(2)] by (metis of_nat_eq_iff)
  moreover have "nat (sint (ids ! i)) = k" using v(1) sint_of_nat_i32 [OF b(1)] by simp
  ultimately show ?thesis using kl h b(3) by (simp add: attr_entries_def)
qed

text \<open>
  C39 The IDs of metrics stay below the count that \<open>cp8_mtk::emit\<close> checks them against: after any
  sequence of registrations, each ID that one of them returned is at least 0 and less than
  \<open>get_mtk_count\<close>, as machine integers.
\<close>

theorem metric_ids_bounded:
  assumes "registry_ok c" and "length (mtk_entries c) + length ops < 2 ^ 31"
    and "run_ops (\<lambda>(x, n, d). register_mtk (fst x) (Some (mtk_base_of n d (snd x)))) ops c = Some (ids, c')"
    and "i < length ops" and "0 \<le> sint (ids ! i)"
  shows "ids ! i < get_mtk_count c' \<and> sint (ids ! i) < int (length (mo_mtk_descs c'))"
proof -
  have f: "(\<lambda>(x, n, d). register_mtk (fst x) (Some (mtk_base_of n d (snd x))))
      = (\<lambda>(x, n, d). (case x of (al, at) \<Rightarrow> \<lambda>n d. register_mtk al (Some (mtk_base_of n d at))) n d)"
    by (auto simp: fun_eq_iff)
  have lim: "length (mtk_entries c) + length ops \<le> 2 ^ 31" using assms(2) by simp
  from mtks.register_run [OF assms(1) lim] assms(3) obtain hs where
    hs: "ids = map mtk_code hs" "length hs = length ops" "registry_ok c'"
    "length (mtk_entries c') \<le> length (mtk_entries c) + length ops"
    and kl: "\<forall>i < length ops. \<forall>k. hs ! i = Inr k \<longrightarrow> k < length (mtk_entries c') \<and> fst (snd (ops ! i)) = Some (fst (mtk_entries c' ! k))"
    unfolding f by auto
  have "\<exists>k. hs ! i = Inr k"
  proof (cases "hs ! i")
    case (Inl e)
    with assms(4,5) hs(1,2) show ?thesis by (cases e) simp_all
  qed simp
  then obtain k where k: "hs ! i = Inr k" "k < length (mtk_entries c')" using kl assms(4) by auto
  have cnt: "get_mtk_count c' = word_of_nat (length (mtk_entries c'))"
    using hs(3) by (simp add: registry_ok_def mtk_ok_def get_mtk_count_def mtk_entries_def)
  have v: "ids ! i = word_of_nat k" using hs(1,2) assms(4) k by simp
  have b: "length (mtk_entries c') < 2 ^ 31" using hs(4) assms(2) by simp
  have "(word_of_nat k :: i32) < word_of_nat (length (mtk_entries c'))"
    using k(2) b by (simp add: word_less_nat_alt unat_of_nat)
  then show ?thesis using v cnt sint_of_nat_i32 [of k] k(2) b by (simp add: mtk_entries_def)
qed

text \<open>
  The attributes of a metric's entry are encoded as the attributes of a record are: when the
  bytes of \<open>encode_attr_blob\<close> leave a record that has \<open>iz\<close> bytes before them within the limit of a
  record, they are the bytes, and the count is the number, that \<open>serialize_attrs\<close> writes for the
  same attributes and registry. The count does not wrap around.
\<close>

theorem encode_attr_blob_equiv:
  assumes "iz + length (fst (encode_attr_blob c ip_attrs)) \<le> P8_MAX_RECORD_SIZE"
  shows "encode_attr_blob c ip_attrs = (concat (attrs_spec (mo_attr_descs c) iz (chars ip_attrs) 0 0),
      word_of_nat (length (attrs_spec (mo_attr_descs c) iz (chars ip_attrs) 0 0)))
    \<and> length (attrs_spec (mo_attr_descs c) iz (chars ip_attrs) 0 0) \<le> UINT8_MAX"
proof -
  have "encode_attr_blob c ip_attrs = encode_attr_loop (mo_attr_descs c) (chars ip_attrs) [] (word_of_nat 0)"
    by (simp add: encode_attr_blob_def chars_def)
  with encode_attr_spec [of 0 iz 0 "mo_attr_descs c" "chars ip_attrs" "[]"] assms
    attrs_spec_bounds [of iz 0 0 "mo_attr_descs c" "chars ip_attrs"] show ?thesis by simp
qed

text \<open>
  Verbosity follows its module. After a registration that succeeds, the module is found under
  its name and has the verbosity it was registered with, also when the name was known before;
  setting the verbosity of a module is seen at that module alone, and setting the default at no
  module.
\<close>

theorem module_verbosity:
  assumes "registry_ok c" and "register_module a b (Some n) v True c = Some ((True, Some h), c1)"
    and "set_verbosity m v' c1 = Some c2"
  shows "find_module (Some n) c1 = Some h \<and> get_verbosity (Some h) c1 = Some v \<and> registry_ok c2
    \<and> get_verbosity m c2 = Some v' \<and> (\<forall>k. k \<noteq> m \<longrightarrow> get_verbosity k c2 = get_verbosity k c1)"
proof -
  from register_module_step [OF assms(1), of a b "Some n" v] assms(2) obtain r where
    r: "(True, Some h) = mod_code r" and st: "reg_step (\<lambda>_. 0) c c1"
    and sp: "spec_register mod_merge (mb_initialized c) (a \<and> b) (Some n) v (mod_entries c) = (r, mod_entries c1)" by auto
  have rh: "r = Inr h" using r by (cases r) auto
  have ok: "registry_ok c1" "mod_ok c1" and init: "mb_initialized c1 = mb_initialized c"
    using st by (simp_all add: reg_step_def registry_ok_def)
  have i0: "mb_initialized c" "n \<noteq> []" using sp rh by (auto simp: spec_register_def split: if_splits)
  note nm = spec_register_names(4) [OF sp mods.inv_names [OF assms(1)] rh]
  have e: "mod_entries c1 ! h = (n, v)" "h < length (mod_entries c1)"
    using sp rh i0 index_of_Some [of n "map fst (mod_entries c)"]
    by (auto simp: spec_register_def mod_merge_def dest!: sym [of _ "mod_entries c1"] split: option.splits if_splits)
  have "index_of n (map lm_name (mo_log_mods c1)) = Some h"
    using index_of_nth [OF mods.inv_names [OF ok(1)], of h] e by (simp add: mod_entries_names [symmetric])
  then have "find_module (Some n) c1 = Some h"
    using ok(2) i0 init by (simp add: find_module_def mod_ok_def index_map_def)
  moreover have "get_verbosity (Some h) c1 = Some v" using e by (simp add: get_verbosity_def mod_entries_def)
  moreover have "registry_ok c2"
  proof (cases m)
    case None
    then have c2: "c2 = c1\<lparr>me_default_verbosity := v'\<rparr>" using assms(3) by (simp add: set_verbosity_def)
    have "set_registries c2 c1 = c2" unfolding c2 by (cases c1) (simp add: set_registries_def)
    then have "svc_ok c2" using set_registries_simps(3) [of c2 c1] ok(1) by (simp add: registry_ok_def)
    then show ?thesis using ok(1) by (simp add: c2 registry_ok_def attr_ok_def mod_ok_def mtk_ok_def)
  next
    case (Some k)
    with assms(3) mods_update_step [OF ok(1), of k "\<lambda>_. 0" v'] show ?thesis
      by (auto simp: set_verbosity_def reg_step_def split: if_splits)
  qed
  moreover have "get_verbosity m c2 = Some v' \<and> (\<forall>k. k \<noteq> m \<longrightarrow> get_verbosity k c2 = get_verbosity k c1)"
    using assms(3) by (auto simp: set_verbosity_def get_verbosity_def nth_list_update split: option.splits if_splits)
  ultimately show ?thesis by blast
qed


section \<open>Witnesses\<close>

lemma ex_registry: "registry_ok (core_new ex_pool)"
  by (rule registry_ok_new) (rule own_svc_ok [OF ex_own(1)])

lemma ex_empty [simp]: "attr_entries (core_new p) = []" "mod_entries (core_new p) = []" "mtk_entries (core_new p) = []"
  "mb_initialized (core_new p)"
  by (simp_all add: attr_entries_def mod_entries_def mtk_entries_def core_new_def)


lemma ex_metric_run:
  "\<exists>c'. run_ops (\<lambda>(x, n, d). register_mtk (fst x) (Some (mtk_base_of n d (snd x))))
     [((\<lparr>al_name = True, al_descr = True, al_unit = True, al_desc = True\<rparr>, None), Some [97], (True, 0, 0, None, None))]
     (core_new ex_pool) = Some ([0], c')"
  using register_mtk_step [where xxh = "\<lambda>_. 0", OF ex_registry, of "\<lparr>al_name = True, al_descr = True, al_unit = True, al_desc = True\<rparr>"
      "mtk_base_of (Some [97]) (True, 0, 0, None, None) None"]
  by (auto simp: spec_register_def mtk_allocated_def dest!: sym [of _ "mtk_entries _"])

theorem register_mtk_refines_witness:
  "\<exists>c'. register_mtk \<lparr>al_name = True, al_descr = True, al_unit = True, al_desc = True\<rparr>
      (Some (mtk_base_of (Some [97]) (True, 0, 0, None, None) None)) (core_new ex_pool) = Some (0, c') \<and> get_mtk_count c' = 1"
  using register_mtk_refines [OF ex_registry, of "\<lparr>al_name = True, al_descr = True, al_unit = True, al_desc = True\<rparr>"
      "mtk_base_of (Some [97]) (True, 0, 0, None, None) None"]
  by (auto simp: spec_register_def mtk_allocated_def dest!: sym [of _ "mtk_entries _"])

theorem metric_ids_bounded_witness:
  "\<exists>c'. run_ops (\<lambda>(x, n, d). register_mtk (fst x) (Some (mtk_base_of n d (snd x))))
     [((\<lparr>al_name = True, al_descr = True, al_unit = True, al_desc = True\<rparr>, None), Some [97], (True, 0, 0, None, None))]
     (core_new ex_pool) = Some ([0], c') \<and> 0 < get_mtk_count c'"
proof -
  obtain c' where r: "run_ops (\<lambda>(x, n, d). register_mtk (fst x) (Some (mtk_base_of n d (snd x))))
     [((\<lparr>al_name = True, al_descr = True, al_unit = True, al_desc = True\<rparr>, None), Some [97], (True, 0, 0, None, None))]
     (core_new ex_pool) = Some ([0], c')" using ex_metric_run by blast
  from metric_ids_bounded [OF ex_registry _ r, of 0] r show ?thesis by auto
qed

lemma ex_attr_run:
  "\<exists>c'. run_ops (\<lambda>(x, n, t). attr_register (fst x) (snd x) n t)
     [((True, True), Some [97], e_p8_attr_i64), ((False, True), Some [97], e_p8_attr_i64)] (core_new ex_pool) = Some ([0, 0], c')"
proof -
  from attr_register_step [where xxh = "\<lambda>_. 0", OF ex_registry, of True True "Some [97]" e_p8_attr_i64] obtain c1 where
    c1: "attr_register True True (Some [97]) e_p8_attr_i64 (core_new ex_pool) = Some (0, c1)" "registry_ok c1"
    "attr_entries c1 = [([97], e_p8_attr_i64)]" "mb_initialized c1"
    by (auto simp: spec_register_def reg_step_def dest!: sym [of _ "attr_entries _"])
  from attr_register_step [where xxh = "\<lambda>_. 0", OF c1(2), of False True "Some [97]" e_p8_attr_i64] obtain c2 where
    "attr_register False True (Some [97]) e_p8_attr_i64 c1 = Some (0, c2)"
    using c1(3,4) by (auto simp: spec_register_def attr_merge_def)
  with c1(1) show ?thesis by auto
qed

theorem attr_ids_identify_names_witness:
  "\<exists>c'. run_ops (\<lambda>(x, n, t). attr_register (fst x) (snd x) n t)
     [((True, True), Some [97], e_p8_attr_i64), ((False, True), Some [97], e_p8_attr_i64)] (core_new ex_pool) = Some ([0, 0], c')
     \<and> 0 < length (mo_attr_descs c')"
proof -
  obtain c' where r: "run_ops (\<lambda>(x, n, t). attr_register (fst x) (snd x) n t)
     [((True, True), Some [97], e_p8_attr_i64), ((False, True), Some [97], e_p8_attr_i64)] (core_new ex_pool) = Some ([0, 0], c')"
    using ex_attr_run by blast
  from attr_ids_identify_names [OF ex_registry _ r, of 0 1] r show ?thesis by auto
qed

theorem encode_attr_blob_equiv_witness:
  "encode_attr_blob ((core_new ex_pool)\<lparr>mo_attr_descs := [\<lparr>ad_id = 0, ad_type = e_p8_attr_u64, ad_name = [97]\<rparr>]\<rparr>)
     (Some [\<lparr>av_id = 0, av_str = None, av_u64 = 7\<rparr>]) = ([0, 0, 0, 0, 7, 0, 0, 0, 0, 0, 0, 0], 1)"
proof -
  let ?c = "(core_new ex_pool)\<lparr>mo_attr_descs := [\<lparr>ad_id = 0, ad_type = e_p8_attr_u64, ad_name = [97]\<rparr>]\<rparr>"
  have "le64 7 = [7, 0, 0, 0, 0, 0, 0, 0]" "le32 0 = [0, 0, 0, 0]" by code_simp+
  with encode_attr_blob_equiv [of 40 ?c "Some [\<lparr>av_id = 0, av_str = None, av_u64 = 7\<rparr>]"] show ?thesis
    by (simp add: encode_attr_blob_def chars_def attr_pieces_def attr_room_def)
qed

theorem module_verbosity_witness:
  "\<exists>c1 c2. register_module True True (Some [97]) e_p8_info0 True (core_new ex_pool) = Some ((True, Some 0), c1)
     \<and> set_verbosity (Some 0) e_p8_error0 c1 = Some c2 \<and> get_verbosity (Some 0) c2 = Some e_p8_error0"
proof -
  from register_module_step [where xxh = "\<lambda>_. 0", OF ex_registry, of True True "Some [97]" e_p8_info0] obtain c1 where
    c1: "register_module True True (Some [97]) e_p8_info0 True (core_new ex_pool) = Some ((True, Some 0), c1)"
    "mod_entries c1 = [([97], e_p8_info0)]"
    by (auto simp: spec_register_def dest!: sym [of _ "attr_entries _"] sym [of _ "mod_entries _"])
  then have "0 < length (mo_log_mods c1)" by (auto simp: mod_entries_def)
  then obtain c2 where c2: "set_verbosity (Some 0) e_p8_error0 c1 = Some c2" by (simp add: set_verbosity_def)
  from module_verbosity [OF ex_registry c1(1) c2] c1(1) c2 show ?thesis by blast
qed

end
