(* ===== verification/P8_Sink.thy ===== *)
theory P8_Sink
  imports P8_Stream "HOL-Library.Sublist"
begin

text \<open>
  The consumers of the worker's output: the file sink (engine/p8_sink_file.cpp) and the null
  sink (engine/p8_sink_null.cpp), with the contract both keep, the locale \<open>sink_iface\<close>
  (\<open>cp8_sink_iface\<close>, engine/p8_sink.hpp), and a reader of the data file.

  The files themselves are \<open>kit::c_file\<close>, code outside the repository: \<open>file_ops\<close> is that
  interface as a parameter, and \<open>write_v_law\<close> what is relied on of it.
\<close>

section \<open>Files\<close>

record 'f file_ops =
  fo_is_open :: "'f \<Rightarrow> bool"
  fo_write_v :: "byte list list \<Rightarrow> 'f \<Rightarrow> nat \<times> 'f"
  fo_sync :: "'f \<Rightarrow> 'f"
  fo_close :: "'f \<Rightarrow> 'f"

text \<open>At most \<open>mz_max_iov\<close> entries are written per call.\<close>
abbreviation (input) mz_max_iov :: nat where "mz_max_iov \<equiv> 1024"

section \<open>The file sink\<close>

record 'f sink_file =
  mb_configured :: bool
  mo_out_dir :: cstr
  mo_svc_file :: 'f
  mo_data_file :: 'f
  mz_iov_cap :: nat
  mu_bytes_written :: u64
  mu_bytes_dropped :: u64
  mu_write_errors :: u64

text \<open>The constructor. The configuration is what the JSON library finds: the section
  \<open>FileBin\<close>, and in it the string \<open>OutDir\<close>. \<open>f0\<close> is a file that is not open.\<close>

definition sink_file_create :: "'f \<Rightarrow> cstr option option \<Rightarrow> 'f sink_file" where
  "sink_file_create f0 ir_config =
     (let s = \<lparr>mb_configured = False, mo_out_dir = [], mo_svc_file = f0, mo_data_file = f0, mz_iov_cap = 0,
        mu_bytes_written = 0, mu_bytes_dropped = 0, mu_write_errors = 0\<rparr>
      in case ir_config of
        None \<Rightarrow> s
      | Some lo_file_bin \<Rightarrow> (case lo_file_bin of
          None \<Rightarrow> s
        | Some ls_out_dir \<Rightarrow> if ls_out_dir = [] then s else s\<lparr>mo_out_dir := ls_out_dir, mb_configured := True\<rparr>))"

text \<open>The names of the run's directory and of its two files, from the process name, the process
  ID in decimal and the UTC stamp.\<close>

definition run_dir_name :: "cstr \<Rightarrow> cstr \<Rightarrow> cstr \<Rightarrow> cstr" where
  "run_dir_name la_proc_name pid la_stamp = la_proc_name @ bytes_of ''_'' @ pid @ bytes_of ''_'' @ la_stamp"

definition svc_file_name :: "cstr \<Rightarrow> cstr" where
  "svc_file_name la_stamp = (bytes_of ''p8_'' @ la_stamp) @ bytes_of ''.p8svc''"

definition data_file_name :: "cstr \<Rightarrow> cstr" where
  "data_file_name la_stamp = (bytes_of ''p8_'' @ la_stamp) @ bytes_of ''.p8dat''"

text \<open>\<open>open\<close>: \<open>mkdir\<close> is \<open>create_directories\<close>, \<open>create\<close> opens a new file for writing; both are
  the file system's. The data file is not tried when the service file fails, and the service file
  is closed when the data file fails.\<close>

definition sink_open ::
    "'f file_ops \<Rightarrow> (cstr list \<Rightarrow> bool) \<Rightarrow> (cstr list \<Rightarrow> 'f option) \<Rightarrow> cstr \<Rightarrow> cstr \<Rightarrow> cstr \<Rightarrow> 'f sink_file
      \<Rightarrow> bool \<times> 'f sink_file" where
  "sink_open ops mkdir create la_proc_name pid la_stamp s =
     (if \<not> mb_configured s then (False, s)
      else (let lo_run_dir = [mo_out_dir s, run_dir_name la_proc_name pid la_stamp] in
        if \<not> mkdir lo_run_dir then (False, s)
        else (case create (lo_run_dir @ [svc_file_name la_stamp]) of
          None \<Rightarrow> (False, s)
        | Some f \<Rightarrow> (let s1 = s\<lparr>mo_svc_file := f\<rparr> in
            (case create (lo_run_dir @ [data_file_name la_stamp]) of
              None \<Rightarrow> (False, s1\<lparr>mo_svc_file := fo_close ops (mo_svc_file s1)\<rparr>)
            | Some g \<Rightarrow> (True, s1\<lparr>mo_data_file := g\<rparr>))))))"

text \<open>\<open>realloc_ok\<close> says whether \<open>realloc\<close> succeeds.\<close>

definition grow_iov :: "bool \<Rightarrow> nat \<Rightarrow> 'f sink_file \<Rightarrow> bool \<times> 'f sink_file" where
  "grow_iov realloc_ok iz_needed s =
     (if iz_needed \<le> mz_iov_cap s then (True, s)
      else if \<not> realloc_ok then (False, s)
      else (True, s\<lparr>mz_iov_cap := iz_needed\<rparr>))"

definition drop_batch :: "nat \<Rightarrow> 'f sink_file \<Rightarrow> bool \<times> 'f sink_file" where
  "drop_batch iz_total_size s =
     (if iz_total_size = 0 then (True, s)
      else (False, s\<lparr>mu_bytes_dropped := mu_bytes_dropped s + word_of_nat iz_total_size,
        mu_write_errors := mu_write_errors s + 1\<rparr>))"

text \<open>An entry of the scatter/gather array is the bytes it points to. The loop over chunks:\<close>

function write_chunks ::
    "'f file_ops \<Rightarrow> byte list list \<Rightarrow> bool \<Rightarrow> 'f \<Rightarrow> 'f sink_file \<Rightarrow> bool \<times> 'f \<times> 'f sink_file" where
  "write_chunks ops ip_iov lb_ok ir_file s =
     (if length ip_iov > 0 then
        (let lz_chunk_count = min mz_max_iov (length ip_iov);
             lp_chunk = take lz_chunk_count ip_iov;
             lz_chunk_size = sum_list (map length lp_chunk);
             (lz_written, ir_file1) = fo_write_v ops lp_chunk ir_file;
             s1 = s\<lparr>mu_bytes_written := mu_bytes_written s + word_of_nat lz_written\<rparr>;
             (lb_ok1, s2) = (if lz_written \<noteq> lz_chunk_size then
                 (False, s1\<lparr>mu_bytes_dropped := mu_bytes_dropped s1 + (word_of_nat lz_chunk_size - word_of_nat lz_written),
                    mu_write_errors := mu_write_errors s1 + 1\<rparr>)
               else (lb_ok, s1))
         in write_chunks ops (drop lz_chunk_count ip_iov) lb_ok1 ir_file1 s2)
      else (lb_ok, ir_file, s))"
  by pat_completeness auto

termination
  by (relation "measure (\<lambda>(ops, es, _). length es)") auto

declare write_chunks.simps [simp del]

definition write_entries ::
    "'f file_ops \<Rightarrow> byte list list \<Rightarrow> nat \<Rightarrow> 'f \<Rightarrow> 'f sink_file \<Rightarrow> bool \<times> 'f \<times> 'f sink_file" where
  "write_entries ops ip_iov iz_total_size ir_file s =
     (if iz_total_size = 0 then (True, ir_file, s)
      else if \<not> fo_is_open ops ir_file then
        (case drop_batch iz_total_size s of (r, s1) \<Rightarrow> (r, ir_file, s1))
      else write_chunks ops ip_iov True ir_file s)"

definition sink_write_hello :: "'f file_ops \<Rightarrow> byte list \<Rightarrow> 'f sink_file \<Rightarrow> bool \<times> 'f sink_file" where
  "sink_write_hello ops ir_hdr s = (case write_entries ops [ir_hdr] (length ir_hdr) (mo_data_file s) s of
     (r, f, s1) \<Rightarrow> (r, s1\<lparr>mo_data_file := f\<rparr>))"

text \<open>\<open>write_data\<close>; \<open>m\<close> is the memory of the buffers, whose headers say how many of their bytes
  count.\<close>

definition sink_write_data ::
    "'f file_ops \<Rightarrow> bool \<Rightarrow> s_p8_batch \<Rightarrow> mem \<Rightarrow> addr list \<Rightarrow> 'f sink_file \<Rightarrow> bool \<times> 'f sink_file" where
  "sink_write_data ops realloc_ok ir_batch m ip_buffers s =
     (let lz_count = length ip_buffers + 1;
          lz_total = sizeof_batch + sum_list (map (buf_size m) ip_buffers)
      in case grow_iov realloc_ok lz_count s of
        (False, s1) \<Rightarrow> drop_batch lz_total s1
      | (True, s1) \<Rightarrow>
          (let lp_iov = enc_bat ir_batch # map (\<lambda>lp_buf. rd m lp_buf 0 (buf_size m lp_buf)) ip_buffers
           in case write_entries ops lp_iov lz_total (mo_data_file s1) s1 of
             (r, f, s2) \<Rightarrow> (r, s2\<lparr>mo_data_file := f\<rparr>)))"

definition sink_write_service ::
    "'f file_ops \<Rightarrow> bool \<Rightarrow> mem \<Rightarrow> s_p8_svc_buf list \<Rightarrow> 'f sink_file \<Rightarrow> bool \<times> 'f sink_file" where
  "sink_write_service ops realloc_ok m ip_buffers s =
     (let lz_count = length ip_buffers; lz_total = sum_list (map sb_used ip_buffers)
      in if lz_count = 0 then (True, s)
      else case grow_iov realloc_ok lz_count s of
        (False, s1) \<Rightarrow> drop_batch lz_total s1
      | (True, s1) \<Rightarrow>
          (let lp_iov = map (\<lambda>lo_entry. rd m (sb_buf lo_entry) 0 (sb_used lo_entry)) ip_buffers
           in case write_entries ops lp_iov lz_total (mo_svc_file s1) s1 of
             (r, f, s2) \<Rightarrow> (r, s2\<lparr>mo_svc_file := f\<rparr>)))"

definition sink_flush :: "'f file_ops \<Rightarrow> 'f sink_file \<Rightarrow> 'f sink_file" where
  "sink_flush ops s =
     (let s1 = (if fo_is_open ops (mo_svc_file s) then s\<lparr>mo_svc_file := fo_sync ops (mo_svc_file s)\<rparr> else s)
      in if fo_is_open ops (mo_data_file s1) then s1\<lparr>mo_data_file := fo_sync ops (mo_data_file s1)\<rparr> else s1)"

definition sink_close :: "'f file_ops \<Rightarrow> 'f sink_file \<Rightarrow> 'f sink_file" where
  "sink_close ops s = s\<lparr>mo_svc_file := fo_close ops (mo_svc_file s), mo_data_file := fo_close ops (mo_data_file s)\<rparr>"

section \<open>The null sink\<close>

text \<open>Its state is \<open>mu_total\<close>, the bytes it was given.\<close>

definition null_open :: "u64 \<Rightarrow> bool \<times> u64" where
  "null_open mu_total = (True, 0)"

definition null_write_hello :: "byte list \<Rightarrow> u64 \<Rightarrow> bool \<times> u64" where
  "null_write_hello ir_hdr mu_total = (True, mu_total + word_of_nat (length ir_hdr))"

definition null_write_data :: "s_p8_batch \<Rightarrow> mem \<Rightarrow> addr list \<Rightarrow> u64 \<Rightarrow> bool \<times> u64" where
  "null_write_data ir_batch m ip_buffers mu_total =
     (True, fold (\<lambda>it t. t + word_of_nat (buf_size m it)) ip_buffers (mu_total + word_of_nat sizeof_batch))"

definition null_write_service :: "mem \<Rightarrow> s_p8_svc_buf list \<Rightarrow> u64 \<Rightarrow> bool \<times> u64" where
  "null_write_service m ip_buffers mu_total = (True, fold (\<lambda>it t. t + word_of_nat (sb_used it)) ip_buffers mu_total)"

definition null_flush :: "u64 \<Rightarrow> u64" where
  "null_flush mu_total = mu_total"

text \<open>The unit \<open>close\<close> reports in, and its power of two; the total is a signed number.\<close>

definition null_unit :: "u64 \<Rightarrow> string \<times> nat" where
  "null_unit mu_total = (let lu_total = sint mu_total in
     if lu_total \<ge> 2 ^ 30 then (''GB'', 30)
     else if lu_total \<ge> 2 ^ 20 then (''MB'', 20)
     else if lu_total \<ge> 2 ^ 10 then (''KB'', 10)
     else (''B'', 0))"


section \<open>What the file system promises\<close>

text \<open>\<open>write_v\<close> on an open file appends a part of the bytes from their start and returns its
  length.\<close>

definition write_v_law :: "'f file_ops \<Rightarrow> ('f \<Rightarrow> byte list) \<Rightarrow> bool" where
  "write_v_law ops contents \<longleftrightarrow> (\<forall>es f n f'. fo_is_open ops f \<longrightarrow> length es \<le> mz_max_iov \<longrightarrow>
     fo_write_v ops es f = (n, f') \<longrightarrow>
       n \<le> length (concat es) \<and> contents f' = contents f @ take n (concat es) \<and> fo_is_open ops f')"

lemma write_v_lawD:
  "write_v_law ops contents \<Longrightarrow> fo_is_open ops f \<Longrightarrow> length es \<le> mz_max_iov \<Longrightarrow> fo_write_v ops es f = (n, f') \<Longrightarrow>
   n \<le> length (concat es) \<and> contents f' = contents f @ take n (concat es) \<and> fo_is_open ops f'"
  unfolding write_v_law_def by blast

text \<open>Bytes that a sink has taken care of: written or counted as dropped.\<close>

definition handled :: "'f sink_file \<Rightarrow> u64" where
  "handled s = mu_bytes_written s + mu_bytes_dropped s"

lemma handled_files [simp]:
  "handled (s\<lparr>mo_data_file := f\<rparr>) = handled s" "handled (s\<lparr>mo_svc_file := f\<rparr>) = handled s"
  by (simp_all add: handled_def)

text \<open>The files are not the sink's to change while it writes one of them.\<close>

definition same_files :: "'f sink_file \<Rightarrow> 'f sink_file \<Rightarrow> bool" where
  "same_files s s' \<longleftrightarrow> mo_svc_file s' = mo_svc_file s \<and> mo_data_file s' = mo_data_file s \<and> mb_configured s' = mb_configured s"

lemma sum_list_length: "sum_list (map length es) = length (concat es)"
  by (induction es) auto

lemma write_chunks_spec:
  assumes law: "write_v_law ops contents"
  shows "fo_is_open ops f \<Longrightarrow> write_chunks ops es ok f s = (r, f', s') \<Longrightarrow>
    fo_is_open ops f' \<and> same_files s s' \<and> handled s' = handled s + word_of_nat (length (concat es))
    \<and> (\<exists>out. contents f' = contents f @ out \<and> subseq out (concat es) \<and> (r \<longleftrightarrow> ok \<and> out = concat es)
        \<and> (out = concat es \<longrightarrow> mu_bytes_dropped s' = mu_bytes_dropped s \<and> mu_write_errors s' = mu_write_errors s))"
proof (induction "length es" arbitrary: es ok f s r f' s' rule: less_induct)
  case less
  show ?case
  proof (cases "es = []")
    case True
    with less.prems show ?thesis by (auto simp: write_chunks.simps same_files_def)
  next
    case False
    define k where "k = min mz_max_iov (length es)"
    define chunk where "chunk = take k es"
    obtain n f1 where w: "fo_write_v ops chunk f = (n, f1)" by fastforce
    have "length chunk \<le> mz_max_iov" by (simp add: chunk_def k_def)
    from write_v_lawD [OF law less.prems(1) this w] have
      n: "n \<le> length (concat chunk)" "contents f1 = contents f @ take n (concat chunk)" "fo_is_open ops f1" by auto
    define full where "full \<longleftrightarrow> n = length (concat chunk)"
    define s1 where "s1 = s\<lparr>mu_bytes_written := mu_bytes_written s + word_of_nat n\<rparr>"
    define s2 where "s2 = (if \<not> full then s1\<lparr>mu_bytes_dropped := mu_bytes_dropped s1
        + (word_of_nat (length (concat chunk)) - word_of_nat n), mu_write_errors := mu_write_errors s1 + 1\<rparr> else s1)"
    have step: "write_chunks ops es ok f s = write_chunks ops (drop k es) (ok \<and> full) f1 s2"
      using False by (subst write_chunks.simps)
        (simp add: Let_def sum_list_length w k_def [symmetric] chunk_def [symmetric] s1_def s2_def full_def split: prod.split)
    have "length (drop k es) < length es" using False by (simp add: k_def)
    from less.hyps [OF this n(3)] less.prems(2) step obtain out where
      ih: "fo_is_open ops f'" "same_files s2 s'" "handled s' = handled s2 + word_of_nat (length (concat (drop k es)))"
      "contents f' = contents f1 @ out" "subseq out (concat (drop k es))"
      "r \<longleftrightarrow> (ok \<and> full) \<and> out = concat (drop k es)"
      "out = concat (drop k es) \<longrightarrow> mu_bytes_dropped s' = mu_bytes_dropped s2 \<and> mu_write_errors s' = mu_write_errors s2"
      by metis
    have es: "concat es = concat chunk @ concat (drop k es)"
      unfolding chunk_def by (metis append_take_drop_id concat_append)
    let ?out = "take n (concat chunk) @ out"
    have "subseq ?out (concat es)" unfolding es by (rule list_emb_append_mono [OF prefix_imp_subseq [OF take_is_prefix] ih(5)])
    moreover have eq: "?out = concat es \<longleftrightarrow> full \<and> out = concat (drop k es)"
    proof
      assume e: "?out = concat es"
      have "length out \<le> length (concat (drop k es))" using ih(5) by (rule list_emb_length)
      moreover have "length (take n (concat chunk)) + length out = length (concat chunk) + length (concat (drop k es))"
        using arg_cong [OF e, of length] unfolding es length_append .
      ultimately have "n = length (concat chunk)" using n(1) unfolding length_take by linarith
      with e show "full \<and> out = concat (drop k es)" by (simp add: es full_def)
    qed (simp add: es full_def)
    moreover have "handled s2 = handled s + word_of_nat (length (concat chunk))"
      using full_def by (auto simp: s2_def s1_def handled_def)
    then have "handled s' = handled s + word_of_nat (length (concat es))" using ih(3) by (simp add: es add.assoc)
    moreover have "same_files s s'" using ih(2) by (auto simp: same_files_def s2_def s1_def split: if_splits)
    moreover have "contents f' = contents f @ ?out" using ih(4) n(2) by simp
    moreover have "mu_bytes_dropped s2 = mu_bytes_dropped s \<and> mu_write_errors s2 = mu_write_errors s" if full
      using that by (simp add: s2_def s1_def)
    ultimately show ?thesis using ih(1,6,7) by (intro conjI exI [of _ ?out]) auto
  qed
qed

lemma write_entries_spec:
  assumes law: "write_v_law ops contents" and op: "fo_is_open ops f" and tot: "n = length (concat es)"
    and w: "write_entries ops es n f s = (r, f', s')"
  shows "fo_is_open ops f' \<and> same_files s s' \<and> handled s' = handled s + word_of_nat n
    \<and> (\<exists>out. contents f' = contents f @ out \<and> subseq out (concat es) \<and> (r \<longleftrightarrow> out = concat es)
        \<and> (out = concat es \<longrightarrow> mu_bytes_dropped s' = mu_bytes_dropped s \<and> mu_write_errors s' = mu_write_errors s))"
proof (cases "n = 0")
  case True
  with w tot op show ?thesis
    by (auto simp: write_entries_def same_files_def intro!: exI [of _ "[]"])
next
  case False
  with w op have "write_chunks ops es True f s = (r, f', s')" by (simp add: write_entries_def)
  from write_chunks_spec [OF law op this] tot show ?thesis by auto
qed

text \<open>A file that is not open takes nothing, and the bytes are counted.\<close>

lemma write_entries_handled:
  assumes "write_v_law ops contents" and "n = length (concat es)" and "write_entries ops es n f s = (r, f', s')"
  shows "handled s' = handled s + word_of_nat n \<and> same_files s s'"
proof (cases "fo_is_open ops f")
  case True
  from write_entries_spec [OF assms(1) this assms(2,3)] show ?thesis by simp
next
  case False
  with assms(3) show ?thesis
    by (auto simp: write_entries_def drop_batch_def handled_def same_files_def add.assoc split: if_splits)
qed


section \<open>Packets and the reader of the data file\<close>

definition buffer_bytes :: "mem \<Rightarrow> addr \<Rightarrow> byte list" where
  "buffer_bytes m b = rd m b 0 (buf_size m b)"

definition packet_bytes :: "s_p8_batch \<Rightarrow> mem \<Rightarrow> addr list \<Rightarrow> byte list" where
  "packet_bytes b m bs = enc_bat b @ concat (map (buffer_bytes m) bs)"

lemma length_buffers: "length (concat (map (buffer_bytes m) bs)) = sum_list (map (buf_size m) bs)"
  by (induction bs) (simp_all add: buffer_bytes_def)

lemma grow_iov_same:
  "grow_iov a n s = (r, s') \<Longrightarrow> same_files s s' \<and> handled s' = handled s \<and> mu_bytes_dropped s' = mu_bytes_dropped s
    \<and> mu_write_errors s' = mu_write_errors s"
  by (auto simp: grow_iov_def same_files_def handled_def split: if_splits)

text \<open>A batch goes to the data file whole, in order, right after what is there, and the result is
  true; or it is false, some bytes are missing, and all of them are accounted for.\<close>

lemma sink_write_data_spec:
  assumes law: "write_v_law ops contents" and op: "fo_is_open ops (mo_data_file s)"
    and w: "sink_write_data ops a b m bs s = (r, s')"
  shows "handled s' = handled s + word_of_nat (length (packet_bytes b m bs)) \<and> mo_svc_file s' = mo_svc_file s
    \<and> fo_is_open ops (mo_data_file s') \<and> (\<exists>out. contents (mo_data_file s') = contents (mo_data_file s) @ out
        \<and> subseq out (packet_bytes b m bs) \<and> (r \<longleftrightarrow> out = packet_bytes b m bs)
        \<and> (r \<longrightarrow> mu_bytes_dropped s' = mu_bytes_dropped s \<and> mu_write_errors s' = mu_write_errors s))"
proof -
  let ?n = "sizeof_batch + sum_list (map (buf_size m) bs)"
  let ?es = "enc_bat b # map (buffer_bytes m) bs"
  have len: "?n = length (packet_bytes b m bs)" by (simp add: packet_bytes_def length_buffers)
  have es: "concat ?es = packet_bytes b m bs" by (simp add: packet_bytes_def)
  obtain g s1 where g: "grow_iov a (length bs + 1) s = (g, s1)" by fastforce
  note gs = grow_iov_same [OF g]
  show ?thesis
  proof (cases g)
    case False
    with w g have "(r, s') = drop_batch ?n s1" by (simp add: sink_write_data_def Let_def)
    moreover have "packet_bytes b m bs \<noteq> []" using len by (auto simp flip: length_greater_0_conv)
    ultimately show ?thesis unfolding len [symmetric] using gs op
      by (auto simp: drop_batch_def handled_def same_files_def add.assoc intro!: exI [of _ "[]"])
  next
    case True
    obtain f s2 where e: "write_entries ops ?es ?n (mo_data_file s1) s1 = (r, f, s2)" and s': "s' = s2\<lparr>mo_data_file := f\<rparr>"
      using w g True by (auto simp: sink_write_data_def Let_def buffer_bytes_def [abs_def] split: prod.splits)
    have op1: "fo_is_open ops (mo_data_file s1)" using op gs by (simp add: same_files_def)
    have tot: "?n = length (concat ?es)" unfolding es by (rule len)
    from write_entries_spec [OF law op1 tot e, unfolded es] obtain out where
      "fo_is_open ops f" "same_files s1 s2" "handled s2 = handled s1 + word_of_nat ?n"
      "contents f = contents (mo_data_file s1) @ out" "subseq out (packet_bytes b m bs)" "r \<longleftrightarrow> out = packet_bytes b m bs"
      "out = packet_bytes b m bs \<longrightarrow> mu_bytes_dropped s2 = mu_bytes_dropped s1 \<and> mu_write_errors s2 = mu_write_errors s1"
      by blast
    with gs len show ?thesis by (auto simp: s' same_files_def handled_def)
  qed
qed

text \<open>How a reader takes a data file apart: a batch packet, then as many buffers as it counts, each
  as long as its header says.\<close>

fun read_buffers :: "nat \<Rightarrow> byte list \<Rightarrow> (byte list list \<times> byte list) option" where
  "read_buffers 0 bs = Some ([], bs)"
| "read_buffers (Suc k) bs =
     (let n = unat (dbh_size (dec_dbh bs)) in
      if length bs < sizeof_data_buf_hdr \<or> n < sizeof_data_buf_hdr \<or> length bs < n then None
      else do { (xs, rest) \<leftarrow> read_buffers k (drop n bs); Some (take n bs # xs, rest) })"

definition read_batch :: "byte list \<Rightarrow> ((s_p8_batch \<times> byte list list) \<times> byte list) option" where
  "read_batch bs =
     (let b = dec_bat bs in
      if length bs < sizeof_batch \<or> bat_packet_type b \<noteq> P8_PACKET_BATCH then None
      else do { (xs, rest) \<leftarrow> read_buffers (unat (bat_count b)) (drop sizeof_batch bs); Some ((b, xs), rest) })"

fun read_batches :: "nat \<Rightarrow> byte list \<Rightarrow> (s_p8_batch \<times> byte list list) list option" where
  "read_batches 0 bs = (if bs = [] then Some [] else None)"
| "read_batches (Suc k) bs = do { (x, rest) \<leftarrow> read_batch bs; xs \<leftarrow> read_batches k rest; Some (x # xs) }"

text \<open>What the worker passes: a batch packet that counts the buffers, and buffers with a header.\<close>

definition packet_ok :: "s_p8_batch \<Rightarrow> mem \<Rightarrow> addr list \<Rightarrow> bool" where
  "packet_ok b m bs \<longleftrightarrow> bat_packet_type b = P8_PACKET_BATCH \<and> unat (bat_count b) = length bs
     \<and> (\<forall>a \<in> set bs. sizeof_data_buf_hdr \<le> buf_size m a)"

lemma buffer_size_field:
  assumes "sizeof_data_buf_hdr \<le> buf_size m a"
  shows "unat (dbh_size (dec_dbh (buffer_bytes m a @ rest))) = buf_size m a"
proof -
  have n: "2 + (2 + (buf_size m a - 4)) = buf_size m a" using assms by simp
  have "rd m a 0 (2 + (2 + k)) = rd m a 0 2 @ rd m a 2 2 @ rd m a (2 + 2) k" for k by (simp only: rd_add add_0)
  from this [of "buf_size m a - 4"] have "buffer_bytes m a = rd m a 0 2 @ rd m a 2 2 @ rd m a (2 + 2) (buf_size m a - 4)"
    unfolding n buffer_bytes_def .
  then have "take 2 (drop 2 (buffer_bytes m a @ rest)) = rd m a 2 2" by (simp del: rd_0 rd_Suc)
  then show ?thesis by (simp add: dec_dbh_def buf_size_def)
qed

lemma read_buffers_bytes:
  "\<forall>a \<in> set bs. sizeof_data_buf_hdr \<le> buf_size m a \<Longrightarrow>
   read_buffers (length bs) (concat (map (buffer_bytes m) bs) @ rest) = Some (map (buffer_bytes m) bs, rest)"
proof (induction bs)
  case (Cons a bs)
  have l: "length (buffer_bytes m a) = buf_size m a" by (simp add: buffer_bytes_def)
  have "unat (dbh_size (dec_dbh (buffer_bytes m a @ concat (map (buffer_bytes m) bs) @ rest))) = buf_size m a"
    using Cons.prems by (intro buffer_size_field) simp
  with Cons l show ?case by (simp add: Let_def)
qed simp

lemma read_batch_bytes:
  assumes "packet_ok b m bs"
  shows "read_batch (packet_bytes b m bs @ rest) = Some ((b, map (buffer_bytes m) bs), rest)"
  using assms read_buffers_bytes [of bs m rest]
  by (simp add: read_batch_def packet_bytes_def packet_ok_def bat.dec_enc_rest Let_def)

lemma read_batches_bytes:
  "\<forall>(b, m, bs) \<in> set ps. packet_ok b m bs \<Longrightarrow>
   read_batches (length ps) (concat (map (\<lambda>(b, m, bs). packet_bytes b m bs) ps))
     = Some (map (\<lambda>(b, m, bs). (b, map (buffer_bytes m) bs)) ps)"
  by (induction ps) (auto simp: read_batch_bytes)


section \<open>The contract of a sink\<close>

text \<open>
  What the worker relies on, whatever the sink: it takes every byte it is given into account,
  \<open>inv\<close> being the sink's own condition and \<open>taken\<close> its count of bytes, modulo \<open>2 ^ 64\<close>. Over any
  sequence of batches and service buffers the counts add up.
\<close>

datatype sink_op = Put_data s_p8_batch mem "addr list" | Put_service mem "s_p8_svc_buf list"

fun op_size :: "sink_op \<Rightarrow> nat" where
  "op_size (Put_data b m bs) = sizeof_batch + sum_list (map (buf_size m) bs)"
| "op_size (Put_service m sbs) = sum_list (map sb_used sbs)"

locale sink_iface =
  fixes inv :: "'s \<Rightarrow> bool"
    and taken :: "'s \<Rightarrow> u64"
    and write_data :: "'a \<Rightarrow> s_p8_batch \<Rightarrow> mem \<Rightarrow> addr list \<Rightarrow> 's \<Rightarrow> bool \<times> 's"
    and write_service :: "'a \<Rightarrow> mem \<Rightarrow> s_p8_svc_buf list \<Rightarrow> 's \<Rightarrow> bool \<times> 's"
  assumes data_taken: "inv s \<Longrightarrow> write_data a b m bs s = (r, s') \<Longrightarrow>
      inv s' \<and> taken s' = taken s + word_of_nat (op_size (Put_data b m bs))"
    and service_taken: "inv s \<Longrightarrow> write_service a m sbs s = (r, s') \<Longrightarrow>
      inv s' \<and> taken s' = taken s + word_of_nat (op_size (Put_service m sbs))"
begin

fun put :: "'a \<times> sink_op \<Rightarrow> 's \<Rightarrow> (bool \<times> 's) option" where
  "put (a, Put_data b m bs) s = Some (write_data a b m bs s)"
| "put (a, Put_service m sbs) s = Some (write_service a m sbs s)"

lemma put_taken: "inv s \<Longrightarrow> put x s = Some (r, s') \<Longrightarrow> inv s' \<and> taken s' = taken s + word_of_nat (op_size (snd x))"
proof -
  assume i: "inv s" and p: "put x s = Some (r, s')"
  obtain a y where x: "x = (a, y)" by fastforce
  show "inv s' \<and> taken s' = taken s + word_of_nat (op_size (snd x))"
  proof (cases y)
    case (Put_data b m bs)
    with p x have "write_data a b m bs s = (r, s')" by simp
    from data_taken [OF i this] show ?thesis by (simp add: x Put_data)
  next
    case (Put_service m sbs)
    with p x have "write_service a m sbs s = (r, s')" by simp
    from service_taken [OF i this] show ?thesis by (simp add: x Put_service)
  qed
qed

lemma run_taken:
  "inv s \<Longrightarrow> run_ops put xs s = Some (rs, s') \<Longrightarrow>
   inv s' \<and> taken s' = taken s + word_of_nat (sum_list (map (op_size \<circ> snd) xs))"
proof (induction xs arbitrary: s rs)
  case (Cons x xs)
  then obtain r s1 rs' where p: "put x s = Some (r, s1)" "run_ops put xs s1 = Some (rs', s')"
    by (auto split: bind_splits)
  with Cons.IH [OF _ p(2)] put_taken [OF Cons.prems(1) p(1)] show ?case by (simp add: add.assoc)
qed simp

end

lemma drop_batch_handled: "drop_batch n s = (r, s') \<Longrightarrow> handled s' = handled s + word_of_nat n"
  by (auto simp: drop_batch_def handled_def add.assoc split: if_splits)

lemma sink_write_data_handled:
  assumes "write_v_law ops contents" and "sink_write_data ops a b m bs s = (r, s')"
  shows "handled s' = handled s + word_of_nat (op_size (Put_data b m bs))"
proof -
  let ?es = "enc_bat b # map (buffer_bytes m) bs"
  have tot: "op_size (Put_data b m bs) = length (concat ?es)" by (simp add: length_buffers)
  obtain g s1 where g: "grow_iov a (length bs + 1) s = (g, s1)" by fastforce
  note gs = grow_iov_same [OF g]
  show ?thesis
  proof (cases g)
    case False
    with assms(2) g have "drop_batch (op_size (Put_data b m bs)) s1 = (r, s')" by (simp add: sink_write_data_def Let_def)
    from drop_batch_handled [OF this] gs show ?thesis by simp
  next
    case True
    obtain f s2 where e: "write_entries ops ?es (op_size (Put_data b m bs)) (mo_data_file s1) s1 = (r, f, s2)"
      and s': "s' = s2\<lparr>mo_data_file := f\<rparr>"
      using assms(2) g True by (auto simp: sink_write_data_def Let_def buffer_bytes_def [abs_def] split: prod.splits)
    from write_entries_handled [OF assms(1) tot e] gs show ?thesis by (simp add: s')
  qed
qed

lemma sink_write_service_handled:
  assumes "write_v_law ops contents" and "sink_write_service ops a m sbs s = (r, s')"
  shows "handled s' = handled s + word_of_nat (op_size (Put_service m sbs))"
proof (cases "sbs = []")
  case True
  with assms(2) show ?thesis by (simp add: sink_write_service_def)
next
  case ne: False
  let ?es = "map (\<lambda>e. rd m (sb_buf e) 0 (sb_used e)) sbs"
  have tot: "op_size (Put_service m sbs) = length (concat ?es)" by (induction sbs) simp_all
  obtain g s1 where g: "grow_iov a (length sbs) s = (g, s1)" by fastforce
  note gs = grow_iov_same [OF g]
  show ?thesis
  proof (cases g)
    case False
    with assms(2) g ne have "drop_batch (op_size (Put_service m sbs)) s1 = (r, s')"
      by (simp add: sink_write_service_def Let_def)
    from drop_batch_handled [OF this] gs show ?thesis by simp
  next
    case True
    obtain f s2 where e: "write_entries ops ?es (op_size (Put_service m sbs)) (mo_svc_file s1) s1 = (r, f, s2)"
      and s': "s' = s2\<lparr>mo_svc_file := f\<rparr>"
      using assms(2) g True ne by (auto simp: sink_write_service_def Let_def split: prod.splits)
    from write_entries_handled [OF assms(1) tot e] gs show ?thesis by (simp add: s')
  qed
qed

text \<open>The file sink, when its files keep the law; the argument is whether memory can be had.\<close>

interpretation fl: sink_iface "\<lambda>s. write_v_law ops contents" handled "sink_write_data ops" "sink_write_service ops"
  for ops contents
  by unfold_locales (use sink_write_data_handled sink_write_service_handled in blast)+

lemma fold_add_word: "fold (\<lambda>x t. t + word_of_nat (f x)) xs (t :: u64) = t + word_of_nat (sum_list (map f xs))"
  by (induction xs arbitrary: t) (simp_all add: add.assoc)

interpretation null: sink_iface "\<lambda>_. True" "\<lambda>t. t" "\<lambda>_ :: unit. null_write_data" "\<lambda>_ :: unit. null_write_service"
  by unfold_locales (auto simp: null_write_data_def null_write_service_def fold_add_word add.assoc)

section \<open>Properties\<close>

text \<open>
  A batch is written whole or its loss is counted. Whatever \<open>write_v\<close> does within its law, and
  also when memory for the entries is short: what \<open>write_data\<close> adds to the data file is the batch
  packet followed by the buffers in their order with possibly some bytes missing; the result is
  true exactly when none is missing, and then nothing is counted as dropped; written and dropped
  bytes together grow by the size of the packet and the buffers. The service file is not touched.
\<close>

theorem sink_write_data_faithful:
  assumes "write_v_law ops contents" and "fo_is_open ops (mo_data_file s)"
    and "sink_write_data ops a b m bs s = (r, s')"
  shows "mu_bytes_written s' + mu_bytes_dropped s' = mu_bytes_written s + mu_bytes_dropped s
        + word_of_nat (length (packet_bytes b m bs))
    \<and> mo_svc_file s' = mo_svc_file s \<and> fo_is_open ops (mo_data_file s')
    \<and> (\<exists>out. contents (mo_data_file s') = contents (mo_data_file s) @ out \<and> subseq out (packet_bytes b m bs)
        \<and> (r \<longleftrightarrow> out = packet_bytes b m bs)
        \<and> (r \<longrightarrow> mu_bytes_dropped s' = mu_bytes_dropped s \<and> mu_write_errors s' = mu_write_errors s))"
  using sink_write_data_spec [OF assms] unfolding handled_def .

text \<open>
  C13 A data file reads back. After any number of batches that were all written, with packets that
  count their buffers and buffers that say their length, a reader that follows the counts and the
  length fields gets from the bytes added to the data file the same packets with the same
  buffers, in the same order, and nothing else.
\<close>

theorem data_file_roundtrip:
  assumes "write_v_law ops contents" and "fo_is_open ops (mo_data_file s)"
    and "run_ops (\<lambda>(a, b, m, bs) s. Some (sink_write_data ops a b m bs s)) ps s = Some (rs, s')"
    and "list_all id rs" and "list_all (\<lambda>(a, b, m, bs). packet_ok b m bs) ps"
  shows "\<exists>out. contents (mo_data_file s') = contents (mo_data_file s) @ out
    \<and> read_batches (length ps) out = Some (map (\<lambda>(a, b, m, bs). (b, map (buffer_bytes m) bs)) ps)"
proof -
  have "contents (mo_data_file s') = contents (mo_data_file s) @ concat (map (\<lambda>(a, b, m, bs). packet_bytes b m bs) ps)"
    using assms(2-4)
  proof (induction ps arbitrary: s rs)
    case (Cons p ps)
    obtain a b m bs where p: "p = (a, b, m, bs)" by (cases p) auto
    from Cons.prems(2) obtain r s1 rs' where w: "sink_write_data ops a b m bs s = (r, s1)"
      and t: "run_ops (\<lambda>(a, b, m, bs) s. Some (sink_write_data ops a b m bs s)) ps s1 = Some (rs', s')"
      and rs: "rs = r # rs'" by (auto simp: p split: bind_splits prod.splits)
    from sink_write_data_spec [OF assms(1) Cons.prems(1) w] Cons.prems(3) rs
    have "fo_is_open ops (mo_data_file s1)" "contents (mo_data_file s1) = contents (mo_data_file s) @ packet_bytes b m bs"
      by auto
    with Cons.IH [OF _ t] Cons.prems(3) rs show ?case by (simp add: p)
  qed simp
  moreover have "read_batches (length ps) (concat (map (\<lambda>(a, b, m, bs). packet_bytes b m bs) ps))
      = Some (map (\<lambda>(a, b, m, bs). (b, map (buffer_bytes m) bs)) ps)"
    using assms(5) by (induction ps) (auto simp: read_batch_bytes)
  ultimately show ?thesis by blast
qed

text \<open>
  C14 No byte passes a file sink uncounted: over any sequence of data batches and service buffers,
  with or without memory for the entries, with files that fail or are not open, the bytes counted
  as written and as dropped grow together by the bytes given, modulo \<open>2 ^ 64\<close>.
\<close>

theorem file_sink_accounts:
  assumes "write_v_law ops contents"
    and "run_ops (\<lambda>(a, x). case x of Put_data b m bs \<Rightarrow> (\<lambda>s. Some (sink_write_data ops a b m bs s))
        | Put_service m sbs \<Rightarrow> (\<lambda>s. Some (sink_write_service ops a m sbs s))) xs s = Some (rs, s')"
  shows "mu_bytes_written s' + mu_bytes_dropped s'
    = mu_bytes_written s + mu_bytes_dropped s + word_of_nat (sum_list (map (op_size \<circ> snd) xs))"
proof -
  have eq: "(\<lambda>(a, x). case x of Put_data b m bs \<Rightarrow> (\<lambda>s. Some (sink_write_data ops a b m bs s))
        | Put_service m sbs \<Rightarrow> (\<lambda>s. Some (sink_write_service ops a m sbs s))) = fl.put ops"
    by (auto simp: fun_eq_iff split: sink_op.splits)
  from fl.run_taken [OF assms(1) assms(2) [unfolded eq]] show ?thesis by (simp only: handled_def)
qed


section \<open>Witnesses\<close>

text \<open>Files on a disk with limited room: the bytes written, and how many still fit.\<close>

definition disk :: "(byte list \<times> nat) file_ops" where
  "disk = \<lparr>fo_is_open = (\<lambda>_. True),
     fo_write_v = (\<lambda>es (bs, room). (min room (length (concat es)), (bs @ take room (concat es), room - length (concat es)))),
     fo_sync = (\<lambda>f. f), fo_close = (\<lambda>f. f)\<rparr>"

lemma disk_law: "write_v_law disk fst"
  by (auto simp: write_v_law_def disk_def min_def)

definition ex_sink :: "nat \<Rightarrow> (byte list \<times> nat) sink_file" where
  "ex_sink room = (sink_file_create ([], room) (Some (Some [46])))\<lparr>mb_configured := True\<rparr>"

definition ex_batch :: s_p8_batch where
  "ex_batch = \<lparr>bat_packet_type = P8_PACKET_BATCH, bat_padding = 0, bat_batch = 0, bat_count = 0, bat_timestamp = 7\<rparr>"

lemma ex_write:
  "\<exists>s'. sink_write_data disk True ex_batch m [] (ex_sink room) = (16 \<le> room, s')"
proof -
  have "length (enc_bat ex_batch) = 16" by simp
  then show ?thesis
    by (simp add: sink_write_data_def Let_def grow_iov_def ex_sink_def sink_file_create_def write_entries_def disk_def
        write_chunks.simps min_def)
qed

theorem sink_write_data_faithful_witness:
  "\<exists>r s'. sink_write_data disk True ex_batch (\<lambda>_ _. 0) [] (ex_sink 9) = (r, s')
     \<and> mu_bytes_written s' + mu_bytes_dropped s' = 16"
proof -
  obtain s' where w: "sink_write_data disk True ex_batch (\<lambda>_ _. 0) [] (ex_sink 9) = (16 \<le> (9 :: nat), s')"
    using ex_write by blast
  have "fo_is_open disk (mo_data_file (ex_sink 9))" by (simp add: disk_def)
  from sink_write_data_faithful [OF disk_law this w] w show ?thesis
    by (auto simp: ex_sink_def sink_file_create_def packet_bytes_def)
qed

theorem data_file_roundtrip_witness:
  "\<exists>s' out. run_ops (\<lambda>(a, b, m, bs) s. Some (sink_write_data disk a b m bs s)) [(True, ex_batch, \<lambda>_ _. 0, [])] (ex_sink 100)
      = Some ([True], s') \<and> fst (mo_data_file s') = out \<and> read_batches 1 out = Some [(ex_batch, [])]"
proof -
  obtain s' where "sink_write_data disk True ex_batch (\<lambda>_ _. 0) [] (ex_sink 100) = (True, s')"
    using ex_write [of "\<lambda>_ _. 0" 100] by auto
  then have r: "run_ops (\<lambda>(a, b, m, bs) s. Some (sink_write_data disk a b m bs s)) [(True, ex_batch, \<lambda>_ _. 0, [])] (ex_sink 100)
      = Some ([True], s')" by simp
  have op: "fo_is_open disk (mo_data_file (ex_sink 100))" by (simp add: disk_def)
  from data_file_roundtrip [OF disk_law op r] r show ?thesis
    by (simp add: packet_ok_def ex_batch_def ex_sink_def sink_file_create_def)
qed

theorem file_sink_accounts_witness:
  "\<exists>rs s'. run_ops (\<lambda>(a, x). case x of Put_data b m bs \<Rightarrow> (\<lambda>s. Some (sink_write_data disk a b m bs s))
        | Put_service m sbs \<Rightarrow> (\<lambda>s. Some (sink_write_service disk a m sbs s)))
      [(True, Put_data ex_batch (\<lambda>_ _. 0) []), (False, Put_service (\<lambda>_ _. 0) [])] (ex_sink 9) = Some (rs, s')
    \<and> mu_bytes_written s' + mu_bytes_dropped s' = 16"
proof -
  obtain s1 where w: "sink_write_data disk True ex_batch (\<lambda>_ _. 0) [] (ex_sink 9) = (16 \<le> (9 :: nat), s1)"
    using ex_write by blast
  then have r: "run_ops (\<lambda>(a, x). case x of Put_data b m bs \<Rightarrow> (\<lambda>s. Some (sink_write_data disk a b m bs s))
        | Put_service m sbs \<Rightarrow> (\<lambda>s. Some (sink_write_service disk a m sbs s)))
      [(True, Put_data ex_batch (\<lambda>_ _. 0) []), (False, Put_service (\<lambda>_ _. 0) [])] (ex_sink 9) = Some ([False, True], s1)"
    by (simp add: sink_write_service_def)
  from file_sink_accounts [OF disk_law r] r show ?thesis
    by (auto simp: ex_sink_def sink_file_create_def)
qed

end
