(* ===== verification/P8_Writers.thy ===== *)
theory P8_Writers
  imports P8_Writer P8_Stream
begin

text \<open>
  The writers a core knows (engine/p8_core.cpp): an intrusive, doubly linked list under the
  writers lock, to which a writer's constructor and destructor (engine/p8_tls_writer.cpp) add and
  remove it, and which the worker walks to take all buffers (\<open>drain_writers\<close>) and all drop
  counts (\<open>poll_dropped_stats\<close>). Writers are addressed by numbers. A walk over links that do not
  end has no result (\<open>None\<close>).
\<close>

section \<open>The list\<close>

record writer_node =
  mp_prev_writer :: "nat option"
  mp_next_writer :: "nat option"
  wn_writer :: tls_writer

record writer_list =
  mp_writers_head :: "nat option"
  mz_writers_count :: u64
  mu_writers_seq :: u32
  wl_node :: "nat \<Rightarrow> writer_node"

definition register_writer :: "nat \<Rightarrow> writer_list \<Rightarrow> writer_list" where
  "register_writer ip_writer wl =
     (let seq = mu_writers_seq wl + 1;
          n = wl_node wl ip_writer;
          nodes1 = (wl_node wl)(ip_writer := n\<lparr>wn_writer := (wn_writer n)\<lparr>mu_writer_id := seq\<rparr>,
             mp_prev_writer := None, mp_next_writer := mp_writers_head wl\<rparr>);
          nodes2 = (case mp_writers_head wl of
               None \<Rightarrow> nodes1
             | Some h \<Rightarrow> nodes1(h := (nodes1 h)\<lparr>mp_prev_writer := Some ip_writer\<rparr>))
      in wl\<lparr>mu_writers_seq := seq, wl_node := nodes2, mp_writers_head := Some ip_writer,
           mz_writers_count := mz_writers_count wl + 1\<rparr>)"

definition unregister_writer :: "nat \<Rightarrow> writer_list \<Rightarrow> writer_list" where
  "unregister_writer ip_writer wl =
     (let nodes = wl_node wl;
          wl1 = (case mp_prev_writer (nodes ip_writer) of
              Some p \<Rightarrow> wl\<lparr>wl_node := nodes(p := (nodes p)\<lparr>mp_next_writer := mp_next_writer (nodes ip_writer)\<rparr>)\<rparr>
            | None \<Rightarrow> wl\<lparr>mp_writers_head := mp_next_writer (nodes ip_writer)\<rparr>);
          nodes1 = wl_node wl1;
          nodes2 = (case mp_next_writer (nodes1 ip_writer) of
              Some q \<Rightarrow> nodes1(q := (nodes1 q)\<lparr>mp_prev_writer := mp_prev_writer (nodes1 ip_writer)\<rparr>)
            | None \<Rightarrow> nodes1);
          nodes3 = nodes2(ip_writer := (nodes2 ip_writer)\<lparr>mp_next_writer := None, mp_prev_writer := None\<rparr>)
      in wl1\<lparr>wl_node := nodes3, mz_writers_count := mz_writers_count wl1 - 1\<rparr>)"

section \<open>Walking it\<close>

partial_function (option) drain_loop ::
    "nat option \<Rightarrow> addr list \<Rightarrow> (nat \<Rightarrow> writer_node) \<Rightarrow> (addr list \<times> (nat \<Rightarrow> writer_node)) option" where
  "drain_loop lp_writer io_data nodes = (case lp_writer of
     None \<Rightarrow> Some (io_data, nodes)
   | Some a \<Rightarrow> (case pull (wn_writer (nodes a)) io_data of
       (io_data1, w) \<Rightarrow> drain_loop (mp_next_writer (nodes a)) io_data1 (nodes(a := (nodes a)\<lparr>wn_writer := w\<rparr>))))"

definition drain_writers :: "core \<Rightarrow> addr list \<Rightarrow> writer_list \<Rightarrow> (addr list \<times> writer_list) option" where
  "drain_writers c io_data wl =
     (if \<not> mb_initialized c then Some (io_data, wl)
      else do {
        (io_data1, nodes) \<leftarrow> drain_loop (mp_writers_head wl) io_data (wl_node wl);
        Some (io_data1, wl\<lparr>wl_node := nodes\<rparr>)
      })"

definition accumulate_dropped :: "s_p8_drop_stats \<Rightarrow> core \<Rightarrow> core" where
  "accumulate_dropped ir_stats c = c\<lparr>co_dropped := (co_dropped c)
     \<lparr>ds_logs := ds_logs (co_dropped c) + ds_logs ir_stats,
      ds_metrics := ds_metrics (co_dropped c) + ds_metrics ir_stats,
      ds_traces := ds_traces (co_dropped c) + ds_traces ir_stats\<rparr>\<rparr>"

definition get_dropped_stats :: "core \<Rightarrow> s_p8_drop_stats" where
  "get_dropped_stats c = co_dropped c"

definition add_drops :: "s_p8_drop_stats \<Rightarrow> s_p8_drop_stats \<Rightarrow> s_p8_drop_stats" where
  "add_drops lo_sum lo_writer = lo_sum\<lparr>ds_logs := ds_logs lo_sum + ds_logs lo_writer,
     ds_metrics := ds_metrics lo_sum + ds_metrics lo_writer, ds_traces := ds_traces lo_sum + ds_traces lo_writer\<rparr>"

partial_function (option) poll_loop ::
    "nat option \<Rightarrow> s_p8_drop_stats \<Rightarrow> (nat \<Rightarrow> writer_node) \<Rightarrow> (s_p8_drop_stats \<times> (nat \<Rightarrow> writer_node)) option" where
  "poll_loop lp_writer lo_sum nodes = (case lp_writer of
     None \<Rightarrow> Some (lo_sum, nodes)
   | Some a \<Rightarrow> (case pull_dropped (wn_writer (nodes a)) of
       (lo_writer, w) \<Rightarrow> poll_loop (mp_next_writer (nodes a)) (add_drops lo_sum lo_writer)
         (nodes(a := (nodes a)\<lparr>wn_writer := w\<rparr>))))"

definition poll_dropped_stats :: "core \<Rightarrow> writer_list \<Rightarrow> (core \<times> writer_list) option" where
  "poll_dropped_stats c wl = do {
     (lo_sum, nodes) \<leftarrow> poll_loop (mp_writers_head wl) no_drops (wl_node wl);
     Some (accumulate_dropped lo_sum c, wl\<lparr>wl_node := nodes\<rparr>)
   }"

section \<open>A writer's life\<close>

text \<open>Constructor and destructor of a writer that found a core; counting the core's references is
  part of the core's life.\<close>

definition writer_attach :: "nat \<Rightarrow> u32 \<Rightarrow> writer_list \<Rightarrow> writer_list" where
  "writer_attach this thread wl = register_writer this
     (wl\<lparr>wl_node := (wl_node wl)(this := (wl_node wl this)\<lparr>wn_writer := tls_writer_create True thread 0\<rparr>)\<rparr>)"

definition writer_detach :: "nat \<Rightarrow> core \<Rightarrow> writer_list \<Rightarrow> core \<times> writer_list" where
  "writer_detach this c wl =
     (case core_push (wn_writer (wl_node wl this)) c of (w1, c1) \<Rightarrow>
      case pull_dropped w1 of (stats, w2) \<Rightarrow>
        (accumulate_dropped stats c1,
         unregister_writer this (wl\<lparr>wl_node := (wl_node wl)(this := (wl_node wl this)
           \<lparr>wn_writer := w2\<lparr>mp_core := False\<rparr>\<rparr>)\<rparr>)))"


section \<open>What the links mean\<close>

text \<open>\<open>seg nodes p cur xs q nx\<close>: from \<open>cur\<close>, whose predecessor is \<open>p\<close>, the links lead through
  \<open>xs\<close> to \<open>nx\<close>; \<open>q\<close> is the last of \<open>p # xs\<close>.\<close>

fun seg :: "(nat \<Rightarrow> writer_node) \<Rightarrow> nat option \<Rightarrow> nat option \<Rightarrow> nat list \<Rightarrow> nat option \<Rightarrow> nat option \<Rightarrow> bool" where
  "seg nodes p cur [] q nx \<longleftrightarrow> cur = nx \<and> q = p"
| "seg nodes p cur (a # xs) q nx \<longleftrightarrow> cur = Some a \<and> mp_prev_writer (nodes a) = p
     \<and> seg nodes (Some a) (mp_next_writer (nodes a)) xs q nx"

lemma seg_append: "seg nodes p cur (ys @ zs) q nx \<longleftrightarrow> (\<exists>m c. seg nodes p cur ys m c \<and> seg nodes m c zs q nx)"
  by (induction ys arbitrary: p cur) auto

lemma seg_cong:
  "(\<And>a. a \<in> set xs \<Longrightarrow> mp_prev_writer (nodes' a) = mp_prev_writer (nodes a) \<and> mp_next_writer (nodes' a) = mp_next_writer (nodes a))
   \<Longrightarrow> seg nodes' p cur xs q nx = seg nodes p cur xs q nx"
  by (induction xs arbitrary: p cur) auto

lemma seg_last: "seg nodes p cur xs q nx \<Longrightarrow> q = (if xs = [] then p else Some (last xs))"
  by (induction xs arbitrary: p cur) auto

lemma seg_first: "seg nodes p cur xs q nx \<Longrightarrow> cur = (if xs = [] then nx else Some (hd xs))"
  by (cases xs) auto

text \<open>Redirecting the end of a segment, or its start.\<close>

lemma seg_set_next:
  assumes "seg nodes p cur xs (Some b) nx" and "xs \<noteq> []" and "distinct xs"
  shows "seg (nodes(b := (nodes b)\<lparr>mp_next_writer := nx'\<rparr>)) p cur xs (Some b) nx'"
proof -
  from assms(2) obtain ys z where xs: "xs = ys @ [z]" by (metis rev_exhaust)
  with seg_last [OF assms(1)] have z: "z = b" by simp
  from assms(1) obtain m c where s: "seg nodes p cur ys m c" "seg nodes m c [b] (Some b) nx"
    unfolding xs z seg_append by blast
  have "b \<notin> set ys" using assms(3) by (simp add: xs z)
  then have "seg (nodes(b := (nodes b)\<lparr>mp_next_writer := nx'\<rparr>)) p cur ys m c" using s(1) by (subst seg_cong) auto
  with s(2) show ?thesis unfolding xs z seg_append by (intro exI [of _ m] exI [of _ c]) simp
qed

lemma seg_set_prev:
  assumes "seg nodes p (Some b) xs q nx" and "xs \<noteq> []" and "distinct xs"
  shows "seg (nodes(b := (nodes b)\<lparr>mp_prev_writer := p'\<rparr>)) p' (Some b) xs q nx"
proof -
  from assms(1,2) obtain ys where xs: "xs = b # ys" by (cases xs) auto
  have "b \<notin> set ys" using assms(3) by (simp add: xs)
  then have "seg (nodes(b := (nodes b)\<lparr>mp_prev_writer := p'\<rparr>)) r c ys q nx = seg nodes r c ys q nx" for r c
    by (intro seg_cong) auto
  with assms(1) show ?thesis by (simp add: xs)
qed

text \<open>A list of writers, in the order of the links.\<close>

definition wl_rep :: "writer_list \<Rightarrow> nat list \<Rightarrow> bool" where
  "wl_rep wl xs \<longleftrightarrow> (\<exists>q. seg (wl_node wl) None (mp_writers_head wl) xs q None) \<and> distinct xs
     \<and> mz_writers_count wl = word_of_nat (length xs)"

lemma register_rep:
  assumes r: "wl_rep wl xs" and a: "a \<notin> set xs"
  shows "wl_rep (register_writer a wl) (a # xs)"
proof -
  from r obtain q where s: "seg (wl_node wl) None (mp_writers_head wl) xs q None" and d: "distinct xs"
    and c: "mz_writers_count wl = word_of_nat (length xs)" by (auto simp: wl_rep_def)
  define n1 where "n1 = (wl_node wl)(a := (wl_node wl a)\<lparr>wn_writer := (wn_writer (wl_node wl a))\<lparr>mu_writer_id := mu_writers_seq wl + 1\<rparr>,
      mp_prev_writer := None, mp_next_writer := mp_writers_head wl\<rparr>)"
  have s1: "seg n1 None (mp_writers_head wl) xs q None" using s a by (subst seg_cong) (auto simp: n1_def)
  show ?thesis
  proof (cases xs)
    case Nil
    with s have "mp_writers_head wl = None" by simp
    with c Nil d show ?thesis by (simp add: wl_rep_def register_writer_def Let_def n1_def)
  next
    case (Cons h ys)
    then have h: "mp_writers_head wl = Some h" and ha: "h \<noteq> a" using s a by auto
    have s2: "seg (n1(h := (n1 h)\<lparr>mp_prev_writer := Some a\<rparr>)) (Some a) (Some h) xs q None"
      by (rule seg_set_prev) (use s1 h d Cons in auto)
    define n2 where "n2 = n1(h := (n1 h)\<lparr>mp_prev_writer := Some a\<rparr>)"
    then have n2a: "n2 a = n1 a" using ha by simp
    have "mp_prev_writer (n1 a) = None" "mp_next_writer (n1 a) = Some h" by (simp_all add: n1_def h)
    with s2 have "seg n2 None (Some a) (a # xs) q None" by (simp add: n2a n2_def [symmetric])
    moreover have "register_writer a wl = wl\<lparr>mu_writers_seq := mu_writers_seq wl + 1,
        wl_node := n2, mp_writers_head := Some a, mz_writers_count := mz_writers_count wl + 1\<rparr>"
      by (simp add: register_writer_def Let_def h n1_def n2_def)
    ultimately show ?thesis using a d c unfolding wl_rep_def by auto
  qed
qed

lemma unregister_rep:
  assumes r: "wl_rep wl xs" and a: "a \<in> set xs"
  shows "wl_rep (unregister_writer a wl) (remove1 a xs)"
proof -
  let ?N = "wl_node wl" and ?p = "mp_prev_writer (wl_node wl a)" and ?nx = "mp_next_writer (wl_node wl a)"
  from r have d: "distinct xs" by (simp add: wl_rep_def)
  from a obtain ys zs where xs: "xs = ys @ a # zs" by (auto simp: in_set_conv_decomp)
  have dy: "distinct ys" "distinct zs" "a \<notin> set ys" "a \<notin> set zs" "set ys \<inter> set zs = {}" using d by (auto simp: xs)
  from r obtain q c where y: "seg ?N None (mp_writers_head wl) ys ?p (Some a)" and z: "seg ?N (Some a) ?nx zs q None"
    unfolding wl_rep_def xs seg_append by auto
  note lst = seg_last [OF y] and fst = seg_first [OF z]
  define hd1 where "hd1 = (if ys = [] then ?nx else mp_writers_head wl)"
  define n1 where "n1 = (if ys = [] then ?N else ?N(last ys := (?N (last ys))\<lparr>mp_next_writer := ?nx\<rparr>))"
  have l: "last ys \<noteq> a" "last ys \<notin> set zs" if "ys \<noteq> []" using that dy last_in_set by (metis IntI empty_iff)+
  have y1: "seg n1 None hd1 ys ?p ?nx"
  proof (cases "ys = []")
    case True
    with y show ?thesis by (simp add: n1_def hd1_def)
  next
    case False
    with seg_set_next [of ?N None "mp_writers_head wl" ys "last ys" "Some a" ?nx] y lst dy(1) show ?thesis
      by (simp add: n1_def hd1_def)
  qed
  have z1: "seg n1 (Some a) ?nx zs q None" using z l by (subst seg_cong) (auto simp: n1_def)
  have na: "n1 a = ?N a" using l by (auto simp: n1_def)
  define n2 where "n2 = (case ?nx of None \<Rightarrow> n1 | Some b \<Rightarrow> n1(b := (n1 b)\<lparr>mp_prev_writer := ?p\<rparr>))"
  have nz: "?nx = Some b \<Longrightarrow> b \<in> set zs" for b using fst by (cases zs) auto
  have y2: "seg n2 None hd1 ys ?p ?nx"
    using y1 nz dy(5) by (subst seg_cong) (auto simp: n2_def split: option.splits)
  have z2: "\<exists>q. seg n2 ?p ?nx zs q None"
  proof (cases ?nx)
    case None
    with fst z1 show ?thesis by (cases zs) (auto simp: n2_def)
  next
    case (Some b)
    with fst have "zs \<noteq> []" by auto
    with seg_set_prev [of n1 "Some a" b zs q None ?p] z1 Some dy(2) show ?thesis by (auto simp: n2_def)
  qed
  define n3 where "n3 = n2(a := (n2 a)\<lparr>mp_next_writer := None, mp_prev_writer := None\<rparr>)"
  have "\<exists>q. seg n3 None hd1 (ys @ zs) q None"
  proof -
    have "seg n3 None hd1 ys ?p ?nx" using y2 dy by (subst seg_cong) (auto simp: n3_def)
    moreover have "\<exists>q. seg n3 ?p ?nx zs q None" using z2 dy by (subst seg_cong) (auto simp: n3_def)
    ultimately show ?thesis unfolding seg_append by blast
  qed
  moreover have "unregister_writer a wl = wl\<lparr>mp_writers_head := hd1, wl_node := n3, mz_writers_count := mz_writers_count wl - 1\<rparr>"
  proof -
    have "ys = [] \<longleftrightarrow> ?p = None" "ys \<noteq> [] \<Longrightarrow> ?p = Some (last ys)" using lst by (simp_all split: if_splits)
    then have e: "(case ?p of Some p \<Rightarrow> wl\<lparr>wl_node := ?N(p := (?N p)\<lparr>mp_next_writer := ?nx\<rparr>)\<rparr>
        | None \<Rightarrow> wl\<lparr>mp_writers_head := ?nx\<rparr>) = wl\<lparr>mp_writers_head := hd1, wl_node := n1\<rparr>"
      by (cases "ys = []") (simp_all add: hd1_def n1_def)
    show ?thesis unfolding unregister_writer_def Let_def e
      by (cases ?nx) (simp_all add: na n2_def n3_def del: fun_upd_apply)
  qed
  moreover have "remove1 a xs = ys @ zs" using dy(3) by (simp add: xs remove1_append)
  moreover have "mz_writers_count wl - 1 = word_of_nat (length (ys @ zs))" using r by (simp add: wl_rep_def xs)
  ultimately show ?thesis using dy by (simp add: wl_rep_def)
qed

section \<open>Walks\<close>

text \<open>A loop over the list that changes each writer and gathers something from it; both of the
  worker's loops are of this kind. Nothing is visited twice, and the links stay.\<close>

definition relink :: "(nat \<Rightarrow> writer_node) \<Rightarrow> nat list \<Rightarrow> (tls_writer \<Rightarrow> tls_writer) \<Rightarrow> nat \<Rightarrow> writer_node" where
  "relink nodes xs f a = (if a \<in> set xs then (nodes a)\<lparr>wn_writer := f (wn_writer (nodes a))\<rparr> else nodes a)"

locale writer_walk =
  fixes visit :: "tls_writer \<Rightarrow> 'acc \<Rightarrow> 'acc \<times> tls_writer"
    and loop :: "nat option \<Rightarrow> 'acc \<Rightarrow> (nat \<Rightarrow> writer_node) \<Rightarrow> ('acc \<times> (nat \<Rightarrow> writer_node)) option"
    and gain :: "tls_writer \<Rightarrow> 'acc \<Rightarrow> 'acc" and left :: "tls_writer \<Rightarrow> tls_writer"
  assumes loop_end: "loop None acc nodes = Some (acc, nodes)"
    and loop_next: "loop (Some a) acc nodes = (case visit (wn_writer (nodes a)) acc of
      (acc1, w) \<Rightarrow> loop (mp_next_writer (nodes a)) acc1 (nodes(a := (nodes a)\<lparr>wn_writer := w\<rparr>)))"
    and visit_parts: "visit w acc = (gain w acc, left w)"
begin

lemma walk:
  "seg nodes p cur xs q None \<Longrightarrow> distinct xs \<Longrightarrow>
   loop cur acc nodes = Some (fold (\<lambda>a. gain (wn_writer (nodes a))) xs acc, relink nodes xs left)"
proof (induction xs arbitrary: nodes p cur acc)
  case Nil
  have "relink nodes [] left = nodes" by (rule ext) (simp add: relink_def)
  with Nil show ?case by (simp add: loop_end)
next
  case (Cons a xs)
  define n1 where "n1 = nodes(a := (nodes a)\<lparr>wn_writer := left (wn_writer (nodes a))\<rparr>)"
  have a: "a \<notin> set xs" "distinct xs" "cur = Some a" "seg nodes (Some a) (mp_next_writer (nodes a)) xs q None"
    using Cons.prems by auto
  have "seg n1 (Some a) (mp_next_writer (nodes a)) xs q None" using a(1,4) by (subst seg_cong) (auto simp: n1_def)
  from Cons.IH [OF this a(2)] have "loop cur acc nodes =
    Some (fold (\<lambda>b. gain (wn_writer (n1 b))) xs (gain (wn_writer (nodes a)) acc), relink n1 xs left)"
    unfolding a(3) loop_next visit_parts n1_def by (simp del: fun_upd_apply)
  moreover have "fold (\<lambda>b. gain (wn_writer (n1 b))) xs z = fold (\<lambda>b. gain (wn_writer (nodes b))) xs z" for z
    using a(1) by (intro fold_cong) (auto simp: n1_def)
  moreover have "relink n1 xs left = relink nodes (a # xs) left" using a(1) by (auto simp: relink_def n1_def fun_eq_iff)
  ultimately show ?case by simp
qed

end

definition emptied :: "tls_writer \<Rightarrow> tls_writer" where
  "emptied w = w\<lparr>mo_fragments := [], mp_buffer := None, mz_buf_used := (if mp_buffer w = None then mz_buf_used w else 0)\<rparr>"

lemma drain_loop_eqs:
  "drain_loop None io nodes = Some (io, nodes)"
  "drain_loop (Some a) io nodes = (case pull (wn_writer (nodes a)) io of
     (io1, w) \<Rightarrow> drain_loop (mp_next_writer (nodes a)) io1 (nodes(a := (nodes a)\<lparr>wn_writer := w\<rparr>)))"
  by (subst drain_loop.simps, simp only: option.case)+

lemma poll_loop_eqs:
  "poll_loop None s nodes = Some (s, nodes)"
  "poll_loop (Some a) s nodes = (case pull_dropped (wn_writer (nodes a)) of
     (d, w) \<Rightarrow> poll_loop (mp_next_writer (nodes a)) (add_drops s d) (nodes(a := (nodes a)\<lparr>wn_writer := w\<rparr>)))"
  by (subst poll_loop.simps, simp only: option.case)+

lemma pull_parts: "pull w io = (io @ bufs w, emptied w)"
  by (simp add: pull_def bufs_def emptied_def split: option.split)

interpretation draining: writer_walk pull drain_loop "\<lambda>w io. io @ bufs w" emptied
  by unfold_locales (simp_all only: drain_loop_eqs pull_parts)

interpretation polling: writer_walk "\<lambda>w s. case pull_dropped w of (d, w') \<Rightarrow> (add_drops s d, w')" poll_loop
    "\<lambda>w s. add_drops s (fst (pull_dropped w))" "\<lambda>w. snd (pull_dropped w)"
  by unfold_locales (simp_all only: poll_loop_eqs case_prod_beta fst_conv snd_conv)

lemma fold_append: "fold (\<lambda>a io. io @ f a) xs io = io @ concat (map f xs)"
  by (induction xs arbitrary: io) auto

lemma seg_relink [simp]: "seg (relink nodes ys f) p cur xs q nx = seg nodes p cur xs q nx"
  by (rule seg_cong) (simp add: relink_def)

lemma wl_rep_relink [simp]: "wl_rep (wl\<lparr>wl_node := relink (wl_node wl) ys f\<rparr>) xs = wl_rep wl xs"
  by (simp add: wl_rep_def)

lemma wl_rep_writer: "wl_rep (wl\<lparr>wl_node := (wl_node wl)(a := (wl_node wl a)\<lparr>wn_writer := w\<rparr>)\<rparr>) xs = wl_rep wl xs"
proof -
  have "seg ((wl_node wl)(a := (wl_node wl a)\<lparr>wn_writer := w\<rparr>)) p cur xs q nx = seg (wl_node wl) p cur xs q nx" for p cur q nx
    by (rule seg_cong) simp
  then show ?thesis by (simp add: wl_rep_def del: fun_upd_apply)
qed

lemma drain_writers_rep:
  assumes "wl_rep wl xs" and "mb_initialized c"
  shows "drain_writers c io wl = Some (io @ concat (map (\<lambda>a. bufs (wn_writer (wl_node wl a))) xs),
    wl\<lparr>wl_node := relink (wl_node wl) xs emptied\<rparr>)"
proof -
  from assms(1) obtain q where "seg (wl_node wl) None (mp_writers_head wl) xs q None" "distinct xs"
    by (auto simp: wl_rep_def)
  from draining.walk [OF this] assms(2) show ?thesis by (simp add: drain_writers_def fold_append)
qed

lemma poll_dropped_stats_rep:
  assumes "wl_rep wl xs"
  shows "poll_dropped_stats c wl = Some
    (accumulate_dropped (fold (\<lambda>a s. add_drops s (fst (pull_dropped (wn_writer (wl_node wl a))))) xs no_drops) c,
     wl\<lparr>wl_node := relink (wl_node wl) xs (\<lambda>w. snd (pull_dropped w))\<rparr>)"
proof -
  from assms obtain q where "seg (wl_node wl) None (mp_writers_head wl) xs q None" "distinct xs"
    by (auto simp: wl_rep_def)
  from polling.walk [OF this] show ?thesis by (simp add: poll_dropped_stats_def)
qed

section \<open>Runs\<close>

text \<open>Writers come and go, and the worker takes what they have, in any order.\<close>

datatype writer_op = Attach nat u32 | Detach nat | Drain | Poll

type_synonym writers_state = "core \<times> addr list \<times> writer_list"

fun writer_step :: "writer_op \<Rightarrow> writers_state \<Rightarrow> (unit \<times> writers_state) option" where
  "writer_step (Attach a thread) (c, taken, wl) = Some ((), c, taken, writer_attach a thread wl)"
| "writer_step (Detach a) (c, taken, wl) =
     (case writer_detach a c wl of (c1, wl1) \<Rightarrow> Some ((), c1, taken, wl1))"
| "writer_step Drain (c, taken, wl) = do { (taken1, wl1) \<leftarrow> drain_writers c taken wl; Some ((), c, taken1, wl1) }"
| "writer_step Poll (c, taken, wl) = do { (c1, wl1) \<leftarrow> poll_dropped_stats c wl; Some ((), c1, taken, wl1) }"

text \<open>The same on a list of addresses; a writer is created once and destroyed once.\<close>

fun spec_writers :: "writer_op \<Rightarrow> nat list \<Rightarrow> nat list option" where
  "spec_writers (Attach a thread) xs = (if a \<in> set xs then None else Some (a # xs))"
| "spec_writers (Detach a) xs = (if a \<in> set xs then Some (remove1 a xs) else None)"
| "spec_writers Drain xs = Some xs"
| "spec_writers Poll xs = Some xs"

primrec spec_run :: "writer_op list \<Rightarrow> nat list \<Rightarrow> nat list option" where
  "spec_run [] xs = Some xs"
| "spec_run (op # ops) xs = do { xs1 \<leftarrow> spec_writers op xs; spec_run ops xs1 }"

definition total_drops :: "(s_p8_drop_stats \<Rightarrow> u64) \<Rightarrow> core \<Rightarrow> writer_list \<Rightarrow> nat list \<Rightarrow> u64" where
  "total_drops sel c wl xs = sel (co_dropped c) + sum_list (map (\<lambda>a. sel (wr_dropped (wn_writer (wl_node wl a)))) xs)"

definition total_bufs :: "core \<Rightarrow> addr list \<Rightarrow> writer_list \<Rightarrow> nat list \<Rightarrow> addr multiset" where
  "total_bufs c taken wl xs = mset taken + mset (mo_ready_queue c)
     + sum_list (map (\<lambda>a. mset (bufs (wn_writer (wl_node wl a)))) xs)"

definition ids_ok :: "writer_list \<Rightarrow> nat list \<Rightarrow> bool" where
  "ids_ok wl xs \<longleftrightarrow> distinct (map (\<lambda>a. mu_writer_id (wn_writer (wl_node wl a))) xs)
     \<and> (\<forall>a \<in> set xs. 0 < mu_writer_id (wn_writer (wl_node wl a))
          \<and> mu_writer_id (wn_writer (wl_node wl a)) \<le> mu_writers_seq wl)"

text \<open>What registering and unregistering leave of the nodes: everything but links, and the ID of
  the writer that is registered.\<close>

lemma register_nodes:
  "wn_writer (wl_node (register_writer a wl) b) =
     (if b = a then (wn_writer (wl_node wl a))\<lparr>mu_writer_id := mu_writers_seq wl + 1\<rparr> else wn_writer (wl_node wl b))"
  "mu_writers_seq (register_writer a wl) = mu_writers_seq wl + 1"
  by (simp_all add: register_writer_def Let_def split: option.split)

lemma unregister_nodes:
  "wn_writer (wl_node (unregister_writer a wl) b) = wn_writer (wl_node wl b)"
  "mu_writers_seq (unregister_writer a wl) = mu_writers_seq wl"
  by (simp_all add: unregister_writer_def Let_def split: option.split)

text \<open>A detached writer's buffers go to the ready queue.\<close>

lemma core_push_ready:
  assumes "core_push w c = (w', c')" and "mb_initialized c"
  shows "mo_ready_queue c' = mo_ready_queue c @ bufs w" and "mb_initialized c'" and "wr_dropped w' = wr_dropped w"
    and "co_dropped c' = co_dropped c" and "mu_writer_id w' = mu_writer_id w"
  using assms
  by (auto simp: core_push_def submit_chain_def submit_buffer_def bufs_def notify_def Let_def
      split: if_splits option.splits)

lemma attach_rep:
  assumes "wl_rep wl xs" and "a \<notin> set xs"
  shows "wl_rep (writer_attach a thread wl) (a # xs)"
    and "total_drops ds_logs c (writer_attach a thread wl) (a # xs) = total_drops ds_logs c wl xs"
    and "total_drops ds_metrics c (writer_attach a thread wl) (a # xs) = total_drops ds_metrics c wl xs"
    and "total_drops ds_traces c (writer_attach a thread wl) (a # xs) = total_drops ds_traces c wl xs"
    and "total_bufs c t (writer_attach a thread wl) (a # xs) = total_bufs c t wl xs"
proof -
  let ?wl = "wl\<lparr>wl_node := (wl_node wl)(a := (wl_node wl a)\<lparr>wn_writer := tls_writer_create True thread 0\<rparr>)\<rparr>"
  have "wl_rep ?wl xs" using assms by (simp only: wl_rep_writer)
  from register_rep [OF this assms(2)] show "wl_rep (writer_attach a thread wl) (a # xs)" by (simp add: writer_attach_def)
  let ?w = "(tls_writer_create True thread 0)\<lparr>mu_writer_id := mu_writers_seq wl + 1\<rparr>"
  have new: "map (\<lambda>b. f (wn_writer (wl_node (writer_attach a thread wl) b))) (a # xs)
    = f ?w # map (\<lambda>b. f (wn_writer (wl_node wl b))) xs" for f :: "tls_writer \<Rightarrow> 'x"
    using assms(2) by (auto simp: writer_attach_def register_nodes)
  show "total_drops ds_logs c (writer_attach a thread wl) (a # xs) = total_drops ds_logs c wl xs"
    "total_drops ds_metrics c (writer_attach a thread wl) (a # xs) = total_drops ds_metrics c wl xs"
    "total_drops ds_traces c (writer_attach a thread wl) (a # xs) = total_drops ds_traces c wl xs"
    unfolding total_drops_def new [of "\<lambda>w. ds_logs (wr_dropped w)"] new [of "\<lambda>w. ds_metrics (wr_dropped w)"]
      new [of "\<lambda>w. ds_traces (wr_dropped w)"] by (simp_all add: tls_writer_create_def no_drops_def)
  show "total_bufs c t (writer_attach a thread wl) (a # xs) = total_bufs c t wl xs"
    unfolding total_bufs_def new [of "\<lambda>w. mset (bufs w)"] by (simp add: tls_writer_create_def bufs_def)
qed

text \<open>Steps that change the writers of some list in place, or take one away.\<close>

lemma map_remove1_sum:
  fixes f :: "nat \<Rightarrow> 'x::comm_monoid_add"
  assumes "a \<in> set xs" shows "sum_list (map f xs) = f a + sum_list (map f (remove1 a xs))"
  using assms by (induction xs) (auto simp: add.left_commute)

lemma detach_rep:
  assumes r: "wl_rep wl xs" and a: "a \<in> set xs" and i: "mb_initialized c" and d: "writer_detach a c wl = (c', wl')"
  shows "wl_rep wl' (remove1 a xs)" and "mb_initialized c'" and "mu_writers_seq wl' = mu_writers_seq wl"
    and "total_drops ds_logs c' wl' (remove1 a xs) = total_drops ds_logs c wl xs"
    and "total_drops ds_metrics c' wl' (remove1 a xs) = total_drops ds_metrics c wl xs"
    and "total_drops ds_traces c' wl' (remove1 a xs) = total_drops ds_traces c wl xs"
    and "total_bufs c' t wl' (remove1 a xs) = total_bufs c t wl xs"
    and "\<And>b. mu_writer_id (wn_writer (wl_node wl' b)) = mu_writer_id (wn_writer (wl_node wl b))"
proof -
  obtain w1 c1 where p: "core_push (wn_writer (wl_node wl a)) c = (w1, c1)" by fastforce
  note cp = core_push_ready [OF p i]
  define w2 where "w2 = (snd (pull_dropped w1))\<lparr>mp_core := False\<rparr>"
  define wl1 where "wl1 = wl\<lparr>wl_node := (wl_node wl)(a := (wl_node wl a)\<lparr>wn_writer := w2\<rparr>)\<rparr>"
  have c': "c' = accumulate_dropped (fst (pull_dropped w1)) c1" and wl': "wl' = unregister_writer a wl1"
    using d p by (auto simp: writer_detach_def w2_def wl1_def split: prod.splits)
  have r1: "wl_rep wl1 xs" using r by (simp only: wl_rep_writer wl1_def)
  from unregister_rep [OF r1 a] show "wl_rep wl' (remove1 a xs)" by (simp add: wl')
  show "mb_initialized c'" "mu_writers_seq wl' = mu_writers_seq wl"
    using cp(2) by (simp_all add: c' wl' wl1_def unregister_nodes accumulate_dropped_def)
  show "mu_writer_id (wn_writer (wl_node wl' b)) = mu_writer_id (wn_writer (wl_node wl b))" for b
    using cp(5) by (simp add: wl' unregister_nodes wl1_def w2_def pull_dropped_def)
  have n: "a \<notin> set (remove1 a xs)" using r by (simp add: wl_rep_def)
  have rest: "map (\<lambda>b. f (wn_writer (wl_node wl' b))) (remove1 a xs) = map (\<lambda>b. f (wn_writer (wl_node wl b))) (remove1 a xs)"
    for f :: "tls_writer \<Rightarrow> 'x" using n by (auto simp: wl' unregister_nodes wl1_def)
  note s = map_remove1_sum [OF a]
  show "total_drops ds_logs c' wl' (remove1 a xs) = total_drops ds_logs c wl xs"
    "total_drops ds_metrics c' wl' (remove1 a xs) = total_drops ds_metrics c wl xs"
    "total_drops ds_traces c' wl' (remove1 a xs) = total_drops ds_traces c wl xs"
    unfolding total_drops_def rest [of "\<lambda>w. ds_logs (wr_dropped w)"] rest [of "\<lambda>w. ds_metrics (wr_dropped w)"]
      rest [of "\<lambda>w. ds_traces (wr_dropped w)"] s
    by (simp_all add: c' accumulate_dropped_def pull_dropped_def cp(3,4))
  show "total_bufs c' t wl' (remove1 a xs) = total_bufs c t wl xs"
    unfolding total_bufs_def rest [of "\<lambda>w. mset (bufs w)"] s by (simp add: c' accumulate_dropped_def cp(1))
qed

lemma map_relink: "map (\<lambda>a. f (wn_writer (relink nodes xs g a))) xs = map (\<lambda>a. f (g (wn_writer (nodes a)))) xs"
  by (simp add: relink_def)

lemma emptied_parts [simp]: "bufs (emptied w) = []" "wr_dropped (emptied w) = wr_dropped w" "mu_writer_id (emptied w) = mu_writer_id w"
  by (simp_all add: emptied_def bufs_def)

lemma pull_dropped_bufs: "bufs (snd (pull_dropped w)) = bufs w"
  by (simp add: pull_dropped_def bufs_def)

lemma sum_adds:
  "ds_logs (fold (\<lambda>a s. add_drops s (f a)) xs s) = ds_logs s + sum_list (map (\<lambda>a. ds_logs (f a)) xs)"
  "ds_metrics (fold (\<lambda>a s. add_drops s (f a)) xs s) = ds_metrics s + sum_list (map (\<lambda>a. ds_metrics (f a)) xs)"
  "ds_traces (fold (\<lambda>a s. add_drops s (f a)) xs s) = ds_traces s + sum_list (map (\<lambda>a. ds_traces (f a)) xs)"
  by (induction xs arbitrary: s) (simp_all add: add_drops_def add.assoc)

lemma sum_zeros: "sum_list (map (\<lambda>a. 0) xs) = (0 :: 'x::monoid_add)"
  by (induction xs) auto

definition all_drops :: "core \<Rightarrow> writer_list \<Rightarrow> nat list \<Rightarrow> u64 \<times> u64 \<times> u64" where
  "all_drops c wl xs = (total_drops ds_logs c wl xs, total_drops ds_metrics c wl xs, total_drops ds_traces c wl xs)"

lemma drain_totals:
  assumes "wl_rep wl xs" and "mb_initialized c" and "drain_writers c t wl = Some (t', wl')"
  shows "wl_rep wl' xs" and "all_drops c wl' xs = all_drops c wl xs" and "total_bufs c t' wl' xs = total_bufs c t wl xs"
    and "mu_writers_seq wl' = mu_writers_seq wl"
    and "\<And>b. mu_writer_id (wn_writer (wl_node wl' b)) = mu_writer_id (wn_writer (wl_node wl b))"
proof -
  from assms drain_writers_rep [OF assms(1,2)] have t': "t' = t @ concat (map (\<lambda>a. bufs (wn_writer (wl_node wl a))) xs)"
    and wl': "wl' = wl\<lparr>wl_node := relink (wl_node wl) xs emptied\<rparr>" by simp_all
  show "wl_rep wl' xs" using assms(1) by (simp add: wl')
  show "mu_writers_seq wl' = mu_writers_seq wl" by (simp add: wl')
  show "mu_writer_id (wn_writer (wl_node wl' b)) = mu_writer_id (wn_writer (wl_node wl b))" for b
    by (simp add: wl' relink_def)
  show "all_drops c wl' xs = all_drops c wl xs"
    by (simp add: all_drops_def total_drops_def wl' map_relink [where f = "\<lambda>w. ds_logs (wr_dropped w)"]
        map_relink [where f = "\<lambda>w. ds_metrics (wr_dropped w)"] map_relink [where f = "\<lambda>w. ds_traces (wr_dropped w)"])
  show "total_bufs c t' wl' xs = total_bufs c t wl xs"
    by (simp add: total_bufs_def wl' t' map_relink [where f = "\<lambda>w. mset (bufs w)"] sum_zeros mset_concat comp_def)
qed

lemma poll_totals:
  assumes "wl_rep wl xs" and "poll_dropped_stats c wl = Some (c', wl')"
  shows "wl_rep wl' xs" and "mb_initialized c' = mb_initialized c" and "all_drops c' wl' xs = all_drops c wl xs"
    and "total_bufs c' t wl' xs = total_bufs c t wl xs" and "mu_writers_seq wl' = mu_writers_seq wl"
    and "\<And>b. mu_writer_id (wn_writer (wl_node wl' b)) = mu_writer_id (wn_writer (wl_node wl b))"
proof -
  from assms(2) poll_dropped_stats_rep [OF assms(1), of c]
  have c': "c' = accumulate_dropped (fold (\<lambda>a s. add_drops s (fst (pull_dropped (wn_writer (wl_node wl a))))) xs no_drops) c"
    and wl': "wl' = wl\<lparr>wl_node := relink (wl_node wl) xs (\<lambda>w. snd (pull_dropped w))\<rparr>" by simp_all
  show "wl_rep wl' xs" using assms(1) by (simp add: wl')
  show "mu_writers_seq wl' = mu_writers_seq wl" by (simp add: wl')
  show "mb_initialized c' = mb_initialized c" by (simp add: c' accumulate_dropped_def)
  show "mu_writer_id (wn_writer (wl_node wl' b)) = mu_writer_id (wn_writer (wl_node wl b))" for b
    by (simp add: wl' relink_def pull_dropped_def)
  show "all_drops c' wl' xs = all_drops c wl xs"
    by (simp add: all_drops_def total_drops_def wl' map_relink [where f = "\<lambda>w. ds_logs (wr_dropped w)"]
        map_relink [where f = "\<lambda>w. ds_metrics (wr_dropped w)"] map_relink [where f = "\<lambda>w. ds_traces (wr_dropped w)"]
        c' accumulate_dropped_def sum_adds no_drops_def pull_dropped_def sum_zeros)
  show "total_bufs c' t wl' xs = total_bufs c t wl xs"
    by (simp add: total_bufs_def wl' map_relink [where f = "\<lambda>w. mset (bufs w)"] c' accumulate_dropped_def pull_dropped_bufs)
qed

text \<open>One step, and a run.\<close>

lemma writer_step_rep:
  assumes "wl_rep wl xs" and "mb_initialized c" and "spec_writers op xs = Some xs'"
  obtains c' t' wl' where "writer_step op (c, t, wl) = Some ((), c', t', wl')" and "wl_rep wl' xs'" and "mb_initialized c'"
    and "all_drops c' wl' xs' = all_drops c wl xs" and "total_bufs c' t' wl' xs' = total_bufs c t wl xs"
proof (cases op)
  case (Attach a thread)
  with assms have "a \<notin> set xs" "xs' = a # xs" by (auto split: if_splits)
  with attach_rep [OF assms(1) this(1)] Attach assms(2) that show ?thesis by (simp add: all_drops_def)
next
  case (Detach a)
  with assms have a: "a \<in> set xs" "xs' = remove1 a xs" by (auto split: if_splits)
  obtain c' wl' where d: "writer_detach a c wl = (c', wl')" by fastforce
  from detach_rep [OF assms(1) a(1) assms(2) d] Detach a(2) d that show ?thesis by (simp add: all_drops_def)
next
  case Drain
  obtain t' wl' where d: "drain_writers c t wl = Some (t', wl')" using drain_writers_rep [OF assms(1,2)] by blast
  from drain_totals [OF assms(1,2) d] Drain d assms that show ?thesis by simp
next
  case Poll
  obtain c' wl' where d: "poll_dropped_stats c wl = Some (c', wl')" using poll_dropped_stats_rep [OF assms(1)] by blast
  from poll_totals [OF assms(1) d] Poll d assms that show ?thesis by simp
qed

lemma writer_run_rep:
  "wl_rep wl xs \<Longrightarrow> mb_initialized c \<Longrightarrow> spec_run ops xs = Some xs' \<Longrightarrow>
   \<exists>us c' t' wl'. run_ops writer_step ops (c, t, wl) = Some (us, c', t', wl') \<and> wl_rep wl' xs' \<and> mb_initialized c'
     \<and> all_drops c' wl' xs' = all_drops c wl xs \<and> total_bufs c' t' wl' xs' = total_bufs c t wl xs"
proof (induction ops arbitrary: xs c t wl)
  case Nil
  then show ?case by simp
next
  case (Cons op ops)
  then obtain xs1 where x: "spec_writers op xs = Some xs1" "spec_run ops xs1 = Some xs'" by (auto split: bind_splits)
  obtain c1 t1 wl1 where s: "writer_step op (c, t, wl) = Some ((), c1, t1, wl1)" "wl_rep wl1 xs1" "mb_initialized c1"
    "all_drops c1 wl1 xs1 = all_drops c wl xs" "total_bufs c1 t1 wl1 xs1 = total_bufs c t wl xs"
    by (rule writer_step_rep [OF Cons.prems(1,2) x(1)])
  from Cons.IH [OF s(2,3) x(2), of t1] obtain us c' t' wl' where
    "run_ops writer_step ops (c1, t1, wl1) = Some (us, c', t', wl')" "wl_rep wl' xs'" "mb_initialized c'"
    "all_drops c' wl' xs' = all_drops c1 wl1 xs1" "total_bufs c' t' wl' xs' = total_bufs c1 t1 wl1 xs1" by blast
  with s(1,4,5) show ?case by auto
qed

section \<open>Writer IDs\<close>

lemma ids_ok_same:
  assumes "\<And>b. mu_writer_id (wn_writer (wl_node wl' b)) = mu_writer_id (wn_writer (wl_node wl b))"
    and "mu_writers_seq wl' = mu_writers_seq wl" and "ids_ok wl xs"
  shows "ids_ok wl' xs"
  using assms by (simp add: ids_ok_def)

lemma ids_ok_remove1: "ids_ok wl xs \<Longrightarrow> ids_ok wl (remove1 a xs)"
  unfolding ids_ok_def by (induction xs) (auto dest: notin_set_remove1 set_remove1_subset [THEN subsetD])

lemma writer_step_ids:
  assumes r: "wl_rep wl xs" "mb_initialized c" "spec_writers op xs = Some xs'"
    and s: "writer_step op (c, t, wl) = Some (u, c', t', wl')"
    and i: "ids_ok wl xs" and n: "unat (mu_writers_seq wl) + 1 < 2 ^ 32"
  shows "ids_ok wl' xs' \<and> unat (mu_writers_seq wl') \<le> unat (mu_writers_seq wl) + 1"
proof (cases op)
  case (Attach a thread)
  have a: "a \<notin> set xs" "xs' = a # xs" using r Attach by (auto split: if_splits)
  have wl': "wl' = writer_attach a thread wl" using s Attach by simp
  have id: "mu_writer_id (wn_writer (wl_node wl' b)) = (if b = a then mu_writers_seq wl + 1 else mu_writer_id (wn_writer (wl_node wl b)))" for b
    by (simp add: wl' writer_attach_def register_nodes)
  have sq: "mu_writers_seq wl' = mu_writers_seq wl + 1" by (simp add: wl' writer_attach_def register_nodes)
  have sn: "unat (mu_writers_seq wl + 1) = unat (mu_writers_seq wl) + 1" using n by (simp add: unat_word_ariths)
  then have up: "mu_writers_seq wl < mu_writers_seq wl + 1" by (simp add: word_less_nat_alt)
  have new: "mu_writers_seq wl + 1 \<notin> (\<lambda>b. mu_writer_id (wn_writer (wl_node wl b))) ` set xs"
    using i up by (auto simp: ids_ok_def)
  have same: "map (\<lambda>b. mu_writer_id (wn_writer (wl_node wl' b))) xs = map (\<lambda>b. mu_writer_id (wn_writer (wl_node wl b))) xs"
    using a(1) by (auto simp: id)
  have "mu_writer_id (wn_writer (wl_node wl' a)) = mu_writers_seq wl + 1" by (simp add: id)
  then have "distinct (map (\<lambda>b. mu_writer_id (wn_writer (wl_node wl' b))) (a # xs))"
    using i new unfolding ids_ok_def list.map same by simp
  moreover have "0 < mu_writer_id (wn_writer (wl_node wl' b)) \<and> mu_writer_id (wn_writer (wl_node wl' b)) \<le> mu_writers_seq wl'"
    if "b \<in> set (a # xs)" for b
    using that i up sn unfolding id sq ids_ok_def by (auto simp: word_less_nat_alt word_le_nat_alt)
  ultimately show ?thesis unfolding ids_ok_def a(2) using sn by (simp only: sq) blast
next
  case (Detach a)
  then have a: "a \<in> set xs" "xs' = remove1 a xs" using r by (auto split: if_splits)
  obtain c1 wl1 where d: "writer_detach a c wl = (c1, wl1)" by fastforce
  note f = detach_rep [OF r(1) a(1) r(2) d]
  from s Detach d have "wl' = wl1" by simp
  with ids_ok_same [OF f(8,3) ids_ok_remove1 [OF i]] f(3) a(2) show ?thesis by simp
next
  case Drain
  with s obtain d: "drain_writers c t wl = Some (t', wl')" by (auto split: bind_splits)
  note f = drain_totals [OF r(1,2) d]
  from ids_ok_same [OF f(5,4) i] f(4) Drain r(3) show ?thesis by simp
next
  case Poll
  with s obtain c1 where d: "poll_dropped_stats c wl = Some (c1, wl')" by (auto split: bind_splits)
  note f = poll_totals [OF r(1) d]
  from ids_ok_same [OF f(6,5) i] f(5) Poll r(3) show ?thesis by simp
qed

lemma writer_run_ids:
  "wl_rep wl xs \<Longrightarrow> mb_initialized c \<Longrightarrow> spec_run ops xs = Some xs' \<Longrightarrow> ids_ok wl xs \<Longrightarrow>
   unat (mu_writers_seq wl) + length ops < 2 ^ 32 \<Longrightarrow>
   run_ops writer_step ops (c, t, wl) = Some (us, c', t', wl') \<Longrightarrow> ids_ok wl' xs'"
proof (induction ops arbitrary: xs c t wl us)
  case Nil
  then show ?case by simp
next
  case (Cons op ops)
  from Cons.prems(3) obtain xs1 where x: "spec_writers op xs = Some xs1" "spec_run ops xs1 = Some xs'" by (auto split: bind_splits)
  obtain c1 t1 wl1 where s: "writer_step op (c, t, wl) = Some ((), c1, t1, wl1)" "wl_rep wl1 xs1" "mb_initialized c1"
    by (rule writer_step_rep [OF Cons.prems(1,2) x(1)])
  have "unat (mu_writers_seq wl) + 1 < 2 ^ 32" using Cons.prems(5) by simp
  note i = writer_step_ids [OF Cons.prems(1,2) x(1) s(1) Cons.prems(4) this]
  from Cons.prems(6) s(1) obtain vs where "run_ops writer_step ops (c1, t1, wl1) = Some (vs, c', t', wl')"
    by (auto split: bind_splits)
  moreover have "unat (mu_writers_seq wl1) + length ops < 2 ^ 32" using i Cons.prems(5) by simp
  ultimately show ?case using Cons.IH [OF s(2,3) x(2)] i by blast
qed

section \<open>Properties\<close>

text \<open>The registry of a core that has just been made.\<close>

definition writers_new :: writer_list where
  "writers_new = \<lparr>mp_writers_head = None, mz_writers_count = 0, mu_writers_seq = 0,
     wl_node = (\<lambda>_. \<lparr>mp_prev_writer = None, mp_next_writer = None, wn_writer = tls_writer_create False 0 0\<rparr>)\<rparr>"

lemma writers_new_ok: "wl_rep writers_new []" "ids_ok writers_new []" "mu_writers_seq writers_new = 0"
  by (simp_all add: wl_rep_def writers_new_def ids_ok_def)

lemma seg_determined: "seg nodes p cur xs q None \<Longrightarrow> seg nodes p cur ys q' None \<Longrightarrow> xs = ys"
  by (induction xs arbitrary: p cur ys) (case_tac ys; force)+

lemma wl_rep_determined: "wl_rep wl xs \<Longrightarrow> wl_rep wl ys \<Longrightarrow> ys = xs"
  unfolding wl_rep_def using seg_determined by blast

text \<open>C12 The doubly linked list of writers refines a list of addresses: whatever writers come and
  go and however often the worker walks the list, every operation returns, a registered writer
  is at the front, a writer that unregisters is gone wherever it stood, and the links in both
  directions, the end markers and the count are those of the list.\<close>
theorem writers_refine_list:
  assumes "wl_rep wl xs" and "mb_initialized c" and "spec_run ops xs = Some xs'"
  shows "\<exists>us c' t' wl'. run_ops writer_step ops (c, t, wl) = Some (us, c', t', wl') \<and> wl_rep wl' xs'
    \<and> (\<forall>ys. wl_rep wl' ys \<longrightarrow> ys = xs')"
  using writer_run_rep [OF assms, of t] wl_rep_determined by fast

theorem writers_refine_list_witness:
  "\<exists>us c' t' wl'. run_ops writer_step [Attach 1 7, Attach 2 8, Drain, Attach 3 9, Detach 2, Poll]
     (core_new (pool_create 8192 None (\<lambda>_. True)), [], writers_new) = Some (us, c', t', wl') \<and> wl_rep wl' [3, 1]
     \<and> (\<forall>ys. wl_rep wl' ys \<longrightarrow> ys = [3, 1])"
  by (rule writers_refine_list [OF writers_new_ok(1)]) (simp_all add: core_new_def)

text \<open>C33 Nothing a writer has is lost or counted twice while writers come and go and the worker
  polls and drains: the drops of each kind in the core's totals and in the writers' own counters
  sum to the same (as 64-bit counters), and the buffers in the worker's hands, in the ready
  queue and with the writers are the same buffers.\<close>
theorem writers_conserve:
  assumes "wl_rep wl xs" and "mb_initialized c" and "spec_run ops xs = Some xs'"
    and "run_ops writer_step ops (c, t, wl) = Some (us, c', t', wl')"
  shows "total_drops ds_logs c' wl' xs' = total_drops ds_logs c wl xs
    \<and> total_drops ds_metrics c' wl' xs' = total_drops ds_metrics c wl xs
    \<and> total_drops ds_traces c' wl' xs' = total_drops ds_traces c wl xs
    \<and> total_bufs c' t' wl' xs' = total_bufs c t wl xs"
  using writer_run_rep [OF assms(1-3), of t] assms(4) by (auto simp: all_drops_def)

definition one_writer :: writer_list where
  "one_writer = \<lparr>mp_writers_head = Some 1, mz_writers_count = 1, mu_writers_seq = 1,
     wl_node = (\<lambda>_. \<lparr>mp_prev_writer = None, mp_next_writer = None,
       wn_writer = (tls_writer_create True 7 1)\<lparr>mo_fragments := [4], mp_buffer := Some 5,
         wr_dropped := \<lparr>ds_logs = 3, ds_metrics = 0, ds_traces = 2, ds_svc = 0\<rparr>\<rparr>\<rparr>)\<rparr>"

lemma one_writer_rep: "wl_rep one_writer [1]"
  by (simp add: wl_rep_def one_writer_def)

theorem writers_conserve_witness:
  "\<exists>us c' t' wl'. run_ops writer_step [Attach 2 8, Detach 1, Poll]
     (core_new (pool_create 8192 None (\<lambda>_. True)), [], one_writer) = Some (us, c', t', wl')
     \<and> total_drops ds_logs c' wl' [2] = 3 \<and> total_bufs c' t' wl' [2] = {#4, 5#}"
proof -
  let ?c = "core_new (pool_create 8192 None (\<lambda>_. True))" and ?ops = "[Attach 2 8, Detach 1, Poll]"
  have i: "mb_initialized ?c" and s: "spec_run ?ops [1] = Some [2]" by (simp_all add: core_new_def)
  obtain us c' t' wl' where r: "run_ops writer_step ?ops (?c, [], one_writer) = Some (us, c', t', wl')"
    using writer_run_rep [OF one_writer_rep i s] by blast
  have d: "total_drops ds_logs ?c one_writer [1] = 3" "total_bufs ?c [] one_writer [1] = {#4, 5#}"
    by (simp_all add: total_drops_def total_bufs_def core_new_def one_writer_def bufs_def)
  from writers_conserve [OF one_writer_rep i s r, unfolded d] r show ?thesis by blast
qed

text \<open>A drain takes every buffer of every registered writer, the writers in the order of the
  list and the buffers of each in the order it filled them, behind what was collected before;
  it returns, leaves each writer without buffers and with everything else as it was, and does
  not touch a writer that is not registered.\<close>
lemma drain_takes_all:
  assumes "wl_rep wl xs" and "mb_initialized c"
  shows "\<exists>wl'. drain_writers c io_data wl = Some (io_data @ concat (map (\<lambda>a. bufs (wn_writer (wl_node wl a))) xs), wl')
    \<and> wl_rep wl' xs \<and> (\<forall>a \<in> set xs. bufs (wn_writer (wl_node wl' a)) = []
        \<and> mu_buf_seq (wn_writer (wl_node wl' a)) = mu_buf_seq (wn_writer (wl_node wl a))
        \<and> mu_writer_id (wn_writer (wl_node wl' a)) = mu_writer_id (wn_writer (wl_node wl a))
        \<and> mo_attr_cache (wn_writer (wl_node wl' a)) = mo_attr_cache (wn_writer (wl_node wl a))
        \<and> wr_dropped (wn_writer (wl_node wl' a)) = wr_dropped (wn_writer (wl_node wl a)))
    \<and> (\<forall>a. a \<notin> set xs \<longrightarrow> wl_node wl' a = wl_node wl a)"
  using drain_writers_rep [OF assms, of io_data] assms(1)
  by (intro exI [of _ "wl\<lparr>wl_node := relink (wl_node wl) xs emptied\<rparr>"]) (auto simp: relink_def emptied_def bufs_def)

text \<open>Writer IDs identify writers: as long as fewer than 2^32 registry operations have run
  since the core was made, the IDs of the registered writers are distinct and none is 0, the
  number of a writer without a core.\<close>
theorem writer_ids_distinct:
  assumes "mb_initialized c" and "spec_run ops [] = Some xs" and "length ops < 2 ^ 32"
    and "run_ops writer_step ops (c, t, writers_new) = Some (us, c', t', wl')"
  shows "distinct (map (\<lambda>a. mu_writer_id (wn_writer (wl_node wl' a))) xs)
    \<and> 0 \<notin> (\<lambda>a. mu_writer_id (wn_writer (wl_node wl' a))) ` set xs"
  using writer_run_ids [OF writers_new_ok(1) assms(1,2) writers_new_ok(2) _ assms(4)] assms(3)
  by (auto simp: writers_new_ok(3) ids_ok_def)

theorem writer_ids_distinct_witness:
  "\<exists>us c' t' wl'. run_ops writer_step [Attach 1 7, Attach 2 7, Detach 1, Attach 1 7]
     (core_new (pool_create 8192 None (\<lambda>_. True)), [], writers_new) = Some (us, c', t', wl')
     \<and> mu_writer_id (wn_writer (wl_node wl' 1)) \<noteq> mu_writer_id (wn_writer (wl_node wl' 2))"
proof -
  let ?c = "core_new (pool_create 8192 None (\<lambda>_. True))" and ?ops = "[Attach 1 7, Attach 2 7, Detach 1, Attach 1 7]"
  have i: "mb_initialized ?c" and s: "spec_run ?ops [] = Some [1, 2]" by (simp_all add: core_new_def)
  obtain us c' t' wl' where r: "run_ops writer_step ?ops (?c, [], writers_new) = Some (us, c', t', wl')"
    using writer_run_rep [OF writers_new_ok(1) i s] by blast
  from writer_ids_distinct [OF i s _ r] r show ?thesis by simp
qed

end
