(* ===== verification/P8_Worker.thy ===== *)
theory P8_Worker
  imports P8_Writers P8_Sink P8_Registry
begin

text \<open>
  The worker thread of the core (engine/p8_core.cpp): each cycle collects the buffers of all
  writers and of the ready queue (\<open>collect_batch\<close>), takes and sends the service buffers, recycles
  them, polls the drop counters at its cadence, and sends the batch (\<open>flush_ready\<close>); the loop ends
  with the cycle that sees the stop signal (\<open>worker_main\<close>).

  The sink is the interface of engine/p8_sink.hpp: a record of its operations. \<open>P8_Sink\<close> has the
  file sink and the null sink; \<open>rec_ops\<close> here is a sink that remembers the calls, which is what
  the properties speak of.

  Other threads act between the worker's critical sections: \<open>env\<close>, a function of the moment and
  of the state. The fields that only the worker's thread touches are out of their reach. The locale
  \<open>engine_env\<close> says what the worker relies on, and is discharged for the registration calls
  and for writers that come and go.
\<close>

section \<open>What the worker uses\<close>

abbreviation (input) P8_CORE_STATS_POLL_INTERVAL_MS :: u64 where "P8_CORE_STATS_POLL_INTERVAL_MS \<equiv> 250"

record 's sink_ops =
  sk_write_data :: "s_p8_batch \<Rightarrow> mem \<Rightarrow> addr list \<Rightarrow> 's \<Rightarrow> bool \<times> 's"
  sk_write_service :: "mem \<Rightarrow> s_p8_svc_buf list \<Rightarrow> 's \<Rightarrow> bool \<times> 's"
  sk_flush :: "'s \<Rightarrow> 's"

type_synonym engine = "core \<times> writer_list"

type_synonym engine_interference = "nat \<Rightarrow> engine \<Rightarrow> engine"

text \<open>Other threads' turn: what the worker alone reads and writes stays.\<close>

definition meanwhile :: "engine_interference \<Rightarrow> engine \<Rightarrow> engine" where
  "meanwhile env e = (case e of (c, wl) \<Rightarrow> case env (co_moment c) (c, wl) of (c', wl') \<Rightarrow>
     (c'\<lparr>mu_batch_margin_ticks := mu_batch_margin_ticks c, mu_batch_tail_ticks := mu_batch_tail_ticks c,
         mu_batch_idle_ticks := mu_batch_idle_ticks c, mu_batch_last_ts := mu_batch_last_ts c,
         mb_batch_with_data := mb_batch_with_data c, mu_batch_index := mu_batch_index c,
         co_moment := Suc (co_moment c)\<rparr>, wl'))"

section \<open>One cycle\<close>

definition batch_ts :: "core \<Rightarrow> u64 \<Rightarrow> u64" where
  "batch_ts c lu_now = (if lu_now > mu_batch_margin_ticks c then lu_now - mu_batch_margin_ticks c else 0)"

definition collect_batch ::
    "engine_interference \<Rightarrow> u64 \<Rightarrow> addr list \<Rightarrow> engine \<Rightarrow> (u64 \<times> addr list \<times> engine) option" where
  "collect_batch env lu_now io_data e = (case e of (c, wl) \<Rightarrow> do {
     let lu_ts = batch_ts c lu_now;
     (io_data1, wl1) \<leftarrow> drain_writers c io_data wl;
     let (c2, wl2) = meanwhile env (c, wl1);
     let io_data2 = io_data1 @ mo_ready_queue c2;
     Some (lu_ts, io_data2, (c2\<lparr>mo_ready_queue := []\<rparr>, wl2))
   })"

text \<open>The service buffers, taken under the service lock; the history variable records their bytes.\<close>

definition take_svc :: "core \<Rightarrow> s_p8_svc_buf list \<times> core" where
  "take_svc c = (mo_svc_buffers c, c\<lparr>mo_svc_buffers := [],
     co_svc_sent := co_svc_sent c @ svc_bytes (co_mem c) (mo_svc_buffers c)\<rparr>)"

definition recycle_svc :: "s_p8_svc_buf list \<Rightarrow> core \<Rightarrow> core" where
  "recycle_svc lo_bufs c = fold (\<lambda>ir_pair. release_buffer (Some (sb_buf ir_pair))) lo_bufs c"

definition due_wait :: "core \<Rightarrow> u64" where
  "due_wait c = (if mb_batch_with_data c then mu_batch_tail_ticks c else mu_batch_idle_ticks c)"

definition batch_due :: "core \<Rightarrow> addr list \<Rightarrow> u64 \<Rightarrow> bool" where
  "batch_due c io_ready iu_ts \<longleftrightarrow> \<not> (length io_ready = 0 \<and> iu_ts - mu_batch_last_ts c < due_wait c)"

definition next_batch :: "core \<Rightarrow> addr list \<Rightarrow> u64 \<Rightarrow> s_p8_batch" where
  "next_batch c io_ready iu_ts = \<lparr>bat_packet_type = P8_PACKET_BATCH, bat_padding = 0,
     bat_batch = mu_batch_index c, bat_count = word_of_nat (length io_ready), bat_timestamp = iu_ts\<rparr>"

text \<open>The first component is what is left in the caller's list: \<open>release_buffers\<close> empties it.\<close>

definition flush_ready ::
    "'s sink_ops \<Rightarrow> addr list \<Rightarrow> u64 \<Rightarrow> core \<Rightarrow> 's \<Rightarrow> addr list \<times> core \<times> 's" where
  "flush_ready ops io_ready iu_ts c s =
     (if \<not> batch_due c io_ready iu_ts then (io_ready, c, s)
      else
        (let lo_batch = next_batch c io_ready iu_ts;
             c1 = c\<lparr>mu_batch_index := mu_batch_index c + 1, mu_batch_last_ts := bat_timestamp lo_batch,
                    mb_batch_with_data := bat_count lo_batch > 0\<rparr>;
             s1 = snd (sk_write_data ops lo_batch (co_mem c1) io_ready s)
         in (if mb_initialized c1 then [] else io_ready, release_buffers io_ready c1, s1)))"

text \<open>What the outside gives a cycle: the batch clock, the clock of the statistics, and whether
  the event's signal was the stop signal.\<close>

record worker_in =
  wi_ticks :: u64
  wi_hires_ticks :: u64
  wi_stop :: bool

definition stats_poll_ticks :: "u64 \<Rightarrow> u64 \<Rightarrow> u64" where
  "stats_poll_ticks lu_stats_numer lu_stats_denom =
     (if lu_stats_numer \<noteq> 0 then P8_CORE_STATS_POLL_INTERVAL_MS * 1000000 * lu_stats_denom div lu_stats_numer else 0)"

definition poll_cadence :: "u64 \<Rightarrow> u64 \<Rightarrow> u64 \<Rightarrow> engine \<Rightarrow> (u64 \<times> engine) option" where
  "poll_cadence lu_stats_poll_ticks lu_stats_last_ticks lu_now_ticks e =
     (if lu_stats_poll_ticks \<noteq> 0 \<and> lu_now_ticks - lu_stats_last_ticks \<ge> lu_stats_poll_ticks
      then do { e1 \<leftarrow> poll_dropped_stats (fst e) (snd e); Some (lu_now_ticks, e1) }
      else Some (lu_stats_last_ticks, e))"

definition worker_cycle :: "engine_interference \<Rightarrow> 's sink_ops \<Rightarrow> u64 \<Rightarrow> worker_in \<Rightarrow>
    addr list \<times> u64 \<Rightarrow> engine \<Rightarrow> 's \<Rightarrow> ((addr list \<times> u64) \<times> engine \<times> 's) option" where
  "worker_cycle env ops lu_stats_poll_ticks i locals e s = do {
     let (lo_ready, lu_stats_last_ticks) = locals;
     (lu_ts, lo_ready1, e1) \<leftarrow> collect_batch env (wi_ticks i) lo_ready e;
     let (c2, wl2) = meanwhile env e1;
     let (lo_bufs, c3) = take_svc c2;
     let s1 = (if length lo_bufs > 0 then snd (sk_write_service ops (co_mem c3) lo_bufs s) else s);
     let c4 = recycle_svc lo_bufs c3;
     (lu_stats_last_ticks1, c5, wl5) \<leftarrow>
       poll_cadence lu_stats_poll_ticks lu_stats_last_ticks (wi_hires_ticks i) (c4, wl2);
     let (c6, wl6) = meanwhile env (c5\<lparr>mb_wake_pending := False\<rparr>, wl5);
     let (lo_ready2, c7, s2) = flush_ready ops lo_ready1 lu_ts c6 s1;
     Some ((lo_ready2, lu_stats_last_ticks1), (c7, wl6), sk_flush ops s2)
   }"

text \<open>The loop, on what the outside gives to each cycle; it has no result while no stop signal
  comes.\<close>

fun worker_loop :: "engine_interference \<Rightarrow> 's sink_ops \<Rightarrow> u64 \<Rightarrow> worker_in list \<Rightarrow>
    addr list \<times> u64 \<Rightarrow> engine \<Rightarrow> 's \<Rightarrow> ((addr list \<times> u64) \<times> engine \<times> 's) option" where
  "worker_loop env ops lu_stats_poll_ticks [] locals e s = None"
| "worker_loop env ops lu_stats_poll_ticks (i # is) locals e s = do {
     (locals1, e1, s1) \<leftarrow> worker_cycle env ops lu_stats_poll_ticks i locals e s;
     if wi_stop i then Some (locals1, e1, s1)
     else worker_loop env ops lu_stats_poll_ticks is locals1 (meanwhile env e1) s1
   }"

definition worker_main :: "engine_interference \<Rightarrow> 's sink_ops \<Rightarrow> u64 \<Rightarrow> u64 \<Rightarrow> u64 \<Rightarrow> worker_in list \<Rightarrow>
    engine \<Rightarrow> 's \<Rightarrow> (engine \<times> 's) option" where
  "worker_main env ops lu_stats_numer lu_stats_denom lu_start is e s = do {
     (_, e1, s1) \<leftarrow> worker_loop env ops (stats_poll_ticks lu_stats_numer lu_stats_denom) is ([], lu_start) e s;
     Some (e1, s1)
   }"

section \<open>A sink that remembers\<close>

datatype sink_call = Service_call "byte list" | Data_call s_p8_batch "byte list list" | Flush_call

definition rec_ops :: "sink_call list sink_ops" where
  "rec_ops = \<lparr>sk_write_data = (\<lambda>b m bs s. (True, s @ [Data_call b (map (buffer_bytes m) bs)])),
     sk_write_service = (\<lambda>m sbs s. (True, s @ [Service_call (svc_bytes m sbs)])),
     sk_flush = (\<lambda>s. s @ [Flush_call])\<rparr>"

section \<open>The engine's buffers\<close>

text \<open>Data buffers that wait for the worker, and the invariant: they and those in the worker's
  hands are distinct, the pool's, not service buffers, and of a size that fits them.\<close>

definition waiting_bufs :: "nat list \<Rightarrow> engine \<Rightarrow> addr list" where
  "waiting_bufs xs e = (case e of (c, wl) \<Rightarrow>
     concat (map (\<lambda>a. bufs (wn_writer (wl_node wl a))) xs) @ mo_ready_queue c)"

definition size_ok :: "mem \<Rightarrow> addr \<Rightarrow> bool" where
  "size_ok m a \<longleftrightarrow> sizeof_data_buf_hdr \<le> buf_size m a \<and> buf_size m a \<le> mz_data_buffer_size"

text \<open>Each writer is as its operations keep it; its buffers are of one kind.\<close>

definition writers_ok :: "nat list \<Rightarrow> engine \<Rightarrow> bool" where
  "writers_ok xs e \<longleftrightarrow> (\<forall>a \<in> set xs. \<exists>ty. wr_inv ty (wn_writer (wl_node (snd e) a)) (fst e))"

definition engine_ok :: "addr list \<Rightarrow> nat list \<Rightarrow> engine \<Rightarrow> bool" where
  "engine_ok held xs e \<longleftrightarrow> wl_rep (snd e) xs \<and> svc_ok (fst e) \<and> writers_ok xs e \<and> distinct (held @ waiting_bufs xs e)
     \<and> set (held @ waiting_bufs xs e) \<subseteq> owned (mp_data_pool (fst e))
     \<and> set (held @ waiting_bufs xs e) \<inter> set (svc_addrs (fst e)) = {}
     \<and> (\<forall>a \<in> set (held @ waiting_bufs xs e). size_ok (co_mem (fst e)) a)"

text \<open>What others do to the engine while the worker holds \<open>held\<close>.\<close>

definition engine_keeps :: "addr list \<Rightarrow> core \<Rightarrow> core \<Rightarrow> bool" where
  "engine_keeps held c c' \<longleftrightarrow> prefix (svc_total c) (svc_total c') \<and> co_svc_sent c' = co_svc_sent c
     \<and> (\<forall>a \<in> set held \<union> set (mo_ready_queue c). co_mem c' a = co_mem c a)
     \<and> prefix (mo_ready_queue c) (mo_ready_queue c')"

lemma wr_inv_keep:
  assumes inv: "wr_inv ty w c" and "core_ok c'" and "set (bufs w) \<subseteq> owned (mp_data_pool c')"
    and m: "\<And>a. a \<in> set (bufs w) \<Longrightarrow> co_mem c' a = co_mem c a" and p: "prefix (mo_attr_descs c) (mo_attr_descs c')"
  shows "wr_inv ty w c'"
proof -
  from inv obtain n where "mo_attr_cache w = take n (mo_attr_descs c)" by (auto simp: wr_inv_def cache_ok_def)
  then have "mo_attr_cache w = take (min n (length (mo_attr_descs c))) (mo_attr_descs c')" using p by (auto simp: prefix_def min_def)
  then have "cache_ok w c'" unfolding cache_ok_def ..
  moreover have b: "mp_buffer w = Some b \<Longrightarrow> b \<in> set (bufs w)" for b by (simp add: bufs_def)
  note wr_inv_bytes [of w "co_mem c'" "co_mem c", OF m]
  ultimately show ?thesis using inv assms(2,3) m b unfolding wr_inv_def by auto
qed

lemma writers_ok_bufs: "a \<in> set xs \<Longrightarrow> set (bufs (wn_writer (wl_node wl a))) \<subseteq> set (waiting_bufs xs (c, wl))"
  by (auto simp: waiting_bufs_def)

lemma writers_ok_keep:
  assumes "writers_ok xs (c, wl)" and "core_ok c'" and "set (waiting_bufs xs (c, wl)) \<subseteq> owned (mp_data_pool c')"
    and "\<And>a. a \<in> set (waiting_bufs xs (c, wl)) \<Longrightarrow> co_mem c' a = co_mem c a" and "prefix (mo_attr_descs c) (mo_attr_descs c')"
  shows "writers_ok xs (c', wl)"
  unfolding writers_ok_def fst_conv snd_conv
proof
  fix a
  assume a: "a \<in> set xs"
  then obtain ty where "wr_inv ty (wn_writer (wl_node wl a)) c" using assms(1) by (auto simp: writers_ok_def)
  from wr_inv_keep [OF this assms(2) _ _ assms(5)] assms(3,4) writers_ok_bufs [OF a, of wl c]
  show "\<exists>ty. wr_inv ty (wn_writer (wl_node wl a)) c'" by blast
qed

lemma wr_inv_emptied: "wr_inv ty w c \<Longrightarrow> bufs w' = [] \<Longrightarrow> mz_buf_max w' = mz_buf_max w \<Longrightarrow> mo_attr_cache w' = mo_attr_cache w
    \<Longrightarrow> wr_inv ty w' c"
  by (simp add: wr_inv_def cache_ok_def) (simp add: bufs_Nil)

lemma writers_ok_relink:
  assumes "writers_ok xs (c, wl)" and "\<And>ty w. wr_inv ty w c \<Longrightarrow> wr_inv ty (f w) c"
  shows "writers_ok xs (c, wl\<lparr>wl_node := relink (wl_node wl) xs f\<rparr>)"
  using assms unfolding writers_ok_def relink_def by fastforce

section \<open>Returning buffers\<close>

lemma still_owned: "A \<subseteq> B \<Longrightarrow> A \<inter> S = {} \<Longrightarrow> B - S \<subseteq> C \<Longrightarrow> A \<subseteq> C"
  by blast

lemma recycle_all:
  "pool_ok p \<Longrightarrow> distinct bs \<Longrightarrow> set bs \<subseteq> owned p \<Longrightarrow>
   pool_ok (fold recycle (map Some bs) p) \<and> owned p - set bs \<subseteq> owned (fold recycle (map Some bs) p)
     \<and> mz_buffer_size (fold recycle (map Some bs) p) = mz_buffer_size p"
proof (induction bs arbitrary: p)
  case (Cons b bs)
  then have "b \<in> owned p" by simp
  note r = recycle_pool_ok [OF Cons.prems(1) this]
  have "set bs \<subseteq> owned (recycle (Some b) p)" using Cons.prems(2,3) r(2) by auto
  from Cons.IH [OF r(1) _ this] Cons.prems(2) r(2,4) show ?case by auto
qed simp

lemma release_buffers_ok:
  assumes "core_ok c" and "distinct bs" and "set bs \<subseteq> owned (mp_data_pool c)"
  shows "core_ok (release_buffers bs c)" and "owned (mp_data_pool c) - set bs \<subseteq> owned (mp_data_pool (release_buffers bs c))"
    and "co_mem (release_buffers bs c) = co_mem c" and "core_static (release_buffers bs c) = core_static c"
  using assms recycle_all [of "mp_data_pool c" bs]
  by (auto simp: release_buffers_def core_ok_def recycle_batch_def)

lemma recycle_svc_ok:
  "core_ok c \<Longrightarrow> distinct (map sb_buf sbs) \<Longrightarrow> set (map sb_buf sbs) \<subseteq> owned (mp_data_pool c) \<Longrightarrow>
   core_ok (recycle_svc sbs c) \<and> owned (mp_data_pool c) - set (map sb_buf sbs) \<subseteq> owned (mp_data_pool (recycle_svc sbs c))
     \<and> co_mem (recycle_svc sbs c) = co_mem c \<and> core_static (recycle_svc sbs c) = core_static c"
proof (induction sbs arbitrary: c)
  case Nil
  then show ?case by (simp add: recycle_svc_def)
next
  case (Cons s sbs)
  define c1 where "c1 = release_buffer (Some (sb_buf s)) c"
  have "sb_buf s \<in> owned (mp_data_pool c)" using Cons.prems(3) by simp
  note r = release_buffer_ok [OF Cons.prems(1) this, folded c1_def]
  have "set (map sb_buf sbs) \<subseteq> owned (mp_data_pool c1)"
    by (rule still_owned [OF _ _ r(2)]) (use Cons.prems(2,3) in auto)
  from Cons.IH [OF r(1) _ this] Cons.prems(2) r(2,4,5) show ?case by (auto simp: recycle_svc_def c1_def)
qed

section \<open>What the steps of a cycle keep\<close>

text \<open>The worker's own fields are no part of the invariant.\<close>

definition worker_fields :: "core \<Rightarrow> u64 \<times> u64 \<times> u64 \<times> u64 \<times> bool \<times> u16" where
  "worker_fields c = (mu_batch_margin_ticks c, mu_batch_tail_ticks c, mu_batch_idle_ticks c,
     mu_batch_last_ts c, mb_batch_with_data c, mu_batch_index c)"

lemma meanwhile_parts:
  assumes "meanwhile env (c, wl) = (c', wl')"
  obtains c1 where "env (co_moment c) (c, wl) = (c1, wl')"
    and "worker_fields c' = worker_fields c" and "svc_total c' = svc_total c1" and "co_svc_sent c' = co_svc_sent c1"
    and "co_mem c' = co_mem c1" and "mo_ready_queue c' = mo_ready_queue c1" and "mo_svc_buffers c' = mo_svc_buffers c1"
    and "mp_data_pool c' = mp_data_pool c1" and "mb_initialized c' = mb_initialized c1" and "mo_attr_descs c' = mo_attr_descs c1"
  using assms by (auto simp: meanwhile_def worker_fields_def svc_total_def split: prod.splits)

lemma engine_ok_cong:
  assumes "co_mem c' = co_mem c" and "mo_ready_queue c' = mo_ready_queue c" and "mo_svc_buffers c' = mo_svc_buffers c"
    and "mp_data_pool c' = mp_data_pool c" and "mb_initialized c' = mb_initialized c" and "mo_attr_descs c' = mo_attr_descs c"
  shows "engine_ok held xs (c', wl) = engine_ok held xs (c, wl)"
  using assms by (simp add: engine_ok_def svc_ok_def core_ok_def svc_inv_def svc_addrs_def waiting_bufs_def writers_ok_def
      wr_inv_def cache_ok_def)

text \<open>Buffers change hands: from the writers, from the ready queue.\<close>

lemma drain_engine:
  assumes ok: "engine_ok held xs (c, wl)" and d: "drain_writers c held wl = Some (io, wl')"
  shows "io = held @ concat (map (\<lambda>a. bufs (wn_writer (wl_node wl a))) xs)" and "engine_ok io xs (c, wl')"
    and "waiting_bufs xs (c, wl') = mo_ready_queue c"
proof -
  have r: "wl_rep wl xs" and i: "mb_initialized c" using ok by (simp_all add: engine_ok_def svc_ok_def core_ok_def)
  from drain_writers_rep [OF r i, of held] d
  show io: "io = held @ concat (map (\<lambda>a. bufs (wn_writer (wl_node wl a))) xs)" by simp
  from drain_writers_rep [OF r i, of held] d have wl': "wl' = wl\<lparr>wl_node := relink (wl_node wl) xs emptied\<rparr>" by simp
  have "concat (map (\<lambda>a. bufs (wn_writer (wl_node wl' a))) xs) = []" by (simp add: wl' relink_def)
  then show w: "waiting_bufs xs (c, wl') = mo_ready_queue c" by (simp add: waiting_bufs_def)
  have "writers_ok xs (c, wl')" unfolding wl'
    by (rule writers_ok_relink) (use ok in \<open>auto simp: engine_ok_def emptied_def bufs_Nil elim!: wr_inv_emptied\<close>)
  moreover have "io @ waiting_bufs xs (c, wl') = held @ waiting_bufs xs (c, wl)" unfolding w io by (simp add: waiting_bufs_def)
  ultimately show "engine_ok io xs (c, wl')" using ok drain_totals(1) [OF r i d] unfolding engine_ok_def by simp
qed

lemma ready_engine:
  assumes "engine_ok held xs (c, wl)"
  shows "\<exists>rest. mset (held @ waiting_bufs xs (c, wl)) = mset (held @ mo_ready_queue c) + rest"
    and "engine_ok (held @ mo_ready_queue c) xs (c\<lparr>mo_ready_queue := []\<rparr>, wl)"
proof -
  show "\<exists>rest. mset (held @ waiting_bufs xs (c, wl)) = mset (held @ mo_ready_queue c) + rest"
    by (simp add: waiting_bufs_def)
  have "set ((held @ mo_ready_queue c) @ waiting_bufs xs (c\<lparr>mo_ready_queue := []\<rparr>, wl)) = set (held @ waiting_bufs xs (c, wl))"
    by (auto simp: waiting_bufs_def)
  moreover have "distinct ((held @ mo_ready_queue c) @ waiting_bufs xs (c\<lparr>mo_ready_queue := []\<rparr>, wl)) = distinct (held @ waiting_bufs xs (c, wl))"
    by (auto simp: waiting_bufs_def)
  moreover have "svc_ok (c\<lparr>mo_ready_queue := []\<rparr>) = svc_ok c" "svc_addrs (c\<lparr>mo_ready_queue := []\<rparr>) = svc_addrs c"
    by (simp_all add: svc_ok_def core_ok_def svc_inv_def svc_addrs_def)
  moreover have "writers_ok xs (c\<lparr>mo_ready_queue := []\<rparr>, wl) = writers_ok xs (c, wl)"
    by (simp add: writers_ok_def wr_inv_def core_ok_def cache_ok_def)
  ultimately show "engine_ok (held @ mo_ready_queue c) xs (c\<lparr>mo_ready_queue := []\<rparr>, wl)"
    using assms unfolding engine_ok_def fst_conv snd_conv by simp
qed

text \<open>Service buffers: taken, sent and recycled.\<close>

lemma svc_engine:
  assumes ok: "engine_ok held xs (c, wl)" and t: "take_svc c = (sbs, c1)"
  shows "engine_ok held xs (recycle_svc sbs c1, wl)" and "svc_total (recycle_svc sbs c1) = svc_total c"
    and "co_svc_sent (recycle_svc sbs c1) = svc_total c" and "mo_svc_buffers (recycle_svc sbs c1) = []"
    and "co_mem (recycle_svc sbs c1) = co_mem c" and "co_mem c1 = co_mem c" and "sbs = mo_svc_buffers c"
    and "worker_fields (recycle_svc sbs c1) = worker_fields c" and "mo_ready_queue (recycle_svc sbs c1) = mo_ready_queue c"
proof -
  have sb: "sbs = mo_svc_buffers c" and c1: "c1 = c\<lparr>mo_svc_buffers := [], co_svc_sent := svc_total c\<rparr>"
    using t by (auto simp: take_svc_def svc_total_def)
  have o: "core_ok c" and sv: "svc_inv c" using ok by (simp_all add: engine_ok_def svc_ok_def)
  have d: "distinct (map sb_buf sbs)" "set (map sb_buf sbs) \<subseteq> owned (mp_data_pool c1)" "core_ok c1"
    using sv o by (simp_all add: sb c1 svc_inv_def svc_addrs_def core_ok_def)
  note r = recycle_svc_ok [OF d(3,1,2)]
  then have st: "core_static (recycle_svc sbs c1) = core_static c1" by simp
  note f = core_static_fields [OF this]
  show m: "mo_svc_buffers (recycle_svc sbs c1) = []" "co_svc_sent (recycle_svc sbs c1) = svc_total c"
    "mo_ready_queue (recycle_svc sbs c1) = mo_ready_queue c" "co_mem (recycle_svc sbs c1) = co_mem c" "co_mem c1 = co_mem c"
    using f r by (simp_all add: c1)
  then show "svc_total (recycle_svc sbs c1) = svc_total c" by (simp add: svc_total_def svc_bytes_def)
  show "sbs = mo_svc_buffers c" by (rule sb)
  show "worker_fields (recycle_svc sbs c1) = worker_fields c"
    using arg_cong [OF st, of worker_fields] by (simp add: worker_fields_def core_static_def c1)
  have w: "waiting_bufs xs (recycle_svc sbs c1, wl) = waiting_bufs xs (c, wl)" using f(2) by (simp add: waiting_bufs_def c1)
  have "svc_ok (recycle_svc sbs c1)" using r f(3) by (simp add: svc_ok_def svc_inv_def svc_addrs_def c1)
  moreover have "set (held @ waiting_bufs xs (c, wl)) \<subseteq> owned (mp_data_pool (recycle_svc sbs c1))"
    by (rule still_owned [OF _ _ conjunct1 [OF conjunct2 [OF r]]])
      (use ok in \<open>simp_all add: engine_ok_def svc_addrs_def sb c1\<close>)
  moreover have "svc_addrs (recycle_svc sbs c1) = []" using f(3) by (simp add: svc_addrs_def c1)
  moreover have "writers_ok xs (recycle_svc sbs c1, wl)"
  proof (rule writers_ok_keep)
    show "writers_ok xs (c, wl)" using ok by (simp add: engine_ok_def)
    show "core_ok (recycle_svc sbs c1)" using r by blast
    show "set (waiting_bufs xs (c, wl)) \<subseteq> owned (mp_data_pool (recycle_svc sbs c1))" using calculation(2) by simp
    show "co_mem (recycle_svc sbs c1) a = co_mem c a" for a using m by simp
    show "prefix (mo_attr_descs c) (mo_attr_descs (recycle_svc sbs c1))" using f(1) by (simp add: c1)
  qed
  ultimately show "engine_ok held xs (recycle_svc sbs c1, wl)"
    using ok r unfolding engine_ok_def w fst_conv snd_conv by (simp add: c1)
qed

lemma poll_engine:
  assumes ok: "engine_ok held xs (c, wl)"
  obtains l c' wl' where "poll_cadence pt l0 now (c, wl) = Some (l, c', wl')" and "engine_ok held xs (c', wl')"
    and "svc_total c' = svc_total c" and "co_svc_sent c' = co_svc_sent c" and "worker_fields c' = worker_fields c"
    and "co_mem c' = co_mem c" and "mo_ready_queue c' = mo_ready_queue c"
    and "waiting_bufs xs (c', wl') = waiting_bufs xs (c, wl)"
proof (cases "pt \<noteq> 0 \<and> now - l0 \<ge> pt")
  case False
  with ok that show ?thesis by (auto simp: poll_cadence_def)
next
  case True
  have r: "wl_rep wl xs" using ok by (simp add: engine_ok_def)
  obtain c' wl' where p: "poll_dropped_stats c wl = Some (c', wl')" and
    c': "\<exists>s. c' = accumulate_dropped s c" and wl': "wl' = wl\<lparr>wl_node := relink (wl_node wl) xs (\<lambda>w. snd (pull_dropped w))\<rparr>"
    using poll_dropped_stats_rep [OF r, of c] by blast
  have f: "co_mem c' = co_mem c" "mo_ready_queue c' = mo_ready_queue c" "mo_svc_buffers c' = mo_svc_buffers c"
    "mp_data_pool c' = mp_data_pool c" "mb_initialized c' = mb_initialized c" "svc_total c' = svc_total c"
    "co_svc_sent c' = co_svc_sent c" "worker_fields c' = worker_fields c"
    using c' by (auto simp: accumulate_dropped_def svc_total_def worker_fields_def)
  have "map (\<lambda>a. bufs (wn_writer (wl_node wl' a))) xs = map (\<lambda>a. bufs (wn_writer (wl_node wl a))) xs"
    by (simp add: wl' relink_def pull_dropped_bufs)
  then have w: "waiting_bufs xs (c', wl') = waiting_bufs xs (c, wl)" by (simp only: waiting_bufs_def prod.case f(2))
  have "writers_ok xs (c, wl')" unfolding wl'
    by (rule writers_ok_relink) (use ok in \<open>simp_all add: engine_ok_def pull_dropped_def wr_inv_def bufs_def hdr_ids_def cache_ok_def\<close>)
  then have "engine_ok held xs (c, wl')" using ok w poll_totals(1) [OF r p] f(2)
    by (simp add: engine_ok_def waiting_bufs_def)
  moreover have "mo_attr_descs c' = mo_attr_descs c" using c' by (auto simp: accumulate_dropped_def)
  ultimately have "engine_ok held xs (c', wl')" using engine_ok_cong [OF f(1-5)] by simp
  with True p f w that [of now c' wl'] show ?thesis by (simp add: poll_cadence_def)
qed

text \<open>The batch: sent when it is due, and its buffers are recycled.\<close>

definition data_calls :: "core \<Rightarrow> mem \<Rightarrow> addr list \<Rightarrow> u64 \<Rightarrow> sink_call list" where
  "data_calls c m bs ts = (if batch_due c bs ts then [Data_call (next_batch c bs ts) (map (buffer_bytes m) bs)] else [])"

definition fields_after :: "core \<Rightarrow> addr list \<Rightarrow> u64 \<Rightarrow> u64 \<times> u64 \<times> u64 \<times> u64 \<times> bool \<times> u16" where
  "fields_after c bs ts = (if batch_due c bs ts
     then (mu_batch_margin_ticks c, mu_batch_tail_ticks c, mu_batch_idle_ticks c, ts,
       (0 :: u32) < word_of_nat (length bs), mu_batch_index c + 1)
     else worker_fields c)"

lemma batch_fields_cong:
  assumes "worker_fields c' = worker_fields c"
  shows "batch_due c' bs ts = batch_due c bs ts" and "next_batch c' bs ts = next_batch c bs ts"
    and "data_calls c' m bs ts = data_calls c m bs ts" and "fields_after c' bs ts = fields_after c bs ts"
    and "batch_ts c' now = batch_ts c now"
  using assms
  by (simp_all add: worker_fields_def batch_due_def due_wait_def next_batch_def data_calls_def fields_after_def batch_ts_def)

lemma flush_engine:
  assumes ok: "engine_ok held xs (c, wl)" and f: "flush_ready rec_ops held ts c s = (left, c', s')"
  shows "left = []" and "engine_ok [] xs (c', wl)" and "s' = s @ data_calls c (co_mem c) held ts"
    and "worker_fields c' = fields_after c held ts" and "svc_total c' = svc_total c" and "co_svc_sent c' = co_svc_sent c"
    and "waiting_bufs xs (c', wl) = waiting_bufs xs (c, wl)"
proof -
  have o: "core_ok c" and i: "mb_initialized c" using ok by (simp_all add: engine_ok_def svc_ok_def core_ok_def)
  show "s' = s @ data_calls c (co_mem c) held ts"
    using f by (auto simp: flush_ready_def data_calls_def rec_ops_def Let_def split: if_splits)
  show "left = []"
    using f i by (auto simp: flush_ready_def batch_due_def Let_def split: if_splits)
  have "engine_ok [] xs (c', wl) \<and> worker_fields c' = fields_after c held ts \<and> svc_total c' = svc_total c
    \<and> co_svc_sent c' = co_svc_sent c \<and> waiting_bufs xs (c', wl) = waiting_bufs xs (c, wl)"
  proof (cases "batch_due c held ts")
    case False
    with ok f show ?thesis by (auto simp: flush_ready_def batch_due_def fields_after_def)
  next
    case True
    define c1 where "c1 = c\<lparr>mu_batch_index := mu_batch_index c + 1, mu_batch_last_ts := ts,
      mb_batch_with_data := (0 :: u32) < word_of_nat (length held)\<rparr>"
    have c': "c' = release_buffers held c1" using f True by (simp add: flush_ready_def next_batch_def c1_def Let_def)
    have o1: "core_ok c1" "distinct held" "set held \<subseteq> owned (mp_data_pool c1)"
      using ok o by (simp_all add: c1_def core_ok_def engine_ok_def)
    note r = release_buffers_ok [OF o1, folded c']
    note g = core_static_fields [OF r(4)]
    have w: "waiting_bufs xs (c', wl) = waiting_bufs xs (c, wl)" using g(2) by (simp add: waiting_bufs_def c1_def)
    have sv: "svc_addrs c' = svc_addrs c" using g(3) by (simp add: svc_addrs_def c1_def)
    have keep: "set (waiting_bufs xs (c, wl)) \<subseteq> owned (mp_data_pool c')"
      by (rule still_owned [OF _ _ r(2)]) (use ok in \<open>auto simp: engine_ok_def c1_def\<close>)
    have "set (svc_addrs c) \<subseteq> owned (mp_data_pool c')"
      by (rule still_owned [OF _ _ r(2)]) (use ok in \<open>auto simp: engine_ok_def c1_def svc_ok_def svc_inv_def\<close>)
    then have "svc_ok c'" using r(1,3) g(3) sv ok
      by (simp add: svc_ok_def svc_inv_def engine_ok_def) (simp add: c1_def)
    moreover have "writers_ok xs (c', wl)"
      by (rule writers_ok_keep [of xs c wl]) (use ok keep r(1,3) g(1) in \<open>simp_all add: engine_ok_def c1_def\<close>)
    ultimately have "engine_ok [] xs (c', wl)" using ok keep r(3) w sv unfolding engine_ok_def fst_conv snd_conv
      by (auto simp: c1_def)
    moreover have "worker_fields c' = worker_fields c1"
      using arg_cong [OF r(4), of worker_fields] by (simp add: worker_fields_def core_static_def)
    then have "worker_fields c' = fields_after c held ts" using True by (simp add: worker_fields_def fields_after_def c1_def)
    moreover have "svc_total c' = svc_total c" "co_svc_sent c' = co_svc_sent c"
      using g(3,11) r(3) by (simp_all add: svc_total_def c1_def)
    ultimately show ?thesis using w by simp
  qed
  then show "engine_ok [] xs (c', wl)" "worker_fields c' = fields_after c held ts" "svc_total c' = svc_total c"
    "co_svc_sent c' = co_svc_sent c" "waiting_bufs xs (c', wl) = waiting_bufs xs (c, wl)" by auto
qed

section \<open>A cycle among other threads\<close>

definition service_calls :: "s_p8_svc_buf list \<Rightarrow> byte list \<Rightarrow> sink_call list" where
  "service_calls sbs sv = (if sbs = [] then [] else [Service_call sv])"

locale engine_env =
  fixes env :: engine_interference
  assumes law: "engine_ok held xs (c, wl) \<Longrightarrow> env n (c, wl) = (c', wl') \<Longrightarrow>
    (\<exists>xs'. engine_ok held xs' (c', wl')) \<and> engine_keeps held c c'"
begin

lemma meanwhile_engine:
  assumes ok: "engine_ok held xs (c, wl)" and m: "meanwhile env (c, wl) = (c', wl')"
  shows "\<exists>xs'. engine_ok held xs' (c', wl')" and "engine_keeps held c c'" and "worker_fields c' = worker_fields c"
proof -
  from m obtain c1 where e: "env (co_moment c) (c, wl) = (c1, wl')" and f: "worker_fields c' = worker_fields c"
    "svc_total c' = svc_total c1" "co_svc_sent c' = co_svc_sent c1" "co_mem c' = co_mem c1" "mo_ready_queue c' = mo_ready_queue c1"
    "mo_svc_buffers c' = mo_svc_buffers c1" "mp_data_pool c' = mp_data_pool c1" "mb_initialized c' = mb_initialized c1"
    "mo_attr_descs c' = mo_attr_descs c1"
    by (rule meanwhile_parts)
  from law [OF ok e] engine_ok_cong [OF f(4-9)] f(2-5)
  show "\<exists>xs'. engine_ok held xs' (c', wl')" "engine_keeps held c c'" by (auto simp: engine_keeps_def)
  show "worker_fields c' = worker_fields c" by (rule f(1))
qed

text \<open>What is collected: all that the writers and the ready queue had, and what came in between.\<close>

lemma collect_engine:
  assumes ok: "engine_ok [] xs (c, wl)"
  obtains data c1 wl1 xs1 where "collect_batch env now [] (c, wl) = Some (batch_ts c now, data, c1, wl1)"
    and "engine_ok data xs1 (c1, wl1)" and "prefix (svc_total c) (svc_total c1)" and "co_svc_sent c1 = co_svc_sent c"
    and "worker_fields c1 = worker_fields c" and "prefix (waiting_bufs xs (c, wl)) data"
    and "map (buffer_bytes (co_mem c1)) (waiting_bufs xs (c, wl)) = map (buffer_bytes (co_mem c)) (waiting_bufs xs (c, wl))"
proof -
  have r: "wl_rep wl xs" and i: "mb_initialized c" using ok by (simp_all add: engine_ok_def svc_ok_def core_ok_def)
  obtain io wl1 where d: "drain_writers c [] wl = Some (io, wl1)" using drain_writers_rep [OF r i] by blast
  note dr = drain_engine [OF ok d]
  obtain c2 wl2 where m: "meanwhile env (c, wl1) = (c2, wl2)" by fastforce
  from meanwhile_engine [OF dr(2) m] obtain xs2 where ok2: "engine_ok io xs2 (c2, wl2)" and
    k: "engine_keeps io c c2" "worker_fields c2 = worker_fields c" by blast
  let ?c1 = "c2\<lparr>mo_ready_queue := []\<rparr>"
  have "collect_batch env now [] (c, wl) = Some (batch_ts c now, io @ mo_ready_queue c2, ?c1, wl2)"
    by (simp add: collect_batch_def d m)
  moreover note ready_engine(2) [OF ok2]
  moreover have "svc_total ?c1 = svc_total c2" "co_svc_sent ?c1 = co_svc_sent c2" "worker_fields ?c1 = worker_fields c2" "co_mem ?c1 = co_mem c2"
    by (simp_all add: svc_total_def worker_fields_def)
  moreover have "prefix (waiting_bufs xs (c, wl)) (io @ mo_ready_queue c2)"
    using k(1) dr(1) by (simp add: waiting_bufs_def engine_keeps_def)
  moreover have "co_mem c2 a = co_mem c a" if "a \<in> set (waiting_bufs xs (c, wl))" for a
    using k(1) dr(1) that by (auto simp: engine_keeps_def waiting_bufs_def)
  then have "map (buffer_bytes (co_mem c2)) (waiting_bufs xs (c, wl)) = map (buffer_bytes (co_mem c)) (waiting_bufs xs (c, wl))"
    by (simp add: buffer_bytes_def buf_size_def rd_def)
  ultimately show ?thesis using that k dr(1) by (simp add: engine_keeps_def)
qed

text \<open>The cycle as a whole. What it sends: the service bytes there are after the batch was
  collected, then the batch if it is due, with the buffers as they were when it was collected.\<close>

lemma cycle:
  assumes ok: "engine_ok [] xs (c, wl)"
  obtains data c1 wl1 sbs sv l1 c2 wl2 xs2 where
    "collect_batch env (wi_ticks i) [] (c, wl) = Some (batch_ts c (wi_ticks i), data, c1, wl1)"
    and "worker_cycle env rec_ops pt i ([], l0) (c, wl) s = Some (([], l1), (c2, wl2),
      s @ service_calls sbs sv @ data_calls c (co_mem c1) data (batch_ts c (wi_ticks i)) @ [Flush_call])"
    and "sbs = [] \<longrightarrow> sv = []" and "co_svc_sent c2 = co_svc_sent c @ sv" and "prefix (svc_total c1) (co_svc_sent c2)"
    and "prefix (svc_total c) (svc_total c1)"
    and "engine_ok [] xs2 (c2, wl2)" and "worker_fields c2 = fields_after c data (batch_ts c (wi_ticks i))"
    and "prefix (waiting_bufs xs (c, wl)) data"
    and "map (buffer_bytes (co_mem c1)) (waiting_bufs xs (c, wl)) = map (buffer_bytes (co_mem c)) (waiting_bufs xs (c, wl))"
    and "\<forall>a \<in> set data. size_ok (co_mem c1) a"
proof -
  let ?ts = "batch_ts c (wi_ticks i)"
  obtain data c1 wl1 xs1 where a: "collect_batch env (wi_ticks i) [] (c, wl) = Some (?ts, data, c1, wl1)"
    "engine_ok data xs1 (c1, wl1)" "prefix (svc_total c) (svc_total c1)" "co_svc_sent c1 = co_svc_sent c"
    "worker_fields c1 = worker_fields c" "prefix (waiting_bufs xs (c, wl)) data"
    "map (buffer_bytes (co_mem c1)) (waiting_bufs xs (c, wl)) = map (buffer_bytes (co_mem c)) (waiting_bufs xs (c, wl))"
    by (rule collect_engine [OF ok]) blast
  obtain c2 wl2 where m: "meanwhile env (c1, wl1) = (c2, wl2)" by fastforce
  from meanwhile_engine [OF a(2) m] obtain xs2 where ok2: "engine_ok data xs2 (c2, wl2)" and
    k2: "engine_keeps data c1 c2" "worker_fields c2 = worker_fields c1" by blast
  obtain sbs c3 where t: "take_svc c2 = (sbs, c3)" by fastforce
  note sv = svc_engine [OF ok2 t]
  define c4 where "c4 = recycle_svc sbs c3"
  obtain l5 c5 wl5 where p: "poll_cadence pt l0 (wi_hires_ticks i) (c4, wl2) = Some (l5, c5, wl5)"
    "engine_ok data xs2 (c5, wl5)" "svc_total c5 = svc_total c4" "co_svc_sent c5 = co_svc_sent c4"
    "worker_fields c5 = worker_fields c4" "co_mem c5 = co_mem c4"
    by (rule poll_engine [OF sv(1) [folded c4_def]])
  let ?c5 = "c5\<lparr>mb_wake_pending := False\<rparr>"
  have ok5: "engine_ok data xs2 (?c5, wl5)" using p(2) by (subst engine_ok_cong) simp_all
  have f5: "worker_fields ?c5 = worker_fields c5" "co_svc_sent ?c5 = co_svc_sent c5" "co_mem ?c5 = co_mem c5"
    by (simp_all add: worker_fields_def)
  obtain c6 wl6 where m6: "meanwhile env (?c5, wl5) = (c6, wl6)" by fastforce
  from meanwhile_engine [OF ok5 m6] obtain xs6 where ok6: "engine_ok data xs6 (c6, wl6)" and
    k6: "engine_keeps data ?c5 c6" "worker_fields c6 = worker_fields ?c5" by blast
  define s1 where "s1 = s @ service_calls sbs (svc_bytes (co_mem c2) sbs)"
  obtain left c7 s2 where fl: "flush_ready rec_ops data ?ts c6 s1 = (left, c7, s2)" by (cases "flush_ready rec_ops data ?ts c6 s1")
  note g = flush_engine [OF ok6 fl]
  have wf: "worker_fields c6 = worker_fields c" using k6(2) f5(1) p(5) sv(8) k2(2) a(5) by (simp add: c4_def)
  have mem: "map (buffer_bytes (co_mem c6)) data = map (buffer_bytes (co_mem c1)) data"
    using k6(1) f5(3) p(6) sv(5) k2(1)
    by (simp add: c4_def engine_keeps_def buffer_bytes_def buf_size_def rd_def)
  have s2: "s2 = s1 @ data_calls c (co_mem c1) data ?ts"
    using g(3) batch_fields_cong(3) [OF wf] mem by (simp add: data_calls_def)
  have "(if length sbs > 0 then snd (sk_write_service rec_ops (co_mem c3) sbs s) else s) = s1"
    using sv(6) by (simp add: s1_def service_calls_def rec_ops_def)
  then have "worker_cycle env rec_ops pt i ([], l0) (c, wl) s = Some (([], l5), (c7, wl6), s2 @ [Flush_call])"
    by (simp add: worker_cycle_def a(1) m t c4_def [symmetric] p(1) m6 fl g(1) del: length_greater_0_conv) (simp add: rec_ops_def)
  moreover have "co_svc_sent c7 = co_svc_sent c @ svc_bytes (co_mem c2) sbs"
  proof -
    have "co_svc_sent c7 = svc_total c2" using g(6) k6(1) f5(2) p(4) sv(3) by (simp add: engine_keeps_def c4_def)
    then show ?thesis using k2(1) a(4) sv(7) by (simp add: svc_total_def engine_keeps_def)
  qed
  moreover have "prefix (svc_total c1) (co_svc_sent c7)"
    using g(6) k6(1) f5(2) p(4) sv(3) k2(1) by (simp add: engine_keeps_def c4_def)
  moreover have "worker_fields c7 = fields_after c data ?ts" using g(4) batch_fields_cong(4) [OF wf] by simp
  moreover have "sbs = [] \<Longrightarrow> svc_bytes (co_mem c2) sbs = []" by (simp add: svc_bytes_def)
  moreover have "\<forall>a \<in> set data. size_ok (co_mem c1) a" using a(2) by (auto simp: engine_ok_def)
  ultimately show ?thesis
    using a(1,3,6,7) g(2) s2 by (intro that [of data c1 wl1 l5 c7 wl6 sbs "svc_bytes (co_mem c2) sbs" xs6]) (simp_all add: s1_def)
qed

end

section \<open>The other threads' calls\<close>

text \<open>What an entry that does not wait leaves alone: everything that is not a service buffer.\<close>

definition quiet :: "core \<Rightarrow> core \<Rightarrow> bool" where
  "quiet c c' \<longleftrightarrow> co_svc_sent c' = co_svc_sent c \<and> mo_ready_queue c' = mo_ready_queue c
     \<and> owned (mp_data_pool c) \<subseteq> owned (mp_data_pool c')
     \<and> set (svc_addrs c') \<inter> owned (mp_data_pool c) \<subseteq> set (svc_addrs c)
     \<and> (\<forall>a \<in> owned (mp_data_pool c) - set (svc_addrs c). co_mem c' a = co_mem c a)"

lemma quiet_refl [simp]: "quiet c c"
  by (simp add: quiet_def)

lemma quiet_trans:
  assumes "quiet c c1" and "quiet c1 c2"
  shows "quiet c c2"
proof -
  have "co_mem c2 a = co_mem c a" if a: "a \<in> owned (mp_data_pool c)" "a \<notin> set (svc_addrs c)" for a
  proof -
    have "a \<in> owned (mp_data_pool c1)" "a \<notin> set (svc_addrs c1)" using assms(1) a by (auto simp: quiet_def)
    then show ?thesis using assms a by (simp add: quiet_def)
  qed
  moreover have "set (svc_addrs c2) \<inter> owned (mp_data_pool c) \<subseteq> set (svc_addrs c)"
    using assms unfolding quiet_def by blast
  ultimately show ?thesis using assms by (auto simp: quiet_def)
qed

interpretation quietly: svc_source svc_acquire_now "\<lambda>_. svc_ok" "\<lambda>s c s' c'. quiet c c'"
proof
  fix s :: unit and c ok and s' :: unit and c'
  show "quiet c c" by simp
  assume o: "svc_ok c" and a: "svc_acquire_now (s, c) = Some (ok, s', c')"
  then obtain r c1 where b: "acquire_buffer c = (r, c1)" and t: "svc_take r c1 = (ok, c')"
    by (auto simp: svc_acquire_now_def split: prod.splits)
  have ok: "core_ok c" using o by (simp add: svc_ok_def)
  have *: "core_static c1 = core_static c \<and> co_mem c1 = co_mem c
      \<and> owned (mp_data_pool c1) = owned (mp_data_pool c) \<union> set_option r \<and> set_option r \<inter> owned (mp_data_pool c) = {}"
    using acquire_buffer_Some [OF _ ok, of _ c1] acquire_buffer_None [OF _ ok, of c1] b by (cases r) auto
  note f = core_static_fields [OF conjunct1 [OF *]]
  have "quiet c c'" using * f(2,3,11) t
    by (cases r) (auto simp: quiet_def svc_take_def svc_addrs_def)
  with svc_now.acq_step [OF o a] show "svc_ok c' \<and> quiet c c'
      \<and> (ok \<longrightarrow> mo_svc_buffers c' \<noteq> [] \<and> sb_used (last (mo_svc_buffers c')) = 0)" by simp
qed

lemma fill_quiet:
  assumes "\<not> svc_full n c" and "svc_claim n c = (dst, c1)"
  shows "quiet c (svc_fill ws dst c1)"
proof -
  define s where "s = last (mo_svc_buffers c)"
  have ne: "mo_svc_buffers c = butlast (mo_svc_buffers c) @ [s]" using assms(1) by (simp add: svc_full_def s_def)
  have dst: "fst dst = sb_buf s" and c1: "c1 = c\<lparr>co_mem := wr (co_mem c) (sb_buf s) (sb_used s) (replicate n 0),
      mo_svc_buffers := butlast (mo_svc_buffers c) @ [s\<lparr>sb_used := sb_used s + n\<rparr>]\<rparr>"
    using assms(2) by (auto simp: svc_claim_def Let_def s_def)
  have "fold (\<lambda>(o', bs) m. wr m (sb_buf s) (u + o') bs) ws m a = m a" if "a \<noteq> sb_buf s" for a u m
    using that by (induction ws arbitrary: m) auto
  then have "co_mem (svc_fill ws dst c1) a = co_mem c a" if "a \<noteq> sb_buf s" for a
    using that by (simp add: svc_fill_def dst c1)
  moreover have "svc_addrs c = map sb_buf (butlast (mo_svc_buffers c)) @ [sb_buf s]"
    unfolding svc_addrs_def by (subst ne) simp
  ultimately show ?thesis by (auto simp: quiet_def svc_fill_def c1 svc_addrs_def)
qed

lemma svc_put_now_quiet:
  assumes "svc_ok c" and "svc_put_now n ws c = Some c'"
  shows "quiet c c'"
proof -
  from assms(2) obtain dst c1 where r: "svc_reserve svc_acquire_now n ((), c) = Some (dst, (), c1)"
    and c': "c' = (case dst of None \<Rightarrow> c1 | Some d \<Rightarrow> svc_fill ws d c1)"
    by (auto simp: svc_put_now_def split: bind_splits option.splits)
  from quietly.reserve [OF assms(1) r] show ?thesis
    using fill_quiet quiet_trans by (cases dst) (force simp: c')+
qed

text \<open>A call that writes service entries: it keeps the invariant and only appends.\<close>

definition svc_call :: "core \<Rightarrow> core \<Rightarrow> bool" where
  "svc_call c c' \<longleftrightarrow> svc_ok c' \<and> prefix (svc_total c) (svc_total c') \<and> quiet c c'
     \<and> prefix (mo_attr_descs c) (mo_attr_descs c')"

lemma svc_call_refl: "svc_ok c \<Longrightarrow> svc_call c c"
  by (simp add: svc_call_def)

lemma svc_call_registries:
  assumes "svc_call c1 c'" and "svc_total c1 = svc_total c" and "co_svc_sent c1 = co_svc_sent c"
    and "mo_ready_queue c1 = mo_ready_queue c" and "mp_data_pool c1 = mp_data_pool c"
    and "mo_svc_buffers c1 = mo_svc_buffers c" and "co_mem c1 = co_mem c" and "prefix (mo_attr_descs c) (mo_attr_descs c1)"
  shows "svc_call c c'"
  using assms prefix_order.trans [OF assms(8)] by (simp add: svc_call_def quiet_def svc_addrs_def)

lemma svc_static_descs: "svc_static c' = svc_static c \<Longrightarrow> mo_attr_descs c' = mo_attr_descs c"
  by (drule arg_cong [of _ _ mo_attr_descs]) (simp add: svc_static_def core_static_def)

lemma serialize_call:
  assumes "svc_ok c"
  shows "serialize_attr_desc d c = Some c' \<Longrightarrow> svc_call c c'"
    and "serialize_log_mod d2 c = Some c' \<Longrightarrow> svc_call c c'"
    and "serialize_mtk_desc d3 bl k c = Some c' \<Longrightarrow> svc_call c c'"
proof -
  have p: "svc_call c c'" if "entry_put (\<lambda>_. 0) n e c c'" and "svc_put_now m ws c = Some c'" for e n m ws
    using that svc_put_now_quiet [OF assms] svc_static_descs [of c' c] by (auto simp: entry_put_def svc_call_def)
  show "svc_call c c'" if s: "serialize_attr_desc d c = Some c'"
    using p [OF _ s [unfolded serialize_attr_desc_def Let_def]] serialize_attr_desc_spec [OF assms, of d "\<lambda>_. 0"] s by auto
  show "svc_call c c'" if s: "serialize_log_mod d2 c = Some c'"
    using p [OF _ s [unfolded serialize_log_mod_def Let_def]] serialize_log_mod_spec [OF assms, of d2 "\<lambda>_. 0"] s by auto
  show "svc_call c c'" if s: "serialize_mtk_desc d3 bl k c = Some c'"
    using p [OF _ s [unfolded serialize_mtk_desc_def Let_def]] serialize_mtk_desc_spec [OF assms, of d3 bl k "\<lambda>_. 0"] s
      svc_call_refl [OF assms] by (auto split: if_splits)
qed

lemma attr_register_call:
  assumes "svc_ok c" and "attr_register a b n t c = Some (r, c')"
  shows "svc_call c c'"
proof (cases "c' = c")
  case True
  with svc_call_refl [OF assms(1)] show ?thesis by simp
next
  case False
  with assms(2) obtain d ds m where s: "serialize_attr_desc d (c\<lparr>mo_attr_descs := ds, mo_attr_name_map := m\<rparr>) = Some c'"
    and p: "prefix (mo_attr_descs c) ds"
    by (auto simp: attr_register_def Let_def split: if_splits option.splits bind_splits)
  have k: "svc_ok (c\<lparr>mo_attr_descs := ds, mo_attr_name_map := m\<rparr>)"
    using assms(1) by (simp add: svc_ok_def core_ok_def svc_inv_def svc_addrs_def)
  show ?thesis by (rule svc_call_registries [OF serialize_call(1) [OF k s]]) (simp_all add: svc_total_def p)
qed

lemma register_module_call:
  assumes "svc_ok c" and "register_module a b n v o' c = Some (r, c')"
  shows "svc_call c c'"
proof -
  consider "c' = c" | h where "c' = c\<lparr>mo_log_mods := h\<rparr>"
    | d c1 ds m where "serialize_log_mod d c1 = Some c'" "c1 = c\<lparr>mo_log_mods := ds, mo_log_mod_map := m\<rparr>"
    using assms(2) by (auto simp: register_module_def Let_def split: if_splits option.splits bind_splits)
  then show ?thesis
  proof cases
    case 2
    with assms(1) show ?thesis
      by (simp add: svc_call_def quiet_def svc_ok_def core_ok_def svc_inv_def svc_addrs_def svc_total_def)
  next
    case 3
    have k: "svc_ok c1" using assms(1) by (simp add: 3(2) svc_ok_def core_ok_def svc_inv_def svc_addrs_def)
    show ?thesis by (rule svc_call_registries [OF serialize_call(2) [OF k 3(1)]]) (simp_all add: 3(2) svc_total_def)
  qed (use svc_call_refl [OF assms(1)] in simp)
qed

lemma register_mtk_call:
  assumes "svc_ok c" and "register_mtk al b c = Some (r, c')"
  shows "svc_call c c'"
proof (cases "c' = c")
  case True
  with svc_call_refl [OF assms(1)] show ?thesis by simp
next
  case False
  with assms(2) obtain d bl j ds m n where
    s: "serialize_mtk_desc d bl j (c\<lparr>mo_mtk_descs := ds, mo_mtk_name_map := m, mu_mtk_count := n\<rparr>) = Some c'"
    by (auto simp: register_mtk_def Let_def split: if_splits option.splits bind_splits prod.splits)
  have k: "svc_ok (c\<lparr>mo_mtk_descs := ds, mo_mtk_name_map := m, mu_mtk_count := n\<rparr>)"
    using assms(1) by (simp add: svc_ok_def core_ok_def svc_inv_def svc_addrs_def)
  show ?thesis by (rule svc_call_registries [OF serialize_call(3) [OF k s]]) (simp_all add: svc_total_def)
qed

text \<open>Calls of other threads between two steps of the worker: registrations, and threads that
  start or end their writer. \<open>registered\<close> keeps to writers that are created and destroyed once.\<close>

datatype other_call =
    Register_attr bool bool "cstr option" e_p8_attr_type
  | Register_module bool bool "cstr option" e_p8_level bool
  | Register_metric mtk_alloc "s_p8_mtk_base option"
  | Start_writer nat u32
  | End_writer nat

definition registered :: "nat \<Rightarrow> writer_list \<Rightarrow> bool" where
  "registered a wl \<longleftrightarrow> (\<exists>xs. wl_rep wl xs \<and> a \<in> set xs)"

definition with_core :: "('r \<times> core) option \<Rightarrow> engine \<Rightarrow> engine" where
  "with_core r e = (case r of None \<Rightarrow> e | Some (_, c) \<Rightarrow> (c, snd e))"

fun other_act :: "other_call \<Rightarrow> engine \<Rightarrow> engine" where
  "other_act (Register_attr a b n t) e = with_core (attr_register a b n t (fst e)) e"
| "other_act (Register_module a b n v p) e = with_core (register_module a b n v p (fst e)) e"
| "other_act (Register_metric al b) e = with_core (register_mtk al b (fst e)) e"
| "other_act (Start_writer a thread) e =
     (if registered a (snd e) then e else (fst e, writer_attach a thread (snd e)))"
| "other_act (End_writer a) e = (if registered a (snd e) then writer_detach a (fst e) (snd e) else e)"

definition engine_acts :: "(nat \<Rightarrow> other_call list) \<Rightarrow> engine_interference" where
  "engine_acts acts n e = fold other_act (acts n) e"

lemma svc_call_engine:
  assumes ok: "engine_ok held xs (c, wl)" and s: "svc_call c c'"
  shows "engine_ok held xs (c', wl) \<and> engine_keeps held c c'"
proof -
  have q: "quiet c c'" using s by (simp add: svc_call_def)
  then have w: "waiting_bufs xs (c', wl) = waiting_bufs xs (c, wl)" by (simp add: waiting_bufs_def quiet_def)
  let ?bs = "set (held @ waiting_bufs xs (c, wl))"
  have o: "?bs \<subseteq> owned (mp_data_pool c)" "?bs \<inter> set (svc_addrs c) = {}" "\<forall>a \<in> ?bs. size_ok (co_mem c) a"
    using ok by (simp_all add: engine_ok_def)
  have m: "co_mem c' a = co_mem c a" if "a \<in> ?bs" for a
  proof -
    have "a \<in> owned (mp_data_pool c) - set (svc_addrs c)" using o(1,2) that by blast
    with q show ?thesis unfolding quiet_def by blast
  qed
  have sz: "size_ok (co_mem c') a = size_ok (co_mem c) a" if "a \<in> ?bs" for a
    using m [OF that] by (simp add: size_ok_def buf_size_def rd_def)
  have "?bs \<subseteq> owned (mp_data_pool c')" using o(1) q unfolding quiet_def by blast
  moreover have "?bs \<inter> set (svc_addrs c') = {}" using o(1,2) q unfolding quiet_def by blast
  moreover have "\<forall>a \<in> ?bs. size_ok (co_mem c') a" using o(3) sz by blast
  moreover have "writers_ok xs (c', wl)"
  proof (rule writers_ok_keep [of xs c wl])
    show "writers_ok xs (c, wl)" using ok by (simp add: engine_ok_def)
    show "core_ok c'" "prefix (mo_attr_descs c) (mo_attr_descs c')" using s by (simp_all add: svc_call_def svc_ok_def)
    show "set (waiting_bufs xs (c, wl)) \<subseteq> owned (mp_data_pool c')" using calculation(1) by simp
    show "co_mem c' a = co_mem c a" if "a \<in> set (waiting_bufs xs (c, wl))" for a using m [of a] that by simp
  qed
  ultimately have "engine_ok held xs (c', wl)"
    using ok s unfolding engine_ok_def w fst_conv snd_conv svc_call_def by blast
  moreover have "set held \<union> set (mo_ready_queue c) \<subseteq> ?bs" by (auto simp: waiting_bufs_def)
  then have "engine_keeps held c c'" using s q m unfolding engine_keeps_def svc_call_def quiet_def
    by (metis prefix_order.order_refl subsetD)
  ultimately show ?thesis ..
qed

lemma engine_keeps_refl [simp]: "engine_keeps held c c"
  by (simp add: engine_keeps_def)

lemma engine_keeps_trans: "engine_keeps held c c1 \<Longrightarrow> engine_keeps held c1 c2 \<Longrightarrow> engine_keeps held c c2"
  unfolding engine_keeps_def using set_mono_prefix by (metis Un_iff prefix_order.trans subset_iff)

text \<open>The same buffers in other places.\<close>

lemma engine_ok_moved:
  assumes ok: "engine_ok held xs (c, wl)" and r: "wl_rep wl' xs'" and wo: "writers_ok xs' (c', wl')"
    and m: "mset (waiting_bufs xs' (c', wl')) = mset (waiting_bufs xs (c, wl))"
    and f: "co_mem c' = co_mem c" "mo_svc_buffers c' = mo_svc_buffers c" "mp_data_pool c' = mp_data_pool c"
      "mb_initialized c' = mb_initialized c"
  shows "engine_ok held xs' (c', wl')"
proof -
  have "mset (held @ waiting_bufs xs' (c', wl')) = mset (held @ waiting_bufs xs (c, wl))" using m by simp
  then have "distinct (held @ waiting_bufs xs' (c', wl')) = distinct (held @ waiting_bufs xs (c, wl))"
    "set (held @ waiting_bufs xs' (c', wl')) = set (held @ waiting_bufs xs (c, wl))"
    by (metis mset_eq_imp_distinct_iff, metis mset_eq_setD)
  moreover have "svc_ok c' = svc_ok c" "svc_addrs c' = svc_addrs c"
    using f by (simp_all add: svc_ok_def core_ok_def svc_inv_def svc_addrs_def)
  ultimately show ?thesis using ok r wo f unfolding engine_ok_def fst_conv snd_conv by simp
qed

lemma mset_waiting: "mset (waiting_bufs xs (c, wl)) = total_bufs c [] wl xs"
  by (simp add: waiting_bufs_def total_bufs_def mset_concat comp_def)

lemma attach_engine:
  assumes ok: "engine_ok held xs (c, wl)" and w: "w \<notin> set xs"
  shows "engine_ok held (w # xs) (c, writer_attach w thread wl)"
proof -
  have r: "wl_rep wl xs" and wo: "writers_ok xs (c, wl)" and c: "core_ok c" using ok by (simp_all add: engine_ok_def svc_ok_def)
  let ?new = "(tls_writer_create True thread 0)\<lparr>mu_writer_id := mu_writers_seq wl + 1\<rparr>"
  have "mo_attr_cache ?new = take 0 (mo_attr_descs c)" by (simp add: tls_writer_create_def)
  then have "cache_ok ?new c" unfolding cache_ok_def by blast
  with c have "wr_inv ty ?new c" for ty by (simp add: wr_inv_def tls_writer_create_def bufs_def)
  then have "writers_ok (w # xs) (c, writer_attach w thread wl)" using wo w
    by (auto simp: writers_ok_def writer_attach_def register_nodes)
  with attach_rep(1,5) [OF r w] engine_ok_moved [OF ok, of _ "w # xs" c] show ?thesis unfolding mset_waiting by auto
qed

lemma detach_engine:
  assumes ok: "engine_ok held xs (c, wl)" and w: "w \<in> set xs" and d: "writer_detach w c wl = (c', wl')"
  shows "engine_ok held (remove1 w xs) (c', wl')" and "engine_keeps held c c'" and "mp_data_pool c' = mp_data_pool c"
proof -
  have r: "wl_rep wl xs" and i: "mb_initialized c" using ok by (simp_all add: engine_ok_def svc_ok_def core_ok_def)
  note dr = detach_rep [OF r w i d]
  have f: "co_mem c' = co_mem c" "mo_svc_buffers c' = mo_svc_buffers c" "mp_data_pool c' = mp_data_pool c"
    "mb_initialized c' = mb_initialized c" "svc_total c' = svc_total c" "co_svc_sent c' = co_svc_sent c"
    "prefix (mo_ready_queue c) (mo_ready_queue c')" "mo_attr_descs c' = mo_attr_descs c"
    using d i by (auto simp: writer_detach_def core_push_def submit_chain_def submit_buffer_def notify_def
        accumulate_dropped_def svc_total_def Let_def split: prod.splits if_splits option.splits)
  have dx: "set (remove1 w xs) = set xs - {w}" using r by (simp add: wl_rep_def set_remove1_eq)
  have n: "wn_writer (wl_node wl' b) = wn_writer (wl_node wl b)" if "b \<noteq> w" for b
    using d that by (auto simp: writer_detach_def unregister_nodes split: prod.splits)
  have wo: "\<forall>b \<in> set xs. \<exists>ty. wr_inv ty (wn_writer (wl_node wl b)) c" using ok by (simp add: engine_ok_def writers_ok_def)
  have same: "wr_inv ty x c' = wr_inv ty x c" for ty x using f by (simp add: wr_inv_def core_ok_def cache_ok_def)
  have "writers_ok (remove1 w xs) (c', wl')" unfolding writers_ok_def dx same snd_conv fst_conv
  proof
    fix b
    assume "b \<in> set xs - {w}"
    then show "\<exists>ty. wr_inv ty (wn_writer (wl_node wl' b)) c" using wo n [of b] by simp
  qed
  then show "engine_ok held (remove1 w xs) (c', wl')"
    by (rule engine_ok_moved [OF ok dr(1)]) (simp_all add: mset_waiting dr(7) f)
  from f show "engine_keeps held c c'" "mp_data_pool c' = mp_data_pool c" by (auto simp: engine_keeps_def)
qed

lemma other_act_engine:
  assumes ok: "engine_ok held xs (c, wl)" and a: "other_act x (c, wl) = (c', wl')"
  shows "(\<exists>xs'. engine_ok held xs' (c', wl')) \<and> engine_keeps held c c'"
proof -
  have s: "svc_ok c" and r: "wl_rep wl xs" and i: "mb_initialized c"
    using ok by (simp_all add: engine_ok_def svc_ok_def core_ok_def)
  have reg: ?thesis if "with_core q (c, wl) = (c', wl')" and "\<And>r c1. q = Some (r, c1) \<Longrightarrow> svc_call c c1" for q :: "('r \<times> core) option"
    using that svc_call_engine [OF ok] ok by (auto simp: with_core_def split: option.splits)
  show ?thesis
  proof (cases x)
    case (Register_attr a b n t)
    with a show ?thesis by (intro reg [of "attr_register a b n t c"] attr_register_call [OF s]) auto
  next
    case (Register_module a b n v p)
    with a show ?thesis by (intro reg [of "register_module a b n v p c"] register_module_call [OF s]) auto
  next
    case (Register_metric al b)
    with a show ?thesis by (intro reg [of "register_mtk al b c"] register_mtk_call [OF s]) auto
  next
    case (Start_writer w thread)
    show ?thesis
    proof (cases "registered w wl")
      case True
      with a Start_writer ok show ?thesis by auto
    next
      case False
      then have w: "w \<notin> set xs" using r by (auto simp: registered_def)
      have e: "c' = c" "wl' = writer_attach w thread wl" using a Start_writer False by auto
      show ?thesis unfolding e using attach_engine [OF ok w] by auto
    qed
  next
    case (End_writer w)
    show ?thesis
    proof (cases "registered w wl")
      case True
      then have w: "w \<in> set xs" using r wl_rep_determined by (auto simp: registered_def)
      have d: "writer_detach w c wl = (c', wl')" using a End_writer True by simp
      show ?thesis using detach_engine [OF ok w d] by auto
    next
      case False
      with a End_writer ok show ?thesis by auto
    qed
  qed
qed

text \<open>Any sequence of such steps is what the worker may meet.\<close>

lemma engine_env_fold:
  assumes step: "\<And>x held xs c wl c' wl'. engine_ok held xs (c, wl) \<Longrightarrow> act x (c, wl) = (c', wl') \<Longrightarrow>
    (\<exists>xs'. engine_ok held xs' (c', wl')) \<and> engine_keeps held c c'"
  shows "engine_env (\<lambda>n. fold act (acts n))"
proof
  fix held xs c wl n c' wl'
  have "engine_ok held xs (c, wl) \<Longrightarrow> fold act as (c, wl) = (c', wl') \<Longrightarrow>
    (\<exists>xs'. engine_ok held xs' (c', wl')) \<and> engine_keeps held c c'" for as
  proof (induction as arbitrary: c wl xs)
    case (Cons x as)
    obtain c1 wl1 where x: "act x (c, wl) = (c1, wl1)" by fastforce
    from step [OF Cons.prems(1) this] obtain xs1 where "engine_ok held xs1 (c1, wl1)" "engine_keeps held c c1" by blast
    with Cons.IH [of xs1 c1 wl1] Cons.prems(2) x engine_keeps_trans show ?case by auto
  qed auto
  then show "engine_ok held xs (c, wl) \<Longrightarrow> fold act (acts n) (c, wl) = (c', wl') \<Longrightarrow>
    (\<exists>xs'. engine_ok held xs' (c', wl')) \<and> engine_keeps held c c'" .
qed

interpretation acting: engine_env "engine_acts acts" for acts
  unfolding engine_acts_def [abs_def] by (rule engine_env_fold) (rule other_act_engine)

section \<open>The whole run\<close>

text \<open>The batches among the sink's calls, and the service bytes.\<close>

fun data_of :: "sink_call list \<Rightarrow> (s_p8_batch \<times> byte list list) list" where
  "data_of [] = []"
| "data_of (Data_call b bs # cs) = (b, bs) # data_of cs"
| "data_of (_ # cs) = data_of cs"

fun services_of :: "sink_call list \<Rightarrow> byte list" where
  "services_of [] = []"
| "services_of (Service_call sv # cs) = sv @ services_of cs"
| "services_of (_ # cs) = services_of cs"

lemma calls_append [simp]:
  "data_of (xs @ ys) = data_of xs @ data_of ys" "services_of (xs @ ys) = services_of xs @ services_of ys"
  by (induction xs rule: data_of.induct) auto

text \<open>Batches as a receiver may expect them, from the number, time and kind of the last one: they
  are numbered consecutively, count their buffers, do not go back in time, and an empty one
  comes only after the waiting time.\<close>

fun batch_seq :: "u64 \<Rightarrow> u64 \<Rightarrow> u64 \<Rightarrow> bool \<Rightarrow> u16 \<Rightarrow> (s_p8_batch \<times> byte list list) list \<Rightarrow> bool" where
  "batch_seq tail idle t with_data k [] \<longleftrightarrow> True"
| "batch_seq tail idle t with_data k ((b, bs) # ds) \<longleftrightarrow> bat_packet_type b = P8_PACKET_BATCH \<and> bat_batch b = k
     \<and> bat_count b = word_of_nat (length bs) \<and> t \<le> bat_timestamp b
     \<and> (bs = [] \<longrightarrow> (if with_data then tail else idle) \<le> bat_timestamp b - t)
     \<and> batch_seq tail idle (bat_timestamp b) (0 < bat_count b) (k + 1) ds"

definition batch_seq_from :: "core \<Rightarrow> (s_p8_batch \<times> byte list list) list \<Rightarrow> bool" where
  "batch_seq_from c = batch_seq (mu_batch_tail_ticks c) (mu_batch_idle_ticks c) (mu_batch_last_ts c)
     (mb_batch_with_data c) (mu_batch_index c)"

lemma batch_ts_mono: "x \<le> y \<Longrightarrow> batch_ts c x \<le> batch_ts c y"
  by (auto simp: batch_ts_def word_le_nat_alt word_less_nat_alt unat_sub)

lemma batch_seq_data_calls:
  assumes "worker_fields c2 = fields_after c bs ts" and "mu_batch_last_ts c \<le> ts" and "batch_seq_from c2 ds"
  shows "batch_seq_from c (data_of (data_calls c m bs ts) @ ds)" and "mu_batch_last_ts c2 \<le> ts"
    and "mu_batch_margin_ticks c2 = mu_batch_margin_ticks c"
  using assms
  by (auto simp: data_calls_def fields_after_def worker_fields_def batch_seq_from_def next_batch_def batch_due_def due_wait_def
      split: if_splits)

lemma batch_seq_from_cong: "worker_fields c' = worker_fields c \<Longrightarrow> batch_seq_from c' = batch_seq_from c"
  by (simp add: worker_fields_def batch_seq_from_def)

text \<open>The buffers a sink is given say their own length.\<close>

definition buf_wf :: "byte list \<Rightarrow> bool" where
  "buf_wf x \<longleftrightarrow> sizeof_data_buf_hdr \<le> length x \<and> unat (dbh_size (dec_dbh x)) = length x"

lemma size_ok_wf: "size_ok m a \<Longrightarrow> buf_wf (buffer_bytes m a)"
  using buffer_size_field [of m a "[]"] by (simp add: size_ok_def buf_wf_def) (simp add: buffer_bytes_def)

abbreviation bufs_of :: "sink_call list \<Rightarrow> byte list list" where
  "bufs_of calls \<equiv> concat (map snd (data_of calls))"

lemma bufs_data_calls: "bufs_of (data_calls c m bs ts) = map (buffer_bytes m) bs"
  by (auto simp: data_calls_def batch_due_def)

text \<open>The clock does not go back.\<close>

definition clock_ok :: "core \<Rightarrow> worker_in list \<Rightarrow> bool" where
  "clock_ok c is \<longleftrightarrow> sorted (map wi_ticks is) \<and> (is \<noteq> [] \<longrightarrow> mu_batch_last_ts c \<le> batch_ts c (wi_ticks (hd is)))"

context engine_env
begin

lemma loop:
  assumes "\<exists>i \<in> set is. wi_stop i" and "engine_ok [] xs (c, wl)"
  shows "\<exists>l c' wl' xs' new. worker_loop env rec_ops pt is ([], l0) (c, wl) s = Some (([], l), (c', wl'), s @ new)
    \<and> engine_ok [] xs' (c', wl') \<and> co_svc_sent c' = co_svc_sent c @ services_of new
    \<and> (clock_ok c is \<longrightarrow> batch_seq_from c (data_of new)) \<and> (\<forall>x \<in> set (bufs_of new). buf_wf x)
    \<and> (\<forall>(b, bs) \<in> set (data_of new). bat_packet_type b = P8_PACKET_BATCH \<and> bat_count b = word_of_nat (length bs))
    \<and> prefix (map (buffer_bytes (co_mem c)) (waiting_bufs xs (c, wl))) (bufs_of new)
    \<and> prefix (svc_total c) (co_svc_sent c')"
  using assms
proof (induction "is" arbitrary: xs c wl l0 s)
  case Nil
  then show ?case by simp
next
  case (Cons i "is")
  let ?ts = "batch_ts c (wi_ticks i)"
  obtain data and c1 :: core and sbs sv l1 c2 wl2 xs2 where
    w: "worker_cycle env rec_ops pt i ([], l0) (c, wl) s = Some (([], l1), (c2, wl2),
      s @ service_calls sbs sv @ data_calls c (co_mem c1) data ?ts @ [Flush_call])"
    and sv: "sbs = [] \<longrightarrow> sv = []" "co_svc_sent c2 = co_svc_sent c @ sv"
    and ok2: "engine_ok [] xs2 (c2, wl2)" and f: "worker_fields c2 = fields_after c data ?ts"
    and w1: "prefix (waiting_bufs xs (c, wl)) data" "\<forall>a \<in> set data. size_ok (co_mem c1) a"
      "map (buffer_bytes (co_mem c1)) (waiting_bufs xs (c, wl)) = map (buffer_bytes (co_mem c)) (waiting_bufs xs (c, wl))"
    and sp: "prefix (svc_total c1) (co_svc_sent c2)" "prefix (svc_total c) (svc_total c1)"
    by (rule cycle [OF Cons.prems(2), of i pt l0 s]) blast
  let ?calls = "service_calls sbs sv @ data_calls c (co_mem c1) data ?ts @ [Flush_call]"
  have cs: "services_of ?calls = sv" "data_of ?calls = data_of (data_calls c (co_mem c1) data ?ts)"
    using sv(1) by (auto simp: service_calls_def data_calls_def)
  have bf: "bufs_of ?calls = map (buffer_bytes (co_mem c1)) data" using cs(2) bufs_data_calls by simp
  have wf: "\<forall>x \<in> set (bufs_of ?calls). buf_wf x" unfolding bf using w1(2) size_ok_wf by auto
  have del: "prefix (map (buffer_bytes (co_mem c)) (waiting_bufs xs (c, wl))) (bufs_of ?calls)"
    unfolding bf using map_mono_prefix [OF w1(1), of "buffer_bytes (co_mem c1)"] w1(3) by simp
  have bt: "\<forall>(b, bs) \<in> set (data_of ?calls). bat_packet_type b = P8_PACKET_BATCH \<and> bat_count b = word_of_nat (length bs)"
    unfolding cs(2) by (simp add: data_calls_def next_batch_def)
  have sp2: "prefix (svc_total c) (co_svc_sent c2)" by (rule prefix_order.trans [OF sp(2,1)])
  have first: "mu_batch_last_ts c \<le> ?ts" if "clock_ok c (i # is)" using that by (simp add: clock_ok_def)
  show ?case
  proof (cases "wi_stop i")
    case True
    have "batch_seq_from c (data_of ?calls)" if "clock_ok c (i # is)"
      using batch_seq_data_calls(1) [OF f first [OF that], of "[]" "co_mem c1"] cs(2) by (simp add: batch_seq_from_def)
    then show ?thesis using True w sv ok2 cs(1) wf del bt sp2
      by (intro exI [of _ l1] exI [of _ c2] exI [of _ wl2] exI [of _ xs2] exI [of _ ?calls]) simp
  next
    case False
    with Cons.prems(1) have st: "\<exists>i \<in> set is. wi_stop i" by auto
    obtain c3 wl3 where m: "meanwhile env (c2, wl2) = (c3, wl3)" by fastforce
    from meanwhile_engine [OF ok2 m] obtain xs3 where ok3: "engine_ok [] xs3 (c3, wl3)" and
      k: "engine_keeps [] c2 c3" "worker_fields c3 = worker_fields c2" by blast
    from Cons.IH [OF st ok3, of l1 "s @ ?calls"] obtain l c' wl' xs' new where
      r: "worker_loop env rec_ops pt is ([], l1) (c3, wl3) (s @ ?calls) = Some (([], l), (c', wl'), (s @ ?calls) @ new)"
      "engine_ok [] xs' (c', wl')" "co_svc_sent c' = co_svc_sent c3 @ services_of new"
      "clock_ok c3 is \<longrightarrow> batch_seq_from c3 (data_of new)" "\<forall>x \<in> set (bufs_of new). buf_wf x"
      "\<forall>(b, bs) \<in> set (data_of new). bat_packet_type b = P8_PACKET_BATCH \<and> bat_count b = word_of_nat (length bs)" by blast
    have "worker_loop env rec_ops pt (i # is) ([], l0) (c, wl) s = Some (([], l), (c', wl'), s @ (?calls @ new))"
      using w False m r(1) by simp
    moreover have "co_svc_sent c' = co_svc_sent c @ services_of (?calls @ new)"
      using r(3) k(1) sv(2) cs(1) by (simp add: engine_keeps_def)
    moreover have "batch_seq_from c (data_of (?calls @ new))" if ck: "clock_ok c (i # is)"
    proof -
      note f3 = f [folded k(2)]
      have "\<forall>j \<in> set is. wi_ticks i \<le> wi_ticks j" "sorted (map wi_ticks is)" using ck by (simp_all add: clock_ok_def)
      moreover have "batch_ts c3 x = batch_ts c x" for x
        using f3 by (auto simp: fields_after_def worker_fields_def batch_ts_def split: if_splits)
      moreover have "mu_batch_last_ts c3 \<le> ?ts"
        using f3 first [OF ck] by (auto simp: fields_after_def worker_fields_def split: if_splits)
      ultimately have "clock_ok c3 is" unfolding clock_ok_def
        by (metis batch_ts_mono hd_in_set order_trans)
      with r(4) have "batch_seq_from c3 (data_of new)" by simp
      from batch_seq_data_calls(1) [OF f3 first [OF ck] this, of "co_mem c1"] show ?thesis using cs(2) by simp
    qed
    moreover have app: "bufs_of (?calls @ new) = bufs_of ?calls @ bufs_of new" "data_of (?calls @ new) = data_of ?calls @ data_of new"
      unfolding calls_append(1) [of ?calls] by simp_all
    moreover have "prefix (map (buffer_bytes (co_mem c)) (waiting_bufs xs (c, wl))) (bufs_of (?calls @ new))"
      unfolding app(1) by (rule prefix_prefix [OF del])
    moreover have "prefix (svc_total c) (co_svc_sent c')"
      using sp2 r(3) k(1) by (auto simp: engine_keeps_def)
    moreover have "\<forall>x \<in> set (bufs_of (?calls @ new)). buf_wf x" 
      unfolding app(1) using wf r(5) by (metis Un_iff set_append)
    moreover have "\<forall>(b, bs) \<in> set (data_of (?calls @ new)). bat_packet_type b = P8_PACKET_BATCH \<and> bat_count b = word_of_nat (length bs)"
      unfolding app(2) set_append ball_Un using bt r(6) by blast
    ultimately show ?thesis using r(2) by blast
  qed
qed

end

section \<open>Properties\<close>

text \<open>An engine at work: one writer with two buffers, filled to some extent.\<close>

definition ex_data_pool :: buffer_pool where
  "ex_data_pool = snd (acquire_no_lock (snd (acquire_no_lock ex_pool)))"

definition ex_mem :: mem where
  "ex_mem a k = (if k < 16 then [1, 0, 0, 16, 7, 0, 0, 0, 1, 0, 0, 0, (if a = 0 then 0 else 1), 0, 0, 0] ! k else 0)"

definition ex_writer :: tls_writer where
  "ex_writer = (tls_writer_create True 7 1)\<lparr>mo_fragments := [0], mp_buffer := Some 1, mz_buf_used := 4096, mu_buf_seq := 2\<rparr>"

definition ex_engine :: engine where
  "ex_engine = ((core_new ex_data_pool)\<lparr>co_mem := ex_mem\<rparr>,
     one_writer\<lparr>wl_node := (\<lambda>_. \<lparr>mp_prev_writer = None, mp_next_writer = None, wn_writer = ex_writer\<rparr>)\<rparr>)"

lemma ex_data_pool_ok: "pool_ok ex_data_pool" "owned ex_data_pool = {0, 1}" "mz_buffer_size ex_data_pool = 8192"
proof -
  have s: "pool_ok ex_pool" using ex_own(1) [of 0 0 0 0] by (simp add: own_inv_def own_bufs_def wr_inv_def core_ok_def core_new_def)
  have a: "acquire_no_lock ex_pool = (Some 0, snd (acquire_no_lock ex_pool))"
    "acquire_no_lock (snd (acquire_no_lock ex_pool)) = (Some 1, ex_data_pool)"
    "mz_buffer_size ex_data_pool = 8192" "owned ex_pool = {}"
    by (simp_all add: ex_data_pool_def ex_pool_def pool_create_def acquire_no_lock_def pool_grow_def pool_reserve_def
        try_reserve_def over_budget_def owned_def pool_new_def Let_def)
  have w: "pool_wf ex_pool" using s by (simp add: pool_ok_def)
  note f = acquire_no_lock_Some [OF w a(1)]
  note g = acquire_no_lock_Some [OF f(1) a(2)]
  show "pool_ok ex_data_pool" using pool_ok_cong [OF g(4,1)] pool_ok_cong [OF f(4,1) s] by simp
  show "owned ex_data_pool = {0, 1}" using f g a(4) by auto
  show "mz_buffer_size ex_data_pool = 8192" by (rule a(3))
qed

lemma ex_mem_header: "rd ex_mem a 4 12 = [7, 0, 0, 0, 1, 0, 0, 0, (if a = 0 then 0 else 1), 0, 0, 0]" "buf_size ex_mem a = 4096"
  by (simp_all add: ex_mem_def rd_def buf_size_def of_le16_def upt_rec nth_Cons')

lemma le_bytes_numeral: "le_bytes (numeral n) x = word_of_nat (x mod 256) # le_bytes (pred_numeral n) (x div 256)"
  using le_bytes.simps(2) [of "pred_numeral n" x] by (simp only: numeral_eq_Suc [of n])

lemma ex_writer_ok: "wr_inv 1 ex_writer (fst ex_engine)"
proof -
  have b: "bufs ex_writer = [0, 1]" by (simp add: ex_writer_def bufs_def)
  have core: "core_ok (fst ex_engine)" using ex_data_pool_ok by (simp add: ex_engine_def core_ok_def core_new_def)
  have "cache_ok ex_writer (fst ex_engine)" by (auto simp: cache_ok_def ex_writer_def tls_writer_create_def)
  moreover have "hdr_ids 1 ex_writer (mu_buf_seq ex_writer - word_of_nat (2 - k)) ex_mem ([0, 1] ! k)" if "k < 2" for k
    using that less_2_cases [OF that]
    by (auto simp: hdr_ids_def ex_mem_header ex_writer_def tls_writer_create_def le32_def le_bytes_numeral) (simp_all add: ex_mem_def)
  moreover have "co_mem (fst ex_engine) = ex_mem" "owned (mp_data_pool (fst ex_engine)) = {0, 1}"
    using ex_data_pool_ok(2) by (simp_all add: ex_engine_def core_new_def)
  ultimately show ?thesis using core unfolding wr_inv_def b
    by (simp add: ex_mem_header) (simp add: ex_writer_def tls_writer_create_def ex_mem_def)
qed

lemma ex_engine_ok: "engine_ok [] [1] ex_engine"
proof -
  have "core_ok (fst ex_engine)" using ex_writer_ok by (simp add: wr_inv_def)
  moreover have "waiting_bufs [1] ex_engine = [0, 1]"
    by (simp add: ex_engine_def waiting_bufs_def core_new_def bufs_def ex_writer_def)
  moreover have "wl_rep (snd ex_engine) [1]" by (simp add: ex_engine_def wl_rep_def one_writer_def ex_writer_def)
  moreover have "size_ok (co_mem (fst ex_engine)) a" for a
    by (simp add: ex_engine_def size_ok_def ex_mem_header)
  moreover have "writers_ok [1] ex_engine" using ex_writer_ok by (auto simp: writers_ok_def ex_engine_def)
  ultimately show ?thesis using ex_data_pool_ok(2)
    by (simp add: engine_ok_def svc_ok_def svc_inv_def svc_addrs_def) (simp add: ex_engine_def core_new_def)
qed

definition ex_acts :: engine_interference where
  "ex_acts = engine_acts (\<lambda>n. [Register_attr True True (Some [97]) e_p8_attr_u64, Start_writer 2 9])"

text \<open>C2 Descriptors before data. Whatever the other threads do between the worker's steps, a cycle
  sends at most one service packet and at most one batch, in this order; when the batch goes out,
  the sink has been given every service byte that existed when the batch's buffers were
  collected, so each descriptor a collected record uses has been sent, the bytes in the order in which they were
  appended, none twice.\<close>
theorem descriptors_first:
  assumes "engine_env env" and "engine_ok [] xs (c, wl)"
  shows "\<exists>ts data c1 wl1 sv svc l1 c2 wl2.
    collect_batch env (wi_ticks i) [] (c, wl) = Some (ts, data, c1, wl1)
    \<and> worker_cycle env rec_ops pt i ([], l0) (c, wl) s
        = Some (([], l1), (c2, wl2), s @ svc @ data_calls c (co_mem c1) data ts @ [Flush_call])
    \<and> (svc = [] \<and> sv = [] \<or> svc = [Service_call sv]) \<and> co_svc_sent c2 = co_svc_sent c @ sv
    \<and> prefix (svc_total c) (svc_total c1) \<and> prefix (svc_total c1) (co_svc_sent c @ sv)"
proof -
  show ?thesis
    by (rule engine_env.cycle [OF assms(1,2), of i pt l0 s]) (force simp: service_calls_def split: if_splits)
qed

theorem descriptors_first_witness:
  "\<exists>ts data c1 wl1. collect_batch ex_acts 5 [] ex_engine = Some (ts, data, c1, wl1)"
  using descriptors_first [OF acting.engine_env_axioms, of "[1]" "fst ex_engine" "snd ex_engine"
      "\<lambda>n. [Register_attr True True (Some [97]) e_p8_attr_u64, Start_writer 2 9]"
      "\<lparr>wi_ticks = 5, wi_hires_ticks = 0, wi_stop = False\<rparr>" 0 0 "[]"] ex_engine_ok
  unfolding ex_acts_def by (simp only: prod.collapse worker_in.simps) blast

text \<open>C3 A cycle delivers. Every buffer that a registered writer holds or that is in the ready
  queue when the cycle begins goes to the sink in that cycle's batch, writer by writer in the
  order in which they were filled and with the bytes they had; the batch counts its buffers; the worker keeps none
  and the buffers of the pool stay accounted for.\<close>
theorem cycle_delivers:
  assumes "engine_env env" and "engine_ok [] xs (c, wl)" and "waiting_bufs xs (c, wl) \<noteq> []"
  shows "\<exists>pre b bs l1 e2 xs2. worker_cycle env rec_ops pt i ([], l0) (c, wl) s
      = Some (([], l1), e2, s @ pre @ [Data_call b bs, Flush_call])
    \<and> prefix (map (buffer_bytes (co_mem c)) (waiting_bufs xs (c, wl))) bs
    \<and> bat_count b = word_of_nat (length bs) \<and> bat_batch b = mu_batch_index c
    \<and> data_of pre = [] \<and> engine_ok [] xs2 e2"
proof -
  obtain data and c1 :: core and sbs sv l1 c2 wl2 xs2 where
    w: "worker_cycle env rec_ops pt i ([], l0) (c, wl) s = Some (([], l1), (c2, wl2),
      s @ service_calls sbs sv @ data_calls c (co_mem c1) data (batch_ts c (wi_ticks i)) @ [Flush_call])"
    and ok: "engine_ok [] xs2 (c2, wl2)" and p: "prefix (waiting_bufs xs (c, wl)) data"
    "map (buffer_bytes (co_mem c1)) (waiting_bufs xs (c, wl)) = map (buffer_bytes (co_mem c)) (waiting_bufs xs (c, wl))"
    by (rule engine_env.cycle [OF assms(1,2), of i pt l0 s]) blast
  let ?b = "next_batch c data (batch_ts c (wi_ticks i))" and ?bs = "map (buffer_bytes (co_mem c1)) data"
  have "data \<noteq> []" using p(1) assms(3) by auto
  then have "data_calls c (co_mem c1) data (batch_ts c (wi_ticks i)) = [Data_call ?b ?bs]"
    by (simp add: data_calls_def batch_due_def)
  moreover have "prefix (map (buffer_bytes (co_mem c)) (waiting_bufs xs (c, wl))) ?bs"
    using map_mono_prefix [OF p(1), of "buffer_bytes (co_mem c1)"] p(2) by simp
  moreover have "bat_count ?b = word_of_nat (length ?bs)" "bat_batch ?b = mu_batch_index c"
    by (simp_all add: next_batch_def)
  moreover have "data_of (service_calls sbs sv) = []" by (simp add: service_calls_def)
  ultimately show ?thesis using w ok
    by (intro exI [of _ "service_calls sbs sv"] exI [of _ ?b] exI [of _ ?bs] exI [of _ l1] exI [of _ "(c2, wl2)"] exI [of _ xs2]) simp
qed

theorem cycle_delivers_witness:
  "\<exists>pre b bs l1 e2. worker_cycle ex_acts rec_ops 3 \<lparr>wi_ticks = 5, wi_hires_ticks = 9, wi_stop = False\<rparr> ([], 0) ex_engine []
      = Some (([], l1), e2, pre @ [Data_call b bs, Flush_call]) \<and> 2 \<le> length bs"
proof -
  have "waiting_bufs [1] (fst ex_engine, snd ex_engine) = [0, 1]"
    by (simp add: ex_engine_def waiting_bufs_def core_new_def bufs_def ex_writer_def)
  with cycle_delivers [OF acting.engine_env_axioms, of "[1]" "fst ex_engine" "snd ex_engine"
      "\<lambda>n. [Register_attr True True (Some [97]) e_p8_attr_u64, Start_writer 2 9]" 3
      "\<lparr>wi_ticks = 5, wi_hires_ticks = 9, wi_stop = False\<rparr>" 0 "[]"] ex_engine_ok
  show ?thesis by (fastforce simp: ex_acts_def dest: prefix_length_le)
qed

text \<open>C29 The worker's loop ends, with the cycle that sees the stop signal, and what it has sent over
  its whole run is in order: the service packets carry exactly the service bytes taken, and, if
  the clock does not go back, the batches are numbered consecutively modulo 2^16, count their
  buffers, have times that never decrease, and an empty one comes only after the waiting time
  that follows a batch with data or an empty one.\<close>
theorem worker_run:
  assumes "engine_env env" and "engine_ok [] xs (c, wl)" and "\<exists>i \<in> set is. wi_stop i"
  shows "\<exists>c' wl' xs' new. worker_main env rec_ops numer denom start is (c, wl) s = Some ((c', wl'), s @ new)
    \<and> engine_ok [] xs' (c', wl') \<and> co_svc_sent c' = co_svc_sent c @ services_of new
    \<and> (clock_ok c is \<longrightarrow> batch_seq_from c (data_of new))"
proof -
  show ?thesis using engine_env.loop [OF assms(1,3,2), of "stats_poll_ticks numer denom" start s]
    by (fastforce simp: worker_main_def)
qed

theorem worker_run_witness:
  "\<exists>e' new. worker_main ex_acts rec_ops 1 1 0 [\<lparr>wi_ticks = 5, wi_hires_ticks = 9, wi_stop = False\<rparr>,
      \<lparr>wi_ticks = 7, wi_hires_ticks = 11, wi_stop = True\<rparr>] ex_engine [] = Some (e', new)
    \<and> batch_seq_from (fst ex_engine) (data_of new)"
proof -
  have "clock_ok (fst ex_engine) [\<lparr>wi_ticks = 5, wi_hires_ticks = 9, wi_stop = False\<rparr>,
      \<lparr>wi_ticks = 7, wi_hires_ticks = 11, wi_stop = True\<rparr>]"
    by (simp add: clock_ok_def ex_engine_def core_new_def batch_ts_def)
  with worker_run [OF acting.engine_env_axioms, of "[1]" "fst ex_engine" "snd ex_engine"
      "[\<lparr>wi_ticks = 5, wi_hires_ticks = 9, wi_stop = False\<rparr>, \<lparr>wi_ticks = 7, wi_hires_ticks = 11, wi_stop = True\<rparr>]"
      "\<lambda>n. [Register_attr True True (Some [97]) e_p8_attr_u64, Start_writer 2 9]" 1 1 0 "[]"] ex_engine_ok
  show ?thesis by (auto simp: ex_acts_def)
qed

end
