(* ===== verification/P8_Apart.thy ===== *)
theory P8_Apart
  imports P8_Worker P8_Log P8_Metric P8_Trace
begin

text \<open>
  Calls that leave everything to others that is theirs. \<open>P8_Emit\<close> shows it of a record that is
  written or discarded (\<open>leaves\<close>); here it is shown of whole calls, of \<open>log_send\<close>,
  \<open>mtk_emit\<close>, \<open>trc_begin\<close> and \<open>trc_end\<close>, when the other threads that act while the call waits
  do so too (\<open>calm_threads\<close>). A call keeps the invariant of its writer, lets the registries
  and the service bytes only grow, and touches no buffer but its writer's and the service buffers.
\<close>

section \<open>Other threads that act calmly\<close>

locale calm_threads = other_threads +
  assumes calm: "own_inv ty self h w c \<Longrightarrow> env n (w, c) = (w', c') \<Longrightarrow> leaves w c w' c'"
    and calm_served: "own_bufs ty {} w c \<Longrightarrow> parked self c \<Longrightarrow> env n (w, c) = (w', c') \<Longrightarrow>
      fst (acquire_wait_resume self (mp_data_pool c')) = Some r \<Longrightarrow> leaves w c w' c' \<and> set_option r \<inter> foreign w c = {}"

text \<open>What a call keeps.\<close>

definition call_keeps :: "(byte list \<Rightarrow> u64) \<Rightarrow> byte \<Rightarrow> nat \<Rightarrow> tls_writer \<Rightarrow> core \<Rightarrow> tls_writer \<Rightarrow> core \<Rightarrow> bool" where
  "call_keeps xxh ty self w c w' c' \<longleftrightarrow> own_inv ty self {} w' c' \<and> grows xxh c c' \<and> leaves w c w' c'
     \<and> writer_who w' = writer_who w"

lemma call_keeps_refl: "own_inv ty self {} w c \<Longrightarrow> call_keeps xxh ty self w c w c"
  by (simp add: call_keeps_def)

lemma call_keeps_trans: "call_keeps xxh ty self w c w1 c1 \<Longrightarrow> call_keeps xxh ty self w1 c1 w2 c2 \<Longrightarrow> call_keeps xxh ty self w c w2 c2"
  unfolding call_keeps_def using grows_trans leaves_trans by metis

lemma call_keeps_evolves:
  "own_inv ty self {} w' c' \<Longrightarrow> evolves xxh w c w' c' \<Longrightarrow> leaves w c w' c' \<Longrightarrow> call_keeps xxh ty self w c w' c'"
  using writer_who_simps(1) [of w' w] unfolding call_keeps_def by (simp add: evolves_grows) (simp add: evolves_def)

lemma call_keeps_step: "rec_step xxh ty self w c w' c' \<Longrightarrow> call_keeps xxh ty self w c w' c'"
  by (simp add: call_keeps_def rec_step_def)

lemma call_keeps_parked:
  assumes "own_inv ty self {} w c"
  shows "call_keeps xxh ty self w c (park w) c" and "call_keeps xxh ty self w c ((park w)\<lparr>mz_buf_used := n\<rparr>) c"
  using park_own [OF assms] by (simp_all add: call_keeps_def park_leaves writer_who_simps(3,4))

lemma call_keeps_drops:
  "call_keeps xxh ty self w c (drop_log w') c' = call_keeps xxh ty self w c w' c'"
  "call_keeps xxh ty self w c (drop_metric w') c' = call_keeps xxh ty self w c w' c'"
  "call_keeps xxh ty self w c (drop_trace w') c' = call_keeps xxh ty self w c w' c'"
  by (simp_all add: call_keeps_def)

text \<open>Steps on the pool.\<close>

lemma leaves_moment [simp]: "leaves w c w' (c'\<lparr>co_moment := k\<rparr>) = leaves w c w' c'"
  by (simp add: leaves_def foreign_def svc_addrs_def)

lemma leaves_pool:
  assumes "core_static c' = core_static c" and "co_mem c' = co_mem c" and "owned (mp_data_pool c) \<subseteq> owned (mp_data_pool c')"
  shows "leaves w c w c'"
  using leaves_owned [of c' c "{}" w w] assms by auto

lemma foreign_owned: "leaves w c w' c' \<Longrightarrow> foreign w c \<subseteq> owned (mp_data_pool c')"
  unfolding leaves_def foreign_def by blast

lemma foreign_back: "leaves w c w1 c1 \<Longrightarrow> A \<inter> foreign w1 c1 = {} \<Longrightarrow> A \<inter> foreign w c = {}"
  unfolding leaves_def by blast

lemma fresh_apart: "leaves w c w' c' \<Longrightarrow> A \<inter> owned (mp_data_pool c') = {} \<Longrightarrow> A \<inter> foreign w c = {}"
  using foreign_owned [of w c w' c'] by blast

context calm_threads
begin

lemma others_calm:
  assumes "own_inv ty self h w c" and "others env w c = (w', c')"
  shows "leaves w c w' c'"
  using assms calm [OF assms(1), of "co_moment c"] by (auto simp: others_def split: prod.splits)

text \<open>A buffer that is handed over was nobody's, or that of the thread that recycled it.\<close>

lemma parked_calm:
  assumes own: "own_inv ty self {} w c" and en: "acquire_wait_enter self (mp_data_pool c) = (Parked, p)"
    and o: "others env w ((notify_pressure c)\<lparr>mp_data_pool := p\<rparr>) = (w3, c5)"
    and re: "acquire_wait_resume self (mp_data_pool c5) = (Some r, p')"
    and fin: "others env w3 (c5\<lparr>mp_data_pool := acquire_wait_leave p'\<rparr>) = (w', c')"
  shows "leaves w c w' c' \<and> set_option r \<inter> foreign w c = {}"
proof -
  define c4 where "c4 = (notify_pressure c)\<lparr>mp_data_pool := p\<rparr>"
  have o4: "own_bufs ty {} w c4" and pk: "parked self c4"
    using enter_own [OF own en] by (simp_all flip: c4_def)
  obtain ws where wf: "pool_wf (mp_data_pool c)" and ws: "wait_queue (mp_data_pool c) ws"
    using own by (auto simp: own_inv_def own_bufs_def wr_inv_def core_ok_def pool_ok_def)
  have mw: "self \<notin> set ws" "length ws + 1 < 2 ^ 32" using own ws by (auto simp: own_inv_def may_wait_def)
  have l4: "leaves w c w c4"
    by (rule leaves_pool) (simp_all add: c4_def enter_Parked(3) [OF wf ws mw en])
  obtain c5' where en5: "env (co_moment c4) (w, c4) = (w3, c5')" and c5: "c5 = c5'\<lparr>co_moment := Suc (co_moment c4)\<rparr>"
    using o by (auto simp: others_def c4_def split: prod.splits)
  have re5: "fst (acquire_wait_resume self (mp_data_pool c5')) = Some r" using re c5 by simp
  note l5 = calm_served [OF o4 pk en5 re5]
  have own5: "own_inv ty self (set_option r) w3 c5'" using hands_over [OF o4 pk en5 re5] by simp
  have p': "p' = mp_data_pool c5" using re by (auto simp: acquire_wait_resume_def split: if_splits)
  let ?c6 = "c5\<lparr>mp_data_pool := acquire_wait_leave p'\<rparr>"
  have ow: "owned (acquire_wait_leave q) = owned q" for q by (simp add: acquire_wait_leave_def owned_def)
  have l6: "leaves w3 c5' w3 ?c6"
    by (simp add: leaves_def foreign_def svc_addrs_def c5 p' ow)
  have own6: "own_inv ty self (set_option r) w3 ?c6"
  proof -
    have wl: "wait_queue (acquire_wait_leave q) vs = wait_queue q vs"
      and sl: "on_shards (acquire_wait_leave q) vs = on_shards q vs" for q vs
      by (simp_all add: acquire_wait_leave_def wait_queue_def on_shards_def)
    have pl: "pool_wf (acquire_wait_leave q) = pool_wf q"
      "mz_buffer_size (acquire_wait_leave q) = mz_buffer_size q" for q
      by (simp_all add: acquire_wait_leave_def pool_wf_def owned_def)
    have "own_inv ty self (set_option r) w3 c5" using own5 by (simp add: c5)
    then show ?thesis
      by (simp add: own_inv_def own_bufs_def wr_inv_def core_ok_def pool_ok_def cache_ok_def svc_inv_def
          svc_addrs_def may_wait_def wl sl pl p' ow)
  qed
  from leaves_trans [OF l4] leaves_trans [OF conjunct1 [OF l5]] leaves_trans [OF l6 others_calm [OF own6 fin]]
    foreign_back [OF l4 conjunct2 [OF l5]]
  show ?thesis by blast
qed

lemma not_parked_calm:
  assumes own: "own_inv ty self {} w c" and h: "acquire_no_lock (mp_data_pool c) = (r, p)"
    and o: "others env w ((notify_pressure c)\<lparr>mp_data_pool := p\<rparr>) = (w', c')"
  shows "leaves w c w' c' \<and> set_option r \<inter> foreign w c = {}"
proof -
  define c4 where "c4 = (notify_pressure c)\<lparr>mp_data_pool := p\<rparr>"
  have c4: "core_static c4 = core_static c" "co_mem c4 = co_mem c" "mp_data_pool c4 = p"
    "mb_initialized c4 = mb_initialized c"
    by (simp_all add: c4_def)
  have ok: "core_ok c" and o3: "own_bufs ty {} w c"
    using own by (simp_all add: own_inv_def own_bufs_def wr_inv_def)
  then have wf: "pool_wf (mp_data_pool c)" by (simp add: core_ok_def pool_ok_def)
  have p: "pool_wf p" "wait_part p = wait_part (mp_data_pool c)"
    "owned p = owned (mp_data_pool c) \<union> set_option r" "set_option r \<inter> owned (mp_data_pool c) = {}"
    "mz_buffer_size p = mz_buffer_size (mp_data_pool c)"
    using h acquire_no_lock_Some [OF wf, of _ p] acquire_no_lock_None [OF wf, of p]
    by (cases r; auto)+
  have "core_ok c4" using ok p pool_ok_cong [OF p(2,1)] c4 by (simp add: core_ok_def)
  moreover have "may_wait self c4"
    using may_wait_part [of c4 c self] p(2) own c4 by (simp add: own_inv_def)
  ultimately have "own_inv ty self (set_option r) w c4"
    using own_bufs_pool [OF o3 c4(1,2), of "set_option r"] p(3,4) c4(3) by (auto simp: own_inv_def)
  from others_calm [OF this o [folded c4_def]] have "leaves w c4 w' c'" .
  moreover have "leaves w c w c4" by (rule leaves_pool) (use c4 p(3) in auto)
  ultimately show ?thesis using leaves_trans fresh_apart [OF leaves_refl [of w c] p(4)] by blast
qed

lemma acquire_blocking_calm:
  assumes own: "own_inv ty self {} w c" and a: "acquire_blocking env self w c = Some (r, w', c')"
  shows "leaves w c w' c' \<and> set_option r \<inter> foreign w c = {}"
proof -
  obtain w1 c1 where o1: "others env w c = (w1, c1)" by fastforce
  note k1 = others_keep [OF own o1] and l1 = others_calm [OF own o1]
  have i1: "mb_initialized c1" and ok1: "core_ok c1" using k1(1) by (auto simp: own_inv_def own_bufs_def wr_inv_def core_ok_def)
  obtain r1 c2 where a1: "acquire_buffer c1 = (r1, c2)" by fastforce
  note k2 = acquire_buffer_own [OF k1(1) a1]
  have fr: "owned (mp_data_pool c2) = owned (mp_data_pool c1) \<union> set_option r1" "set_option r1 \<inter> owned (mp_data_pool c1) = {}"
    using acquire_buffer_Some [OF _ ok1, of _ c2] acquire_buffer_None [OF _ ok1, of c2] a1 by (cases r1; auto)+
  have l2: "leaves w c w1 c2"
    by (rule leaves_trans [OF l1 leaves_pool]) (use k2(3,4) fr in auto)
  show ?thesis
  proof (cases r1)
    case (Some b)
    then have "r = Some b" "others env w1 c2 = (w', c')"
      using a o1 a1 i1 by (auto simp: acquire_blocking_def)
    with others_calm [OF k2(1) this(2)] leaves_trans [OF l2] fresh_apart [OF l1 fr(2)] Some show ?thesis by simp
  next
    case None
    obtain w2 c3 where o2: "others env w1 c2 = (w2, c3)" by fastforce
    have k2': "own_inv ty self {} w1 c2" using k2(1) None by simp
    note k3 = others_keep [OF k2' o2]
    have l3: "leaves w c w2 c3" by (rule leaves_trans [OF l2 others_calm [OF k2' o2]])
    obtain q p where en: "acquire_wait_enter self (mp_data_pool c3) = (q, p)" by fastforce
    let ?c4 = "(notify_pressure c3)\<lparr>mp_data_pool := p\<rparr>"
    have sl: "acquire_buffer_slow self c3 = (q, ?c4)"
      by (simp add: acquire_buffer_slow_def Let_def en)
    have "leaves w2 c3 w' c' \<and> set_option r \<inter> foreign w2 c3 = {}"
    proof (cases "q = Parked")
      case True
      obtain w3 c5 where o5: "others env w2 ?c4 = (w3, c5)" by fastforce
      obtain x p' where re: "acquire_wait_resume self (mp_data_pool c5) = (x, p')" by fastforce
      have "x = Some r" "others env w3 (c5\<lparr>mp_data_pool := acquire_wait_leave p'\<rparr>) = (w', c')"
        using a o1 a1 i1 o2 sl None True o5 re by (auto simp: acquire_blocking_def split: option.splits)
      with re show ?thesis by (intro parked_calm [OF k3(1) en [unfolded True] o5]) auto
    next
      case False
      have "r = (case q of Acquired b \<Rightarrow> Some b | _ \<Rightarrow> None)" "others env w2 ?c4 = (w', c')"
        using a o1 a1 i1 o2 sl None False by (cases q; auto simp: acquire_blocking_def)+
      with not_parked_calm [OF k3(1)] enter_result [OF en False] show ?thesis by simp
    qed
    then show ?thesis using leaves_trans [OF l3] foreign_back [OF l3] by blast
  qed
qed

end


section \<open>Buffers and service entries\<close>

lemma start_buffer_calm:
  assumes l: "leaves w c w1 c1" and n: "mp_buffer w1 = None" and b: "b \<notin> foreign w c"
    and s: "start_buffer ty b w1 c1 = (w', c')"
  shows "leaves w c w' c'"
proof -
  have w': "bufs w' = bufs w1 @ [b]" and c': "c' = c1\<lparr>co_mem := co_mem c'\<rparr>" "\<And>a. a \<noteq> b \<Longrightarrow> co_mem c' a = co_mem c1 a"
    using s n by (auto simp: start_buffer_def bufs_def wr_def)
  have "svc_addrs c' = svc_addrs c1" "mp_data_pool c' = mp_data_pool c1" "mo_ready_queue c' = mo_ready_queue c1"
    "co_svc_sent c' = co_svc_sent c1"
    by (subst c'(1), simp add: svc_addrs_def)+
  moreover from this have "foreign w' c' = foreign w1 c1 - {b}" by (auto simp: foreign_def w')
  moreover have "co_mem c' a = co_mem c1 a" if "a \<in> foreign w c" for a
  proof -
    have "a \<noteq> b" using b that by auto
    then show ?thesis by (rule c'(2))
  qed
  ultimately show ?thesis using l b unfolding leaves_def by auto
qed

lemma quiet_leaves:
  assumes "quiet c c'"
  shows "leaves w c w c'"
  using assms unfolding quiet_def leaves_def foreign_def by blast

context calm_threads
begin

lemma take_buffer_keeps:
  assumes own: "own_inv ty self {} w c" and t: "take_buffer env self ty w c = Some (ok, w', c')"
  shows "call_keeps xxh ty self w c w' c'"
proof -
  have k: "own_inv ty self {} w' c'" "grows xxh c c'" "writer_who w' = writer_who w"
    using take_buffer_own [OF own t] by (simp_all add: took_def)
  have "leaves w c w' c'"
  proof (cases "mp_buffer w")
    case (Some b)
    with t show ?thesis by (simp add: take_buffer_def)
  next
    case None
    with t obtain r w1 c1 where a: "acquire_blocking env self w c = Some (r, w1, c1)"
      and r: "case r of None \<Rightarrow> \<not> ok \<and> w' = w1 \<and> c' = c1
        | Some b \<Rightarrow> ok \<and> start_buffer ty b w1 c1 = (w', c')"
      by (auto simp: take_buffer_def split: bind_splits option.splits prod.splits)
    note ab = acquire_blocking_calm [OF own a]
    have "evolves xxh w c w1 c1" using acquire_blocking_own [OF own a] by simp
    then have n1: "mp_buffer w1 = None" using None by (auto simp: evolves_def bufs_Nil)
    show ?thesis
    proof (cases r)
      case None
      with r ab show ?thesis by simp
    next
      case (Some b)
      with r have s: "start_buffer ty b w1 c1 = (w', c')" by simp
      have "b \<notin> foreign w c" using ab Some by auto
      from start_buffer_calm [OF conjunct1 [OF ab] n1 this s] show ?thesis .
    qed
  qed
  with k show ?thesis by (simp add: call_keeps_def)
qed

end

sublocale calm_threads \<subseteq> calmly: svc_source "svc_acquire_wait env self" "own_inv ty self {}" leaves
proof
  fix w c ok w' c'
  show "leaves w c w c" by simp
  assume o: "own_inv ty self {} w c" and a: "svc_acquire_wait env self (w, c) = Some (ok, w', c')"
  then obtain r c1 where b: "acquire_blocking env self w c = Some (r, w', c1)" and t: "svc_take r c1 = (ok, c')"
    by (auto simp: svc_acquire_wait_def split: bind_splits prod.splits)
  note l = acquire_blocking_calm [OF o b]
  have "leaves w c w' c'"
  proof (cases r)
    case None
    with t l show ?thesis by (auto simp: svc_take_def leaves_def foreign_def svc_addrs_def)
  next
    case (Some x)
    with t have "c' = c1\<lparr>mo_svc_buffers := mo_svc_buffers c1 @ [\<lparr>sb_buf = x, sb_used = 0\<rparr>]\<rparr>" by (simp add: svc_take_def)
    then have "foreign w' c' = foreign w' c1 - {x}" "co_mem c' = co_mem c1" "mo_ready_queue c' = mo_ready_queue c1"
      "co_svc_sent c' = co_svc_sent c1"
      by (auto simp: foreign_def svc_addrs_def)
    with l Some show ?thesis unfolding leaves_def by auto
  qed
  with waiting.acq_step [OF o a] show "own_inv ty self {} w' c' \<and> leaves w c w' c'
      \<and> (ok \<longrightarrow> mo_svc_buffers c' \<noteq> [] \<and> sb_used (last (mo_svc_buffers c')) = 0)" by simp
qed

context calm_threads
begin

lemma put_wait_calm:
  assumes o: "own_inv ty self {} w c" and p: "svc_put_wait env self n ws w c = Some (ok, w', c')"
  shows "leaves w c w' c'"
proof -
  from p obtain dst c1 where r: "svc_reserve (svc_acquire_wait env self) n (w, c) = Some (dst, w', c1)"
    and f: "(ok, c') = (case dst of None \<Rightarrow> (False, c1) | Some d \<Rightarrow> (True, svc_fill ws d c1))"
    by (auto simp: svc_put_wait_def split: bind_splits prod.splits option.splits)
  show ?thesis
  proof (cases dst)
    case None
    with calmly.reserve [OF o r] f show ?thesis by simp
  next
    case (Some d)
    with calmly.reserve [OF o r] obtain c0 where "leaves w c w' c0" "\<not> svc_full n c0" "svc_claim n c0 = (d, c1)" by auto
    with leaves_trans [OF _ quiet_leaves [OF fill_quiet]] f Some show ?thesis by simp
  qed
qed

lemma resolve_log_desc_keeps:
  assumes o: "own_inv ty self {} w c" and r: "resolve_log_desc env self alloc h file line func fmt w c = Some (r, w', c')"
  shows "call_keeps xxh ty self w c w' c'"
proof -
  have "leaves w c w' c'"
  proof (cases "mo_log_descs c h = None \<and> alloc")
    case False
    with r show ?thesis by (auto simp: resolve_log_desc_def split: option.splits)
  next
    case True
    let ?d = "make_log_desc h file line func fmt"
    from True r obtain ok c1 where "serialize_log_desc env self ?d w c = Some (ok, w', c1)"
      and c': "if ok then c' = c1\<lparr>mo_log_descs := (mo_log_descs c1)(h \<mapsto> ?d)\<rparr> else c' = c1"
      by (auto simp: resolve_log_desc_def Let_def split: bind_splits if_splits)
    then have "leaves w c w' c1" unfolding serialize_log_desc_def Let_def using put_wait_calm [OF o] by blast
    with c' show ?thesis by (cases ok) (auto simp: leaves_def foreign_def svc_addrs_def)
  qed
  with resolve_log_desc_own [OF o r] show ?thesis by (intro call_keeps_evolves) auto
qed

lemma serialize_str_keeps:
  assumes o: "own_inv ty self {} w c" and s: "serialize_str xxh env self kind str w c = Some (ok, h, w', c')"
  shows "call_keeps xxh ty self w c w' c'"
proof -
  have "leaves w c w' c'"
  proof (cases "w' = w \<and> c' = c")
    case False
    define k where "k = get_svc_str_len (Some (case str of None \<Rightarrow> [] | Some s \<Rightarrow> s))"
    define b where "b = take k (case str of None \<Rightarrow> [] | Some s \<Rightarrow> s)"
    let ?n = "align_up_8 (sizeof_str_svc + k)"
    have "serialize_str xxh env self kind str w c = (if xxh b \<in> names_of kind c then Some (True, xxh b, w, c)
      else do { (ok, w1, c1) \<leftarrow> svc_put_wait env self ?n [svc_hdr (names_type kind) ?n, (4, le16 (word_of_nat k)),
          (8, le64 (xxh b)), (sizeof_str_svc, b)] w c;
        Some (if \<not> ok then (False, xxh b, w1, c1) else (True, xxh b, w1, names_insert kind (xxh b) c1)) })"
      by (simp only: serialize_str_def Let_def k_def b_def)
    with False s obtain n ws c1 where "svc_put_wait env self n ws w c = Some (ok, w', c1)"
      and c': "c' = c1 \<or> c' = names_insert kind (xxh b) c1"
      by (auto split: bind_splits if_splits)
    then have "leaves w c w' c1" using put_wait_calm [OF o] by blast
    moreover have "leaves w c w' (names_insert kind (xxh b) c1) = leaves w c w' c1"
      by (cases kind) (simp_all add: leaves_def foreign_def svc_addrs_def)
    ultimately show ?thesis using c' by auto
  qed simp
  with serialize_str_own [OF o s] show ?thesis by (intro call_keeps_evolves) auto
qed

lemma serialize_trc_desc_keeps:
  assumes o: "own_inv ty self {} w c" and s: "serialize_trc_desc env self h line f g n w c = Some (ok, w', c')"
  shows "call_keeps xxh ty self w c w' c'"
  using serialize_trc_desc_own [OF o s] put_wait_calm [OF o s [unfolded serialize_trc_desc_def]]
  by (intro call_keeps_evolves) auto

lemma resolve_trc_desc_keeps:
  assumes o: "own_inv ty self {} w c" and r: "resolve_trc_desc xxh env self h file line func name w c = Some (r, w', c')"
  shows "call_keeps xxh ty self w c w' c'"
proof -
  have step: "leaves w c w2 c2 \<and> own_inv ty self {} w2 c2"
    if "leaves w c w1 c1 \<and> own_inv ty self {} w1 c1" "call_keeps xxh ty self w1 c1 w2 c2" for w1 c1 w2 c2
    using that leaves_trans by (auto simp: call_keeps_def)
  have k0: "leaves w c w c \<and> own_inv ty self {} w c" using o by simp
  have "leaves w c w' c'"
  proof (cases "h \<in> mo_trc_descs c")
    case True
    with r show ?thesis by (simp add: resolve_trc_desc_def)
  next
    case False
    obtain ok1 f w1 c1 where s1: "serialize_str xxh env self File_names file w c = Some (ok1, f, w1, c1)"
      using r False by (cases "serialize_str xxh env self File_names file w c") (auto simp: resolve_trc_desc_def)
    note k1 = step [OF k0 serialize_str_keeps [OF o s1]]
    show ?thesis
    proof (cases ok1)
      case True
      obtain ok2 g w2 c2 where s2: "serialize_str xxh env self Func_names func w1 c1 = Some (ok2, g, w2, c2)"
        using r False s1 True by (cases "serialize_str xxh env self Func_names func w1 c1") (auto simp: resolve_trc_desc_def)
      note k2 = step [OF k1 serialize_str_keeps [OF conjunct2 [OF k1] s2]]
      show ?thesis
      proof (cases ok2)
        case t2: True
        obtain ok3 n w3 c3 where s3: "serialize_str xxh env self Span_names name w2 c2 = Some (ok3, n, w3, c3)"
          using r False s1 True s2 t2 by (cases "serialize_str xxh env self Span_names name w2 c2") (auto simp: resolve_trc_desc_def)
        note k3 = step [OF k2 serialize_str_keeps [OF conjunct2 [OF k2] s3]]
        show ?thesis
        proof (cases ok3)
          case t3: True
          obtain ok4 w4 c4 where s4: "serialize_trc_desc env self h line f g n w3 c3 = Some (ok4, w4, c4)"
            and c': "w' = w4" "c' = (if ok4 then c4\<lparr>mo_trc_descs := insert h (mo_trc_descs c4)\<rparr> else c4)"
            using r False s1 True s2 t2 s3 t3
            by (cases "serialize_trc_desc env self h line f g n w3 c3") (auto simp: resolve_trc_desc_def split: if_splits)
          note k4 = step [OF k3 serialize_trc_desc_keeps [OF conjunct2 [OF k3] s4]]
          then show ?thesis by (simp add: c' leaves_def foreign_def svc_addrs_def)
        qed (use r False s1 True s2 t2 s3 k3 in \<open>simp add: resolve_trc_desc_def\<close>)
      qed (use r False s1 True s2 k2 in \<open>simp add: resolve_trc_desc_def\<close>)
    qed (use r False s1 k1 in \<open>simp add: resolve_trc_desc_def\<close>)
  qed
  with resolve_trc_desc_own [OF o r] show ?thesis by (intro call_keeps_evolves) auto
qed

end


section \<open>The calls\<close>

lemma emit_log_keeps:
  assumes ct: "calm_threads xxh P8_PACKET_LOGS self env" and own: "own_inv P8_PACKET_LOGS self {} w c"
    and e: "emit_log env self d ticks trace level mod_id ip_attrs io_args w c = Some (ok, w', c')"
  shows "call_keeps xxh P8_PACKET_LOGS self w c w' c'"
proof -
  let ?w = "if lacks_room (P8_LOG_MIN_BUFFER_SPACE + sizeof_log_item_dat) w then park w else w"
  note ot = calm_threads.axioms(1) [OF ct]
  have k0: "call_keeps xxh P8_PACKET_LOGS self w c ?w c" using call_keeps_parked(1) [OF own] call_keeps_refl [OF own] by simp
  then have o1: "own_inv P8_PACKET_LOGS self {} ?w c" by (simp add: call_keeps_def)
  obtain ok1 w1 c1 where t: "take_buffer env self P8_PACKET_LOGS ?w c = Some (ok1, w1, c1)"
    using e by (auto simp: emit_log_def split: bind_splits)
  have k1: "call_keeps xxh P8_PACKET_LOGS self w c w1 c1"
    by (rule call_keeps_trans [OF k0 calm_threads.take_buffer_keeps [OF ct o1 t]])
  show ?thesis
  proof (cases ok1)
    case False
    with e t have "w' = drop_log w1" "c' = c1" by (auto simp: emit_log_def)
    with k1 show ?thesis by (simp add: call_keeps_drops)
  next
    case True
    note rm = took_room [OF other_threads.take_buffer_own [OF ot o1 t, unfolded eqTrueI [OF True]]]
    obtain b where b: "mp_buffer w1 = Some b" using rm(2) by auto
    have r: "40 \<le> mz_buf_max w1 - mz_buf_used w1" using rm(1) by simp
    have o2: "own_inv P8_PACKET_LOGS self {} w1 c1" using k1 by (simp add: call_keeps_def)
    have "write_log d ticks trace level mod_id ip_attrs io_args w1 c1 = Some (ok, w', c')"
      using e t True by (simp add: emit_log_def)
    from write_log_own(1) [OF o2 b r this, of xxh] call_keeps_trans [OF k1 call_keeps_step] show ?thesis by blast
  qed
qed

lemma find_log_desc_keeps:
  assumes ct: "calm_threads xxh P8_PACKET_LOGS self env" and own: "own_inv P8_PACKET_LOGS self {} (lg_base lw) c"
    and f: "find_log_desc env self alloc h file line func fmt lw c = Some (r, lw', c')"
  shows "call_keeps xxh P8_PACKET_LOGS self (lg_base lw) c (lg_base lw') c'"
proof (cases "mo_desc_map lw h")
  case (Some d)
  with f own show ?thesis by (auto simp: find_log_desc_def call_keeps_refl)
next
  case None
  with f obtain w1 where
    re: "resolve_log_desc env self alloc h (Some file) line func fmt (lg_base lw) c = Some (r, w1, c')"
    and lw': "lg_base lw' = drop_log w1 \<or> lg_base lw' = w1"
    by (auto simp: find_log_desc_def split: bind_splits option.splits)
  from calm_threads.resolve_log_desc_keeps [OF ct own re] lw' show ?thesis by (auto simp: call_keeps_drops)
qed

lemma log_gated_keeps:
  assumes ct: "calm_threads xxh P8_PACKET_LOGS self env" and own: "own_inv P8_PACKET_LOGS self {} (lg_base lw) c"
    and s: "log_gated xxh_seed env self alloc ticks level le_min mod_id trace line ip_file func ip_attrs fmt io_args lw c
      = Some (ok, lw', c')"
  shows "call_keeps xxh P8_PACKET_LOGS self (lg_base lw) c (lg_base lw') c'"
proof -
  show ?thesis
  proof (cases "level < le_min \<or> \<not> mp_core (lg_base lw)")
    case True
    with s have "lw' = lw" "c' = c" by (auto simp: log_gated_def split: if_splits)
    with own show ?thesis by (simp add: call_keeps_refl)
  next
    case False
    with s obtain fl where fl: "ip_file = Some fl"
      by (auto simp: log_gated_def split: bind_splits)
    from s fl False obtain r lw1 c1 where
      f: "find_log_desc env self alloc (xxh_seed fl line) fl line func fmt lw c = Some (r, lw1, c1)"
      and k: "case r of None \<Rightarrow> lw' = lw1 \<and> c' = c1
         | Some d \<Rightarrow> (\<exists>w2. emit_log env self d ticks trace level mod_id ip_attrs io_args (lg_base lw1) c1 = Some (ok, w2, c')
             \<and> lw' = lw1\<lparr>lg_base := w2\<rparr>)"
      by (auto simp: log_gated_def split: bind_splits option.splits)
    note fk = find_log_desc_keeps [OF ct own f]
    then have o1: "own_inv P8_PACKET_LOGS self {} (lg_base lw1) c1" by (simp add: call_keeps_def)
    show ?thesis
    proof (cases r)
      case (Some d)
      with k obtain w2 where e: "emit_log env self d ticks trace level mod_id ip_attrs io_args (lg_base lw1) c1 = Some (ok, w2, c')"
        and "lw' = lw1\<lparr>lg_base := w2\<rparr>" by auto
      then show ?thesis using call_keeps_trans [OF fk emit_log_keeps [OF ct o1 e]] by simp
    qed (use k fk in simp)
  qed
qed

lemma log_send_keeps:
  assumes ct: "calm_threads xxh P8_PACKET_LOGS self env" and own: "own_inv P8_PACKET_LOGS self {} (lg_base lw) c"
    and s: "log_send xxh_seed env self alloc ticks level ip_module trace line ip_file func ip_attrs fmt io_args lw c
      = Some (ok, lw', c')"
  shows "call_keeps xxh P8_PACKET_LOGS self (lg_base lw) c (lg_base lw') c'"
  by (rule log_send_gated [OF s]) (rule log_gated_keeps [OF ct own])

lemma mtk_emit_keeps:
  assumes ct: "calm_threads xxh P8_PACKET_METRICS self env" and own: "own_inv P8_PACKET_METRICS self {} w c"
    and e: "mtk_emit env self i v t w c = Some (ok, w', c')"
  shows "call_keeps xxh P8_PACKET_METRICS self w c w' c'"
proof (cases "\<not> mp_core w \<or> sint i < 0 \<or> i \<ge> mu_mtk_count c")
  case True
  with e have "w' = w" "c' = c" by (auto simp: mtk_emit_def split: if_splits)
  with own show ?thesis by (simp add: call_keeps_refl)
next
  case False
  note ot = calm_threads.axioms(1) [OF ct]
  let ?w = "if lacks_room sizeof_mtk_item_dat w then park w else w"
  have k0: "call_keeps xxh P8_PACKET_METRICS self w c ?w c" using call_keeps_parked(1) [OF own] call_keeps_refl [OF own] by simp
  then have o1: "own_inv P8_PACKET_METRICS self {} ?w c" by (simp add: call_keeps_def)
  obtain ok1 w1 c1 where t: "take_buffer env self P8_PACKET_METRICS ?w c = Some (ok1, w1, c1)"
    using e False by (auto simp: mtk_emit_def split: bind_splits)
  have k1: "call_keeps xxh P8_PACKET_METRICS self w c w1 c1"
    by (rule call_keeps_trans [OF k0 calm_threads.take_buffer_keeps [OF ct o1 t]])
  show ?thesis
  proof (cases ok1)
    case False
    with e t \<open>\<not> (_ \<or> _)\<close> have "w' = drop_metric w1" "c' = c1" by (auto simp: mtk_emit_def)
    with k1 show ?thesis by (simp add: call_keeps_drops)
  next
    case True
    note rm = took_room [OF other_threads.take_buffer_own [OF ot o1 t, unfolded eqTrueI [OF True]]]
    obtain b where b: "mp_buffer w1 = Some b" using rm(2) by auto
    have r: "24 \<le> mz_buf_max w1 - mz_buf_used w1" using rm(1) by simp
    have o2: "own_inv P8_PACKET_METRICS self {} w1 c1" using k1 by (simp add: call_keeps_def)
    obtain w2 c2 where ws: "write_sample i v t b w1 c1 = (w2, c2)" by fastforce
    note wo = write_sample_own [OF o2 b r ws]
    have k2: "call_keeps xxh P8_PACKET_METRICS self w c w2 c2"
      by (rule call_keeps_trans [OF k1]) (use wo in \<open>simp add: call_keeps_def\<close>)
    have "c' = c2" "w' = w2 \<or> w' = (park w2)\<lparr>mz_buf_used := 0\<rparr>"
      using e t True b ws \<open>\<not> (_ \<or> _)\<close> by (auto simp: mtk_emit_def split: if_splits)
    with k2 call_keeps_trans [OF k2 call_keeps_parked(2) [OF wo(1)]] show ?thesis by auto
  qed
qed

lemma ensure_buffer_keeps:
  assumes ct: "calm_threads xxh P8_PACKET_TRACES self env" and own: "own_inv P8_PACKET_TRACES self {} w c"
    and e: "ensure_buffer env self n w c = Some (ok, w', c')"
  shows "call_keeps xxh P8_PACKET_TRACES self w c w' c'"
proof -
  let ?w = "if lacks_room n w then (park w)\<lparr>mz_buf_used := 0\<rparr> else w"
  have k0: "call_keeps xxh P8_PACKET_TRACES self w c ?w c" using call_keeps_parked(2) [OF own] call_keeps_refl [OF own] by simp
  then have o1: "own_inv P8_PACKET_TRACES self {} ?w c" by (simp add: call_keeps_def)
  from call_keeps_trans [OF k0 calm_threads.take_buffer_keeps [OF ct o1 e [unfolded ensure_buffer_def]]] show ?thesis .
qed

lemma write_end_keeps:
  assumes ct: "calm_threads xxh P8_PACKET_TRACES self env" and own: "own_inv P8_PACKET_TRACES self {} w c"
    and e: "write_end env self ticks sid w c = Some (w', c')"
  shows "call_keeps xxh P8_PACKET_TRACES self w c w' c'"
proof -
  obtain ok w1 c1 where eb: "ensure_buffer env self 24 w c = Some (ok, w1, c1)"
    using e by (auto simp: write_end_def split: bind_splits)
  note en = ensure_buffer_own [OF calm_threads.axioms(1) [OF ct] own _ eb, simplified]
  note k = ensure_buffer_keeps [OF ct own eb]
  show ?thesis
  proof (cases ok)
    case False
    with e eb have "w' = drop_trace w1" "c' = c1" by (auto simp: write_end_def)
    with k show ?thesis by (simp add: call_keeps_drops)
  next
    case True
    obtain b where b: "mp_buffer w1 = Some b" and rm: "24 \<le> mz_buf_max w1 - mz_buf_used w1" using en True by auto
    have o1: "own_inv P8_PACKET_TRACES self {} w1 c1" using en by simp
    have er: "end_record (put_bytes (enc_ted (span_end ticks sid (mu_thread_id w1))) (pen_at w1 c1)) = (w', c')"
      using e eb True by (simp add: write_end_def span_end_def)
    show ?thesis
      by (rule call_keeps_trans [OF k]) (use put_end_own [OF o1 b rm er] in \<open>simp add: call_keeps_def\<close>)
  qed
qed

lemma call_keeps_seq: "call_keeps xxh ty self w c w' (c'\<lparr>mu_span_id_seq := n\<rparr>) = call_keeps xxh ty self w c w' c'"
proof -
  have t: "svc_total (c'\<lparr>mu_span_id_seq := n\<rparr>) = svc_total c'" by (simp add: svc_total_def)
  have m: "names_of kind (c'\<lparr>mu_span_id_seq := n\<rparr>) = names_of kind c'" for kind by (cases kind) auto
  show ?thesis
    by (simp add: call_keeps_def grows_def leaves_def foreign_def svc_addrs_def t) (simp add: catalog_def t m)
qed

lemma write_begin_keeps:
  assumes ct: "calm_threads xxh P8_PACKET_TRACES self env" and own: "own_inv P8_PACKET_TRACES self {} (tc_base tw) c"
    and wb: "write_begin xxh xxh_seed env self ticks ty parent name line ip_file func ip_attrs tw c = Some (r, tw', c')"
  shows "call_keeps xxh P8_PACKET_TRACES self (tc_base tw) c (tc_base tw') c'"
proof (cases "mp_core (tc_base tw)")
  case False
  with wb have "tw' = tw" "c' = c" by (auto simp: write_begin_def)
  with own show ?thesis by (simp add: call_keeps_refl)
next
  case True
  define fl where "fl = chars ip_file"
  define h where "h = xxh_seed fl line"
  note wbd = write_begin_live [OF True, of xxh xxh_seed env self ticks ty parent name line ip_file func ip_attrs,
    folded fl_def, folded h_def]
  obtain known w1 c1 where k: "(if h \<in> mo_descs tw then Some (True, tc_base tw, c)
      else resolve_trc_desc xxh env self h (Some fl) line func name (tc_base tw) c) = Some (known, w1, c1)"
    using wb unfolding wbd by (auto split: bind_splits)
  then have k1: "call_keeps xxh P8_PACKET_TRACES self (tc_base tw) c w1 c1"
    using calm_threads.resolve_trc_desc_keeps [OF ct own] call_keeps_refl [OF own] by (cases "h \<in> mo_descs tw") auto
  show ?thesis
  proof (cases known)
    case False
    with wb k have "tw' = tw\<lparr>tc_base := drop_trace w1\<rparr>" "c' = c1" unfolding wbd by auto
    with k1 show ?thesis by (simp add: call_keeps_drops)
  next
    case kn: True
    obtain sid tw2 c2 where ns: "next_span_id ty (tw\<lparr>tc_base := w1, mo_descs := insert h (mo_descs tw)\<rparr>) c1 = (sid, tw2, c2)"
      using prod_cases3 by blast
    note nf = next_span_id_frame [OF ns]
    from nf(4) k1 have k2: "call_keeps xxh P8_PACKET_TRACES self (tc_base tw) c w1 c2" by (auto simp: call_keeps_seq)
    then have o2: "own_inv P8_PACKET_TRACES self {} w1 c2" by (simp add: call_keeps_def)
    obtain ok w3 c3 where eb: "ensure_buffer env self 40 w1 c2 = Some (ok, w3, c3)"
      using wb k kn ns nf(1) unfolding wbd by (auto split: bind_splits)
    have k3: "call_keeps xxh P8_PACKET_TRACES self (tc_base tw) c w3 c3"
      by (rule call_keeps_trans [OF k2 ensure_buffer_keeps [OF ct o2 eb]])
    note en = ensure_buffer_own [OF calm_threads.axioms(1) [OF ct] o2 _ eb, simplified]
    show ?thesis
    proof (cases ok)
      case False
      with wb k kn ns eb nf(1) have "tw' = tw2\<lparr>tc_base := drop_trace w3\<rparr>" "c' = c3" unfolding wbd by auto
      with k3 show ?thesis by (simp add: call_keeps_drops)
    next
      case okt: True
      then obtain b where b: "mp_buffer w3 = Some b" and rm: "40 \<le> mz_buf_max w3 - mz_buf_used w3" using en by auto
      have o3: "own_inv P8_PACKET_TRACES self {} w3 c3" using en by simp
      from write_span_own [OF o3 b rm, of ty parent h sid ticks ip_attrs xxh] obtain dn w4 c4 where
        ws: "write_span ty parent h sid ticks ip_attrs w3 c3 = Some (dn, w4, c4)"
        and st: "rec_step xxh P8_PACKET_TRACES self w3 c3 w4 c4" by blast
      have "tw' = tw2\<lparr>tc_base := w4\<rparr>" "c' = c4"
        using wb k kn ns eb okt ws nf(1) unfolding wbd by auto
      with call_keeps_trans [OF k3 call_keeps_step [OF st]] show ?thesis by simp
    qed
  qed
qed


section \<open>Calm surroundings\<close>

text \<open>Nothing happens meanwhile: then a call that would have to wait does not return.\<close>

definition alone :: interference where
  "alone n s = s"

lemma parked_unserved:
  assumes "parked self c"
  shows "fst (acquire_wait_resume self (mp_data_pool c)) = None"
  using assms by (auto simp: parked_def wait_queue_def acquire_wait_resume_def)

interpretation by_itself: calm_threads xxh ty self alone for xxh ty self
  by unfold_locales (auto simp: alone_def dest: parked_unserved)

text \<open>Another thread stops the pool meanwhile: then every call returns.\<close>

interpretation stopping_calmly: calm_threads xxh ty self stop_env for xxh ty self
proof
  fix h w c n w' c'
  have same: "leaves w c w' c'" if "own_bufs ty h w c" and s: "stop_env n (w, c) = (w', c')" for h w c w' c'
  proof -
    have "core_ok c" using that(1) by (simp add: own_bufs_def wr_inv_def)
    then obtain ws where q: "pool_wf (mp_data_pool c)" "wait_queue (mp_data_pool c) ws" "\<forall>w \<in> set ws. wt_cv (wt_node (mp_data_pool c) w) < 64"
      by (auto simp: core_ok_def pool_ok_def on_shards_def)
    obtain p where p: "stop_waiters (mp_data_pool c) = Some p" by (rule stop_waiters_spec [OF q]) blast
    have "owned p = owned (mp_data_pool c)" using stop_waiters_facts [OF q p] by simp
    with s p show ?thesis by (auto simp: stop_env_def leaves_def foreign_def svc_addrs_def)
  qed
  show "own_inv ty self h w c \<Longrightarrow> stop_env n (w, c) = (w', c') \<Longrightarrow> leaves w c w' c'"
    using same by (auto simp: own_inv_def)
  fix r
  assume a: "own_bufs ty {} w c" "parked self c" "stop_env n (w, c) = (w', c')"
    and r: "fst (acquire_wait_resume self (mp_data_pool c')) = Some r"
  have "r = None" using stop_env_facts(2) [OF a(1,3,2)] r by simp
  with same [OF a(1,3)] show "leaves w c w' c' \<and> set_option r \<inter> foreign w c = {}" by simp
qed

end
