(* ===== verification/P8_Calls.thy ===== *)
theory P8_Calls
  imports P8_Apart
begin

text \<open>
  Records written while the engine runs. A thread's call works on its own writer and on the core;
  in the engine that is a step that replaces the writer's node (\<open>set_writer\<close>). Such a step keeps
  the engine's invariant and what the worker relies on (\<open>call_engine\<close>), so the worker's theorems hold with
  threads that log, emit samples and begin and end spans between its steps
  (the interpretation \<open>calling\<close>).
\<close>

section \<open>A call in the engine\<close>

definition set_writer :: "nat \<Rightarrow> tls_writer \<Rightarrow> writer_list \<Rightarrow> writer_list" where
  "set_writer a w wl = wl\<lparr>wl_node := (wl_node wl)(a := (wl_node wl a)\<lparr>wn_writer := w\<rparr>)\<rparr>"

lemma set_writer_rep: "wl_rep (set_writer a w wl) xs = wl_rep wl xs"
proof -
  have "seg (wl_node (set_writer a w wl)) p cur ys q nx = seg (wl_node wl) p cur ys q nx" for p cur ys q nx
    by (rule seg_cong) (simp add: set_writer_def)
  then show ?thesis by (simp add: wl_rep_def) (simp add: set_writer_def)
qed

lemma set_writer_nodes:
  "wn_writer (wl_node (set_writer a w wl) b) = (if b = a then w else wn_writer (wl_node wl b))"
  by (simp add: set_writer_def)

text \<open>The buffers of the engine, apart from one writer's.\<close>

definition rest_bufs :: "nat \<Rightarrow> nat list \<Rightarrow> engine \<Rightarrow> addr list" where
  "rest_bufs a xs e = concat (map (\<lambda>b. bufs (wn_writer (wl_node (snd e) b))) (remove1 a xs)) @ mo_ready_queue (fst e)"

lemma waiting_split:
  assumes "a \<in> set xs"
  shows "mset (waiting_bufs xs (c, wl)) = mset (bufs (wn_writer (wl_node wl a)) @ rest_bufs a xs (c, wl))"
proof -
  have "mset (concat (map f xs)) = mset (f a) + mset (concat (map f (remove1 a xs)))" for f :: "nat \<Rightarrow> addr list"
    using assms by (induction xs) auto
  then show ?thesis by (simp add: waiting_bufs_def rest_bufs_def)
qed

lemma engine_own:
  assumes ok: "engine_ok held xs (c, wl)" and a: "a \<in> set xs" and m: "may_wait self c"
    and ty: "\<forall>b \<in> set (bufs (wn_writer (wl_node wl a))). co_mem c b 0 = ty"
  shows "own_inv ty self {} (wn_writer (wl_node wl a)) c"
proof -
  let ?w = "wn_writer (wl_node wl a)"
  obtain ty' where i: "wr_inv ty' ?w c" using ok a by (auto simp: engine_ok_def writers_ok_def)
  then have "hdr_ids ty ?w (mu_buf_seq ?w - word_of_nat (length (bufs ?w) - k)) (co_mem c) (bufs ?w ! k)"
    if "k < length (bufs ?w)" for k
    using ty nth_mem [OF that] that by (auto simp: wr_inv_def hdr_ids_def)
  with i have "wr_inv ty ?w c" unfolding wr_inv_def by blast
  moreover have "set (bufs ?w) \<inter> set (svc_addrs c) = {}" using ok writers_ok_bufs [OF a, of wl c] by (auto simp: engine_ok_def)
  moreover have "svc_inv c" using ok by (simp add: engine_ok_def svc_ok_def)
  ultimately show ?thesis using m by (simp add: own_inv_def own_bufs_def)
qed

lemma call_engine:
  assumes ok: "engine_ok held xs (c, wl)" and a: "a \<in> set xs"
    and k: "call_keeps xxh ty self (wn_writer (wl_node wl a)) c w' c'"
  shows "engine_ok held xs (c', set_writer a w' wl) \<and> engine_keeps held c c'"
proof -
  let ?w = "wn_writer (wl_node wl a)" and ?wl = "set_writer a w' wl"
  let ?R = "held @ rest_bufs a xs (c, wl)"
  have own: "own_inv ty self {} w' c'" and g: "grows xxh c c'" and l: "leaves ?w c w' c'"
    using k by (simp_all add: call_keeps_def)
  have inv: "wr_inv ty w' c'" and sv: "svc_ok c'" and ds: "set (bufs w') \<inter> set (svc_addrs c') = {}"
    using own by (auto simp: own_inv_def own_bufs_def wr_inv_def svc_ok_def)
  have r: "wl_rep wl xs" and d: "distinct xs" using ok by (simp_all add: engine_ok_def wl_rep_def)
  have all: "mset (held @ waiting_bufs xs (c, wl)) = mset (bufs ?w @ ?R)" using waiting_split [OF a, of c wl] by simp
  then have ws: "set (held @ waiting_bufs xs (c, wl)) = set (bufs ?w @ ?R)" "distinct (bufs ?w @ ?R)"
    using ok mset_eq_setD [OF all] mset_eq_imp_distinct_iff [OF all] by (simp_all add: engine_ok_def)
  have rq: "mo_ready_queue c' = mo_ready_queue c" "co_svc_sent c' = co_svc_sent c" using l by (simp_all add: leaves_def)
  have "a \<notin> set (remove1 a xs)" using d by simp
  then have "map (\<lambda>b. bufs (wn_writer (wl_node ?wl b))) (remove1 a xs) = map (\<lambda>b. bufs (wn_writer (wl_node wl b))) (remove1 a xs)"
    by (auto simp: set_writer_nodes)
  then have "rest_bufs a xs (c', ?wl) = rest_bufs a xs (c, wl)" by (simp only: rest_bufs_def fst_conv snd_conv rq(1))
  with waiting_split [OF a, of c' ?wl] have all': "mset (held @ waiting_bufs xs (c', ?wl)) = mset (bufs w' @ ?R)"
    by (simp add: set_writer_nodes)
  have "set (bufs ?w @ ?R) \<subseteq> owned (mp_data_pool c)" "set (bufs ?w @ ?R) \<inter> set (svc_addrs c) = {}"
    "\<forall>b \<in> set (bufs ?w @ ?R). size_ok (co_mem c) b"
    using ok unfolding engine_ok_def fst_conv ws(1) by blast+
  then have R: "set ?R \<subseteq> foreign ?w c" and sz: "\<forall>b \<in> set ?R. size_ok (co_mem c) b"
    using ws(2) by (auto simp: foreign_def)
  with l have R': "set ?R \<subseteq> foreign w' c'" and m: "\<And>b. b \<in> set ?R \<Longrightarrow> co_mem c' b = co_mem c b"
    unfolding leaves_def by (blast, metis subsetD)
  have S': "set (held @ waiting_bufs xs (c', ?wl)) = set (bufs w' @ ?R)" using mset_eq_setD [OF all'] .
  have "distinct (bufs w' @ ?R)" using ws(2) inv R' by (auto simp: wr_inv_def foreign_def)
  then have "distinct (held @ waiting_bufs xs (c', ?wl))" using mset_eq_imp_distinct_iff [OF all'] by simp
  moreover have "set (held @ waiting_bufs xs (c', ?wl)) \<subseteq> owned (mp_data_pool c')"
    unfolding S' using R' inv by (auto simp: wr_inv_def foreign_def)
  moreover have "set (held @ waiting_bufs xs (c', ?wl)) \<inter> set (svc_addrs c') = {}"
    unfolding S' using R' ds by (auto simp: foreign_def)
  moreover have "\<forall>b \<in> set (held @ waiting_bufs xs (c', ?wl)). size_ok (co_mem c') b"
  proof -
    have "size_ok (co_mem c') b" if "b \<in> set ?R" for b
      using sz that m [OF that] by (auto simp: size_ok_def buf_size_def rd_def)
    moreover have "size_ok (co_mem c') b" if "b \<in> set (bufs w')" for b using inv that by (auto simp: wr_inv_def size_ok_def)
    ultimately show ?thesis unfolding S' by auto
  qed
  moreover have "writers_ok xs (c', ?wl)" unfolding writers_ok_def fst_conv snd_conv
  proof
    fix b
    assume b: "b \<in> set xs"
    show "\<exists>ty. wr_inv ty (wn_writer (wl_node ?wl b)) c'"
    proof (cases "b = a")
      case True
      with inv show ?thesis by (auto simp: set_writer_nodes)
    next
      case False
      obtain ty' where i: "wr_inv ty' (wn_writer (wl_node wl b)) c" using ok b by (auto simp: engine_ok_def writers_ok_def)
      have sub: "set (bufs (wn_writer (wl_node wl b))) \<subseteq> set ?R" using b False d by (auto simp: rest_bufs_def set_remove1_eq)
      have "wr_inv ty' (wn_writer (wl_node wl b)) c'"
      proof (rule wr_inv_keep [OF i])
        show "core_ok c'" using inv by (simp add: wr_inv_def)
        show "set (bufs (wn_writer (wl_node wl b))) \<subseteq> owned (mp_data_pool c')" using sub R' by (auto simp: foreign_def)
        show "co_mem c' x = co_mem c x" if "x \<in> set (bufs (wn_writer (wl_node wl b)))" for x using m sub that by blast
        show "prefix (mo_attr_descs c) (mo_attr_descs c')" using g by (simp add: grows_def)
      qed
      with False show ?thesis by (auto simp: set_writer_nodes)
    qed
  qed
  ultimately have "engine_ok held xs (c', ?wl)"
    using r sv unfolding engine_ok_def fst_conv snd_conv set_writer_rep by blast
  moreover have "engine_keeps held c c'"
    unfolding engine_keeps_def using g rq m by (auto simp: grows_def rest_bufs_def)
  ultimately show ?thesis ..
qed


section \<open>Threads that write records\<close>

text \<open>The state of a log or trace writer besides its \<open>tls_writer\<close> is given with the call; the
  buffers of a writer are of the kind its calls write.\<close>

datatype record_call =
    Log_call bool u64 e_p8_level "nat option" u64 u32 "cstr option" "cstr option" "s_p8_attr_val list option"
      "cstr option" "va_arg list" log_writer
  | Metric_call i32 u64 u64
  | Begin_call u64 byte u64 "cstr option" u32 "cstr option" "cstr option" "s_p8_attr_val list option" trc_writer
  | End_call u64 u64

fun call_kind :: "record_call \<Rightarrow> byte" where
  "call_kind (Log_call _ _ _ _ _ _ _ _ _ _ _ _) = P8_PACKET_LOGS"
| "call_kind (Metric_call _ _ _) = P8_PACKET_METRICS"
| "call_kind (Begin_call _ _ _ _ _ _ _ _ _) = P8_PACKET_TRACES"
| "call_kind (End_call _ _) = P8_PACKET_TRACES"

fun do_record :: "(byte list \<Rightarrow> u64) \<Rightarrow> (cstr \<Rightarrow> u32 \<Rightarrow> u64) \<Rightarrow> nat \<Rightarrow> record_call \<Rightarrow> tls_writer \<Rightarrow> core
    \<Rightarrow> (tls_writer \<times> core) option" where
  "do_record xxh xxh_seed self (Log_call alloc t lv md tr ln fl fn atts fm args lw) w c =
     map_option (\<lambda>(_, lw', c'). (lg_base lw', c'))
       (log_send xxh_seed alone self alloc t lv md tr ln fl fn atts fm args (lw\<lparr>lg_base := w\<rparr>) c)"
| "do_record xxh xxh_seed self (Metric_call i v t) w c =
     map_option (\<lambda>(_, w', c'). (w', c')) (mtk_emit alone self i v t w c)"
| "do_record xxh xxh_seed self (Begin_call t ty pa nm ln fl fn atts tw) w c =
     map_option (\<lambda>(_, tw', c'). (tc_base tw', c'))
       (write_begin xxh xxh_seed alone self t ty pa nm ln fl fn atts (tw\<lparr>tc_base := w\<rparr>) c)"
| "do_record xxh xxh_seed self (End_call t sid) w c = write_end alone self t sid w c"

lemma do_record_keeps:
  assumes "own_inv (call_kind x) self {} w c" and "do_record xxh xxh_seed self x w c = Some (w', c')"
  shows "call_keeps xxh (call_kind x) self w c w' c'"
  using assms log_send_keeps [OF by_itself.calm_threads_axioms, of self "lw\<lparr>lg_base := w\<rparr>" c for lw]
    mtk_emit_keeps [OF by_itself.calm_threads_axioms, of self w c]
    write_begin_keeps [OF by_itself.calm_threads_axioms, of self "tw\<lparr>tc_base := w\<rparr>" c for tw]
    write_end_keeps [OF by_itself.calm_threads_axioms, of self w c]
  by (cases x) auto

text \<open>What threads do between the worker's steps: the calls of \<open>P8_Worker\<close>, and records that the
  registered writer \<open>a\<close> writes. A call that would have to wait is not done yet.\<close>

datatype thread_call = Other other_call | Record nat nat record_call

definition call_now :: "nat \<Rightarrow> nat \<Rightarrow> record_call \<Rightarrow> engine \<Rightarrow> bool" where
  "call_now self a x e \<longleftrightarrow> registered a (snd e) \<and> may_wait self (fst e)
     \<and> (\<forall>b \<in> set (bufs (wn_writer (wl_node (snd e) a))). co_mem (fst e) b 0 = call_kind x)"

fun thread_act :: "(byte list \<Rightarrow> u64) \<Rightarrow> (cstr \<Rightarrow> u32 \<Rightarrow> u64) \<Rightarrow> thread_call \<Rightarrow> engine \<Rightarrow> engine" where
  "thread_act xxh xxh_seed (Other x) e = other_act x e"
| "thread_act xxh xxh_seed (Record self a x) e =
     (if call_now self a x e
      then (case do_record xxh xxh_seed self x (wn_writer (wl_node (snd e) a)) (fst e) of
              None \<Rightarrow> e | Some (w', c') \<Rightarrow> (c', set_writer a w' (snd e)))
      else e)"

definition thread_acts :: "(byte list \<Rightarrow> u64) \<Rightarrow> (cstr \<Rightarrow> u32 \<Rightarrow> u64) \<Rightarrow> (nat \<Rightarrow> thread_call list) \<Rightarrow> engine_interference" where
  "thread_acts xxh xxh_seed acts n e = fold (thread_act xxh xxh_seed) (acts n) e"

lemma thread_act_engine:
  assumes ok: "engine_ok held xs (c, wl)" and t: "thread_act xxh xxh_seed x (c, wl) = (c', wl')"
  shows "(\<exists>xs'. engine_ok held xs' (c', wl')) \<and> engine_keeps held c c'"
proof (cases x)
  case (Other y)
  with t other_act_engine [OF ok] show ?thesis by simp
next
  case (Record self a y)
  let ?w = "wn_writer (wl_node wl a)"
  show ?thesis
  proof (cases "call_now self a y (c, wl) \<and> do_record xxh xxh_seed self y ?w c \<noteq> None")
    case True
    then obtain w' c1 where r: "do_record xxh xxh_seed self y ?w c = Some (w', c1)" by auto
    have a: "a \<in> set xs" using True ok wl_rep_determined by (auto simp: call_now_def registered_def engine_ok_def)
    have "own_inv (call_kind y) self {} ?w c"
      by (rule engine_own [OF ok a]) (use True in \<open>simp_all add: call_now_def\<close>)
    from call_engine [OF ok a do_record_keeps [OF this r]] t Record True r show ?thesis by auto
  next
    case False
    with t Record have "c' = c" "wl' = wl" by (auto split: if_splits option.splits)
    with ok show ?thesis by auto
  qed
qed

interpretation calling: engine_env "thread_acts xxh xxh_seed acts" for xxh xxh_seed acts
  unfolding thread_acts_def [abs_def] by (rule engine_env_fold) (rule thread_act_engine)


section \<open>Properties\<close>

text \<open>C7 The engine's invariant holds while threads write records. Let threads register attributes,
  modules and metrics, start and end writers, log, emit samples and begin and end spans between two steps of
  the worker, in any order: all buffers stay accounted for, the worker's as distinct from those that
  writers hold, wait in the ready queue or carry service entries; each writer's buffers stay its own, in
  sequence and within their size; the buffers the worker holds and those that are ready keep their bytes, the
  ready queue and the service bytes only grow.\<close>
theorem records_keep_engine:
  assumes "engine_ok held xs (c, wl)" and "thread_acts xxh xxh_seed acts n (c, wl) = (c', wl')"
  shows "(\<exists>xs'. engine_ok held xs' (c', wl')) \<and> engine_keeps held c c'"
  by (rule calling.law [OF assms])

definition ex_calls :: "thread_call list" where
  "ex_calls = [Other (Register_attr True True (Some [97]) e_p8_attr_u64), Other (Start_writer 2 9),
     Record 9 2 (Begin_call 5 P8_TRC_ITEM_BEGIN 0 (Some [98]) 3 (Some [97]) None None (trc_create ex_writer)),
     Record 9 1 (Log_call True 5 e_p8_info0 None 0 3 (Some [97]) None None (Some [120]) []
       \<lparr>lg_base = ex_writer, mo_desc_map = (\<lambda>_. None)\<rparr>)]"

theorem records_keep_engine_witness:
  "\<exists>xs'. engine_ok [] xs' (thread_acts (\<lambda>_. 0) (\<lambda>_ _. 0) (\<lambda>_. ex_calls) 0 ex_engine)"
  using records_keep_engine [of "[]" "[1]" "fst ex_engine" "snd ex_engine" "\<lambda>_. 0" "\<lambda>_ _. 0" "\<lambda>_. ex_calls" 0] ex_engine_ok
  by (metis prod.collapse)

end
