(* ===== verification/P8_Hello.thy ===== *)
theory P8_Hello
  imports P8_Protocol
begin

text \<open>
  The hello packet \<open>s_p8_hdr\<close> (api/p8_protocol.h) and \<open>cp8_core::init_header\<close>
  (engine/p8_core.cpp), which fills it once per core. The packet is little endian on the wire
  whatever the host is: a host that finds itself big endian swaps the fields in place. So here the
  byte order of the host is an argument, and \<open>enc_hdr\<close> is the structure as it lies in the host's
  memory. Process, host and clock are the system's; \<open>bswap32\<close> and \<open>bswap64\<close> are the kit's and
  reverse the bytes of a number (\<open>bswap_law\<close>); \<open>xxh\<close> is \<open>XXH3_64bits\<close>.
\<close>

section \<open>The structure\<close>

abbreviation (input) P8_PROTOCOL_VERSION :: byte where "P8_PROTOCOL_VERSION \<equiv> 1"
abbreviation (input) P8_PROCESS_NAME_MAX_LEN :: nat where "P8_PROCESS_NAME_MAX_LEN \<equiv> 256"
abbreviation (input) P8_HOST_NAME_MAX_LEN :: nat where "P8_HOST_NAME_MAX_LEN \<equiv> 256"
abbreviation (input) sizeof_hdr :: nat where "sizeof_hdr \<equiv> 568"
abbreviation (input) offsetof_mu_hash :: nat where "offsetof_mu_hash \<equiv> 560"

record s_p8_hdr =
  hdr_packet_type :: byte
  hdr_protocol_version :: byte
  hdr_is_big_endian :: byte
  hdr_padding :: byte
  hdr_utc_sec_offset :: i32
  hdr_size :: u32
  hdr_process_id :: u32
  hdr_system_time :: u64
  hdr_hires_tick :: u64
  hdr_hires_freq_numer :: u64
  hdr_hires_freq_denom :: u64
  hdr_process_name :: "byte list"
  hdr_host_name :: "byte list"
  hdr_hash :: u64

text \<open>A number in memory; \<open>be\<close> says that the host is big endian.\<close>

definition mem32 :: "bool \<Rightarrow> u32 \<Rightarrow> byte list" where
  "mem32 be x = (if be then rev (le32 x) else le32 x)"

definition mem64 :: "bool \<Rightarrow> u64 \<Rightarrow> byte list" where
  "mem64 be x = (if be then rev (le64 x) else le64 x)"

definition enc_hdr :: "bool \<Rightarrow> s_p8_hdr \<Rightarrow> byte list" where
  "enc_hdr be h = [hdr_packet_type h, hdr_protocol_version h, hdr_is_big_endian h, hdr_padding h]
     @ mem32 be (hdr_utc_sec_offset h) @ mem32 be (hdr_size h) @ mem32 be (hdr_process_id h)
     @ mem64 be (hdr_system_time h) @ mem64 be (hdr_hires_tick h) @ mem64 be (hdr_hires_freq_numer h)
     @ mem64 be (hdr_hires_freq_denom h) @ hdr_process_name h @ hdr_host_name h @ mem64 be (hdr_hash h)"

text \<open>A receiver reads the packet as little endian.\<close>

definition dec_hdr :: "byte list \<Rightarrow> s_p8_hdr" where
  "dec_hdr bs =
     \<lparr>hdr_packet_type = bs ! 0, hdr_protocol_version = bs ! 1, hdr_is_big_endian = bs ! 2, hdr_padding = bs ! 3,
      hdr_utc_sec_offset = of_le32 (take 4 (drop 4 bs)), hdr_size = of_le32 (take 4 (drop 8 bs)),
      hdr_process_id = of_le32 (take 4 (drop 12 bs)), hdr_system_time = of_le64 (take 8 (drop 16 bs)),
      hdr_hires_tick = of_le64 (take 8 (drop 24 bs)), hdr_hires_freq_numer = of_le64 (take 8 (drop 32 bs)),
      hdr_hires_freq_denom = of_le64 (take 8 (drop 40 bs)), hdr_process_name = take 256 (drop 48 bs),
      hdr_host_name = take 256 (drop 304 bs), hdr_hash = of_le64 (take 8 (drop 560 bs))\<rparr>"

section \<open>Filling it\<close>

text \<open>What the system and the core's clock answer.\<close>

record hdr_in =
  hi_utc_offset :: i32
  hi_process_id :: u32
  hi_system_time :: u64
  hi_ticks :: u64
  hi_clock_numer :: u64
  hi_clock_denom :: u64
  hi_process_name :: "byte list"
  hi_host_name :: "byte list"

definition swap_hdr :: "(u32 \<Rightarrow> u32) \<Rightarrow> (u64 \<Rightarrow> u64) \<Rightarrow> s_p8_hdr \<Rightarrow> s_p8_hdr" where
  "swap_hdr bswap32 bswap64 h = h\<lparr>hdr_size := bswap32 (hdr_size h), hdr_utc_sec_offset := bswap32 (hdr_utc_sec_offset h),
     hdr_process_id := bswap32 (hdr_process_id h), hdr_system_time := bswap64 (hdr_system_time h),
     hdr_hires_tick := bswap64 (hdr_hires_tick h), hdr_hires_freq_numer := bswap64 (hdr_hires_freq_numer h),
     hdr_hires_freq_denom := bswap64 (hdr_hires_freq_denom h)\<rparr>"

definition init_header :: "bool \<Rightarrow> (u32 \<Rightarrow> u32) \<Rightarrow> (u64 \<Rightarrow> u64) \<Rightarrow> (byte list \<Rightarrow> u64) \<Rightarrow> hdr_in \<Rightarrow> s_p8_hdr" where
  "init_header be bswap32 bswap64 xxh i =
     (let lu_endian = mem32 be 1;
          h1 = \<lparr>hdr_packet_type = P8_PACKET_MAIN, hdr_protocol_version = P8_PROTOCOL_VERSION,
                hdr_is_big_endian = (if lu_endian ! 0 = 0 then 1 else 0), hdr_padding = 0,
                hdr_utc_sec_offset = hi_utc_offset i, hdr_size = word_of_nat sizeof_hdr,
                hdr_process_id = hi_process_id i, hdr_system_time = hi_system_time i, hdr_hires_tick = hi_ticks i,
                hdr_hires_freq_numer = hi_clock_numer i, hdr_hires_freq_denom = hi_clock_denom i,
                hdr_process_name = hi_process_name i, hdr_host_name = hi_host_name i, hdr_hash = 0\<rparr>;
          h2 = (if hdr_is_big_endian h1 \<noteq> 0 then swap_hdr bswap32 bswap64 h1 else h1);
          h3 = h2\<lparr>hdr_hash := xxh (take offsetof_mu_hash (enc_hdr be h2))\<rparr>
      in if hdr_is_big_endian h3 \<noteq> 0 then h3\<lparr>hdr_hash := bswap64 (hdr_hash h3)\<rparr> else h3)"

section \<open>The packet on the wire\<close>

definition bswap_law :: "(u32 \<Rightarrow> u32) \<Rightarrow> (u64 \<Rightarrow> u64) \<Rightarrow> bool" where
  "bswap_law bswap32 bswap64 \<longleftrightarrow> (\<forall>x. le32 (bswap32 x) = rev (le32 x)) \<and> (\<forall>x. le64 (bswap64 x) = rev (le64 x))"

definition names_ok :: "hdr_in \<Rightarrow> bool" where
  "names_ok i \<longleftrightarrow> length (hi_process_name i) = P8_PROCESS_NAME_MAX_LEN \<and> length (hi_host_name i) = P8_HOST_NAME_MAX_LEN"

lemma length_mem [simp]: "length (mem32 be x) = 4" "length (mem64 be y) = 8"
  by (simp_all add: mem32_def mem64_def)

lemma mem_False [simp]: "mem32 False x = le32 x" "mem64 False y = le64 y"
  by (simp_all add: mem32_def mem64_def)

lemma mem_swapped: "bswap_law b32 b64 \<Longrightarrow> mem32 True (b32 x) = le32 x \<and> mem64 True (b64 y) = le64 y"
  by (simp add: bswap_law_def mem32_def mem64_def)

text \<open>Bytes that spell a number, reversed.\<close>

lemma le_bytes_nat: "le_bytes (length bs) (le_nat bs) = bs \<and> le_nat bs < 256 ^ length bs"
proof (induction bs)
  case (Cons b bs)
  have "unat b < 256" using unsigned_less [of b] by simp
  with Cons show ?case by (auto simp: word_unat_eq_iff unat_of_nat)
qed simp

lemma bswap_of_bytes: "bswap_law (\<lambda>x. of_le32 (rev (le32 x))) (\<lambda>x. of_le64 (rev (le64 x)))"
proof -
  have "le32 (of_le32 bs) = bs" if "length bs = 4" for bs
    using le_bytes_nat [of bs] that by (simp add: le32_def of_le32_def unat_of_nat)
  moreover have "le64 (of_le64 bs) = bs" if "length bs = 8" for bs
    using le_bytes_nat [of bs] that by (simp add: le64_def of_le64_def unat_of_nat)
  ultimately show ?thesis by (simp add: bswap_law_def)
qed

text \<open>The endianness test reads the lowest address of the number 1.\<close>

lemma endian_test: "(if mem32 be 1 ! 0 = 0 then 1 else 0) = (if be then 1 else (0 :: byte))"
proof -
  have four: "(4 :: nat) = Suc (Suc (Suc (Suc 0)))" by simp
  have "le32 1 = [1, 0, 0, 0]" unfolding le32_def four by simp
  then show ?thesis by (simp add: mem32_def)
qed

lemma enc_hdr_swapped:
  assumes "bswap_law b32 b64"
  shows "enc_hdr True ((swap_hdr b32 b64 h)\<lparr>hdr_hash := b64 x\<rparr>) = enc_hdr False (h\<lparr>hdr_hash := x\<rparr>)"
  using mem_swapped [OF assms] by (simp add: enc_hdr_def swap_hdr_def)

lemma enc_hdr_body:
  assumes "length (hdr_process_name h) = 256" and "length (hdr_host_name h) = 256"
  shows "length (enc_hdr be h) = sizeof_hdr" and "take offsetof_mu_hash (enc_hdr be (h\<lparr>hdr_hash := x\<rparr>)) = take offsetof_mu_hash (enc_hdr be h)"
  using assms by (simp_all add: enc_hdr_def)

lemma dec_enc_hdr:
  assumes "length (hdr_process_name h) = 256" and "length (hdr_host_name h) = 256"
  shows "dec_hdr (enc_hdr False h) = h"
proof -
  obtain p v e d u s i t k n m pn hn x where h: "h = \<lparr>hdr_packet_type = p, hdr_protocol_version = v, hdr_is_big_endian = e,
      hdr_padding = d, hdr_utc_sec_offset = u, hdr_size = s, hdr_process_id = i, hdr_system_time = t, hdr_hires_tick = k,
      hdr_hires_freq_numer = n, hdr_hires_freq_denom = m, hdr_process_name = pn, hdr_host_name = hn, hdr_hash = x\<rparr>"
    by (cases h)
  have l: "length pn = 256" "length hn = 256" using assms by (simp_all add: h)
  let ?w = "[p, v, e, d] @ le32 u @ le32 s @ le32 i @ le64 t @ le64 k @ le64 n @ le64 m @ pn @ hn @ le64 x"
  have b: "?w ! 0 = p" "?w ! 1 = v" "?w ! 2 = e" "?w ! 3 = d" by (simp_all add: numeral_eq_Suc)
  have f: "take 4 (drop 4 ?w) = le32 u" "take 4 (drop 8 ?w) = le32 s" "take 4 (drop 12 ?w) = le32 i"
    "take 8 (drop 16 ?w) = le64 t" "take 8 (drop 24 ?w) = le64 k" "take 8 (drop 32 ?w) = le64 n"
    "take 8 (drop 40 ?w) = le64 m" by (simp_all del: append.simps)
  have g: "take 256 (drop 48 ?w) = pn" "take 256 (drop 304 ?w) = hn" "take 8 (drop 560 ?w) = le64 x"
    using l by (simp_all del: append.simps)
  have "enc_hdr False h = ?w" by (simp add: enc_hdr_def h)
  then show ?thesis unfolding dec_hdr_def by (simp only: b f g of_le_le) (simp add: h)
qed

text \<open>The packet that is meant.\<close>

definition hello_of :: "bool \<Rightarrow> hdr_in \<Rightarrow> u64 \<Rightarrow> s_p8_hdr" where
  "hello_of be i x = \<lparr>hdr_packet_type = P8_PACKET_MAIN, hdr_protocol_version = P8_PROTOCOL_VERSION,
     hdr_is_big_endian = (if be then 1 else 0), hdr_padding = 0, hdr_utc_sec_offset = hi_utc_offset i,
     hdr_size = word_of_nat sizeof_hdr, hdr_process_id = hi_process_id i, hdr_system_time = hi_system_time i,
     hdr_hires_tick = hi_ticks i, hdr_hires_freq_numer = hi_clock_numer i, hdr_hires_freq_denom = hi_clock_denom i,
     hdr_process_name = hi_process_name i, hdr_host_name = hi_host_name i, hdr_hash = x\<rparr>"

lemma init_header_wire:
  assumes "bswap_law b32 b64" and "names_ok i" and x_def: "x = xxh (take offsetof_mu_hash (enc_hdr False (hello_of be i 0)))"
  shows "enc_hdr be (init_header be b32 b64 xxh i) = enc_hdr False (hello_of be i x)"
proof (cases be)
  case False
  then show ?thesis
    using endian_test [of False] by (simp add: init_header_def Let_def x_def hello_of_def del: mem_False)
next
  case True
  let ?h = "hello_of True i 0"
  have z: "take offsetof_mu_hash (enc_hdr True (swap_hdr b32 b64 ?h)) = take offsetof_mu_hash (enc_hdr False ?h)"
    using assms(2) mem_swapped [OF assms(1)] by (simp add: enc_hdr_def swap_hdr_def hello_of_def names_ok_def)
  have "init_header True b32 b64 xxh i = (swap_hdr b32 b64 ?h)\<lparr>hdr_hash := b64 (xxh (take offsetof_mu_hash (enc_hdr True (swap_hdr b32 b64 ?h))))\<rparr>"
    using endian_test [of True] by (simp add: init_header_def Let_def hello_of_def swap_hdr_def)
  then show ?thesis using True enc_hdr_swapped [OF assms(1)] unfolding z x_def by (simp add: hello_of_def)
qed

text \<open>C40 The hello packet is the same whatever the byte order of the host: 568 bytes, the first of
  them the packet type, that a receiver decodes as little endian into the values of the process,
  the host and the clock, with a control hash over the 560 bytes before it; only the flag tells
  how the host counts.\<close>
theorem hello_roundtrip:
  assumes "bswap_law b32 b64" and "names_ok i"
  shows "let wire = enc_hdr be (init_header be b32 b64 xxh i) in length wire = sizeof_hdr
    \<and> wire ! 0 = P8_PACKET_MAIN \<and> dec_hdr wire = hello_of be i (xxh (take offsetof_mu_hash wire))"
proof -
  define x where "x = xxh (take offsetof_mu_hash (enc_hdr False (hello_of be i 0)))"
  define w where "w = enc_hdr False (hello_of be i x)"
  have n: "length (hdr_process_name (hello_of be i y)) = 256" "length (hdr_host_name (hello_of be i y)) = 256" for y
    using assms(2) by (simp_all add: names_ok_def hello_of_def)
  have "hello_of be i x = (hello_of be i 0)\<lparr>hdr_hash := x\<rparr>" by (simp add: hello_of_def)
  with enc_hdr_body(2) [OF n] have "xxh (take offsetof_mu_hash w) = x" unfolding w_def x_def by metis
  moreover have "w ! 0 = P8_PACKET_MAIN" by (simp add: w_def enc_hdr_def hello_of_def)
  ultimately show ?thesis
    unfolding init_header_wire [where xxh = xxh, OF assms x_def] w_def [symmetric] Let_def
    using enc_hdr_body(1) [OF n, of False x] dec_enc_hdr [OF n, of x] by (simp add: w_def)
qed

definition ex_hdr_in :: hdr_in where
  "ex_hdr_in = \<lparr>hi_utc_offset = 3600, hi_process_id = 77, hi_system_time = 5, hi_ticks = 6, hi_clock_numer = 1,
     hi_clock_denom = 1, hi_process_name = 112 # replicate 255 0, hi_host_name = 104 # replicate 255 0\<rparr>"

theorem hello_roundtrip_witness:
  "hdr_process_id (dec_hdr (enc_hdr True (init_header True (\<lambda>x. of_le32 (rev (le32 x))) (\<lambda>x. of_le64 (rev (le64 x)))
     (\<lambda>bs. word_of_nat (length bs)) ex_hdr_in))) = 77"
  using hello_roundtrip [OF bswap_of_bytes, of ex_hdr_in True "\<lambda>bs. word_of_nat (length bs)"]
  by (simp add: names_ok_def ex_hdr_in_def hello_of_def Let_def)

end
