(* ===== verification/P8_Setup.thy ===== *)
theory P8_Setup
  imports P8_Worker P8_Hello
begin

text \<open>
  The parts of a core's construction (engine/p8_core.cpp): the configuration, the clock and the
  batch intervals in its ticks, the sink that the configuration asks for, the buffer pool.

  What the core asks of others is in the record \<open>outside\<close>: allocations that may fail, the
  clocks, the host, the file system, the JSON library, the hash. \<open>ou_parse\<close> gives no result when
  the JSON library throws, and a value that is not a string makes \<open>get<std::string>()\<close> throw. An
  exception that leaves the constructor is no result (\<open>None\<close>). \<open>ou_casecmp\<close> is the kit's
  comparison of strings without regard to case.
\<close>

section \<open>Configuration\<close>

abbreviation (input) P8_CFG_KEY_SINK :: cstr where "P8_CFG_KEY_SINK \<equiv> bytes_of ''sink''"
abbreviation (input) P8_CFG_KEY_MAX_MEMORY_SIZE :: cstr where
  "P8_CFG_KEY_MAX_MEMORY_SIZE \<equiv> bytes_of ''max_memory_size''"
abbreviation (input) P8_CFG_KEY_INITIAL_MEMORY_SIZE :: cstr where
  "P8_CFG_KEY_INITIAL_MEMORY_SIZE \<equiv> bytes_of ''initial_memory_size''"
abbreviation (input) P8_CFG_KEY_FILE_BIN :: cstr where "P8_CFG_KEY_FILE_BIN \<equiv> bytes_of ''FileBin''"
abbreviation (input) P8_CFG_KEY_FILE_OUT_DIR :: cstr where "P8_CFG_KEY_FILE_OUT_DIR \<equiv> bytes_of ''OutDir''"
abbreviation (input) P8_CFG_VAL_SINK_FILE_BIN :: cstr where "P8_CFG_VAL_SINK_FILE_BIN \<equiv> bytes_of ''file.bin''"
abbreviation (input) P8_CFG_VAL_SINK_NETWORK_TCP :: cstr where "P8_CFG_VAL_SINK_NETWORK_TCP \<equiv> bytes_of ''network.tcp''"
abbreviation (input) P8_CFG_VAL_SINK_NETWORK_NULL :: cstr where "P8_CFG_VAL_SINK_NETWORK_NULL \<equiv> bytes_of ''null''"

text \<open>\<open>s_p8_config\<close>; of the timer callback, whether there is one.\<close>

record s_p8_config =
  mp_json_config :: "cstr option"
  ml_timer_value :: bool
  mu_timer_numer :: u64
  mu_timer_denom :: u64

datatype json_value = Json_string cstr | Json_object "cstr \<Rightarrow> json_value option" | Json_other

fun json_get :: "json_value \<Rightarrow> cstr \<Rightarrow> json_value option" where
  "json_get (Json_object m) k = m k"
| "json_get _ k = None"

text \<open>\<open>if(contains(k)) s = j[k].get<std::string>()\<close>; the string is empty when the key is missing.\<close>

definition json_string :: "json_value \<Rightarrow> cstr \<Rightarrow> cstr option" where
  "json_string j k = (case json_get j k of
     None \<Rightarrow> Some []
   | Some (Json_string s) \<Rightarrow> Some s
   | Some _ \<Rightarrow> None)"

text \<open>\<open>s.empty() ? nullptr : s.c_str()\<close>: a C string ends at its first zero.\<close>

definition c_str_or_null :: "cstr \<Rightarrow> cstr option" where
  "c_str_or_null s = (if s = [] then None else Some (takeWhile (\<lambda>b. b \<noteq> 0) s))"

section \<open>The clock\<close>

record clock =
  ck_user :: bool
  mu_clock_numer :: u64
  mu_clock_denom :: u64

definition init_clock :: "s_p8_config \<Rightarrow> u64 \<times> u64 \<Rightarrow> clock" where
  "init_clock ip_config hires_freq =
     (if ml_timer_value ip_config \<and> 0 \<noteq> mu_timer_numer ip_config \<and> 0 \<noteq> mu_timer_denom ip_config
      then \<lparr>ck_user = True, mu_clock_numer = mu_timer_numer ip_config, mu_clock_denom = mu_timer_denom ip_config\<rparr>
      else \<lparr>ck_user = False, mu_clock_numer = fst hires_freq, mu_clock_denom = snd hires_freq\<rparr>)"

definition get_ticks :: "clock \<Rightarrow> u64 \<Rightarrow> u64 \<Rightarrow> u64" where
  "get_ticks ck user_ticks hires_ticks = (if ck_user ck then user_ticks else hires_ticks)"

abbreviation (input) P8_CORE_BATCH_MARGIN_US :: u64 where "P8_CORE_BATCH_MARGIN_US \<equiv> 10"
abbreviation (input) P8_CORE_THREAD_TIMEOUT_MS :: u64 where "P8_CORE_THREAD_TIMEOUT_MS \<equiv> 50"
abbreviation (input) P8_CORE_IDLE_BATCH_INTERVAL_MS :: u64 where "P8_CORE_IDLE_BATCH_INTERVAL_MS \<equiv> 5000"

definition init_batch_ticks :: "clock \<Rightarrow> core \<Rightarrow> core" where
  "init_batch_ticks ck c = (let lu_freq_numer = mu_clock_numer ck; lu_freq_denom = mu_clock_denom ck in
     if lu_freq_numer \<noteq> 0 then
       c\<lparr>mu_batch_margin_ticks := P8_CORE_BATCH_MARGIN_US * 1000 * lu_freq_denom div lu_freq_numer,
         mu_batch_tail_ticks := P8_CORE_THREAD_TIMEOUT_MS * 1000000 * lu_freq_denom div lu_freq_numer,
         mu_batch_idle_ticks := P8_CORE_IDLE_BATCH_INTERVAL_MS * 1000000 * lu_freq_denom div lu_freq_numer\<rparr>
     else c)"

section \<open>The sink\<close>

datatype 'f sink = Null_sink u64 | File_sink "'f sink_file"

text \<open>What the core asks of others while it is made and while it runs.\<close>

record 'f outside =
  ou_parse :: "cstr \<Rightarrow> json_value option"
  ou_casecmp :: "cstr \<Rightarrow> cstr \<Rightarrow> bool"
  ou_bswap32 :: "u32 \<Rightarrow> u32"
  ou_bswap64 :: "u64 \<Rightarrow> u64"
  ou_xxh :: "byte list \<Rightarrow> u64"
  ou_budget_alloc :: bool
  ou_pool_alloc :: bool
  ou_buffer_fail :: "addr \<Rightarrow> bool"
  ou_sink_alloc :: bool
  ou_null_alloc :: bool
  ou_event_init :: bool
  ou_hires_freq :: "u64 \<times> u64"
  ou_user_ticks :: u64
  ou_hires_ticks :: u64
  ou_host :: hdr_in
  ou_big_endian :: bool
  ou_file_ops :: "'f file_ops"
  ou_closed_file :: 'f
  ou_mkdir :: "cstr list \<Rightarrow> bool"
  ou_create :: "cstr list \<Rightarrow> 'f option"
  ou_proc_name :: cstr
  ou_pid :: cstr
  ou_stamp :: cstr
  ou_realloc :: "nat \<Rightarrow> bool"

text \<open>The file sink's constructor reads \<open>FileBin\<close> and \<open>OutDir\<close> in it.\<close>

definition new_sink_file :: "'f outside \<Rightarrow> json_value \<Rightarrow> 'f sink_file option" where
  "new_sink_file ou ir_config = (case json_get ir_config P8_CFG_KEY_FILE_BIN of
     None \<Rightarrow> Some (sink_file_create (ou_closed_file ou) None)
   | Some lo_file_bin \<Rightarrow> (case json_get lo_file_bin P8_CFG_KEY_FILE_OUT_DIR of
       None \<Rightarrow> Some (sink_file_create (ou_closed_file ou) (Some None))
     | Some (Json_string s) \<Rightarrow> Some (sink_file_create (ou_closed_file ou) (Some (Some s)))
     | Some _ \<Rightarrow> None))"

text \<open>\<open>create_sink\<close>: an exception, or a sink or null.\<close>

definition create_sink :: "'f outside \<Rightarrow> cstr option \<Rightarrow> json_value \<Rightarrow> 'f sink option option" where
  "create_sink ou ip_value ir_config = (case ip_value of
     None \<Rightarrow> Some (if ou_sink_alloc ou then Some (Null_sink 0) else None)
   | Some v \<Rightarrow>
       if v = P8_CFG_VAL_SINK_FILE_BIN then
         (if \<not> ou_sink_alloc ou then Some None
          else map_option (\<lambda>s. Some (File_sink s)) (new_sink_file ou ir_config))
       else if v = P8_CFG_VAL_SINK_NETWORK_TCP then Some None
       else if v = P8_CFG_VAL_SINK_NETWORK_NULL then Some (if ou_sink_alloc ou then Some (Null_sink 0) else None)
       else Some None)"

text \<open>The virtual calls.\<close>

fun open_sink :: "'f outside \<Rightarrow> 'f sink \<Rightarrow> bool \<times> 'f sink" where
  "open_sink ou (Null_sink t) = map_prod id Null_sink (null_open t)"
| "open_sink ou (File_sink s) = map_prod id File_sink
     (sink_open (ou_file_ops ou) (ou_mkdir ou) (ou_create ou) (ou_proc_name ou) (ou_pid ou) (ou_stamp ou) s)"

fun hello_sink :: "'f outside \<Rightarrow> byte list \<Rightarrow> 'f sink \<Rightarrow> bool \<times> 'f sink" where
  "hello_sink ou hdr (Null_sink t) = map_prod id Null_sink (null_write_hello hdr t)"
| "hello_sink ou hdr (File_sink s) = map_prod id File_sink (sink_write_hello (ou_file_ops ou) hdr s)"

fun data_sink :: "'f outside \<Rightarrow> s_p8_batch \<Rightarrow> mem \<Rightarrow> addr list \<Rightarrow> 'f sink \<Rightarrow> bool \<times> 'f sink" where
  "data_sink ou b m bs (Null_sink t) = map_prod id Null_sink (null_write_data b m bs t)"
| "data_sink ou b m bs (File_sink s) = map_prod id File_sink
     (sink_write_data (ou_file_ops ou) (ou_realloc ou (length bs + 1)) b m bs s)"

fun service_sink :: "'f outside \<Rightarrow> mem \<Rightarrow> s_p8_svc_buf list \<Rightarrow> 'f sink \<Rightarrow> bool \<times> 'f sink" where
  "service_sink ou m sbs (Null_sink t) = map_prod id Null_sink (null_write_service m sbs t)"
| "service_sink ou m sbs (File_sink s) = map_prod id File_sink
     (sink_write_service (ou_file_ops ou) (ou_realloc ou (length sbs)) m sbs s)"

fun flush_sink :: "'f outside \<Rightarrow> 'f sink \<Rightarrow> 'f sink" where
  "flush_sink ou (Null_sink t) = Null_sink (null_flush t)"
| "flush_sink ou (File_sink s) = File_sink (P8_Sink.sink_flush (ou_file_ops ou) s)"

fun close_sink :: "'f outside \<Rightarrow> 'f sink \<Rightarrow> 'f sink" where
  "close_sink ou (Null_sink t) = Null_sink t"
| "close_sink ou (File_sink s) = File_sink (sink_close (ou_file_ops ou) s)"

definition sink_vtable :: "'f outside \<Rightarrow> 'f sink sink_ops" where
  "sink_vtable ou = \<lparr>sk_write_data = data_sink ou, sk_write_service = service_sink ou, sk_flush = flush_sink ou\<rparr>"

section \<open>The buffer pool\<close>

text \<open>\<open>cp8_core::init_buffer_pool\<close>; no result is its false.\<close>

definition init_buffer_pool ::
    "'f outside \<Rightarrow> cstr option \<Rightarrow> cstr option \<Rightarrow> buffer_pool option" where
  "init_buffer_pool ou ip_max_memory_size ip_initial_memory_size =
     (let lz_initial0 = 1024 * 1024; lz_max0 = 16 * lz_initial0 in do {
        lz_max \<leftarrow> (case ip_max_memory_size of None \<Rightarrow> Some lz_max0 | Some s \<Rightarrow> parse_size (ou_casecmp ou) s);
        lz_initial1 \<leftarrow> (case ip_initial_memory_size of None \<Rightarrow> Some lz_initial0 | Some s \<Rightarrow> parse_size (ou_casecmp ou) s);
        let lz_initial = (if lz_initial1 > lz_max then lz_max else lz_initial1);
        if \<not> ou_budget_alloc ou then None
        else if mz_data_buffer_size > 2 * 2 ^ 16 then None
        else if \<not> ou_pool_alloc ou then None
        else Some (snd (pool_init (unat (lz_initial div word_of_nat mz_data_buffer_size))
          (pool_create (word_of_nat mz_data_buffer_size) (Some \<lparr>mu_used = 0, mz_max = lz_max\<rparr>) (ou_buffer_fail ou))))
      })"

end
