(* ===== verification/P8_Delivery.thy ===== *)
theory P8_Delivery
  imports P8_Setup
begin

text \<open>
  The worker and a sink together. What the worker does to the engine does not depend on the sink,
  whose results it ignores; \<open>sink_pair\<close> carries a relation between two sinks through a run. With
  the sink that remembers the calls on one side and the file sink on the other, the files are a
  function of the calls: the data file grows by the batch packets with their buffers, the
  service file by the service bytes.
\<close>

section \<open>Two sinks that see the same run\<close>

locale sink_pair =
  fixes ops1 :: "'s sink_ops" and ops2 :: "'t sink_ops" and R :: "'s \<Rightarrow> 't \<Rightarrow> bool"
  assumes data: "R s t \<Longrightarrow> R (snd (sk_write_data ops1 b m bs s)) (snd (sk_write_data ops2 b m bs t))"
    and service: "R s t \<Longrightarrow> sbs \<noteq> [] \<Longrightarrow> R (snd (sk_write_service ops1 m sbs s)) (snd (sk_write_service ops2 m sbs t))"
    and flush: "R s t \<Longrightarrow> R (sk_flush ops1 s) (sk_flush ops2 t)"
begin

lemma flush_ready_pair:
  assumes "R s t" and "flush_ready ops1 bs ts c s = (left, c', s')"
  obtains t' where "flush_ready ops2 bs ts c t = (left, c', t')" and "R s' t'"
  using assms data [OF assms(1)] by (auto simp: flush_ready_def Let_def split: if_splits)

lemma cycle_pair:
  assumes "R s t" and w: "worker_cycle env ops1 pt i l e s = Some (l', e', s')"
  obtains t' where "worker_cycle env ops2 pt i l e t = Some (l', e', t')" and "R s' t'"
proof -
  obtain bs l0 where l: "l = (bs, l0)" by fastforce
  from w obtain ts bs1 e1 where c: "collect_batch env (wi_ticks i) bs e = Some (ts, bs1, e1)"
    by (auto simp: worker_cycle_def l split: bind_splits)
  obtain c2 wl2 where m: "meanwhile env e1 = (c2, wl2)" by fastforce
  obtain sbs c3 where tk: "take_svc c2 = (sbs, c3)" by fastforce
  let ?s = "if length sbs > 0 then snd (sk_write_service ops1 (co_mem c3) sbs s) else s"
  let ?t = "if length sbs > 0 then snd (sk_write_service ops2 (co_mem c3) sbs t) else t"
  have st: "R ?s ?t" using assms(1) service by simp
  from w obtain l1 c5 wl5 where p: "poll_cadence pt l0 (wi_hires_ticks i) (recycle_svc sbs c3, wl2) = Some (l1, c5, wl5)"
    by (auto simp: worker_cycle_def l c m tk split: bind_splits prod.splits)
  obtain c6 wl6 where m6: "meanwhile env (c5\<lparr>mb_wake_pending := False\<rparr>, wl5) = (c6, wl6)" by fastforce
  obtain lf c7 s2 where f: "flush_ready ops1 bs1 ts c6 ?s = (lf, c7, s2)" by (cases "flush_ready ops1 bs1 ts c6 ?s")
  obtain t2 where f2: "flush_ready ops2 bs1 ts c6 ?t = (lf, c7, t2)" "R s2 t2" by (rule flush_ready_pair [OF st f])
  have "l' = (lf, l1)" "e' = (c7, wl6)" "s' = sk_flush ops1 s2"
    using w by (simp_all add: worker_cycle_def l c m tk p m6 f del: length_greater_0_conv)
  moreover have "worker_cycle env ops2 pt i l e t = Some ((lf, l1), (c7, wl6), sk_flush ops2 t2)"
    by (simp add: worker_cycle_def l c m tk p m6 f2(1) del: length_greater_0_conv)
  ultimately show ?thesis using that flush [OF f2(2)] by simp
qed

lemma loop_pair:
  "R s t \<Longrightarrow> worker_loop env ops1 pt is l e s = Some (l', e', s') \<Longrightarrow>
   \<exists>t'. worker_loop env ops2 pt is l e t = Some (l', e', t') \<and> R s' t'"
proof (induction "is" arbitrary: l e s t)
  case (Cons i "is")
  from Cons.prems(2) obtain l1 e1 s1 where w: "worker_cycle env ops1 pt i l e s = Some (l1, e1, s1)"
    and r: "(if wi_stop i then Some (l1, e1, s1) else worker_loop env ops1 pt is l1 (meanwhile env e1) s1) = Some (l', e', s')"
    by (auto split: bind_splits)
  obtain t1 where t1: "worker_cycle env ops2 pt i l e t = Some (l1, e1, t1)" "R s1 t1" by (rule cycle_pair [OF Cons.prems(1) w])
  show ?case
  proof (cases "wi_stop i")
    case True
    with r t1 show ?thesis by simp
  next
    case False
    with r Cons.IH [OF t1(2)] t1(1) show ?thesis by simp
  qed
qed simp

end

section \<open>Files that are a record of the calls\<close>

text \<open>A disk with room, whose \<open>write_v\<close> writes all it is given.\<close>

definition roomy :: "'f file_ops \<Rightarrow> ('f \<Rightarrow> byte list) \<Rightarrow> bool" where
  "roomy ops contents \<longleftrightarrow> write_v_law ops contents
     \<and> (\<forall>es f. fo_is_open ops f \<longrightarrow> length es \<le> mz_max_iov \<longrightarrow> fst (fo_write_v ops es f) = length (concat es))
     \<and> (\<forall>f. fo_is_open ops f \<longrightarrow> fo_is_open ops (fo_sync ops f) \<and> contents (fo_sync ops f) = contents f)"

definition call_packets :: "sink_call list \<Rightarrow> byte list" where
  "call_packets calls = concat (map (\<lambda>(b, bs). enc_bat b @ concat bs) (data_of calls))"

lemma call_packets_append [simp]: "call_packets (xs @ ys) = call_packets xs @ call_packets ys"
  by (simp add: call_packets_def)

text \<open>The file sink after the calls, from what its files held before.\<close>

definition files_hold :: "'f file_ops \<Rightarrow> ('f \<Rightarrow> byte list) \<Rightarrow> byte list \<Rightarrow> byte list \<Rightarrow> sink_call list \<Rightarrow> 'f sink \<Rightarrow> bool" where
  "files_hold ops contents d0 v0 calls s \<longleftrightarrow> (case s of Null_sink t \<Rightarrow> False
   | File_sink f \<Rightarrow> fo_is_open ops (mo_data_file f) \<and> fo_is_open ops (mo_svc_file f)
       \<and> contents (mo_data_file f) = d0 @ call_packets calls \<and> contents (mo_svc_file f) = v0 @ services_of calls)"

lemma write_chunks_roomy:
  assumes "roomy ops contents"
  shows "fo_is_open ops f \<Longrightarrow> write_chunks ops es ok f s = (r, f', s') \<Longrightarrow>
    fo_is_open ops f' \<and> contents f' = contents f @ concat es \<and> r = ok \<and> same_files s s'"
proof (induction "length es" arbitrary: es f s rule: less_induct)
  case less
  show ?case
  proof (cases "es = []")
    case True
    with less.prems show ?thesis by (simp add: write_chunks.simps same_files_def)
  next
    case False
    let ?n = "min mz_max_iov (length es)"
    obtain w f1 where w: "fo_write_v ops (take ?n es) f = (w, f1)" by fastforce
    have law: "write_v_law ops contents" using assms by (simp add: roomy_def)
    have l: "length (take ?n es) \<le> mz_max_iov" by simp
    have full: "w = length (concat (take ?n es))" using assms less.prems(1) l w unfolding roomy_def by (metis fst_conv)
    from write_v_lawD [OF law less.prems(1) l w] full
    have f1: "fo_is_open ops f1" "contents f1 = contents f @ concat (take ?n es)" by simp_all
    obtain s1 where s1: "write_chunks ops (drop ?n es) ok f1 s1 = (r, f', s')" and sf: "same_files s s1"
      using less.prems(2) False w full
      by (subst (asm) write_chunks.simps) (auto simp: Let_def sum_list_length same_files_def)
    have "length (drop ?n es) < length es" using False by simp
    from less.hyps [OF this f1(1) s1] f1(2) sf show ?thesis
      by (simp add: same_files_def) (simp flip: concat_append)
  qed
qed

lemma write_entries_roomy:
  assumes "roomy ops contents" and "fo_is_open ops f" and "n = length (concat es)" and "write_entries ops es n f s = (r, f', s')"
  shows "fo_is_open ops f' \<and> contents f' = contents f @ concat es \<and> r \<and> same_files s s'"
proof (cases "n = 0")
  case True
  with assms show ?thesis by (auto simp: write_entries_def same_files_def)
next
  case False
  with assms(2,4) have "write_chunks ops es True f s = (r, f', s')" by (simp add: write_entries_def)
  from write_chunks_roomy [OF assms(1,2) this] show ?thesis by simp
qed


lemma data_sink_holds:
  assumes r: "roomy (ou_file_ops ou) contents" and a: "\<forall>n. ou_realloc ou n"
    and h: "files_hold (ou_file_ops ou) contents d0 v0 calls s"
  shows "files_hold (ou_file_ops ou) contents d0 v0 (calls @ [Data_call b (map (buffer_bytes m) bs)]) (snd (data_sink ou b m bs s))"
proof -
  let ?ops = "ou_file_ops ou" and ?n = "sizeof_batch + sum_list (map (buf_size m) bs)"
  let ?es = "enc_bat b # map (\<lambda>a. rd m a 0 (buf_size m a)) bs"
  obtain f where s: "s = File_sink f" and o: "fo_is_open ?ops (mo_data_file f)" "fo_is_open ?ops (mo_svc_file f)"
    and c: "contents (mo_data_file f) = d0 @ call_packets calls" "contents (mo_svc_file f) = v0 @ services_of calls"
    using h by (auto simp: files_hold_def split: sink.splits)
  obtain f1 where g: "grow_iov True (length bs + 1) f = (True, f1)" by (cases "length bs + 1 \<le> mz_iov_cap f") (auto simp: grow_iov_def)
  note gs = grow_iov_same [OF g]
  obtain q d f2 where w: "write_entries ?ops ?es ?n (mo_data_file f1) f1 = (q, d, f2)" by (cases "write_entries ?ops ?es ?n (mo_data_file f1) f1")
  have n: "?n = length (concat ?es)" by (induction bs) simp_all
  have o1: "fo_is_open ?ops (mo_data_file f1)" using o(1) gs by (simp add: same_files_def)
  note e = write_entries_roomy [OF r o1 n w]
  have bb: "map (\<lambda>a. rd m a 0 (buf_size m a)) bs = map (buffer_bytes m) bs" by (simp add: buffer_bytes_def)
  have res: "snd (data_sink ou b m bs s) = File_sink (f2\<lparr>mo_data_file := d\<rparr>)"
    using a g w by (simp add: s sink_write_data_def Let_def)
  show ?thesis unfolding res files_hold_def using e gs o(2) c
    by (simp add: same_files_def call_packets_def bb)
qed

lemma service_sink_holds:
  assumes r: "roomy (ou_file_ops ou) contents" and a: "\<forall>n. ou_realloc ou n" and ne: "sbs \<noteq> []"
    and h: "files_hold (ou_file_ops ou) contents d0 v0 calls s"
  shows "files_hold (ou_file_ops ou) contents d0 v0 (calls @ [Service_call (svc_bytes m sbs)]) (snd (service_sink ou m sbs s))"
proof -
  let ?ops = "ou_file_ops ou" and ?n = "sum_list (map sb_used sbs)"
  let ?es = "map (\<lambda>e. rd m (sb_buf e) 0 (sb_used e)) sbs"
  obtain f where s: "s = File_sink f" and o: "fo_is_open ?ops (mo_data_file f)" "fo_is_open ?ops (mo_svc_file f)"
    and c: "contents (mo_data_file f) = d0 @ call_packets calls" "contents (mo_svc_file f) = v0 @ services_of calls"
    using h by (auto simp: files_hold_def split: sink.splits)
  obtain f1 where g: "grow_iov True (length sbs) f = (True, f1)" by (cases "length sbs \<le> mz_iov_cap f") (auto simp: grow_iov_def)
  note gs = grow_iov_same [OF g]
  obtain q d f2 where w: "write_entries ?ops ?es ?n (mo_svc_file f1) f1 = (q, d, f2)" by (cases "write_entries ?ops ?es ?n (mo_svc_file f1) f1")
  have n: "?n = length (concat ?es)" by (induction sbs) simp_all
  have o1: "fo_is_open ?ops (mo_svc_file f1)" using o(2) gs by (simp add: same_files_def)
  note e = write_entries_roomy [OF r o1 n w]
  have res: "snd (service_sink ou m sbs s) = File_sink (f2\<lparr>mo_svc_file := d\<rparr>)"
    using a g w ne by (simp add: s sink_write_service_def Let_def)
  show ?thesis unfolding res files_hold_def using e gs o(1) c
    by (simp add: same_files_def call_packets_def svc_bytes_def)
qed

lemma flush_sink_holds:
  assumes r: "roomy (ou_file_ops ou) contents" and h: "files_hold (ou_file_ops ou) contents d0 v0 calls s"
  shows "files_hold (ou_file_ops ou) contents d0 v0 (calls @ [Flush_call]) (flush_sink ou s)"
proof -
  have sy: "fo_is_open (ou_file_ops ou) (fo_sync (ou_file_ops ou) f) \<and> contents (fo_sync (ou_file_ops ou) f) = contents f"
    if "fo_is_open (ou_file_ops ou) f" for f using r that by (simp add: roomy_def)
  from h show ?thesis
    by (cases s) (simp_all add: files_hold_def P8_Sink.sink_flush_def sy call_packets_def)
qed

text \<open>With room on the disk and memory for the entries, the file sink's files are the calls.\<close>

definition files_follow :: "'f outside \<Rightarrow> ('f \<Rightarrow> byte list) \<Rightarrow> byte list \<Rightarrow> byte list \<Rightarrow> sink_call list \<Rightarrow> 'f sink \<Rightarrow> bool" where
  "files_follow ou contents d0 v0 calls s \<longleftrightarrow>
     (roomy (ou_file_ops ou) contents \<and> (\<forall>n. ou_realloc ou n) \<longrightarrow> files_hold (ou_file_ops ou) contents d0 v0 calls s)"

interpretation filed: sink_pair rec_ops "sink_vtable ou" "files_follow ou contents d0 v0"
  for ou :: "'f outside" and contents :: "'f \<Rightarrow> byte list" and d0 v0
proof
  fix calls b m bs and s :: "'f sink" and sbs
  assume f: "files_follow ou contents d0 v0 calls s"
  show "files_follow ou contents d0 v0 (snd (sk_write_data rec_ops b m bs calls)) (snd (sk_write_data (sink_vtable ou) b m bs s))"
    using f data_sink_holds [of ou contents d0 v0 calls s b m bs] by (simp add: files_follow_def sink_vtable_def rec_ops_def)
  show "files_follow ou contents d0 v0 (snd (sk_write_service rec_ops m sbs calls)) (snd (sk_write_service (sink_vtable ou) m sbs s))"
    if "sbs \<noteq> []"
    using f that service_sink_holds [of ou contents sbs d0 v0 calls s m] by (simp add: files_follow_def sink_vtable_def rec_ops_def)
  show "files_follow ou contents d0 v0 (sk_flush rec_ops calls) (sk_flush (sink_vtable ou) s)"
    using f flush_sink_holds [of ou contents d0 v0 calls s] by (simp add: files_follow_def sink_vtable_def rec_ops_def)
qed

text \<open>The null sink counts.\<close>

definition call_size :: "sink_call \<Rightarrow> nat" where
  "call_size x = length (services_of [x]) + length (call_packets [x])"

definition counts :: "u64 \<Rightarrow> sink_call list \<Rightarrow> 'f sink \<Rightarrow> bool" where
  "counts t0 calls s \<longleftrightarrow> (\<forall>t. s = Null_sink t \<longrightarrow> t = t0 + word_of_nat (sum_list (map call_size calls)))"

lemma svc_bytes_length: "length (svc_bytes m sbs) = sum_list (map sb_used sbs)"
  by (induction sbs) (simp_all add: svc_bytes_def)

lemma call_size_simps [simp]:
  "call_size (Data_call b bs) = sizeof_batch + sum_list (map length bs)" "call_size (Service_call sv) = length sv"
  "call_size Flush_call = 0"
  by (simp_all add: call_size_def call_packets_def sum_list_length)

interpretation counted: sink_pair rec_ops "sink_vtable ou" "counts t0" for ou :: "'f outside" and t0
proof
  fix calls b m bs and s :: "'f sink" and sbs
  assume c: "counts t0 calls s"
  have l: "sum_list (map (\<lambda>a. length (buffer_bytes m a)) bs) = sum_list (map (buf_size m) bs)"
    by (induction bs) (simp_all add: buffer_bytes_def)
  show "counts t0 (snd (sk_write_data rec_ops b m bs calls)) (snd (sk_write_data (sink_vtable ou) b m bs s))"
    using c by (cases s) (simp_all add: counts_def rec_ops_def sink_vtable_def null_write_data_def fold_add_word o_def l add.assoc)
  show "counts t0 (snd (sk_write_service rec_ops m sbs calls)) (snd (sk_write_service (sink_vtable ou) m sbs s))"
    using c by (cases s) (simp_all add: counts_def rec_ops_def sink_vtable_def null_write_service_def fold_add_word svc_bytes_length add.assoc)
  show "counts t0 (sk_flush rec_ops calls) (sk_flush (sink_vtable ou) s)"
    using c by (cases s) (simp_all add: counts_def rec_ops_def sink_vtable_def null_flush_def)
qed

section \<open>Reading the data file back\<close>

lemma dec_dbh_append: "sizeof_data_buf_hdr \<le> length x \<Longrightarrow> dec_dbh (x @ rest) = dec_dbh x"
  by (cases x; cases "tl x") (simp_all add: dec_dbh_def nth_append)

lemma read_buffers_wf:
  "\<forall>x \<in> set xs. buf_wf x \<Longrightarrow> read_buffers (length xs) (concat xs @ rest) = Some (xs, rest)"
proof (induction xs)
  case (Cons x xs)
  then show ?case by (simp add: buf_wf_def dec_dbh_append Let_def)
qed simp

definition calls_wf :: "(s_p8_batch \<times> byte list list) list \<Rightarrow> bool" where
  "calls_wf ds \<longleftrightarrow> (\<forall>(b, bs) \<in> set ds. bat_packet_type b = P8_PACKET_BATCH \<and> unat (bat_count b) = length bs \<and> (\<forall>x \<in> set bs. buf_wf x))"

lemma read_packets:
  "calls_wf (data_of calls) \<Longrightarrow> read_batches (length (data_of calls)) (call_packets calls) = Some (data_of calls)"
proof -
  have "calls_wf ds \<Longrightarrow> read_batches (length ds) (concat (map (\<lambda>(b, bs). enc_bat b @ concat bs) ds)) = Some ds" for ds
  proof (induction ds)
    case (Cons d ds)
    obtain b bs where d: "d = (b, bs)" by fastforce
    with Cons.prems have "read_batch (enc_bat b @ concat bs @ rest) = Some ((b, bs), rest)" for rest
      using read_buffers_wf [of bs rest] by (simp add: calls_wf_def read_batch_def bat.dec_enc_rest Let_def)
    with Cons d show ?case by (simp add: calls_wf_def)
  qed simp
  then show "calls_wf (data_of calls) \<Longrightarrow> read_batches (length (data_of calls)) (call_packets calls) = Some (data_of calls)"
    by (simp add: call_packets_def)
qed


section \<open>The worker with a sink of the program\<close>

lemma calls_wf_counted:
  assumes "\<forall>(b, bs) \<in> set ds. bat_packet_type b = P8_PACKET_BATCH \<and> bat_count b = word_of_nat (length bs)"
    and "\<forall>x \<in> set (concat (map snd ds)). buf_wf x" and "\<forall>(b, bs) \<in> set ds. length bs < 2 ^ 32"
  shows "calls_wf ds"
  using assms unfolding calls_wf_def by (fastforce simp: unat_of_nat)

text \<open>A run up to the stop signal: the calls a sink gets, and what they make of the sink there is.\<close>

lemma delivery:
  fixes s :: "'f sink"
  assumes "engine_env env" and "engine_ok [] xs (c, wl)" and "\<exists>i \<in> set is. wi_stop i"
  obtains l and c' :: core and wl' xs' calls s' where
    "worker_loop env (sink_vtable ou) pt is ([], l0) (c, wl) s = Some (([], l), (c', wl'), s')"
    and "engine_ok [] xs' (c', wl')" and "co_svc_sent c' = co_svc_sent c @ services_of calls"
    and "clock_ok c is \<longrightarrow> batch_seq_from c (data_of calls)"
    and "(\<forall>(b, bs) \<in> set (data_of calls). length bs < 2 ^ 32) \<longrightarrow> calls_wf (data_of calls)"
    and "prefix (map (buffer_bytes (co_mem c)) (waiting_bufs xs (c, wl))) (bufs_of calls)"
    and "prefix (svc_total c) (co_svc_sent c')"
    and "\<And>contents d0 v0. files_follow ou contents d0 v0 [] s \<Longrightarrow> files_follow ou contents d0 v0 calls s'"
    and "\<And>t0. counts t0 [] s \<Longrightarrow> counts t0 calls s'"
proof -
  from engine_env.loop [OF assms(1,3,2), of pt l0 "[]"] obtain l and c' :: core and wl' xs' calls where
    w: "worker_loop env rec_ops pt is ([], l0) (c, wl) [] = Some (([], l), (c', wl'), calls)"
    and r: "engine_ok [] xs' (c', wl')" "co_svc_sent c' = co_svc_sent c @ services_of calls"
      "clock_ok c is \<longrightarrow> batch_seq_from c (data_of calls)" "\<forall>x \<in> set (bufs_of calls). buf_wf x"
      "\<forall>(b, bs) \<in> set (data_of calls). bat_packet_type b = P8_PACKET_BATCH \<and> bat_count b = word_of_nat (length bs)"
      "prefix (map (buffer_bytes (co_mem c)) (waiting_bufs xs (c, wl))) (bufs_of calls)"
      "prefix (svc_total c) (co_svc_sent c')"
    by auto
  have "counts (case s of Null_sink t \<Rightarrow> t | File_sink _ \<Rightarrow> 0) [] s" by (simp add: counts_def)
  from counted.loop_pair [OF this w] obtain s' where
    s': "worker_loop env (sink_vtable ou) pt is ([], l0) (c, wl) s = Some (([], l), (c', wl'), s')" by blast
  show thesis
  proof (rule that [OF s' r(1-3) _ r(6,7)])
    show "(\<forall>(b, bs) \<in> set (data_of calls). length bs < 2 ^ 32) \<longrightarrow> calls_wf (data_of calls)"
      using calls_wf_counted [OF r(5,4)] by blast
    show "files_follow ou contents d0 v0 calls s'" if "files_follow ou contents d0 v0 [] s" for contents d0 v0
      using filed.loop_pair [OF that w] s' by auto
    show "counts t0 calls s'" if "counts t0 [] s" for t0
      using counted.loop_pair [OF that w, of ou] s' by auto
  qed
qed

section \<open>Property\<close>

text \<open>From the writers to the disk. When the worker runs over the file sink, with files that are
  open, a disk with room and memory for the entries, its run up to the stop signal adds to the data file what a reader takes
  apart into batches with their buffers: these start with every buffer that writers and ready
  queue held, in order, the batches are numbered and timed as they should be, and the service
  file grows by exactly the service bytes taken, all that were waiting among them. (A batch's 32-bit
  count is assumed to be able to count its buffers.)\<close>
theorem worker_files_read_back:
  assumes "engine_env env" and "engine_ok [] xs (c, wl)" and "\<exists>i \<in> set is. wi_stop i"
    and "roomy (ou_file_ops ou) contents" and "\<forall>n. ou_realloc ou n"
    and "fo_is_open (ou_file_ops ou) (mo_data_file f)" and "fo_is_open (ou_file_ops ou) (mo_svc_file f)"
  shows "\<exists>c' wl' f' out sv ds.
    worker_main env (sink_vtable ou) numer denom start is (c, wl) (File_sink f) = Some ((c', wl'), File_sink f')
    \<and> contents (mo_data_file f') = contents (mo_data_file f) @ out
    \<and> ((\<forall>(b, bs) \<in> set ds. length bs < 2 ^ 32) \<longrightarrow> read_batches (length ds) out = Some ds)
    \<and> prefix (map (buffer_bytes (co_mem c)) (waiting_bufs xs (c, wl))) (concat (map snd ds))
    \<and> (clock_ok c is \<longrightarrow> batch_seq_from c ds)
    \<and> contents (mo_svc_file f') = contents (mo_svc_file f) @ sv
    \<and> co_svc_sent c' = co_svc_sent c @ sv \<and> prefix (svc_total c) (co_svc_sent c')"
proof -
  obtain l c' wl' xs' calls s' where
    w: "worker_loop env (sink_vtable ou) (stats_poll_ticks numer denom) is ([], start) (c, wl) (File_sink f) = Some (([], l), (c', wl'), s')"
    and r: "co_svc_sent c' = co_svc_sent c @ services_of calls" "clock_ok c is \<longrightarrow> batch_seq_from c (data_of calls)"
      "(\<forall>(b, bs) \<in> set (data_of calls). length bs < 2 ^ 32) \<longrightarrow> calls_wf (data_of calls)"
      "prefix (map (buffer_bytes (co_mem c)) (waiting_bufs xs (c, wl))) (bufs_of calls)" "prefix (svc_total c) (co_svc_sent c')"
    and ff: "\<And>contents d0 v0. files_follow ou contents d0 v0 [] (File_sink f) \<Longrightarrow> files_follow ou contents d0 v0 calls s'"
    by (rule delivery [OF assms(1-3), of ou "stats_poll_ticks numer denom" start "File_sink f"]) blast
  have "files_follow ou contents (contents (mo_data_file f)) (contents (mo_svc_file f)) [] (File_sink f)"
    using assms(6,7) by (simp add: files_follow_def files_hold_def call_packets_def)
  from ff [OF this] assms(4,5) obtain f' where f': "s' = File_sink f'"
    "contents (mo_data_file f') = contents (mo_data_file f) @ call_packets calls"
    "contents (mo_svc_file f') = contents (mo_svc_file f) @ services_of calls"
    by (auto simp: files_follow_def files_hold_def split: sink.splits)
  show ?thesis using w r read_packets [of calls] unfolding f'(1)
    by (intro exI [of _ c'] exI [of _ wl'] exI [of _ f'] exI [of _ "call_packets calls"] exI [of _ "services_of calls"]
        exI [of _ "data_of calls"]) (simp add: worker_main_def f')
qed


section \<open>Witness\<close>

text \<open>A disk without limit: whether a file is open, and its bytes.\<close>

definition big_disk :: "(bool \<times> byte list) file_ops" where
  "big_disk = \<lparr>fo_is_open = fst, fo_write_v = (\<lambda>es (o', bs). (length (concat es), (o', bs @ concat es))),
     fo_sync = (\<lambda>f. f), fo_close = (\<lambda>(o', bs). (False, bs))\<rparr>"

lemma big_disk_roomy: "roomy big_disk snd"
  by (auto simp: roomy_def write_v_law_def big_disk_def)

text \<open>An outside where everything succeeds, with a file sink or another according to the configuration.\<close>

definition ex_outside :: "json_value \<Rightarrow> (bool \<times> byte list) outside" where
  "ex_outside j = \<lparr>ou_parse = (\<lambda>_. Some j), ou_casecmp = (=), ou_bswap32 = id, ou_bswap64 = id, ou_xxh = (\<lambda>_. 0),
     ou_budget_alloc = True, ou_pool_alloc = True, ou_buffer_fail = (\<lambda>_. False), ou_sink_alloc = True, ou_null_alloc = True,
     ou_event_init = True, ou_hires_freq = (1, 1), ou_user_ticks = 0, ou_hires_ticks = 5,
     ou_host = \<lparr>hi_utc_offset = 0, hi_process_id = 1, hi_system_time = 2, hi_ticks = 0, hi_clock_numer = 0,
        hi_clock_denom = 0, hi_process_name = replicate 256 0, hi_host_name = replicate 256 0\<rparr>,
     ou_big_endian = False, ou_file_ops = big_disk, ou_closed_file = (False, []), ou_mkdir = (\<lambda>_. True),
     ou_create = (\<lambda>_. Some (True, [])), ou_proc_name = [112], ou_pid = [49], ou_stamp = [48], ou_realloc = (\<lambda>_. True)\<rparr>"

definition ex_open_files :: "(bool \<times> byte list) sink_file" where
  "ex_open_files = (sink_file_create (False, []) None)\<lparr>mo_data_file := (True, []), mo_svc_file := (True, [])\<rparr>"

theorem worker_files_read_back_witness:
  "\<exists>c' wl' f' ds. worker_main ex_acts (sink_vtable (ex_outside Json_other)) 1 1 0
      [\<lparr>wi_ticks = 5, wi_hires_ticks = 9, wi_stop = True\<rparr>] ex_engine (File_sink ex_open_files) = Some ((c', wl'), File_sink f')
    \<and> 2 \<le> length (concat (map snd ds))
    \<and> ((\<forall>(b, bs) \<in> set ds. length bs < 2 ^ 32) \<longrightarrow> read_batches (length ds) (snd (mo_data_file f')) = Some ds)"
proof -
  have w: "waiting_bufs [1] ex_engine = [0, 1]"
    by (simp add: ex_engine_def waiting_bufs_def core_new_def bufs_def ex_writer_def)
  have o: "ou_file_ops (ex_outside Json_other) = big_disk" "\<forall>n. ou_realloc (ex_outside Json_other) n"
    by (simp_all add: ex_outside_def)
  have f: "fo_is_open big_disk (mo_data_file ex_open_files)" "fo_is_open big_disk (mo_svc_file ex_open_files)"
    "snd (mo_data_file ex_open_files) = []"
    by (simp_all add: ex_open_files_def big_disk_def)
  have s: "\<exists>i \<in> set [\<lparr>wi_ticks = 5, wi_hires_ticks = 9, wi_stop = True\<rparr>]. wi_stop i" by simp
  from worker_files_read_back [OF acting.engine_env_axioms, of "[1]" "fst ex_engine" "snd ex_engine"
      "[\<lparr>wi_ticks = 5, wi_hires_ticks = 9, wi_stop = True\<rparr>]" "ex_outside Json_other" snd ex_open_files
      "\<lambda>n. [Register_attr True True (Some [97]) e_p8_attr_u64, Start_writer 2 9]" 1 1 0, unfolded o(1) w prod.collapse,
      OF ex_engine_ok s big_disk_roomy o(2) f(1,2), folded ex_acts_def, unfolded f(3)]
  obtain c' wl' f' out ds where r: "worker_main ex_acts (sink_vtable (ex_outside Json_other)) 1 1 0
      [\<lparr>wi_ticks = 5, wi_hires_ticks = 9, wi_stop = True\<rparr>] ex_engine (File_sink ex_open_files) = Some ((c', wl'), File_sink f')"
    "snd (mo_data_file f') = [] @ out" "(\<forall>(b, bs) \<in> set ds. length bs < 2 ^ 32) \<longrightarrow> read_batches (length ds) out = Some ds"
    "prefix (map (buffer_bytes (co_mem (fst ex_engine))) [0, 1]) (concat (map snd ds))"
    by (elim exE conjE) (rule that; assumption)
  from prefix_length_le [OF r(4)] have "2 \<le> length (concat (map snd ds))" by simp
  with r(1-3) show ?thesis by (intro exI [of _ c'] exI [of _ wl'] exI [of _ f'] exI [of _ ds]) simp
qed

end
