(* ===== verification/P8_Lifecycle.thy ===== *)
theory P8_Lifecycle
  imports P8_Delivery
begin

text \<open>
  The life of a core (engine/p8_core.cpp): the constructor, which leaves a core that is not
  initialized when anything it needs is missing, the reference count, \<open>stop_worker\<close> and the
  destructor, which wakes all waiters, lets the worker run to its end, and closes the sink.

  \<open>core_obj\<close> is the object: the engine's state, the writer list, the sink, the header, the
  clock, the reference count, and the worker's thread, by its local variables between two cycles.
  \<open>ob_has_pool\<close> says that \<open>mp_data_pool\<close> is not null. The cycles that the worker still runs and
  what other threads do meanwhile are inputs of \<open>stop_worker\<close>; \<open>None\<close> is a wait that does not end.
\<close>

section \<open>The object\<close>

record 'f core_obj =
  ob_core :: core
  ob_has_pool :: bool
  ob_writers :: writer_list
  mp_sink :: "'f sink option"
  mo_hdr :: "s_p8_hdr option"
  ob_clock :: clock
  mu_ref_count :: u32
  mb_worker_running :: bool
  ob_locals :: "addr list \<times> u64"
  ob_poll_ticks :: u64

definition core_blank :: "'f outside \<Rightarrow> 'f core_obj" where
  "core_blank ou = \<lparr>ob_core = (core_new (pool_create (word_of_nat mz_data_buffer_size) None (ou_buffer_fail ou)))
       \<lparr>mb_initialized := False\<rparr>,
     ob_has_pool = False, ob_writers = writers_new, mp_sink = None, mo_hdr = None,
     ob_clock = \<lparr>ck_user = False, mu_clock_numer = 0, mu_clock_denom = 0\<rparr>, mu_ref_count = 1,
     mb_worker_running = False, ob_locals = ([], 0), ob_poll_ticks = 0\<rparr>"

definition get_initialized :: "'f core_obj \<Rightarrow> bool" where
  "get_initialized ob = mb_initialized (ob_core ob)"

text \<open>\<open>start_worker\<close>, with the first statements of \<open>worker_main\<close>, which prepare the statistics poll.\<close>

definition start_worker :: "'f outside \<Rightarrow> 'f core_obj \<Rightarrow> 'f core_obj" where
  "start_worker ou ob =
     (if \<not> ou_event_init ou then ob
      else ob\<lparr>mb_worker_running := True, ob_locals := ([], ou_hires_ticks ou),
              ob_poll_ticks := stats_poll_ticks (fst (ou_hires_freq ou)) (snd (ou_hires_freq ou))\<rparr>)"

text \<open>Opening the sink, or a null sink in its place.\<close>

definition open_or_null :: "'f outside \<Rightarrow> 'f sink \<Rightarrow> 'f sink option" where
  "open_or_null ou sk = (case open_sink ou sk of
     (True, sk1) \<Rightarrow> Some sk1
   | (False, _) \<Rightarrow> if \<not> ou_null_alloc ou then None
       else (case open_sink ou (Null_sink 0) of (True, sk1) \<Rightarrow> Some sk1 | (False, _) \<Rightarrow> None))"

definition host_now :: "'f outside \<Rightarrow> clock \<Rightarrow> hdr_in" where
  "host_now ou ck = (ou_host ou)\<lparr>hi_ticks := get_ticks ck (ou_user_ticks ou) (ou_hires_ticks ou),
     hi_clock_numer := mu_clock_numer ck, hi_clock_denom := mu_clock_denom ck\<rparr>"

definition new_header :: "'f outside \<Rightarrow> clock \<Rightarrow> s_p8_hdr" where
  "new_header ou ck = init_header (ou_big_endian ou) (ou_bswap32 ou) (ou_bswap64 ou) (ou_xxh ou) (host_now ou ck)"

text \<open>The object once the pool, the clock, the intervals and the header are there.\<close>

definition made_core :: "'f outside \<Rightarrow> clock \<Rightarrow> buffer_pool \<Rightarrow> 'f core_obj" where
  "made_core ou ck p = (core_blank ou)\<lparr>ob_core := init_batch_ticks ck ((ob_core (core_blank ou))\<lparr>mp_data_pool := p\<rparr>),
     ob_has_pool := True, ob_clock := ck, mo_hdr := Some (new_header ou ck)\<rparr>"

text \<open>The end of the constructor, once the sink is made: hello, initialized, worker.\<close>

definition core_ready :: "'f outside \<Rightarrow> 'f sink \<Rightarrow> s_p8_hdr \<Rightarrow> 'f core_obj \<Rightarrow> 'f core_obj" where
  "core_ready ou sk hdr ob = (let sk1 = snd (hello_sink ou (enc_hdr (ou_big_endian ou) hdr) sk)
     in start_worker ou (ob\<lparr>mp_sink := Some sk1, ob_core := (ob_core ob)\<lparr>mb_initialized := True\<rparr>\<rparr>))"

text \<open>The constructor; \<open>None\<close> when an exception leaves it.\<close>

definition core_create :: "'f outside \<Rightarrow> s_p8_config \<Rightarrow> 'f core_obj option" where
  "core_create ou ip_config = (case mp_json_config ip_config of
     None \<Rightarrow> Some (core_blank ou)
   | Some text \<Rightarrow> (case ou_parse ou text of
       None \<Rightarrow> Some (core_blank ou)
     | Some lo_json \<Rightarrow> do {
         ls_max_mem \<leftarrow> json_string lo_json P8_CFG_KEY_MAX_MEMORY_SIZE;
         ls_init_mem \<leftarrow> json_string lo_json P8_CFG_KEY_INITIAL_MEMORY_SIZE;
         (case init_buffer_pool ou (c_str_or_null ls_max_mem) (c_str_or_null ls_init_mem) of
           None \<Rightarrow> Some (core_blank ou)
         | Some p \<Rightarrow>
             let ck = init_clock ip_config (ou_hires_freq ou);
                 ob = made_core ou ck p
             in do {
               ls_sink_value \<leftarrow> json_string lo_json P8_CFG_KEY_SINK;
               lp_sink \<leftarrow> create_sink ou (c_str_or_null ls_sink_value) lo_json;
               Some (case lp_sink of
                   None \<Rightarrow> ob
                 | Some sk \<Rightarrow> (case open_or_null ou sk of
                     None \<Rightarrow> ob
                   | Some sk1 \<Rightarrow> core_ready ou sk1 (new_header ou ck) ob))
             })
       }))"

section \<open>The end of a core\<close>

definition stop_worker :: "'f outside \<Rightarrow> engine_interference \<Rightarrow> worker_in list \<Rightarrow> 'f core_obj \<Rightarrow> 'f core_obj option" where
  "stop_worker ou env is ob =
     (if \<not> mb_worker_running ob then Some ob
      else do {
        c1 \<leftarrow> (if ob_has_pool ob
          then map_option (\<lambda>p. (ob_core ob)\<lparr>mp_data_pool := p\<rparr>) (stop_waiters (mp_data_pool (ob_core ob)))
          else Some (ob_core ob));
        sk \<leftarrow> mp_sink ob;
        (locals, (c2, wl2), sk2) \<leftarrow> worker_loop env (sink_vtable ou) (ob_poll_ticks ob) is (ob_locals ob) (c1, ob_writers ob) sk;
        Some (ob\<lparr>ob_core := c2, ob_writers := wl2, mp_sink := Some sk2, ob_locals := locals, mb_worker_running := False\<rparr>)
      })"

definition clear_registries :: "core \<Rightarrow> core" where
  "clear_registries c = c\<lparr>mo_log_descs := (\<lambda>_. None), mo_attr_descs := [], mo_attr_name_map := (\<lambda>_. None),
     mo_log_mods := [], mo_log_mod_map := (\<lambda>_. None), mo_mtk_descs := [], mo_mtk_name_map := (\<lambda>_. None),
     mo_svc_buffers := []\<rparr>"

text \<open>The destructor: the sink as it was closed, and the last state of the object.\<close>

definition core_destroy ::
    "'f outside \<Rightarrow> engine_interference \<Rightarrow> worker_in list \<Rightarrow> 'f core_obj \<Rightarrow> ('f sink option \<times> 'f core_obj) option" where
  "core_destroy ou env is ob = do {
     ob1 \<leftarrow> stop_worker ou env is ob;
     let closed = map_option (close_sink ou) (mp_sink ob1);
     let c1 = clear_registries (ob_core ob1);
     c2 \<leftarrow> (if ob_has_pool ob1 then map_option (\<lambda>p. c1\<lparr>mp_data_pool := p\<rparr>) (pool_destroy (mp_data_pool c1)) else Some c1);
     Some (closed, ob1\<lparr>mp_sink := None, ob_core := c2, ob_has_pool := False\<rparr>)
   }"

definition addref :: "'f core_obj \<Rightarrow> 'f core_obj" where
  "addref ob = ob\<lparr>mu_ref_count := mu_ref_count ob + 1\<rparr>"

text \<open>\<open>release\<close>: whether \<open>delete this\<close> follows.\<close>

definition release :: "'f core_obj \<Rightarrow> bool \<times> 'f core_obj" where
  "release ob = (mu_ref_count ob = 1, ob\<lparr>mu_ref_count := mu_ref_count ob - 1\<rparr>)"

definition exceptional_flush :: "'f core_obj \<Rightarrow> 'f core_obj" where
  "exceptional_flush ob = ob"

section \<open>What the constructor makes\<close>

text \<open>The sizes the configuration asks for; \<open>None\<close> when a text is not a size.\<close>

definition pool_sizes :: "(cstr \<Rightarrow> cstr \<Rightarrow> bool) \<Rightarrow> cstr option \<Rightarrow> cstr option \<Rightarrow> (u64 \<times> u64) option" where
  "pool_sizes casecmp mx ini = do {
     m \<leftarrow> (case mx of None \<Rightarrow> Some (16 * (1024 * 1024)) | Some s \<Rightarrow> parse_size casecmp s);
     i \<leftarrow> (case ini of None \<Rightarrow> Some (1024 * 1024) | Some s \<Rightarrow> parse_size casecmp s);
     Some (m, min i m)
   }"

lemma init_buffer_pool_sizes:
  "init_buffer_pool ou mx ini = (case pool_sizes (ou_casecmp ou) mx ini of
     None \<Rightarrow> None
   | Some (m, i) \<Rightarrow> if ou_budget_alloc ou \<and> ou_pool_alloc ou
       then Some (snd (pool_init (unat (i div 8192)) (pool_create 8192 (Some \<lparr>mu_used = 0, mz_max = m\<rparr>) (ou_buffer_fail ou))))
       else None)"
  by (auto simp: init_buffer_pool_def pool_sizes_def Let_def min_def split: option.splits bind_splits)

lemma pool_grow_cap: "pool_grow p = (ok, p') \<Longrightarrow> map_option mz_max (mp_budget p') = map_option mz_max (mp_budget p)"
  by (auto simp: pool_grow_def pool_reserve_def pool_new_def pool_unreserve_def try_reserve_def budget_release_def Let_def
      split: option.splits prod.splits if_splits bool.splits)

lemma pool_init_loop_cap:
  "pool_init_loop n k p = (k', p') \<Longrightarrow> map_option mz_max (mp_budget p') = map_option mz_max (mp_budget p)"
proof (induction n arbitrary: k p)
  case (Suc n)
  obtain ok q where g: "pool_grow p = (ok, q)" by fastforce
  with Suc show ?case using pool_grow_cap [OF g] by (cases ok) auto
qed simp

lemma init_buffer_pool_start:
  assumes "init_buffer_pool ou mx ini = Some p"
  obtains m i where "pool_sizes (ou_casecmp ou) mx ini = Some (m, i)" and "i \<le> m" and "pool_start p"
    and "mz_buffer_size p = word_of_nat mz_data_buffer_size" and "length (mo_all p) \<le> unat i div mz_data_buffer_size"
    and "\<exists>b. mp_budget p = Some b \<and> mz_max b = m \<and> mu_used b \<le> m"
proof -
  from assms obtain m i where s: "pool_sizes (ou_casecmp ou) mx ini = Some (m, i)"
    and p: "p = snd (pool_init (unat (i div 8192)) (pool_create 8192 (Some \<lparr>mu_used = 0, mz_max = m\<rparr>) (ou_buffer_fail ou)))"
    by (auto simp: init_buffer_pool_sizes split: option.splits if_splits)
  let ?p0 = "pool_create 8192 (Some \<lparr>mu_used = 0, mz_max = m\<rparr>) (ou_buffer_fail ou)"
  have i: "i \<le> m" using s by (auto simp: pool_sizes_def split: bind_splits)
  have s0: "pool_start ?p0" using pool_create_start [of 8192 "Some m"] by simp
  obtain k' p' where l: "pool_init_loop (unat (i div 8192)) 0 ?p0 = (k', p')" by fastforce
  have pp: "p = p'" using l by (simp add: p pool_init_def)
  note f = pool_init_loop_start [OF s0 l] and c = pool_init_loop_cap [OF l]
  have z: "length (mo_all ?p0) = 0" "mz_buffer_size ?p0 = 8192" "map_option mz_max (mp_budget ?p0) = Some m"
    by (simp_all add: pool_create_def)
  obtain b where b: "mp_budget p' = Some b" "mz_max b = m" using c z(3) by (cases "mp_budget p'") auto
  have "pool_wf p'" using f by (simp add: pool_start_def)
  then have "unat (mu_used b) \<le> unat m" using b by (simp add: pool_wf_def budget_exact_def)
  then have u: "mu_used b \<le> m" by (simp add: word_le_nat_alt)
  have "unat (i div 8192) = unat i div 8192" by (simp add: unat_div)
  then have "length (mo_all p') \<le> unat i div 8192" using f z(1) by simp
  then show ?thesis using that [OF s i] f z(2) b u unfolding pp by simp
qed


text \<open>Every run of the constructor that returns: nothing made, all but the sink, or a core at work.\<close>

definition config_pool :: "'f outside \<Rightarrow> s_p8_config \<Rightarrow> (json_value \<times> buffer_pool option) option" where
  "config_pool ou cfg = do {
     text \<leftarrow> mp_json_config cfg;
     j \<leftarrow> ou_parse ou text;
     mx \<leftarrow> json_string j P8_CFG_KEY_MAX_MEMORY_SIZE;
     ini \<leftarrow> json_string j P8_CFG_KEY_INITIAL_MEMORY_SIZE;
     Some (j, init_buffer_pool ou (c_str_or_null mx) (c_str_or_null ini))
   }"

lemma core_create_cases:
  assumes "core_create ou cfg = Some ob"
  obtains (blank) "ob = core_blank ou" and "\<And>j p. config_pool ou cfg \<noteq> Some (j, Some p)"
  | (no_sink) j p v where "config_pool ou cfg = Some (j, Some p)" and "json_string j P8_CFG_KEY_SINK = Some v"
      and "ob = made_core ou (init_clock cfg (ou_hires_freq ou)) p"
      and "create_sink ou (c_str_or_null v) j = Some None
        \<or> (\<exists>sk. create_sink ou (c_str_or_null v) j = Some (Some sk) \<and> open_or_null ou sk = None)"
  | (ready) j p v sk sk1 where "config_pool ou cfg = Some (j, Some p)" and "json_string j P8_CFG_KEY_SINK = Some v"
      and "create_sink ou (c_str_or_null v) j = Some (Some sk)" and "open_or_null ou sk = Some sk1"
      and "ob = core_ready ou sk1 (new_header ou (init_clock cfg (ou_hires_freq ou)))
        (made_core ou (init_clock cfg (ou_hires_freq ou)) p)"
proof (cases "\<exists>j p. config_pool ou cfg = Some (j, Some p)")
  case False
  then have "ob = core_blank ou"
    using assms by (auto simp: core_create_def config_pool_def split: option.splits bind_splits)
  with False blank show ?thesis by blast
next
  case True
  then obtain j p where jp: "config_pool ou cfg = Some (j, Some p)" by blast
  then obtain ct mx ini where c: "mp_json_config cfg = Some ct" "ou_parse ou ct = Some j"
    "json_string j P8_CFG_KEY_MAX_MEMORY_SIZE = Some mx" "json_string j P8_CFG_KEY_INITIAL_MEMORY_SIZE = Some ini"
    "init_buffer_pool ou (c_str_or_null mx) (c_str_or_null ini) = Some p"
    by (auto simp: config_pool_def split: bind_splits)
  let ?ck = "init_clock cfg (ou_hires_freq ou)"
  from assms obtain v lp where v: "json_string j P8_CFG_KEY_SINK = Some v" and lp: "create_sink ou (c_str_or_null v) j = Some lp"
    and ob: "ob = (case lp of None \<Rightarrow> made_core ou ?ck p | Some sk \<Rightarrow> (case open_or_null ou sk of None \<Rightarrow> made_core ou ?ck p
      | Some sk1 \<Rightarrow> core_ready ou sk1 (new_header ou ?ck) (made_core ou ?ck p)))"
    by (auto simp: core_create_def c Let_def split: bind_splits)
  show ?thesis
  proof (cases lp)
    case None
    with no_sink [OF jp v] lp ob show ?thesis by simp
  next
    case (Some sk)
    with no_sink [OF jp v] ready [OF jp v] lp ob show ?thesis by (cases "open_or_null ou sk") auto
  qed
qed

lemma made_core_simps [simp]:
  "mb_initialized (ob_core (made_core ou ck p)) = False" "mp_sink (made_core ou ck p) = None"
  "mb_worker_running (made_core ou ck p) = False" "mu_ref_count (made_core ou ck p) = 1"
  "ob_writers (made_core ou ck p) = writers_new" "ob_has_pool (made_core ou ck p)"
  "mp_data_pool (ob_core (made_core ou ck p)) = p"
  "mo_svc_buffers (ob_core (made_core ou ck p)) = []" "mo_ready_queue (ob_core (made_core ou ck p)) = []"
  by (simp_all add: made_core_def core_blank_def init_batch_ticks_def Let_def core_new_def)

lemma core_blank_simps [simp]:
  "mb_initialized (ob_core (core_blank ou)) = False" "mp_sink (core_blank ou) = None"
  "mb_worker_running (core_blank ou) = False" "mu_ref_count (core_blank ou) = 1" "\<not> ob_has_pool (core_blank ou)"
  "ob_writers (core_blank ou) = writers_new"
  by (simp_all add: core_blank_def)

lemma core_ready_simps [simp]:
  "ob_core (core_ready ou sk hdr ob) = (ob_core ob)\<lparr>mb_initialized := True\<rparr>"
  "mp_sink (core_ready ou sk hdr ob) = Some (snd (hello_sink ou (enc_hdr (ou_big_endian ou) hdr) sk))"
  "mb_worker_running (core_ready ou sk hdr ob) = (mb_worker_running ob \<or> ou_event_init ou)"
  "mu_ref_count (core_ready ou sk hdr ob) = mu_ref_count ob" "ob_writers (core_ready ou sk hdr ob) = ob_writers ob"
  "ob_has_pool (core_ready ou sk hdr ob) = ob_has_pool ob"
  by (simp_all add: core_ready_def start_worker_def Let_def)

text \<open>A core between two cycles of its worker.\<close>

definition obj_ok :: "nat list \<Rightarrow> 'f core_obj \<Rightarrow> bool" where
  "obj_ok xs ob \<longleftrightarrow> engine_ok [] xs (ob_core ob, ob_writers ob) \<and> ob_has_pool ob \<and> mp_sink ob \<noteq> None
     \<and> (mb_worker_running ob \<longrightarrow> fst (ob_locals ob) = [])"

lemma pool_start_ok: "pool_start p \<Longrightarrow> pool_ok p"
  by (auto simp: pool_start_def pool_ok_def on_shards_def intro!: exI [of _ "[]"])

lemma config_pool_start:
  assumes "config_pool ou cfg = Some (j, Some p)"
  obtains mx ini m i where "json_string j P8_CFG_KEY_MAX_MEMORY_SIZE = Some mx"
    and "json_string j P8_CFG_KEY_INITIAL_MEMORY_SIZE = Some ini"
    and "pool_sizes (ou_casecmp ou) (c_str_or_null mx) (c_str_or_null ini) = Some (m, i)" and "i \<le> m" and "pool_start p"
    and "mz_buffer_size p = word_of_nat mz_data_buffer_size" and "length (mo_all p) \<le> unat i div mz_data_buffer_size"
    and "\<exists>b. mp_budget p = Some b \<and> mz_max b = m \<and> mu_used b \<le> m"
proof -
  from assms obtain mx ini where j: "json_string j P8_CFG_KEY_MAX_MEMORY_SIZE = Some mx"
    "json_string j P8_CFG_KEY_INITIAL_MEMORY_SIZE = Some ini"
    and p: "init_buffer_pool ou (c_str_or_null mx) (c_str_or_null ini) = Some p"
    by (auto simp: config_pool_def split: bind_splits)
  from init_buffer_pool_start [OF p] that [OF j] show ?thesis by blast
qed

lemma ready_core_ok:
  assumes "pool_start p" and "mz_buffer_size p = word_of_nat mz_data_buffer_size"
  shows "obj_ok [] (core_ready ou sk hdr (made_core ou ck p))" and "registry_ok (ob_core (core_ready ou sk hdr (made_core ou ck p)))"
proof -
  let ?c = "ob_core (core_ready ou sk hdr (made_core ou ck p))"
  have same: "mo_svc_buffers ?c = []" "mo_ready_queue ?c = []" "registries ?c = registries (core_new p)"
    "mb_initialized ?c" "mp_data_pool ?c = p"
    by (simp_all add: made_core_def core_blank_def init_batch_ticks_def Let_def core_new_def registries_def)
  have ck: "core_ok ?c" using assms pool_start_ok by (simp add: core_ok_def same)
  then have sv: "svc_ok ?c" by (simp add: svc_ok_def svc_inv_def svc_addrs_def same)
  have "attr_ok ?c \<and> mod_ok ?c \<and> mtk_ok ?c"
    by (simp add: made_core_def core_blank_def init_batch_ticks_def Let_def core_new_def attr_ok_def mod_ok_def mtk_ok_def index_map_Nil)
  with sv show "registry_ok ?c" by (simp add: registry_ok_def)
  have "engine_ok [] [] (?c, writers_new)"
    using sv writers_new_ok(1) same(2) by (simp only: engine_ok_def waiting_bufs_def) (simp add: svc_addrs_def writers_ok_def)
  then show "obj_ok [] (core_ready ou sk hdr (made_core ou ck p))"
    by (simp add: obj_ok_def) (simp add: core_ready_def start_worker_def Let_def)
qed


section \<open>A core that could not be made\<close>

lemma destroy_idle:
  assumes "\<not> mb_worker_running ob"
  shows "stop_worker ou env is ob = Some ob"
  using assms by (simp add: stop_worker_def)

lemma pool_destroy_start:
  assumes "pool_start p"
  obtains p' where "pool_destroy p = Some p'" and "mo_all p' = []" and "mo_free p' = []"
proof -
  from assms have q: "pool_wf p" "wait_queue p []" "mu_inflight p = 0" by (simp_all add: pool_start_def)
  from wait_queue_NilD [OF q(2)] have h: "mp_wait_head p = None" by simp
  then have "stop_waiters p = Some (p\<lparr>mb_stopping := True, mp_wait_head := None, mp_wait_tail := None, mu_wait_count := 0\<rparr>)"
    by (simp add: stop_waiters_def stop_loop.simps)
  then show ?thesis using q(3) that by (simp add: pool_destroy_def Let_def pool_unreserve_def split: if_splits)
qed

lemma uninit_refuses:
  assumes "\<not> mb_initialized c"
  shows "acquire_buffer c = (None, c)" and "release_buffer b c = c" and "release_buffers bs c = c"
    and "submit_buffer b c = c" and "submit_chain bs c = (bs, c)"
    and "attr_register x y n t c = Some (P8_ATTR_ERROR_NOT_INITIALIZED, c)" and "attr_get n c = P8_ATTR_ERROR_NOT_INITIALIZED"
    and "register_module x y n v o' c = Some ((False, None), c)" and "find_module n c = None"
    and "register_mtk al mb c = Some (P8_MTK_ERROR_NOT_INITIALIZED, c)"
  using assms by (auto simp: acquire_buffer_def release_buffer_def release_buffers_def submit_buffer_def submit_chain_def
      attr_register_def attr_get_def register_module_def find_module_def register_mtk_def split: option.splits)

text \<open>What the configuration must be for the sink to be made: the file sink, the null sink by name or
  by default. The network sink and any other name give none.\<close>

definition sink_wanted :: "'f outside \<Rightarrow> cstr option \<Rightarrow> bool" where
  "sink_wanted ou v \<longleftrightarrow> ou_sink_alloc ou
     \<and> (v = None \<or> v = Some P8_CFG_VAL_SINK_FILE_BIN \<or> v = Some P8_CFG_VAL_SINK_NETWORK_NULL)"

lemma sink_names: "P8_CFG_VAL_SINK_NETWORK_TCP \<noteq> P8_CFG_VAL_SINK_NETWORK_NULL" "P8_CFG_VAL_SINK_NETWORK_TCP \<noteq> P8_CFG_VAL_SINK_FILE_BIN"
  by (simp_all add: bytes_of_def)

lemma create_sink_made: "create_sink ou v j = Some r \<Longrightarrow> r \<noteq> None \<longleftrightarrow> sink_wanted ou v"
  using sink_names by (auto simp: create_sink_def sink_wanted_def split: option.splits if_splits)

lemma open_or_null_None: "open_or_null ou sk = None \<longleftrightarrow> \<not> fst (open_sink ou sk) \<and> \<not> ou_null_alloc ou"
  by (cases "open_sink ou sk") (auto simp: open_or_null_def null_open_def split: bool.splits)

section \<open>The end\<close>

text \<open>Other threads do not begin or end a wait for a buffer.\<close>

definition no_entry :: "engine_interference \<Rightarrow> bool" where
  "no_entry env \<longleftrightarrow> (\<forall>n c wl. mu_inflight (mp_data_pool (fst (env n (c, wl)))) = mu_inflight (mp_data_pool c))"

abbreviation waits :: "core \<Rightarrow> u32" where
  "waits c \<equiv> mu_inflight (mp_data_pool c)"

lemma recycle_inflight [simp]: "mu_inflight (recycle b p) = mu_inflight p"
  by (auto simp: recycle_def try_handoff_no_lock_def notify_all_def Let_def split: option.splits prod.splits)

lemma recycle_batch_inflight: "mu_inflight (recycle_batch bs p) = mu_inflight p"
  unfolding recycle_batch_def by (induction bs arbitrary: p) auto

lemma release_waits [simp]:
  "waits (release_buffer b c) = waits c" "waits (release_buffers bs c) = waits c" "waits (recycle_svc sbs c) = waits c"
proof -
  show r: "waits (release_buffer b c) = waits c" for b c by (simp add: release_buffer_def)
  show "waits (release_buffers bs c) = waits c" by (simp add: release_buffers_def recycle_batch_inflight)
  show "waits (recycle_svc sbs c) = waits c"
    unfolding recycle_svc_def by (induction sbs arbitrary: c) (auto simp: r)
qed

lemma meanwhile_waits: "no_entry env \<Longrightarrow> waits (fst (meanwhile env (c, wl))) = waits c"
  by (cases "env (co_moment c) (c, wl)") (simp add: meanwhile_def no_entry_def, metis fst_conv)

lemma cycle_waits:
  assumes n: "no_entry env" and w: "worker_cycle env ops pt i l (c, wl) s = Some (l', e', s')"
  shows "waits (fst e') = waits c"
proof -
  obtain bs l0 where l: "l = (bs, l0)" by fastforce
  from w obtain ts bs1 c1 wl1 where cb: "collect_batch env (wi_ticks i) bs (c, wl) = Some (ts, bs1, c1, wl1)"
    by (auto simp: worker_cycle_def l split: bind_splits)
  then have "waits c1 = waits c" using meanwhile_waits [OF n] by (auto simp: collect_batch_def Let_def split: bind_splits prod.splits) (metis fst_conv)
  moreover obtain c2 wl2 where m: "meanwhile env (c1, wl1) = (c2, wl2)" by fastforce
  then have "waits c2 = waits c1" using meanwhile_waits [OF n, of c1 wl1] by simp
  moreover obtain sbs c3 where tk: "take_svc c2 = (sbs, c3)" by fastforce
  then have "waits c3 = waits c2" by (auto simp: take_svc_def)
  moreover from w obtain l1 c5 wl5 where p: "poll_cadence pt l0 (wi_hires_ticks i) (recycle_svc sbs c3, wl2) = Some (l1, c5, wl5)"
    by (auto simp: worker_cycle_def l cb m tk split: bind_splits prod.splits)
  then have "waits c5 = waits (recycle_svc sbs c3)"
    by (auto simp: poll_cadence_def poll_dropped_stats_def accumulate_dropped_def split: bind_splits if_splits)
  moreover obtain c6 wl6 where m6: "meanwhile env (c5\<lparr>mb_wake_pending := False\<rparr>, wl5) = (c6, wl6)" by fastforce
  then have "waits c6 = waits c5" using meanwhile_waits [OF n, of "c5\<lparr>mb_wake_pending := False\<rparr>" wl5] by simp
  moreover obtain lf c7 s2 where f: "flush_ready ops bs1 ts c6 (if length sbs > 0 then snd (sk_write_service ops (co_mem c3) sbs s) else s) = (lf, c7, s2)"
    using prod_cases3 by blast
  then have "waits c7 = waits c6" by (auto simp: flush_ready_def Let_def split: if_splits)
  moreover have "e' = (c7, wl6)" using w by (simp add: worker_cycle_def l cb m tk p m6 f del: length_greater_0_conv)
  ultimately show ?thesis by simp
qed

lemma loop_waits:
  "no_entry env \<Longrightarrow> worker_loop env ops pt is l (c, wl) s = Some (l', e', s') \<Longrightarrow> waits (fst e') = waits c"
proof (induction "is" arbitrary: l c wl s)
  case (Cons i "is")
  from Cons.prems(2) obtain l1 c1 wl1 s1 where w: "worker_cycle env ops pt i l (c, wl) s = Some (l1, (c1, wl1), s1)"
    and r: "(if wi_stop i then Some (l1, (c1, wl1), s1) else worker_loop env ops pt is l1 (meanwhile env (c1, wl1)) s1) = Some (l', e', s')"
    by (auto split: bind_splits)
  note c1 = cycle_waits [OF Cons.prems(1) w]
  show ?case
  proof (cases "wi_stop i")
    case True
    with r c1 show ?thesis by auto
  next
    case False
    obtain c2 wl2 where m: "meanwhile env (c1, wl1) = (c2, wl2)" by fastforce
    with meanwhile_waits [OF Cons.prems(1), of c1 wl1] Cons.IH [OF Cons.prems(1), of l1 c2 wl2 s1] r c1 False show ?thesis by simp
  qed
qed simp

lemma engine_stopped:
  assumes "engine_ok [] xs (c, wl)"
  obtains p where "stop_waiters (mp_data_pool c) = Some p" and "engine_ok [] xs (c\<lparr>mp_data_pool := p\<rparr>, wl)"
    and "mu_inflight p = waits c" and "mb_stopping p" and "wait_queue p []" and "mo_all p = mo_all (mp_data_pool c)"
proof -
  have ok: "core_ok c" using assms by (simp add: engine_ok_def svc_ok_def)
  then obtain ws where q: "pool_wf (mp_data_pool c)" "wait_queue (mp_data_pool c) ws" "\<forall>w \<in> set ws. wt_cv (wt_node (mp_data_pool c) w) < mz_wait_cv_count"
    by (auto simp: core_ok_def pool_ok_def on_shards_def)
  obtain p where p: "stop_waiters (mp_data_pool c) = Some p" by (rule stop_waiters_spec [OF q]) blast
  note f = stop_waiters_facts [OF q p]
  have b: "mz_buffer_size p = mz_buffer_size (mp_data_pool c)" by (rule stop_waiters_size [OF p])
  have "pool_ok p" using f(1,3) by (auto simp: pool_ok_def on_shards_def intro!: exI [of _ "[]"])
  then have ck: "core_ok (c\<lparr>mp_data_pool := p\<rparr>)" using ok b by (simp add: core_ok_def)
  have "writers_ok xs (c\<lparr>mp_data_pool := p\<rparr>, wl)"
    by (rule writers_ok_keep [of xs c wl]) (use assms ck f(4) in \<open>simp_all add: engine_ok_def\<close>)
  with ck have "engine_ok [] xs (c\<lparr>mp_data_pool := p\<rparr>, wl)"
    using assms f(4) by (simp add: engine_ok_def svc_ok_def svc_inv_def svc_addrs_def waiting_bufs_def)
  with that p f show ?thesis by blast
qed

text \<open>The destructor of a core whose worker runs: it returns, the worker's last calls are what
  \<open>delivery\<close> says, and the sink is closed after them.\<close>

lemma destroy_runs:
  assumes env: "engine_env env" "no_entry env" and ok: "obj_ok xs ob" and run: "mb_worker_running ob"
    and w: "waits (ob_core ob) = 0" and st: "\<exists>i \<in> set is. wi_stop i"
  obtains sk calls sk' ob' where "mp_sink ob = Some sk" and "core_destroy ou env is ob = Some (Some (close_sink ou sk'), ob')"
    and "mo_all (mp_data_pool (ob_core ob')) = []"
    and "co_svc_sent (ob_core ob') = co_svc_sent (ob_core ob) @ services_of calls"
    and "clock_ok (ob_core ob) is \<longrightarrow> batch_seq_from (ob_core ob) (data_of calls)"
    and "(\<forall>(b, bs) \<in> set (data_of calls). length bs < 2 ^ 32) \<longrightarrow> calls_wf (data_of calls)"
    and "prefix (map (buffer_bytes (co_mem (ob_core ob))) (waiting_bufs xs (ob_core ob, ob_writers ob))) (bufs_of calls)"
    and "prefix (svc_total (ob_core ob)) (co_svc_sent (ob_core ob'))"
    and "\<And>contents d0 v0. files_follow ou contents d0 v0 [] sk \<Longrightarrow> files_follow ou contents d0 v0 calls sk'"
proof -
  obtain c wl where cw: "ob_core ob = c" "ob_writers ob = wl" by simp
  obtain sk l0 where sk: "mp_sink ob = Some sk" and l0: "ob_locals ob = ([], l0)" and e: "engine_ok [] xs (c, wl)" and hp: "ob_has_pool ob"
    using ok run by (cases "ob_locals ob") (auto simp: obj_ok_def cw)
  obtain p where p: "stop_waiters (mp_data_pool c) = Some p" and e1: "engine_ok [] xs (c\<lparr>mp_data_pool := p\<rparr>, wl)"
    and w1: "mu_inflight p = 0" by (rule engine_stopped [OF e]) (use w cw in simp)
  let ?c1 = "c\<lparr>mp_data_pool := p\<rparr>"
  obtain l c2 wl2 xs2 calls sk' where lp: "worker_loop env (sink_vtable ou) (ob_poll_ticks ob) is ([], l0) (?c1, wl) sk = Some (([], l), (c2, wl2), sk')"
    and r: "engine_ok [] xs2 (c2, wl2)" "co_svc_sent c2 = co_svc_sent ?c1 @ services_of calls"
      "clock_ok ?c1 is \<longrightarrow> batch_seq_from ?c1 (data_of calls)"
      "(\<forall>(b, bs) \<in> set (data_of calls). length bs < 2 ^ 32) \<longrightarrow> calls_wf (data_of calls)"
      "prefix (map (buffer_bytes (co_mem ?c1)) (waiting_bufs xs (?c1, wl))) (bufs_of calls)"
      "prefix (svc_total ?c1) (co_svc_sent c2)"
    and ff: "\<And>contents d0 v0. files_follow ou contents d0 v0 [] sk \<Longrightarrow> files_follow ou contents d0 v0 calls sk'"
    by (rule delivery [OF env(1) e1 st, of ou "ob_poll_ticks ob" l0 sk]) blast
  have w2: "waits c2 = 0" using loop_waits [OF env(2) lp] w1 by simp
  obtain q where q: "stop_waiters (mp_data_pool c2) = Some q" "mu_inflight q = 0"
    by (rule engine_stopped [OF r(1)]) (use w2 in simp)
  let ?c3 = "clear_registries c2"
  have "\<exists>q'. pool_destroy (mp_data_pool ?c3) = Some q' \<and> mo_all q' = []"
    using q by (simp add: clear_registries_def pool_destroy_def Let_def pool_unreserve_def)
  then obtain q' where q': "pool_destroy (mp_data_pool ?c3) = Some q'" "mo_all q' = []" by blast
  have sw: "stop_worker ou env is ob = Some (ob\<lparr>ob_core := c2, ob_writers := wl2, mp_sink := Some sk', ob_locals := ([], l), mb_worker_running := False\<rparr>)"
    using run hp sk l0 cw p lp by (simp add: stop_worker_def)
  have d: "core_destroy ou env is ob = Some (Some (close_sink ou sk'), ob\<lparr>ob_core := ?c3\<lparr>mp_data_pool := q'\<rparr>, ob_writers := wl2,
      mp_sink := None, ob_locals := ([], l), mb_worker_running := False, ob_has_pool := False\<rparr>)"
    using q'(1) hp by (simp add: core_destroy_def sw Let_def)
  show thesis
    by (rule that [OF sk d, of calls])
      (use q'(2) r ff in \<open>simp_all add: cw clear_registries_def clock_ok_def batch_ts_def batch_seq_from_def waiting_bufs_def svc_total_def\<close>)
qed

text \<open>What the file system promises of files that are made and closed.\<close>

definition makes_files :: "'f outside \<Rightarrow> ('f \<Rightarrow> byte list) \<Rightarrow> bool" where
  "makes_files ou contents \<longleftrightarrow> roomy (ou_file_ops ou) contents \<and> (\<forall>n. ou_realloc ou n)
     \<and> (\<forall>path f. ou_create ou path = Some f \<longrightarrow> fo_is_open (ou_file_ops ou) f \<and> contents f = [])
     \<and> (\<forall>f. \<not> fo_is_open (ou_file_ops ou) (fo_close (ou_file_ops ou) f) \<and> contents (fo_close (ou_file_ops ou) f) = contents f)"

lemma opened_files:
  assumes m: "makes_files ou contents" and o: "open_sink ou sk = (True, File_sink f)"
  shows "fo_is_open (ou_file_ops ou) (mo_data_file f) \<and> fo_is_open (ou_file_ops ou) (mo_svc_file f)
    \<and> contents (mo_data_file f) = [] \<and> contents (mo_svc_file f) = []"
proof (cases sk)
  case (File_sink s)
  with o have "sink_open (ou_file_ops ou) (ou_mkdir ou) (ou_create ou) (ou_proc_name ou) (ou_pid ou) (ou_stamp ou) s = (True, f)"
    by (cases "sink_open (ou_file_ops ou) (ou_mkdir ou) (ou_create ou) (ou_proc_name ou) (ou_pid ou) (ou_stamp ou) s") simp
  with m show ?thesis by (auto simp: sink_open_def makes_files_def Let_def split: if_splits option.splits)
qed (use o in \<open>simp add: null_open_def\<close>)

lemma hello_file:
  assumes m: "makes_files ou contents" and o: "fo_is_open (ou_file_ops ou) (mo_data_file f)"
    and h: "snd (hello_sink ou hdr (File_sink f)) = File_sink f'"
  shows "fo_is_open (ou_file_ops ou) (mo_data_file f') \<and> contents (mo_data_file f') = contents (mo_data_file f) @ hdr
    \<and> mo_svc_file f' = mo_svc_file f"
proof -
  obtain r d s1 where w: "write_entries (ou_file_ops ou) [hdr] (length hdr) (mo_data_file f) f = (r, d, s1)"
    by (cases "write_entries (ou_file_ops ou) [hdr] (length hdr) (mo_data_file f) f")
  have "roomy (ou_file_ops ou) contents" using m by (simp add: makes_files_def)
  from write_entries_roomy [OF this o _ w] h w show ?thesis
    by (auto simp: sink_write_hello_def same_files_def)
qed

lemma open_or_null_file:
  assumes "open_or_null ou sk = Some (File_sink f)"
  shows "open_sink ou sk = (True, File_sink f)"
proof -
  obtain r s where o: "open_sink ou sk = (r, s)" by fastforce
  with assms show ?thesis by (cases r) (auto simp: open_or_null_def null_open_def split: if_splits)
qed

lemma created_file:
  assumes c: "core_create ou cfg = Some ob" and i: "get_initialized ob" and s: "mp_sink ob = Some (File_sink f)"
    and m: "makes_files ou contents"
  shows "fo_is_open (ou_file_ops ou) (mo_data_file f) \<and> fo_is_open (ou_file_ops ou) (mo_svc_file f)
    \<and> contents (mo_data_file f) = enc_hdr (ou_big_endian ou) (the (mo_hdr ob)) \<and> contents (mo_svc_file f) = []"
  using c
proof (cases rule: core_create_cases)
  case (ready j p v sk sk1)
  have hd: "mo_hdr ob = Some (new_header ou (init_clock cfg (ou_hires_freq ou)))"
    unfolding ready(5) by (simp add: core_ready_def start_worker_def Let_def made_core_def)
  have h: "snd (hello_sink ou (enc_hdr (ou_big_endian ou) (the (mo_hdr ob))) sk1) = File_sink f"
    using s unfolding hd option.sel unfolding ready(5) by simp
  then obtain g where g: "sk1 = File_sink g" by (cases sk1) (simp_all add: null_write_hello_def)
  note o = opened_files [OF m open_or_null_file [OF ready(4) [unfolded g]]]
  from hello_file [OF m conjunct1 [OF o] h [unfolded g]] o show ?thesis by simp
qed (use i in \<open>simp_all add: get_initialized_def\<close>)

lemma closed_files:
  assumes "makes_files ou contents" and "files_hold (ou_file_ops ou) contents d0 v0 calls sk"
  obtains f' where "close_sink ou sk = File_sink f'" and "contents (mo_data_file f') = d0 @ call_packets calls"
    and "contents (mo_svc_file f') = v0 @ services_of calls"
    and "\<not> fo_is_open (ou_file_ops ou) (mo_data_file f')" and "\<not> fo_is_open (ou_file_ops ou) (mo_svc_file f')"
  using assms by (cases sk) (auto simp: files_hold_def makes_files_def sink_close_def)

text \<open>What the files have received when the destructor returns.\<close>

lemma destroy_files:
  assumes "engine_env env" and "no_entry env" and "obj_ok xs ob" and "mb_worker_running ob"
    and "mu_inflight (mp_data_pool (ob_core ob)) = 0" and "\<exists>i \<in> set is. wi_stop i"
    and "makes_files ou contents" and "mp_sink ob = Some (File_sink f)"
    and "fo_is_open (ou_file_ops ou) (mo_data_file f)" and "fo_is_open (ou_file_ops ou) (mo_svc_file f)"
  shows "\<exists>f' ob' out sv ds. core_destroy ou env is ob = Some (Some (File_sink f'), ob')
    \<and> contents (mo_data_file f') = contents (mo_data_file f) @ out
    \<and> ((\<forall>(b, bs) \<in> set ds. length bs < 2 ^ 32) \<longrightarrow> read_batches (length ds) out = Some ds)
    \<and> prefix (map (buffer_bytes (co_mem (ob_core ob))) (waiting_bufs xs (ob_core ob, ob_writers ob))) (concat (map snd ds))
    \<and> contents (mo_svc_file f') = contents (mo_svc_file f) @ sv
    \<and> prefix (svc_total (ob_core ob)) (co_svc_sent (ob_core ob) @ sv)
    \<and> \<not> fo_is_open (ou_file_ops ou) (mo_data_file f') \<and> \<not> fo_is_open (ou_file_ops ou) (mo_svc_file f')
    \<and> mo_all (mp_data_pool (ob_core ob')) = []"
proof -
  obtain sk calls sk' ob' where sk: "mp_sink ob = Some sk"
    and d: "core_destroy ou env is ob = Some (Some (close_sink ou sk'), ob')" "mo_all (mp_data_pool (ob_core ob')) = []"
    and r: "co_svc_sent (ob_core ob') = co_svc_sent (ob_core ob) @ services_of calls"
      "(\<forall>(b, bs) \<in> set (data_of calls). length bs < 2 ^ 32) \<longrightarrow> calls_wf (data_of calls)"
      "prefix (map (buffer_bytes (co_mem (ob_core ob))) (waiting_bufs xs (ob_core ob, ob_writers ob))) (bufs_of calls)"
      "prefix (svc_total (ob_core ob)) (co_svc_sent (ob_core ob'))"
    and ff: "\<And>contents d0 v0. files_follow ou contents d0 v0 [] sk \<Longrightarrow> files_follow ou contents d0 v0 calls sk'"
    by (rule destroy_runs [OF assms(1-6), of ou]) blast
  have "files_follow ou contents (contents (mo_data_file f)) (contents (mo_svc_file f)) [] sk"
    using assms(8-10) sk by (simp add: files_follow_def files_hold_def call_packets_def)
  from ff [OF this] assms(7) have "files_hold (ou_file_ops ou) contents (contents (mo_data_file f)) (contents (mo_svc_file f)) calls sk'"
    by (simp add: files_follow_def makes_files_def)
  from closed_files [OF assms(7) this] obtain f' where f': "close_sink ou sk' = File_sink f'"
    "contents (mo_data_file f') = contents (mo_data_file f) @ call_packets calls"
    "contents (mo_svc_file f') = contents (mo_svc_file f) @ services_of calls"
    "\<not> fo_is_open (ou_file_ops ou) (mo_data_file f')" "\<not> fo_is_open (ou_file_ops ou) (mo_svc_file f')" by blast
  show ?thesis using d r f' read_packets [of calls]
    by (intro exI [of _ f'] exI [of _ ob'] exI [of _ "call_packets calls"] exI [of _ "services_of calls"] exI [of _ "data_of calls"]) simp
qed

section \<open>Properties\<close>






section \<open>Witnesses\<close>

definition ex_json :: "string \<Rightarrow> json_value" where
  "ex_json kind = Json_object [P8_CFG_KEY_SINK \<mapsto> Json_string (bytes_of kind),
     P8_CFG_KEY_FILE_BIN \<mapsto> Json_object [P8_CFG_KEY_FILE_OUT_DIR \<mapsto> Json_string [46]]]"

definition ex_config :: s_p8_config where
  "ex_config = \<lparr>mp_json_config = Some [], ml_timer_value = False, mu_timer_numer = 0, mu_timer_denom = 0\<rparr>"

definition ex_host :: "string \<Rightarrow> (bool \<times> byte list) outside" where
  "ex_host kind = ex_outside (ex_json kind)"

lemma ex_host_simps [simp]:
  "ou_parse (ex_host kind) ct = Some (ex_json kind)" "ou_budget_alloc (ex_host kind)" "ou_pool_alloc (ex_host kind)"
  "ou_sink_alloc (ex_host kind)" "ou_event_init (ex_host kind)" "ou_file_ops (ex_host kind) = big_disk"
  by (simp_all add: ex_host_def ex_outside_def)

lemma ex_keys [simp]:
  "P8_CFG_KEY_SINK \<noteq> P8_CFG_KEY_FILE_BIN" "P8_CFG_KEY_MAX_MEMORY_SIZE \<noteq> P8_CFG_KEY_SINK" "P8_CFG_KEY_MAX_MEMORY_SIZE \<noteq> P8_CFG_KEY_FILE_BIN"
  "P8_CFG_KEY_INITIAL_MEMORY_SIZE \<noteq> P8_CFG_KEY_SINK" "P8_CFG_KEY_INITIAL_MEMORY_SIZE \<noteq> P8_CFG_KEY_FILE_BIN"
  by (simp_all add: bytes_of_def)

lemma ex_json_simps [simp]:
  "json_string (ex_json kind) P8_CFG_KEY_SINK = Some (bytes_of kind)" "json_string (ex_json kind) P8_CFG_KEY_MAX_MEMORY_SIZE = Some []"
  "json_string (ex_json kind) P8_CFG_KEY_INITIAL_MEMORY_SIZE = Some []"
  "json_get (ex_json kind) P8_CFG_KEY_FILE_BIN = Some (Json_object [P8_CFG_KEY_FILE_OUT_DIR \<mapsto> Json_string [46]])"
  by (simp_all add: json_string_def ex_json_def)

lemma ex_pool_made: "\<exists>p. config_pool (ex_host kind) ex_config = Some (ex_json kind, Some p)"
  by (simp add: config_pool_def ex_config_def c_str_or_null_def init_buffer_pool_sizes pool_sizes_def)

lemma ex_file_name: "c_str_or_null (bytes_of ''file.bin'') = Some (bytes_of ''file.bin'')"
  "c_str_or_null (bytes_of ''network.tcp'') = Some (bytes_of ''network.tcp'')"
  by (simp_all add: c_str_or_null_def bytes_of_def)

lemma ex_created:
  obtains ob f where "core_create (ex_host ''file.bin'') ex_config = Some ob" and "get_initialized ob"
    and "mp_sink ob = Some (File_sink f)"
proof -
  let ?ou = "ex_host ''file.bin''"
  from ex_pool_made obtain p where p: "config_pool ?ou ex_config = Some (ex_json ''file.bin'', Some p)" by blast
  obtain sf where s: "create_sink ?ou (Some (bytes_of ''file.bin'')) (ex_json ''file.bin'') = Some (Some (File_sink sf))"
    and mc: "mb_configured sf"
    by (simp add: create_sink_def new_sink_file_def sink_file_create_def)
  obtain f where f: "open_sink ?ou (File_sink sf) = (True, File_sink f)"
    using mc by (simp add: sink_open_def ex_host_def ex_outside_def Let_def)
  have o: "open_or_null ?ou (File_sink sf) = Some (File_sink f)" by (simp only: open_or_null_def f) simp
  from p have "init_buffer_pool ?ou (c_str_or_null []) (c_str_or_null []) = Some p" by (simp add: config_pool_def ex_config_def)
  then have c: "core_create ?ou ex_config = Some (core_ready ?ou (File_sink f) (new_header ?ou (init_clock ex_config (ou_hires_freq ?ou)))
      (made_core ?ou (init_clock ex_config (ou_hires_freq ?ou)) p))"
    using s o by (simp add: core_create_def ex_config_def ex_file_name Let_def)
  define hd where "hd = enc_hdr (ou_big_endian ?ou) (new_header ?ou (init_clock ex_config (ou_hires_freq ?ou)))"
  obtain g where g: "snd (hello_sink ?ou hd (File_sink f)) = File_sink g" by simp
  show thesis by (rule that [OF c, of g]) (simp_all add: get_initialized_def g [unfolded hd_def] del: hello_sink.simps)
qed




definition still :: engine_interference where
  "still = engine_acts (\<lambda>_. [])"

lemma still_ok: "engine_env still" "no_entry still"
  unfolding still_def by (rule acting.engine_env_axioms) (simp add: no_entry_def engine_acts_def)

lemma ex_makes_files: "makes_files (ex_host kind) snd"
  using big_disk_roomy by (simp add: makes_files_def) (auto simp: ex_host_def ex_outside_def big_disk_def)

definition ex_stop :: "worker_in list" where
  "ex_stop = [\<lparr>wi_ticks = 5, wi_hires_ticks = 9, wi_stop = True\<rparr>]"

lemma ex_stop_stops: "\<exists>i \<in> set ex_stop. wi_stop i"
  by (simp add: ex_stop_def)

definition ex_obj :: "(bool \<times> byte list) core_obj" where
  "ex_obj = (core_blank (ex_host ''file.bin''))\<lparr>ob_core := fst ex_engine, ob_has_pool := True, ob_writers := snd ex_engine,
     mp_sink := Some (File_sink ex_open_files), mb_worker_running := True\<rparr>"

lemma ex_obj_ok: "obj_ok [1] ex_obj" "mb_worker_running ex_obj" "mu_inflight (mp_data_pool (ob_core ex_obj)) = 0"
  "mp_sink ex_obj = Some (File_sink ex_open_files)"
proof -
  have "mu_inflight ex_data_pool = 0"
    by (simp add: ex_data_pool_def ex_pool_def pool_create_def acquire_no_lock_def pool_grow_def pool_reserve_def
        try_reserve_def over_budget_def pool_new_def Let_def)
  then show "mu_inflight (mp_data_pool (ob_core ex_obj)) = 0" by (simp add: ex_obj_def ex_engine_def core_new_def)
qed (use ex_engine_ok in \<open>simp_all add: ex_obj_def obj_ok_def core_blank_def\<close>)



end
