(* ===== verification/P8_Journey.thy ===== *)
theory P8_Journey
  imports P8_Calls P8_Lifecycle
begin

text \<open>
  From a log call to the file: the emit path, the engine's invariant, the worker and the sink put
  together. A record that a log call reports as accepted is, once the core has been destroyed, in
  the data file, inside the buffers of the writer that wrote it, and its descriptor is among the
  service bytes.
\<close>

section \<open>Buffers as a receiver finds them\<close>

definition of_writer :: "byte \<Rightarrow> tls_writer \<Rightarrow> byte list \<Rightarrow> bool" where
  "of_writer ty w x \<longleftrightarrow> dbh_packet_type (dec_dbh x) = ty \<and> dbh_thread_id (dec_dbh x) = mu_thread_id w
     \<and> dbh_writer_id (dec_dbh x) = mu_writer_id w"

lemma buffer_bytes_split:
  assumes "sizeof_data_buf_hdr \<le> buf_size m a"
  shows "buffer_bytes m a = rd m a 0 4 @ rd m a 4 12 @ payload m a"
proof -
  have "rd m a 0 (4 + (12 + k)) = rd m a 0 4 @ rd m a 4 12 @ rd m a (4 + 12) k" for k by (simp only: rd_add add_0)
  from this [of "buf_size m a - 16"] assms show ?thesis by (simp add: buffer_bytes_def payload_def)
qed

lemma buffer_bytes_payload:
  "sizeof_data_buf_hdr \<le> buf_size m a \<Longrightarrow> drop sizeof_data_buf_hdr (buffer_bytes m a) = payload m a"
  by (simp add: buffer_bytes_split)

lemma buffer_of_writer:
  assumes "hdr_ids ty w s m a" and "sizeof_data_buf_hdr \<le> buf_size m a"
  shows "of_writer ty w (buffer_bytes m a)"
proof -
  have b: "buffer_bytes m a = rd m a 0 4 @ le32 (mu_thread_id w) @ le32 (mu_writer_id w) @ le32 s @ payload m a"
    using assms by (simp add: buffer_bytes_split hdr_ids_def)
  have "buffer_bytes m a ! 0 = ty" using assms by (simp add: buffer_bytes_def rd_def hdr_ids_def)
  moreover have "take 4 (drop 4 (buffer_bytes m a)) = le32 (mu_thread_id w)"
    "take 4 (drop 8 (buffer_bytes m a)) = le32 (mu_writer_id w)"
    unfolding b by simp_all
  ultimately show ?thesis by (simp add: of_writer_def dec_dbh_def)
qed

lemma writer_buffers:
  assumes "wr_inv ty w c"
  shows "\<forall>x \<in> set (map (buffer_bytes (co_mem c)) (bufs w)). of_writer ty w x"
    and "concat (map (drop sizeof_data_buf_hdr) (map (buffer_bytes (co_mem c)) (bufs w))) = stream_of w (co_mem c)"
proof -
  have sz: "sizeof_data_buf_hdr \<le> buf_size (co_mem c) a" if "a \<in> set (bufs w)" for a using assms that by (simp add: wr_inv_def)
  have "of_writer ty w (buffer_bytes (co_mem c) (bufs w ! k))" if "k < length (bufs w)" for k
    by (rule buffer_of_writer [OF _ sz]) (use assms that in \<open>auto simp: wr_inv_def\<close>)
  then show "\<forall>x \<in> set (map (buffer_bytes (co_mem c)) (bufs w)). of_writer ty w x" by (auto simp: in_set_conv_nth)
  have "map (drop sizeof_data_buf_hdr) (map (buffer_bytes (co_mem c)) (bufs w)) = map (payload (co_mem c)) (bufs w)"
    using sz buffer_bytes_payload by simp
  then show "concat (map (drop sizeof_data_buf_hdr) (map (buffer_bytes (co_mem c)) (bufs w))) = stream_of w (co_mem c)"
    by (simp only: stream_of_def)
qed

text \<open>A writer's buffers are a run of those that wait.\<close>

lemma waiting_run:
  assumes "a \<in> set xs"
  shows "sublist (bufs (wn_writer (wl_node wl a))) (waiting_bufs xs (c, wl))"
proof -
  obtain ys zs where xs: "xs = ys @ a # zs" using split_list [OF assms] by blast
  show ?thesis unfolding waiting_bufs_def prod.case xs by (simp add: sublist_def) metis
qed

section \<open>The way of a record\<close>

text \<open>The core after a call of the writer \<open>a\<close>.\<close>

definition after_call :: "nat \<Rightarrow> tls_writer \<Rightarrow> core \<Rightarrow> 'f core_obj \<Rightarrow> 'f core_obj" where
  "after_call a w c ob = ob\<lparr>ob_core := c, ob_writers := set_writer a w (ob_writers ob)\<rparr>"

lemma log_call_obj:
  assumes ct: "calm_threads xxh P8_PACKET_LOGS self cenv" and ok: "obj_ok xs ob" and a: "a \<in> set xs"
    and w: "wn_writer (wl_node (ob_writers ob) a) = lg_base lw" and inv: "log_inv xxh self lw (ob_core ob)"
    and s: "log_send xxh_seed cenv self alloc ticks level ip_module trace line ip_file func ip_attrs fmt io_args lw (ob_core ob)
      = Some (ok, lw', c')"
  shows "obj_ok xs (after_call a (lg_base lw') c' ob)" and "co_svc_sent c' = co_svc_sent (ob_core ob)"
    and "writer_who (lg_base lw') = writer_who (lg_base lw)"
proof -
  have "own_inv P8_PACKET_LOGS self {} (lg_base lw) (ob_core ob)" using inv by (simp add: log_inv_def)
  note k = log_send_keeps [OF ct this s]
  have e: "engine_ok [] xs (ob_core ob, ob_writers ob)" using ok by (simp add: obj_ok_def)
  from call_engine [OF e a k [folded w]] ok show "obj_ok xs (after_call a (lg_base lw') c' ob)"
    by (simp add: obj_ok_def after_call_def)
  from k show "co_svc_sent c' = co_svc_sent (ob_core ob)" "writer_who (lg_base lw') = writer_who (lg_base lw)"
    by (simp_all add: call_keeps_def leaves_def)
qed

lemma record_in_file:
  assumes ct: "calm_threads xxh P8_PACKET_LOGS self cenv" and ok: "obj_ok xs ob" and a: "a \<in> set xs"
    and w: "wn_writer (wl_node (ob_writers ob) a) = lg_base lw" and inv: "log_inv xxh self lw (ob_core ob)"
    and s: "log_send xxh_seed cenv self alloc ticks level ip_module trace line ip_file func ip_attrs fmt io_args lw (ob_core ob)
      = Some (True, lw', c')"
    and env: "engine_env env" "no_entry env" and run: "mb_worker_running ob" and nw: "mu_inflight (mp_data_pool c') = 0"
    and stop: "\<exists>i \<in> set is. wi_stop i" and mf: "makes_files ou contents" and sk: "mp_sink ob = Some (File_sink f)"
    and op: "fo_is_open (ou_file_ops ou) (mo_data_file f)" "fo_is_open (ou_file_ops ou) (mo_svc_file f)"
  shows "\<exists>f' ob' out sv ds own bs. core_destroy ou env is (after_call a (lg_base lw') c' ob) = Some (Some (File_sink f'), ob')
    \<and> contents (mo_data_file f') = contents (mo_data_file f) @ out
    \<and> ((\<forall>(b, bs) \<in> set ds. length bs < 2 ^ 32) \<longrightarrow> read_batches (length ds) out = Some ds)
    \<and> sublist own (concat (map snd ds)) \<and> (\<forall>x \<in> set own. of_writer P8_PACKET_LOGS (lg_base lw) x)
    \<and> suffix bs (concat (map (drop sizeof_data_buf_hdr) own))
    \<and> contents (mo_svc_file f') = contents (mo_svc_file f) @ sv
    \<and> (\<exists>fl le_min mod_id d as. ip_file = Some fl \<and> log_gate ip_module (lg_base lw) (ob_core ob) = Some (le_min, mod_id)
        \<and> le_min \<le> level \<and> ld_hash d = xxh_seed fl line \<and> args_bytes (ld_args d) io_args = Some as
        \<and> sublist (log_entry d) (co_svc_sent (ob_core ob) @ sv)
        \<and> log_record_of d ticks trace level mod_id (mu_thread_id (lg_base lw)) as
            (attrs_of c' (sizeof_log_item_dat + length (concat as)) ip_attrs) bs)"
proof -
  let ?ob = "after_call a (lg_base lw') c' ob"
  note o1 = log_call_obj [OF ct ok a w inv s]
  have sent: "log_inv xxh self lw' c' \<and> (\<exists>t fl le_min mod_id d as bs. ip_file = Some fl
      \<and> log_gate ip_module (lg_base lw) (ob_core ob) = Some (le_min, mod_id) \<and> le_min \<le> level
      \<and> mo_log_descs c' (xxh_seed fl line) = Some d \<and> sublist (log_entry d) (svc_total c')
      \<and> args_bytes (ld_args d) io_args = Some as \<and> stream_of (lg_base lw') (co_mem c') = t @ bs
      \<and> log_record_of d ticks trace level mod_id (mu_thread_id (lg_base lw)) as
            (attrs_of c' (sizeof_log_item_dat + length (concat as)) ip_attrs) bs)"
    using log_send_own [OF calm_threads.axioms(1) [OF ct] inv s] unfolding if_True by blast
  then obtain t fl le_min mod_id d as bs where
    inv': "log_inv xxh self lw' c'" and r: "ip_file = Some fl" "log_gate ip_module (lg_base lw) (ob_core ob) = Some (le_min, mod_id)"
      "le_min \<le> level" "mo_log_descs c' (xxh_seed fl line) = Some d" "sublist (log_entry d) (svc_total c')"
      "args_bytes (ld_args d) io_args = Some as" "stream_of (lg_base lw') (co_mem c') = t @ bs"
      "log_record_of d ticks trace level mod_id (mu_thread_id (lg_base lw)) as
            (attrs_of c' (sizeof_log_item_dat + length (concat as)) ip_attrs) bs"
    by (elim exE conjE) (rule that; assumption)
  have h: "ld_hash d = xxh_seed fl line" using inv' r(4) unfolding log_inv_def catalog_def by blast
  have wi: "wr_inv P8_PACKET_LOGS (lg_base lw') c'" using inv' by (simp add: log_inv_def own_inv_def own_bufs_def)
  have core: "ob_core ?ob = c'" "ob_writers ?ob = set_writer a (lg_base lw') (ob_writers ob)" "mp_sink ?ob = mp_sink ob"
    "mb_worker_running ?ob = mb_worker_running ob" by (simp_all add: after_call_def)
  obtain f' ob' out sv ds where
    dd: "core_destroy ou env is ?ob = Some (Some (File_sink f'), ob')" "contents (mo_data_file f') = contents (mo_data_file f) @ out"
      "(\<forall>(b, bs) \<in> set ds. length bs < 2 ^ 32) \<longrightarrow> read_batches (length ds) out = Some ds"
      "prefix (map (buffer_bytes (co_mem c')) (waiting_bufs xs (c', set_writer a (lg_base lw') (ob_writers ob)))) (concat (map snd ds))"
      "contents (mo_svc_file f') = contents (mo_svc_file f) @ sv" "prefix (svc_total c') (co_svc_sent c' @ sv)"
    using destroy_files [OF env o1(1) _ _ stop mf _ op, unfolded core, OF run nw sk] by (elim exE conjE) (rule that; assumption)
  define own where "own = map (buffer_bytes (co_mem c')) (bufs (lg_base lw'))"
  have "sublist (bufs (lg_base lw')) (waiting_bufs xs (c', set_writer a (lg_base lw') (ob_writers ob)))"
    using waiting_run [OF a, of "set_writer a (lg_base lw') (ob_writers ob)"] by (simp add: set_writer_nodes)
  then have "sublist own (concat (map snd ds))"
    unfolding own_def using map_mono_sublist prefix_imp_sublist [OF dd(4)] sublist_order.order_trans by blast
  moreover have "of_writer P8_PACKET_LOGS (lg_base lw) = of_writer P8_PACKET_LOGS (lg_base lw')"
    using o1(3) by (auto simp: of_writer_def writer_who_def)
  then have "\<forall>x \<in> set own. of_writer P8_PACKET_LOGS (lg_base lw) x" using writer_buffers(1) [OF wi] by (simp only: own_def)
  moreover have "suffix bs (concat (map (drop sizeof_data_buf_hdr) own))"
    unfolding own_def writer_buffers(2) [OF wi] r(7) by (rule suffixI) simp
  moreover have "sublist (log_entry d) (co_svc_sent (ob_core ob) @ sv)"
    using r(5) prefix_imp_sublist [OF dd(6)] o1(2) sublist_order.order_trans by metis
  ultimately show ?thesis using dd(1-3,5) r(1-3,6,8) h by blast
qed


section \<open>Properties\<close>


text \<open>The example: a call site that is known already logs into the current buffer.\<close>

definition ex_desc :: s_p8_log_desc where
  "ex_desc = \<lparr>ld_hash = 0, ld_format = Some [120], ld_file = Some [97], ld_function = None, ld_line = 3,
     ld_fixed_args_size = 0, ld_args = []\<rparr>"

definition ex_logged :: core where
  "ex_logged = (fst ex_engine)\<lparr>mo_log_descs := [0 \<mapsto> ex_desc], co_svc_sent := log_entry ex_desc\<rparr>"

definition ex_logger :: log_writer where
  "ex_logger = \<lparr>lg_base = ex_writer, mo_desc_map = [0 \<mapsto> ex_desc]\<rparr>"

definition ex_logged_obj :: "(bool \<times> byte list) core_obj" where
  "ex_logged_obj = ex_obj\<lparr>ob_core := ex_logged\<rparr>"

lemma ex_logged_obj_ok: "obj_ok [1] ex_logged_obj" "wn_writer (wl_node (ob_writers ex_logged_obj) 1) = lg_base ex_logger"
  "mb_worker_running ex_logged_obj" "mp_sink ex_logged_obj = Some (File_sink ex_open_files)"
proof -
  have "engine_ok [] [1] (ex_logged, snd ex_engine) = engine_ok [] [1] (fst ex_engine, snd ex_engine)"
    by (rule engine_ok_cong) (simp_all add: ex_logged_def)
  then have "engine_ok [] [1] (ex_logged, snd ex_engine)" using ex_engine_ok by simp
  then show "obj_ok [1] ex_logged_obj" using ex_obj_ok(1)
    by (simp add: obj_ok_def ex_logged_obj_def) (simp add: ex_obj_def)
  show "wn_writer (wl_node (ob_writers ex_logged_obj) 1) = lg_base ex_logger"
    by (simp add: ex_logged_obj_def ex_obj_def ex_engine_def ex_logger_def)
  show "mb_worker_running ex_logged_obj" "mp_sink ex_logged_obj = Some (File_sink ex_open_files)"
    using ex_obj_ok(2,4) by (simp_all add: ex_logged_obj_def)
qed

lemma ex_logged_inv: "log_inv (\<lambda>_. 0) 9 ex_logger ex_logged"
proof -
  have h: "mp_wait_head ex_data_pool = None"
    by (simp add: ex_data_pool_def ex_pool_def pool_create_def acquire_no_lock_def pool_grow_def pool_reserve_def
        try_reserve_def over_budget_def pool_new_def Let_def)
  have "ws = []" if "wait_queue ex_data_pool ws" for ws using that h by (cases ws) (auto simp: wait_queue_def)
  then have "may_wait 9 ex_logged" by (force simp: may_wait_def ex_logged_def ex_engine_def core_new_def)
  moreover have "wr_inv 1 ex_writer ex_logged" using ex_writer_ok
    by (simp add: wr_inv_def core_ok_def cache_ok_def ex_logged_def)
  moreover have "mo_svc_buffers ex_logged = []" by (simp add: ex_logged_def ex_engine_def core_new_def)
  moreover have "catalog (\<lambda>_. 0) ex_logged"
  proof -
    have "names_of kind ex_logged = {}" for kind by (cases kind) (simp_all add: ex_logged_def ex_engine_def core_new_def)
    then show ?thesis
      by (simp add: catalog_def svc_total_def) (simp add: ex_logged_def ex_desc_def ex_engine_def core_new_def)
  qed
  ultimately show ?thesis
    by (simp add: log_inv_def own_inv_def own_bufs_def svc_inv_def svc_addrs_def ex_logger_def) (simp add: ex_logged_def)
qed

lemma ex_logged_call:
  obtains lw' c' where "log_send (\<lambda>_ _. 0) alone 9 True 5 e_p8_info0 None 0 3 (Some [97]) None None (Some [120]) [] ex_logger ex_logged
      = Some (True, lw', c')" and "mu_inflight (mp_data_pool c') = 0"
proof -
  have w: "mp_core ex_writer" "mp_buffer ex_writer = Some 1" "mz_buf_used ex_writer = 4096" "mz_buf_max ex_writer = 8192"
    by (simp_all add: ex_writer_def tls_writer_create_def)
  have g: "log_gate None ex_writer ex_logged = Some (e_p8_trace0, 0xFFFF)"
    by (simp add: log_gate_def w ex_logged_def ex_engine_def core_new_def)
  have p: "mu_inflight (mp_data_pool ex_logged) = 0"
    using ex_obj_ok(3) by (simp add: ex_obj_def ex_logged_def)
  have t: "take_buffer alone 9 P8_PACKET_LOGS ex_writer ex_logged = Some (True, ex_writer, ex_logged)"
    by (simp add: take_buffer_def w)
  have l: "\<not> lacks_room 72 ex_writer" by (simp add: lacks_room_def w)
  have pool: "mp_data_pool (pn_c (set_lid b d f q)) = mp_data_pool (pn_c q)" for b d f q
    by (simp add: set_lid_def set_hdr_def at_hdr_def patch_def)
  have fin: "mp_data_pool (snd (finish_log b d n r q)) = mp_data_pool (pn_c q)" for b d n r q
    by (simp add: finish_log_def Let_def end_record_def pool set_buf_size_def split: option.split prod.split)
  obtain w' c' where "write_log ex_desc 5 0 e_p8_info0 0xFFFF None [] ex_writer ex_logged = Some (True, w', c')"
    and "mp_data_pool c' = mp_data_pool ex_logged"
  proof -
    have "\<exists>n r q. write_log ex_desc 5 0 e_p8_info0 0xFFFF None [] ex_writer ex_logged = Some (True, finish_log 1 4096 n r q)
      \<and> mp_data_pool (pn_c q) = mp_data_pool ex_logged"
      by (simp add: write_log_def w Let_def ex_desc_def serialize_some_attrs_def) (force simp: pool pen_at_def)
    with fin that show thesis by (metis prod.collapse)
  qed
  then show thesis using that p
    by (simp add: less_e_p8_level_def log_send_unfold ex_logger_def g w find_log_desc_def emit_log_def l t)
qed


end
