(* ===== verification/P8_Process.thy ===== *)
theory P8_Process
  imports P8_Lifecycle
begin

text \<open>
  The process (the C interface at the end of engine/p8_core.cpp, the writers' constructor and
  destructor in engine/p8_tls_writer.cpp): several shared objects (DSOs), each with its own copy of the
  static variables \<open>gp_instance\<close>, \<open>gp_shm_handle\<close> and \<open>gu_instance_count\<close>, find one core
  through a pointer in shared memory; writers hold references to it.

  Shared memory is \<open>kit::c_shared\<close>, code outside the repository: \<open>shm_ops\<close> is that interface as a
  parameter, for the one name the program uses; what is relied on of it is in P8_Process_Steps. A core is
  an address in \<open>pr_cores\<close>; a pointer to an address that is not there dangles, and using it has
  no defined result (\<open>None\<close>). \<open>p8_initialize\<close> is three steps, between which other threads act: up
  to the new core, publishing it, adopting the winner's.
\<close>

section \<open>The state\<close>

record 'm shm_ops =
  sh_create :: "nat \<Rightarrow> 'm \<Rightarrow> bool \<times> 'm"
  sh_read :: "'m \<Rightarrow> nat option"
  sh_lock :: "'m \<Rightarrow> bool \<times> 'm"
  sh_unlock :: "'m \<Rightarrow> 'm"
  sh_close :: "'m \<Rightarrow> 'm"
  sh_unlink :: "'m \<Rightarrow> 'm"

record dso =
  gp_instance :: "nat option"
  gp_shm_handle :: bool
  gu_instance_count :: u32

text \<open>Where a call of \<open>p8_initialize\<close> stands: returned, about to publish its core, about to adopt.\<close>

datatype init_phase = Init_done bool | Init_publish nat | Init_adopt

text \<open>\<open>pr_writer\<close>: of a writer its DSO and its core; \<open>pr_call\<close>: of a thread inside \<open>p8_initialize\<close>
  its DSO and where it stands.\<close>

record ('f, 'm) process =
  pr_dso :: "nat \<Rightarrow> dso"
  pr_cores :: "nat \<Rightarrow> 'f core_obj option"
  pr_writer :: "nat \<Rightarrow> (nat \<times> nat) option"
  pr_call :: "nat \<Rightarrow> (nat \<times> init_phase) option"
  pr_shm :: 'm

definition process_new :: "'m \<Rightarrow> ('f, 'm) process" where
  "process_new m = \<lparr>pr_dso = (\<lambda>_. \<lparr>gp_instance = None, gp_shm_handle = False, gu_instance_count = 0\<rparr>),
     pr_cores = (\<lambda>_. None), pr_writer = (\<lambda>_. None), pr_call = (\<lambda>_. None), pr_shm = m\<rparr>"

definition upd_dso :: "nat \<Rightarrow> (dso \<Rightarrow> dso) \<Rightarrow> ('f, 'm) process \<Rightarrow> ('f, 'm) process" where
  "upd_dso d f p = p\<lparr>pr_dso := (pr_dso p)(d := f (pr_dso p d))\<rparr>"

definition put_core :: "nat \<Rightarrow> 'f core_obj option \<Rightarrow> ('f, 'm) process \<Rightarrow> ('f, 'm) process" where
  "put_core a x p = p\<lparr>pr_cores := (pr_cores p)(a := x)\<rparr>"

definition set_instance :: "nat \<Rightarrow> nat option \<Rightarrow> ('f, 'm) process \<Rightarrow> ('f, 'm) process" where
  "set_instance d x = upd_dso d (\<lambda>s. s\<lparr>gp_instance := x\<rparr>)"

section \<open>Making and releasing the core\<close>

text \<open>\<open>delete\<close>, by code of the DSO \<open>d\<close>.\<close>

definition delete_core :: "'f outside \<Rightarrow> engine_interference \<Rightarrow> worker_in list \<Rightarrow> nat \<Rightarrow> nat
    \<Rightarrow> ('f, 'm) process \<Rightarrow> ('f, 'm) process option" where
  "delete_core ou env is d a p = do {
     ob \<leftarrow> pr_cores p a;
     _ \<leftarrow> core_destroy ou env is ob;
     Some (upd_dso d (\<lambda>s. s\<lparr>gu_instance_count := gu_instance_count s - 1\<rparr>) (put_core a None p))
   }"

text \<open>\<open>p8_initialize\<close>, steps 1 to 4. \<open>al\<close> is the address the new core gets, if memory can be had; a core that is
  not initialized is deleted at the end of the call.\<close>

definition init_begin :: "'m shm_ops \<Rightarrow> 'f outside \<Rightarrow> nat option \<Rightarrow> s_p8_config option \<Rightarrow> nat
    \<Rightarrow> ('f, 'm) process \<Rightarrow> (init_phase \<times> ('f, 'm) process) option" where
  "init_begin sh ou al ip_config d p =
     (if gp_instance (pr_dso p d) \<noteq> None then Some (Init_done True, p)
      else case sh_read sh (pr_shm p) of
        Some lp_existing \<Rightarrow> Some (Init_done True, set_instance d (Some lp_existing) p)
      | None \<Rightarrow> (case ip_config of
          None \<Rightarrow> Some (Init_done False, p)
        | Some cfg \<Rightarrow> (case al of
            None \<Rightarrow> Some (Init_done False, p)
          | Some lp_new \<Rightarrow> do {
              ob \<leftarrow> core_create ou cfg;
              let p1 = put_core lp_new (Some ob) (upd_dso d (\<lambda>s. s\<lparr>gu_instance_count := gu_instance_count s + 1\<rparr>) p);
              if \<not> get_initialized ob
              then do { p2 \<leftarrow> delete_core ou (\<lambda>_ e. e) [] d lp_new p1; Some (Init_done False, p2) }
              else Some (Init_publish lp_new, p1)
            })))"

text \<open>Step 5, and the \<open>delete\<close> of step 6.\<close>

definition init_publish :: "'m shm_ops \<Rightarrow> 'f outside \<Rightarrow> engine_interference \<Rightarrow> worker_in list \<Rightarrow> nat \<Rightarrow> nat
    \<Rightarrow> ('f, 'm) process \<Rightarrow> (init_phase \<times> ('f, 'm) process) option" where
  "init_publish sh ou env is lp_new d p = (case sh_create sh lp_new (pr_shm p) of
     (True, m) \<Rightarrow> Some (Init_done True,
        upd_dso d (\<lambda>s. s\<lparr>gp_shm_handle := True, gp_instance := Some lp_new\<rparr>) (p\<lparr>pr_shm := m\<rparr>))
   | (False, m) \<Rightarrow> do { p1 \<leftarrow> delete_core ou env is d lp_new (p\<lparr>pr_shm := m\<rparr>); Some (Init_adopt, p1) })"

text \<open>A locked read, as in step 6 and in \<open>get_global_core\<close>.\<close>

definition locked_read :: "'m shm_ops \<Rightarrow> 'm \<Rightarrow> nat option \<times> 'm" where
  "locked_read sh m = (case sh_lock sh m of
     (True, m1) \<Rightarrow> (sh_read sh m1, sh_unlock sh m1)
   | (False, m1) \<Rightarrow> (None, m1))"

definition init_adopt :: "'m shm_ops \<Rightarrow> nat \<Rightarrow> ('f, 'm) process \<Rightarrow> init_phase \<times> ('f, 'm) process" where
  "init_adopt sh d p = (case locked_read sh (pr_shm p) of
     (Some lp_existing, m) \<Rightarrow> (Init_done True, set_instance d (Some lp_existing) (p\<lparr>pr_shm := m\<rparr>))
   | (None, m) \<Rightarrow> (Init_done False, p\<lparr>pr_shm := m\<rparr>))"

text \<open>The call as a whole, when no other thread acts in between.\<close>

definition p8_initialize :: "'m shm_ops \<Rightarrow> 'f outside \<Rightarrow> engine_interference \<Rightarrow> worker_in list \<Rightarrow> nat option
    \<Rightarrow> s_p8_config option \<Rightarrow> nat \<Rightarrow> ('f, 'm) process \<Rightarrow> (bool \<times> ('f, 'm) process) option" where
  "p8_initialize sh ou env is al ip_config d p = do {
     (ph1, p1) \<leftarrow> init_begin sh ou al ip_config d p;
     (ph2, p2) \<leftarrow> (case ph1 of Init_publish a \<Rightarrow> init_publish sh ou env is a d p1 | _ \<Rightarrow> Some (ph1, p1));
     let (ph3, p3) = (case ph2 of Init_adopt \<Rightarrow> init_adopt sh d p2 | _ \<Rightarrow> (ph2, p2));
     Some (ph3 = Init_done True, p3)
   }"

definition p8_get_initialized :: "nat \<Rightarrow> ('f, 'm) process \<Rightarrow> bool option" where
  "p8_get_initialized d p = (case gp_instance (pr_dso p d) of
     None \<Rightarrow> Some False
   | Some a \<Rightarrow> map_option get_initialized (pr_cores p a))"

text \<open>\<open>gp_instance->release()\<close>, by code of the DSO \<open>d\<close>.\<close>

definition release_core :: "'f outside \<Rightarrow> engine_interference \<Rightarrow> worker_in list \<Rightarrow> nat \<Rightarrow> nat
    \<Rightarrow> ('f, 'm) process \<Rightarrow> ('f, 'm) process option" where
  "release_core ou env is d a p = do {
     ob \<leftarrow> pr_cores p a;
     let (dead, ob1) = release ob;
     let p1 = put_core a (Some ob1) p;
     if dead then delete_core ou env is d a p1 else Some p1
   }"

definition p8_release :: "'m shm_ops \<Rightarrow> 'f outside \<Rightarrow> engine_interference \<Rightarrow> worker_in list \<Rightarrow> nat
    \<Rightarrow> ('f, 'm) process \<Rightarrow> ('f, 'm) process option" where
  "p8_release sh ou env is d p = (case gp_instance (pr_dso p d) of
     None \<Rightarrow> Some p
   | Some a \<Rightarrow>
       let m1 = (if gp_shm_handle (pr_dso p d) then sh_close sh (pr_shm p) else pr_shm p);
           p1 = upd_dso d (\<lambda>s. s\<lparr>gp_shm_handle := False\<rparr>) (p\<lparr>pr_shm := sh_unlink sh m1\<rparr>)
       in do { p2 \<leftarrow> release_core ou env is d a p1; Some (set_instance d None p2) })"

section \<open>Finding the core\<close>

text \<open>The loop of \<open>get_global_core\<close>; \<open>drift\<close> is what happens to the shared memory while the caller
  sleeps. It is a partial function: the 32-bit count of milliseconds may wrap.\<close>

partial_function (option) poll_core ::
    "'m shm_ops \<Rightarrow> (nat \<Rightarrow> 'm \<Rightarrow> 'm) \<Rightarrow> u32 \<Rightarrow> u32 \<Rightarrow> nat \<Rightarrow> 'm \<Rightarrow> (nat option \<times> 'm) option" where
  "poll_core sh drift iu_timeoutms lu_elapsed n m =
     (if lu_elapsed < iu_timeoutms then
        (case locked_read sh m of
          (Some lp_found, m1) \<Rightarrow> Some (Some lp_found, m1)
        | (None, m1) \<Rightarrow> poll_core sh drift iu_timeoutms (lu_elapsed + 10) (Suc n) (drift n m1))
      else Some (None, m))"

definition get_global_core :: "'m shm_ops \<Rightarrow> (nat \<Rightarrow> 'm \<Rightarrow> 'm) \<Rightarrow> u32 \<Rightarrow> nat
    \<Rightarrow> ('f, 'm) process \<Rightarrow> (nat option \<times> ('f, 'm) process) option" where
  "get_global_core sh drift iu_timeoutms d p =
     (if gp_instance (pr_dso p d) \<noteq> None then Some (gp_instance (pr_dso p d), p)
      else do {
        (r, m) \<leftarrow> poll_core sh drift iu_timeoutms 0 0 (pr_shm p);
        let p1 = p\<lparr>pr_shm := m\<rparr>;
        Some (r, if r \<noteq> None then set_instance d r p1 else p1)
      })"

abbreviation (input) P8_CORE_ACQUIRE_TIMEOUT_MS :: u32 where "P8_CORE_ACQUIRE_TIMEOUT_MS \<equiv> 100"

section \<open>Writers\<close>

text \<open>The constructor of a writer, once it has found a core or not, and the destructor.\<close>

definition writer_start :: "nat \<Rightarrow> u32 \<Rightarrow> nat \<Rightarrow> nat option \<Rightarrow> ('f, 'm) process \<Rightarrow> ('f, 'm) process option" where
  "writer_start w thread d found p = (case found of
     None \<Rightarrow> Some p
   | Some a \<Rightarrow> do {
       ob \<leftarrow> pr_cores p a;
       let ob1 = addref ob;
       Some ((put_core a (Some (ob1\<lparr>ob_writers := writer_attach w thread (ob_writers ob1)\<rparr>)) p)
         \<lparr>pr_writer := (pr_writer p)(w \<mapsto> (d, a))\<rparr>)
     })"

definition writer_end :: "'f outside \<Rightarrow> engine_interference \<Rightarrow> worker_in list \<Rightarrow> nat
    \<Rightarrow> ('f, 'm) process \<Rightarrow> ('f, 'm) process option" where
  "writer_end ou env is w p = (case pr_writer p w of
     None \<Rightarrow> Some p
   | Some (d, a) \<Rightarrow> do {
       ob \<leftarrow> pr_cores p a;
       let (c1, wl1) = writer_detach w (ob_core ob) (ob_writers ob);
       p1 \<leftarrow> release_core ou env is d a (put_core a (Some (ob\<lparr>ob_core := c1, ob_writers := wl1\<rparr>)) p);
       Some (p1\<lparr>pr_writer := (pr_writer p1)(w := None)\<rparr>)
     })"

section \<open>The C interface\<close>

text \<open>A call on the DSO's instance, with the result it has when there is none.\<close>

definition on_instance :: "'r \<Rightarrow> (core \<Rightarrow> ('r \<times> core) option) \<Rightarrow> nat option \<Rightarrow> ('f, 'm) process \<Rightarrow> ('r \<times> ('f, 'm) process) option" where
  "on_instance r0 f x p = (case x of
     None \<Rightarrow> Some (r0, p)
   | Some a \<Rightarrow> do {
       ob \<leftarrow> pr_cores p a;
       (r, c) \<leftarrow> f (ob_core ob);
       Some (r, put_core a (Some (ob\<lparr>ob_core := c\<rparr>)) p)
     })"

definition p8_attr_register where
  "p8_attr_register x y ip_name ie_type d p =
     on_instance P8_ATTR_ERROR_NOT_INITIALIZED (attr_register x y ip_name ie_type) (gp_instance (pr_dso p d)) p"

definition p8_attr_get where
  "p8_attr_get ip_name d p = on_instance P8_ATTR_ERROR_NOT_FOUND (\<lambda>c. Some (attr_get ip_name c, c)) (gp_instance (pr_dso p d)) p"

definition p8_log_register_module where
  "p8_log_register_module sh drift x y ip_name ie_verbosity op_module d p = do {
     (lp_core, p1) \<leftarrow> get_global_core sh drift P8_CORE_ACQUIRE_TIMEOUT_MS d p;
     on_instance (False, None) (register_module x y ip_name ie_verbosity op_module) lp_core p1
   }"

definition p8_log_find_module where
  "p8_log_find_module sh drift ip_name d p = do {
     (lp_core, p1) \<leftarrow> get_global_core sh drift P8_CORE_ACQUIRE_TIMEOUT_MS d p;
     on_instance None (\<lambda>c. Some (find_module ip_name c, c)) lp_core p1
   }"

definition p8_log_set_verbosity where
  "p8_log_set_verbosity sh drift ip_module ie_verbosity d p = do {
     (lp_core, p1) \<leftarrow> get_global_core sh drift P8_CORE_ACQUIRE_TIMEOUT_MS d p;
     on_instance () (\<lambda>c. map_option (Pair ()) (set_verbosity ip_module ie_verbosity c)) lp_core p1
   }"

definition p8_log_get_verbosity where
  "p8_log_get_verbosity sh drift ip_module d p = do {
     (lp_core, p1) \<leftarrow> get_global_core sh drift P8_CORE_ACQUIRE_TIMEOUT_MS d p;
     on_instance e_p8_trace0 (\<lambda>c. map_option (\<lambda>l. (l, c)) (get_verbosity ip_module c)) lp_core p1
   }"

text \<open>Functions of the interface that do nothing yet.\<close>

definition p8_exceptional_flush :: "('f, 'm) process \<Rightarrow> ('f, 'm) process" where
  "p8_exceptional_flush p = p"

definition p8_register_current_thread :: "cstr option \<Rightarrow> ('f, 'm) process \<Rightarrow> bool \<times> ('f, 'm) process" where
  "p8_register_current_thread ip_name p = (False, p)"

definition p8_unregister_current_thread :: "('f, 'm) process \<Rightarrow> ('f, 'm) process" where
  "p8_unregister_current_thread p = p"


section \<open>Polling ends\<close>

text \<open>A number of polls, one after the other.\<close>

fun poll_times :: "'m shm_ops \<Rightarrow> (nat \<Rightarrow> 'm \<Rightarrow> 'm) \<Rightarrow> nat \<Rightarrow> nat \<Rightarrow> 'm \<Rightarrow> nat option \<times> 'm" where
  "poll_times sh drift 0 n m = (None, m)"
| "poll_times sh drift (Suc k) n m = (case locked_read sh m of
     (Some a, m1) \<Rightarrow> (Some a, m1)
   | (None, m1) \<Rightarrow> poll_times sh drift k (Suc n) (drift n m1))"

lemma poll_core_times:
  "unat t \<le> 2 ^ 32 - 10 \<Longrightarrow> k = (unat t - unat e + 9) div 10 \<Longrightarrow>
   poll_core sh drift t e n m = Some (poll_times sh drift k n m)"
proof (induction k arbitrary: e n m)
  case 0
  then have "\<not> e < t" by (auto simp: word_less_nat_alt)
  then show ?case by (simp add: poll_core.simps)
next
  case (Suc k)
  then have less: "unat e < unat t" by (cases "unat t \<le> unat e") auto
  have s: "unat (e + 10) = unat e + 10" using less Suc.prems(1) by (subst unat_add_lem [THEN iffD1]) simp_all
  have "k = (unat t - unat (e + 10) + 9) div 10" using Suc.prems(2) less unfolding s by arith
  note ih = Suc.IH [OF Suc.prems(1) this]
  obtain r m1 where r: "locked_read sh m = (r, m1)" by fastforce
  show ?case using less ih by (subst poll_core.simps) (cases r; simp add: r word_less_nat_alt)
qed

text \<open>The largest timeout, with nothing to find: the count steps over it for ever.\<close>

lemma poll_core_even:
  fixes sh :: "'m shm_ops"
  shows "t = - 1 \<Longrightarrow> even e \<Longrightarrow> \<forall>m. fst (locked_read sh m) = None \<Longrightarrow> poll_core sh drift t e n m = None"
proof (rule ccontr)
  assume a: "t = - 1" "even e" "\<forall>m. fst (locked_read sh m) = None" and "poll_core sh drift t e n m \<noteq> None"
  then obtain y where y: "poll_core sh drift t e n m = Some y" by blast
  let ?P = "\<lambda>(sh :: 'm shm_ops) (drift :: nat \<Rightarrow> 'm \<Rightarrow> 'm) (t :: u32) (e :: u32) (n :: nat) (m :: 'm) (y :: nat option \<times> 'm). t = - 1 \<longrightarrow> even e \<longrightarrow> (\<forall>m. fst (locked_read sh m) = None) \<longrightarrow> False"
  have "?P sh drift t e n m y"
  proof (rule poll_core.raw_induct [where P = ?P, OF _ y], intro impI)
    fix f and sh :: "'m shm_ops" and drift and t e :: u32 and n m y
    assume ih: "\<And>sh drift t e n m y. f sh drift t e n m = Some y \<Longrightarrow> ?P sh drift t e n m y"
      and r: "(if e < t then (case locked_read sh m of (None, m1) \<Rightarrow> f sh drift t (e + 10) (Suc n) (drift n m1)
          | (Some lp_found, m1) \<Rightarrow> Some (Some lp_found, m1)) else Some (None, m)) = Some y"
      and a: "t = - 1" "even e" "\<forall>m. fst (locked_read sh m) = None"
    have "odd (- 1 :: u32)" by (simp flip: bit_0)
    then have "e \<noteq> - 1" using a(2) by auto
    then have lt: "e < t" unfolding a(1) by (simp add: word_order.not_eq_extremum)
    obtain m1 where l: "locked_read sh m = (None, m1)" using a(3) by (metis prod.collapse)
    from r lt l have "f sh drift t (e + 10) (Suc n) (drift n m1) = Some y" by simp
    from ih [OF this] a show False by simp
  qed
  with a show False by blast
qed


text \<open>A concrete shared memory: the pointer itself, created once, lockable while it is there.\<close>

definition ex_shm :: "nat option shm_ops" where
  "ex_shm = \<lparr>sh_create = (\<lambda>a m. if m = None then (True, Some a) else (False, m)), sh_read = (\<lambda>m. m),
     sh_lock = (\<lambda>m. (m \<noteq> None, m)), sh_unlock = (\<lambda>m. m), sh_close = (\<lambda>m. m), sh_unlink = (\<lambda>_. None)\<rparr>"

section \<open>Property\<close>

text \<open>C23 \<open>get_global_core\<close> ends. The instance of the DSO is the answer when there is one; otherwise, for
  timeouts up to 9 below the largest, the function polls once per 10 milliseconds begun, at most, and
  remembers what it finds. With the largest timeout and nothing to find it does not return: its count
  wraps.\<close>
theorem get_global_core_ends:
  "(gp_instance (pr_dso p d) = Some a \<longrightarrow> get_global_core sh drift t d p = Some (Some a, p))
   \<and> (gp_instance (pr_dso p d) = None \<and> unat t \<le> 2 ^ 32 - 10 \<longrightarrow>
        get_global_core sh drift t d p = Some (let (r, m) = poll_times sh drift ((unat t + 9) div 10) 0 (pr_shm p)
          in (r, if r = None then p\<lparr>pr_shm := m\<rparr> else set_instance d r (p\<lparr>pr_shm := m\<rparr>))))
   \<and> (gp_instance (pr_dso p d) = None \<and> t = - 1 \<and> (\<forall>m. fst (locked_read sh m) = None) \<longrightarrow>
        get_global_core sh drift t d p = None)"
proof -
  have "poll_core sh drift t 0 0 (pr_shm p) = Some (poll_times sh drift ((unat t + 9) div 10) 0 (pr_shm p))"
    if "unat t \<le> 2 ^ 32 - 10" using poll_core_times [OF that refl, of sh drift 0 0] by simp
  moreover have "poll_core sh drift t 0 0 (pr_shm p) = None" if "t = - 1" "\<forall>m. fst (locked_read sh m) = None"
    using poll_core_even [OF that(1) _ that(2), of 0 drift 0] by simp
  ultimately show ?thesis by (auto simp: get_global_core_def Let_def split: prod.splits)
qed

text \<open>A core that appears during the third sleep is found by the fourth poll, none in 100 milliseconds without
  one, and none ever with the largest timeout when locking fails.\<close>
theorem get_global_core_ends_witness:
  "get_global_core ex_shm (\<lambda>n m. if n = 2 then Some 7 else m) 35 0 (process_new None)
     = Some (Some 7, set_instance 0 (Some 7) (process_new (Some 7)))
   \<and> get_global_core ex_shm (\<lambda>_ m. m) P8_CORE_ACQUIRE_TIMEOUT_MS 0 (process_new None) = Some (None, process_new None)
   \<and> get_global_core (ex_shm\<lparr>sh_lock := Pair False\<rparr>) (\<lambda>_ m. m) (- 1) 0 (process_new None) = None"
proof -
  note g = get_global_core_ends [where p = "process_new None" and d = 0, unfolded process_new_def, simplified]
  have "poll_times ex_shm (\<lambda>n m. if n = 2 then Some 7 else m) 4 0 None = (Some 7, Some 7)"
    by (simp add: numeral_eq_Suc locked_read_def ex_shm_def)
  with g [where sh = ex_shm and drift = "\<lambda>n m. if n = 2 then Some 7 else m" and t = 35]
  have 1: "get_global_core ex_shm (\<lambda>n m. if n = 2 then Some 7 else m) 35 0 (process_new None)
     = Some (Some 7, set_instance 0 (Some 7) (process_new (Some 7)))" by (simp add: process_new_def)
  have "poll_times ex_shm (\<lambda>_ m. m) 10 0 None = (None, None)"
    by (simp add: numeral_eq_Suc locked_read_def ex_shm_def)
  with g [where sh = ex_shm and drift = "\<lambda>_ m. m" and t = 100]
  have 2: "get_global_core ex_shm (\<lambda>_ m. m) 100 0 (process_new None) = Some (None, process_new None)" by (simp add: process_new_def)
  have 3: "get_global_core (ex_shm\<lparr>sh_lock := Pair False\<rparr>) (\<lambda>_ m. m) (- 1) 0 (process_new None) = None"
    using get_global_core_ends [where p = "process_new None" and d = 0 and sh = "ex_shm\<lparr>sh_lock := Pair False\<rparr>"
        and drift = "\<lambda>_ m. m" and t = "- 1", THEN conjunct2, THEN conjunct2]
    by (simp add: process_new_def locked_read_def)
  from 1 2 3 show ?thesis by simp
qed

end
