(* ===== verification/P8_Process_Steps.thy ===== *)
theory P8_Process_Steps
  imports P8_Process
begin

text \<open>
  The process in motion: what is relied on of shared memory (\<open>shm_law\<close>), the steps that threads of
  several DSOs take in any order (\<open>proc_step\<close>), and the invariant that ties references, writers and
  pointers to cores. Its properties: without releases there is one live core; with releases by the owner
  alone no writer loses its core and no core is left behind; a release by a DSO that
  adopted the core leaves the owner a dangling pointer.
\<close>

section \<open>What the program relies on of shared memory\<close>

text \<open>\<open>pub m\<close> is the pointer that the name refers to. Creation is exclusive; a read that succeeds
  gives what was created; locking, unlocking and closing change nothing; after unlinking the name is free.
  Any of them may fail.\<close>

definition shm_law :: "'m shm_ops \<Rightarrow> ('m \<Rightarrow> nat option) \<Rightarrow> bool" where
  "shm_law sh pub \<longleftrightarrow> (\<forall>a m m1. sh_create sh a m = (True, m1) \<longrightarrow> pub m = None \<and> pub m1 = Some a)
     \<and> (\<forall>a m m1. sh_create sh a m = (False, m1) \<longrightarrow> pub m1 = pub m)
     \<and> (\<forall>a m. sh_read sh m = Some a \<longrightarrow> pub m = Some a)
     \<and> (\<forall>m. pub (snd (sh_lock sh m)) = pub m \<and> pub (sh_unlock sh m) = pub m \<and> pub (sh_close sh m) = pub m
          \<and> pub (sh_unlink sh m) = None)"

lemma locked_read_law:
  assumes "shm_law sh pub" and "locked_read sh m = (r, m1)"
  shows "pub m1 = pub m" and "r = Some a \<Longrightarrow> pub m = Some a"
proof -
  obtain b m2 where l: "sh_lock sh m = (b, m2)" by fastforce
  then have m2: "pub m2 = pub m" using assms(1) unfolding shm_law_def by (metis snd_conv)
  with assms l show "pub m1 = pub m" and "r = Some a \<Longrightarrow> pub m = Some a"
    by (cases b; auto simp: locked_read_def shm_law_def)+
qed

section \<open>Steps of the process\<close>

text \<open>What threads do, in any order. A new core gets an address where no core is and to which no
  instance pointer leads. \<open>may p d\<close> says whether DSO \<open>d\<close> may call \<open>p8_release\<close> in \<open>p\<close>. \<open>works\<close>
  stands for what a core does without touching its references or its writers: cycles of the worker,
  registrations, records.\<close>

definition phase_of :: "nat \<Rightarrow> init_phase \<Rightarrow> (nat \<times> init_phase) option" where
  "phase_of d ph = (case ph of Init_done _ \<Rightarrow> None | _ \<Rightarrow> Some (d, ph))"

definition set_call :: "nat \<Rightarrow> (nat \<times> init_phase) option \<Rightarrow> ('f, 'm) process \<Rightarrow> ('f, 'm) process" where
  "set_call t x p = p\<lparr>pr_call := (pr_call p)(t := x)\<rparr>"

definition works :: "'f core_obj \<Rightarrow> 'f core_obj \<Rightarrow> bool" where
  "works ob ob' \<longleftrightarrow> mu_ref_count ob' = mu_ref_count ob \<and> (\<forall>xs. obj_ok xs ob \<longrightarrow> obj_ok xs ob')"

inductive proc_step :: "'m shm_ops \<Rightarrow> 'f outside \<Rightarrow> (('f, 'm) process \<Rightarrow> nat \<Rightarrow> bool) \<Rightarrow> ('f, 'm) process \<Rightarrow> ('f, 'm) process \<Rightarrow> bool"
  for sh ou may where
  ps_begin: "pr_call p t = None \<Longrightarrow> (\<And>a. al = Some a \<Longrightarrow> pr_cores p a = None \<and> (\<forall>e. gp_instance (pr_dso p e) \<noteq> Some a)) \<Longrightarrow>
     init_begin sh ou al cfg d p = Some (ph, p') \<Longrightarrow> proc_step sh ou may p (set_call t (phase_of d ph) p')"
| ps_publish: "pr_call p t = Some (d, Init_publish a) \<Longrightarrow> init_publish sh ou env is a d p = Some (ph, p') \<Longrightarrow>
     proc_step sh ou may p (set_call t (phase_of d ph) p')"
| ps_adopt: "pr_call p t = Some (d, Init_adopt) \<Longrightarrow> init_adopt sh d p = (ph, p') \<Longrightarrow>
     proc_step sh ou may p (set_call t (phase_of d ph) p')"
| ps_poll: "gp_instance (pr_dso p d) = None \<Longrightarrow> locked_read sh (pr_shm p) = (r, m) \<Longrightarrow>
     proc_step sh ou may p (if r = None then p\<lparr>pr_shm := m\<rparr> else set_instance d r (p\<lparr>pr_shm := m\<rparr>))"
| ps_writer: "pr_writer p w = None \<Longrightarrow> card (dom (pr_writer p)) + 2 < 2 ^ 32 \<Longrightarrow>
     writer_start w thread d (gp_instance (pr_dso p d)) p = Some p' \<Longrightarrow> proc_step sh ou may p p'"
| ps_writer_end: "writer_end ou env is w p = Some p' \<Longrightarrow> proc_step sh ou may p p'"
| ps_work: "pr_cores p a = Some ob \<Longrightarrow> works ob ob' \<Longrightarrow> proc_step sh ou may p (put_core a (Some ob') p)"
| ps_release: "may p d \<Longrightarrow> p8_release sh ou env is d p = Some p' \<Longrightarrow> proc_step sh ou may p p'"

inductive proc_reach :: "'m shm_ops \<Rightarrow> 'f outside \<Rightarrow> (('f, 'm) process \<Rightarrow> nat \<Rightarrow> bool) \<Rightarrow> 'm \<Rightarrow> ('f, 'm) process \<Rightarrow> bool"
  for sh ou may m where
  pr_init: "proc_reach sh ou may m (process_new m)"
| pr_step: "proc_reach sh ou may m p \<Longrightarrow> proc_step sh ou may p p' \<Longrightarrow> proc_reach sh ou may m p'"

section \<open>The invariant\<close>

definition writers_on :: "('f, 'm) process \<Rightarrow> nat \<Rightarrow> nat set" where
  "writers_on p a = {w. \<exists>d. pr_writer p w = Some (d, a)}"

definition publishing :: "('f, 'm) process \<Rightarrow> nat \<Rightarrow> bool" where
  "publishing p a \<longleftrightarrow> (\<exists>t d. pr_call p t = Some (d, Init_publish a))"

abbreviation instance_of :: "('f, 'm) process \<Rightarrow> nat \<Rightarrow> nat option" where
  "instance_of p d \<equiv> gp_instance (pr_dso p d)"

abbreviation owns :: "('f, 'm) process \<Rightarrow> nat \<Rightarrow> bool" where
  "owns p d \<equiv> gp_shm_handle (pr_dso p d)"

text \<open>The references there are: one per writer, one of the DSO that published the core or of the call
  that is about to.\<close>

definition refs :: "('m \<Rightarrow> nat option) \<Rightarrow> ('f, 'm) process \<Rightarrow> nat \<Rightarrow> nat" where
  "refs pub p a = card (writers_on p a) + of_bool (pub (pr_shm p) = Some a) + of_bool (publishing p a)"

definition owners_ok :: "('m \<Rightarrow> nat option) \<Rightarrow> ('f, 'm) process \<Rightarrow> bool" where
  "owners_ok pub p \<longleftrightarrow> (\<forall>d. owns p d \<longrightarrow> instance_of p d \<noteq> None \<and> instance_of p d = pub (pr_shm p))
     \<and> (\<forall>d e. owns p d \<longrightarrow> owns p e \<longrightarrow> d = e) \<and> (pub (pr_shm p) \<noteq> None \<longrightarrow> (\<exists>d. owns p d))"

definition calls_ok :: "('m \<Rightarrow> nat option) \<Rightarrow> ('f, 'm) process \<Rightarrow> bool" where
  "calls_ok pub p \<longleftrightarrow> (\<forall>t u d e a. pr_call p t = Some (d, Init_publish a) \<longrightarrow> pr_call p u = Some (e, Init_publish a) \<longrightarrow> t = u)
     \<and> (\<forall>a. publishing p a \<longrightarrow> pub (pr_shm p) \<noteq> Some a \<and> writers_on p a = {} \<and> (\<forall>d. instance_of p d \<noteq> Some a))"

definition core_counted :: "('m \<Rightarrow> nat option) \<Rightarrow> ('f, 'm) process \<Rightarrow> nat \<Rightarrow> bool" where
  "core_counted pub p a \<longleftrightarrow> (case pr_cores p a of
     None \<Rightarrow> refs pub p a = 0
   | Some ob \<Rightarrow> 0 < refs pub p a \<and> mu_ref_count ob = word_of_nat (refs pub p a)
       \<and> (\<exists>xs. obj_ok xs ob \<and> set xs = writers_on p a))"

definition writers_few :: "('f, 'm) process \<Rightarrow> bool" where
  "writers_few p \<longleftrightarrow> finite (dom (pr_writer p)) \<and> card (dom (pr_writer p)) + 1 < 2 ^ 32"

definition proc_ok :: "('m \<Rightarrow> nat option) \<Rightarrow> ('f, 'm) process \<Rightarrow> bool" where
  "proc_ok pub p \<longleftrightarrow> owners_ok pub p \<and> calls_ok pub p \<and> writers_few p \<and> (\<forall>a. core_counted pub p a)"

lemma writers_on_finite:
  assumes "writers_few p"
  shows "finite (writers_on p a) \<and> card (writers_on p a) \<le> card (dom (pr_writer p))"
proof -
  have "writers_on p a \<subseteq> dom (pr_writer p)" by (auto simp: writers_on_def)
  with assms show ?thesis unfolding writers_few_def using finite_subset card_mono by blast
qed

lemma refs_bound:
  assumes "proc_ok pub p"
  shows "refs pub p a < 2 ^ 32"
proof -
  have few: "writers_few p" using assms by (simp add: proc_ok_def)
  then have "card (writers_on p a) + 1 < 2 ^ 32" using writers_on_finite [OF few, of a] unfolding writers_few_def by linarith
  moreover have "\<not> (publishing p a \<and> pub (pr_shm p) = Some a)" using assms unfolding proc_ok_def calls_ok_def by blast
  ultimately show ?thesis unfolding refs_def by (cases "publishing p a"; cases "pub (pr_shm p) = Some a") simp_all
qed

lemma upd_dso_fields [simp]:
  "instance_of (upd_dso d f p) e = (if e = d then gp_instance (f (pr_dso p d)) else instance_of p e)"
  "owns (upd_dso d f p) e = (if e = d then gp_shm_handle (f (pr_dso p d)) else owns p e)"
  "pr_cores (upd_dso d f p) = pr_cores p" "pr_writer (upd_dso d f p) = pr_writer p"
  "pr_call (upd_dso d f p) = pr_call p" "pr_shm (upd_dso d f p) = pr_shm p"
  by (simp_all add: upd_dso_def)

lemma put_core_fields [simp]:
  "pr_cores (put_core a x p) = (pr_cores p)(a := x)" "pr_dso (put_core a x p) = pr_dso p"
  "pr_writer (put_core a x p) = pr_writer p" "pr_call (put_core a x p) = pr_call p" "pr_shm (put_core a x p) = pr_shm p"
  by (simp_all add: put_core_def)

lemma set_call_fields [simp]:
  "pr_call (set_call t x p) = (pr_call p)(t := x)" "pr_dso (set_call t x p) = pr_dso p"
  "pr_writer (set_call t x p) = pr_writer p" "pr_cores (set_call t x p) = pr_cores p" "pr_shm (set_call t x p) = pr_shm p"
  by (simp_all add: set_call_def)

text \<open>A step that leaves alone whom pointers and references belong to.\<close>

definition same_links :: "('m \<Rightarrow> nat option) \<Rightarrow> ('f, 'm) process \<Rightarrow> ('f, 'm) process \<Rightarrow> bool" where
  "same_links pub p p' \<longleftrightarrow> (\<forall>d. instance_of p' d = instance_of p d \<and> owns p' d = owns p d)
     \<and> pr_writer p' = pr_writer p \<and> pr_call p' = pr_call p \<and> pub (pr_shm p') = pub (pr_shm p)"

lemma same_links_refs:
  "same_links pub p p' \<Longrightarrow> refs pub p' a = refs pub p a \<and> writers_on p' a = writers_on p a \<and> publishing p' a = publishing p a"
  by (simp add: same_links_def refs_def writers_on_def publishing_def)

lemma same_links_ok:
  assumes ok: "proc_ok pub p" and l: "same_links pub p p'" and c: "\<And>b. core_counted pub p' b"
  shows "proc_ok pub p'"
proof -
  have "owners_ok pub p' = owners_ok pub p" using l by (simp add: owners_ok_def same_links_def)
  moreover have "calls_ok pub p' = calls_ok pub p" using l same_links_refs [OF l] by (simp add: calls_ok_def same_links_def)
  moreover have "writers_few p' = writers_few p" using l by (simp add: writers_few_def same_links_def)
  ultimately show ?thesis using ok c by (simp add: proc_ok_def)
qed

lemma same_links_upd [simp]:
  "same_links pub p (put_core a x p)" "same_links pub p p"
  "same_links pub p (upd_dso d (\<lambda>s. s\<lparr>gu_instance_count := f s\<rparr>) p)"
  by (auto simp: same_links_def)

lemma same_links_trans: "same_links pub p q \<Longrightarrow> same_links pub q r \<Longrightarrow> same_links pub p r"
  by (simp add: same_links_def)

lemma delete_core_effect:
  assumes "delete_core ou env is d a p = Some p'"
  shows "pr_cores p a \<noteq> None \<and> pr_cores p' = (pr_cores p)(a := None) \<and> same_links pub p p' \<and> pr_shm p' = pr_shm p"
  using assms by (auto simp: delete_core_def same_links_def split: bind_splits if_splits)

lemma release_core_effect:
  assumes "release_core ou env is d a p = Some p'"
  obtains ob where "pr_cores p a = Some ob" and "same_links pub p p'" and "pr_shm p' = pr_shm p"
    and "pr_cores p' = (pr_cores p)(a := if mu_ref_count ob = 1 then None else Some (ob\<lparr>mu_ref_count := mu_ref_count ob - 1\<rparr>))"
proof -
  from assms obtain ob where ob: "pr_cores p a = Some ob" by (auto simp: release_core_def split: bind_splits)
  let ?p1 = "put_core a (Some (ob\<lparr>mu_ref_count := mu_ref_count ob - 1\<rparr>)) p"
  show thesis
  proof (cases "mu_ref_count ob = 1")
    case True
    with assms ob have "delete_core ou env is d a ?p1 = Some p'" by (simp add: release_core_def release_def)
    from delete_core_effect [OF this, of pub] have "pr_cores p' = (pr_cores ?p1)(a := None)" "same_links pub ?p1 p'" "pr_shm p' = pr_shm ?p1"
      by simp_all
    with that [OF ob same_links_trans [OF same_links_upd(1)]] True show ?thesis by simp
  next
    case False
    with assms ob have "p' = ?p1" by (simp add: release_core_def release_def)
    with that [OF ob] False show ?thesis by simp
  qed
qed

text \<open>Counting down: the word is one exactly when one reference is left.\<close>

lemma count_down:
  assumes "r = word_of_nat (Suc n)" and "Suc n < 2 ^ 32"
  shows "(r :: u32) = 1 \<longleftrightarrow> n = 0" and "r - 1 = word_of_nat n"
proof -
  have "unat r = Suc n" using assms(2) by (simp add: assms(1) unat_of_nat del: of_nat_Suc)
  then show "r = 1 \<longleftrightarrow> n = 0" by (metis One_nat_def Suc_inject assms(1) of_nat_1 unsigned_1)
  show "r - 1 = word_of_nat n" by (simp add: assms(1))
qed


lemma core_counted_cong:
  "pr_cores p' b = pr_cores p b \<Longrightarrow> refs pub p' b = refs pub p b \<Longrightarrow> writers_on p' b = writers_on p b \<Longrightarrow>
   core_counted pub p' b = core_counted pub p b"
  unfolding core_counted_def by (cases "pr_cores p b") auto

lemma owners_ok_cong:
  "(\<And>d. instance_of q d = instance_of p d \<and> owns q d = owns p d) \<Longrightarrow> pub (pr_shm q) = pub (pr_shm p) \<Longrightarrow>
   owners_ok pub q = owners_ok pub p"
  by (simp add: owners_ok_def)

definition not_publishing :: "(nat \<times> init_phase) option \<Rightarrow> bool" where
  "not_publishing x \<longleftrightarrow> (\<forall>d a. x \<noteq> Some (d, Init_publish a))"

lemma publishing_upd:
  assumes "pr_call q = (pr_call p)(t := x)"
  shows "publishing q b \<longleftrightarrow> (\<exists>d. x = Some (d, Init_publish b)) \<or> (\<exists>u d. u \<noteq> t \<and> pr_call p u = Some (d, Init_publish b))"
  unfolding publishing_def assms by (metis fun_upd_apply)

lemma publishing_begin:
  assumes "pr_call q = (pr_call p)(t \<mapsto> (d, Init_publish a))" and "pr_call p t = None"
  shows "publishing q b \<longleftrightarrow> b = a \<or> publishing p b"
proof -
  have "u \<noteq> t" if "pr_call p u = Some (e, Init_publish b)" for u e using that assms(2) by auto
  then have "(\<exists>u e. u \<noteq> t \<and> pr_call p u = Some (e, Init_publish b)) \<longleftrightarrow> publishing p b" unfolding publishing_def by blast
  then show ?thesis using publishing_upd [OF assms(1), of b] by auto
qed

lemma publishing_end:
  assumes "pr_call q = (pr_call p)(t := x)" and "pr_call p t = Some (d, Init_publish a)"
    and "not_publishing x" and "calls_ok pub p"
  shows "publishing q b \<longleftrightarrow> b \<noteq> a \<and> publishing p b"
proof -
  have one: "u = t" if "pr_call p u = Some (e, Init_publish a)" for u e using assms(2,4) that unfolding calls_ok_def by blast
  have "u \<noteq> t" if "pr_call p u = Some (e, Init_publish b)" "b \<noteq> a" for u e using that assms(2) by auto
  then have "(\<exists>u e. u \<noteq> t \<and> pr_call p u = Some (e, Init_publish b)) \<longleftrightarrow> b \<noteq> a \<and> publishing p b"
    unfolding publishing_def using one by blast
  moreover have "\<nexists>d. x = Some (d, Init_publish b)" using assms(3) by (simp add: not_publishing_def)
  ultimately show ?thesis using publishing_upd [OF assms(1), of b] by simp
qed

lemma obj_ok_refs [simp]: "obj_ok xs (ob\<lparr>mu_ref_count := r\<rparr>) = obj_ok xs ob"
  by (simp add: obj_ok_def)

text \<open>No core, no reference; a core that is published, about to be, or used by a writer is there.\<close>

lemma no_core_no_refs:
  assumes "proc_ok pub p" and "pr_cores p a = None"
  shows "writers_on p a = {}" and "pub (pr_shm p) \<noteq> Some a" and "\<not> publishing p a"
proof -
  have c: "core_counted pub p a" and few: "writers_few p" using assms(1) by (simp_all add: proc_ok_def)
  with assms(2) have "refs pub p a = 0" by (simp add: core_counted_def)
  with writers_on_finite [OF few, of a] show "writers_on p a = {}" "pub (pr_shm p) \<noteq> Some a" "\<not> publishing p a"
    by (auto simp: refs_def)
qed

lemma drop_ref:
  assumes ob: "pr_cores p a = Some ob" "core_counted pub p a" and b: "refs pub p a = Suc n" "Suc n < 2 ^ 32"
    and p': "pr_cores p' a = (if mu_ref_count ob1 = 1 then None else Some (ob1\<lparr>mu_ref_count := mu_ref_count ob1 - 1\<rparr>))"
    and r: "mu_ref_count ob1 = mu_ref_count ob" "refs pub p' a = n" and x: "obj_ok xs ob1" "set xs = writers_on p' a"
  shows "core_counted pub p' a"
proof -
  have m: "mu_ref_count ob1 = word_of_nat (Suc n)" using ob b(1) r(1) by (simp add: core_counted_def)
  note d = count_down [OF m b(2)]
  show ?thesis
  proof (cases "n = 0")
    case True
    with d p' r(2) show ?thesis by (simp add: core_counted_def)
  next
    case False
    with d p' r(2) x show ?thesis by (auto simp: core_counted_def)
  qed
qed

lemma set_instance_ok:
  assumes ok: "proc_ok pub p" and x: "pub (pr_shm p) = Some x"
  shows "proc_ok pub (set_instance d (Some x) p)"
proof -
  let ?q = "set_instance d (Some x) p"
  have r: "refs pub ?q a = refs pub p a" "writers_on ?q a = writers_on p a" "publishing ?q a = publishing p a" for a
    by (simp_all add: set_instance_def refs_def writers_on_def publishing_def)
  have "owners_ok pub ?q" using ok x unfolding proc_ok_def owners_ok_def by (auto simp: set_instance_def)
  moreover have "calls_ok pub ?q" using ok x unfolding proc_ok_def calls_ok_def r by (auto simp: set_instance_def)
  moreover have "core_counted pub ?q a" for a
    using ok by (subst core_counted_cong [of _ _ p]) (simp_all add: proc_ok_def r, simp add: set_instance_def)
  ultimately show ?thesis using ok by (simp add: proc_ok_def writers_few_def set_instance_def)
qed

lemma set_shm_ok:
  assumes "proc_ok pub p" and "pub m = pub (pr_shm p)"
  shows "proc_ok pub (p\<lparr>pr_shm := m\<rparr>)"
proof -
  have l: "same_links pub p (p\<lparr>pr_shm := m\<rparr>)" using assms(2) by (simp add: same_links_def)
  show ?thesis
    by (rule same_links_ok [OF assms(1) l], subst core_counted_cong [of _ _ p])
      (use assms(1) same_links_refs [OF l] in \<open>simp_all add: proc_ok_def\<close>)
qed

text \<open>A call that is not about to publish moves on.\<close>

lemma set_call_ok:
  assumes ok: "proc_ok pub p" and n: "not_publishing (pr_call p t)" "not_publishing x"
  shows "proc_ok pub (set_call t x p)"
proof -
  let ?q = "set_call t x p"
  have c: "pr_call ?q u = Some (d, Init_publish a) \<longleftrightarrow> pr_call p u = Some (d, Init_publish a)" for u d a
    using n by (simp add: not_publishing_def)
  then have pb: "publishing ?q a = publishing p a" for a by (simp add: publishing_def)
  have r: "refs pub ?q a = refs pub p a" "writers_on ?q a = writers_on p a" for a
    by (simp_all only: refs_def pb) (simp_all add: writers_on_def)
  have "calls_ok pub ?q" using ok unfolding proc_ok_def calls_ok_def c pb r(2) by simp
  moreover have "core_counted pub ?q a" for a
    using ok by (subst core_counted_cong [of _ _ p]) (simp_all add: proc_ok_def r)
  moreover have "owners_ok pub ?q = owners_ok pub p" by (rule owners_ok_cong) simp_all
  ultimately show ?thesis using ok by (simp add: proc_ok_def writers_few_def)
qed

lemma begin_ok:
  assumes ok: "proc_ok pub p" and a: "pr_cores p a = None" "\<And>e. instance_of p e \<noteq> Some a"
    and ob: "obj_ok [] ob" "mu_ref_count ob = 1" and t: "pr_call p t = None"
  shows "proc_ok pub (set_call t (Some (d, Init_publish a))
    (put_core a (Some ob) (upd_dso d (\<lambda>s. s\<lparr>gu_instance_count := gu_instance_count s + 1\<rparr>) p)))"
    (is "proc_ok pub ?q")
proof -
  note nr = no_core_no_refs [OF ok a(1)]
  have pb: "publishing ?q b \<longleftrightarrow> b = a \<or> publishing p b" for b by (rule publishing_begin [OF _ t, of _ d]) simp
  have w: "writers_on ?q b = writers_on p b" for b by (simp add: writers_on_def)
  have r: "refs pub ?q b = (if b = a then 1 else refs pub p b)" for b
    using nr by (simp add: refs_def pb w)
  have "owners_ok pub ?q = owners_ok pub p" by (rule owners_ok_cong) simp_all
  moreover have "calls_ok pub ?q" using ok nr a(2) t unfolding proc_ok_def calls_ok_def pb w
    by (auto simp: publishing_def)
  moreover have "core_counted pub ?q b" for b
  proof (cases "b = a")
    case True
    with ob nr(1) show ?thesis by (simp add: core_counted_def r w)
  next
    case False
    then show ?thesis using ok by (subst core_counted_cong [of _ _ p]) (simp_all add: proc_ok_def r w)
  qed
  ultimately show ?thesis using ok by (simp add: proc_ok_def writers_few_def)
qed

lemma publish_ok:
  assumes ok: "proc_ok pub p" and t: "pr_call p t = Some (d, Init_publish a)" and m: "pub (pr_shm p) = None" "pub m = Some a"
  shows "proc_ok pub (set_call t None (upd_dso d (\<lambda>s. s\<lparr>gp_shm_handle := True, gp_instance := Some a\<rparr>) (p\<lparr>pr_shm := m\<rparr>)))"
    (is "proc_ok pub ?q")
proof -
  have pub: "publishing p a" using t by (auto simp: publishing_def)
  have pb: "publishing ?q b \<longleftrightarrow> b \<noteq> a \<and> publishing p b" for b
    by (rule publishing_end [OF _ t, of _ None pub]) (use ok in \<open>simp_all add: proc_ok_def not_publishing_def\<close>)
  have w: "writers_on ?q b = writers_on p b" for b by (simp add: writers_on_def)
  have r: "refs pub ?q b = refs pub p b" for b using pub m by (simp add: refs_def pb w)
  have no: "\<not> owns p e" for e using ok m(1) unfolding proc_ok_def owners_ok_def by auto
  have "owners_ok pub ?q" using no m(2) by (auto simp: owners_ok_def)
  moreover have "calls_ok pub ?q" using ok m(2) unfolding proc_ok_def calls_ok_def pb w by (auto split: if_splits)
  moreover have "core_counted pub ?q b" for b
    using ok by (subst core_counted_cong [of _ _ p]) (simp_all add: proc_ok_def r w)
  ultimately show ?thesis using ok by (simp add: proc_ok_def writers_few_def)
qed

lemma publish_lost_ok:
  assumes ok: "proc_ok pub p" and t: "pr_call p t = Some (d, Init_publish a)" and x: "not_publishing x"
    and q: "same_links pub p q" "pr_cores q = (pr_cores p)(a := None)"
  shows "proc_ok pub (set_call t x q)" (is "proc_ok pub ?q")
proof -
  have pub: "publishing p a" using t by (auto simp: publishing_def)
  then have none: "writers_on p a = {}" "pub (pr_shm p) \<noteq> Some a" using ok unfolding proc_ok_def calls_ok_def by auto
  have l: "pr_writer q = pr_writer p" "pr_call q = pr_call p" "pub (pr_shm q) = pub (pr_shm p)"
    "instance_of q e = instance_of p e" "owns q e = owns p e" for e using q(1) by (auto simp: same_links_def)
  have pb: "publishing ?q b \<longleftrightarrow> b \<noteq> a \<and> publishing p b" for b
    by (rule publishing_end [OF _ t x, of _ pub]) (use ok in \<open>simp_all add: proc_ok_def l\<close>)
  have w: "writers_on ?q b = writers_on p b" for b by (simp add: writers_on_def l)
  have r: "refs pub ?q b = (if b = a then 0 else refs pub p b)" for b using none by (simp add: refs_def pb w l)
  have "owners_ok pub ?q = owners_ok pub p" by (rule owners_ok_cong) (simp_all add: l)
  moreover have "calls_ok pub ?q" using ok x unfolding proc_ok_def calls_ok_def pb w
    by (auto simp: l not_publishing_def split: if_splits)
  moreover have "core_counted pub ?q b" for b
  proof (cases "b = a")
    case True
    then show ?thesis by (simp add: core_counted_def r q(2))
  next
    case False
    then show ?thesis using ok by (subst core_counted_cong [of _ _ p]) (simp_all add: proc_ok_def r w q(2))
  qed
  ultimately show ?thesis using ok by (simp add: proc_ok_def writers_few_def l)
qed


lemma obj_attach:
  assumes "obj_ok xs ob" and "w \<notin> set xs"
  shows "obj_ok (w # xs) ((addref ob)\<lparr>ob_writers := writer_attach w thread (ob_writers (addref ob))\<rparr>)"
  using assms attach_engine [of "[]" xs "ob_core ob" "ob_writers ob" w thread] by (simp add: obj_ok_def addref_def)

lemma obj_detach:
  assumes "obj_ok xs ob" and "w \<in> set xs" and "writer_detach w (ob_core ob) (ob_writers ob) = (c, wl)"
  shows "obj_ok (remove1 w xs) (ob\<lparr>ob_core := c, ob_writers := wl\<rparr>)" and "set (remove1 w xs) = set xs - {w}"
proof -
  have e: "engine_ok [] xs (ob_core ob, ob_writers ob)" using assms(1) by (simp add: obj_ok_def)
  show "obj_ok (remove1 w xs) (ob\<lparr>ob_core := c, ob_writers := wl\<rparr>)"
    using assms(1) detach_engine(1) [OF e assms(2,3)] by (simp add: obj_ok_def)
  have "distinct xs" using e by (simp add: engine_ok_def wl_rep_def)
  then show "set (remove1 w xs) = set xs - {w}" by (simp add: set_remove1_eq)
qed

lemma writer_start_ok:
  assumes ok: "proc_ok pub p" and w: "pr_writer p w = None" and few: "card (dom (pr_writer p)) + 2 < 2 ^ 32"
    and s: "writer_start w thread d (instance_of p d) p = Some p'"
  shows "proc_ok pub p'"
proof (cases "instance_of p d")
  case None
  with s ok show ?thesis by (simp add: writer_start_def)
next
  case (Some a)
  with s obtain ob where ob: "pr_cores p a = Some ob" and p': "p' = (put_core a (Some ((addref ob)\<lparr>ob_writers :=
      writer_attach w thread (ob_writers (addref ob))\<rparr>)) p)\<lparr>pr_writer := (pr_writer p)(w \<mapsto> (d, a))\<rparr>"
    by (auto simp: writer_start_def Let_def split: bind_splits)
  have np: "\<not> publishing p a" using ok Some unfolding proc_ok_def calls_ok_def by blast
  have wf: "writers_few p" and c: "core_counted pub p a" using ok by (simp_all add: proc_ok_def)
  have wn: "w \<notin> writers_on p b" for b using w by (simp add: writers_on_def)
  have wo: "writers_on p' b = (if b = a then insert w (writers_on p a) else writers_on p b)" for b
    using w by (auto simp: writers_on_def p')
  have pb: "publishing p' b = publishing p b" for b by (simp add: publishing_def p')
  have r: "refs pub p' b = (if b = a then Suc (refs pub p a) else refs pub p b)" for b
    using wn writers_on_finite [OF wf, of a] by (simp add: refs_def pb wo) (simp add: p')
  have "owners_ok pub p' = owners_ok pub p" by (rule owners_ok_cong) (simp_all add: p')
  moreover have "calls_ok pub p'" using ok np unfolding proc_ok_def calls_ok_def pb wo by (auto simp: p')
  moreover have "writers_few p'"
    using wf few w by (simp add: writers_few_def p' card_insert_if domIff)
  moreover have "core_counted pub p' b" for b
  proof (cases "b = a")
    case True
    from c ob obtain xs where x: "obj_ok xs ob" "set xs = writers_on p a" "mu_ref_count ob = word_of_nat (refs pub p a)"
      by (auto simp: core_counted_def)
    have "obj_ok (w # xs) ((addref ob)\<lparr>ob_writers := writer_attach w thread (ob_writers (addref ob))\<rparr>)"
      by (rule obj_attach [OF x(1)]) (use x(2) wn in simp)
    moreover have "set (w # xs) = writers_on p' a" by (simp add: wo x(2))
    moreover have "mu_ref_count ob + 1 = word_of_nat (refs pub p' a)" by (simp add: r x(3) add.commute)
    moreover have "pr_cores p' a = Some ((addref ob)\<lparr>ob_writers := writer_attach w thread (ob_writers (addref ob))\<rparr>)"
      by (simp add: p')
    ultimately show ?thesis unfolding True core_counted_def
      by (simp only: option.case) (intro conjI exI [of _ "w # xs"]; simp add: r addref_def add.commute)
  next
    case False
    then show ?thesis using ok by (subst core_counted_cong [of _ _ p]) (simp_all add: proc_ok_def r wo, simp add: p')
  qed
  ultimately show ?thesis using ok by (simp add: proc_ok_def)
qed

lemma writer_end_ok:
  assumes ok: "proc_ok pub p" and s: "writer_end ou env is w p = Some p'"
  shows "proc_ok pub p'"
proof (cases "pr_writer p w")
  case None
  with s ok show ?thesis by (simp add: writer_end_def)
next
  case (Some da)
  obtain d a where w: "pr_writer p w = Some (d, a)" using Some by (cases da) simp
  from s w obtain ob c1 wl1 p1 where ob: "pr_cores p a = Some ob"
    and dt: "writer_detach w (ob_core ob) (ob_writers ob) = (c1, wl1)"
    and rc: "release_core ou env is d a (put_core a (Some (ob\<lparr>ob_core := c1, ob_writers := wl1\<rparr>)) p) = Some p1"
    and p': "p' = p1\<lparr>pr_writer := (pr_writer p1)(w := None)\<rparr>"
    by (auto simp: writer_end_def split: bind_splits prod.splits)
  let ?ob = "ob\<lparr>ob_core := c1, ob_writers := wl1\<rparr>"
  obtain ob2 where o2: "pr_cores (put_core a (Some ?ob) p) a = Some ob2" and l1: "same_links pub (put_core a (Some ?ob) p) p1"
    and co2: "pr_cores p1 = (pr_cores (put_core a (Some ?ob) p))(a := if mu_ref_count ob2 = 1 then None else Some (ob2\<lparr>mu_ref_count := mu_ref_count ob2 - 1\<rparr>))"
    by (rule release_core_effect [OF rc, of pub])
  have co: "pr_cores p1 = (pr_cores p)(a := if mu_ref_count ?ob = 1 then None else Some (?ob\<lparr>mu_ref_count := mu_ref_count ?ob - 1\<rparr>))"
    using o2 co2 by auto
  have l: "same_links pub p p1" by (rule same_links_trans [OF same_links_upd(1) l1])
  then have f: "pr_writer p1 = pr_writer p" "pr_call p1 = pr_call p" "pub (pr_shm p1) = pub (pr_shm p)"
    "instance_of p1 e = instance_of p e" "owns p1 e = owns p e" for e by (auto simp: same_links_def)
  have wf: "writers_few p" and c: "core_counted pub p a" using ok by (simp_all add: proc_ok_def)
  have wa: "w \<in> writers_on p a" using w by (auto simp: writers_on_def)
  then have np: "\<not> publishing p a" using ok unfolding proc_ok_def calls_ok_def by auto
  have wo: "writers_on p' b = (if b = a then writers_on p a - {w} else writers_on p b)" for b
    using w by (auto simp: writers_on_def p' f)
  have pb: "publishing p' b = publishing p b" for b by (simp add: publishing_def p' f)
  have fin: "finite (writers_on p a)" using writers_on_finite [OF wf] by blast
  have r: "refs pub p' b = refs pub p b" if "b \<noteq> a" for b using that by (simp add: refs_def pb wo) (simp add: p' f)
  obtain k where k: "card (writers_on p a) = Suc k" using wa fin by (metis card_Suc_Diff1)
  have ra: "refs pub p a = Suc (refs pub p' a)" using wa fin k by (simp add: refs_def pb wo) (simp add: p' f)
  from c ob obtain xs where x: "obj_ok xs ob" "set xs = writers_on p a" by (auto simp: core_counted_def)
  have "w \<in> set xs" using x(2) wa by simp
  note od = obj_detach [OF x(1) this dt]
  have "owners_ok pub p' = owners_ok pub p" by (rule owners_ok_cong) (simp_all add: p' f)
  moreover have "calls_ok pub p'" using ok np unfolding proc_ok_def calls_ok_def pb wo by (auto simp: p' f split: if_splits)
  moreover have "writers_few p'" using wf card_Diff1_le [of "dom (pr_writer p)" w] by (auto simp: writers_few_def p' f)
  moreover have "core_counted pub p' b" for b
  proof (cases "b = a")
    case True
    have "Suc (refs pub p' a) < 2 ^ 32" using refs_bound [OF ok, of a] ra by simp
    from drop_ref [OF ob c ra this, of p' ?ob "remove1 w xs"] od x(2) co wo show ?thesis unfolding True by (simp add: p')
  next
    case False
    then show ?thesis using ok by (subst core_counted_cong [of _ _ p]) (simp_all add: proc_ok_def r wo, simp add: p' co)
  qed
  ultimately show ?thesis using ok by (simp add: proc_ok_def)
qed

lemma release_ok:
  assumes law: "shm_law sh pub" and ok: "proc_ok pub p" and may: "owns p d \<or> instance_of p d = None"
    and s: "p8_release sh ou env is d p = Some p'"
  shows "proc_ok pub p'"
proof (cases "instance_of p d")
  case None
  with s ok show ?thesis by (simp add: p8_release_def)
next
  case (Some a)
  then have own: "owns p d" and pa: "pub (pr_shm p) = Some a" and one: "owns p e \<longleftrightarrow> e = d" for e
    using may ok unfolding proc_ok_def owners_ok_def by auto
  let ?m = "sh_unlink sh (sh_close sh (pr_shm p))"
  let ?p1 = "upd_dso d (\<lambda>s. s\<lparr>gp_shm_handle := False\<rparr>) (p\<lparr>pr_shm := ?m\<rparr>)"
  from s Some own obtain p2 where rc: "release_core ou env is d a ?p1 = Some p2" and p': "p' = set_instance d None p2"
    by (auto simp: p8_release_def Let_def split: bind_splits)
  have pm: "pub ?m = None" using law by (simp add: shm_law_def)
  obtain ob where ob: "pr_cores p a = Some ob" and l: "same_links pub ?p1 p2" and sm: "pr_shm p2 = ?m"
    and co: "pr_cores p2 = (pr_cores p)(a := if mu_ref_count ob = 1 then None else Some (ob\<lparr>mu_ref_count := mu_ref_count ob - 1\<rparr>))"
    by (rule release_core_effect [OF rc, of pub]) auto
  have f: "pr_writer p2 = pr_writer p" "pr_call p2 = pr_call p" "instance_of p2 e = instance_of p e"
    "owns p2 e \<longleftrightarrow> e \<noteq> d \<and> owns p e" for e using l by (auto simp: same_links_def)
  have c: "core_counted pub p a" using ok by (simp add: proc_ok_def)
  have np: "\<not> publishing p a" using ok pa unfolding proc_ok_def calls_ok_def by auto
  have wo: "writers_on p' b = writers_on p b" for b by (simp add: writers_on_def p' set_instance_def f)
  have pb: "publishing p' b = publishing p b" for b by (simp add: publishing_def p' set_instance_def f)
  have pp: "pub (pr_shm p') = None" by (simp add: p' set_instance_def sm pm)
  have r: "refs pub p' b = refs pub p b" if "b \<noteq> a" for b using that pa by (simp add: refs_def pb wo pp)
  have ra: "refs pub p a = Suc (refs pub p' a)" using pa np by (simp add: refs_def pb wo pp)
  from c ob obtain xs where x: "obj_ok xs ob" "set xs = writers_on p a" by (auto simp: core_counted_def)
  have "owners_ok pub p'" unfolding owners_ok_def pp using one by (simp add: p' set_instance_def f)
  moreover have "calls_ok pub p'" using ok unfolding proc_ok_def calls_ok_def pb wo pp
    by (simp add: p' set_instance_def f)
  moreover have "writers_few p'" using ok by (simp add: proc_ok_def writers_few_def p' set_instance_def f)
  moreover have "core_counted pub p' b" for b
  proof (cases "b = a")
    case True
    have "Suc (refs pub p' a) < 2 ^ 32" using refs_bound [OF ok, of a] ra by simp
    from drop_ref [OF ob c ra this, of p' ob xs] x co wo show ?thesis unfolding True by (simp add: p' set_instance_def)
  next
    case False
    then show ?thesis using ok by (subst core_counted_cong [of _ _ p]) (simp_all add: proc_ok_def r wo, simp add: p' set_instance_def co)
  qed
  ultimately show ?thesis using ok by (simp add: proc_ok_def)
qed


lemma init_begin_cases:
  assumes "init_begin sh ou al cfg d p = Some (ph, p')"
  obtains (early) b where "ph = Init_done b" and "p' = p"
  | (found) a where "ph = Init_done True" and "sh_read sh (pr_shm p) = Some a" and "p' = set_instance d (Some a) p"
  | (failed) a ob where "al = Some a" and "ph = Init_done False"
      and "delete_core ou (\<lambda>_ e. e) [] d a (put_core a (Some ob)
        (upd_dso d (\<lambda>s. s\<lparr>gu_instance_count := gu_instance_count s + 1\<rparr>) p)) = Some p'"
  | (made) a ob c where "al = Some a" and "cfg = Some c" and "core_create ou c = Some ob" and "get_initialized ob"
      and "ph = Init_publish a"
      and "p' = put_core a (Some ob) (upd_dso d (\<lambda>s. s\<lparr>gu_instance_count := gu_instance_count s + 1\<rparr>) p)"
proof -
  from assms show thesis
    by (auto simp: init_begin_def Let_def split: if_splits option.splits bind_splits
        elim: early found failed made)
qed

text \<open>A core made and found ready has one reference and no writer.\<close>

lemma created_obj:
  assumes "core_create ou c = Some ob" and "get_initialized ob"
  shows "obj_ok [] ob" and "mu_ref_count ob = 1"
proof -
  from assms(1) have "obj_ok [] ob \<and> mu_ref_count ob = 1"
  proof (cases rule: core_create_cases)
    case (ready j p v sk sk1)
    from config_pool_start [OF ready(1)] have "pool_start p" "mz_buffer_size p = word_of_nat mz_data_buffer_size" by blast+
    then show ?thesis unfolding ready(5) using ready_core_ok(1) by simp
  qed (use assms(2) in \<open>simp_all add: get_initialized_def\<close>)
  then show "obj_ok [] ob" and "mu_ref_count ob = 1" by simp_all
qed

lemma same_links_refl_ok:
  assumes "proc_ok pub p" and l: "same_links pub p p'" and "pr_cores p' = pr_cores p"
  shows "proc_ok pub p'"
  by (rule same_links_ok [OF assms(1) l], subst core_counted_cong [of _ _ p])
    (use assms(1,3) same_links_refs [OF l] in \<open>simp_all add: proc_ok_def\<close>)

lemma init_begin_ok:
  assumes law: "shm_law sh pub" and ok: "proc_ok pub p" and t: "pr_call p t = None"
    and al: "\<And>a. al = Some a \<Longrightarrow> pr_cores p a = None \<and> (\<forall>e. instance_of p e \<noteq> Some a)"
    and s: "init_begin sh ou al cfg d p = Some (ph, p')"
  shows "proc_ok pub (set_call t (phase_of d ph) p')"
  using s
proof (cases rule: init_begin_cases)
  case (early b)
  with ok t show ?thesis by (simp add: phase_of_def set_call_ok not_publishing_def)
next
  case (found a)
  with law have "pub (pr_shm p) = Some a" by (simp add: shm_law_def)
  from set_instance_ok [OF ok this] found t show ?thesis
    by (simp add: phase_of_def set_call_ok not_publishing_def set_instance_def)
next
  case (failed a ob)
  from delete_core_effect [OF failed(3), of pub] al [OF failed(1)] have "same_links pub p p'" "pr_cores p' = pr_cores p"
    by (auto simp: same_links_def)
  note l = this
  from same_links_refl_ok [OF ok l] failed t l show ?thesis
    by (simp add: phase_of_def set_call_ok not_publishing_def same_links_def)
next
  case (made a ob c)
  note o = created_obj [OF made(3,4)] and al = al [OF made(1)]
  from begin_ok [OF ok conjunct1 [OF al] _ o t, of d] al made show ?thesis by (simp add: phase_of_def)
qed

lemma init_publish_ok:
  assumes law: "shm_law sh pub" and ok: "proc_ok pub p" and t: "pr_call p t = Some (d, Init_publish a)"
    and s: "init_publish sh ou env is a d p = Some (ph, p')"
  shows "proc_ok pub (set_call t (phase_of d ph) p')"
proof -
  obtain b m where c: "sh_create sh a (pr_shm p) = (b, m)" by fastforce
  show ?thesis
  proof (cases b)
    case True
    with c law have m: "pub (pr_shm p) = None" "pub m = Some a" by (simp_all add: shm_law_def)
    from publish_ok [OF ok t m] s c True show ?thesis by (auto simp: init_publish_def phase_of_def)
  next
    case False
    with c law have m: "pub m = pub (pr_shm p)" by (simp add: shm_law_def)
    from s c False have ph: "ph = Init_adopt" and dl: "delete_core ou env is d a (p\<lparr>pr_shm := m\<rparr>) = Some p'"
      by (auto simp: init_publish_def split: bind_splits)
    from delete_core_effect [OF dl, of pub] m have "same_links pub p p'" "pr_cores p' = (pr_cores p)(a := None)"
      by (auto simp: same_links_def)
    from publish_lost_ok [OF ok t _ this, of "phase_of d ph"] show ?thesis by (simp add: ph phase_of_def not_publishing_def)
  qed
qed

lemma found_ok:
  assumes law: "shm_law sh pub" and ok: "proc_ok pub p" and r: "locked_read sh (pr_shm p) = (r, m)"
  shows "proc_ok pub (if r = None then p\<lparr>pr_shm := m\<rparr> else set_instance d r (p\<lparr>pr_shm := m\<rparr>))"
proof -
  note l = locked_read_law [OF law r]
  from set_shm_ok [OF ok l(1)] have ok': "proc_ok pub (p\<lparr>pr_shm := m\<rparr>)" .
  show ?thesis
  proof (cases r)
    case None
    with ok' show ?thesis by simp
  next
    case (Some a)
    with l have "pub (pr_shm (p\<lparr>pr_shm := m\<rparr>)) = Some a" by simp
    from set_instance_ok [OF ok' this, of d] Some show ?thesis by simp
  qed
qed

lemma init_adopt_ok:
  assumes law: "shm_law sh pub" and ok: "proc_ok pub p" and t: "pr_call p t = Some (d, Init_adopt)"
    and s: "init_adopt sh d p = (ph, p')"
  shows "proc_ok pub (set_call t (phase_of d ph) p')"
proof -
  obtain r m where l: "locked_read sh (pr_shm p) = (r, m)" by fastforce
  from found_ok [OF law ok l, of d] s l have "proc_ok pub p'" "phase_of d ph = None" "pr_call p' = pr_call p"
    by (auto simp: init_adopt_def phase_of_def set_instance_def split: option.splits)
  with t show ?thesis by (simp add: set_call_ok not_publishing_def)
qed

lemma work_ok:
  assumes ok: "proc_ok pub p" and ob: "pr_cores p a = Some ob" and w: "works ob ob'"
  shows "proc_ok pub (put_core a (Some ob') p)"
proof (rule same_links_ok [OF ok same_links_upd(1)])
  let ?p = "put_core a (Some ob') p"
  fix b
  have r: "refs pub ?p b = refs pub p b" "writers_on ?p b = writers_on p b"
    using same_links_refs [OF same_links_upd(1) [of pub p a "Some ob'"]] by simp_all
  show "core_counted pub ?p b"
  proof (cases "b = a")
    case True
    from ok ob have "core_counted pub p a" by (simp add: proc_ok_def)
    with ob w r show ?thesis unfolding True works_def core_counted_def by fastforce
  next
    case False
    then show ?thesis using ok by (subst core_counted_cong [of _ _ p]) (simp_all add: proc_ok_def r)
  qed
qed

text \<open>One step, and any number of them.\<close>

definition by_owner :: "('f, 'm) process \<Rightarrow> nat \<Rightarrow> bool" where
  "by_owner p d \<longleftrightarrow> owns p d \<or> instance_of p d = None"

lemma step_ok:
  assumes law: "shm_law sh pub" and may: "\<And>p d. may p d \<Longrightarrow> by_owner p d"
    and s: "proc_step sh ou may p p'" and ok: "proc_ok pub p"
  shows "proc_ok pub p'"
  using s
proof (cases rule: proc_step.cases)
  case (ps_begin t al cfg d ph q)
  with init_begin_ok [OF law ok] show ?thesis by blast
next
  case (ps_publish t d a env "is" ph q)
  with init_publish_ok [OF law ok] show ?thesis by blast
next
  case (ps_adopt t d ph q)
  with init_adopt_ok [OF law ok] show ?thesis by blast
next
  case (ps_poll d r m)
  with found_ok [OF law ok] show ?thesis by blast
next
  case (ps_writer w d thread)
  with writer_start_ok [OF ok] show ?thesis by blast
next
  case (ps_writer_end env "is" w)
  with writer_end_ok [OF ok] show ?thesis by blast
next
  case (ps_work a ob ob')
  with work_ok [OF ok] show ?thesis by blast
next
  case (ps_release d env "is")
  with release_ok [OF law ok] may show ?thesis unfolding by_owner_def by blast
qed

lemma process_new_ok: "pub m = None \<Longrightarrow> proc_ok pub (process_new m)"
  by (simp add: process_new_def proc_ok_def owners_ok_def calls_ok_def writers_few_def core_counted_def refs_def
      writers_on_def publishing_def)

lemma reach_ok:
  assumes "shm_law sh pub" and "\<And>p d. may p d \<Longrightarrow> by_owner p d" and "proc_reach sh ou may m p" and "pub m = None"
  shows "proc_ok pub p"
  using assms(3)
proof (induction rule: proc_reach.induct)
  case pr_init
  show ?case using assms(4) by (rule process_new_ok)
next
  case (pr_step p p')
  show ?case by (rule step_ok [OF assms(1,2) pr_step.hyps(2) pr_step.IH])
qed


section \<open>Without releases\<close>

definition linked :: "('m \<Rightarrow> nat option) \<Rightarrow> ('f, 'm) process \<Rightarrow> bool" where
  "linked pub p \<longleftrightarrow> (\<forall>d a. instance_of p d = Some a \<longrightarrow> pub (pr_shm p) = Some a)
     \<and> (\<forall>w d a. pr_writer p w = Some (d, a) \<longrightarrow> pub (pr_shm p) = Some a)"

abbreviation nobody :: "('f, 'm) process \<Rightarrow> nat \<Rightarrow> bool" where
  "nobody p d \<equiv> False"

lemma same_links_linked: "same_links pub p p' \<Longrightarrow> linked pub p' = linked pub p"
  by (simp add: linked_def same_links_def)

lemma linked_call [simp]: "linked pub (set_call t x p) = linked pub p"
  by (simp add: linked_def)

lemma linked_found: "linked pub p \<Longrightarrow> pub (pr_shm p) = Some a \<Longrightarrow> linked pub (set_instance d (Some a) p)"
  by (auto simp: linked_def set_instance_def)

lemma linked_shm: "pub m = pub (pr_shm p) \<Longrightarrow> linked pub (p\<lparr>pr_shm := m\<rparr>) = linked pub p"
  by (simp add: linked_def)

lemma linked_poll:
  assumes law: "shm_law sh pub" and l: "linked pub p" and r: "locked_read sh (pr_shm p) = (r, m)"
  shows "linked pub (if r = None then p\<lparr>pr_shm := m\<rparr> else set_instance d r (p\<lparr>pr_shm := m\<rparr>))"
  using locked_read_law [OF law r] l linked_found [of pub "p\<lparr>pr_shm := m\<rparr>"] by (auto simp: linked_shm)

lemma linked_begin:
  assumes law: "shm_law sh pub" and l: "linked pub p" and s: "init_begin sh ou al cfg d p = Some (ph, p')"
  shows "linked pub p'"
  using s
proof (cases rule: init_begin_cases)
  case (early b)
  with l show ?thesis by simp
next
  case (found a)
  with law l show ?thesis by (simp add: linked_found shm_law_def)
next
  case (failed a ob)
  from delete_core_effect [OF failed(3), of pub] have "same_links pub p p'" by (auto simp: same_links_def)
  with l show ?thesis by (simp add: same_links_linked)
next
  case (made a ob c)
  then have "same_links pub p p'" by (auto simp: same_links_def)
  with l show ?thesis by (simp add: same_links_linked)
qed

lemma linked_publish:
  assumes law: "shm_law sh pub" and l: "linked pub p" and s: "init_publish sh ou env is a d p = Some (ph, p')"
  shows "linked pub p'"
proof -
  obtain b m where c: "sh_create sh a (pr_shm p) = (b, m)" by fastforce
  show ?thesis
  proof (cases b)
    case True
    with c law have "pub (pr_shm p) = None" "pub m = Some a" by (simp_all add: shm_law_def)
    with s c True l show ?thesis by (auto simp: init_publish_def linked_def split: if_splits)
  next
    case False
    with c law have m: "pub m = pub (pr_shm p)" by (simp add: shm_law_def)
    from s c False have "delete_core ou env is d a (p\<lparr>pr_shm := m\<rparr>) = Some p'"
      by (auto simp: init_publish_def split: bind_splits)
    from delete_core_effect [OF this, of pub] m have "same_links pub p p'" by (auto simp: same_links_def)
    with l show ?thesis by (simp add: same_links_linked)
  qed
qed

lemma linked_adopt:
  assumes "shm_law sh pub" and "linked pub p" and "init_adopt sh d p = (ph, p')"
  shows "linked pub p'"
proof -
  obtain r m where l: "locked_read sh (pr_shm p) = (r, m)" by fastforce
  from linked_poll [OF assms(1,2) l, of d] assms(3) l show ?thesis
    by (auto simp: init_adopt_def split: option.splits)
qed

lemma linked_writer_start:
  assumes l: "linked pub p" and s: "writer_start w thread d (instance_of p d) p = Some p'"
  shows "linked pub p'"
proof (cases "instance_of p d")
  case None
  with s l show ?thesis by (simp add: writer_start_def)
next
  case (Some a)
  then have "pub (pr_shm p) = Some a" using l by (simp add: linked_def)
  from s Some obtain x where p': "p' = (put_core a x p)\<lparr>pr_writer := (pr_writer p)(w \<mapsto> (d, a))\<rparr>"
    by (auto simp: writer_start_def Let_def split: bind_splits)
  from l \<open>pub (pr_shm p) = Some a\<close> show ?thesis unfolding linked_def p' by simp
qed

lemma linked_writer_end:
  assumes l: "linked pub p" and s: "writer_end ou env is w p = Some p'"
  shows "linked pub p'"
proof (cases "pr_writer p w")
  case None
  with s l show ?thesis by (simp add: writer_end_def)
next
  case (Some da)
  obtain d a where "pr_writer p w = Some (d, a)" using Some by (cases da) simp
  with s obtain x p1 where rc: "release_core ou env is d a (put_core a x p) = Some p1"
    and p': "p' = p1\<lparr>pr_writer := (pr_writer p1)(w := None)\<rparr>"
    by (auto simp: writer_end_def split: bind_splits prod.splits)
  obtain ob where "same_links pub (put_core a x p) p1" by (rule release_core_effect [OF rc])
  then have "same_links pub p p1" by (rule same_links_trans [OF same_links_upd(1)])
  with l have "linked pub p1" by (simp add: same_links_linked)
  then show ?thesis by (auto simp: p' linked_def)
qed

lemma reach_linked:
  assumes law: "shm_law sh pub" and "proc_reach sh ou nobody m p"
  shows "linked pub p"
  using assms(2)
proof (induction rule: proc_reach.induct)
  case pr_init
  show ?case by (simp add: linked_def process_new_def)
next
  case (pr_step p p')
  from pr_step.hyps(2) pr_step.IH show ?case
  proof (cases rule: proc_step.cases)
    case (ps_begin t al cfg d ph q)
    with linked_begin [OF law pr_step.IH] show ?thesis by simp
  next
    case (ps_publish t d a env "is" ph q)
    with linked_publish [OF law pr_step.IH] show ?thesis by simp
  next
    case (ps_adopt t d ph q)
    with linked_adopt [OF law pr_step.IH] show ?thesis by simp
  next
    case (ps_poll d r m)
    with linked_poll [OF law pr_step.IH] show ?thesis by simp
  next
    case (ps_writer w d thread)
    with linked_writer_start [OF pr_step.IH] show ?thesis by blast
  next
    case (ps_writer_end env "is" w)
    with linked_writer_end [OF pr_step.IH] show ?thesis by blast
  next
    case (ps_work a ob ob')
    with pr_step.IH show ?thesis by (simp add: same_links_linked [OF same_links_upd(1)])
  next
    case (ps_release d env "is")
    then show ?thesis by simp
  qed
qed

text \<open>What the invariant says of one core.\<close>

lemma counted_core:
  assumes "proc_ok pub p" and "pr_cores p a = Some ob"
  obtains xs where "obj_ok xs ob" and "set xs = writers_on p a" and "get_initialized ob"
    and "unat (mu_ref_count ob) = refs pub p a" and "0 < refs pub p a"
proof -
  from assms obtain xs where x: "obj_ok xs ob" "set xs = writers_on p a" "mu_ref_count ob = word_of_nat (refs pub p a)" "0 < refs pub p a"
    by (auto simp: proc_ok_def core_counted_def dest!: spec [of _ a])
  have "unat (mu_ref_count ob) = refs pub p a" using refs_bound [OF assms(1), of a] x(3) by (simp add: unat_of_nat)
  moreover have "get_initialized ob" using x(1) by (simp add: obj_ok_def engine_ok_def svc_ok_def core_ok_def get_initialized_def)
  ultimately show thesis using that x by blast
qed

section \<open>Properties\<close>

text \<open>C16 One core. While nobody releases it, whatever the order in which the threads of the DSOs initialize,
  poll, start and end writers: every DSO that has an instance has the published one and finds it initialized,
  so no two DSOs log to different cores; any other core there is is one whose maker has yet to learn whether it won; the
  published core's count is the writers' references and the publisher's.\<close>
theorem one_live_core:
  assumes "shm_law sh pub" and "proc_reach sh ou nobody m p" and "pub m = None"
  shows "(\<forall>d a. instance_of p d = Some a \<longrightarrow> pub (pr_shm p) = Some a \<and> p8_get_initialized d p = Some True)
    \<and> (\<forall>a. pr_cores p a \<noteq> None \<longrightarrow> pub (pr_shm p) = Some a \<or> publishing p a)
    \<and> (\<forall>a. pub (pr_shm p) = Some a \<longrightarrow> (\<exists>ob. pr_cores p a = Some ob \<and> unat (mu_ref_count ob) = Suc (card (writers_on p a))))"
proof -
  have ok: "proc_ok pub p" by (rule reach_ok [OF assms(1) _ assms(2,3)]) simp
  have l: "linked pub p" by (rule reach_linked [OF assms(1,2)])
  have live: "\<exists>ob. pr_cores p a = Some ob \<and> get_initialized ob \<and> unat (mu_ref_count ob) = Suc (card (writers_on p a))"
    if a: "pub (pr_shm p) = Some a" for a
  proof -
    obtain ob where ob: "pr_cores p a = Some ob" using no_core_no_refs(2) [OF ok] a by (cases "pr_cores p a") auto
    have "\<not> publishing p a" using ok a unfolding proc_ok_def calls_ok_def by blast
    with a have "refs pub p a = Suc (card (writers_on p a))" by (simp add: refs_def)
    with counted_core [OF ok ob] ob show ?thesis by metis
  qed
  have "pub (pr_shm p) = Some a \<or> publishing p a" if a: "pr_cores p a \<noteq> None" for a
  proof (cases "writers_on p a = {}")
    case True
    obtain ob where "pr_cores p a = Some ob" using a by blast
    then have "0 < refs pub p a" by (rule counted_core [OF ok])
    with True show ?thesis by (auto simp: refs_def)
  next
    case False
    with l show ?thesis by (auto simp: linked_def writers_on_def)
  qed
  moreover have "p8_get_initialized d p = Some True" if "instance_of p d = Some a" for d a
    using live [of a] l that by (auto simp: linked_def p8_get_initialized_def)
  ultimately show ?thesis using live l unfolding linked_def by blast
qed


text \<open>C24 A release by a DSO that adopted the core. \<open>p8_initialize\<close> takes no reference when it
  adopts, \<open>p8_release\<close> gives one back all the same: with no writer left, the owner's core is destroyed and its name freed while
  the owner's pointer still leads to it, and the owner's next call has no defined result.\<close>
theorem adopter_release_dangles:
  assumes "shm_law sh pub" and "proc_reach sh ou by_owner m p" and "pub m = None"
    and "owns p e" and "d \<noteq> e" and "instance_of p d = Some a" and "instance_of p e = Some a" and "writers_on p a = {}"
    and "p8_release sh ou env is d p = Some p'"
  shows "pr_cores p' a = None \<and> pub (pr_shm p') = None \<and> instance_of p' e = Some a \<and> p8_get_initialized e p' = None"
proof -
  have ok: "proc_ok pub p" by (rule reach_ok [OF assms(1) _ assms(2,3)])
  have pa: "pub (pr_shm p) = Some a" using ok assms(4,7) unfolding proc_ok_def owners_ok_def by auto
  have "\<not> owns p d" using ok assms(4,5) unfolding proc_ok_def owners_ok_def by auto
  let ?p1 = "upd_dso d (\<lambda>s. s\<lparr>gp_shm_handle := False\<rparr>) (p\<lparr>pr_shm := sh_unlink sh (pr_shm p)\<rparr>)"
  from assms(6,9) \<open>\<not> owns p d\<close> obtain p2 where rc: "release_core ou env is d a ?p1 = Some p2" and p': "p' = set_instance d None p2"
    by (auto simp: p8_release_def Let_def split: bind_splits)
  obtain ob where ob: "pr_cores ?p1 a = Some ob" and l: "same_links pub ?p1 p2" and sm: "pr_shm p2 = pr_shm ?p1"
    and co: "pr_cores p2 = (pr_cores ?p1)(a := if mu_ref_count ob = 1 then None else Some (ob\<lparr>mu_ref_count := mu_ref_count ob - 1\<rparr>))"
    by (rule release_core_effect [OF rc, of pub])
  have "\<not> publishing p a" using ok pa unfolding proc_ok_def calls_ok_def by auto
  with pa assms(8) have "refs pub p a = 1" by (simp add: refs_def)
  moreover from ob have "pr_cores p a = Some ob" by simp
  ultimately have "unat (mu_ref_count ob) = 1" using counted_core [OF ok] by metis
  then have "mu_ref_count ob = 1" by (simp add: word_unat_eq_iff)
  with co have "pr_cores p' a = None" by (simp add: p' set_instance_def)
  moreover have "instance_of p' e = Some a" using l assms(5,7) by (simp add: p' set_instance_def same_links_def)
  moreover have "pub (pr_shm p') = None" using assms(1) sm by (simp add: p' set_instance_def shm_law_def)
  ultimately show ?thesis by (simp add: p8_get_initialized_def)
qed


section \<open>Witnesses\<close>

lemma ex_shm_law: "shm_law ex_shm (\<lambda>m. m)"
  by (auto simp: shm_law_def ex_shm_def)

lemma created_destroyed:
  assumes "core_create ou cfg = Some ob" and "get_initialized ob" and "ou_event_init ou"
    and env: "engine_env env" "no_entry env" and st: "\<exists>i \<in> set is. wi_stop i"
  shows "\<exists>x. core_destroy ou env is (ob\<lparr>mu_ref_count := r\<rparr>) = Some x"
proof -
  let ?ob = "ob\<lparr>mu_ref_count := r\<rparr>"
  have "mb_worker_running ob \<and> waits (ob_core ob) = 0"
    using assms(1)
  proof (cases rule: core_create_cases)
    case (ready j p v sk sk1)
    from config_pool_start [OF ready(1)] have "pool_start p" by blast
    then show ?thesis using assms(3) by (simp add: ready(5) pool_start_def)
  qed (use assms(2) in \<open>simp_all add: get_initialized_def\<close>)
  then have w: "mb_worker_running ?ob" "waits (ob_core ?ob) = 0" by simp_all
  have "obj_ok [] ?ob" using created_obj(1) [OF assms(1,2)] by simp
  note d = destroy_runs [OF env this w st, of ou]
  obtain sk' ob' where "core_destroy ou env is ?ob = Some (Some (close_sink ou sk'), ob')" by (rule d) blast
  then show ?thesis by blast
qed

text \<open>DSO 0 makes the core at address 1 and publishes it, DSO 1 finds it, a thread of DSO 1 starts a writer.\<close>

lemma ex_two_dsos:
  assumes c: "core_create (ex_host ''file.bin'') ex_config = Some ob" "get_initialized ob"
  obtains p q where "proc_reach ex_shm (ex_host ''file.bin'') may None p"
    and "proc_reach ex_shm (ex_host ''file.bin'') may None q"
    and "pr_dso p = (\<lambda>_. \<lparr>gp_instance = None, gp_shm_handle = False, gu_instance_count = 0\<rparr>)
      (0 := \<lparr>gp_instance = Some 1, gp_shm_handle = True, gu_instance_count = 1\<rparr>,
       1 := \<lparr>gp_instance = Some 1, gp_shm_handle = False, gu_instance_count = 0\<rparr>)"
    and "pr_cores p 1 = Some ob" and "pr_shm p = Some 1" and "pr_writer p = (\<lambda>_. None)"
    and "pr_shm q = Some 1" and "pr_dso q = pr_dso p" and "pr_writer q = [5 \<mapsto> (1, 1)]"
proof -
  let ?ou = "ex_host ''file.bin''" and ?reach = "proc_reach ex_shm (ex_host ''file.bin'') may None"
  let ?d0 = "\<lparr>gp_instance = None, gp_shm_handle = False, gu_instance_count = 0 :: u32\<rparr>"
  define p1 where "p1 = set_call 9 (Some (0, Init_publish 1)) (put_core 1 (Some ob) (upd_dso 0
     (\<lambda>s. s\<lparr>gu_instance_count := gu_instance_count s + 1\<rparr>) (process_new (None :: nat option))))"
  define p2 where "p2 = set_call 9 None (upd_dso 0 (\<lambda>s. s\<lparr>gp_shm_handle := True, gp_instance := Some 1\<rparr>) (p1\<lparr>pr_shm := Some 1\<rparr>))"
  define p3 where "p3 = set_call 9 None (set_instance 1 (Some 1) p2)"
  define p4 where "p4 = (put_core 1 (Some ((addref ob)\<lparr>ob_writers := writer_attach 5 3 (ob_writers (addref ob))\<rparr>)) p3)
     \<lparr>pr_writer := (pr_writer p3)(5 \<mapsto> (1, 1))\<rparr>"
  have r0: "?reach (process_new None)" by (rule pr_init)
  have "init_begin ex_shm ?ou (Some 1) (Some ex_config) 0 (process_new None) = Some (Init_publish 1,
     put_core 1 (Some ob) (upd_dso 0 (\<lambda>s. s\<lparr>gu_instance_count := gu_instance_count s + 1\<rparr>) (process_new None)))"
    using c by (simp add: init_begin_def process_new_def ex_shm_def Let_def)
  from proc_step.ps_begin [OF _ _ this, of 9 may] have "proc_step ex_shm ?ou may (process_new None) p1"
    by (simp add: process_new_def phase_of_def p1_def)
  then have r1: "?reach p1" by (rule pr_step [OF r0])
  have "init_publish ex_shm ?ou still ex_stop 1 0 p1 = Some (Init_done True,
     upd_dso 0 (\<lambda>s. s\<lparr>gp_shm_handle := True, gp_instance := Some 1\<rparr>) (p1\<lparr>pr_shm := Some 1\<rparr>))"
    by (simp add: init_publish_def p1_def process_new_def ex_shm_def)
  from proc_step.ps_publish [OF _ this, of 9 may] have "proc_step ex_shm ?ou may p1 p2"
    by (simp add: phase_of_def p2_def) (simp add: p1_def)
  then have r2: "?reach p2" by (rule pr_step [OF r1])
  have "init_begin ex_shm ?ou None None 1 p2 = Some (Init_done True, set_instance 1 (Some 1) p2)"
    by (simp add: init_begin_def p2_def p1_def process_new_def ex_shm_def)
  from proc_step.ps_begin [OF _ _ this, of 9 may] have "proc_step ex_shm ?ou may p2 p3"
    by (simp add: phase_of_def p3_def) (simp add: p2_def)
  then have r3: "?reach p3" by (rule pr_step [OF r2])
  have f3: "pr_dso p3 = (\<lambda>_. ?d0)(0 := \<lparr>gp_instance = Some 1, gp_shm_handle = True, gu_instance_count = 1\<rparr>,
       1 := \<lparr>gp_instance = Some 1, gp_shm_handle = False, gu_instance_count = 0\<rparr>)"
    "pr_cores p3 1 = Some ob" "pr_shm p3 = Some 1" "pr_writer p3 = (\<lambda>_. None)"
    by (simp_all add: p3_def p2_def p1_def set_instance_def upd_dso_def process_new_def fun_eq_iff)
  have "writer_start 5 3 1 (Some 1) p3 = Some p4" using f3 by (simp add: writer_start_def p4_def Let_def)
  from proc_step.ps_writer [of p3 5 3 1 p4 ex_shm ?ou may] this f3 have "proc_step ex_shm ?ou may p3 p4" by simp
  then have r4: "?reach p4" by (rule pr_step [OF r3])
  show thesis by (rule that [OF r3 r4]) (use f3 in \<open>simp_all add: p4_def\<close>)
qed

theorem one_live_core_witness:
  "\<exists>p. proc_reach ex_shm (ex_host ''file.bin'') nobody None p \<and> instance_of p 0 = Some 1 \<and> instance_of p 1 = Some 1
     \<and> p8_get_initialized 1 p = Some True \<and> (\<exists>ob. pr_cores p 1 = Some ob \<and> unat (mu_ref_count ob) = 2)"
proof -
  obtain ob f where c: "core_create (ex_host ''file.bin'') ex_config = Some ob" "get_initialized ob"
    by (rule ex_created)
  obtain p q where q: "proc_reach ex_shm (ex_host ''file.bin'') nobody None q"
    and d: "pr_shm q = Some 1" "instance_of q 0 = Some 1" "instance_of q 1 = Some 1" "pr_writer q = [5 \<mapsto> (1, 1)]"
    by (rule ex_two_dsos [OF c, of nobody]) auto
  have "writers_on q 1 = {5}" using d(4) by (auto simp: writers_on_def split: if_splits)
  with one_live_core [OF ex_shm_law q] d have "p8_get_initialized 1 q = Some True"
    "\<exists>ob. pr_cores q 1 = Some ob \<and> unat (mu_ref_count ob) = 2" by fastforce+
  with q d show ?thesis by blast
qed


theorem adopter_release_dangles_witness:
  "\<exists>p p'. proc_reach ex_shm (ex_host ''file.bin'') by_owner None p \<and> p8_get_initialized 0 p = Some True
     \<and> p8_release ex_shm (ex_host ''file.bin'') still ex_stop 1 p = Some p' \<and> p8_get_initialized 0 p' = None"
proof -
  let ?ou = "ex_host ''file.bin''"
  obtain ob f where c: "core_create ?ou ex_config = Some ob" "get_initialized ob"
    by (rule ex_created)
  obtain p q where p: "proc_reach ex_shm ?ou by_owner None p"
    and o: "owns p 0" "\<not> owns p 1" "instance_of p 0 = Some 1" "instance_of p 1 = Some 1"
    and w: "pr_cores p 1 = Some ob" "pr_writer p = (\<lambda>_. None)"
    by (rule ex_two_dsos [OF c, of by_owner]) auto
  have e: "ou_event_init ?ou" by simp
  obtain x where x: "core_destroy ?ou still ex_stop (ob\<lparr>mu_ref_count := 0\<rparr>) = Some x"
    using created_destroyed [OF c e still_ok ex_stop_stops] by blast
  have "mu_ref_count ob = 1" by (rule created_obj(2) [OF c])
  with o w x obtain p' where r: "p8_release ex_shm ?ou still ex_stop 1 p = Some p'"
    by (simp add: p8_release_def release_core_def release_def delete_core_def Let_def)
  have "writers_on p 1 = {}" by (simp add: writers_on_def w)
  from adopter_release_dangles [OF ex_shm_law p refl o(1) _ o(4,3) this r] have "p8_get_initialized 0 p' = None" by simp
  moreover have "p8_get_initialized 0 p = Some True" using o w c by (simp add: p8_get_initialized_def)
  ultimately show ?thesis using p r by blast
qed

end
