(* ===== verification/P8_Layout.thy ===== *)
theory P8_Layout
  imports P8_Catalog P8_Hello
begin

text \<open>
  The layout of the wire structures: the declarations of api/p8_protocol.h as lists of fields with
  their C types, \<open>sizeof\<close>, \<open>alignof\<close> and \<open>offsetof\<close> as an ABI computes them, the compile-time
  assertions of engine/p8_static_checks.cpp as predicates on declarations, and the proof that the
  encoders of P8_Protocol, P8_Hello and P8_Catalog put every field where a compiler puts it.

  What an ABI decides here is one number, the alignment of the 64-bit types: 8 on the 64-bit ABIs and 4
  on the i386 System V ABI. It is an argument.
\<close>

section \<open>Types of C\<close>

datatype ctype = C_uint8 | C_uint16 | C_uint32 | C_uint64 | C_int32 | C_double | C_chars nat
  | C_struct "(string \<times> ctype) list"

type_synonym fields = "(string \<times> ctype) list"

text \<open>The next multiple of an alignment.\<close>

definition pad_to :: "nat \<Rightarrow> nat \<Rightarrow> nat" where
  "pad_to al n = (n + al - 1) div al * al"

fun c_align :: "nat \<Rightarrow> ctype \<Rightarrow> nat" and fields_align :: "nat \<Rightarrow> fields \<Rightarrow> nat" where
  "c_align a C_uint8 = 1" | "c_align a C_uint16 = 2" | "c_align a C_uint32 = 4" | "c_align a C_int32 = 4"
| "c_align a C_uint64 = a" | "c_align a C_double = a" | "c_align a (C_chars n) = 1"
| "c_align a (C_struct fs) = fields_align a fs"
| "fields_align a [] = 1"
| "fields_align a ((f, t) # fs) = max (c_align a t) (fields_align a fs)"

text \<open>\<open>fields_end a off fs\<close>: where the last field ends when the first may start at \<open>off\<close>.\<close>

fun c_size :: "nat \<Rightarrow> ctype \<Rightarrow> nat" and fields_end :: "nat \<Rightarrow> nat \<Rightarrow> fields \<Rightarrow> nat" where
  "c_size a C_uint8 = 1" | "c_size a C_uint16 = 2" | "c_size a C_uint32 = 4" | "c_size a C_int32 = 4"
| "c_size a C_uint64 = 8" | "c_size a C_double = 8" | "c_size a (C_chars n) = n"
| "c_size a (C_struct fs) = pad_to (fields_align a fs) (fields_end a 0 fs)"
| "fields_end a off [] = off"
| "fields_end a off ((f, t) # fs) = fields_end a (pad_to (c_align a t) off + c_size a t) fs"

text \<open>The fields with their offsets.\<close>

fun layout :: "nat \<Rightarrow> nat \<Rightarrow> fields \<Rightarrow> (string \<times> nat) list" where
  "layout a off [] = []"
| "layout a off ((f, t) # fs) = (let o' = pad_to (c_align a t) off in (f, o') # layout a (o' + c_size a t) fs)"

definition offsetof :: "nat \<Rightarrow> fields \<Rightarrow> string \<Rightarrow> nat option" where
  "offsetof a fs f = map_of (layout a 0 fs) f"

abbreviation sizeof :: "nat \<Rightarrow> fields \<Rightarrow> nat" where
  "sizeof a fs \<equiv> c_size a (C_struct fs)"

abbreviation alignof :: "nat \<Rightarrow> fields \<Rightarrow> nat" where
  "alignof a fs \<equiv> c_align a (C_struct fs)"

section \<open>The declarations\<close>

definition decl_s_p8_hdr :: fields where
  "decl_s_p8_hdr = [(''mu_packet_type'', C_uint8), (''mu_protocol_version'', C_uint8), (''mu_is_big_endian'', C_uint8),
     (''mu_padding'', C_uint8), (''mi_utc_sec_offset'', C_int32), (''mu_size'', C_uint32), (''mu_process_id'', C_uint32),
     (''mu_system_time'', C_uint64), (''mu_hires_tick'', C_uint64), (''mu_hires_freq_numer'', C_uint64),
     (''mu_hires_freq_denom'', C_uint64), (''mp_process_name'', C_chars P8_PROCESS_NAME_MAX_LEN),
     (''mp_host_name'', C_chars P8_HOST_NAME_MAX_LEN), (''mu_hash'', C_uint64)]"

definition decl_s_p8_svc_hdr :: fields where
  "decl_s_p8_svc_hdr = [(''mu_packet_type'', C_uint8), (''mu_svc_type'', C_uint8), (''mu_size'', C_uint16)]"

definition decl_s_p8_str_svc :: fields where
  "decl_s_p8_str_svc = [(''ms_hdr'', C_struct decl_s_p8_svc_hdr), (''mu_len'', C_uint16), (''mu_padding'', C_uint16),
     (''mu_hash'', C_uint64)]"

definition decl_s_p8_attr_svc :: fields where
  "decl_s_p8_attr_svc = [(''ms_hdr'', C_struct decl_s_p8_svc_hdr), (''mi_id'', C_int32), (''mu_type'', C_uint8)]"

definition decl_s_p8_log_mod_svc :: fields where
  "decl_s_p8_log_mod_svc = [(''ms_hdr'', C_struct decl_s_p8_svc_hdr), (''mu_id'', C_uint16), (''mu_verb'', C_uint8)]"

definition decl_s_p8_log_item_svc :: fields where
  "decl_s_p8_log_item_svc = [(''ms_hdr'', C_struct decl_s_p8_svc_hdr), (''mu_line'', C_uint32), (''mu_hash'', C_uint64),
     (''mu_format_len'', C_uint16), (''mu_file_len'', C_uint16), (''mu_function_len'', C_uint16), (''mu_args_count'', C_uint8)]"

definition decl_s_p8_batch :: fields where
  "decl_s_p8_batch = [(''mu_packet_type'', C_uint8), (''mu_padding'', C_uint8), (''mu_batch'', C_uint16), (''mu_count'', C_uint32),
     (''mu_timestamp'', C_uint64)]"

definition decl_s_p8_data_buf_hdr :: fields where
  "decl_s_p8_data_buf_hdr = [(''mu_packet_type'', C_uint8), (''mu_flags'', C_uint8), (''mu_size'', C_uint16),
     (''mu_thread_id'', C_uint32), (''mu_writer_id'', C_uint32), (''mu_buf_seq'', C_uint32)]"

definition decl_s_p8_log_varg :: fields where
  "decl_s_p8_log_varg = [(''mu_type'', C_uint8), (''mu_size'', C_uint8)]"

definition decl_s_p8_log_item_dat :: fields where
  "decl_s_p8_log_item_dat = [(''mu_hash'', C_uint64), (''mu_timestamp'', C_uint64), (''mu_trace_id'', C_uint64),
     (''mu_thread_id'', C_uint32), (''mu_level'', C_uint8), (''mu_processor'', C_uint8), (''mu_args_size'', C_uint16),
     (''mu_size'', C_uint16), (''mu_mod_id'', C_uint16), (''mu_attrs_count'', C_uint8), (''mu_flags'', C_uint8)]"

definition decl_s_p8_trc_item_svc :: fields where
  "decl_s_p8_trc_item_svc = [(''ms_hdr'', C_struct decl_s_p8_svc_hdr), (''mu_line'', C_uint32), (''mu_hash'', C_uint64),
     (''mu_file_hash'', C_uint64), (''mu_func_hash'', C_uint64), (''mu_name_hash'', C_uint64)]"

definition decl_s_p8_trc_begin_dat :: fields where
  "decl_s_p8_trc_begin_dat = [(''mu_timestamp'', C_uint64), (''mu_span_id'', C_uint64), (''mu_size'', C_uint16),
     (''mu_type'', C_uint8), (''mu_attrs_count'', C_uint8), (''mu_thread_id'', C_uint32), (''mu_hash'', C_uint64),
     (''mu_parent_id'', C_uint64)]"

definition decl_s_p8_trc_end_dat :: fields where
  "decl_s_p8_trc_end_dat = [(''mu_timestamp'', C_uint64), (''mu_span_id'', C_uint64), (''mu_size'', C_uint16),
     (''mu_type'', C_uint8), (''mu_padding'', C_uint8), (''mu_thread_id'', C_uint32)]"

definition decl_s_p8_mtk_svc :: fields where
  "decl_s_p8_mtk_svc = [(''ms_hdr'', C_struct decl_s_p8_svc_hdr), (''mi_id'', C_int32), (''md_min'', C_double), (''md_max'', C_double),
     (''mu_flags'', C_uint8), (''mu_attrs_count'', C_uint8), (''mu_name_len'', C_uint16), (''mu_desc_len'', C_uint16),
     (''mu_unit_len'', C_uint16)]"

definition decl_s_p8_mtk_item_dat :: fields where
  "decl_s_p8_mtk_item_dat = [(''mu_timestamp'', C_uint64), (''md_value'', C_double), (''mi_id'', C_int32), (''mu_size'', C_uint16),
     (''mu_flags'', C_uint8), (''mu_attrs_count'', C_uint8)]"

text \<open>The declarations of the header, by name.\<close>

definition p8_protocol :: "string \<Rightarrow> fields" where
  "p8_protocol = (\<lambda>_. [])(''s_p8_hdr'' := decl_s_p8_hdr, ''s_p8_svc_hdr'' := decl_s_p8_svc_hdr, ''s_p8_str_svc'' := decl_s_p8_str_svc,
     ''s_p8_attr_svc'' := decl_s_p8_attr_svc, ''s_p8_log_mod_svc'' := decl_s_p8_log_mod_svc,
     ''s_p8_log_item_svc'' := decl_s_p8_log_item_svc, ''s_p8_batch'' := decl_s_p8_batch,
     ''s_p8_data_buf_hdr'' := decl_s_p8_data_buf_hdr, ''s_p8_log_varg'' := decl_s_p8_log_varg,
     ''s_p8_log_item_dat'' := decl_s_p8_log_item_dat, ''s_p8_trc_item_svc'' := decl_s_p8_trc_item_svc,
     ''s_p8_trc_begin_dat'' := decl_s_p8_trc_begin_dat, ''s_p8_trc_end_dat'' := decl_s_p8_trc_end_dat,
     ''s_p8_mtk_svc'' := decl_s_p8_mtk_svc, ''s_p8_mtk_item_dat'' := decl_s_p8_mtk_item_dat)"

section \<open>The assertions\<close>

text \<open>The packet type is the first byte of whatever starts a packet.\<close>

definition P8_ASSERT_PACKET_TYPE_FIRST :: "nat \<Rightarrow> fields \<Rightarrow> bool" where
  "P8_ASSERT_PACKET_TYPE_FIRST a fs \<longleftrightarrow> offsetof a fs ''mu_packet_type'' = Some 0
     \<and> map_option (c_size a) (map_of fs ''mu_packet_type'') = Some 1"

definition packet_type_checks :: "nat \<Rightarrow> (string \<Rightarrow> fields) \<Rightarrow> bool" where
  "packet_type_checks a ds \<longleftrightarrow> (\<forall>s \<in> set [''s_p8_hdr'', ''s_p8_svc_hdr'', ''s_p8_data_buf_hdr'', ''s_p8_batch''].
     P8_ASSERT_PACKET_TYPE_FIRST a (ds s))"

text \<open>Structures laid one behind the other stay aligned.\<close>

definition size_checks :: "nat \<Rightarrow> (string \<Rightarrow> fields) \<Rightarrow> bool" where
  "size_checks a ds \<longleftrightarrow> (\<forall>s \<in> set [''s_p8_hdr'', ''s_p8_data_buf_hdr'', ''s_p8_batch'', ''s_p8_log_item_dat'', ''s_p8_mtk_svc'',
     ''s_p8_mtk_item_dat'']. sizeof a (ds s) mod 8 = 0)"

definition align_checks :: "nat \<Rightarrow> (string \<Rightarrow> fields) \<Rightarrow> bool" where
  "align_checks a ds \<longleftrightarrow> (\<forall>s \<in> set [''s_p8_hdr'', ''s_p8_batch'', ''s_p8_log_item_dat'', ''s_p8_mtk_svc'', ''s_p8_mtk_item_dat''].
     8 \<le> alignof a (ds s))"

text \<open>The size of a structure and the offsets of its fields.\<close>

type_synonym contract = "string \<times> nat \<times> (string \<times> nat) list"

definition keeps_contract :: "nat \<Rightarrow> (string \<Rightarrow> fields) \<Rightarrow> contract \<Rightarrow> bool" where
  "keeps_contract a ds k \<longleftrightarrow> (case k of (s, n, os) \<Rightarrow>
     sizeof a (ds s) = n \<and> (\<forall>(f, o') \<in> set os. offsetof a (ds s) f = Some o'))"

definition contract_s_p8_hdr :: contract where
  "contract_s_p8_hdr = (''s_p8_hdr'', 568,
     [(''mu_packet_type'', 0), (''mu_protocol_version'', 1), (''mu_is_big_endian'', 2), (''mu_padding'', 3),
      (''mi_utc_sec_offset'', 4), (''mu_size'', 8), (''mu_process_id'', 12), (''mu_system_time'', 16),
      (''mu_hires_tick'', 24), (''mu_hires_freq_numer'', 32), (''mu_hires_freq_denom'', 40),
      (''mp_process_name'', 48), (''mp_host_name'', 304), (''mu_hash'', 560)])"

definition contract_s_p8_svc_hdr :: contract where
  "contract_s_p8_svc_hdr = (''s_p8_svc_hdr'', 4,
     [(''mu_packet_type'', 0), (''mu_svc_type'', 1), (''mu_size'', 2)])"

definition contract_s_p8_str_svc :: contract where
  "contract_s_p8_str_svc = (''s_p8_str_svc'', 16,
     [(''ms_hdr'', 0), (''mu_len'', 4), (''mu_padding'', 6), (''mu_hash'', 8)])"

definition contract_s_p8_data_buf_hdr :: contract where
  "contract_s_p8_data_buf_hdr = (''s_p8_data_buf_hdr'', 16,
     [(''mu_packet_type'', 0), (''mu_flags'', 1), (''mu_size'', 2), (''mu_thread_id'', 4), (''mu_writer_id'', 8),
      (''mu_buf_seq'', 12)])"

definition contract_s_p8_batch :: contract where
  "contract_s_p8_batch = (''s_p8_batch'', 16,
     [(''mu_padding'', 1), (''mu_batch'', 2), (''mu_count'', 4), (''mu_timestamp'', 8)])"

definition contract_s_p8_log_varg :: contract where
  "contract_s_p8_log_varg = (''s_p8_log_varg'', 2,
     [(''mu_type'', 0), (''mu_size'', 1)])"

definition contract_s_p8_log_item_svc :: contract where
  "contract_s_p8_log_item_svc = (''s_p8_log_item_svc'', 24,
     [(''ms_hdr'', 0), (''mu_line'', 4), (''mu_hash'', 8), (''mu_format_len'', 16), (''mu_file_len'', 18),
      (''mu_function_len'', 20), (''mu_args_count'', 22)])"

definition contract_s_p8_log_item_dat :: contract where
  "contract_s_p8_log_item_dat = (''s_p8_log_item_dat'', 40,
     [(''mu_hash'', 0), (''mu_timestamp'', 8), (''mu_trace_id'', 16), (''mu_thread_id'', 24), (''mu_level'', 28),
      (''mu_processor'', 29), (''mu_args_size'', 30), (''mu_size'', 32), (''mu_attrs_count'', 36), (''mu_flags'', 37)])"

definition contract_s_p8_trc_item_svc :: contract where
  "contract_s_p8_trc_item_svc = (''s_p8_trc_item_svc'', 40,
     [(''ms_hdr'', 0), (''mu_line'', 4), (''mu_hash'', 8), (''mu_file_hash'', 16), (''mu_func_hash'', 24),
      (''mu_name_hash'', 32)])"

definition contract_s_p8_trc_begin_dat :: contract where
  "contract_s_p8_trc_begin_dat = (''s_p8_trc_begin_dat'', 40,
     [(''mu_timestamp'', 0), (''mu_span_id'', 8), (''mu_size'', 16), (''mu_type'', 18), (''mu_attrs_count'', 19),
      (''mu_thread_id'', 20), (''mu_hash'', 24), (''mu_parent_id'', 32)])"

definition contract_s_p8_trc_end_dat :: contract where
  "contract_s_p8_trc_end_dat = (''s_p8_trc_end_dat'', 24,
     [(''mu_timestamp'', 0), (''mu_span_id'', 8), (''mu_size'', 16), (''mu_type'', 18), (''mu_padding'', 19),
      (''mu_thread_id'', 20)])"

definition contract_s_p8_mtk_svc :: contract where
  "contract_s_p8_mtk_svc = (''s_p8_mtk_svc'', 32,
     [(''ms_hdr'', 0), (''mi_id'', 4), (''md_min'', 8), (''md_max'', 16), (''mu_flags'', 24),
      (''mu_attrs_count'', 25), (''mu_name_len'', 26), (''mu_desc_len'', 28), (''mu_unit_len'', 30)])"

definition contract_s_p8_mtk_item_dat :: contract where
  "contract_s_p8_mtk_item_dat = (''s_p8_mtk_item_dat'', 24,
     [(''mu_timestamp'', 0), (''md_value'', 8), (''mi_id'', 16), (''mu_size'', 20), (''mu_flags'', 22),
      (''mu_attrs_count'', 23)])"

definition contracts :: "contract list" where
  "contracts = [contract_s_p8_hdr, contract_s_p8_svc_hdr, contract_s_p8_str_svc, contract_s_p8_data_buf_hdr,
     contract_s_p8_batch, contract_s_p8_log_varg, contract_s_p8_log_item_svc, contract_s_p8_log_item_dat,
     contract_s_p8_trc_item_svc, contract_s_p8_trc_begin_dat, contract_s_p8_trc_end_dat, contract_s_p8_mtk_svc,
     contract_s_p8_mtk_item_dat]"

text \<open>The enumerators of \<open>e_p8_attr_type\<close> are numbered in their order; the wire codes are the same numbers.\<close>

definition attr_enumerators :: "e_p8_attr_type list" where
  "attr_enumerators = [e_p8_attr_str, e_p8_attr_f64, e_p8_attr_i64, e_p8_attr_u64]"

definition enum_value :: "e_p8_attr_type \<Rightarrow> nat" where
  "enum_value t = length (takeWhile (\<lambda>u. u \<noteq> t) attr_enumerators)"

definition attr_type_checks :: bool where
  "attr_type_checks \<longleftrightarrow> enum_value e_p8_attr_str = unat P8_ATTR_TYPE_STR \<and> enum_value e_p8_attr_f64 = unat P8_ATTR_TYPE_F64
     \<and> enum_value e_p8_attr_i64 = unat P8_ATTR_TYPE_I64 \<and> enum_value e_p8_attr_u64 = unat P8_ATTR_TYPE_U64"

text \<open>The file compiles.\<close>

definition static_checks :: "nat \<Rightarrow> (string \<Rightarrow> fields) \<Rightarrow> bool" where
  "static_checks a ds \<longleftrightarrow> packet_type_checks a ds \<and> size_checks a ds \<and> align_checks a ds
     \<and> (\<forall>k \<in> set contracts. keeps_contract a ds k) \<and> attr_type_checks"

lemmas decl_defs = decl_s_p8_hdr_def decl_s_p8_svc_hdr_def decl_s_p8_str_svc_def decl_s_p8_attr_svc_def decl_s_p8_log_mod_svc_def
  decl_s_p8_log_item_svc_def decl_s_p8_batch_def decl_s_p8_data_buf_hdr_def decl_s_p8_log_varg_def decl_s_p8_log_item_dat_def
  decl_s_p8_trc_item_svc_def decl_s_p8_trc_begin_dat_def decl_s_p8_trc_end_dat_def decl_s_p8_mtk_svc_def decl_s_p8_mtk_item_dat_def

lemmas contract_defs = contract_s_p8_hdr_def contract_s_p8_svc_hdr_def contract_s_p8_str_svc_def contract_s_p8_data_buf_hdr_def
  contract_s_p8_batch_def contract_s_p8_log_varg_def contract_s_p8_log_item_svc_def
  contract_s_p8_log_item_dat_def contract_s_p8_trc_item_svc_def contract_s_p8_trc_begin_dat_def
  contract_s_p8_trc_end_dat_def contract_s_p8_mtk_svc_def contract_s_p8_mtk_item_dat_def

lemma p8_protocol_simps [simp]:
  "p8_protocol ''s_p8_hdr'' = decl_s_p8_hdr" "p8_protocol ''s_p8_svc_hdr'' = decl_s_p8_svc_hdr"
  "p8_protocol ''s_p8_str_svc'' = decl_s_p8_str_svc" "p8_protocol ''s_p8_attr_svc'' = decl_s_p8_attr_svc"
  "p8_protocol ''s_p8_log_mod_svc'' = decl_s_p8_log_mod_svc" "p8_protocol ''s_p8_log_item_svc'' = decl_s_p8_log_item_svc"
  "p8_protocol ''s_p8_batch'' = decl_s_p8_batch" "p8_protocol ''s_p8_data_buf_hdr'' = decl_s_p8_data_buf_hdr"
  "p8_protocol ''s_p8_log_varg'' = decl_s_p8_log_varg" "p8_protocol ''s_p8_log_item_dat'' = decl_s_p8_log_item_dat"
  "p8_protocol ''s_p8_trc_item_svc'' = decl_s_p8_trc_item_svc" "p8_protocol ''s_p8_trc_begin_dat'' = decl_s_p8_trc_begin_dat"
  "p8_protocol ''s_p8_trc_end_dat'' = decl_s_p8_trc_end_dat" "p8_protocol ''s_p8_mtk_svc'' = decl_s_p8_mtk_svc"
  "p8_protocol ''s_p8_mtk_item_dat'' = decl_s_p8_mtk_item_dat"
  by (simp_all add: p8_protocol_def)

lemma contracts_kept_8: "\<forall>k \<in> set contracts. keeps_contract 8 p8_protocol k"
  by code_simp

lemma contracts_kept_4: "\<forall>k \<in> set contracts. keeps_contract 4 p8_protocol k"
  by code_simp

lemma other_checks_8: "packet_type_checks 8 p8_protocol" "size_checks 8 p8_protocol" "align_checks 8 p8_protocol" "attr_type_checks"
  by code_simp+

lemma align_checks_4: "\<not> align_checks 4 p8_protocol"
  by code_simp

text \<open>Two structures of the header are in no assertion: whatever their declaration is, the file compiles.\<close>

lemma unchecked_structures:
  assumes "s = ''s_p8_attr_svc'' \<or> s = ''s_p8_log_mod_svc''"
  shows "static_checks a (ds(s := fs)) = static_checks a ds"
proof -
  have "s \<noteq> fst k" if "k \<in> set contracts" for k using assms that by (auto simp: contracts_def contract_defs)
  then have "keeps_contract a (ds(s := fs)) k = keeps_contract a ds k" if "k \<in> set contracts" for k
    using that by (cases k) (force simp: keeps_contract_def)
  moreover have "packet_type_checks a (ds(s := fs)) = packet_type_checks a ds" "size_checks a (ds(s := fs)) = size_checks a ds"
    "align_checks a (ds(s := fs)) = align_checks a ds"
    using assms by (auto simp: packet_type_checks_def size_checks_def align_checks_def)
  ultimately show ?thesis by (simp add: static_checks_def)
qed

section \<open>Bytes of a structure\<close>

text \<open>The values of the fields, as bytes, each where its offset is; padding in between is zero.\<close>

fun lay :: "nat \<Rightarrow> nat \<Rightarrow> fields \<Rightarrow> byte list list \<Rightarrow> byte list" where
  "lay a off ((f, t) # fs) (v # vs) =
     (let o' = pad_to (c_align a t) off in replicate (o' - off) 0 @ v @ lay a (o' + c_size a t) fs vs)"
| "lay a off _ _ = []"

definition struct_bytes :: "nat \<Rightarrow> fields \<Rightarrow> byte list list \<Rightarrow> byte list" where
  "struct_bytes a fs vs = zpad (sizeof a fs) (lay a 0 fs vs)"

definition fits :: "nat \<Rightarrow> fields \<Rightarrow> byte list list \<Rightarrow> bool" where
  "fits a fs vs \<longleftrightarrow> list_all2 (\<lambda>(f, t) v. length v = c_size a t) fs vs"

lemma pad_to_ge:
  assumes "0 < al"
  shows "n \<le> pad_to al n"
  using assms dividend_less_div_times [of al "n + al - 1"] by (simp add: pad_to_def)

lemma c_align_pos:
  fixes a :: nat
  assumes "0 < a"
  shows "0 < c_align a t" and "0 < fields_align a fs"
  using assms by (induction a t and a fs rule: c_align_fields_align.induct) auto

lemma map_fst_layout [simp]: "map fst (layout a off fs) = map fst fs"
  by (induction fs arbitrary: off) (auto simp: Let_def)

lemma length_layout [simp]: "length (layout a off fs) = length fs"
  by (metis length_map map_fst_layout)

text \<open>Where the layout says a field is, its bytes are.\<close>

lemma lay_field:
  "0 < a \<Longrightarrow> fits a fs vs \<Longrightarrow> i < length fs \<Longrightarrow>
   off \<le> snd (layout a off fs ! i) \<and>
   (\<exists>p q. lay a off fs vs = p @ vs ! i @ q \<and> length p = snd (layout a off fs ! i) - off)"
proof (induction fs arbitrary: off vs i)
  case (Cons x fs)
  obtain f t where x: "x = (f, t)" by fastforce
  obtain v ws where vs: "vs = v # ws" and v: "length v = c_size a t" and ws: "fits a fs ws"
    using Cons.prems(2) by (auto simp: x fits_def list_all2_Cons1)
  let ?o = "pad_to (c_align a t) off"
  have o: "off \<le> ?o" using pad_to_ge c_align_pos(1) Cons.prems(1) by blast
  show ?case
  proof (cases i)
    case 0
    with o v show ?thesis by (simp add: x vs Let_def) (metis length_replicate)
  next
    case (Suc j)
    let ?L = "snd (layout a (?o + c_size a t) fs ! j)"
    obtain p q where ih: "?o + c_size a t \<le> ?L" "lay a (?o + c_size a t) fs ws = p @ ws ! j @ q" "length p = ?L - (?o + c_size a t)"
      using Cons.IH [OF Cons.prems(1) ws, of j "?o + c_size a t"] Cons.prems(3) Suc by auto
    have "length (replicate (?o - off) (0 :: byte) @ v @ p) = ?L - off" using ih o v by simp
    moreover have "lay a off (x # fs) vs = (replicate (?o - off) 0 @ v @ p) @ ws ! j @ q" by (simp add: x vs ih(2) Let_def)
    ultimately have "\<exists>p q. lay a off (x # fs) vs = p @ ws ! j @ q \<and> length p = ?L - off" by blast
    with ih(1) o show ?thesis by (simp add: x vs Suc Let_def)
  qed
qed simp

lemma lay_length: "0 < a \<Longrightarrow> fits a fs vs \<Longrightarrow> off + length (lay a off fs vs) = fields_end a off fs"
proof (induction a off fs vs rule: lay.induct)
  case (1 a off f t fs v vs)
  then have "length v = c_size a t" "fits a fs vs" by (simp_all add: fits_def)
  with 1 pad_to_ge [OF c_align_pos(1) [OF 1(2)], of off t] show ?case by (simp add: Let_def)
qed (auto simp: fits_def)

lemma struct_field:
  assumes "0 < a" and "fits a fs vs" and "i < length fs" and "distinct (map fst fs)" and "fs ! i = (f, t)"
    and "offsetof a fs f = Some o'"
  shows "take (c_size a t) (drop o' (lay a 0 fs vs @ rest)) = vs ! i"
proof -
  obtain p q where pq: "lay a 0 fs vs = p @ vs ! i @ q" "length p = snd (layout a 0 fs ! i)"
    using lay_field [OF assms(1-3), of 0] by auto
  have "fst (layout a 0 fs ! i) = f"
    using assms(3,5) by (metis fst_conv length_layout map_fst_layout nth_map)
  then have "(f, snd (layout a 0 fs ! i)) \<in> set (layout a 0 fs)"
    using assms(3) by (metis length_layout nth_mem prod.collapse)
  with assms(4,6) have "o' = snd (layout a 0 fs ! i)"
    by (metis map_fst_layout map_of_is_SomeI offsetof_def option.inject)
  moreover have "length (vs ! i) = c_size a t"
    using assms(2,3,5) list_all2_nthD [of _ fs vs i] by (fastforce simp: fits_def)
  ultimately show ?thesis using pq by simp
qed

section \<open>The encoders\<close>

text \<open>\<open>placed a s vs bs\<close>: the bytes \<open>bs\<close> hold a structure \<open>s\<close> whose fields have the values \<open>vs\<close>, each as wide as
  its type and at its \<open>offsetof\<close>.\<close>

definition placed :: "nat \<Rightarrow> string \<Rightarrow> byte list list \<Rightarrow> byte list \<Rightarrow> bool" where
  "placed a s vs bs \<longleftrightarrow> fits a (p8_protocol s) vs \<and> fields_end a 0 (p8_protocol s) \<le> length bs
     \<and> (\<forall>i < length vs. \<forall>o'. offsetof a (p8_protocol s) (fst (p8_protocol s ! i)) = Some o'
          \<longrightarrow> take (c_size a (snd (p8_protocol s ! i))) (drop o' bs) = vs ! i)"

lemma placedI:
  assumes "0 < a" and "p8_protocol s = fs" and "distinct (map fst fs)" and "fits a fs vs" and "bs = lay a 0 fs vs @ rest"
  shows "placed a s vs bs"
proof -
  have l: "length vs = length fs" using assms(4) by (simp add: fits_def list_all2_lengthD)
  have "take (c_size a (snd (fs ! i))) (drop o' bs) = vs ! i"
    if "i < length vs" "offsetof a fs (fst (fs ! i)) = Some o'" for i o'
    unfolding assms(5)
    by (rule struct_field [OF assms(1,4) _ assms(3) prod.collapse [symmetric] that(2)]) (use l that in simp)
  with assms lay_length [OF assms(1,4), of 0] show ?thesis by (simp add: placed_def)
qed

lemmas lay_simps = decl_defs fits_def pad_to_def Let_def

lemma data_buf_hdr_placed:
  "a = 4 \<or> a = 8 \<Longrightarrow> placed a ''s_p8_data_buf_hdr'' [[dbh_packet_type h], [dbh_flags h], le16 (dbh_size h), le32 (dbh_thread_id h),
      le32 (dbh_writer_id h), le32 (dbh_buf_seq h)] (enc_dbh h)"
  by (rule placedI [OF _ p8_protocol_simps(8), where rest = "[]"]; elim disjE; simp add: lay_simps enc_dbh_def)

lemma log_item_placed:
    "a = 4 \<or> a = 8 \<Longrightarrow> placed a ''s_p8_log_item_dat'' [le64 (lid_hash l), le64 (lid_timestamp l), le64 (lid_trace_id l), le32 (lid_thread_id l),
      [lid_level l], [lid_processor l], le16 (lid_args_size l), le16 (lid_size l), le16 (lid_mod_id l), [lid_attrs_count l],
      [lid_flags l]] (enc_lid l)"
  by (rule placedI [OF _ p8_protocol_simps(10), where rest = "[]"]; elim disjE; simp add: lay_simps enc_lid_def)

lemma batch_placed:
  "a = 4 \<or> a = 8 \<Longrightarrow> placed a ''s_p8_batch'' [[bat_packet_type b], [bat_padding b], le16 (bat_batch b), le32 (bat_count b), le64 (bat_timestamp b)]
     (enc_bat b)"
  by (rule placedI [OF _ p8_protocol_simps(7), where rest = "[]"]; elim disjE; simp add: lay_simps enc_bat_def)

lemma trc_begin_placed:
  "a = 4 \<or> a = 8 \<Longrightarrow> placed a ''s_p8_trc_begin_dat'' [le64 (tbd_timestamp t), le64 (tbd_span_id t), le16 (tbd_size t), [tbd_type t],
      [tbd_attrs_count t], le32 (tbd_thread_id t), le64 (tbd_hash t), le64 (tbd_parent_id t)]
     (enc_tbd t)"
  by (rule placedI [OF _ p8_protocol_simps(12), where rest = "[]"]; elim disjE; simp add: lay_simps enc_tbd_def)

lemma trc_end_placed:
  "a = 4 \<or> a = 8 \<Longrightarrow> placed a ''s_p8_trc_end_dat'' [le64 (ted_timestamp e), le64 (ted_span_id e), le16 (ted_size e), [ted_type e],
      [ted_padding e], le32 (ted_thread_id e)]
     (enc_ted e)"
  by (rule placedI [OF _ p8_protocol_simps(13), where rest = "[]"]; elim disjE; simp add: lay_simps enc_ted_def)

lemma mtk_item_placed:
  "a = 4 \<or> a = 8 \<Longrightarrow> placed a ''s_p8_mtk_item_dat'' [le64 (mid_timestamp m), le64 (mid_value m), le32 (mid_id m), le16 (mid_size m),
      [mid_flags m], [mid_attrs_count m]]
     (enc_mid m)"
  by (rule placedI [OF _ p8_protocol_simps(15), where rest = "[]"]; elim disjE; simp add: lay_simps enc_mid_def)

lemma svc_hdr_placed:
  "a = 4 \<or> a = 8 \<Longrightarrow> placed a ''s_p8_svc_hdr'' [[svh_packet_type s], [svh_svc_type s], le16 (svh_size s)]
     (enc_svh s)"
  by (rule placedI [OF _ p8_protocol_simps(2), where rest = "[]"]; elim disjE; simp add: lay_simps enc_svh_def)

lemma log_varg_placed:
  "a = 4 \<or> a = 8 \<Longrightarrow> placed a ''s_p8_log_varg'' [[va_mu_type v], [va_mu_size v]]
     (enc_varg v)"
  by (rule placedI [OF _ p8_protocol_simps(9), where rest = "[]"]; elim disjE; simp add: lay_simps enc_varg_def)

lemma hdr_placed:
  assumes "a = 4 \<or> a = 8" and "length (hdr_process_name h) = P8_PROCESS_NAME_MAX_LEN" and "length (hdr_host_name h) = P8_HOST_NAME_MAX_LEN"
  shows "placed a ''s_p8_hdr'' [[hdr_packet_type h], [hdr_protocol_version h], [hdr_is_big_endian h], [hdr_padding h],
      mem32 be (hdr_utc_sec_offset h), mem32 be (hdr_size h), mem32 be (hdr_process_id h), mem64 be (hdr_system_time h),
      mem64 be (hdr_hires_tick h), mem64 be (hdr_hires_freq_numer h), mem64 be (hdr_hires_freq_denom h), hdr_process_name h,
      hdr_host_name h, mem64 be (hdr_hash h)] (enc_hdr be h)"
  using assms(1)
  by (rule disjE; intro placedI [OF _ p8_protocol_simps(1), where rest = "[]"]; simp add: lay_simps enc_hdr_def assms(2,3))

text \<open>Entries of the service stream: the structure, then what follows it.\<close>

lemma entry_length:
  "length (attr_entry d) = align_up_8 (12 + length (svc_str (Some (ad_name d))) + 1)"
  "length (mod_entry md) = align_up_8 (8 + length (svc_str (Some (lm_name md))) + 1)"
  "length (mtk_entry mk blob k) = align_up_8 (32 + length (svc_str (Some (mkd_name mk))) + length (svc_str (mkd_description mk))
     + length (svc_str (mkd_unit mk)) + length blob)"
  "length (log_entry ld) = align_up_8 (24 + length (svc_str (ld_file ld)) + length (svc_str (ld_function ld))
     + length (svc_str (ld_format ld)) + length (take 32 (ld_args ld)) * 2)"
  "length (str_entry ty s h) = align_up_8 (16 + length s)"
  "length (trc_entry h line f g n) = 40"
  unfolding attr_entry_def mod_entry_def mtk_entry_def log_entry_def str_entry_def trc_entry_def Let_def
  by (simp_all add: length_zpad order_trans [OF _ align_up_8_ge] varg.run_width)

lemma svc_hdr_layout: "fields_align a decl_s_p8_svc_hdr = 2" "fields_end a 0 decl_s_p8_svc_hdr = 4"
  by (simp_all add: decl_s_p8_svc_hdr_def pad_to_def)

lemmas entry_simps = decl_s_p8_str_svc_def decl_s_p8_attr_svc_def decl_s_p8_log_mod_svc_def decl_s_p8_log_item_svc_def
  decl_s_p8_trc_item_svc_def decl_s_p8_mtk_svc_def svc_hdr_layout fits_def pad_to_def Let_def

lemma attr_entry_placed:
  assumes "a = 4 \<or> a = 8"
  shows "placed a ''s_p8_attr_svc'' [entry_hdr P8_SVC_TYPE_ATTR (length (attr_entry d)), le32 (ad_id d), [attr_type_code (ad_type d)]]
     (attr_entry d)"
proof -
  have "\<exists>rest. attr_entry d = entry_hdr P8_SVC_TYPE_ATTR (length (attr_entry d)) @ le32 (ad_id d) @ [attr_type_code (ad_type d)] @ rest"
    unfolding entry_length(1) by (simp add: attr_entry_def zpad_def Let_def)
  then obtain rest where "attr_entry d = entry_hdr P8_SVC_TYPE_ATTR (length (attr_entry d)) @ le32 (ad_id d) @ [attr_type_code (ad_type d)] @ rest" ..
  then show ?thesis using assms
    by (intro placedI [OF _ p8_protocol_simps(4), where rest = rest]) (elim disjE; simp add: entry_simps)+
qed

lemma mod_entry_placed:
  assumes "a = 4 \<or> a = 8"
  shows "placed a ''s_p8_log_mod_svc'' [entry_hdr P8_SVC_TYPE_MODULE (length (mod_entry d)), le16 (lm_id d), [word_of_nat (level_code (lm_verbosity d))]]
     (mod_entry d)"
proof -
  have "\<exists>rest. mod_entry d = entry_hdr P8_SVC_TYPE_MODULE (length (mod_entry d)) @ le16 (lm_id d) @
      [word_of_nat (level_code (lm_verbosity d))] @ rest"
    unfolding entry_length(2) by (simp add: mod_entry_def zpad_def Let_def)
  then obtain rest where "mod_entry d = entry_hdr P8_SVC_TYPE_MODULE (length (mod_entry d)) @ le16 (lm_id d) @
      [word_of_nat (level_code (lm_verbosity d))] @ rest" ..
  then show ?thesis using assms
    by (intro placedI [OF _ p8_protocol_simps(5), where rest = rest]) (elim disjE; simp add: entry_simps)+
qed

lemma mtk_entry_placed:
  assumes "a = 4 \<or> a = 8"
  shows "placed a ''s_p8_mtk_svc'' [entry_hdr P8_SVC_TYPE_MTK (length (mtk_entry d blob k)), le32 (mkd_id d), le64 (mkd_min d), le64 (mkd_max d),
      [mkd_flags d], [k], le16 (word_of_nat (length (svc_str (Some (mkd_name d))))),
      le16 (word_of_nat (length (svc_str (mkd_description d)))), le16 (word_of_nat (length (svc_str (mkd_unit d))))]
     (mtk_entry d blob k)"
proof -
  have "\<exists>rest. mtk_entry d blob k = entry_hdr P8_SVC_TYPE_MTK (length (mtk_entry d blob k)) @ le32 (mkd_id d) @ le64 (mkd_min d) @
      le64 (mkd_max d) @ [mkd_flags d] @ [k] @ le16 (word_of_nat (length (svc_str (Some (mkd_name d))))) @
      le16 (word_of_nat (length (svc_str (mkd_description d)))) @ le16 (word_of_nat (length (svc_str (mkd_unit d)))) @ rest"
    unfolding entry_length(3) by (simp add: mtk_entry_def zpad_def Let_def)
  then obtain rest where "mtk_entry d blob k = entry_hdr P8_SVC_TYPE_MTK (length (mtk_entry d blob k)) @ le32 (mkd_id d) @ le64 (mkd_min d) @
      le64 (mkd_max d) @ [mkd_flags d] @ [k] @ le16 (word_of_nat (length (svc_str (Some (mkd_name d))))) @
      le16 (word_of_nat (length (svc_str (mkd_description d)))) @ le16 (word_of_nat (length (svc_str (mkd_unit d)))) @ rest" ..
  then show ?thesis using assms
    by (intro placedI [OF _ p8_protocol_simps(14), where rest = rest]) (elim disjE; simp add: entry_simps)+
qed

lemma log_entry_placed:
  assumes "a = 4 \<or> a = 8"
  shows "placed a ''s_p8_log_item_svc'' [entry_hdr P8_SVC_TYPE_LOG_DESC (length (log_entry d)), le32 (ld_line d), le64 (ld_hash d),
      le16 (word_of_nat (length (svc_str (ld_format d)))), le16 (word_of_nat (length (svc_str (ld_file d)))),
      le16 (word_of_nat (length (svc_str (ld_function d)))), [word_of_nat (length (take 32 (ld_args d)))]]
     (log_entry d)"
proof -
  have "\<exists>rest. log_entry d = entry_hdr P8_SVC_TYPE_LOG_DESC (length (log_entry d)) @ le32 (ld_line d) @ le64 (ld_hash d) @
      le16 (word_of_nat (length (svc_str (ld_format d)))) @ le16 (word_of_nat (length (svc_str (ld_file d)))) @
      le16 (word_of_nat (length (svc_str (ld_function d)))) @ [word_of_nat (length (take 32 (ld_args d)))] @ rest"
    unfolding entry_length(4) by (simp add: log_entry_def zpad_def Let_def)
  then obtain rest where "log_entry d = entry_hdr P8_SVC_TYPE_LOG_DESC (length (log_entry d)) @ le32 (ld_line d) @ le64 (ld_hash d) @
      le16 (word_of_nat (length (svc_str (ld_format d)))) @ le16 (word_of_nat (length (svc_str (ld_file d)))) @
      le16 (word_of_nat (length (svc_str (ld_function d)))) @ [word_of_nat (length (take 32 (ld_args d)))] @ rest" ..
  then show ?thesis using assms
    by (intro placedI [OF _ p8_protocol_simps(6), where rest = rest]) (elim disjE; simp add: entry_simps)+
qed

lemma str_entry_placed:
  assumes "a = 4 \<or> a = 8"
  shows "placed a ''s_p8_str_svc'' [entry_hdr ty (length (str_entry ty s h)), le16 (word_of_nat (length s)), [0, 0], le64 h]
     (str_entry ty s h)"
proof -
  have "\<exists>rest. str_entry ty s h = entry_hdr ty (length (str_entry ty s h)) @ le16 (word_of_nat (length s)) @ [0, 0] @ le64 h @ rest"
    unfolding entry_length(5) by (simp add: str_entry_def zpad_def Let_def)
  then obtain rest where "str_entry ty s h = entry_hdr ty (length (str_entry ty s h)) @ le16 (word_of_nat (length s)) @ [0, 0] @ le64 h @ rest" ..
  then show ?thesis using assms
    by (intro placedI [OF _ p8_protocol_simps(3), where rest = rest]) (elim disjE; simp add: entry_simps)+
qed

lemma trc_entry_placed:
  assumes "a = 4 \<or> a = 8"
  shows "placed a ''s_p8_trc_item_svc'' [entry_hdr P8_SVC_TYPE_TRACE (length (trc_entry h line f g n)), le32 line, le64 h, le64 f, le64 g, le64 n]
     (trc_entry h line f g n)"
proof -
  have "\<exists>rest. trc_entry h line f g n = entry_hdr P8_SVC_TYPE_TRACE (length (trc_entry h line f g n)) @ le32 line @ le64 h @ le64 f @ le64 g @ le64 n @ rest"
    unfolding entry_length(6) by (simp add: trc_entry_def zpad_def Let_def)
  then obtain rest where "trc_entry h line f g n = entry_hdr P8_SVC_TYPE_TRACE (length (trc_entry h line f g n)) @ le32 line @ le64 h @ le64 f @ le64 g @ le64 n @ rest" ..
  then show ?thesis using assms
    by (intro placedI [OF _ p8_protocol_simps(11), where rest = rest]) (elim disjE; simp add: entry_simps)+
qed

text \<open>The sizes that the other theories use.\<close>

lemma sizes_used:
  "sizeof 8 decl_s_p8_data_buf_hdr = sizeof_data_buf_hdr" "sizeof 8 decl_s_p8_batch = sizeof_batch"
  "sizeof 8 decl_s_p8_log_item_dat = sizeof_log_item_dat" "sizeof 8 decl_s_p8_trc_begin_dat = sizeof_trc_begin_dat"
  "sizeof 8 decl_s_p8_trc_end_dat = sizeof_trc_end_dat" "sizeof 8 decl_s_p8_mtk_item_dat = sizeof_mtk_item_dat"
  "sizeof 8 decl_s_p8_hdr = sizeof_hdr" "offsetof 8 decl_s_p8_hdr ''mu_hash'' = Some offsetof_mu_hash"
  "sizeof 8 decl_s_p8_attr_svc = 12" "sizeof 8 decl_s_p8_log_mod_svc = 8"
  by code_simp+


section \<open>Properties\<close>


text \<open>C31 Every structure and every service entry that the model encodes has its fields where the declaration
  puts them: at \<open>offsetof\<close>, as wide as the field's type, whichever alignment 64-bit types have.\<close>
theorem encoders_follow_layout:
  assumes "a = 4 \<or> a = 8" and "length (hdr_process_name h) = P8_PROCESS_NAME_MAX_LEN"
    and "length (hdr_host_name h) = P8_HOST_NAME_MAX_LEN"
  shows "placed a ''s_p8_hdr'' [[hdr_packet_type h], [hdr_protocol_version h], [hdr_is_big_endian h], [hdr_padding h],
      mem32 be (hdr_utc_sec_offset h), mem32 be (hdr_size h), mem32 be (hdr_process_id h), mem64 be (hdr_system_time h),
      mem64 be (hdr_hires_tick h), mem64 be (hdr_hires_freq_numer h), mem64 be (hdr_hires_freq_denom h), hdr_process_name h,
      hdr_host_name h, mem64 be (hdr_hash h)] (enc_hdr be h)
    \<and> placed a ''s_p8_data_buf_hdr'' [[dbh_packet_type x], [dbh_flags x], le16 (dbh_size x), le32 (dbh_thread_id x),
      le32 (dbh_writer_id x), le32 (dbh_buf_seq x)] (enc_dbh x)
    \<and> placed a ''s_p8_batch'' [[bat_packet_type b], [bat_padding b], le16 (bat_batch b), le32 (bat_count b),
      le64 (bat_timestamp b)] (enc_bat b)
    \<and> placed a ''s_p8_log_item_dat'' [le64 (lid_hash l), le64 (lid_timestamp l), le64 (lid_trace_id l), le32 (lid_thread_id l),
      [lid_level l], [lid_processor l], le16 (lid_args_size l), le16 (lid_size l), le16 (lid_mod_id l), [lid_attrs_count l],
      [lid_flags l]] (enc_lid l)
    \<and> placed a ''s_p8_log_varg'' [[va_mu_type v], [va_mu_size v]] (enc_varg v)
    \<and> placed a ''s_p8_trc_begin_dat'' [le64 (tbd_timestamp t), le64 (tbd_span_id t), le16 (tbd_size t), [tbd_type t],
      [tbd_attrs_count t], le32 (tbd_thread_id t), le64 (tbd_hash t), le64 (tbd_parent_id t)] (enc_tbd t)
    \<and> placed a ''s_p8_trc_end_dat'' [le64 (ted_timestamp e), le64 (ted_span_id e), le16 (ted_size e), [ted_type e],
      [ted_padding e], le32 (ted_thread_id e)] (enc_ted e)
    \<and> placed a ''s_p8_mtk_item_dat'' [le64 (mid_timestamp m), le64 (mid_value m), le32 (mid_id m), le16 (mid_size m),
      [mid_flags m], [mid_attrs_count m]] (enc_mid m)
    \<and> placed a ''s_p8_svc_hdr'' [[svh_packet_type s], [svh_svc_type s], le16 (svh_size s)] (enc_svh s)
    \<and> placed a ''s_p8_attr_svc'' [entry_hdr P8_SVC_TYPE_ATTR (length (attr_entry ad)), le32 (ad_id ad),
      [attr_type_code (ad_type ad)]] (attr_entry ad)
    \<and> placed a ''s_p8_log_mod_svc'' [entry_hdr P8_SVC_TYPE_MODULE (length (mod_entry md)), le16 (lm_id md),
      [word_of_nat (level_code (lm_verbosity md))]] (mod_entry md)
    \<and> placed a ''s_p8_mtk_svc'' [entry_hdr P8_SVC_TYPE_MTK (length (mtk_entry mk blob k)), le32 (mkd_id mk), le64 (mkd_min mk),
      le64 (mkd_max mk), [mkd_flags mk], [k], le16 (word_of_nat (length (svc_str (Some (mkd_name mk))))),
      le16 (word_of_nat (length (svc_str (mkd_description mk)))), le16 (word_of_nat (length (svc_str (mkd_unit mk))))]
      (mtk_entry mk blob k)
    \<and> placed a ''s_p8_log_item_svc'' [entry_hdr P8_SVC_TYPE_LOG_DESC (length (log_entry ld)), le32 (ld_line ld), le64 (ld_hash ld),
      le16 (word_of_nat (length (svc_str (ld_format ld)))), le16 (word_of_nat (length (svc_str (ld_file ld)))),
      le16 (word_of_nat (length (svc_str (ld_function ld)))), [word_of_nat (length (take 32 (ld_args ld)))]] (log_entry ld)
    \<and> placed a ''s_p8_str_svc'' [entry_hdr ty (length (str_entry ty str sh)), le16 (word_of_nat (length str)), [0, 0], le64 sh]
      (str_entry ty str sh)
    \<and> placed a ''s_p8_trc_item_svc'' [entry_hdr P8_SVC_TYPE_TRACE (length (trc_entry th line fh gh nh)), le32 line, le64 th,
      le64 fh, le64 gh, le64 nh] (trc_entry th line fh gh nh)"
  by (intro conjI hdr_placed [OF assms] data_buf_hdr_placed [OF assms(1)] batch_placed [OF assms(1)] log_item_placed [OF assms(1)]
      log_varg_placed [OF assms(1)] trc_begin_placed [OF assms(1)] trc_end_placed [OF assms(1)] mtk_item_placed [OF assms(1)]
      svc_hdr_placed [OF assms(1)] attr_entry_placed [OF assms(1)] mod_entry_placed [OF assms(1)] mtk_entry_placed [OF assms(1)]
      log_entry_placed [OF assms(1)] str_entry_placed [OF assms(1)] trc_entry_placed [OF assms(1)])

text \<open>In the packet of a host with ID 7 a receiver finds the ID in the four bytes at \<open>offsetof mu_process_id\<close>.\<close>
theorem encoders_follow_layout_witness:
  "let h = (dec_hdr (replicate sizeof_hdr 0))\<lparr>hdr_process_id := 7\<rparr>
   in \<exists>o'. offsetof 8 decl_s_p8_hdr ''mu_process_id'' = Some o' \<and> take 4 (drop o' (enc_hdr False h)) = [7, 0, 0, 0]"
proof -
  let ?h = "(dec_hdr (replicate sizeof_hdr 0))\<lparr>hdr_process_id := 7\<rparr>"
  have n: "length (hdr_process_name ?h) = P8_PROCESS_NAME_MAX_LEN" "length (hdr_host_name ?h) = P8_HOST_NAME_MAX_LEN"
    by (simp_all add: dec_hdr_def)
  have o: "offsetof 8 decl_s_p8_hdr ''mu_process_id'' = Some 12" by code_simp
  have "placed 8 ''s_p8_hdr'' [[hdr_packet_type ?h], [hdr_protocol_version ?h], [hdr_is_big_endian ?h], [hdr_padding ?h],
      mem32 False (hdr_utc_sec_offset ?h), mem32 False (hdr_size ?h), mem32 False (hdr_process_id ?h), mem64 False (hdr_system_time ?h),
      mem64 False (hdr_hires_tick ?h), mem64 False (hdr_hires_freq_numer ?h), mem64 False (hdr_hires_freq_denom ?h),
      hdr_process_name ?h, hdr_host_name ?h, mem64 False (hdr_hash ?h)] (enc_hdr False ?h)"
    by (rule encoders_follow_layout [THEN conjunct1, OF _ n]) simp
  then have "take (c_size 8 (snd (decl_s_p8_hdr ! 6))) (drop 12 (enc_hdr False ?h)) = mem32 False (hdr_process_id ?h)"
    using o by (auto simp: placed_def decl_s_p8_hdr_def dest: spec [where x = 6])
  then have "take 4 (drop 12 (enc_hdr False ?h)) = le32 7" by (simp add: decl_s_p8_hdr_def)
  moreover have "le32 7 = [7, 0, 0, 0]" by code_simp
  ultimately show ?thesis using o by simp
qed

end
