(* ===== verification/P8_Config.thy ===== *)
theory P8_Config
  imports P8_Setup
begin

text \<open>
  The configuration file reader, engine/p8_config.cpp. The C library is a state (\<open>libc\<close>): the files, the open
  streams and the blocks of the heap, whose bytes have no value (\<open>None\<close>) until they are written; the
  outcomes of the calls that can fail, and what other processes do to the file meanwhile, are an argument
  (\<open>libc_in\<close>). The POSIX branch is modelled; \<open>goto lbl_exit\<close> is a call of \<open>lbl_exit\<close> with the locals it reads.
\<close>

section \<open>The C library\<close>

record libc =
  lc_files :: "cstr \<Rightarrow> byte list option"
  lc_streams :: "nat \<Rightarrow> (byte list \<times> nat) option"
  lc_heap :: "nat \<Rightarrow> byte option list option"

text \<open>The stream and the block that will be given out, if any; whether \<open>fseek\<close> and \<open>ftell\<close> work; what the
  file holds when it is read; after how many bytes reading fails, if it does.\<close>

record libc_in =
  li_fopen :: "nat option"
  li_fseek :: bool
  li_ftell :: bool
  li_malloc :: "nat option"
  li_change :: "byte list \<Rightarrow> byte list"
  li_read_error :: "nat option"

definition LONG_MAX :: int where "LONG_MAX = 2 ^ 63 - 1"

definition c_fopen :: "libc_in \<Rightarrow> cstr \<Rightarrow> libc \<Rightarrow> nat option \<times> libc" where
  "c_fopen io path lc = (case (li_fopen io, lc_files lc path) of
     (Some f, Some cs) \<Rightarrow> (Some f, lc\<lparr>lc_streams := (lc_streams lc)(f \<mapsto> (cs, 0))\<rparr>)
   | _ \<Rightarrow> (None, lc))"

definition c_fseek_end :: "libc_in \<Rightarrow> nat \<Rightarrow> libc \<Rightarrow> bool \<times> libc" where
  "c_fseek_end io f lc = (if li_fseek io
     then (True, lc\<lparr>lc_streams := (lc_streams lc)(f := map_option (\<lambda>(cs, _). (cs, length cs)) (lc_streams lc f))\<rparr>)
     else (False, lc))"

text \<open>A position that a \<open>long\<close> cannot hold is an error.\<close>

definition c_ftell :: "libc_in \<Rightarrow> nat \<Rightarrow> libc \<Rightarrow> int" where
  "c_ftell io f lc = (case lc_streams lc f of
     Some (_, pos) \<Rightarrow> if li_ftell io \<and> int pos \<le> LONG_MAX then int pos else - 1
   | None \<Rightarrow> - 1)"

definition c_rewind :: "nat \<Rightarrow> libc \<Rightarrow> libc" where
  "c_rewind f lc = lc\<lparr>lc_streams := (lc_streams lc)(f := map_option (\<lambda>(cs, _). (cs, 0)) (lc_streams lc f))\<rparr>"

definition c_malloc :: "libc_in \<Rightarrow> nat \<Rightarrow> libc \<Rightarrow> nat option \<times> libc" where
  "c_malloc io n lc = (case li_malloc io of
     Some b \<Rightarrow> (Some b, lc\<lparr>lc_heap := (lc_heap lc)(b \<mapsto> replicate n None)\<rparr>)
   | None \<Rightarrow> (None, lc))"

definition c_free :: "nat \<Rightarrow> libc \<Rightarrow> libc" where
  "c_free b lc = lc\<lparr>lc_heap := (lc_heap lc)(b := None)\<rparr>"

definition c_fclose :: "nat \<Rightarrow> libc \<Rightarrow> libc" where
  "c_fclose f lc = lc\<lparr>lc_streams := (lc_streams lc)(f := None)\<rparr>"

text \<open>Bytes written into a block, from an offset on.\<close>

definition c_store :: "nat \<Rightarrow> nat \<Rightarrow> byte list \<Rightarrow> libc \<Rightarrow> libc" where
  "c_store b off bs lc = lc\<lparr>lc_heap := (lc_heap lc)(b := map_option
     (\<lambda>xs. take off xs @ map Some bs @ drop (off + length bs) xs) (lc_heap lc b))\<rparr>"

text \<open>What \<open>fread\<close> gets: at most the bytes asked for, fewer at the end of the file or after an error.\<close>

definition read_bytes :: "libc_in \<Rightarrow> nat \<Rightarrow> byte list \<Rightarrow> nat \<Rightarrow> byte list" where
  "read_bytes io n cs pos = take (case li_read_error io of None \<Rightarrow> n | Some k \<Rightarrow> min n k) (drop pos (li_change io cs))"

definition c_fread :: "libc_in \<Rightarrow> nat \<Rightarrow> nat \<Rightarrow> nat \<Rightarrow> libc \<Rightarrow> nat \<times> libc" where
  "c_fread io b n f lc = (case lc_streams lc f of
     Some (cs, pos) \<Rightarrow> (let bs = read_bytes io n cs pos
       in (length bs, c_store b 0 bs (lc\<lparr>lc_streams := (lc_streams lc)(f \<mapsto> (li_change io cs, pos + length bs))\<rparr>)))
   | None \<Rightarrow> (0, lc))"

section \<open>Reading the file\<close>

definition lbl_exit :: "nat option \<Rightarrow> nat option \<Rightarrow> bool \<Rightarrow> libc \<Rightarrow> nat option \<times> libc" where
  "lbl_exit lp_file lp_buf lb_error lc =
     (let lc1 = (case lp_file of Some f \<Rightarrow> c_fclose f lc | None \<Rightarrow> lc)
      in case lp_buf of
           Some b \<Rightarrow> if lb_error then (None, c_free b lc1) else (Some b, lc1)
         | None \<Rightarrow> (None, lc1))"

text \<open>The result is the buffer, what \<open>*op_size\<close> holds (\<open>has_size\<close>: there is an \<open>op_size\<close>) and the new state.\<close>

definition p8_config_read_file :: "libc_in \<Rightarrow> cstr option \<Rightarrow> bool \<Rightarrow> libc \<Rightarrow> nat option \<times> nat option \<times> libc" where
  "p8_config_read_file io ip_path has_size lc =
     (let size = (\<lambda>n. if has_size then Some n else None);
          fail = (\<lambda>lp_file lp_buf s. case lbl_exit lp_file lp_buf True s of (r, s') \<Rightarrow> (r, size (0 :: nat), s'))
      in case ip_path of
        None \<Rightarrow> fail None None lc
      | Some path \<Rightarrow> (case c_fopen io path lc of
          (None, lc1) \<Rightarrow> fail None None lc1
        | (Some lp_file, lc1) \<Rightarrow> (case c_fseek_end io lp_file lc1 of
            (False, lc2) \<Rightarrow> fail (Some lp_file) None lc2
          | (True, lc2) \<Rightarrow>
              let li_pos = c_ftell io lp_file lc2 in
              if li_pos < 0 then fail (Some lp_file) None lc2
              else let lc3 = c_rewind lp_file lc2; lz_size = nat li_pos in
                (case c_malloc io (lz_size + 1) lc3 of
                  (None, lc4) \<Rightarrow> fail (Some lp_file) None lc4
                | (Some lp_buf, lc4) \<Rightarrow> (case c_fread io lp_buf lz_size lp_file lc4 of (lz_read, lc5) \<Rightarrow>
                    if lz_read \<noteq> lz_size then fail (Some lp_file) (Some lp_buf) lc5
                    else (case lbl_exit (Some lp_file) (Some lp_buf) False (c_store lp_buf lz_size [0] lc5) of
                      (r, lc6) \<Rightarrow> (r, size lz_size, lc6)))))))"

text \<open>The C string in a block: its bytes up to the first zero.\<close>

definition c_string :: "byte option list \<Rightarrow> cstr" where
  "c_string xs = takeWhile (\<lambda>b. b \<noteq> 0) (map the xs)"

section \<open>What it does\<close>

text \<open>The block and the bytes of a file that can be read.\<close>

definition config_readable :: "libc_in \<Rightarrow> cstr option \<Rightarrow> libc \<Rightarrow> (nat \<times> byte list) option" where
  "config_readable io ip_path lc = do {
     path \<leftarrow> ip_path;
     cs \<leftarrow> lc_files lc path;
     f \<leftarrow> li_fopen io;
     b \<leftarrow> li_malloc io;
     let bs = read_bytes io (length cs) cs 0;
     if li_fseek io \<and> li_ftell io \<and> int (length cs) \<le> LONG_MAX \<and> length bs = length cs then Some (b, bs) else None
   }"

definition fresh_for :: "libc_in \<Rightarrow> libc \<Rightarrow> bool" where
  "fresh_for io lc \<longleftrightarrow> (\<forall>f. li_fopen io = Some f \<longrightarrow> lc_streams lc f = None) \<and> (\<forall>b. li_malloc io = Some b \<longrightarrow> lc_heap lc b = None)"

lemma store_block:
  "lc_heap lc b = Some xs \<Longrightarrow> c_store b off bs lc = lc\<lparr>lc_heap := (lc_heap lc)(b \<mapsto> take off xs @ map Some bs @ drop (off + length bs) xs)\<rparr>"
  by (simp add: c_store_def)

lemma read_bytes_le: "length (read_bytes io n cs pos) \<le> n"
  by (auto simp: read_bytes_def split: option.splits)

text \<open>Reading, once the file is open, measured and the block there.\<close>

lemma read_and_close:
  assumes "lc_streams lc f = None" and "lc_heap lc b = None" and "bs = read_bytes io (length cs) cs 0"
  shows "c_fread io b (length cs) f (lc\<lparr>lc_streams := (lc_streams lc)(f \<mapsto> (cs, 0)), lc_heap := (lc_heap lc)(b \<mapsto> replicate (length cs + 1) None)\<rparr>)
    = (length bs, lc\<lparr>lc_streams := (lc_streams lc)(f \<mapsto> (li_change io cs, length bs)),
        lc_heap := (lc_heap lc)(b \<mapsto> map Some bs @ replicate (length cs + 1 - length bs) None)\<rparr>)"
  using assms read_bytes_le [of io "length cs" cs 0] by (simp add: c_fread_def c_store_def Let_def del: replicate_Suc)

lemma config_read_file_result:
  assumes "fresh_for io lc"
  shows "p8_config_read_file io ip_path has_size lc = (case config_readable io ip_path lc of
      None \<Rightarrow> (None, if has_size then Some 0 else None, lc)
    | Some (b, bs) \<Rightarrow> (Some b, if has_size then Some (length bs) else None,
        lc\<lparr>lc_heap := (lc_heap lc)(b \<mapsto> map Some bs @ [Some 0])\<rparr>))"
proof (cases "\<exists>path cs f. ip_path = Some path \<and> lc_files lc path = Some cs \<and> li_fopen io = Some f \<and> li_fseek io")
  case True
  then obtain path cs f where p: "ip_path = Some path" "lc_files lc path = Some cs" "li_fopen io = Some f" "li_fseek io" by blast
  have f: "lc_streams lc f = None" using assms p by (simp add: fresh_for_def)
  then have u: "(lc_streams lc)(f := None) = lc_streams lc" by auto
  define bs where "bs = read_bytes io (length cs) cs 0"
  show ?thesis
  proof (cases "li_ftell io \<and> int (length cs) \<le> LONG_MAX \<and> li_malloc io \<noteq> None")
    case True
    then obtain b where b: "li_malloc io = Some b" by auto
    then have h: "lc_heap lc b = None" using assms by (simp add: fresh_for_def)
    then have v: "(lc_heap lc)(b := None) = lc_heap lc" by auto
    show ?thesis using p True b u v read_and_close [OF f h bs_def]
      by (auto simp: p8_config_read_file_def config_readable_def c_fopen_def c_fseek_end_def c_ftell_def c_rewind_def c_malloc_def
          c_free_def c_fclose_def lbl_exit_def c_store_def Let_def bs_def [symmetric])
  next
    case False
    with p u show ?thesis
      by (auto simp: p8_config_read_file_def config_readable_def c_fopen_def c_fseek_end_def c_ftell_def c_rewind_def c_malloc_def
          c_fclose_def lbl_exit_def Let_def)
  qed
next
  case False
  show ?thesis
  proof (cases "\<exists>path cs f. ip_path = Some path \<and> lc_files lc path = Some cs \<and> li_fopen io = Some f")
    case True
    then obtain path cs f where p: "ip_path = Some path" "lc_files lc path = Some cs" "li_fopen io = Some f" by blast
    then have "(lc_streams lc)(f := None) = lc_streams lc" using assms by (auto simp: fresh_for_def)
    with False p show ?thesis
      by (auto simp: p8_config_read_file_def config_readable_def c_fopen_def c_fseek_end_def c_fclose_def lbl_exit_def Let_def)
  next
    case none: False
    then have "c_fopen io path lc = (None, lc)" if "ip_path = Some path" for path
      using that by (auto simp: c_fopen_def split: option.splits)
    moreover have "config_readable io ip_path lc = None" using none
      by (auto simp: config_readable_def Let_def split: bind_splits)
    ultimately show ?thesis by (auto simp: p8_config_read_file_def lbl_exit_def Let_def split: option.splits)
  qed
qed

section \<open>Property\<close>

text \<open>C32 Reading the configuration file either gives a block with all its bytes and a terminating zero, and
  its size, or fails: it fails for a null path, a file that cannot be opened, measured or read in
  full, or too little memory. Either way no stream stays open; a failure leaves nothing behind on the heap and the
  size 0, a success exactly the block returned, with every byte of it written. As a C string, which is what
  \<open>mp_json_config\<close> is, the block ends at the first zero of the file.\<close>
theorem config_read_file_outcome:
  assumes "fresh_for io lc"
  shows "p8_config_read_file io ip_path has_size lc = (case config_readable io ip_path lc of
      None \<Rightarrow> (None, if has_size then Some 0 else None, lc)
    | Some (b, bs) \<Rightarrow> (Some b, if has_size then Some (length bs) else None,
        lc\<lparr>lc_heap := (lc_heap lc)(b \<mapsto> map Some bs @ [Some 0])\<rparr>))
    \<and> c_string (map Some bs @ [Some 0]) = takeWhile (\<lambda>x. x \<noteq> 0) bs"
proof -
  have "takeWhile (\<lambda>x. x \<noteq> 0) (bs @ [0]) = takeWhile (\<lambda>x. x \<noteq> 0) bs" by (induction bs) auto
  then show ?thesis using config_read_file_result [OF assms] by (simp add: c_string_def o_def)
qed

text \<open>A file of three bytes, one of them zero, is read whole; when it is one byte shorter by the time it is
  read, reading fails and everything is as before.\<close>
theorem config_read_file_outcome_witness:
  "let lc = \<lparr>lc_files = [[47] \<mapsto> [65, 0, 66]], lc_streams = Map.empty, lc_heap = Map.empty\<rparr>;
       io = \<lparr>li_fopen = Some 3, li_fseek = True, li_ftell = True, li_malloc = Some 8, li_change = (\<lambda>cs. cs), li_read_error = None\<rparr>
   in p8_config_read_file io (Some [47]) True lc = (Some 8, Some 3, lc\<lparr>lc_heap := [8 \<mapsto> [Some 65, Some 0, Some 66, Some 0]]\<rparr>)
      \<and> c_string [Some 65, Some 0, Some 66, Some 0] = [65]
      \<and> p8_config_read_file (io\<lparr>li_change := butlast\<rparr>) (Some [47]) True lc = (None, Some 0, lc)"
proof -
  let ?lc = "\<lparr>lc_files = [[47] \<mapsto> [65, 0, 66]], lc_streams = Map.empty, lc_heap = Map.empty\<rparr> :: libc"
  let ?io = "\<lparr>li_fopen = Some 3, li_fseek = True, li_ftell = True, li_malloc = Some 8, li_change = (\<lambda>cs. cs), li_read_error = None\<rparr>"
  have 1: "config_readable ?io (Some [47]) ?lc = Some (8, [65, 0, 66])"
    by (simp add: config_readable_def read_bytes_def LONG_MAX_def)
  have 2: "config_readable (?io\<lparr>li_change := butlast\<rparr>) (Some [47]) ?lc = None"
    by (simp add: config_readable_def read_bytes_def)
  have "fresh_for ?io ?lc" "fresh_for (?io\<lparr>li_change := butlast\<rparr>) ?lc" by (simp_all add: fresh_for_def)
  note r = this [THEN config_read_file_outcome, where has_size = True and ip_path = "Some [47]" and bs = "[65, 0, 66]", unfolded 1 2]
  show ?thesis unfolding Let_def using r by simp
qed

end
