(* ===== verification/P8_Client.thy ===== *)
theory P8_Client
  imports P8_Journey P8_Process_Steps
begin

text \<open>
  The interface a program sees: the C functions at the end of engine/p8_log.cpp, engine/p8_mtk.cpp and
  engine/p8_trc.cpp, and what api/p8_client_api.h puts on top of them (the guards \<open>cp8_thread\<close> and \<open>cp8_trace\<close>, the
  checks and the span macros).

  Each function works on the calling thread's writer of its kind. The writer is a \<open>thread_local\<close> variable inside a
  function of the DSO: it is made by the first call that gets there and finds a core then or never, and it is
  destroyed when the thread exits, those made last first.
\<close>

section \<open>The state\<close>

datatype writer_kind = Kind_log | Kind_mtk | Kind_trc

text \<open>The process; the address of each thread's, DSO's and kind's variable in thread-local storage; which of a
  thread's variables have been constructed, in order; and of log and trace writers what is not in \<open>tls_writer\<close>.\<close>

record ('f, 'm) client =
  cl_process :: "('f, 'm) process"
  cl_addr :: "nat \<Rightarrow> nat \<Rightarrow> writer_kind \<Rightarrow> nat"
  cl_made :: "nat \<Rightarrow> (nat \<times> writer_kind) list"
  cl_descs :: "nat \<Rightarrow> u64 \<rightharpoonup> s_p8_log_desc"
  cl_trc :: "nat \<Rightarrow> trc_writer"

text \<open>What a call meets: shared memory and its changes while the caller sleeps, hashes, other threads,
  whether memory can be had, the clock.\<close>

record 'm client_in =
  ci_shm :: "'m shm_ops"
  ci_drift :: "nat \<Rightarrow> 'm \<Rightarrow> 'm"
  ci_thread_hash :: "nat \<Rightarrow> u32"
  ci_xxh :: "byte list \<Rightarrow> u64"
  ci_xxh_seed :: "cstr \<Rightarrow> u32 \<Rightarrow> u64"
  ci_env :: interference
  ci_self :: nat
  ci_alloc :: bool
  ci_ticks :: u64

section \<open>The writer of the calling thread\<close>

text \<open>The state with the variable at \<open>w\<close> constructed.\<close>

definition new_tls :: "'m client_in \<Rightarrow> nat \<Rightarrow> nat \<Rightarrow> writer_kind \<Rightarrow> bool \<Rightarrow> ('f, 'm) process \<Rightarrow> ('f, 'm) client \<Rightarrow> ('f, 'm) client" where
  "new_tls ci t d k has_core p cl = (let w = cl_addr cl t d k in
     cl\<lparr>cl_process := p, cl_made := (cl_made cl)(t := cl_made cl t @ [(d, k)]), cl_descs := (cl_descs cl)(w := Map.empty),
        cl_trc := (cl_trc cl)(w := trc_create (tls_writer_create has_core (ci_thread_hash ci t) 0))\<rparr>)"

definition get_tls :: "'m client_in \<Rightarrow> nat \<Rightarrow> nat \<Rightarrow> writer_kind \<Rightarrow> ('f, 'm) client \<Rightarrow> (nat \<times> ('f, 'm) client) option" where
  "get_tls ci t d k cl = (let w = cl_addr cl t d k in
     if (d, k) \<in> set (cl_made cl t) then Some (w, cl)
     else do {
       (found, p1) \<leftarrow> get_global_core (ci_shm ci) (ci_drift ci) P8_CORE_ACQUIRE_TIMEOUT_MS d (cl_process cl);
       p2 \<leftarrow> writer_start w (ci_thread_hash ci t) d found p1;
       Some (w, new_tls ci t d k (found \<noteq> None) p2 cl)
     })"

abbreviation (input) get_tls_log :: "'m client_in \<Rightarrow> nat \<Rightarrow> nat \<Rightarrow> ('f, 'm) client \<Rightarrow> (nat \<times> ('f, 'm) client) option" where
  "get_tls_log ci t d \<equiv> get_tls ci t d Kind_log"
abbreviation (input) get_tls_mtk :: "'m client_in \<Rightarrow> nat \<Rightarrow> nat \<Rightarrow> ('f, 'm) client \<Rightarrow> (nat \<times> ('f, 'm) client) option" where
  "get_tls_mtk ci t d \<equiv> get_tls ci t d Kind_mtk"
abbreviation (input) get_tls_trc :: "'m client_in \<Rightarrow> nat \<Rightarrow> nat \<Rightarrow> ('f, 'm) client \<Rightarrow> (nat \<times> ('f, 'm) client) option" where
  "get_tls_trc ci t d \<equiv> get_tls ci t d Kind_trc"

text \<open>A member function of the writer \<open>w\<close>: \<open>r0\<close> is its result when the writer has no core; otherwise \<open>f\<close> works on
  the writer and the core.\<close>

definition on_writer :: "nat \<Rightarrow> 'r \<Rightarrow> (tls_writer \<Rightarrow> core \<Rightarrow> ('r \<times> tls_writer \<times> core) option)
    \<Rightarrow> ('f, 'm) process \<Rightarrow> ('r \<times> ('f, 'm) process) option" where
  "on_writer w r0 f p = (case pr_writer p w of
     None \<Rightarrow> Some (r0, p)
   | Some (_, a) \<Rightarrow> do {
       ob \<leftarrow> pr_cores p a;
       (r, w1, c1) \<leftarrow> f (wn_writer (wl_node (ob_writers ob) w)) (ob_core ob);
       Some (r, put_core a (Some (after_call w w1 c1 ob)) p)
     })"

section \<open>Logs\<close>

text \<open>A module handle points into the core that registered the module, which need not be the writer's.\<close>

type_synonym p_p8_module = "(nat \<times> nat) option"

definition module_gate :: "nat \<times> nat \<Rightarrow> ('f, 'm) process \<Rightarrow> (e_p8_level \<times> u16) option" where
  "module_gate h p = (case h of (a, m) \<Rightarrow> do {
     ob \<leftarrow> pr_cores p a;
     if m < length (mo_log_mods (ob_core ob))
     then Some (lm_verbosity (mo_log_mods (ob_core ob) ! m), lm_id (mo_log_mods (ob_core ob) ! m)) else None
   })"

text \<open>\<open>cp8_log::send\<close> of the writer \<open>w\<close>.\<close>

definition client_send :: "'m client_in \<Rightarrow> e_p8_level \<Rightarrow> p_p8_module \<Rightarrow> u64 \<Rightarrow> u32 \<Rightarrow> cstr option \<Rightarrow> cstr option
    \<Rightarrow> s_p8_attr_val list option \<Rightarrow> cstr option \<Rightarrow> va_arg list \<Rightarrow> nat \<Rightarrow> ('f, 'm) client \<Rightarrow> (bool \<times> ('f, 'm) client) option" where
  "client_send ci ie_level ip_module iu_trace_id iu_line ip_file ip_function ip_attrs ip_format args w cl = do {
     gate \<leftarrow> (case ip_module of None \<Rightarrow> Some None | Some h \<Rightarrow> map_option Some (module_gate h (cl_process cl)));
     ((ok, m), p) \<leftarrow> on_writer w (False, cl_descs cl w) (\<lambda>b c. do {
        (le_min, lu_mod_id) \<leftarrow> (case gate of None \<Rightarrow> log_gate None b c | Some g \<Rightarrow> Some g);
        (ok, lw, c1) \<leftarrow> log_gated (ci_xxh_seed ci) (ci_env ci) (ci_self ci) (ci_alloc ci) (ci_ticks ci) ie_level le_min lu_mod_id
          iu_trace_id iu_line ip_file ip_function ip_attrs ip_format args \<lparr>lg_base = b, mo_desc_map = cl_descs cl w\<rparr> c;
        Some ((ok, mo_desc_map lw), lg_base lw, c1)
      }) (cl_process cl);
     Some (ok, cl\<lparr>cl_process := p, cl_descs := (cl_descs cl)(w := m)\<rparr>)
   }"

definition p8_log_sent :: "'m client_in \<Rightarrow> nat \<Rightarrow> nat \<Rightarrow> e_p8_level \<Rightarrow> p_p8_module \<Rightarrow> u64 \<Rightarrow> u32 \<Rightarrow> cstr option \<Rightarrow> cstr option
    \<Rightarrow> s_p8_attr_val list option \<Rightarrow> cstr option \<Rightarrow> va_arg list \<Rightarrow> ('f, 'm) client \<Rightarrow> (bool \<times> ('f, 'm) client) option" where
  "p8_log_sent ci t d ie_level ip_module iu_trace_id iu_line ip_file ip_function ip_attrs ip_format args cl = do {
     (w, cl1) \<leftarrow> get_tls_log ci t d cl;
     client_send ci ie_level ip_module iu_trace_id iu_line ip_file ip_function ip_attrs ip_format args w cl1
   }"

text \<open>The arguments are behind a pointer, which is not checked.\<close>

definition p8_log_sent_emb :: "'m client_in \<Rightarrow> nat \<Rightarrow> nat \<Rightarrow> e_p8_level \<Rightarrow> p_p8_module \<Rightarrow> u64 \<Rightarrow> u32 \<Rightarrow> cstr option \<Rightarrow> cstr option
    \<Rightarrow> s_p8_attr_val list option \<Rightarrow> cstr option \<Rightarrow> va_arg list option \<Rightarrow> ('f, 'm) client \<Rightarrow> (bool \<times> ('f, 'm) client) option" where
  "p8_log_sent_emb ci t d ie_level ip_module iu_trace_id iu_line ip_file ip_function ip_attrs ip_format ip_va_list cl = do {
     (w, cl1) \<leftarrow> get_tls_log ci t d cl;
     args \<leftarrow> ip_va_list;
     client_send ci ie_level ip_module iu_trace_id iu_line ip_file ip_function ip_attrs ip_format args w cl1
   }"

section \<open>Metrics\<close>

definition client_process :: "('r \<times> ('f, 'm) process) option \<Rightarrow> ('f, 'm) client \<Rightarrow> ('r \<times> ('f, 'm) client) option" where
  "client_process x cl = map_option (\<lambda>(r, p). (r, cl\<lparr>cl_process := p\<rparr>)) x"

definition p8_mtk_create :: "'m client_in \<Rightarrow> mtk_alloc \<Rightarrow> nat \<Rightarrow> nat \<Rightarrow> s_p8_mtk_base option \<Rightarrow> ('f, 'm) client
    \<Rightarrow> (i32 \<times> ('f, 'm) client) option" where
  "p8_mtk_create ci al t d ip_base cl = do {
     (w, cl1) \<leftarrow> get_tls_mtk ci t d cl;
     client_process (on_writer w P8_MTK_ERROR_NOT_INITIALIZED (\<lambda>b c. map_option (\<lambda>(r, c1). (r, b, c1)) (register_mtk al ip_base c))
       (cl_process cl1)) cl1
   }"

definition p8_mtk_emit :: "'m client_in \<Rightarrow> nat \<Rightarrow> nat \<Rightarrow> i32 \<Rightarrow> u64 \<Rightarrow> ('f, 'm) client \<Rightarrow> (bool \<times> ('f, 'm) client) option" where
  "p8_mtk_emit ci t d ih_id id_value cl = do {
     (w, cl1) \<leftarrow> get_tls_mtk ci t d cl;
     client_process (on_writer w False (\<lambda>b c. mtk_emit (ci_env ci) (ci_self ci) ih_id id_value (ci_ticks ci) b c) (cl_process cl1)) cl1
   }"

text \<open>The functions behind these are not implemented; the call makes the thread's writer all the same.\<close>

definition p8_mtk_create_query :: "'m client_in \<Rightarrow> nat \<Rightarrow> nat \<Rightarrow> s_p8_mtk_base option \<Rightarrow> u32 \<Rightarrow> ('f, 'm) client \<Rightarrow> (i32 \<times> ('f, 'm) client) option" where
  "p8_mtk_create_query ci t d ip_base iu_query_interval_ms cl = map_option (\<lambda>(w, cl1). (mtk_create_query, cl1)) (get_tls_mtk ci t d cl)"

definition p8_mtk_create_group :: "'m client_in \<Rightarrow> nat \<Rightarrow> nat \<Rightarrow> s_p8_mtk_base option \<Rightarrow> bool \<Rightarrow> ('f, 'm) client \<Rightarrow> (16 word \<times> ('f, 'm) client) option" where
  "p8_mtk_create_group ci t d ip_base ib_multi_thread cl = map_option (\<lambda>(w, cl1). (mtk_create_group, cl1)) (get_tls_mtk ci t d cl)"

definition p8_mtk_create_group_query :: "'m client_in \<Rightarrow> nat \<Rightarrow> nat \<Rightarrow> s_p8_mtk_base option \<Rightarrow> u32 \<Rightarrow> ('f, 'm) client \<Rightarrow> (16 word \<times> ('f, 'm) client) option" where
  "p8_mtk_create_group_query ci t d ip_base iu_query_interval_ms cl = map_option (\<lambda>(w, cl1). (mtk_create_group_query, cl1)) (get_tls_mtk ci t d cl)"

definition p8_mtk_group_emit_begin :: "'m client_in \<Rightarrow> nat \<Rightarrow> nat \<Rightarrow> 16 word \<Rightarrow> ('f, 'm) client \<Rightarrow> (bool \<times> ('f, 'm) client) option" where
  "p8_mtk_group_emit_begin ci t d ih_group_id cl = map_option (\<lambda>(w, cl1). (mtk_begin_group_emit, cl1)) (get_tls_mtk ci t d cl)"

definition p8_mtk_group_emit :: "'m client_in \<Rightarrow> nat \<Rightarrow> nat \<Rightarrow> cstr option \<Rightarrow> u64 \<Rightarrow> ('f, 'm) client \<Rightarrow> (bool \<times> ('f, 'm) client) option" where
  "p8_mtk_group_emit ci t d ip_name id_value cl = map_option (\<lambda>(w, cl1). (mtk_emit_group, cl1)) (get_tls_mtk ci t d cl)"

definition p8_mtk_group_emit_end :: "'m client_in \<Rightarrow> nat \<Rightarrow> nat \<Rightarrow> 16 word \<Rightarrow> ('f, 'm) client \<Rightarrow> (bool \<times> ('f, 'm) client) option" where
  "p8_mtk_group_emit_end ci t d ih_group_id cl = map_option (\<lambda>(w, cl1). (mtk_end_group_emit, cl1)) (get_tls_mtk ci t d cl)"

section \<open>Spans\<close>

definition on_trc :: "nat \<Rightarrow> 'r \<Rightarrow> (trc_writer \<Rightarrow> core \<Rightarrow> ('r \<times> trc_writer \<times> core) option) \<Rightarrow> ('f, 'm) client \<Rightarrow> ('r \<times> ('f, 'm) client) option" where
  "on_trc w r0 f cl = do {
     ((r, tw), p) \<leftarrow> on_writer w (r0, cl_trc cl w) (\<lambda>b c. map_option (\<lambda>(r, tw, c1). ((r, tw), tc_base tw, c1))
        (f ((cl_trc cl w)\<lparr>tc_base := b\<rparr>) c)) (cl_process cl);
     Some (r, cl\<lparr>cl_process := p, cl_trc := (cl_trc cl)(w := tw)\<rparr>)
   }"

definition p8_trc_begin :: "'m client_in \<Rightarrow> nat \<Rightarrow> nat \<Rightarrow> cstr option \<Rightarrow> u32 \<Rightarrow> cstr option \<Rightarrow> cstr option \<Rightarrow> s_p8_attr_val list option
    \<Rightarrow> ('f, 'm) client \<Rightarrow> (u64 \<times> ('f, 'm) client) option" where
  "p8_trc_begin ci t d ip_name iu_line ip_file ip_function ip_attrs cl = do {
     (w, cl1) \<leftarrow> get_tls_trc ci t d cl;
     on_trc w P8_INVALID_SPAN (trc_begin (ci_xxh ci) (ci_xxh_seed ci) (ci_env ci) (ci_self ci) (ci_ticks ci) ip_name iu_line
       ip_file ip_function ip_attrs) cl1
   }"

definition p8_trc_begin_async :: "'m client_in \<Rightarrow> nat \<Rightarrow> nat \<Rightarrow> u64 \<Rightarrow> cstr option \<Rightarrow> u32 \<Rightarrow> cstr option \<Rightarrow> cstr option
    \<Rightarrow> s_p8_attr_val list option \<Rightarrow> ('f, 'm) client \<Rightarrow> (u64 \<times> ('f, 'm) client) option" where
  "p8_trc_begin_async ci t d iu_parent_id ip_name iu_line ip_file ip_function ip_attrs cl = do {
     (w, cl1) \<leftarrow> get_tls_trc ci t d cl;
     on_trc w P8_INVALID_SPAN (trc_begin_async (ci_xxh ci) (ci_xxh_seed ci) (ci_env ci) (ci_self ci) (ci_ticks ci) iu_parent_id
       ip_name iu_line ip_file ip_function ip_attrs) cl1
   }"

text \<open>The check comes first, so a thread that never traced gets no writer here.\<close>

definition p8_trc_end :: "'m client_in \<Rightarrow> nat \<Rightarrow> nat \<Rightarrow> u64 \<Rightarrow> ('f, 'm) client \<Rightarrow> ('f, 'm) client option" where
  "p8_trc_end ci t d iu_span_id cl =
     (if P8_INVALID_SPAN \<noteq> iu_span_id then do {
        (w, cl1) \<leftarrow> get_tls_trc ci t d cl;
        map_option snd (on_trc w () (\<lambda>tw c. map_option (Pair ()) (trc_end (ci_env ci) (ci_self ci) (ci_ticks ci) iu_span_id tw c)) cl1)
      }
      else Some cl)"

section \<open>A thread exits\<close>

definition end_writers :: "'f outside \<Rightarrow> engine_interference \<Rightarrow> worker_in list \<Rightarrow> nat list \<Rightarrow> ('f, 'm) process \<Rightarrow> ('f, 'm) process option" where
  "end_writers ou env is ws p = foldl (\<lambda>x w. Option.bind x (writer_end ou env is w)) (Some p) ws"

definition thread_exit :: "'f outside \<Rightarrow> engine_interference \<Rightarrow> worker_in list \<Rightarrow> nat \<Rightarrow> ('f, 'm) client \<Rightarrow> ('f, 'm) client option" where
  "thread_exit ou env is t cl = map_option (\<lambda>p. cl\<lparr>cl_process := p, cl_made := (cl_made cl)(t := [])\<rparr>)
     (end_writers ou env is (map (\<lambda>(d, k). cl_addr cl t d k) (rev (cl_made cl t))) (cl_process cl))"

section \<open>What the header adds\<close>

definition P8_IS_ATTR_VALID :: "i32 \<Rightarrow> bool" where "P8_IS_ATTR_VALID x \<longleftrightarrow> 0 \<le> sint x"
definition P8_IS_SPAN_VALID :: "u64 \<Rightarrow> bool" where "P8_IS_SPAN_VALID x \<longleftrightarrow> P8_INVALID_SPAN \<noteq> x"
definition P8_IS_METRIC_VALID :: "i32 \<Rightarrow> bool" where "P8_IS_METRIC_VALID x \<longleftrightarrow> 0 \<le> sint x"

text \<open>What \<open>__LINE__\<close>, \<open>__FILE__\<close> and \<open>__FUNCTION__\<close> stand for where a macro is used.\<close>

record source_place =
  sp_line :: u32
  sp_file :: cstr
  sp_function :: cstr

definition P8TRC_BEGIN :: "'m client_in \<Rightarrow> nat \<Rightarrow> nat \<Rightarrow> source_place \<Rightarrow> cstr option \<Rightarrow> s_p8_attr_val list option
    \<Rightarrow> ('f, 'm) client \<Rightarrow> (u64 \<times> ('f, 'm) client) option" where
  "P8TRC_BEGIN ci t d here ip_name ip_attrs cl =
     p8_trc_begin ci t d ip_name (sp_line here) (Some (sp_file here)) (Some (sp_function here)) ip_attrs cl"

definition P8TRC_BEGIN_ASYNC :: "'m client_in \<Rightarrow> nat \<Rightarrow> nat \<Rightarrow> source_place \<Rightarrow> u64 \<Rightarrow> cstr option \<Rightarrow> s_p8_attr_val list option
    \<Rightarrow> ('f, 'm) client \<Rightarrow> (u64 \<times> ('f, 'm) client) option" where
  "P8TRC_BEGIN_ASYNC ci t d here iu_parent_id ip_name ip_attrs cl =
     p8_trc_begin_async ci t d iu_parent_id ip_name (sp_line here) (Some (sp_file here)) (Some (sp_function here)) ip_attrs cl"

definition P8TRC_END :: "'m client_in \<Rightarrow> nat \<Rightarrow> nat \<Rightarrow> u64 \<Rightarrow> ('f, 'm) client \<Rightarrow> ('f, 'm) client option" where
  "P8TRC_END ci t d iu_span_id cl = p8_trc_end ci t d iu_span_id cl"

text \<open>The guard of a thread name: constructor and destructor.\<close>

definition cp8_thread_create :: "cstr option \<Rightarrow> ('f, 'm) process \<Rightarrow> ('f, 'm) process" where
  "cp8_thread_create ip_name p = snd (p8_register_current_thread ip_name p)"

definition cp8_thread_destroy :: "('f, 'm) process \<Rightarrow> ('f, 'm) process" where
  "cp8_thread_destroy p = p8_unregister_current_thread p"

text \<open>The guard of a span; \<open>P8TRC_SCOPE\<close> declares one for the rest of a block, at whose end it is destroyed.\<close>

record cp8_trace =
  mu_span_id :: u64

definition cp8_trace_create :: "'m client_in \<Rightarrow> nat \<Rightarrow> nat \<Rightarrow> cstr option \<Rightarrow> u32 \<Rightarrow> cstr option \<Rightarrow> cstr option \<Rightarrow> s_p8_attr_val list option
    \<Rightarrow> ('f, 'm) client \<Rightarrow> (cp8_trace \<times> ('f, 'm) client) option" where
  "cp8_trace_create ci t d ip_name iu_line ip_file ip_function ip_attrs cl =
     map_option (\<lambda>(r, cl1). (\<lparr>mu_span_id = r\<rparr>, cl1)) (p8_trc_begin ci t d ip_name iu_line ip_file ip_function ip_attrs cl)"

definition cp8_trace_destroy :: "'m client_in \<Rightarrow> nat \<Rightarrow> nat \<Rightarrow> cp8_trace \<Rightarrow> ('f, 'm) client \<Rightarrow> ('f, 'm) client option" where
  "cp8_trace_destroy ci t d g cl = p8_trc_end ci t d (mu_span_id g) cl"

definition get_span_id :: "cp8_trace \<Rightarrow> u64" where
  "get_span_id g = mu_span_id g"

definition P8TRC_SCOPE :: "'m client_in \<Rightarrow> nat \<Rightarrow> nat \<Rightarrow> source_place \<Rightarrow> cstr option \<Rightarrow> s_p8_attr_val list option
    \<Rightarrow> ('f, 'm) client \<Rightarrow> (cp8_trace \<times> ('f, 'm) client) option" where
  "P8TRC_SCOPE ci t d here ip_name ip_attrs cl =
     cp8_trace_create ci t d ip_name (sp_line here) (Some (sp_file here)) (Some (sp_function here)) ip_attrs cl"

end
