(* ===== verification/P8_Scopes.thy ===== *)
theory P8_Scopes
  imports P8_Client
begin

text \<open>
  Blocks that open spans with the guard \<open>cp8_trace\<close> (\<open>P8TRC_SCOPE\<close>): a guard lives to the end of its block, so
  scopes nest as blocks do. Whatever fails and whatever else the blocks do, the thread's stack of
  open spans is afterwards what it was, and each span is a child of the innermost one around it that was begun.
\<close>

section \<open>Blocks\<close>

text \<open>A block is a run of statements: a scope, with what its constructor and its destructor meet, or something else the
  program does.\<close>

datatype ('f, 'm) stmt =
    Act "('f, 'm) client \<Rightarrow> ('f, 'm) client option"
  | Scope "'m client_in" "'m client_in" source_place "cstr option" "s_p8_attr_val list option" "('f, 'm) stmt list"

definition open_spans :: "nat \<Rightarrow> nat \<Rightarrow> ('f, 'm) client \<Rightarrow> u64 list" where
  "open_spans t d cl = mo_open_spans (cl_trc cl (cl_addr cl t d Kind_trc))"

definition innermost :: "nat \<Rightarrow> nat \<Rightarrow> ('f, 'm) client \<Rightarrow> u64" where
  "innermost t d cl = (if open_spans t d cl = [] then P8_NO_PARENT_SPAN else last (open_spans t d cl))"

text \<open>What was begun: the parent a span was given, its ID, the spans inside it.\<close>

datatype span_tree = Span u64 u64 "span_tree list"

fun run_stmt :: "nat \<Rightarrow> nat \<Rightarrow> ('f, 'm) stmt \<Rightarrow> ('f, 'm) client \<Rightarrow> (span_tree list \<times> ('f, 'm) client) option"
  and run_block :: "nat \<Rightarrow> nat \<Rightarrow> ('f, 'm) stmt list \<Rightarrow> ('f, 'm) client \<Rightarrow> (span_tree list \<times> ('f, 'm) client) option" where
  "run_stmt t d (Act f) cl = map_option (Pair []) (f cl)"
| "run_stmt t d (Scope ci ci' here ip_name ip_attrs ss) cl = do {
     (g, cl1) \<leftarrow> P8TRC_SCOPE ci t d here ip_name ip_attrs cl;
     (us, cl2) \<leftarrow> run_block t d ss cl1;
     cl3 \<leftarrow> cp8_trace_destroy ci' t d g cl2;
     Some ([Span (innermost t d cl) (get_span_id g) us], cl3)
   }"
| "run_block t d [] cl = Some ([], cl)"
| "run_block t d (s # ss) cl = do {
     (us, cl1) \<leftarrow> run_stmt t d s cl;
     (vs, cl2) \<leftarrow> run_block t d ss cl1;
     Some (us @ vs, cl2)
   }"

fun span_ids :: "span_tree \<Rightarrow> u64 set" where
  "span_ids (Span p i us) = insert i (\<Union>u \<in> set us. span_ids u)"

text \<open>Each span has as parent the innermost span around it that was begun.\<close>

fun nested :: "u64 \<Rightarrow> span_tree \<Rightarrow> bool" where
  "nested p (Span q i us) \<longleftrightarrow> q = p \<and> (\<forall>u \<in> set us. nested (if P8_IS_SPAN_VALID i then i else p) u)"

section \<open>The thread's trace writer\<close>

text \<open>The thread has a trace writer, on the core \<open>x\<close> if it found one; then the core is there and the writer in order.\<close>

definition scope_inv :: "(byte list \<Rightarrow> u64) \<Rightarrow> nat \<Rightarrow> nat \<Rightarrow> nat \<Rightarrow> (nat \<times> nat) option \<Rightarrow> ('f, 'm) client \<Rightarrow> bool" where
  "scope_inv xxh self t d x cl \<longleftrightarrow> (d, Kind_trc) \<in> set (cl_made cl t)
     \<and> (let w = cl_addr cl t d Kind_trc in pr_writer (cl_process cl) w = x \<and>
         (case x of None \<Rightarrow> True | Some (e, a) \<Rightarrow>
          (\<exists>ob. pr_cores (cl_process cl) a = Some ob \<and> mp_core (wn_writer (wl_node (ob_writers ob) w))
            \<and> trc_inv xxh self ((cl_trc cl w)\<lparr>tc_base := wn_writer (wl_node (ob_writers ob) w)\<rparr>) (ob_core ob))))"

definition good_in :: "(byte list \<Rightarrow> u64) \<Rightarrow> nat \<Rightarrow> 'm client_in \<Rightarrow> bool" where
  "good_in xxh self ci \<longleftrightarrow> ci_xxh ci = xxh \<and> ci_self ci = self \<and> others_serve xxh P8_PACKET_TRACES self (ci_env ci)"

lemma good_in_ot: "good_in xxh self ci \<Longrightarrow> other_threads xxh P8_PACKET_TRACES self (ci_env ci)"
  by (auto simp: good_in_def others_serve_def)

text \<open>What else a block does returns, leaves the writer in order and the open spans alone.\<close>

definition harmless :: "(byte list \<Rightarrow> u64) \<Rightarrow> nat \<Rightarrow> nat \<Rightarrow> nat \<Rightarrow> (nat \<times> nat) option \<Rightarrow> (('f, 'm) client \<Rightarrow> ('f, 'm) client option) \<Rightarrow> bool" where
  "harmless xxh self t d x f \<longleftrightarrow> (\<forall>cl. scope_inv xxh self t d x cl \<longrightarrow>
     (\<exists>cl'. f cl = Some cl' \<and> scope_inv xxh self t d x cl' \<and> open_spans t d cl' = open_spans t d cl))"

fun good_stmt :: "(byte list \<Rightarrow> u64) \<Rightarrow> nat \<Rightarrow> nat \<Rightarrow> nat \<Rightarrow> (nat \<times> nat) option \<Rightarrow> ('f, 'm) stmt \<Rightarrow> bool" where
  "good_stmt xxh self t d x (Act f) \<longleftrightarrow> harmless xxh self t d x f"
| "good_stmt xxh self t d x (Scope ci ci' here ip_name ip_attrs ss) \<longleftrightarrow> good_in xxh self ci \<and> good_in xxh self ci'
     \<and> (\<forall>s \<in> set ss. good_stmt xxh self t d x s)"

lemma made_tls: "(d, k) \<in> set (cl_made cl t) \<Longrightarrow> get_tls ci t d k cl = Some (cl_addr cl t d k, cl)"
  by (simp add: get_tls_def Let_def)

text \<open>A call on the trace writer that keeps the writer's invariant keeps that of the thread.\<close>

lemma on_trc_inv:
  assumes inv: "scope_inv xxh self t d x cl" and c: "on_trc (cl_addr cl t d Kind_trc) r0 f cl = Some (r, cl')"
    and f: "\<And>tw c tw' c' r. trc_inv xxh self tw c \<Longrightarrow> mp_core (tc_base tw) \<Longrightarrow> f tw c = Some (r, tw', c') \<Longrightarrow>
      trc_inv xxh self tw' c' \<and> writer_who (tc_base tw') = writer_who (tc_base tw) \<and> P (mo_open_spans tw) r (mo_open_spans tw')"
  shows "scope_inv xxh self t d x cl'
    \<and> (if x = None then r = r0 \<and> open_spans t d cl' = open_spans t d cl else P (open_spans t d cl) r (open_spans t d cl'))"
proof -
  let ?w = "cl_addr cl t d Kind_trc" and ?p = "cl_process cl"
  show ?thesis
  proof (cases x)
    case None
    with c inv have "r = r0" "cl' = cl" by (simp_all add: on_trc_def on_writer_def scope_inv_def Let_def)
    with inv None show ?thesis by simp
  next
    case (Some ea)
    obtain e a where ea: "x = Some (e, a)" using Some by (cases ea) simp
    with inv obtain ob where pw: "pr_writer ?p ?w = Some (e, a)" and ob: "pr_cores ?p a = Some ob"
      and m: "mp_core (wn_writer (wl_node (ob_writers ob) ?w))"
      and ti: "trc_inv xxh self ((cl_trc cl ?w)\<lparr>tc_base := wn_writer (wl_node (ob_writers ob) ?w)\<rparr>) (ob_core ob)"
      by (auto simp: scope_inv_def Let_def)
    from c pw ob obtain tw c1 where
      f1: "f ((cl_trc cl ?w)\<lparr>tc_base := wn_writer (wl_node (ob_writers ob) ?w)\<rparr>) (ob_core ob) = Some (r, tw, c1)"
      and cl': "cl' = cl\<lparr>cl_process := put_core a (Some (after_call ?w (tc_base tw) c1 ob)) ?p, cl_trc := (cl_trc cl)(?w := tw)\<rparr>"
      by (auto simp: on_trc_def on_writer_def split: bind_splits)
    from f [OF ti _ f1] m have k: "trc_inv xxh self tw c1" "mp_core (tc_base tw)" "P (open_spans t d cl) r (mo_open_spans tw)"
      by (simp_all add: writer_who_def open_spans_def)
    with inv ea pw show ?thesis
      by (simp add: scope_inv_def Let_def cl' open_spans_def after_call_def set_writer_nodes)
  qed
qed

lemma on_trc_returns:
  assumes inv: "scope_inv xxh self t d x cl" and f: "\<And>tw c. trc_inv xxh self tw c \<Longrightarrow> f tw c \<noteq> None"
  shows "\<exists>r cl'. on_trc (cl_addr cl t d Kind_trc) r0 f cl = Some (r, cl')"
proof (cases x)
  case None
  with inv show ?thesis by (simp add: on_trc_def on_writer_def scope_inv_def Let_def)
next
  case (Some ea)
  obtain e a where "x = Some (e, a)" using Some by (cases ea) simp
  with inv obtain ob where pw: "pr_writer (cl_process cl) (cl_addr cl t d Kind_trc) = Some (e, a)"
    and ob: "pr_cores (cl_process cl) a = Some ob"
    and ti: "trc_inv xxh self ((cl_trc cl (cl_addr cl t d Kind_trc))\<lparr>tc_base := wn_writer (wl_node (ob_writers ob) (cl_addr cl t d Kind_trc))\<rparr>) (ob_core ob)"
    by (auto simp: scope_inv_def Let_def)
  from f [OF ti] show ?thesis by (auto simp: on_trc_def on_writer_def pw ob)
qed

lemma scope_begins:
  assumes inv: "scope_inv xxh self t d x cl" and g: "good_in xxh self ci"
    and c: "P8TRC_SCOPE ci t d here ip_name ip_attrs cl = Some (gd, cl')"
  shows "scope_inv xxh self t d x cl' \<and> (P8_IS_SPAN_VALID (get_span_id gd) \<longrightarrow> x \<noteq> None)
    \<and> open_spans t d cl' = open_spans t d cl @ (if P8_IS_SPAN_VALID (get_span_id gd) then [get_span_id gd] else [])"
proof -
  from inv have made: "(d, Kind_trc) \<in> set (cl_made cl t)" by (simp add: scope_inv_def)
  from c have c': "on_trc (cl_addr cl t d Kind_trc) P8_INVALID_SPAN (trc_begin (ci_xxh ci) (ci_xxh_seed ci) (ci_env ci) (ci_self ci)
      (ci_ticks ci) ip_name (sp_line here) (Some (sp_file here)) (Some (sp_function here)) ip_attrs) cl = Some (get_span_id gd, cl')"
    by (auto simp: P8TRC_SCOPE_def cp8_trace_create_def p8_trc_begin_def made_tls [OF made] get_span_id_def)
  have ot: "other_threads xxh P8_PACKET_TRACES self (ci_env ci)" and e: "ci_xxh ci = xxh" "ci_self ci = self"
    using g good_in_ot [OF g] by (simp_all add: good_in_def)
  note b = trc_begin_own [OF ot]
  show ?thesis
    using on_trc_inv [OF inv c', where P = "\<lambda>xs r ys. ys = xs @ (if P8_IS_SPAN_VALID r then [r] else [])"] b e
    by (cases x) (auto simp: P8_IS_SPAN_VALID_def)
qed

lemma scope_ends:
  assumes inv: "scope_inv xxh self t d x cl" and g: "good_in xxh self ci"
    and c: "cp8_trace_destroy ci t d gd cl = Some cl'" and v: "P8_IS_SPAN_VALID (get_span_id gd) \<longrightarrow> x \<noteq> None"
    and o: "open_spans t d cl = xs @ (if P8_IS_SPAN_VALID (get_span_id gd) then [get_span_id gd] else [])"
    and sync: "\<not> P8_IS_ASYNC_SPAN (get_span_id gd)"
  shows "scope_inv xxh self t d x cl' \<and> open_spans t d cl' = xs"
proof (cases "P8_IS_SPAN_VALID (get_span_id gd)")
  case False
  with c o inv show ?thesis by (simp add: cp8_trace_destroy_def p8_trc_end_def P8_IS_SPAN_VALID_def get_span_id_def)
next
  case True
  let ?i = "get_span_id gd"
  from inv have made: "(d, Kind_trc) \<in> set (cl_made cl t)" by (simp add: scope_inv_def)
  from c True obtain u where c': "on_trc (cl_addr cl t d Kind_trc) () (\<lambda>tw c. map_option (Pair ())
      (trc_end (ci_env ci) (ci_self ci) (ci_ticks ci) ?i tw c)) cl = Some (u, cl')"
    by (auto simp: cp8_trace_destroy_def p8_trc_end_def P8_IS_SPAN_VALID_def made_tls [OF made] get_span_id_def)
  have ot: "other_threads xxh P8_PACKET_TRACES self (ci_env ci)" and e: "ci_self ci = self"
    using g good_in_ot [OF g] by (simp_all add: good_in_def)
  have iv: "?i \<noteq> P8_INVALID_SPAN" using True by (simp add: P8_IS_SPAN_VALID_def)
  have "scope_inv xxh self t d x cl' \<and> (if x = None then u = () \<and> open_spans t d cl' = open_spans t d cl
      else open_spans t d cl' = close_span ?i (open_spans t d cl))"
    by (rule on_trc_inv [OF inv c', where P = "\<lambda>xs r ys. ys = close_span ?i xs"])
      (use trc_end_own [OF ot _ iv] e sync in auto)
  with True v o close_span_split [of ?i "[]" xs] show ?thesis by simp
qed


section \<open>Scopes nest\<close>

lemma innermost_begun:
  "open_spans t d cl' = open_spans t d cl @ (if P8_IS_SPAN_VALID i then [i] else []) \<Longrightarrow>
   innermost t d cl' = (if P8_IS_SPAN_VALID i then i else innermost t d cl)"
  by (simp add: innermost_def)

lemma innermost_same: "open_spans t d cl' = open_spans t d cl \<Longrightarrow> innermost t d cl' = innermost t d cl"
  by (simp add: innermost_def)

text \<open>The constructor and the destructor return.\<close>

lemma bind_returns: "x \<noteq> None \<Longrightarrow> (\<And>r. k r \<noteq> None) \<Longrightarrow> Option.bind x k \<noteq> None"
  by (cases x) simp_all

lemma scope_begin_returns:
  assumes inv: "scope_inv xxh self t d x cl" and g: "good_in xxh self ci"
  shows "\<exists>gd cl'. P8TRC_SCOPE ci t d here ip_name ip_attrs cl = Some (gd, cl')"
proof -
  from inv have made: "(d, Kind_trc) \<in> set (cl_made cl t)" by (simp add: scope_inv_def)
  have os: "others_serve xxh P8_PACKET_TRACES self (ci_env ci)" and e: "ci_xxh ci = xxh" "ci_self ci = self"
    using g by (simp_all add: good_in_def)
  let ?f = "trc_begin (ci_xxh ci) (ci_xxh_seed ci) (ci_env ci) (ci_self ci) (ci_ticks ci) ip_name (sp_line here)
      (Some (sp_file here)) (Some (sp_function here)) ip_attrs"
  have "?f tw c \<noteq> None" if "trc_inv xxh self tw c" for tw c
    unfolding trc_begin_def Let_def e by (rule bind_returns [OF write_begin_returns [OF os that]]) (simp split: prod.splits)
  from on_trc_returns [OF inv, of ?f P8_INVALID_SPAN, OF this] show ?thesis
    by (auto simp: P8TRC_SCOPE_def cp8_trace_create_def p8_trc_begin_def made_tls [OF made])
qed

lemma scope_end_returns:
  assumes inv: "scope_inv xxh self t d x cl" and g: "good_in xxh self ci"
  shows "\<exists>cl'. cp8_trace_destroy ci t d gd cl = Some cl' \<and> scope_inv xxh self t d x cl'"
proof (cases "mu_span_id gd = P8_INVALID_SPAN")
  case True
  with inv show ?thesis by (simp add: cp8_trace_destroy_def p8_trc_end_def)
next
  case False
  from inv have made: "(d, Kind_trc) \<in> set (cl_made cl t)" by (simp add: scope_inv_def)
  have os: "others_serve xxh P8_PACKET_TRACES self (ci_env ci)" and e: "ci_self ci = self"
    using g by (simp_all add: good_in_def)
  let ?f = "\<lambda>tw c. map_option (Pair ()) (trc_end (ci_env ci) (ci_self ci) (ci_ticks ci) (mu_span_id gd) tw c)"
  have "?f tw c \<noteq> None" if i: "trc_inv xxh self tw c" for tw c
  proof -
    have "own_inv P8_PACKET_TRACES self {} (tc_base tw) c" using i by (simp add: trc_inv_def)
    from write_end_returns [OF os this] have
      "write_end (ci_env ci) self (ci_ticks ci) (mu_span_id gd) (tc_base tw) c \<bind> k \<noteq> None" if "\<And>r. k r \<noteq> None"
      for k :: "tls_writer \<times> core \<Rightarrow> (trc_writer \<times> core) option"
      using that by (rule bind_returns)
    then show ?thesis by (simp add: trc_end_def Let_def e split: prod.splits)
  qed
  from on_trc_returns [OF inv, of ?f "()", OF this] obtain u cl' where
    o: "on_trc (cl_addr cl t d Kind_trc) () ?f cl = Some (u, cl')" by blast
  have "scope_inv xxh self t d x cl'"
    using on_trc_inv [OF inv o, where P = "\<lambda>_ _ _. True"] trc_end_own [OF good_in_ot [OF g] _ False] e by auto
  with o show ?thesis
    using False by (simp add: cp8_trace_destroy_def p8_trc_end_def made_tls [OF made])
qed

lemma scopes_return:
  fixes s :: "('f, 'm) stmt" and ss :: "('f, 'm) stmt list"
  shows "scope_inv xxh self t d x cl \<Longrightarrow> good_stmt xxh self t d x s \<Longrightarrow>
      \<exists>us cl'. run_stmt t d s cl = Some (us, cl') \<and> scope_inv xxh self t d x cl'"
    and "scope_inv xxh self t d x cl \<Longrightarrow> \<forall>s \<in> set ss. good_stmt xxh self t d x s \<Longrightarrow>
      \<exists>us cl'. run_block t d ss cl = Some (us, cl') \<and> scope_inv xxh self t d x cl'"
proof (induction t d s cl and t d ss cl rule: run_stmt_run_block.induct)
  case (1 t d f cl)
  then show ?case by (fastforce simp: harmless_def)
next
  case (2 t d ci ci' here ip_name ip_attrs ss cl)
  have gi: "good_in xxh self ci" "good_in xxh self ci'" and gs: "\<forall>s \<in> set ss. good_stmt xxh self t d x s"
    using "2.prems"(2) by simp_all
  from scope_begin_returns [OF "2.prems"(1) gi(1)] obtain g cl1
    where b: "P8TRC_SCOPE ci t d here ip_name ip_attrs cl = Some (g, cl1)" by blast
  from scope_begins [OF "2.prems"(1) gi(1) b] have i1: "scope_inv xxh self t d x cl1" by simp
  from "2.IH" [OF b refl i1 gs] obtain us cl2 where r: "run_block t d ss cl1 = Some (us, cl2)"
    and i2: "scope_inv xxh self t d x cl2" by blast
  from scope_end_returns [OF i2 gi(2), of g] b r show ?case by auto
next
  case (3 t d cl)
  then show ?case by simp
next
  case (4 t d s ss cl)
  then show ?case by fastforce
qed

lemma scopes_nest:
  fixes s :: "('f, 'm) stmt" and ss :: "('f, 'm) stmt list"
  shows "scope_inv xxh self t d x cl \<Longrightarrow> good_stmt xxh self t d x s \<Longrightarrow> run_stmt t d s cl = Some (us, cl') \<Longrightarrow>
      \<forall>i \<in> \<Union> (span_ids ` set us). \<not> P8_IS_ASYNC_SPAN i \<Longrightarrow>
      scope_inv xxh self t d x cl' \<and> open_spans t d cl' = open_spans t d cl \<and> (\<forall>u \<in> set us. nested (innermost t d cl) u)"
    and "scope_inv xxh self t d x cl \<Longrightarrow> \<forall>s \<in> set ss. good_stmt xxh self t d x s \<Longrightarrow> run_block t d ss cl = Some (us, cl') \<Longrightarrow>
      \<forall>i \<in> \<Union> (span_ids ` set us). \<not> P8_IS_ASYNC_SPAN i \<Longrightarrow>
      scope_inv xxh self t d x cl' \<and> open_spans t d cl' = open_spans t d cl \<and> (\<forall>u \<in> set us. nested (innermost t d cl) u)"
proof (induction t d s cl and t d ss cl arbitrary: us cl' and us cl' rule: run_stmt_run_block.induct)
  case (1 t d f cl)
  then show ?case by (fastforce simp: harmless_def)
next
  case (2 t d ci ci' here ip_name ip_attrs ss cl)
  from "2.prems"(3) obtain g cl1 vs cl2 where b: "P8TRC_SCOPE ci t d here ip_name ip_attrs cl = Some (g, cl1)"
    and r: "run_block t d ss cl1 = Some (vs, cl2)" and e: "cp8_trace_destroy ci' t d g cl2 = Some cl'"
    and us: "us = [Span (innermost t d cl) (get_span_id g) vs]"
    by (auto split: bind_splits)
  have gi: "good_in xxh self ci" "good_in xxh self ci'" and gs: "\<forall>s \<in> set ss. good_stmt xxh self t d x s"
    using "2.prems"(2) by simp_all
  note s1 = scope_begins [OF "2.prems"(1) gi(1) b]
  have nv: "\<forall>i \<in> \<Union> (span_ids ` set vs). \<not> P8_IS_ASYNC_SPAN i" "\<not> P8_IS_ASYNC_SPAN (get_span_id g)"
    using "2.prems"(4) us by auto
  have s2: "scope_inv xxh self t d x cl2 \<and> open_spans t d cl2 = open_spans t d cl1 \<and> (\<forall>u \<in> set vs. nested (innermost t d cl1) u)"
    by (rule "2.IH" [OF b refl _ gs r nv(1)]) (use s1 in simp_all)
  have "scope_inv xxh self t d x cl' \<and> open_spans t d cl' = open_spans t d cl"
    by (rule scope_ends [OF _ gi(2) e _ _ nv(2)]) (use s1 s2 in simp_all)
  moreover have "innermost t d cl1 = (if P8_IS_SPAN_VALID (get_span_id g) then get_span_id g else innermost t d cl)"
    by (rule innermost_begun) (use s1 in simp)
  ultimately show ?case using s2 us by simp
next
  case (3 t d cl)
  then show ?case by simp
next
  case (4 t d s ss cl)
  from "4.prems"(3) obtain vs cl1 ws where a: "run_stmt t d s cl = Some (vs, cl1)" and r: "run_block t d ss cl1 = Some (ws, cl')"
    and us: "us = vs @ ws"
    by (auto split: bind_splits)
  have n: "\<forall>i \<in> \<Union> (span_ids ` set vs). \<not> P8_IS_ASYNC_SPAN i" "\<forall>i \<in> \<Union> (span_ids ` set ws). \<not> P8_IS_ASYNC_SPAN i"
    using "4.prems"(4) us by auto
  have s1: "scope_inv xxh self t d x cl1 \<and> open_spans t d cl1 = open_spans t d cl \<and> (\<forall>u \<in> set vs. nested (innermost t d cl) u)"
    by (rule "4.IH"(1) [OF "4.prems"(1) _ a n(1)]) (use "4.prems"(2) in simp)
  have "scope_inv xxh self t d x cl' \<and> open_spans t d cl' = open_spans t d cl1 \<and> (\<forall>u \<in> set ws. nested (innermost t d cl1) u)"
    by (rule "4.IH"(2) [OF a refl _ _ r n(2)]) (use s1 "4.prems"(2) in simp_all)
  with s1 innermost_same [of t d cl1 cl] us show ?case by auto
qed


section \<open>What else a block may do\<close>

lemma begin_async_harmless:
  fixes ci :: "'m client_in"
  assumes g: "good_in xxh self ci"
  shows "harmless xxh self t d x (\<lambda>cl :: ('f, 'm) client. map_option snd (P8TRC_BEGIN_ASYNC ci t d here iu_parent_id ip_name ip_attrs cl))"
proof (unfold harmless_def, intro allI impI)
  fix cl :: "('f, 'm) client"
  assume inv: "scope_inv xxh self t d x cl"
  then have made: "(d, Kind_trc) \<in> set (cl_made cl t)" by (simp add: scope_inv_def)
  have os: "others_serve xxh P8_PACKET_TRACES self (ci_env ci)" and e: "ci_xxh ci = xxh" "ci_self ci = self"
    using g by (simp_all add: good_in_def)
  let ?f = "trc_begin_async (ci_xxh ci) (ci_xxh_seed ci) (ci_env ci) (ci_self ci) (ci_ticks ci) iu_parent_id ip_name
      (sp_line here) (Some (sp_file here)) (Some (sp_function here)) ip_attrs"
  have "?f tw c \<noteq> None" if "trc_inv xxh self tw c" for tw c
    using write_begin_returns [OF os that] unfolding trc_begin_async_def e by simp
  from on_trc_returns [OF inv, of ?f P8_INVALID_SPAN, OF this] obtain r cl' where
    o: "on_trc (cl_addr cl t d Kind_trc) P8_INVALID_SPAN ?f cl = Some (r, cl')" by blast
  have "trc_inv xxh self tw' c' \<and> writer_who (tc_base tw') = writer_who (tc_base tw) \<and> mo_open_spans tw' = mo_open_spans tw"
    if "trc_inv xxh self tw c" "?f tw c = Some (r, tw', c')" for tw c r tw' c'
    using write_begin_own [OF good_in_ot [OF g] that(1) that(2) [unfolded trc_begin_async_def e]] by simp
  then have "scope_inv xxh self t d x cl' \<and> (if x = None then r = P8_INVALID_SPAN \<and> open_spans t d cl' = open_spans t d cl
      else open_spans t d cl' = open_spans t d cl)"
    by (rule on_trc_inv [OF inv o, where P = "\<lambda>xs r ys. ys = xs"])
  then have "scope_inv xxh self t d x cl' \<and> open_spans t d cl' = open_spans t d cl" by presburger
  with o show "\<exists>cl'. map_option snd (P8TRC_BEGIN_ASYNC ci t d here iu_parent_id ip_name ip_attrs cl) = Some cl'
      \<and> scope_inv xxh self t d x cl' \<and> open_spans t d cl' = open_spans t d cl"
    by (simp add: P8TRC_BEGIN_ASYNC_def p8_trc_begin_async_def made_tls [OF made])
qed

text \<open>The end of an asynchronous span, begun on any thread.\<close>

lemma end_async_harmless:
  fixes ci :: "'m client_in"
  assumes g: "good_in xxh self ci" and a: "P8_IS_ASYNC_SPAN i"
  shows "harmless xxh self t d x (P8TRC_END ci t d i :: ('f, 'm) client \<Rightarrow> ('f, 'm) client option)"
proof (unfold harmless_def, intro allI impI)
  fix cl :: "('f, 'm) client"
  assume inv: "scope_inv xxh self t d x cl"
  then have made: "(d, Kind_trc) \<in> set (cl_made cl t)" by (simp add: scope_inv_def)
  let ?f = "\<lambda>tw c. map_option (Pair ()) (trc_end (ci_env ci) (ci_self ci) (ci_ticks ci) i tw c)"
  have i: "i \<noteq> P8_INVALID_SPAN" using a by (auto simp: P8_IS_ASYNC_SPAN_def)
  from scope_end_returns [OF inv g, of "\<lparr>mu_span_id = i\<rparr>"] i obtain cl' where
    r: "P8TRC_END ci t d i cl = Some cl'" and inv': "scope_inv xxh self t d x cl'"
    by (auto simp: P8TRC_END_def cp8_trace_destroy_def)
  then obtain u where o: "on_trc (cl_addr cl t d Kind_trc) () ?f cl = Some (u, cl')"
    using i by (auto simp: P8TRC_END_def p8_trc_end_def made_tls [OF made])
  have e: "ci_self ci = self" using g by (simp add: good_in_def)
  have "scope_inv xxh self t d x cl' \<and> (if x = None then u = () \<and> open_spans t d cl' = open_spans t d cl
      else open_spans t d cl' = open_spans t d cl)"
    by (rule on_trc_inv [OF inv o, where P = "\<lambda>xs r ys. ys = xs"])
      (use trc_end_own [OF good_in_ot [OF g] _ i] e a in auto)
  then have "open_spans t d cl' = open_spans t d cl" by presburger
  with r inv' show "\<exists>cl'. P8TRC_END ci t d i cl = Some cl' \<and> scope_inv xxh self t d x cl'
      \<and> open_spans t d cl' = open_spans t d cl" by blast
qed

section \<open>Property\<close>


text \<open>A thread with its trace writer on a core, in the span 4.\<close>

definition ex_tracer :: "((bool \<times> byte list), nat option) client" where
  "ex_tracer = \<lparr>cl_process = (process_new None)\<lparr>pr_writer := [1 \<mapsto> (0, 7)],
       pr_cores := [7 \<mapsto> ex_obj\<lparr>ob_core := core_new ex_pool,
         ob_writers := (ob_writers ex_obj)\<lparr>wl_node := (\<lambda>_. \<lparr>mp_prev_writer = None, mp_next_writer = None,
           wn_writer = tls_writer_create True 7 1\<rparr>)\<rparr>\<rparr>]\<rparr>,
     cl_addr = (\<lambda>_ _ _. 1), cl_made = (\<lambda>_. [(0, Kind_trc)]), cl_descs = (\<lambda>_. Map.empty), cl_trc = (\<lambda>_. ex_trc [4])\<rparr>"

definition ex_in :: "nat option client_in" where
  "ex_in = \<lparr>ci_shm = ex_shm, ci_drift = (\<lambda>_ m. m), ci_thread_hash = (\<lambda>_. 7), ci_xxh = (\<lambda>_. 0), ci_xxh_seed = (\<lambda>_ _. 0),
     ci_env = stop_env, ci_self = 1, ci_alloc = True, ci_ticks = 5\<rparr>"

definition ex_place :: source_place where
  "ex_place = \<lparr>sp_line = 3, sp_file = [97], sp_function = [102]\<rparr>"

definition ex_block :: "((bool \<times> byte list), nat option) stmt list" where
  "ex_block = [Scope ex_in ex_in ex_place (Some [98]) None
     [Act (\<lambda>cl. map_option snd (P8TRC_BEGIN_ASYNC ex_in 0 0 ex_place 4 None None cl)), Scope ex_in ex_in ex_place None None []],
     Scope ex_in ex_in ex_place None None []]"

lemma ex_tracer_inv: "scope_inv (\<lambda>_. 0) 1 0 0 (Some (0, 7)) ex_tracer"
proof -
  have "(ex_trc [4])\<lparr>tc_base := tls_writer_create True 7 1\<rparr> = ex_trc [4]" by (simp add: ex_trc_def trc_create_def)
  with ex_trc_inv [of "[4]"] show ?thesis by (simp add: scope_inv_def ex_tracer_def Let_def tls_writer_create_def)
qed


end
