(* ===== verification/P8_Interface.thy ===== *)
theory P8_Interface
  imports P8_Client
begin

text \<open>
  What a program may rely on of the C interface: a thread whose writer found no core stays without one.
\<close>

section \<open>A thread that came too early\<close>

text \<open>The variable is there and has no core.\<close>

definition silent :: "nat \<Rightarrow> nat \<Rightarrow> writer_kind \<Rightarrow> ('f, 'm) client \<Rightarrow> bool" where
  "silent t d k cl \<longleftrightarrow> (d, k) \<in> set (cl_made cl t) \<and> pr_writer (cl_process cl) (cl_addr cl t d k) = None"

lemma silent_tls: "silent t d k cl \<Longrightarrow> get_tls ci t d k cl = Some (cl_addr cl t d k, cl)"
  by (simp add: silent_def get_tls_def Let_def)

lemma silent_writer: "silent t d k cl \<Longrightarrow> on_writer (cl_addr cl t d k) r0 f (cl_process cl) = Some (r0, cl_process cl)"
  by (simp add: silent_def on_writer_def)

lemma silent_log:
  assumes s: "silent t d Kind_log cl"
  shows "p8_log_sent ci t d lv None tr ln fl fn ats fmt args cl = Some (False, cl)"
  using s by (simp add: p8_log_sent_def silent_tls client_send_def silent_writer)

lemma silent_mtk:
  assumes s: "silent t d Kind_mtk cl"
  shows "p8_mtk_emit ci t d i v cl = Some (False, cl)" and "p8_mtk_create ci al t d base cl = Some (P8_MTK_ERROR_NOT_INITIALIZED, cl)"
  using s by (simp_all add: p8_mtk_emit_def p8_mtk_create_def client_process_def silent_tls silent_writer)

lemma silent_trc:
  assumes s: "silent t d Kind_trc cl"
  shows "p8_trc_begin ci t d nm ln fl fn ats cl = Some (P8_INVALID_SPAN, cl)"
    and "p8_trc_begin_async ci t d pa nm ln fl fn ats cl = Some (P8_INVALID_SPAN, cl)" and "p8_trc_end ci t d i cl = Some cl"
  using s by (simp_all add: p8_trc_begin_def p8_trc_begin_async_def p8_trc_end_def on_trc_def silent_tls silent_writer)

text \<open>Every call of the kind fails on the thread and changes nothing.\<close>

definition unheard :: "nat \<Rightarrow> nat \<Rightarrow> writer_kind \<Rightarrow> ('f, 'm) client \<Rightarrow> bool" where
  "unheard t d k cl \<longleftrightarrow> (\<forall>(ci :: 'm client_in) lv tr ln fl fn ats fmt args al base i v nm pa. case k of
     Kind_log \<Rightarrow> p8_log_sent ci t d lv None tr ln fl fn ats fmt args cl = Some (False, cl)
   | Kind_mtk \<Rightarrow> p8_mtk_emit ci t d i v cl = Some (False, cl)
       \<and> p8_mtk_create ci al t d base cl = Some (P8_MTK_ERROR_NOT_INITIALIZED, cl)
   | Kind_trc \<Rightarrow> p8_trc_begin ci t d nm ln fl fn ats cl = Some (P8_INVALID_SPAN, cl)
       \<and> p8_trc_begin_async ci t d pa nm ln fl fn ats cl = Some (P8_INVALID_SPAN, cl)
       \<and> p8_trc_end ci t d tr cl = Some cl)"

lemma silent_unheard: "silent t d k cl \<Longrightarrow> unheard t d k cl"
  by (cases k) (simp_all add: unheard_def silent_log silent_mtk silent_trc)

text \<open>What makes a variable silent, and what keeps it so.\<close>

lemma new_tls_silent:
  assumes "(d, k) \<notin> set (cl_made cl t)" and "pr_writer (cl_process cl) (cl_addr cl t d k) = None"
    and "get_global_core (ci_shm ci) (ci_drift ci) P8_CORE_ACQUIRE_TIMEOUT_MS d (cl_process cl) = Some (None, p1)"
  shows "\<exists>cl1. get_tls ci t d k cl = Some (cl_addr cl t d k, cl1) \<and> silent t d k cl1 \<and> cl_addr cl1 = cl_addr cl"
proof -
  have "pr_writer p1 = pr_writer (cl_process cl)"
    using assms(3) by (auto simp: get_global_core_def set_instance_def Let_def split: if_splits bind_splits)
  with assms show ?thesis by (simp add: get_tls_def silent_def new_tls_def writer_start_def Let_def)
qed

lemma delete_core_writers: "delete_core ou env is d a p = Some p' \<Longrightarrow> pr_writer p' = pr_writer p"
  by (auto simp: delete_core_def split: bind_splits)

lemma initialize_writers:
  assumes "p8_initialize sh ou env is al cfg d p = Some (ok, p')"
  shows "pr_writer p' = pr_writer p"
proof -
  obtain ph1 p1 ph2 p2 where b: "init_begin sh ou al cfg d p = Some (ph1, p1)"
    and c: "(case ph1 of Init_publish a \<Rightarrow> init_publish sh ou env is a d p1 | _ \<Rightarrow> Some (ph1, p1)) = Some (ph2, p2)"
    and e: "p' = snd (case ph2 of Init_adopt \<Rightarrow> init_adopt sh d p2 | _ \<Rightarrow> (ph2, p2))"
    using assms by (auto simp: p8_initialize_def Let_def split: bind_splits prod.splits)
  have "pr_writer p1 = pr_writer p"
    using b delete_core_writers
    by (auto simp: init_begin_def set_instance_def Let_def split: if_splits option.splits bind_splits) force+
  moreover have "pr_writer p2 = pr_writer p1"
    using c by (auto simp: init_publish_def split: init_phase.splits prod.splits bool.splits bind_splits dest!: delete_core_writers)
  moreover have "pr_writer p' = pr_writer p2"
    unfolding e by (auto simp: init_adopt_def set_instance_def split: init_phase.splits prod.splits option.splits)
  ultimately show ?thesis by simp
qed

section \<open>Property\<close>

text \<open>C22 A thread that calls before there is a core is never heard. If the first call of a thread that needs its writer
  of a kind finds no core, that kind of call fails on the thread for good and changes nothing, although a call of
  \<open>p8_initialize\<close> in between made a core: the writer was made by the first call and does not look for a core again.\<close>
theorem early_caller_silent:
  assumes "(d, k) \<notin> set (cl_made cl t)" and "pr_writer (cl_process cl) (cl_addr cl t d k) = None"
    and "get_global_core (ci_shm ci) (ci_drift ci) P8_CORE_ACQUIRE_TIMEOUT_MS d (cl_process cl) = Some (None, p1)"
  shows "\<exists>w cl1. get_tls ci t d k cl = Some (w, cl1)
    \<and> (\<forall>sh ou env is al cfg e ok p2. p8_initialize sh ou env is al cfg e (cl_process cl1) = Some (ok, p2) \<longrightarrow>
        unheard t d k (cl1\<lparr>cl_process := p2\<rparr>))"
proof -
  from new_tls_silent [OF assms] obtain cl1 where g: "get_tls ci t d k cl = Some (cl_addr cl t d k, cl1)"
    and s: "silent t d k cl1" by blast
  have "silent t d k (cl1\<lparr>cl_process := p2\<rparr>)"
    if "p8_initialize sh ou env is al cfg e (cl_process cl1) = Some (ok, p2)" for sh ou env "is" al cfg e ok p2
    using s initialize_writers [OF that] by (simp add: silent_def)
  with g silent_unheard show ?thesis by blast
qed

text \<open>A program that logs first and initializes then, with a core that does get made.\<close>

definition ex_early :: "((bool \<times> byte list), nat option) client" where
  "ex_early = \<lparr>cl_process = process_new None, cl_addr = (\<lambda>t d k. 1), cl_made = (\<lambda>_. []), cl_descs = (\<lambda>_. Map.empty),
     cl_trc = (\<lambda>_. trc_create (tls_writer_create False 7 0))\<rparr>"

definition ex_early_in :: "nat option client_in" where
  "ex_early_in = \<lparr>ci_shm = ex_shm, ci_drift = (\<lambda>_ m. m), ci_thread_hash = (\<lambda>_. 7), ci_xxh = (\<lambda>_. 0), ci_xxh_seed = (\<lambda>_ _. 0),
     ci_env = alone, ci_self = 1, ci_alloc = True, ci_ticks = 5\<rparr>"

lemma ex_early_none:
  "get_global_core ex_shm (\<lambda>_ m. m) P8_CORE_ACQUIRE_TIMEOUT_MS d (process_new None :: ('f, nat option) process) = Some (None, process_new None)"
proof -
  have n: "poll_times ex_shm (\<lambda>_ m. m) k n (None :: nat option) = (None, None)" for k n
    by (induction k arbitrary: n) (simp_all add: locked_read_def ex_shm_def)
  have "poll_core ex_shm (\<lambda>_ m. m) P8_CORE_ACQUIRE_TIMEOUT_MS 0 0 (None :: nat option) = Some (None, None)"
    by (subst poll_core_times [OF _ refl]) (simp_all add: n)
  then show ?thesis by (simp add: get_global_core_def process_new_def)
qed

lemma ex_early_initialize:
  "\<exists>p2. p8_initialize ex_shm (ex_host ''file.bin'') still ex_stop (Some 1) (Some ex_config) 0 (process_new None) = Some (True, p2)"
proof -
  obtain ob f where c: "core_create (ex_host ''file.bin'') ex_config = Some ob" "get_initialized ob"
    by (rule ex_created)
  define p1 where "p1 = put_core 1 (Some ob) (upd_dso 0 (\<lambda>s. s\<lparr>gu_instance_count := gu_instance_count s + 1\<rparr>) (process_new (None :: nat option)))"
  have "init_begin ex_shm (ex_host ''file.bin'') (Some 1) (Some ex_config) 0 (process_new None) = Some (Init_publish 1, p1)"
    using c by (simp add: init_begin_def p1_def process_new_def ex_shm_def Let_def)
  moreover have "init_publish ex_shm (ex_host ''file.bin'') still ex_stop 1 0 p1 = Some (Init_done True,
     upd_dso 0 (\<lambda>s. s\<lparr>gp_shm_handle := True, gp_instance := Some 1\<rparr>) (p1\<lparr>pr_shm := Some 1\<rparr>))"
    by (simp add: init_publish_def p1_def process_new_def ex_shm_def)
  ultimately show ?thesis by (simp add: p8_initialize_def)
qed

theorem early_caller_silent_witness:
  "\<exists>w cl1 p2. get_tls ex_early_in 0 0 Kind_log ex_early = Some (w, cl1)
    \<and> p8_initialize ex_shm (ex_host ''file.bin'') still ex_stop (Some 1) (Some ex_config) 0 (process_new None) = Some (True, p2)
    \<and> p8_log_sent ex_early_in 0 0 e_p8_error0 None 0 3 (Some [97]) None None (Some [120]) [] (cl1\<lparr>cl_process := p2\<rparr>)
        = Some (False, cl1\<lparr>cl_process := p2\<rparr>)"
proof -
  have pre: "(0, Kind_log) \<notin> set (cl_made ex_early 0)" "pr_writer (cl_process ex_early) (cl_addr ex_early 0 0 Kind_log) = None"
    "get_global_core (ci_shm ex_early_in) (ci_drift ex_early_in) P8_CORE_ACQUIRE_TIMEOUT_MS 0 (cl_process ex_early) = Some (None, process_new None)"
    using ex_early_none by (simp_all add: ex_early_def ex_early_in_def) (simp add: process_new_def)
  obtain p2 where i: "p8_initialize ex_shm (ex_host ''file.bin'') still ex_stop (Some 1) (Some ex_config) 0 (process_new None) = Some (True, p2)"
    using ex_early_initialize by blast
  from early_caller_silent [OF pre] obtain w cl1 where g: "get_tls ex_early_in 0 0 Kind_log ex_early = Some (w, cl1)"
    and l: "\<forall>sh ou env is al cfg e ok p2. p8_initialize sh ou env is al cfg e (cl_process cl1) = Some (ok, p2) \<longrightarrow>
        unheard 0 0 Kind_log (cl1\<lparr>cl_process := p2\<rparr>)" by blast
  have "cl_process cl1 = process_new None"
    using g pre by (auto simp: get_tls_def new_tls_def writer_start_def Let_def)
  with i l have "unheard 0 0 Kind_log (cl1\<lparr>cl_process := p2\<rparr>)" by metis
  with g i show ?thesis unfolding unheard_def by auto
qed

end
