(* ===== verification/P8_Program.thy ===== *)
theory P8_Program
  imports P8_Interface P8_Scopes
begin

text \<open>
  A whole program in one shared object: its threads initialize and release the core, log, emit, trace, register and exit in any
  order, and cores do what they do by themselves. Here are the steps, an invariant of the process with all its threads' writers,
  and that it holds at the start and after each step of initializing, releasing and working; the other steps
  follow in \<open>P8_Program_Calls\<close>.
\<close>

section \<open>Steps\<close>

text \<open>The calls of one thread that need a writer. \<open>C_group\<close> stands for the functions that are not implemented, which
  make the metrics writer and nothing else.\<close>

datatype c_call =
    C_log e_p8_level p_p8_module u64 u32 cstr "cstr option" "s_p8_attr_val list option" "cstr option" "va_arg list"
  | C_emit i32 u64
  | C_begin "cstr option" u32 "cstr option" "cstr option" "s_p8_attr_val list option"
  | C_begin_async u64 "cstr option" u32 "cstr option" "cstr option" "s_p8_attr_val list option"
  | C_end u64
  | C_group "s_p8_mtk_base option" bool

fun call_writer :: "c_call \<Rightarrow> writer_kind" where
  "call_writer (C_log _ _ _ _ _ _ _ _ _) = Kind_log"
| "call_writer (C_emit _ _) = Kind_mtk"
| "call_writer (C_group _ _) = Kind_mtk"
| "call_writer _ = Kind_trc"

fun do_call :: "'m client_in \<Rightarrow> nat \<Rightarrow> c_call \<Rightarrow> ('f, 'm) client \<Rightarrow> ('f, 'm) client option" where
  "do_call ci t (C_log lv md tr ln fl fn ats fmt args) cl = map_option snd (p8_log_sent ci t 0 lv md tr ln (Some fl) fn ats fmt args cl)"
| "do_call ci t (C_emit i v) cl = map_option snd (p8_mtk_emit ci t 0 i v cl)"
| "do_call ci t (C_begin nm ln fl fn ats) cl = map_option snd (p8_trc_begin ci t 0 nm ln fl fn ats cl)"
| "do_call ci t (C_begin_async pa nm ln fl fn ats) cl = map_option snd (p8_trc_begin_async ci t 0 pa nm ln fl fn ats cl)"
| "do_call ci t (C_end i) cl = p8_trc_end ci t 0 i cl"
| "do_call ci t (C_group base mt) cl = map_option snd (p8_mtk_create_group ci t 0 base mt cl)"

fun kind_code :: "writer_kind \<Rightarrow> byte" where
  "kind_code Kind_log = P8_PACKET_LOGS"
| "kind_code Kind_mtk = P8_PACKET_METRICS"
| "kind_code Kind_trc = P8_PACKET_TRACES"

text \<open>What a call relies on: other threads serve it when it waits and leave alone what is its own; its thread is
  not waiting already; while it polls for a core nobody publishes or removes one; there is room for one more writer.\<close>

definition call_ready :: "(byte list \<Rightarrow> u64) \<Rightarrow> 'm shm_ops \<Rightarrow> ('m \<Rightarrow> nat option) \<Rightarrow> 'm client_in \<Rightarrow> byte \<Rightarrow> ('f, 'm) client \<Rightarrow> bool" where
  "call_ready xxh sh pub ci ty cl \<longleftrightarrow> ci_xxh ci = xxh \<and> ci_shm ci = sh \<and> (\<forall>n m. pub (ci_drift ci n m) = pub m)
     \<and> calm_threads xxh ty (ci_self ci) (ci_env ci) \<and> others_serve xxh ty (ci_self ci) (ci_env ci)
     \<and> (\<forall>a ob. pr_cores (cl_process cl) a = Some ob \<longrightarrow> may_wait (ci_self ci) (ob_core ob))
     \<and> card (dom (pr_writer (cl_process cl))) + 2 < 2 ^ 32"

text \<open>What a core does by itself: cycles of the worker, registrations. References and what writers are stay,
  registries grow, a writer's buffers are of its kind.\<close>

definition eases :: "(byte list \<Rightarrow> u64) \<Rightarrow> nat \<Rightarrow> 'f core_obj \<Rightarrow> 'f core_obj \<Rightarrow> bool" where
  "eases xxh w ob ob' \<longleftrightarrow> grows xxh (ob_core ob) (ob_core ob')
     \<and> (let n = wn_writer (wl_node (ob_writers ob) w); n' = wn_writer (wl_node (ob_writers ob') w)
        in mp_core n' = mp_core n
          \<and> (\<forall>ty. (\<forall>b \<in> set (bufs n). co_mem (ob_core ob) b 0 = ty) \<longrightarrow> (\<forall>b \<in> set (bufs n'). co_mem (ob_core ob') b 0 = ty)))"

inductive client_step :: "(byte list \<Rightarrow> u64) \<Rightarrow> 'm shm_ops \<Rightarrow> ('m \<Rightarrow> nat option) \<Rightarrow> 'f outside \<Rightarrow> ('f, 'm) client \<Rightarrow> ('f, 'm) client \<Rightarrow> bool"
  for xxh sh pub ou where
  cs_begin: "pr_call (cl_process cl) t = None \<Longrightarrow>
     (\<And>a. al = Some a \<Longrightarrow> pr_cores (cl_process cl) a = None \<and> (\<forall>e. instance_of (cl_process cl) e \<noteq> Some a)) \<Longrightarrow>
     init_begin sh ou al cfg 0 (cl_process cl) = Some (ph, p') \<Longrightarrow>
     client_step xxh sh pub ou cl (cl\<lparr>cl_process := set_call t (phase_of 0 ph) p'\<rparr>)"
| cs_publish: "pr_call (cl_process cl) t = Some (0, Init_publish a) \<Longrightarrow>
     init_publish sh ou env is a 0 (cl_process cl) = Some (ph, p') \<Longrightarrow>
     client_step xxh sh pub ou cl (cl\<lparr>cl_process := set_call t (phase_of 0 ph) p'\<rparr>)"
| cs_adopt: "pr_call (cl_process cl) t = Some (0, Init_adopt) \<Longrightarrow> init_adopt sh 0 (cl_process cl) = (ph, p') \<Longrightarrow>
     client_step xxh sh pub ou cl (cl\<lparr>cl_process := set_call t (phase_of 0 ph) p'\<rparr>)"
| cs_release: "p8_release sh ou env is 0 (cl_process cl) = Some p' \<Longrightarrow> client_step xxh sh pub ou cl (cl\<lparr>cl_process := p'\<rparr>)"
| cs_call: "call_ready xxh sh pub ci (kind_code (call_writer x)) cl \<Longrightarrow> do_call ci t x cl = Some cl' \<Longrightarrow> client_step xxh sh pub ou cl cl'"
| cs_attr: "p8_attr_register x y nm ty 0 (cl_process cl) = Some (r, p') \<Longrightarrow> client_step xxh sh pub ou cl (cl\<lparr>cl_process := p'\<rparr>)"
| cs_module: "(\<And>n m. pub (drift n m) = pub m) \<Longrightarrow> p8_log_register_module sh drift x y nm lv om 0 (cl_process cl) = Some (r, p') \<Longrightarrow>
     client_step xxh sh pub ou cl (cl\<lparr>cl_process := p'\<rparr>)"
| cs_verbosity: "(\<And>n m. pub (drift n m) = pub m) \<Longrightarrow> p8_log_set_verbosity sh drift md lv 0 (cl_process cl) = Some (r, p') \<Longrightarrow>
     client_step xxh sh pub ou cl (cl\<lparr>cl_process := p'\<rparr>)"
| cs_metric: "ci_shm ci = sh \<Longrightarrow> (\<And>n m. pub (ci_drift ci n m) = pub m) \<Longrightarrow> card (dom (pr_writer (cl_process cl))) + 2 < 2 ^ 32 \<Longrightarrow>
     p8_mtk_create ci al t 0 base cl = Some (r, cl') \<Longrightarrow> client_step xxh sh pub ou cl cl'"
| cs_exit: "thread_exit ou env is t cl = Some cl' \<Longrightarrow> client_step xxh sh pub ou cl cl'"
| cs_work: "pr_cores (cl_process cl) a = Some ob \<Longrightarrow> works ob ob' \<Longrightarrow> grows xxh (ob_core ob) (ob_core ob') \<Longrightarrow>
     (\<And>w. w \<in> writers_on (cl_process cl) a \<Longrightarrow> eases xxh w ob ob') \<Longrightarrow>
     client_step xxh sh pub ou cl (cl\<lparr>cl_process := put_core a (Some ob') (cl_process cl)\<rparr>)"

inductive client_reach :: "(byte list \<Rightarrow> u64) \<Rightarrow> 'm shm_ops \<Rightarrow> ('m \<Rightarrow> nat option) \<Rightarrow> 'f outside \<Rightarrow> ('f, 'm) client \<Rightarrow> ('f, 'm) client \<Rightarrow> bool"
  for xxh sh pub ou cl0 where
  cr_init: "client_reach xxh sh pub ou cl0 cl0"
| cr_step: "client_reach xxh sh pub ou cl0 cl \<Longrightarrow> client_step xxh sh pub ou cl cl' \<Longrightarrow> client_reach xxh sh pub ou cl0 cl'"

definition addrs_apart :: "('f, 'm) client \<Rightarrow> bool" where
  "addrs_apart cl \<longleftrightarrow> (\<forall>t d k u e l. cl_addr cl t d k = cl_addr cl u e l \<longrightarrow> t = u \<and> d = e \<and> k = l)"

text \<open>At the start no thread has made a writer and the variables of thread-local storage are apart.\<close>

definition client_start :: "('m \<Rightarrow> nat option) \<Rightarrow> ('f, 'm) client \<Rightarrow> bool" where
  "client_start pub cl \<longleftrightarrow> (\<exists>m. pub m = None \<and> cl_process cl = process_new m) \<and> cl_made cl = (\<lambda>_. [])
     \<and> addrs_apart cl"

section \<open>The invariant\<close>

text \<open>One DSO: it has a pointer only to what it published itself.\<close>

definition solo :: "('f, 'm) process \<Rightarrow> bool" where
  "solo p \<longleftrightarrow> (\<forall>d. d \<noteq> 0 \<longrightarrow> \<not> owns p d) \<and> (instance_of p 0 \<noteq> None \<longrightarrow> owns p 0)"

definition slot_ok :: "('f, 'm) client \<Rightarrow> nat \<Rightarrow> writer_kind \<Rightarrow> bool" where
  "slot_ok cl w k \<longleftrightarrow> (\<forall>e a ob. pr_writer (cl_process cl) w = Some (e, a) \<longrightarrow> pr_cores (cl_process cl) a = Some ob \<longrightarrow>
     (let n = wn_writer (wl_node (ob_writers ob) w) in mp_core n
        \<and> (\<forall>b \<in> set (bufs n). co_mem (ob_core ob) b 0 = kind_code k)
        \<and> (k = Kind_log \<longrightarrow> cl_descs cl w \<subseteq>\<^sub>m mo_log_descs (ob_core ob))
        \<and> (k = Kind_trc \<longrightarrow> mo_descs (cl_trc cl w) \<subseteq> mo_trc_descs (ob_core ob))))"

definition slots_ok :: "('f, 'm) client \<Rightarrow> bool" where
  "slots_ok cl \<longleftrightarrow> (\<forall>w e a. pr_writer (cl_process cl) w = Some (e, a) \<longrightarrow>
       (\<exists>t d k. w = cl_addr cl t d k \<and> (d, k) \<in> set (cl_made cl t)))
     \<and> (\<forall>t d k. (d, k) \<in> set (cl_made cl t) \<longrightarrow> slot_ok cl (cl_addr cl t d k) k)"

definition cores_ok :: "(byte list \<Rightarrow> u64) \<Rightarrow> ('f, 'm) process \<Rightarrow> bool" where
  "cores_ok xxh p \<longleftrightarrow> (\<forall>a ob. pr_cores p a = Some ob \<longrightarrow> catalog xxh (ob_core ob))"

definition client_ok :: "(byte list \<Rightarrow> u64) \<Rightarrow> ('m \<Rightarrow> nat option) \<Rightarrow> ('f, 'm) client \<Rightarrow> bool" where
  "client_ok xxh pub cl \<longleftrightarrow> proc_ok pub (cl_process cl) \<and> solo (cl_process cl) \<and> cores_ok xxh (cl_process cl) \<and> slots_ok cl
     \<and> addrs_apart cl"

lemma start_ok:
  assumes "client_start pub cl"
  shows "client_ok xxh pub cl"
proof -
  obtain m where m: "pub m = None" "cl_process cl = process_new m" using assms by (auto simp: client_start_def)
  have "cl_made cl = (\<lambda>_. [])" using assms by (simp add: client_start_def)
  then have "slots_ok cl" unfolding slots_ok_def m(2) by (simp add: process_new_def)
  moreover have "solo (cl_process cl)" "cores_ok xxh (cl_process cl)" unfolding m(2)
    by (simp_all add: process_new_def solo_def cores_ok_def)
  moreover have "proc_ok pub (cl_process cl)" unfolding m(2) by (rule process_new_ok [of pub, OF m(1)])
  ultimately show ?thesis using assms unfolding client_ok_def client_start_def by blast
qed

section \<open>What a step leaves\<close>

lemma eases_refl [simp]: "eases xxh w ob ob"
  by (simp add: eases_def)

lemma eases_same:
  "ob_core ob' = ob_core ob \<Longrightarrow> ob_writers ob' = ob_writers ob \<Longrightarrow> eases xxh w ob ob'"
  by (simp add: eases_def)

lemma eases_trans: "eases xxh w ob ob1 \<Longrightarrow> eases xxh w ob1 ob2 \<Longrightarrow> eases xxh w ob ob2"
  unfolding eases_def Let_def using grows_trans by blast

text \<open>Cores change only as \<open>eases\<close> says for the writers that stay, new cores start with empty registries.\<close>

definition cores_ease :: "(byte list \<Rightarrow> u64) \<Rightarrow> ('f, 'm) process \<Rightarrow> ('f, 'm) process \<Rightarrow> bool" where
  "cores_ease xxh p p' \<longleftrightarrow> (\<forall>a ob'. pr_cores p' a = Some ob' \<longrightarrow>
     (case pr_cores p a of None \<Rightarrow> catalog xxh (ob_core ob')
      | Some ob \<Rightarrow> grows xxh (ob_core ob) (ob_core ob') \<and> (\<forall>w \<in> writers_on p' a. eases xxh w ob ob')))"

lemma cores_easeD:
  assumes "cores_ease xxh p p'" and "pr_cores p' a = Some ob'"
  shows "pr_cores p a = None \<Longrightarrow> catalog xxh (ob_core ob')" and "pr_cores p a = Some ob \<Longrightarrow> grows xxh (ob_core ob) (ob_core ob')"
    and "pr_cores p a = Some ob \<Longrightarrow> w \<in> writers_on p' a \<Longrightarrow> eases xxh w ob ob'"
  using assms(1) [unfolded cores_ease_def, rule_format, OF assms(2)] by simp_all

lemma cores_ease_ok:
  assumes "cores_ok xxh p" and "cores_ease xxh p p'"
  shows "cores_ok xxh p'"
  unfolding cores_ok_def
proof (intro allI impI)
  fix a ob'
  assume p: "pr_cores p' a = Some ob'"
  show "catalog xxh (ob_core ob')"
  proof (cases "pr_cores p a")
    case None
    show ?thesis by (rule cores_easeD(1) [OF assms(2) p None])
  next
    case (Some ob)
    have "catalog xxh (ob_core ob)" using assms(1) Some unfolding cores_ok_def by blast
    with cores_easeD(2) [OF assms(2) p Some] show ?thesis by (rule grows_catalog)
  qed
qed

lemma slot_ease:
  assumes ok: "slot_ok cl w k"
    and e: "\<And>d a ob ob'. pr_writer p' w = Some (d, a) \<Longrightarrow> pr_cores (cl_process cl) a = Some ob \<Longrightarrow> pr_cores p' a = Some ob' \<Longrightarrow> eases xxh w ob ob'"
    and live: "\<And>d a. pr_writer (cl_process cl) w = Some (d, a) \<Longrightarrow> pr_cores (cl_process cl) a \<noteq> None"
    and w: "\<And>d a. pr_writer p' w = Some (d, a) \<Longrightarrow> pr_writer (cl_process cl) w = Some (d, a)"
    and cl': "cl_process cl' = p'" "cl_descs cl' w = cl_descs cl w" "cl_trc cl' w = cl_trc cl w"
  shows "slot_ok cl' w k"
  unfolding slot_ok_def cl'
proof (intro allI impI)
  fix d a ob'
  assume p: "pr_writer p' w = Some (d, a)" "pr_cores p' a = Some ob'"
  from w [OF p(1)] live obtain ob where ob: "pr_cores (cl_process cl) a = Some ob" by blast
  have "eases xxh w ob ob'" by (rule e [OF p(1) ob p(2)])
  moreover from ok w [OF p(1)] ob have "mp_core (wn_writer (wl_node (ob_writers ob) w))
      \<and> (\<forall>b \<in> set (bufs (wn_writer (wl_node (ob_writers ob) w))). co_mem (ob_core ob) b 0 = kind_code k)
      \<and> (k = Kind_log \<longrightarrow> cl_descs cl w \<subseteq>\<^sub>m mo_log_descs (ob_core ob))
      \<and> (k = Kind_trc \<longrightarrow> mo_descs (cl_trc cl w) \<subseteq> mo_trc_descs (ob_core ob))" by (auto simp: slot_ok_def Let_def)
  ultimately show "let n = wn_writer (wl_node (ob_writers ob') w) in mp_core n
        \<and> (\<forall>b \<in> set (bufs n). co_mem (ob_core ob') b 0 = kind_code k)
        \<and> (k = Kind_log \<longrightarrow> cl_descs cl w \<subseteq>\<^sub>m mo_log_descs (ob_core ob'))
        \<and> (k = Kind_trc \<longrightarrow> mo_descs (cl_trc cl w) \<subseteq> mo_trc_descs (ob_core ob'))"
    unfolding eases_def Let_def grows_def using map_le_trans by blast
qed

lemma writer_live:
  assumes "proc_ok pub p" and "pr_writer p w = Some (d, a)"
  shows "pr_cores p a \<noteq> None"
  using no_core_no_refs(1) [OF assms(1), of a] assms(2) by (auto simp: writers_on_def)

lemma addrs_cong: "cl_addr cl' = cl_addr cl \<Longrightarrow> addrs_apart cl' = addrs_apart cl"
  unfolding addrs_apart_def by (simp only:)

text \<open>A step of the process that only takes writers away.\<close>

lemma client_ease:
  assumes ok: "client_ok xxh pub cl" and p': "proc_ok pub p'" "solo p'" and e: "cores_ease xxh (cl_process cl) p'"
    and w: "\<And>v d a. pr_writer p' v = Some (d, a) \<Longrightarrow> pr_writer (cl_process cl) v = Some (d, a)"
  shows "client_ok xxh pub (cl\<lparr>cl_process := p'\<rparr>)"
proof -
  let ?cl = "cl\<lparr>cl_process := p'\<rparr>"
  have s1: "slot_ok ?cl (cl_addr cl t d k) k" if m: "(d, k) \<in> set (cl_made cl t)" for t d k
  proof (rule slot_ease)
    fix f a ob ob'
    assume p: "pr_writer p' (cl_addr cl t d k) = Some (f, a)" "pr_cores (cl_process cl) a = Some ob" "pr_cores p' a = Some ob'"
    then have "cl_addr cl t d k \<in> writers_on p' a" by (auto simp: writers_on_def)
    then show "eases xxh (cl_addr cl t d k) ob ob'" by (rule cores_easeD(3) [OF e p(3,2)])
  next
    show "slot_ok cl (cl_addr cl t d k) k" using ok m unfolding client_ok_def slots_ok_def by blast
    show "pr_cores (cl_process cl) a \<noteq> None" if "pr_writer (cl_process cl) (cl_addr cl t d k) = Some (f, a)" for f a
      by (rule writer_live [of pub, OF _ that]) (use ok in \<open>simp add: client_ok_def\<close>)
    show "pr_writer (cl_process cl) (cl_addr cl t d k) = Some (f, a)" if "pr_writer p' (cl_addr cl t d k) = Some (f, a)" for f a
      by (rule w [OF that])
  qed simp_all
  have s2: "\<exists>t d k. v = cl_addr cl t d k \<and> (d, k) \<in> set (cl_made cl t)" if "pr_writer p' v = Some (d, a)" for v d a
    using ok w [OF that] unfolding client_ok_def slots_ok_def by blast
  have "slots_ok ?cl"
    unfolding slots_ok_def
  proof (intro conjI allI impI)
    fix v d a
    assume "pr_writer (cl_process ?cl) v = Some (d, a)"
    then have "pr_writer p' v = Some (d, a)" by simp
    from s2 [OF this] show "\<exists>t d k. v = cl_addr ?cl t d k \<and> (d, k) \<in> set (cl_made ?cl t)" by simp
  next
    fix t d k
    assume "(d, k) \<in> set (cl_made ?cl t)"
    then have "(d, k) \<in> set (cl_made cl t)" by simp
    from s1 [OF this] show "slot_ok ?cl (cl_addr ?cl t d k) k" by simp
  qed
  moreover have "addrs_apart ?cl" using ok addrs_cong [of ?cl cl] by (simp add: client_ok_def)
  moreover have "cores_ok xxh p'" by (rule cores_ease_ok [OF _ e]) (use ok in \<open>simp add: client_ok_def\<close>)
  ultimately show ?thesis using p' by (simp add: client_ok_def)
qed


section \<open>Steps of the process\<close>

lemma created_catalog:
  assumes "core_create ou c = Some ob" and "get_initialized ob"
  shows "catalog xxh (ob_core ob)"
  using assms(1)
proof (cases rule: core_create_cases)
  case (ready j p v sk sk1)
  have n: "names_of kind (ob_core ob) = {}" for kind
    by (cases kind) (simp_all add: ready(5) core_ready_def made_core_def start_worker_def core_blank_def core_new_def init_batch_ticks_def Let_def)
  have "mo_log_descs (ob_core ob) = Map.empty" "mo_trc_descs (ob_core ob) = {}"
    by (simp_all add: ready(5) core_ready_def made_core_def start_worker_def core_blank_def core_new_def init_batch_ticks_def Let_def)
  with n show ?thesis by (simp add: catalog_def)
qed (use assms(2) in \<open>simp_all add: get_initialized_def\<close>)

text \<open>Cores that stay as they are but for their count.\<close>

lemma cores_ease_kept:
  assumes "\<And>a ob'. pr_cores p' a = Some ob' \<Longrightarrow> \<exists>ob. pr_cores p a = Some ob \<and> ob_core ob' = ob_core ob \<and> ob_writers ob' = ob_writers ob"
  shows "cores_ease xxh p p'"
  unfolding cores_ease_def
proof (intro allI impI)
  fix a ob'
  assume "pr_cores p' a = Some ob'"
  from assms [OF this] obtain ob where ob: "pr_cores p a = Some ob" "ob_core ob' = ob_core ob" "ob_writers ob' = ob_writers ob" by blast
  then show "case pr_cores p a of None \<Rightarrow> catalog xxh (ob_core ob')
      | Some ob \<Rightarrow> grows xxh (ob_core ob) (ob_core ob') \<and> (\<forall>w \<in> writers_on p' a. eases xxh w ob ob')"
    by (simp add: eases_same)
qed

lemma solo_links: "same_links pub p p' \<Longrightarrow> solo p' = solo p"
  by (simp add: solo_def same_links_def)

lemma solo_fields: "(\<And>d. instance_of q d = instance_of p d \<and> owns q d = owns p d) \<Longrightarrow> solo q = solo p"
  by (simp add: solo_def)

text \<open>The published core is the DSO's own.\<close>

lemma solo_found:
  assumes "proc_ok pub p" and "solo p" and "pub (pr_shm p) = Some a"
  shows "solo (set_instance 0 (Some a) (p\<lparr>pr_shm := m\<rparr>))"
proof -
  obtain d where "owns p d" using assms(1,3) unfolding proc_ok_def owners_ok_def by blast
  with assms(2) have "owns p 0" unfolding solo_def by metis
  with assms(2) show ?thesis by (simp add: solo_def set_instance_def)
qed

lemma solo_instance:
  assumes "proc_ok pub p" and "solo p" and "instance_of p 0 = Some a"
  shows "pub (pr_shm p) = Some a"
proof -
  have "owns p 0" using assms(2,3) by (simp add: solo_def)
  moreover have "owners_ok pub p" using assms(1) by (simp add: proc_ok_def)
  ultimately show ?thesis using assms(3) unfolding owners_ok_def by metis
qed

lemma client_links:
  assumes ok: "client_ok xxh pub cl" and p': "proc_ok pub p'" "solo p'" and w: "pr_writer p' = pr_writer (cl_process cl)"
    and c: "\<And>a ob'. pr_cores p' a = Some ob' \<Longrightarrow> \<exists>ob. pr_cores (cl_process cl) a = Some ob \<and> ob_core ob' = ob_core ob \<and> ob_writers ob' = ob_writers ob"
  shows "client_ok xxh pub (cl\<lparr>cl_process := p'\<rparr>)"
  by (rule client_ease [OF ok p' cores_ease_kept]) (use w c in auto)

lemma step_begin:
  assumes law: "shm_law sh pub" and ok: "client_ok xxh pub cl" and t: "pr_call (cl_process cl) t = None"
    and al: "\<And>a. al = Some a \<Longrightarrow> pr_cores (cl_process cl) a = None \<and> (\<forall>e. instance_of (cl_process cl) e \<noteq> Some a)"
    and s: "init_begin sh ou al cfg 0 (cl_process cl) = Some (ph, p')"
  shows "client_ok xxh pub (cl\<lparr>cl_process := set_call t (phase_of 0 ph) p'\<rparr>)"
proof -
  let ?p = "cl_process cl" and ?q = "set_call t (phase_of 0 ph) p'"
  have pk: "proc_ok pub ?p" "solo ?p" using ok by (simp_all add: client_ok_def)
  have q: "proc_ok pub ?q" by (rule init_begin_ok [OF law pk(1) t al s])
  have sq: "solo ?q = solo p'" by (rule solo_fields) simp
  from s show ?thesis
  proof (cases rule: init_begin_cases)
    case (early b)
    then show ?thesis by (intro client_links [OF ok q]) (use sq pk in simp_all)
  next
    case (found a)
    then have "pub (pr_shm ?p) = Some a" using law by (simp add: shm_law_def)
    from solo_found [OF pk this, of "pr_shm ?p"] found have "solo p'" by simp
    then show ?thesis by (intro client_links [OF ok q]) (use found sq in \<open>simp_all add: set_instance_def\<close>)
  next
    case (failed a ob)
    from delete_core_effect [OF failed(3), of pub] al [OF failed(1)]
    have l: "same_links pub ?p p'" and c: "pr_cores p' = (pr_cores ?p)(a := None)" by (auto simp: same_links_def)
    then have "solo p'" "pr_writer p' = pr_writer ?p" using pk solo_links [OF l] by (simp_all add: same_links_def)
    then show ?thesis by (intro client_links [OF ok q]) (use c sq in \<open>auto split: if_splits\<close>)
  next
    case (made a ob c)
    have n: "pr_cores ?p a = None" using al [OF made(1)] by simp
    have "solo ?q" using pk(2) by (simp add: made(6) solo_def)
    moreover have "cores_ease xxh ?p ?q" unfolding cores_ease_def
      using n created_catalog [OF made(3,4)] by (auto simp: made(6) split: option.split)
    ultimately show ?thesis by (intro client_ease [OF ok q]) (simp_all add: made(6))
  qed
qed

lemma step_publish:
  assumes law: "shm_law sh pub" and ok: "client_ok xxh pub cl" and t: "pr_call (cl_process cl) t = Some (0, Init_publish a)"
    and s: "init_publish sh ou env is a 0 (cl_process cl) = Some (ph, p')"
  shows "client_ok xxh pub (cl\<lparr>cl_process := set_call t (phase_of 0 ph) p'\<rparr>)"
proof -
  let ?p = "cl_process cl" and ?q = "set_call t (phase_of 0 ph) p'"
  have pk: "proc_ok pub ?p" "solo ?p" using ok by (simp_all add: client_ok_def)
  have q: "proc_ok pub ?q" by (rule init_publish_ok [OF law pk(1) t s])
  have sq: "solo ?q = solo p'" by (rule solo_fields) simp
  obtain b m where c: "sh_create sh a (pr_shm ?p) = (b, m)" by fastforce
  show ?thesis
  proof (cases b)
    case True
    with s c have p': "p' = upd_dso 0 (\<lambda>s. s\<lparr>gp_shm_handle := True, gp_instance := Some a\<rparr>) (?p\<lparr>pr_shm := m\<rparr>)"
      by (simp add: init_publish_def)
    with pk(2) have "solo p'" by (simp add: solo_def)
    then show ?thesis by (intro client_links [OF ok q]) (use p' sq in simp_all)
  next
    case False
    with s c have dl: "delete_core ou env is 0 a (?p\<lparr>pr_shm := m\<rparr>) = Some p'"
      by (auto simp: init_publish_def split: bind_splits)
    from delete_core_effect [OF dl, of pub] have l: "same_links pub (?p\<lparr>pr_shm := m\<rparr>) p'" and co: "pr_cores p' = (pr_cores ?p)(a := None)"
      by simp_all
    then have "solo p'" "pr_writer p' = pr_writer ?p" using pk(2) by (simp_all add: same_links_def solo_def)
    then show ?thesis by (intro client_links [OF ok q]) (use co sq in \<open>auto split: if_splits\<close>)
  qed
qed

lemma step_adopt:
  assumes law: "shm_law sh pub" and ok: "client_ok xxh pub cl" and t: "pr_call (cl_process cl) t = Some (0, Init_adopt)"
    and s: "init_adopt sh 0 (cl_process cl) = (ph, p')"
  shows "client_ok xxh pub (cl\<lparr>cl_process := set_call t (phase_of 0 ph) p'\<rparr>)"
proof -
  let ?p = "cl_process cl" and ?q = "set_call t (phase_of 0 ph) p'"
  have pk: "proc_ok pub ?p" "solo ?p" using ok by (simp_all add: client_ok_def)
  have q: "proc_ok pub ?q" by (rule init_adopt_ok [OF law pk(1) t s])
  obtain r m where l: "locked_read sh (pr_shm ?p) = (r, m)" by fastforce
  note lr = locked_read_law [OF law l]
  have "solo p' \<and> pr_writer p' = pr_writer ?p \<and> pr_cores p' = pr_cores ?p"
  proof (cases r)
    case None
    with s l have "p' = ?p\<lparr>pr_shm := m\<rparr>" by (simp add: init_adopt_def)
    with pk(2) show ?thesis by (simp add: solo_def)
  next
    case (Some a)
    with s l have "p' = set_instance 0 (Some a) (?p\<lparr>pr_shm := m\<rparr>)" by (simp add: init_adopt_def)
    with solo_found [OF pk lr(2) [OF Some]] show ?thesis by (simp add: set_instance_def)
  qed
  then show ?thesis by (intro client_links [OF ok q]) (simp_all add: solo_fields [of "set_call t (phase_of 0 ph) p'" p'])
qed

lemma step_release:
  assumes law: "shm_law sh pub" and ok: "client_ok xxh pub cl" and s: "p8_release sh ou env is 0 (cl_process cl) = Some p'"
  shows "client_ok xxh pub (cl\<lparr>cl_process := p'\<rparr>)"
proof -
  let ?p = "cl_process cl"
  have pk: "proc_ok pub ?p" "solo ?p" using ok by (simp_all add: client_ok_def)
  have q: "proc_ok pub p'" by (rule release_ok [OF law pk(1) _ s]) (use pk(2) in \<open>auto simp: solo_def\<close>)
  show ?thesis
  proof (cases "instance_of ?p 0")
    case None
    with s have "p' = ?p" by (simp add: p8_release_def)
    with ok show ?thesis by simp
  next
    case (Some a)
    let ?m = "if owns ?p 0 then sh_close sh (pr_shm ?p) else pr_shm ?p"
    let ?p1 = "upd_dso 0 (\<lambda>s. s\<lparr>gp_shm_handle := False\<rparr>) (?p\<lparr>pr_shm := sh_unlink sh ?m\<rparr>)"
    from s Some obtain p2 where rc: "release_core ou env is 0 a ?p1 = Some p2" and p': "p' = set_instance 0 None p2"
      by (auto simp: p8_release_def Let_def split: bind_splits)
    obtain ob where ob: "pr_cores ?p1 a = Some ob" and l: "same_links pub ?p1 p2"
      and co: "pr_cores p2 = (pr_cores ?p1)(a := if mu_ref_count ob = 1 then None else Some (ob\<lparr>mu_ref_count := mu_ref_count ob - 1\<rparr>))"
      by (rule release_core_effect [OF rc, of pub])
    have "solo p'" using l pk(2) by (simp add: p' solo_def set_instance_def same_links_def)
    moreover have "pr_writer p' = pr_writer ?p" using l by (simp add: p' set_instance_def same_links_def)
    ultimately show ?thesis
      by (intro client_links [OF ok q]) (use co ob in \<open>auto simp: p' set_instance_def split: if_splits\<close>)
  qed
qed

lemma step_work:
  assumes ok: "client_ok xxh pub cl" and ob: "pr_cores (cl_process cl) a = Some ob" and w: "works ob ob'"
    and g: "grows xxh (ob_core ob) (ob_core ob')" and e: "\<And>w. w \<in> writers_on (cl_process cl) a \<Longrightarrow> eases xxh w ob ob'"
  shows "client_ok xxh pub (cl\<lparr>cl_process := put_core a (Some ob') (cl_process cl)\<rparr>)"
proof -
  let ?p = "cl_process cl" and ?q = "put_core a (Some ob') (cl_process cl)"
  have pk: "proc_ok pub ?p" "solo ?p" using ok by (simp_all add: client_ok_def)
  have "writers_on ?q = writers_on ?p" by (simp add: writers_on_def fun_eq_iff)
  then have "cores_ease xxh ?p ?q" unfolding cores_ease_def using ob g e by (auto simp: grows_def split: option.split)
  moreover have "solo ?q" using pk(2) by (simp add: solo_def)
  ultimately show ?thesis by (intro client_ease [OF ok work_ok [OF pk(1) ob w]]) simp_all
qed

end
