(* ===== verification/P8_Program_Calls.thy ===== *)
theory P8_Program_Calls
  imports P8_Program "HOL-Library.Countable"
begin

text \<open>
  The rest of the steps of a program keep its invariant: calls with the thread's writer, registrations, threads
  that exit. Shown then: what calls return in every state the program reaches, and which cores there are.
\<close>

section \<open>The thread's writer\<close>

lemma poll_times_quiet:
  assumes law: "shm_law sh pub" and q: "\<forall>n m. pub (drift n m) = pub m" and "poll_times sh drift k n m = (r, m')"
  shows "pub m' = pub m" and "r = Some a \<Longrightarrow> pub m = Some a"
proof -
  have "pub m' = pub m \<and> (r = Some a \<longrightarrow> pub m = Some a)"
    using assms(3)
  proof (induction k arbitrary: n m)
    case 0
    then show ?case by simp
  next
    case (Suc k)
    obtain r1 m1 where l: "locked_read sh m = (r1, m1)" by fastforce
    note lr = locked_read_law [OF law l]
    show ?case
    proof (cases r1)
      case None
      with Suc.prems l have "poll_times sh drift k (Suc n) (drift n m1) = (r, m')" by simp
      from Suc.IH [OF this] q lr(1) show ?thesis by simp
    next
      case (Some b)
      with Suc.prems l lr show ?thesis by simp
    qed
  qed
  then show "pub m' = pub m" and "r = Some a \<Longrightarrow> pub m = Some a" by simp_all
qed

lemma find_core:
  assumes law: "shm_law sh pub" and ok: "proc_ok pub p" "solo p" and q: "\<forall>n m. pub (drift n m) = pub m"
  obtains p1 where "get_global_core sh drift P8_CORE_ACQUIRE_TIMEOUT_MS 0 p = Some (instance_of p1 0, p1)"
    and "proc_ok pub p1" and "solo p1" and "pr_writer p1 = pr_writer p" and "pr_cores p1 = pr_cores p"
proof (cases "instance_of p 0")
  case (Some a)
  then show thesis using ok by (intro that [of p]) (simp_all add: get_global_core_def)
next
  case None
  let ?k = "(unat (P8_CORE_ACQUIRE_TIMEOUT_MS - 0) + 9) div 10"
  obtain r m where t: "poll_times sh drift 10 0 (pr_shm p) = (r, m)" by fastforce
  have "poll_core sh drift P8_CORE_ACQUIRE_TIMEOUT_MS 0 0 (pr_shm p) = Some (poll_times sh drift 10 0 (pr_shm p))"
    by (rule poll_core_times) simp_all
  then have g: "get_global_core sh drift P8_CORE_ACQUIRE_TIMEOUT_MS 0 p =
      Some (r, if r \<noteq> None then set_instance 0 r (p\<lparr>pr_shm := m\<rparr>) else p\<lparr>pr_shm := m\<rparr>)"
    using None t by (simp add: get_global_core_def Let_def)
  note pq = poll_times_quiet [OF law q t]
  have ok1: "proc_ok pub (p\<lparr>pr_shm := m\<rparr>)" by (rule set_shm_ok [OF ok(1) pq(1)])
  show thesis
  proof (cases r)
    case None
    then show thesis using ok1 ok(2) \<open>instance_of p 0 = None\<close> g
      by (intro that [of "p\<lparr>pr_shm := m\<rparr>"]) (simp_all add: solo_def)
  next
    case (Some a)
    have "pub (pr_shm (p\<lparr>pr_shm := m\<rparr>)) = Some a" using pq Some by simp
    from set_instance_ok [OF ok1 this, of 0] solo_found [OF ok pq(2) [OF Some], of m] g Some show thesis
      by (intro that [of "set_instance 0 (Some a) (p\<lparr>pr_shm := m\<rparr>)"]) (simp_all add: set_instance_def)
  qed
qed

lemma writer_start_effect:
  assumes "writer_start w th d (instance_of p d) p = Some p'" and "pr_writer p w = None"
  shows "pr_dso p' = pr_dso p" and "v \<noteq> w \<Longrightarrow> pr_writer p' v = pr_writer p v"
    and "pr_writer p' w = map_option (Pair d) (instance_of p d)"
    and "map_option ob_core (pr_cores p' a) = map_option ob_core (pr_cores p a)"
    and "pr_cores p a = Some ob \<Longrightarrow> pr_cores p' a = Some ob' \<Longrightarrow> v \<noteq> w \<Longrightarrow>
      wn_writer (wl_node (ob_writers ob') v) = wn_writer (wl_node (ob_writers ob) v)"
    and "instance_of p d = Some a \<Longrightarrow> pr_cores p' a = Some ob' \<Longrightarrow> \<exists>i. wn_writer (wl_node (ob_writers ob') w) = (tls_writer_create True th 0)\<lparr>mu_writer_id := i\<rparr>"
proof -
  have "pr_dso p' = pr_dso p \<and> (\<forall>v. v \<noteq> w \<longrightarrow> pr_writer p' v = pr_writer p v) \<and> pr_writer p' w = map_option (Pair d) (instance_of p d)
    \<and> (\<forall>a. map_option ob_core (pr_cores p' a) = map_option ob_core (pr_cores p a))
    \<and> (\<forall>a ob ob' v. pr_cores p a = Some ob \<longrightarrow> pr_cores p' a = Some ob' \<longrightarrow> v \<noteq> w \<longrightarrow>
        wn_writer (wl_node (ob_writers ob') v) = wn_writer (wl_node (ob_writers ob) v))
    \<and> (\<forall>a ob'. instance_of p d = Some a \<longrightarrow> pr_cores p' a = Some ob' \<longrightarrow>
        (\<exists>i. wn_writer (wl_node (ob_writers ob') w) = (tls_writer_create True th 0)\<lparr>mu_writer_id := i\<rparr>))"
  proof (cases "instance_of p d")
    case None
    with assms show ?thesis by (simp add: writer_start_def)
  next
    case (Some a)
    with assms obtain ob where ob: "pr_cores p a = Some ob" and p': "p' = (put_core a (Some ((addref ob)\<lparr>ob_writers :=
        writer_attach w th (ob_writers (addref ob))\<rparr>)) p)\<lparr>pr_writer := (pr_writer p)(w \<mapsto> (d, a))\<rparr>"
      by (auto simp: writer_start_def Let_def split: bind_splits)
    with Some show ?thesis by (auto simp: addref_def writer_attach_def register_nodes)
  qed
  then show "pr_dso p' = pr_dso p" and "v \<noteq> w \<Longrightarrow> pr_writer p' v = pr_writer p v"
    and "pr_writer p' w = map_option (Pair d) (instance_of p d)"
    and "map_option ob_core (pr_cores p' a) = map_option ob_core (pr_cores p a)"
    and "pr_cores p a = Some ob \<Longrightarrow> pr_cores p' a = Some ob' \<Longrightarrow> v \<noteq> w \<Longrightarrow>
      wn_writer (wl_node (ob_writers ob') v) = wn_writer (wl_node (ob_writers ob) v)"
    and "instance_of p d = Some a \<Longrightarrow> pr_cores p' a = Some ob' \<Longrightarrow> \<exists>i. wn_writer (wl_node (ob_writers ob') w) = (tls_writer_create True th 0)\<lparr>mu_writer_id := i\<rparr>"
    by blast+
qed

lemma eases_other:
  "ob_core ob' = ob_core ob \<Longrightarrow> wn_writer (wl_node (ob_writers ob') w) = wn_writer (wl_node (ob_writers ob) w) \<Longrightarrow> eases xxh w ob ob'"
  by (simp add: eases_def)

text \<open>The writer of a thread is there after \<open>get_tls\<close>, and cores are but for who refers to them.\<close>

lemma tls_ok:
  assumes law: "shm_law sh pub" and ok: "client_ok xxh pub cl" and sh: "ci_shm ci = sh" and q: "\<forall>n m. pub (ci_drift ci n m) = pub m"
    and few: "card (dom (pr_writer (cl_process cl))) + 2 < 2 ^ 32"
  obtains cl1 where "get_tls ci t 0 k cl = Some (cl_addr cl t 0 k, cl1)" and "client_ok xxh pub cl1" and "(0, k) \<in> set (cl_made cl1 t)"
    and "cl_addr cl1 = cl_addr cl"
    and "\<And>a. map_option ob_core (pr_cores (cl_process cl1) a) = map_option ob_core (pr_cores (cl_process cl) a)"
proof (cases "(0, k) \<in> set (cl_made cl t)")
  case True
  with ok show thesis by (intro that [of cl]) (simp_all add: get_tls_def Let_def)
next
  case False
  let ?p = "cl_process cl" and ?w = "cl_addr cl t 0 k"
  have pk: "proc_ok pub ?p" "solo ?p" and ap: "addrs_apart cl" and sl: "slots_ok cl" and co: "cores_ok xxh ?p"
    using ok by (simp_all add: client_ok_def)
  obtain p1 where g: "get_global_core sh (ci_drift ci) P8_CORE_ACQUIRE_TIMEOUT_MS 0 ?p = Some (instance_of p1 0, p1)"
    and ok1: "proc_ok pub p1" "solo p1" and w1: "pr_writer p1 = pr_writer ?p" and c1: "pr_cores p1 = pr_cores ?p"
    by (rule find_core [OF law pk q])
  have fresh: "pr_writer ?p ?w = None"
  proof (rule ccontr)
    assume "pr_writer ?p ?w \<noteq> None"
    then obtain e a where "pr_writer ?p ?w = Some (e, a)" by auto
    then obtain u d l where "?w = cl_addr cl u d l" "(d, l) \<in> set (cl_made cl u)" using sl unfolding slots_ok_def by blast
    with ap False show False unfolding addrs_apart_def by metis
  qed
  define n where "n = tls_writer_create True (ci_thread_hash ci t) 0"
  have "\<exists>p2. writer_start ?w (ci_thread_hash ci t) 0 (instance_of p1 0) p1 = Some p2"
  proof (cases "instance_of p1 0")
    case None
    then show ?thesis by (simp add: writer_start_def)
  next
    case (Some a)
    have "pub (pr_shm p1) = Some a" by (rule solo_instance [OF ok1 Some])
    then have "pr_cores p1 a \<noteq> None" using no_core_no_refs(2) [OF ok1(1)] by blast
    with Some show ?thesis by (auto simp: writer_start_def Let_def)
  qed
  then obtain p2 where ws: "writer_start ?w (ci_thread_hash ci t) 0 (instance_of p1 0) p1 = Some p2" by blast
  have few1: "card (dom (pr_writer p1)) + 2 < 2 ^ 32" using few w1 by simp
  have fr1: "pr_writer p1 ?w = None" using fresh w1 by simp
  have ok2: "proc_ok pub p2" by (rule writer_start_ok [OF ok1(1) fr1 few1 ws])
  note we = writer_start_effect [OF ws fr1]
  define cl1 where "cl1 = new_tls ci t 0 k (instance_of p1 0 \<noteq> None) p2 cl"
  have f: "cl_process cl1 = p2" "cl_addr cl1 = cl_addr cl" "\<And>u. set (cl_made cl1 u) = set (cl_made cl u) \<union> (if u = t then {(0, k)} else {})"
    "\<And>v. v \<noteq> ?w \<Longrightarrow> cl_descs cl1 v = cl_descs cl v \<and> cl_trc cl1 v = cl_trc cl v"
    "cl_descs cl1 ?w = Map.empty" "mo_descs (cl_trc cl1 ?w) = {}"
    by (auto simp: cl1_def new_tls_def trc_create_def Let_def)
  have cm: "map_option ob_core (pr_cores p2 a) = map_option ob_core (pr_cores ?p a)" for a using we(4) c1 by simp
  have "cores_ok xxh p2" unfolding cores_ok_def
  proof (intro allI impI)
    fix a ob'
    assume "pr_cores p2 a = Some ob'"
    then obtain ob where "pr_cores ?p a = Some ob" "ob_core ob' = ob_core ob" using cm [of a] by (cases "pr_cores ?p a") auto
    with co show "catalog xxh (ob_core ob')" unfolding cores_ok_def by metis
  qed
  moreover have "solo p2" using ok1(2) by (simp add: solo_def we(1))
  moreover have "addrs_apart cl1" using ap addrs_cong [OF f(2)] by simp
  moreover have "slots_ok cl1" unfolding slots_ok_def f(1,2)
  proof (intro conjI allI impI)
    fix v e a
    assume v: "pr_writer p2 v = Some (e, a)"
    show "\<exists>t d k. v = cl_addr cl t d k \<and> (d, k) \<in> set (cl_made cl1 t)"
    proof (cases "v = ?w")
      case True
      then show ?thesis using f(3) [of t] by auto
    next
      case False
      with v we(2) w1 have "pr_writer ?p v = Some (e, a)" by simp
      with sl obtain u d l where "v = cl_addr cl u d l" "(d, l) \<in> set (cl_made cl u)" unfolding slots_ok_def by blast
      with f(3) [of u] show ?thesis by blast
    qed
  next
    fix u d l
    assume m: "(d, l) \<in> set (cl_made cl1 u)"
    show "slot_ok cl1 (cl_addr cl u d l) l"
    proof (cases "u = t \<and> d = 0 \<and> l = k")
      case True
      have "bufs ((tls_writer_create True th 0)\<lparr>mu_writer_id := i\<rparr>) = []" "mp_core ((tls_writer_create True th 0)\<lparr>mu_writer_id := i\<rparr>)" for th i
        by (simp_all add: tls_writer_create_def bufs_def)
      note n = this
      have "slot_ok cl1 ?w k" unfolding slot_ok_def f(1)
      proof (intro allI impI)
        fix e a ob
        assume pw: "pr_writer p2 ?w = Some (e, a)" and pc: "pr_cores p2 a = Some ob"
        then have "instance_of p1 0 = Some a" using we(3) by auto
        from we(6) [OF this pc] obtain i where "wn_writer (wl_node (ob_writers ob) ?w) = (tls_writer_create True (ci_thread_hash ci t) 0)\<lparr>mu_writer_id := i\<rparr>"
          by blast
        then show "let n = wn_writer (wl_node (ob_writers ob) ?w) in mp_core n \<and> (\<forall>b \<in> set (bufs n). co_mem (ob_core ob) b 0 = kind_code k)
          \<and> (k = Kind_log \<longrightarrow> cl_descs cl1 ?w \<subseteq>\<^sub>m mo_log_descs (ob_core ob)) \<and> (k = Kind_trc \<longrightarrow> mo_descs (cl_trc cl1 ?w) \<subseteq> mo_trc_descs (ob_core ob))"
          by (simp only: Let_def n f(5,6)) simp
      qed
      with True show ?thesis by simp
    next
      case False
      with ap have nw: "cl_addr cl u d l \<noteq> ?w" unfolding addrs_apart_def by metis
      from m False f(3) [of u] have m0: "(d, l) \<in> set (cl_made cl u)" by (auto split: if_splits)
      show ?thesis
      proof (rule slot_ease [where p' = p2])
        show "slot_ok cl (cl_addr cl u d l) l" using sl m0 unfolding slots_ok_def by blast
        show "pr_cores ?p a \<noteq> None" if "pr_writer ?p (cl_addr cl u d l) = Some (e, a)" for e a
          by (rule writer_live [OF pk(1) that])
        show "pr_writer ?p (cl_addr cl u d l) = Some (e, a)" if "pr_writer p2 (cl_addr cl u d l) = Some (e, a)" for e a
          using that we(2) [OF nw] w1 by simp
        show "eases xxh (cl_addr cl u d l) ob ob'" if "pr_cores ?p a = Some ob" "pr_cores p2 a = Some ob'" for a ob ob'
        proof (rule eases_other)
          show "ob_core ob' = ob_core ob" using cm [of a] that by simp
          show "wn_writer (wl_node (ob_writers ob') (cl_addr cl u d l)) = wn_writer (wl_node (ob_writers ob) (cl_addr cl u d l))"
            using we(5) [of a ob ob' "cl_addr cl u d l"] that c1 nw by simp
        qed
      qed (use f(1) f(4) [OF nw] in simp_all)
    qed
  qed
  ultimately have "client_ok xxh pub cl1" using ok2 by (simp add: client_ok_def f(1))
  moreover have "get_tls ci t 0 k cl = Some (?w, cl1)" using False g ws by (simp add: get_tls_def Let_def sh cl1_def)
  ultimately show thesis using f(2) f(3) [of t] cm by (intro that [of cl1]) (simp_all add: f(1))
qed



section \<open>A call on the thread's writer\<close>

lemma put_core_ok:
  assumes ok: "proc_ok pub p" and ob: "pr_cores p a = Some ob" and r: "mu_ref_count ob' = mu_ref_count ob"
    and x: "obj_ok xs ob'" "set xs = writers_on p a"
  shows "proc_ok pub (put_core a (Some ob') p)"
proof (rule same_links_ok [OF ok same_links_upd(1)])
  let ?p = "put_core a (Some ob') p"
  fix b
  have q: "refs pub ?p b = refs pub p b" "writers_on ?p b = writers_on p b"
    using same_links_refs [OF same_links_upd(1) [of pub p a "Some ob'"]] by simp_all
  show "core_counted pub ?p b"
  proof (cases "b = a")
    case True
    from ok ob have "core_counted pub p a" by (simp add: proc_ok_def)
    with ob r q x show ?thesis unfolding True core_counted_def by auto
  next
    case False
    then show ?thesis using ok by (subst core_counted_cong [of _ _ p]) (simp_all add: proc_ok_def q)
  qed
qed

text \<open>Buffers of other writers are foreign to a writer.\<close>

lemma writers_apart:
  assumes ok: "engine_ok [] xs (c, wl)" and a: "a \<in> set xs" and b: "b \<in> set xs" "b \<noteq> a"
  shows "set (bufs (wn_writer (wl_node wl b))) \<subseteq> foreign (wn_writer (wl_node wl a)) c"
proof -
  let ?B = "bufs (wn_writer (wl_node wl a))" and ?R = "rest_bufs a xs (c, wl)"
  have m: "mset (waiting_bufs xs (c, wl)) = mset (?B @ ?R)" by (rule waiting_split [OF a])
  then have s: "set (waiting_bufs xs (c, wl)) = set (?B @ ?R)" "distinct (?B @ ?R)"
    using ok mset_eq_setD [OF m] mset_eq_imp_distinct_iff [OF m] by (simp_all add: engine_ok_def)
  have "b \<in> set (remove1 a xs)" using b by (simp add: in_set_remove1)
  then have "set (bufs (wn_writer (wl_node wl b))) \<subseteq> set ?R" by (auto simp: rest_bufs_def)
  moreover have "set (?B @ ?R) \<subseteq> owned (mp_data_pool c)" "set (?B @ ?R) \<inter> set (svc_addrs c) = {}"
    using ok s(1) by (simp_all add: engine_ok_def)
  ultimately show ?thesis using s(2) by (auto simp: foreign_def)
qed

lemma own_kind:
  assumes "own_inv ty self {} w c" and "b \<in> set (bufs w)"
  shows "co_mem c b 0 = ty"
proof -
  obtain k where k: "k < length (bufs w)" "b = bufs w ! k" using assms(2) by (auto simp: in_set_conv_nth)
  have "wr_inv ty w c" using assms(1) by (simp add: own_inv_def own_bufs_def)
  with k show ?thesis by (simp add: wr_inv_def hdr_ids_def)
qed

text \<open>The writer of a made slot, when it has a core.\<close>

lemma slot_own:
  assumes ok: "client_ok xxh pub cl" and m: "(d, k) \<in> set (cl_made cl t)"
    and pw: "pr_writer (cl_process cl) (cl_addr cl t d k) = Some (e, a)" and ob: "pr_cores (cl_process cl) a = Some ob"
    and mw: "may_wait self (ob_core ob)"
  obtains xs where "obj_ok xs ob" and "set xs = writers_on (cl_process cl) a" and "cl_addr cl t d k \<in> set xs"
    and "own_inv (kind_code k) self {} (wn_writer (wl_node (ob_writers ob) (cl_addr cl t d k))) (ob_core ob)"
    and "slot_ok cl (cl_addr cl t d k) k" and "catalog xxh (ob_core ob)"
proof -
  let ?w = "cl_addr cl t d k"
  have pk: "proc_ok pub (cl_process cl)" and sl: "slot_ok cl ?w k" and cat: "catalog xxh (ob_core ob)"
    using ok m ob by (auto simp: client_ok_def slots_ok_def cores_ok_def)
  obtain xs where x: "obj_ok xs ob" "set xs = writers_on (cl_process cl) a" by (rule counted_core [OF pk ob])
  have w: "?w \<in> set xs" using x(2) pw by (auto simp: writers_on_def)
  have e: "engine_ok [] xs (ob_core ob, ob_writers ob)" using x(1) by (simp add: obj_ok_def)
  have "\<forall>b \<in> set (bufs (wn_writer (wl_node (ob_writers ob) ?w))). co_mem (ob_core ob) b 0 = kind_code k"
    using sl pw ob unfolding slot_ok_def Let_def by blast
  from that [OF x w engine_own [OF e w mw this] sl cat] show thesis .
qed

lemma call_slot:
  assumes ok: "client_ok xxh pub cl" and m: "(d, k) \<in> set (cl_made cl t)"
    and pw: "pr_writer (cl_process cl) (cl_addr cl t d k) = Some (e, a)" and ob: "pr_cores (cl_process cl) a = Some ob"
    and mw: "may_wait self (ob_core ob)"
    and kp: "call_keeps xxh (kind_code k) self (wn_writer (wl_node (ob_writers ob) (cl_addr cl t d k))) (ob_core ob) w1 c1"
    and D: "\<And>v. v \<noteq> cl_addr cl t d k \<Longrightarrow> D v = cl_descs cl v" "k = Kind_log \<Longrightarrow> D (cl_addr cl t d k) \<subseteq>\<^sub>m mo_log_descs c1"
    and T: "\<And>v. v \<noteq> cl_addr cl t d k \<Longrightarrow> T v = cl_trc cl v" "k = Kind_trc \<Longrightarrow> mo_descs (T (cl_addr cl t d k)) \<subseteq> mo_trc_descs c1"
  shows "client_ok xxh pub (cl\<lparr>cl_process := put_core a (Some (after_call (cl_addr cl t d k) w1 c1 ob)) (cl_process cl),
    cl_descs := D, cl_trc := T\<rparr>)"
proof -
  let ?w = "cl_addr cl t d k" and ?p = "cl_process cl"
  let ?ob = "after_call ?w w1 c1 ob"
  let ?q = "put_core a (Some ?ob) ?p"
  define cl' where "cl' = cl\<lparr>cl_process := ?q, cl_descs := D, cl_trc := T\<rparr>"
  have f: "cl_process cl' = ?q" "cl_addr cl' = cl_addr cl" "cl_made cl' = cl_made cl" "cl_descs cl' = D" "cl_trc cl' = T"
    by (simp_all add: cl'_def)
  have pk: "proc_ok pub ?p" "solo ?p" and ap: "addrs_apart cl" and sl: "slots_ok cl" and co: "cores_ok xxh ?p"
    using ok by (simp_all add: client_ok_def)
  obtain xs where x: "obj_ok xs ob" "set xs = writers_on ?p a" and w: "?w \<in> set xs"
    and so: "slot_ok cl ?w k" and cat: "catalog xxh (ob_core ob)"
    by (rule slot_own [OF ok m pw ob mw])
  have e: "engine_ok [] xs (ob_core ob, ob_writers ob)" using x(1) by (simp add: obj_ok_def)
  from call_engine [OF e w kp] have x': "obj_ok xs ?ob" using x(1) by (simp add: obj_ok_def after_call_def)
  have g: "grows xxh (ob_core ob) c1" and lv: "leaves (wn_writer (wl_node (ob_writers ob) ?w)) (ob_core ob) w1 c1"
    and ow: "own_inv (kind_code k) self {} w1 c1" and wh: "writer_who w1 = writer_who (wn_writer (wl_node (ob_writers ob) ?w))"
    using kp by (simp_all add: call_keeps_def)
  have "proc_ok pub ?q" by (rule put_core_ok [OF pk(1) ob _ x' x(2)]) (simp add: after_call_def)
  moreover have "solo ?q" using pk(2) by (simp add: solo_def)
  moreover have "cores_ok xxh ?q" using co grows_catalog [OF g cat] by (simp add: cores_ok_def after_call_def)
  moreover have "addrs_apart cl'" using ap addrs_cong [OF f(2)] by simp
  moreover have "slots_ok cl'" unfolding slots_ok_def f(1-3)
  proof (intro conjI allI impI)
    fix v e' a'
    assume "pr_writer ?q v = Some (e', a')"
    then have "pr_writer ?p v = Some (e', a')" by simp
    with sl show "\<exists>t d k. v = cl_addr cl t d k \<and> (d, k) \<in> set (cl_made cl t)" unfolding slots_ok_def by blast
  next
    fix u d' l
    assume m': "(d', l) \<in> set (cl_made cl u)"
    show "slot_ok cl' (cl_addr cl u d' l) l"
    proof (cases "u = t \<and> d' = d \<and> l = k")
      case True
      have "slot_ok cl' ?w k" unfolding slot_ok_def f
      proof (intro allI impI)
        fix e' a' ob'
        assume "pr_writer ?q ?w = Some (e', a')" "pr_cores ?q a' = Some ob'"
        with pw have ob': "ob' = ?ob" by simp
        have n: "wn_writer (wl_node (ob_writers ?ob) ?w) = w1" by (simp add: after_call_def set_writer_nodes)
        have "mp_core (wn_writer (wl_node (ob_writers ob) ?w))" using so pw ob unfolding slot_ok_def Let_def by blast
        with wh have "mp_core w1" by (simp add: writer_who_def)
        with own_kind [OF ow] D(2) T(2) show "let n = wn_writer (wl_node (ob_writers ob') ?w) in mp_core n
          \<and> (\<forall>b \<in> set (bufs n). co_mem (ob_core ob') b 0 = kind_code k) \<and> (k = Kind_log \<longrightarrow> D ?w \<subseteq>\<^sub>m mo_log_descs (ob_core ob'))
          \<and> (k = Kind_trc \<longrightarrow> mo_descs (T ?w) \<subseteq> mo_trc_descs (ob_core ob'))"
          unfolding ob' n Let_def by (simp add: after_call_def)
      qed
      with True show ?thesis by simp
    next
      case False
      with ap have nw: "cl_addr cl u d' l \<noteq> ?w" unfolding addrs_apart_def by metis
      let ?v = "cl_addr cl u d' l"
      show ?thesis
      proof (rule slot_ease [where p' = ?q])
        show "slot_ok cl ?v l" using sl m' unfolding slots_ok_def by blast
        show "pr_cores ?p b \<noteq> None" if "pr_writer ?p ?v = Some (e', b)" for e' b by (rule writer_live [OF pk(1) that])
        show "eases xxh ?v ob1 ob2" if v: "pr_writer ?q ?v = Some (e', b)" and o: "pr_cores ?p b = Some ob1" "pr_cores ?q b = Some ob2"
          for e' b ob1 ob2
        proof (cases "b = a")
          case True
          with o ob have eq: "ob1 = ob" "ob2 = ?ob" by simp_all
          have "?v \<in> set xs" using x(2) v True by (auto simp: writers_on_def)
          from writers_apart [OF e w this nw] lv
          have mem: "co_mem c1 y = co_mem (ob_core ob) y" if "y \<in> set (bufs (wn_writer (wl_node (ob_writers ob) ?v)))" for y
            using that unfolding leaves_def by blast
          have "wn_writer (wl_node (ob_writers ?ob) ?v) = wn_writer (wl_node (ob_writers ob) ?v)"
            using nw by (simp add: after_call_def set_writer_nodes)
          with g mem show ?thesis unfolding eq eases_def Let_def by (simp add: after_call_def)
        next
          case False
          with o have "ob2 = ob1" by simp
          then show ?thesis by simp
        qed
      qed (use nw D(1) T(1) f in simp_all)
    qed
  qed
  ultimately show ?thesis unfolding client_ok_def f(1) cl'_def [symmetric] by blast
qed


text \<open>What a call finds ready for its thread.\<close>

definition self_ready :: "(byte list \<Rightarrow> u64) \<Rightarrow> 'm client_in \<Rightarrow> byte \<Rightarrow> ('f, 'm) client \<Rightarrow> bool" where
  "self_ready xxh ci ty cl \<longleftrightarrow> ci_xxh ci = xxh \<and> calm_threads xxh ty (ci_self ci) (ci_env ci)
     \<and> others_serve xxh ty (ci_self ci) (ci_env ci)
     \<and> (\<forall>a ob. pr_cores (cl_process cl) a = Some ob \<longrightarrow> may_wait (ci_self ci) (ob_core ob))"

lemma self_readyD:
  assumes "self_ready xxh ci ty cl"
  shows "ci_xxh ci = xxh" and "calm_threads xxh ty (ci_self ci) (ci_env ci)" and "others_serve xxh ty (ci_self ci) (ci_env ci)"
    and "other_threads xxh ty (ci_self ci) (ci_env ci)"
    and "pr_cores (cl_process cl) a = Some ob \<Longrightarrow> may_wait (ci_self ci) (ob_core ob)"
  using assms calm_threads.axioms(1) by (auto simp: self_ready_def)

text \<open>The invariant of the thread's log and trace writer.\<close>

lemma slot_log:
  assumes "client_ok xxh pub cl" and "(0, Kind_log) \<in> set (cl_made cl t)"
    and "pr_writer (cl_process cl) (cl_addr cl t 0 Kind_log) = Some (e, a)" and "pr_cores (cl_process cl) a = Some ob"
    and "may_wait self (ob_core ob)"
  shows "log_inv xxh self \<lparr>lg_base = wn_writer (wl_node (ob_writers ob) (cl_addr cl t 0 Kind_log)),
    mo_desc_map = cl_descs cl (cl_addr cl t 0 Kind_log)\<rparr> (ob_core ob)"
proof -
  let ?w = "cl_addr cl t 0 Kind_log"
  obtain xs where ow: "own_inv P8_PACKET_LOGS self {} (wn_writer (wl_node (ob_writers ob) ?w)) (ob_core ob)"
    and so: "slot_ok cl ?w Kind_log" and cat: "catalog xxh (ob_core ob)"
    using slot_own [OF assms] by (auto simp del: One_nat_def)
  have "cl_descs cl ?w \<subseteq>\<^sub>m mo_log_descs (ob_core ob)" using so assms(3,4) unfolding slot_ok_def Let_def by blast
  with ow cat show ?thesis by (simp add: log_inv_def)
qed

lemma slot_trc:
  assumes "client_ok xxh pub cl" and "(0, Kind_trc) \<in> set (cl_made cl t)"
    and "pr_writer (cl_process cl) (cl_addr cl t 0 Kind_trc) = Some (e, a)" and "pr_cores (cl_process cl) a = Some ob"
    and "may_wait self (ob_core ob)"
  shows "trc_inv xxh self ((cl_trc cl (cl_addr cl t 0 Kind_trc))\<lparr>tc_base := wn_writer (wl_node (ob_writers ob) (cl_addr cl t 0 Kind_trc))\<rparr>)
    (ob_core ob)"
proof -
  let ?w = "cl_addr cl t 0 Kind_trc"
  obtain xs where ow: "own_inv P8_PACKET_TRACES self {} (wn_writer (wl_node (ob_writers ob) ?w)) (ob_core ob)"
    and so: "slot_ok cl ?w Kind_trc" and cat: "catalog xxh (ob_core ob)"
    using slot_own [OF assms] by (auto simp del: One_nat_def)
  have "mo_descs (cl_trc cl ?w) \<subseteq> mo_trc_descs (ob_core ob)" using so assms(3,4) unfolding slot_ok_def Let_def by blast
  with ow cat show ?thesis by (simp add: trc_inv_def)
qed

lemma send_ok:
  assumes ok: "client_ok xxh pub cl" and m: "(0, Kind_log) \<in> set (cl_made cl t)" and sr: "self_ready xxh ci P8_PACKET_LOGS cl"
    and c: "client_send ci lv md tr ln fl fn ats fmt args (cl_addr cl t 0 Kind_log) cl = Some (r, cl')"
  shows "client_ok xxh pub cl'"
proof -
  let ?w = "cl_addr cl t 0 Kind_log" and ?p = "cl_process cl"
  note srd = self_readyD [OF sr]
  show ?thesis
  proof (cases "pr_writer ?p ?w")
    case None
    with c have "cl' = cl" by (auto simp: client_send_def on_writer_def split: bind_splits)
    with ok show ?thesis by simp
  next
    case (Some ea)
    obtain e a where pw: "pr_writer ?p ?w = Some (e, a)" using Some by (cases ea) simp
    from c pw obtain ob le_min mod_id lw c1 where ob: "pr_cores ?p a = Some ob"
      and s: "log_gated (ci_xxh_seed ci) (ci_env ci) (ci_self ci) (ci_alloc ci) (ci_ticks ci) lv le_min mod_id tr ln fl fn ats fmt args
        \<lparr>lg_base = wn_writer (wl_node (ob_writers ob) ?w), mo_desc_map = cl_descs cl ?w\<rparr> (ob_core ob) = Some (r, lw, c1)"
      and cl': "cl' = cl\<lparr>cl_process := put_core a (Some (after_call ?w (lg_base lw) c1 ob)) ?p,
        cl_descs := (cl_descs cl)(?w := mo_desc_map lw)\<rparr>"
      by (auto simp: client_send_def on_writer_def split: bind_splits)
    note li = slot_log [OF ok m pw ob srd(5) [OF ob]]
    then have ow: "own_inv P8_PACKET_LOGS (ci_self ci) {} (wn_writer (wl_node (ob_writers ob) ?w)) (ob_core ob)" by (simp add: log_inv_def)
    from log_gated_own [OF srd(4) li s] have d: "mo_desc_map lw \<subseteq>\<^sub>m mo_log_descs c1" by (simp add: log_inv_def)
    from log_gated_keeps [OF srd(2) _ s] ow have kp: "call_keeps xxh (kind_code Kind_log) (ci_self ci) (wn_writer (wl_node (ob_writers ob) ?w)) (ob_core ob) (lg_base lw) c1"
      by simp
    have "client_ok xxh pub (cl\<lparr>cl_process := put_core a (Some (after_call ?w (lg_base lw) c1 ob)) ?p,
        cl_descs := (cl_descs cl)(?w := mo_desc_map lw), cl_trc := cl_trc cl\<rparr>)"
      by (rule call_slot [OF ok m pw ob srd(5) [OF ob] kp]) (use d in simp_all)
    then show ?thesis by (simp add: cl')
  qed
qed

lemma send_returns:
  assumes ok: "client_ok xxh pub cl" and m: "(0, Kind_log) \<in> set (cl_made cl t)" and sr: "self_ready xxh ci P8_PACKET_LOGS cl"
    and g: "\<And>h. md = Some h \<Longrightarrow> module_gate h (cl_process cl) \<noteq> None"
    and a: "\<And>a ob d. pr_cores (cl_process cl) a = Some ob \<Longrightarrow> mo_log_descs (ob_core ob) (ci_xxh_seed ci fl ln) = Some d
        \<or> d = make_log_desc (ci_xxh_seed ci fl ln) (Some fl) ln fn fmt \<Longrightarrow> args_bytes (ld_args d) args \<noteq> None"
  shows "client_send ci lv md tr ln (Some fl) fn ats fmt args (cl_addr cl t 0 Kind_log) cl \<noteq> None"
proof -
  let ?w = "cl_addr cl t 0 Kind_log" and ?p = "cl_process cl"
  note srd = self_readyD [OF sr]
  obtain gate where gt: "(case md of None \<Rightarrow> Some None | Some h \<Rightarrow> map_option Some (module_gate h ?p)) = Some gate"
    using g by (cases md) auto
  show ?thesis
  proof (cases "pr_writer ?p ?w")
    case None
    with gt show ?thesis by (simp add: client_send_def on_writer_def)
  next
    case (Some ea)
    obtain e a where pw: "pr_writer ?p ?w = Some (e, a)" using Some by (cases ea) simp
    have pk: "proc_ok pub ?p" using ok by (simp add: client_ok_def)
    obtain ob where ob: "pr_cores ?p a = Some ob" using writer_live [OF pk pw] by blast
    let ?n = "wn_writer (wl_node (ob_writers ob) ?w)"
    let ?lw = "\<lparr>lg_base = ?n, mo_desc_map = cl_descs cl ?w\<rparr>"
    note li = slot_log [OF ok m pw ob srd(5) [OF ob]]
    obtain le_min mod_id where lm: "(case gate of None \<Rightarrow> log_gate None ?n (ob_core ob) | Some g \<Rightarrow> Some g) = Some (le_min, mod_id)"
      by (cases gate) (auto simp: log_gate_def)
    have "log_gated (ci_xxh_seed ci) (ci_env ci) (ci_self ci) (ci_alloc ci) (ci_ticks ci) lv le_min mod_id tr ln (Some fl) fn ats fmt args
        ?lw (ob_core ob) \<noteq> None"
      by (rule log_gated_returns [OF srd(3) li]) (rule a [OF ob])
    with gt pw ob lm show ?thesis by (auto simp: client_send_def on_writer_def)
  qed
qed

lemma emit_ok:
  assumes ok: "client_ok xxh pub cl" and m: "(0, Kind_mtk) \<in> set (cl_made cl t)" and sr: "self_ready xxh ci P8_PACKET_METRICS cl"
  obtains r cl' where "client_process (on_writer (cl_addr cl t 0 Kind_mtk) False (\<lambda>b c. mtk_emit (ci_env ci) (ci_self ci) i v (ci_ticks ci) b c)
      (cl_process cl)) cl = Some (r, cl')" and "client_ok xxh pub cl'"
proof (cases "pr_writer (cl_process cl) (cl_addr cl t 0 Kind_mtk)")
  case None
  with ok that [of False cl] show thesis by (simp add: client_process_def on_writer_def)
next
  case (Some ea)
  let ?w = "cl_addr cl t 0 Kind_mtk" and ?p = "cl_process cl"
  note srd = self_readyD [OF sr]
  obtain e a where pw: "pr_writer ?p ?w = Some (e, a)" using Some by (cases ea) simp
  have pk: "proc_ok pub ?p" using ok by (simp add: client_ok_def)
  obtain ob where ob: "pr_cores ?p a = Some ob" using writer_live [OF pk pw] by blast
  let ?n = "wn_writer (wl_node (ob_writers ob) ?w)"
  obtain xs where ow: "own_inv P8_PACKET_METRICS (ci_self ci) {} ?n (ob_core ob)"
    using slot_own [OF ok m pw ob srd(5) [OF ob]] by (auto simp del: One_nat_def)
  have "mtk_emit (ci_env ci) (ci_self ci) i v (ci_ticks ci) ?n (ob_core ob) \<noteq> None" by (rule mtk_emit_not_None [OF srd(3) ow])
  then obtain r w1 c1 where s: "mtk_emit (ci_env ci) (ci_self ci) i v (ci_ticks ci) ?n (ob_core ob) = Some (r, w1, c1)" by auto
  have kp: "call_keeps xxh (kind_code Kind_mtk) (ci_self ci) ?n (ob_core ob) w1 c1" using mtk_emit_keeps [OF srd(2) ow s] by simp
  have "client_ok xxh pub (cl\<lparr>cl_process := put_core a (Some (after_call ?w w1 c1 ob)) ?p, cl_descs := cl_descs cl, cl_trc := cl_trc cl\<rparr>)"
    by (rule call_slot [OF ok m pw ob srd(5) [OF ob] kp]) simp_all
  then show thesis using pw ob s
    by (intro that [of r "cl\<lparr>cl_process := put_core a (Some (after_call ?w w1 c1 ob)) ?p\<rparr>"]) (simp_all add: client_process_def on_writer_def)
qed

lemma on_trc_ok:
  fixes f :: "trc_writer \<Rightarrow> core \<Rightarrow> ('r \<times> trc_writer \<times> core) option"
  assumes ok: "client_ok xxh pub cl" and m: "(0, Kind_trc) \<in> set (cl_made cl t)" and sr: "self_ready xxh ci P8_PACKET_TRACES cl"
    and ret: "\<And>tw c. trc_inv xxh (ci_self ci) tw c \<Longrightarrow> f tw c \<noteq> None"
    and keeps: "\<And>tw c r tw' c'. trc_inv xxh (ci_self ci) tw c \<Longrightarrow> mp_core (tc_base tw) \<Longrightarrow> f tw c = Some (r, tw', c') \<Longrightarrow>
      trc_inv xxh (ci_self ci) tw' c' \<and> call_keeps xxh P8_PACKET_TRACES (ci_self ci) (tc_base tw) c (tc_base tw') c'"
  obtains r cl' where "on_trc (cl_addr cl t 0 Kind_trc) r0 f cl = Some (r, cl')" and "client_ok xxh pub cl'"
proof (cases "pr_writer (cl_process cl) (cl_addr cl t 0 Kind_trc)")
  case None
  with ok that [of r0 cl] show thesis by (simp add: on_trc_def on_writer_def)
next
  case (Some ea)
  let ?w = "cl_addr cl t 0 Kind_trc" and ?p = "cl_process cl"
  note srd = self_readyD [OF sr]
  obtain e a where pw: "pr_writer ?p ?w = Some (e, a)" using Some by (cases ea) simp
  have pk: "proc_ok pub ?p" using ok by (simp add: client_ok_def)
  obtain ob where ob: "pr_cores ?p a = Some ob" using writer_live [OF pk pw] by blast
  let ?tw = "(cl_trc cl ?w)\<lparr>tc_base := wn_writer (wl_node (ob_writers ob) ?w)\<rparr>"
  note ti = slot_trc [OF ok m pw ob srd(5) [OF ob]]
  obtain r tw' c1 where s: "f ?tw (ob_core ob) = Some (r, tw', c1)" using ret [OF ti] by auto
  obtain xs where so: "slot_ok cl ?w Kind_trc" using slot_own [OF ok m pw ob srd(5) [OF ob]] by blast
  then have mc: "mp_core (tc_base ?tw)" using pw ob unfolding slot_ok_def Let_def by auto
  note k = keeps [OF ti mc s]
  then have kp: "call_keeps xxh (kind_code Kind_trc) (ci_self ci) (wn_writer (wl_node (ob_writers ob) ?w)) (ob_core ob) (tc_base tw') c1"
    by simp
  have "mo_descs tw' \<subseteq> mo_trc_descs c1" using k by (simp add: trc_inv_def)
  then have "client_ok xxh pub (cl\<lparr>cl_process := put_core a (Some (after_call ?w (tc_base tw') c1 ob)) ?p, cl_descs := cl_descs cl,
      cl_trc := (cl_trc cl)(?w := tw')\<rparr>)"
    by (intro call_slot [OF ok m pw ob srd(5) [OF ob] kp]) simp_all
  then show thesis using pw ob s
    by (intro that [of r "cl\<lparr>cl_process := put_core a (Some (after_call ?w (tc_base tw') c1 ob)) ?p, cl_trc := (cl_trc cl)(?w := tw')\<rparr>"])
      (simp_all add: on_trc_def on_writer_def)
qed

lemma trc_inv_spans: "trc_inv xxh self (tw\<lparr>mo_open_spans := xs\<rparr>) c = trc_inv xxh self tw c"
  by (simp add: trc_inv_def)

lemma begin_keeps:
  assumes ct: "calm_threads xxh P8_PACKET_TRACES self env" and ti: "trc_inv xxh self tw c"
  shows "trc_begin xxh xs env self tk nm ln fl fn ats tw c = Some (r, tw', c') \<Longrightarrow>
      trc_inv xxh self tw' c' \<and> call_keeps xxh P8_PACKET_TRACES self (tc_base tw) c (tc_base tw') c'"
    and "trc_begin_async xxh xs env self tk pa nm ln fl fn ats tw c = Some (r, tw', c') \<Longrightarrow>
      trc_inv xxh self tw' c' \<and> call_keeps xxh P8_PACKET_TRACES self (tc_base tw) c (tc_base tw') c'"
proof -
  note ot = calm_threads.axioms(1) [OF ct]
  have ow: "own_inv P8_PACKET_TRACES self {} (tc_base tw) c" using ti by (simp add: trc_inv_def)
  have wb: "trc_inv xxh self tw' c' \<and> call_keeps xxh P8_PACKET_TRACES self (tc_base tw) c (tc_base tw') c'"
    if "write_begin xxh xs env self tk ty pa nm ln fl fn ats tw c = Some (r, tw', c')" for ty pa r tw' c'
    using write_begin_own [OF ot ti that] write_begin_keeps [OF ct ow that] by blast
  show "trc_inv xxh self tw' c' \<and> call_keeps xxh P8_PACKET_TRACES self (tc_base tw) c (tc_base tw') c'"
    if "trc_begin_async xxh xs env self tk pa nm ln fl fn ats tw c = Some (r, tw', c')"
    by (rule wb) (use that in \<open>simp add: trc_begin_async_def\<close>)
  assume "trc_begin xxh xs env self tk nm ln fl fn ats tw c = Some (r, tw', c')"
  then obtain pa tw1 where b: "write_begin xxh xs env self tk P8_TRC_ITEM_BEGIN pa nm ln fl fn ats tw c = Some (r, tw1, c')"
    and tw': "tw' = tw1 \<or> tw' = tw1\<lparr>mo_open_spans := mo_open_spans tw1 @ [r]\<rparr>"
    by (auto simp: trc_begin_def Let_def split: bind_splits if_splits)
  from wb [OF b] tw' show "trc_inv xxh self tw' c' \<and> call_keeps xxh P8_PACKET_TRACES self (tc_base tw) c (tc_base tw') c'"
    by (auto simp: trc_inv_spans)
qed

lemma end_keeps:
  assumes ct: "calm_threads xxh P8_PACKET_TRACES self env" and ti: "trc_inv xxh self tw c" and mc: "mp_core (tc_base tw)"
    and e: "trc_end env self tk i tw c = Some (tw', c')"
  shows "trc_inv xxh self tw' c' \<and> call_keeps xxh P8_PACKET_TRACES self (tc_base tw) c (tc_base tw') c'"
proof (cases "i = P8_INVALID_SPAN")
  case True
  with e ti show ?thesis by (auto simp: trc_end_def trc_inv_def call_keeps_refl)
next
  case False
  have ow: "own_inv P8_PACKET_TRACES self {} (tc_base tw) c" using ti by (simp add: trc_inv_def)
  from e False mc obtain w2 where "write_end env self tk i (tc_base tw) c = Some (w2, c')" "tc_base tw' = w2"
    by (auto simp: trc_end_def Let_def split: bind_splits if_splits)
  with write_end_keeps [OF ct ow] trc_end_own [OF calm_threads.axioms(1) [OF ct] ti False mc e] show ?thesis by blast
qed


section \<open>Every call returns\<close>

lemma ready_made:
  assumes r: "call_ready xxh sh pub ci ty cl"
    and c: "\<And>a. map_option ob_core (pr_cores (cl_process cl1) a) = map_option ob_core (pr_cores (cl_process cl) a)"
  shows "self_ready xxh ci ty cl1" and "module_gate h (cl_process cl1) = module_gate h (cl_process cl)"
proof -
  have "may_wait (ci_self ci) (ob_core ob)" if "pr_cores (cl_process cl1) a = Some ob" for a ob
    using r c [of a] that unfolding call_ready_def by (cases "pr_cores (cl_process cl) a") auto
  with r show "self_ready xxh ci ty cl1" by (simp add: call_ready_def self_ready_def)
  obtain a m where h: "h = (a, m)" by fastforce
  show "module_gate h (cl_process cl1) = module_gate h (cl_process cl)"
    using c [of a] by (cases "pr_cores (cl_process cl) a"; cases "pr_cores (cl_process cl1) a") (auto simp: module_gate_def h)
qed

text \<open>Log arguments that fit: a module handle is one a core gave, and the arguments are those the descriptor of
  the call site asks for.\<close>

fun call_good :: "'m client_in \<Rightarrow> c_call \<Rightarrow> ('f, 'm) client \<Rightarrow> bool" where
  "call_good ci (C_log lv md tr ln fl fn ats fmt args) cl \<longleftrightarrow> (\<forall>h. md = Some h \<longrightarrow> module_gate h (cl_process cl) \<noteq> None)
     \<and> args_bytes (ld_args (make_log_desc (ci_xxh_seed ci fl ln) (Some fl) ln fn fmt)) args \<noteq> None
     \<and> (\<forall>a ob d. pr_cores (cl_process cl) a = Some ob \<longrightarrow> mo_log_descs (ob_core ob) (ci_xxh_seed ci fl ln) = Some d \<longrightarrow>
          args_bytes (ld_args d) args \<noteq> None)"
| "call_good ci _ cl \<longleftrightarrow> True"

lemma end_returns:
  assumes os: "others_serve xxh P8_PACKET_TRACES self env" and i: "trc_inv xxh self tw c"
  shows "trc_end env self tk sid tw c \<noteq> None"
proof -
  have "own_inv P8_PACKET_TRACES self {} (tc_base tw) c" using i by (simp add: trc_inv_def)
  from write_end_returns [OF os this] have "write_end env self tk sid (tc_base tw) c \<bind> k \<noteq> None" if "\<And>r. k r \<noteq> None"
    for k :: "tls_writer \<times> core \<Rightarrow> (trc_writer \<times> core) option"
    using that by (rule bind_returns)
  then show ?thesis by (simp add: trc_end_def Let_def split: prod.splits)
qed

lemma begin_returns:
  assumes os: "others_serve xxh P8_PACKET_TRACES self env" and i: "trc_inv xxh self tw c"
  shows "trc_begin xxh xs env self tk nm ln fl fn ats tw c \<noteq> None"
    and "trc_begin_async xxh xs env self tk pa nm ln fl fn ats tw c \<noteq> None"
proof -
  show "trc_begin xxh xs env self tk nm ln fl fn ats tw c \<noteq> None"
    unfolding trc_begin_def Let_def by (rule bind_returns [OF write_begin_returns [OF os i]]) (simp split: prod.splits)
  show "trc_begin_async xxh xs env self tk pa nm ln fl fn ats tw c \<noteq> None"
    unfolding trc_begin_async_def by (rule write_begin_returns [OF os i])
qed

lemma call_ok:
  assumes law: "shm_law sh pub" and ok: "client_ok xxh pub cl" and r: "call_ready xxh sh pub ci (kind_code (call_writer x)) cl"
  shows "do_call ci t x cl = Some cl' \<Longrightarrow> client_ok xxh pub cl'" and "call_good ci x cl \<Longrightarrow> do_call ci t x cl \<noteq> None"
proof -
  have rd: "ci_shm ci = sh" "\<forall>n m. pub (ci_drift ci n m) = pub m" "card (dom (pr_writer (cl_process cl))) + 2 < 2 ^ 32"
    using r by (simp_all add: call_ready_def)
  obtain cl1 where tl: "get_tls ci t 0 (call_writer x) cl = Some (cl_addr cl t 0 (call_writer x), cl1)"
    and ok1: "client_ok xxh pub cl1" and m: "(0, call_writer x) \<in> set (cl_made cl1 t)" and ad: "cl_addr cl1 = cl_addr cl"
    and c: "\<And>a. map_option ob_core (pr_cores (cl_process cl1) a) = map_option ob_core (pr_cores (cl_process cl) a)"
    by (rule tls_ok [OF law ok rd, where t = t and k = "call_writer x"]) blast
  note sr = ready_made(1) [OF r c] and mg = ready_made(2) [OF r c]
  note srd = self_readyD [OF sr]
  have "(\<forall>cl'. do_call ci t x cl = Some cl' \<longrightarrow> client_ok xxh pub cl') \<and> (call_good ci x cl \<longrightarrow> do_call ci t x cl \<noteq> None)"
  proof (cases x)
    case (C_log lv md tr ln fl fn ats fmt args)
    have k: "call_writer x = Kind_log" by (simp add: C_log)
    note l = m [unfolded k] and s1 = sr [unfolded k kind_code.simps] and t1 = tl [unfolded k]
    let ?send = "client_send ci lv md tr ln (Some fl) fn ats fmt args (cl_addr cl1 t 0 Kind_log) cl1"
    have e: "do_call ci t x cl = map_option snd ?send" by (simp add: C_log p8_log_sent_def t1 ad)
    have "client_ok xxh pub cl'" if "map_option snd ?send = Some cl'" for cl'
    proof -
      from that obtain q where "?send = Some (q, cl')" by auto
      with send_ok [OF ok1 l s1] show ?thesis by blast
    qed
    moreover have "?send \<noteq> None" if g: "call_good ci x cl"
    proof (rule send_returns [OF ok1 l s1])
      show "module_gate h (cl_process cl1) \<noteq> None" if "md = Some h" for h using g that by (simp add: C_log mg)
      show "args_bytes (ld_args d) args \<noteq> None" if o: "pr_cores (cl_process cl1) a = Some ob"
        and d: "mo_log_descs (ob_core ob) (ci_xxh_seed ci fl ln) = Some d \<or> d = make_log_desc (ci_xxh_seed ci fl ln) (Some fl) ln fn fmt"
        for a ob d
      proof -
        from o c [of a] obtain ob0 where "pr_cores (cl_process cl) a = Some ob0" "ob_core ob0 = ob_core ob"
          by (cases "pr_cores (cl_process cl) a") auto
        with g d show ?thesis unfolding C_log call_good.simps by metis
      qed
    qed
    ultimately show ?thesis unfolding e by simp
  next
    case (C_emit i v)
    have k: "call_writer x = Kind_mtk" by (simp add: C_emit)
    obtain q cl2 where "client_process (on_writer (cl_addr cl1 t 0 Kind_mtk) False (\<lambda>b c. mtk_emit (ci_env ci) (ci_self ci) i v (ci_ticks ci) b c)
        (cl_process cl1)) cl1 = Some (q, cl2)" "client_ok xxh pub cl2"
      by (rule emit_ok [OF ok1 m [unfolded k] sr [unfolded k kind_code.simps]])
    then show ?thesis by (simp add: C_emit p8_mtk_emit_def tl [unfolded k] ad)
  next
    case (C_begin nm ln fl fn ats)
    have k: "call_writer x = Kind_trc" by (simp add: C_begin)
    note sd = srd [unfolded k kind_code.simps]
    obtain q cl2 where "on_trc (cl_addr cl1 t 0 Kind_trc) P8_INVALID_SPAN (trc_begin (ci_xxh ci) (ci_xxh_seed ci) (ci_env ci) (ci_self ci)
        (ci_ticks ci) nm ln fl fn ats) cl1 = Some (q, cl2)" "client_ok xxh pub cl2"
      by (rule on_trc_ok [OF ok1 m [unfolded k] sr [unfolded k kind_code.simps], where f = "trc_begin (ci_xxh ci) (ci_xxh_seed ci) (ci_env ci)
          (ci_self ci) (ci_ticks ci) nm ln fl fn ats" and ?r0.0 = P8_INVALID_SPAN])
        (use begin_returns(1) [OF sd(3)] begin_keeps(1) [OF sd(2)] sd(1) in auto)
    then show ?thesis by (simp add: C_begin p8_trc_begin_def tl [unfolded k] ad)
  next
    case (C_begin_async pa nm ln fl fn ats)
    have k: "call_writer x = Kind_trc" by (simp add: C_begin_async)
    note sd = srd [unfolded k kind_code.simps]
    obtain q cl2 where "on_trc (cl_addr cl1 t 0 Kind_trc) P8_INVALID_SPAN (trc_begin_async (ci_xxh ci) (ci_xxh_seed ci) (ci_env ci) (ci_self ci)
        (ci_ticks ci) pa nm ln fl fn ats) cl1 = Some (q, cl2)" "client_ok xxh pub cl2"
      by (rule on_trc_ok [OF ok1 m [unfolded k] sr [unfolded k kind_code.simps], where f = "trc_begin_async (ci_xxh ci) (ci_xxh_seed ci) (ci_env ci)
          (ci_self ci) (ci_ticks ci) pa nm ln fl fn ats" and ?r0.0 = P8_INVALID_SPAN])
        (use begin_returns(2) [OF sd(3)] begin_keeps(2) [OF sd(2)] sd(1) in auto)
    then show ?thesis by (simp add: C_begin_async p8_trc_begin_async_def tl [unfolded k] ad)
  next
    case (C_end i)
    have k: "call_writer x = Kind_trc" by (simp add: C_end)
    note sd = srd [unfolded k kind_code.simps]
    let ?f = "\<lambda>tw c. map_option (Pair ()) (trc_end (ci_env ci) (ci_self ci) (ci_ticks ci) i tw c)"
    obtain q cl2 where "on_trc (cl_addr cl1 t 0 Kind_trc) () ?f cl1 = Some (q, cl2)" "client_ok xxh pub cl2"
      by (rule on_trc_ok [OF ok1 m [unfolded k] sr [unfolded k kind_code.simps], where f = ?f and ?r0.0 = "()"])
        (use end_returns [OF sd(3)] end_keeps [OF sd(2)] in auto)
    then show ?thesis using ok by (auto simp: C_end p8_trc_end_def tl [unfolded k] ad)
  next
    case (C_group base mt)
    have k: "call_writer x = Kind_mtk" by (simp add: C_group)
    show ?thesis using ok1 by (simp add: C_group p8_mtk_create_group_def tl [unfolded k])
  qed
  then show "do_call ci t x cl = Some cl' \<Longrightarrow> client_ok xxh pub cl'" and "call_good ci x cl \<Longrightarrow> do_call ci t x cl \<noteq> None"
    by blast+
qed

section \<open>Registrations\<close>

text \<open>What calls keep: the descriptors of call sites and the names.\<close>

definition site_descs :: "core \<Rightarrow> (u64 \<rightharpoonup> s_p8_log_desc) \<times> u64 set \<times> u64 set \<times> u64 set \<times> u64 set" where
  "site_descs c = (mo_log_descs c, mo_trc_descs c, mo_file_names c, mo_func_names c, mo_span_names c)"

lemma svc_static_sites:
  assumes "svc_static c' = svc_static c"
  shows "site_descs c' = site_descs c"
proof -
  have "site_descs (svc_static x) = site_descs x" for x by (simp add: site_descs_def svc_static_def core_static_def)
  with assms show ?thesis by metis
qed

lemma serialize_sites:
  assumes "svc_ok c"
  shows "serialize_attr_desc d c = Some c' \<Longrightarrow> site_descs c' = site_descs c"
    and "serialize_log_mod d2 c = Some c' \<Longrightarrow> site_descs c' = site_descs c"
    and "serialize_mtk_desc d3 bl j c = Some c' \<Longrightarrow> site_descs c' = site_descs c"
proof -
  show "site_descs c' = site_descs c" if "serialize_attr_desc d c = Some c'"
    by (rule svc_static_sites) (use serialize_attr_desc_spec [OF assms, of d "\<lambda>_. 0"] that in \<open>auto simp: entry_put_def\<close>)
  show "site_descs c' = site_descs c" if "serialize_log_mod d2 c = Some c'"
    by (rule svc_static_sites) (use serialize_log_mod_spec [OF assms, of d2 "\<lambda>_. 0"] that in \<open>auto simp: entry_put_def\<close>)
  show "site_descs c' = site_descs c" if "serialize_mtk_desc d3 bl j c = Some c'"
    by (rule svc_static_sites)
      (use serialize_mtk_desc_spec [OF assms, of d3 bl j "\<lambda>_. 0"] that in \<open>auto simp: entry_put_def split: if_splits\<close>)
qed

lemma site_descs_upd [simp]:
  "site_descs (c\<lparr>mo_attr_descs := ds, mo_attr_name_map := m\<rparr>) = site_descs c" "site_descs (c\<lparr>mo_log_mods := ms\<rparr>) = site_descs c"
  "site_descs (c\<lparr>mo_log_mods := ms, mo_log_mod_map := mm\<rparr>) = site_descs c"
  "site_descs (c\<lparr>mo_mtk_descs := ks, mo_mtk_name_map := km, mu_mtk_count := n\<rparr>) = site_descs c"
  "site_descs (c\<lparr>me_default_verbosity := v\<rparr>) = site_descs c"
  by (simp_all add: site_descs_def)

definition registers :: "core \<Rightarrow> core \<Rightarrow> bool" where
  "registers c c' \<longleftrightarrow> svc_call c c' \<and> site_descs c' = site_descs c"

lemma register_calls:
  assumes ok: "svc_ok c"
  shows "attr_register x y nm ty c = Some (r1, c') \<Longrightarrow> registers c c'" and "register_module x y nm lv om c = Some (r2, c') \<Longrightarrow> registers c c'"
    and "register_mtk al base c = Some (r3, c') \<Longrightarrow> registers c c'" and "set_verbosity md lv c = Some c' \<Longrightarrow> registers c c'"
proof -
  have k: "svc_ok (c\<lparr>mo_attr_descs := ds, mo_attr_name_map := m\<rparr>)" "svc_ok (c\<lparr>mo_log_mods := ms, mo_log_mod_map := mm\<rparr>)"
    "svc_ok (c\<lparr>mo_mtk_descs := ks, mo_mtk_name_map := km, mu_mtk_count := n\<rparr>)" for ds m ms mm ks km n
    using ok by (simp_all add: svc_ok_def core_ok_def svc_inv_def svc_addrs_def)
  note s = serialize_sites(1) [OF k(1)] serialize_sites(2) [OF k(2)] serialize_sites(3) [OF k(3)]
  show "registers c c'" if a: "attr_register x y nm ty c = Some (r1, c')"
    using attr_register_call [OF ok a] a s(1) unfolding registers_def
    by (auto simp: attr_register_def Let_def split: if_splits option.splits bind_splits)
  show "registers c c'" if a: "register_module x y nm lv om c = Some (r2, c')"
    using register_module_call [OF ok a] a s(2) unfolding registers_def
    by (auto simp: register_module_def Let_def split: if_splits option.splits bind_splits)
  show "registers c c'" if a: "register_mtk al base c = Some (r3, c')"
    using register_mtk_call [OF ok a] a s(3) unfolding registers_def
    by (auto simp: register_mtk_def Let_def split: if_splits option.splits bind_splits prod.splits)
  assume "set_verbosity md lv c = Some c'"
  then have "c' = c\<lparr>me_default_verbosity := lv\<rparr> \<or> (\<exists>h. c' = c\<lparr>mo_log_mods := h\<rparr>)"
    by (auto simp: set_verbosity_def split: option.splits if_splits)
  with ok show "registers c c'"
    by (elim disjE exE) (simp_all add: registers_def svc_call_def quiet_def svc_ok_def core_ok_def svc_inv_def svc_addrs_def svc_total_def)
qed

lemma registers_grows:
  assumes "registers c c'"
  shows "grows xxh c c'"
proof -
  from assms have f: "mo_log_descs c' = mo_log_descs c" "mo_trc_descs c' = mo_trc_descs c" "mo_file_names c' = mo_file_names c"
    "mo_func_names c' = mo_func_names c" "mo_span_names c' = mo_span_names c" and p: "prefix (svc_total c) (svc_total c')"
    "prefix (mo_attr_descs c) (mo_attr_descs c')"
    by (simp_all add: registers_def site_descs_def svc_call_def)
  note n = names_of_cong [OF f(3-5)]
  have "catalog xxh c'" if c: "catalog xxh c"
    using c named_mono [OF _ p(1)] span_described_mono [OF _ p(1)] sublist_order.order_trans [OF _ prefix_imp_sublist [OF p(1)]]
    unfolding catalog_def f n by blast
  with f p show ?thesis by (simp add: grows_def)
qed

text \<open>On a core of the process.\<close>

lemma core_ok_of:
  assumes "client_ok xxh pub cl" and "pr_cores (cl_process cl) a = Some ob"
  obtains xs where "obj_ok xs ob" and "set xs = writers_on (cl_process cl) a" and "svc_ok (ob_core ob)"
proof -
  have "proc_ok pub (cl_process cl)" using assms(1) by (simp add: client_ok_def)
  from counted_core [OF this assms(2)] obtain xs where "obj_ok xs ob" "set xs = writers_on (cl_process cl) a" by metis
  then show thesis by (intro that) (simp_all add: obj_ok_def engine_ok_def)
qed

lemma registers_ok:
  assumes ok: "client_ok xxh pub cl" and ob: "pr_cores (cl_process cl) a = Some ob" and r: "registers (ob_core ob) c"
  shows "client_ok xxh pub (cl\<lparr>cl_process := put_core a (Some (ob\<lparr>ob_core := c\<rparr>)) (cl_process cl)\<rparr>)"
proof (rule step_work [OF ok ob])
  let ?ob = "ob\<lparr>ob_core := c\<rparr>"
  have s: "svc_call (ob_core ob) c" using r by (simp add: registers_def)
  show "works ob ?ob" using svc_call_engine [OF _ s] by (auto simp: works_def obj_ok_def)
  show g: "grows xxh (ob_core ob) (ob_core ?ob)" using registers_grows [OF r] by simp
  fix w
  assume w: "w \<in> writers_on (cl_process cl) a"
  obtain xs where x: "obj_ok xs ob" "set xs = writers_on (cl_process cl) a" by (rule core_ok_of [OF ok ob])
  have "b \<in> set (waiting_bufs xs (ob_core ob, ob_writers ob))" if "b \<in> set (bufs (wn_writer (wl_node (ob_writers ob) w)))" for b
    using w x(2) that by (auto simp: waiting_bufs_def)
  then have "co_mem c b = co_mem (ob_core ob) b" if "b \<in> set (bufs (wn_writer (wl_node (ob_writers ob) w)))" for b
    using that s x(1) by (fastforce simp: svc_call_def quiet_def obj_ok_def engine_ok_def)
  with g show "eases xxh w ob ?ob" by (simp add: eases_def)
qed

lemma instance_call_ok:
  assumes ok: "client_ok xxh pub cl" and f: "\<And>c r c'. svc_ok c \<Longrightarrow> f c = Some (r, c') \<Longrightarrow> registers c c'"
    and s: "on_instance r0 f x (cl_process cl) = Some (r, p')"
  shows "client_ok xxh pub (cl\<lparr>cl_process := p'\<rparr>)"
proof (cases x)
  case None
  with s ok show ?thesis by (auto simp: on_instance_def)
next
  case (Some a)
  with s obtain ob c where ob: "pr_cores (cl_process cl) a = Some ob" and c: "f (ob_core ob) = Some (r, c)"
    and p': "p' = put_core a (Some (ob\<lparr>ob_core := c\<rparr>)) (cl_process cl)" by (auto simp: on_instance_def split: bind_splits)
  obtain xs where "svc_ok (ob_core ob)" by (rule core_ok_of [OF ok ob])
  from registers_ok [OF ok ob f [OF this c]] show ?thesis by (simp add: p')
qed

lemma polled_call_ok:
  assumes law: "shm_law sh pub" and ok: "client_ok xxh pub cl" and q: "\<And>n m. pub (drift n m) = pub m"
    and f: "\<And>c r c'. svc_ok c \<Longrightarrow> f c = Some (r, c') \<Longrightarrow> registers c c'"
    and s: "do { (lp_core, p1) \<leftarrow> get_global_core sh drift P8_CORE_ACQUIRE_TIMEOUT_MS 0 (cl_process cl); on_instance r0 f lp_core p1 } = Some (r, p')"
  shows "client_ok xxh pub (cl\<lparr>cl_process := p'\<rparr>)"
proof -
  have pk: "proc_ok pub (cl_process cl)" "solo (cl_process cl)" using ok by (simp_all add: client_ok_def)
  obtain p1 where g: "get_global_core sh drift P8_CORE_ACQUIRE_TIMEOUT_MS 0 (cl_process cl) = Some (instance_of p1 0, p1)"
    and p1: "proc_ok pub p1" "solo p1" "pr_writer p1 = pr_writer (cl_process cl)" "pr_cores p1 = pr_cores (cl_process cl)"
    by (rule find_core [OF law pk, where drift = drift]) (use q in auto)
  have ok1: "client_ok xxh pub (cl\<lparr>cl_process := p1\<rparr>)" by (rule client_links [OF ok p1(1-3)]) (simp add: p1(4))
  have "on_instance r0 f (instance_of p1 0) (cl_process (cl\<lparr>cl_process := p1\<rparr>)) = Some (r, p')" using s g by simp
  from instance_call_ok [OF ok1 f this] show ?thesis by simp
qed

lemma after_call_same: "after_call w (wn_writer (wl_node (ob_writers ob) w)) c ob = ob\<lparr>ob_core := c\<rparr>"
  by (simp add: after_call_def set_writer_def)

lemma metric_ok:
  assumes law: "shm_law sh pub" and ok: "client_ok xxh pub cl" and sh: "ci_shm ci = sh" and q: "\<And>n m. pub (ci_drift ci n m) = pub m"
    and few: "card (dom (pr_writer (cl_process cl))) + 2 < 2 ^ 32" and s: "p8_mtk_create ci al t 0 base cl = Some (r, cl')"
  shows "client_ok xxh pub cl'"
proof -
  have "\<forall>n m. pub (ci_drift ci n m) = pub m" using q by blast
  then obtain cl1 where t: "get_tls ci t 0 Kind_mtk cl = Some (cl_addr cl t 0 Kind_mtk, cl1)" and ok1: "client_ok xxh pub cl1"
    by (rule tls_ok [OF law ok sh _ few]) blast
  let ?w = "cl_addr cl t 0 Kind_mtk"
  show ?thesis
  proof (cases "pr_writer (cl_process cl1) ?w")
    case None
    with s t ok1 show ?thesis by (auto simp: p8_mtk_create_def client_process_def on_writer_def)
  next
    case (Some ea)
    obtain e a where pw: "pr_writer (cl_process cl1) ?w = Some (e, a)" using Some by (cases ea) simp
    from s t pw obtain ob c where ob: "pr_cores (cl_process cl1) a = Some ob" and c: "register_mtk al base (ob_core ob) = Some (r, c)"
      and cl': "cl' = cl1\<lparr>cl_process := put_core a (Some (ob\<lparr>ob_core := c\<rparr>)) (cl_process cl1)\<rparr>"
      by (auto simp: p8_mtk_create_def client_process_def on_writer_def after_call_same split: bind_splits)
    obtain xs where "svc_ok (ob_core ob)" by (rule core_ok_of [OF ok1 ob])
    from registers_ok [OF ok1 ob register_calls(3) [OF this c]] show ?thesis by (simp add: cl')
  qed
qed

section \<open>A thread exits\<close>

lemma detach_grows:
  assumes i: "mb_initialized c" and d: "writer_detach w c wl = (c', wl')"
  shows "grows xxh c c'" and "co_mem c' = co_mem c" and "v \<noteq> w \<Longrightarrow> wn_writer (wl_node wl' v) = wn_writer (wl_node wl v)"
proof -
  have f: "co_mem c' = co_mem c" "svc_total c' = svc_total c" "mo_attr_descs c' = mo_attr_descs c" "mo_log_descs c' = mo_log_descs c"
    "mo_trc_descs c' = mo_trc_descs c" "mo_file_names c' = mo_file_names c" "mo_func_names c' = mo_func_names c"
    "mo_span_names c' = mo_span_names c"
    using d i by (auto simp: writer_detach_def core_push_def submit_chain_def submit_buffer_def notify_def
        accumulate_dropped_def svc_total_def Let_def split: prod.splits if_splits option.splits)
  have "names_of kind c' = names_of kind c" for kind using f by (cases kind) simp_all
  then have "catalog xxh c' = catalog xxh c" using f by (simp add: catalog_def)
  with f show "grows xxh c c'" by (simp add: grows_def)
  show "co_mem c' = co_mem c" by (rule f)
  show "wn_writer (wl_node wl' v) = wn_writer (wl_node wl v)" if "v \<noteq> w"
    using d that by (auto simp: writer_detach_def unregister_nodes split: prod.splits)
qed

lemma end_client_ok:
  assumes ok: "client_ok xxh pub cl" and s: "writer_end ou env is w (cl_process cl) = Some p'"
  shows "client_ok xxh pub (cl\<lparr>cl_process := p'\<rparr>)" and "pr_writer p' = (pr_writer (cl_process cl))(w := None)"
proof -
  let ?p = "cl_process cl"
  have pk: "proc_ok pub ?p" "solo ?p" using ok by (simp_all add: client_ok_def)
  have pk': "proc_ok pub p'" by (rule writer_end_ok [OF pk(1) s])
  have "client_ok xxh pub (cl\<lparr>cl_process := p'\<rparr>) \<and> pr_writer p' = (pr_writer ?p)(w := None)"
  proof (cases "pr_writer ?p w")
    case None
    with s ok show ?thesis by (auto simp: writer_end_def)
  next
    case (Some da)
    obtain d a where w: "pr_writer ?p w = Some (d, a)" using Some by (cases da) simp
    from s w obtain ob c1 wl1 p1 where ob: "pr_cores ?p a = Some ob"
      and dt: "writer_detach w (ob_core ob) (ob_writers ob) = (c1, wl1)"
      and rc: "release_core ou env is d a (put_core a (Some (ob\<lparr>ob_core := c1, ob_writers := wl1\<rparr>)) ?p) = Some p1"
      and p': "p' = p1\<lparr>pr_writer := (pr_writer p1)(w := None)\<rparr>"
      by (auto simp: writer_end_def split: bind_splits prod.splits)
    let ?ob = "ob\<lparr>ob_core := c1, ob_writers := wl1\<rparr>"
    obtain ob2 where o2: "pr_cores (put_core a (Some ?ob) ?p) a = Some ob2" and l1: "same_links pub (put_core a (Some ?ob) ?p) p1"
      and co2: "pr_cores p1 = (pr_cores (put_core a (Some ?ob) ?p))(a := if mu_ref_count ob2 = 1 then None else Some (ob2\<lparr>mu_ref_count := mu_ref_count ob2 - 1\<rparr>))"
      by (rule release_core_effect [OF rc, of pub])
    have co: "pr_cores p' b = (if b = a then if mu_ref_count ?ob = 1 then None else Some (?ob\<lparr>mu_ref_count := mu_ref_count ?ob - 1\<rparr>) else pr_cores ?p b)" for b
      using o2 co2 by (auto simp: p')
    have l: "same_links pub ?p p1" by (rule same_links_trans [OF same_links_upd(1) l1])
    then have pw: "pr_writer p' = (pr_writer ?p)(w := None)" by (simp add: p' same_links_def)
    have "solo p'" using l pk(2) by (simp add: p' solo_def same_links_def)
    moreover have "cores_ease xxh ?p p'" unfolding cores_ease_def
    proof (intro allI impI)
      fix b ob'
      assume b: "pr_cores p' b = Some ob'"
      obtain xs where "obj_ok xs ob" by (rule counted_core [OF pk(1) ob])
      then have "mb_initialized (ob_core ob)" by (simp add: obj_ok_def engine_ok_def svc_ok_def core_ok_def)
      note dg = detach_grows [OF this dt]
      show "case pr_cores ?p b of None \<Rightarrow> catalog xxh (ob_core ob')
          | Some ob \<Rightarrow> grows xxh (ob_core ob) (ob_core ob') \<and> (\<forall>w \<in> writers_on p' b. eases xxh w ob ob')"
      proof (cases "b = a")
        case True
        with b co [of b] have o: "ob_core ob' = c1" "ob_writers ob' = wl1" by (auto split: if_splits)
        have "eases xxh v ob ob'" if "v \<in> writers_on p' b" for v
        proof -
          have "v \<noteq> w" using that by (auto simp: writers_on_def pw)
          with dg show ?thesis by (simp add: eases_def o)
        qed
        with True ob dg(1) o show ?thesis by simp
      next
        case False
        with b co [of b] have "pr_cores ?p b = Some ob'" by simp
        then show ?thesis by (simp add: grows_def)
      qed
    qed
    ultimately have "client_ok xxh pub (cl\<lparr>cl_process := p'\<rparr>)"
      by (intro client_ease [OF ok pk']) (simp_all add: pw split: if_splits)
    with pw show ?thesis by simp
  qed
  then show "client_ok xxh pub (cl\<lparr>cl_process := p'\<rparr>)" and "pr_writer p' = (pr_writer ?p)(w := None)" by simp_all
qed

lemma end_writers_Cons:
  "end_writers ou env is (w # ws) p = Option.bind (writer_end ou env is w p) (end_writers ou env is ws)"
proof -
  have "foldl (\<lambda>x w. Option.bind x (writer_end ou env is w)) None ws = None" for ws by (induction ws) simp_all
  then show ?thesis by (cases "writer_end ou env is w p") (simp_all add: end_writers_def)
qed

lemma end_writers_ok:
  "client_ok xxh pub cl \<Longrightarrow> end_writers ou env is ws (cl_process cl) = Some p' \<Longrightarrow>
   client_ok xxh pub (cl\<lparr>cl_process := p'\<rparr>) \<and> pr_writer p' = pr_writer (cl_process cl) |` (- set ws)"
proof (induction ws arbitrary: cl)
  case Nil
  then have "p' = cl_process cl" by (simp add: end_writers_def)
  with Nil show ?case by simp
next
  case (Cons w ws)
  from Cons.prems(2) obtain p1 where s: "writer_end ou env is w (cl_process cl) = Some p1" "end_writers ou env is ws p1 = Some p'"
    by (auto simp: end_writers_Cons split: bind_splits)
  note e = end_client_ok [OF Cons.prems(1) s(1)]
  have "- insert w (set ws) = - set ws - {w}" by blast
  with Cons.IH [OF e(1)] s(2) e(2) show ?case by (simp add: restrict_fun_upd) (simp add: restrict_map_def fun_eq_iff)
qed

lemma exit_ok:
  assumes ok: "client_ok xxh pub cl" and s: "thread_exit ou env is t cl = Some cl'"
  shows "client_ok xxh pub cl'"
proof -
  let ?ws = "map (\<lambda>(d, k). cl_addr cl t d k) (rev (cl_made cl t))"
  from s obtain p where e: "end_writers ou env is ?ws (cl_process cl) = Some p"
    and cl': "cl' = cl\<lparr>cl_process := p, cl_made := (cl_made cl)(t := [])\<rparr>" by (auto simp: thread_exit_def)
  from end_writers_ok [OF ok e] have ok1: "client_ok xxh pub (cl\<lparr>cl_process := p\<rparr>)"
    and pw: "pr_writer p = pr_writer (cl_process cl) |` (- set ?ws)" by simp_all
  have "slots_ok cl'" unfolding slots_ok_def
  proof (intro conjI allI impI)
    fix w e a
    assume "pr_writer (cl_process cl') w = Some (e, a)"
    then have w: "pr_writer p w = Some (e, a)" by (simp add: cl')
    have "slots_ok (cl\<lparr>cl_process := p\<rparr>)" using ok1 by (simp add: client_ok_def)
    then have "pr_writer p w = Some (e, a) \<longrightarrow> (\<exists>u d k. w = cl_addr cl u d k \<and> (d, k) \<in> set (cl_made cl u))"
      unfolding slots_ok_def by simp
    with w obtain u d k where u: "w = cl_addr cl u d k" "(d, k) \<in> set (cl_made cl u)" by blast
    have "u \<noteq> t"
    proof
      assume "u = t"
      with u have "w \<in> set ?ws" by force
      with w pw show False by (simp add: restrict_map_def)
    qed
    with u show "\<exists>t d k. w = cl_addr cl' t d k \<and> (d, k) \<in> set (cl_made cl' t)" by (auto simp: cl')
  next
    fix u d k
    assume "(d, k) \<in> set (cl_made cl' u)"
    then have "(d, k) \<in> set (cl_made cl u)" by (auto simp: cl' split: if_splits)
    with ok1 have "slot_ok (cl\<lparr>cl_process := p\<rparr>) (cl_addr cl u d k) k" by (auto simp: client_ok_def slots_ok_def)
    then show "slot_ok cl' (cl_addr cl' u d k) k" by (simp add: cl' slot_ok_def)
  qed
  moreover have "addrs_apart cl'" using ok addrs_cong [of cl' cl] by (simp add: client_ok_def cl')
  ultimately show ?thesis using ok1 by (simp add: client_ok_def cl')
qed

section \<open>Every state a program reaches\<close>

lemma client_reach_ok:
  assumes law: "shm_law sh pub" and st: "client_start pub cl0" and r: "client_reach xxh sh pub ou cl0 cl"
  shows "client_ok xxh pub cl"
  using r
proof induction
  case cr_init
  show ?case by (rule start_ok [OF st])
next
  case (cr_step cl cl')
  note ok = cr_step.IH
  show ?case
    using cr_step.hyps(2)
  proof cases
    case (cs_begin t al cfg ph p')
    show ?thesis unfolding cs_begin(1) by (rule step_begin [OF law ok cs_begin(2) _ cs_begin(4)]) (rule cs_begin(3))
  next
    case (cs_publish t a env "is" ph p')
    show ?thesis unfolding cs_publish(1) by (rule step_publish [OF law ok cs_publish(2,3)])
  next
    case (cs_adopt t ph p')
    show ?thesis unfolding cs_adopt(1) by (rule step_adopt [OF law ok cs_adopt(2,3)])
  next
    case (cs_release env "is" p')
    show ?thesis unfolding cs_release(1) by (rule step_release [OF law ok cs_release(2)])
  next
    case (cs_call ci x t)
    show ?thesis by (rule call_ok(1) [OF law ok cs_call])
  next
    case (cs_attr x y nm ty r p')
    show ?thesis unfolding cs_attr(1)
      by (rule instance_call_ok [OF ok register_calls(1) cs_attr(2) [unfolded p8_attr_register_def]])
  next
    case (cs_module drift x y nm lv om r p')
    show ?thesis unfolding cs_module(1)
      by (rule polled_call_ok [OF law ok cs_module(2) register_calls(2) cs_module(3) [unfolded p8_log_register_module_def]])
  next
    case (cs_verbosity drift md lv r p')
    have "registers c c'" if "svc_ok c" "map_option (Pair ()) (set_verbosity md lv c) = Some (r, c')" for c c' and r :: unit
      using register_calls(4) [OF that(1)] that(2) by auto
    from polled_call_ok [OF law ok cs_verbosity(2) this cs_verbosity(3) [unfolded p8_log_set_verbosity_def]]
    show ?thesis unfolding cs_verbosity(1) .
  next
    case (cs_metric ci al t base r)
    show ?thesis by (rule metric_ok [OF law ok cs_metric])
  next
    case (cs_exit env "is" t)
    show ?thesis by (rule exit_ok [OF ok cs_exit])
  next
    case (cs_work a ob ob')
    show ?thesis unfolding cs_work(1) by (rule step_work [OF ok cs_work(2-4)]) (rule cs_work(5))
  qed
qed


section \<open>Properties\<close>



section \<open>Witnesses\<close>

fun kind_number :: "writer_kind \<Rightarrow> nat" where
  "kind_number Kind_log = 0" | "kind_number Kind_mtk = 1" | "kind_number Kind_trc = 2"

definition ex_client :: "((bool \<times> byte list), nat option) client" where
  "ex_client = \<lparr>cl_process = process_new None, cl_addr = (\<lambda>t d k. prod_encode (t, prod_encode (d, kind_number k))), cl_made = (\<lambda>_. []),
     cl_descs = (\<lambda>_. Map.empty), cl_trc = (\<lambda>_. trc_create (tls_writer_create False 7 0))\<rparr>"

lemma ex_client_start: "client_start (\<lambda>m. m) ex_client"
proof -
  have "kind_number k = kind_number l \<Longrightarrow> k = l" for k l by (cases k; cases l) simp_all
  then show ?thesis by (auto simp: client_start_def ex_client_def addrs_apart_def)
qed

lemma created_idle:
  assumes "core_create ou cfg = Some ob" and "get_initialized ob"
  shows "may_wait self (ob_core ob)" and "mo_log_descs (ob_core ob) = Map.empty"
proof -
  have "wait_queue (mp_data_pool (ob_core ob)) [] \<and> mo_log_descs (ob_core ob) = Map.empty"
    using assms(1)
  proof (cases rule: core_create_cases)
    case (ready j p v sk sk1)
    from config_pool_start [OF ready(1)] have "pool_start p" by blast
    then show ?thesis
      by (simp add: ready(5) core_ready_def made_core_def start_worker_def core_blank_def core_new_def init_batch_ticks_def Let_def pool_start_def wait_queue_def)
  qed (use assms(2) in \<open>simp_all add: get_initialized_def\<close>)
  then show "may_wait self (ob_core ob)" "mo_log_descs (ob_core ob) = Map.empty"
    using wait_queue_unique by (fastforce simp: may_wait_def)+
qed

text \<open>Thread 9 makes a core and publishes it.\<close>

lemma ex_initialized:
  assumes c: "core_create (ex_host ''file.bin'') ex_config = Some ob" "get_initialized ob"
  obtains cl where "client_reach xxh ex_shm (\<lambda>m. m) (ex_host ''file.bin'') ex_client cl" and "instance_of (cl_process cl) 0 = Some 1"
    and "pr_cores (cl_process cl) = [1 \<mapsto> ob]" and "pr_writer (cl_process cl) = (\<lambda>_. None)" and "pr_call (cl_process cl) = (\<lambda>_. None)"
    and "owns (cl_process cl) 0" and "cl_made cl = (\<lambda>_. [])" and "pr_shm (cl_process cl) = Some 1"
proof -
  let ?ou = "ex_host ''file.bin''" and ?step = "client_step xxh ex_shm (\<lambda>m. m) (ex_host ''file.bin'')"
  define p1 where "p1 = set_call 9 (Some (0, Init_publish 1)) (put_core 1 (Some ob) (upd_dso 0
     (\<lambda>s. s\<lparr>gu_instance_count := gu_instance_count s + 1\<rparr>) (process_new (None :: nat option))))"
  define p2 where "p2 = set_call 9 None (upd_dso 0 (\<lambda>s. s\<lparr>gp_shm_handle := True, gp_instance := Some 1\<rparr>) (p1\<lparr>pr_shm := Some 1\<rparr>))"
  have "init_begin ex_shm ?ou (Some 1) (Some ex_config) 0 (cl_process ex_client) = Some (Init_publish 1,
     put_core 1 (Some ob) (upd_dso 0 (\<lambda>s. s\<lparr>gu_instance_count := gu_instance_count s + 1\<rparr>) (process_new None)))"
    using c by (simp add: init_begin_def process_new_def ex_shm_def ex_client_def Let_def)
  from cs_begin [OF _ _ this, of 9 xxh "\<lambda>m. m"] have s1: "?step ex_client (ex_client\<lparr>cl_process := p1\<rparr>)"
    by (simp add: process_new_def phase_of_def p1_def ex_client_def)
  have "init_publish ex_shm ?ou still ex_stop 1 0 p1 = Some (Init_done True,
     upd_dso 0 (\<lambda>s. s\<lparr>gp_shm_handle := True, gp_instance := Some 1\<rparr>) (p1\<lparr>pr_shm := Some 1\<rparr>))"
    by (simp add: init_publish_def p1_def process_new_def ex_shm_def)
  from cs_publish [of "ex_client\<lparr>cl_process := p1\<rparr>" 9 1 ex_shm ?ou still ex_stop "Init_done True" _ xxh "\<lambda>m. m"] this
  have s2: "?step (ex_client\<lparr>cl_process := p1\<rparr>) (ex_client\<lparr>cl_process := p2\<rparr>)"
    by (simp add: phase_of_def p2_def) (simp add: p1_def)
  have r: "client_reach xxh ex_shm (\<lambda>m. m) ?ou ex_client (ex_client\<lparr>cl_process := p2\<rparr>)"
    by (rule cr_step [OF cr_step [OF cr_init s1] s2])
  have "pr_cores p2 = [1 \<mapsto> ob]" "pr_call p2 = (\<lambda>_. None)"
    by (simp_all add: p2_def p1_def process_new_def set_call_def upd_dso_def fun_eq_iff)
  then show thesis by (intro that [OF r]) (simp_all add: ex_client_def, simp_all add: p2_def p1_def process_new_def)
qed




end
