(* ===== verification/P8_Example.thy ===== *)
theory P8_Example
  imports P8_Program_Calls
begin

text \<open>
  The example program (examples/logs_file_sink/multithread_file_sink.cpp): \<open>main\<close> initializes the core with a
  configuration that selects the file sink, four threads log through it at the same time, \<open>main\<close> waits for them to exit
  and releases the core. Shown is what the program relies on: \<open>p8_release\<close> drops the last reference, so the
  core writes out what it holds and nothing is left. The profiler's macros and the messages to the
  console are not modelled.
\<close>

section \<open>The program\<close>

abbreviation lu_thread_count :: nat where "lu_thread_count \<equiv> 4"
abbreviation lu_logs_per_thread :: nat where "lu_logs_per_thread \<equiv> 1000000"
abbreviation EXIT_SUCCESS :: int where "EXIT_SUCCESS \<equiv> 0"
abbreviation EXIT_FAILURE :: int where "EXIT_FAILURE \<equiv> 1"

text \<open>The configuration, as the source has it between the marks of its raw strings.\<close>

definition quoted :: "string \<Rightarrow> cstr" where
  "quoted s = [34] @ bytes_of s @ [34]"

definition ls_config :: "cstr \<Rightarrow> cstr" where
  "ls_config lp_out_dir = [10]
     @ bytes_of ''    {'' @ [10]
     @ bytes_of ''        '' @ quoted ''max_memory_size'' @ bytes_of '': '' @ quoted ''8MB'' @ bytes_of '','' @ [10]
     @ bytes_of ''        '' @ quoted ''initial_memory_size'' @ bytes_of '': '' @ quoted ''8MB'' @ bytes_of '','' @ [10]
     @ bytes_of ''        '' @ quoted ''sink'' @ bytes_of '': '' @ quoted ''file.bin'' @ bytes_of '','' @ [10]
     @ bytes_of ''        '' @ quoted ''FileBin'' @ bytes_of '': '' @ [10]
     @ bytes_of ''        { '' @ [10]
     @ bytes_of ''             '' @ quoted ''OutDir'' @ bytes_of '': '' @ [34] @ lp_out_dir @ [34] @ bytes_of '' '' @ [10]
     @ bytes_of ''        }'' @ [10]
     @ bytes_of ''    }''"

definition lp_out_dir :: "cstr list \<Rightarrow> cstr" where
  "lp_out_dir argv = (if 1 < length argv then argv ! 1 else bytes_of ''./p8_logs'')"

definition lo_config :: "cstr list \<Rightarrow> s_p8_config" where
  "lo_config argv = \<lparr>mp_json_config = Some (ls_config (lp_out_dir argv)), ml_timer_value = False, mu_timer_numer = 0, mu_timer_denom = 0\<rparr>"

text \<open>\<open>run_worker\<close>: the name of the thread, and the call in its loop; \<open>src_file\<close> is what \<open>__FILE__\<close> stands for. An
  argument of 32 bits has a slot of 64, here with zeros above it.\<close>

definition la_name :: "nat \<Rightarrow> cstr" where
  "la_name iu_thread_index = bytes_of ''worker_'' @ decimal iu_thread_index"

definition worker_call :: "cstr \<Rightarrow> nat \<Rightarrow> nat \<Rightarrow> nat \<Rightarrow> c_call" where
  "worker_call src_file iu_thread_index lu_i iu_logs = C_log e_p8_info0 None 0 58 src_file (Some (bytes_of ''run_worker'')) None
     (Some (bytes_of ''thread %u message %u of %u''))
     [VA64 (word_of_nat iu_thread_index), VA64 (word_of_nat (lu_i + 1)), VA64 (word_of_nat iu_logs)]"

text \<open>Where a worker thread stands; the threads are numbered as their arguments, the main thread is another one.\<close>

datatype worker_at = W_start | W_loop nat | W_joined

record ('f, 'm) workers =
  ws_client :: "('f, 'm) client"
  ws_at :: "nat \<Rightarrow> worker_at"

inductive worker_step :: "(byte list \<Rightarrow> u64) \<Rightarrow> 'm shm_ops \<Rightarrow> ('m \<Rightarrow> nat option) \<Rightarrow> 'f outside \<Rightarrow> cstr \<Rightarrow> nat
    \<Rightarrow> ('f, 'm) workers \<Rightarrow> ('f, 'm) workers \<Rightarrow> bool"
  for xxh sh pub ou src_file iu_logs where
  ws_start: "ws_at s t = W_start \<Longrightarrow> t < lu_thread_count \<Longrightarrow>
     worker_step xxh sh pub ou src_file iu_logs s (s\<lparr>ws_client := (ws_client s)\<lparr>cl_process := cp8_thread_create (Some (la_name t))
       (cl_process (ws_client s))\<rparr>, ws_at := (ws_at s)(t := W_loop 0)\<rparr>)"
| ws_log: "ws_at s t = W_loop lu_i \<Longrightarrow> lu_i < iu_logs \<Longrightarrow> call_ready xxh sh pub ci P8_PACKET_LOGS (ws_client s) \<Longrightarrow>
     do_call ci t (worker_call src_file t lu_i iu_logs) (ws_client s) = Some cl' \<Longrightarrow>
     worker_step xxh sh pub ou src_file iu_logs s (s\<lparr>ws_client := cl', ws_at := (ws_at s)(t := W_loop (lu_i + 1))\<rparr>)"
| ws_exit: "ws_at s t = W_loop lu_i \<Longrightarrow> \<not> lu_i < iu_logs \<Longrightarrow>
     thread_exit ou env is t ((ws_client s)\<lparr>cl_process := cp8_thread_destroy (cl_process (ws_client s))\<rparr>) = Some cl' \<Longrightarrow>
     worker_step xxh sh pub ou src_file iu_logs s (s\<lparr>ws_client := cl', ws_at := (ws_at s)(t := W_joined)\<rparr>)"
| ws_core: "pr_cores (cl_process (ws_client s)) a = Some ob \<Longrightarrow> works ob ob' \<Longrightarrow> grows xxh (ob_core ob) (ob_core ob') \<Longrightarrow>
     (\<And>w. w \<in> writers_on (cl_process (ws_client s)) a \<Longrightarrow> eases xxh w ob ob') \<Longrightarrow>
     worker_step xxh sh pub ou src_file iu_logs s
       (s\<lparr>ws_client := (ws_client s)\<lparr>cl_process := put_core a (Some ob') (cl_process (ws_client s))\<rparr>\<rparr>)"

inductive workers_reach :: "(byte list \<Rightarrow> u64) \<Rightarrow> 'm shm_ops \<Rightarrow> ('m \<Rightarrow> nat option) \<Rightarrow> 'f outside \<Rightarrow> cstr \<Rightarrow> nat
    \<Rightarrow> ('f, 'm) client \<Rightarrow> ('f, 'm) workers \<Rightarrow> bool"
  for xxh sh pub ou src_file iu_logs cl where
  wr_init: "workers_reach xxh sh pub ou src_file iu_logs cl \<lparr>ws_client = cl, ws_at = (\<lambda>_. W_start)\<rparr>"
| wr_step: "workers_reach xxh sh pub ou src_file iu_logs cl s \<Longrightarrow> worker_step xxh sh pub ou src_file iu_logs s s' \<Longrightarrow>
     workers_reach xxh sh pub ou src_file iu_logs cl s'"

definition joined :: "('f, 'm) workers \<Rightarrow> bool" where
  "joined s \<longleftrightarrow> (\<forall>t < lu_thread_count. ws_at s t = W_joined)"

text \<open>\<open>main\<close> returns its exit status.\<close>

definition main_initialize :: "'m shm_ops \<Rightarrow> 'f outside \<Rightarrow> engine_interference \<Rightarrow> worker_in list \<Rightarrow> nat option \<Rightarrow> cstr list
    \<Rightarrow> ('f, 'm) client \<Rightarrow> (bool \<times> ('f, 'm) client) option" where
  "main_initialize sh ou env is al argv cl =
     client_process (p8_initialize sh ou env is al (Some (lo_config argv)) 0 (cl_process cl)) cl"

inductive main_run :: "(byte list \<Rightarrow> u64) \<Rightarrow> 'm shm_ops \<Rightarrow> ('m \<Rightarrow> nat option) \<Rightarrow> 'f outside \<Rightarrow> cstr \<Rightarrow> nat \<Rightarrow> cstr list
    \<Rightarrow> ('f, 'm) client \<Rightarrow> int \<Rightarrow> ('f, 'm) client \<Rightarrow> bool"
  for xxh sh pub ou src_file iu_logs argv cl where
  main_failure: "main_initialize sh ou env is al argv cl = Some (False, cl1) \<Longrightarrow>
     main_run xxh sh pub ou src_file iu_logs argv cl EXIT_FAILURE cl1"
| main_success: "main_initialize sh ou env is al argv cl = Some (True, cl1) \<Longrightarrow> workers_reach xxh sh pub ou src_file iu_logs cl1 s \<Longrightarrow>
     joined s \<Longrightarrow> p8_release sh ou env' is' 0 (cl_process (ws_client s)) = Some p \<Longrightarrow>
     main_run xxh sh pub ou src_file iu_logs argv cl EXIT_SUCCESS ((ws_client s)\<lparr>cl_process := p\<rparr>)"

section \<open>Initializing as a run of steps\<close>

lemma set_call_twice: "set_call t y (set_call t x p) = set_call t y p"
  by (simp add: set_call_def)

lemma set_call_none: "pr_call p t = None \<Longrightarrow> set_call t None p = p"
  by (simp add: set_call_def fun_upd_idem)

lemma init_publish_call:
  "init_publish sh ou env is a d (set_call t x p) = map_option (\<lambda>(ph, q). (ph, set_call t x q)) (init_publish sh ou env is a d p)"
  by (auto simp: init_publish_def delete_core_def set_call_def upd_dso_def put_core_def split: prod.splits bool.splits option.splits bind_splits)

lemma init_adopt_call:
  "init_adopt sh d (set_call t x p) = (case init_adopt sh d p of (ph, q) \<Rightarrow> (ph, set_call t x q))"
  by (auto simp: init_adopt_def set_call_def set_instance_def upd_dso_def split: prod.splits option.splits)

lemma init_begin_call:
  assumes "init_begin sh ou al cfg d p = Some (ph, p')"
  shows "pr_call p' = pr_call p"
  using assms
proof (cases rule: init_begin_cases)
  case (failed a ob)
  from delete_core_effect [OF failed(3), of "\<lambda>_. None"] show ?thesis by (simp add: same_links_def)
qed (simp_all add: set_instance_def)

lemma init_later_call:
  shows "init_publish sh ou env is a d p = Some (ph, p') \<Longrightarrow> pr_call p' = pr_call p"
    and "init_adopt sh d p = (ph, p') \<Longrightarrow> pr_call p' = pr_call p"
proof -
  show "pr_call p' = pr_call p" if s: "init_publish sh ou env is a d p = Some (ph, p')"
    using s delete_core_effect [where pub = "\<lambda>_. None"]
    by (fastforce simp: init_publish_def same_links_def split: prod.splits bool.splits bind_splits)
  show "pr_call p' = pr_call p" if "init_adopt sh d p = (ph, p')"
    using that by (auto simp: init_adopt_def set_instance_def split: option.splits prod.splits)
qed

lemma initialize_call:
  assumes "p8_initialize sh ou env is al cfg d p = Some (ok, p')"
  shows "pr_call p' = pr_call p"
proof -
  from assms obtain ph1 p1 ph2 p2 ph3 where b: "init_begin sh ou al cfg d p = Some (ph1, p1)"
    and pu: "(case ph1 of Init_publish a \<Rightarrow> init_publish sh ou env is a d p1 | _ \<Rightarrow> Some (ph1, p1)) = Some (ph2, p2)"
    and ad: "(case ph2 of Init_adopt \<Rightarrow> init_adopt sh d p2 | _ \<Rightarrow> (ph2, p2)) = (ph3, p')"
    by (auto simp: p8_initialize_def Let_def split: bind_splits prod.splits)
  have "pr_call p2 = pr_call p1" using pu init_later_call(1) by (cases ph1) auto
  moreover have "pr_call p' = pr_call p2" using ad init_later_call(2) by (cases ph2) auto
  ultimately show ?thesis using init_begin_call [OF b] by simp
qed

lemma initialize_reach:
  assumes r: "client_reach xxh sh pub ou cl0 cl" and t: "pr_call (cl_process cl) t = None"
    and al: "\<And>a. al = Some a \<Longrightarrow> pr_cores (cl_process cl) a = None \<and> (\<forall>e. instance_of (cl_process cl) e \<noteq> Some a)"
    and i: "p8_initialize sh ou env is al cfg 0 (cl_process cl) = Some (ok, p')"
  shows "client_reach xxh sh pub ou cl0 (cl\<lparr>cl_process := p'\<rparr>)"
proof -
  let ?at = "\<lambda>ph q. cl\<lparr>cl_process := set_call t (phase_of 0 ph) q\<rparr>"
  from i obtain ph1 p1 ph2 p2 where b: "init_begin sh ou al cfg 0 (cl_process cl) = Some (ph1, p1)"
    and pu: "(case ph1 of Init_publish a \<Rightarrow> init_publish sh ou env is a 0 p1 | _ \<Rightarrow> Some (ph1, p1)) = Some (ph2, p2)"
    and ad: "p' = snd (case ph2 of Init_adopt \<Rightarrow> init_adopt sh 0 p2 | _ \<Rightarrow> (ph2, p2))"
    by (auto simp: p8_initialize_def Let_def split: bind_splits prod.splits)
  have c1: "pr_call p1 t = None" using init_begin_call [OF b] t by simp
  have r1: "client_reach xxh sh pub ou cl0 (?at ph1 p1)"
    by (rule cr_step [OF r cs_begin [OF t _ b]]) (rule al)
  have r2: "client_reach xxh sh pub ou cl0 (?at ph2 p2) \<and> pr_call p2 t = None"
  proof (cases "\<exists>a. ph1 = Init_publish a")
    case True
    then obtain a where a: "ph1 = Init_publish a" by blast
    with pu have s: "init_publish sh ou env is a 0 p1 = Some (ph2, p2)" by simp
    then have "init_publish sh ou env is a 0 (cl_process (?at ph1 p1)) = Some (ph2, set_call t (phase_of 0 ph1) p2)"
      by (simp add: init_publish_call)
    from cs_publish [OF _ this, of t] have "client_step xxh sh pub ou (?at ph1 p1) (?at ph2 p2)"
      by (simp add: a phase_of_def set_call_twice)
    moreover have "pr_call p2 = pr_call p1" by (rule init_later_call(1) [OF s])
    ultimately show ?thesis using cr_step [OF r1] c1 by simp
  next
    case False
    with pu have "ph2 = ph1" "p2 = p1" by (auto split: init_phase.splits)
    with r1 c1 show ?thesis by simp
  qed
  show ?thesis
  proof (cases "ph2 = Init_adopt")
    case True
    obtain ph3 p3 where s: "init_adopt sh 0 p2 = (ph3, p3)" by fastforce
    then have "init_adopt sh 0 (cl_process (?at ph2 p2)) = (ph3, set_call t (phase_of 0 ph2) p3)" by (simp add: init_adopt_call)
    from cs_adopt [OF _ this, of t] have "client_step xxh sh pub ou (?at ph2 p2) (?at ph3 p3)"
      by (simp add: True phase_of_def set_call_twice)
    moreover have "phase_of 0 ph3 = None" using s by (auto simp: init_adopt_def phase_of_def split: option.splits prod.splits)
    moreover have "pr_call p3 = pr_call p2" by (rule init_later_call(2) [OF s])
    ultimately show ?thesis using cr_step [OF conjunct1 [OF r2]] r2 ad True s by (simp add: set_call_none)
  next
    case False
    have "\<nexists>a. ph2 = Init_publish a" using pu by (auto simp: init_publish_def split: init_phase.splits prod.splits bool.splits bind_splits)
    with False have "phase_of 0 ph2 = None" by (cases ph2) (simp_all add: phase_of_def)
    moreover have "p' = p2" using ad False by (cases ph2) simp_all
    ultimately show ?thesis using conjunct1 [OF r2] set_call_none [OF conjunct2 [OF r2]] by simp
  qed
qed

text \<open>When it fails there is no instance, when it succeeds there is one.\<close>

lemma begin_instance:
  assumes "init_begin sh ou al cfg d p = Some (ph, p')"
  shows "case ph of Init_done b \<Rightarrow> instance_of p' d \<noteq> None \<longleftrightarrow> b | Init_publish a \<Rightarrow> instance_of p' d = None | Init_adopt \<Rightarrow> False"
proof (cases "gp_instance (pr_dso p d)")
  case None
  note inst = this
  from assms show ?thesis
  proof (cases rule: init_begin_cases)
    case (early b)
    have "set_instance d (Some x) p \<noteq> p" for x
    proof
      assume e: "set_instance d (Some x) p = p"
      have "instance_of (set_instance d (Some x) p) d = Some x" by (simp add: set_instance_def)
      with e inst show False by simp
    qed
    with early assms inst show ?thesis by (auto simp: init_begin_def Let_def split: option.splits bind_splits if_splits)
  next
    case (found a)
    then show ?thesis by (simp add: set_instance_def)
  next
    case (failed a ob)
    from delete_core_effect [OF failed(3), of "\<lambda>_. None"] failed(2) inst show ?thesis by (simp add: same_links_def)
  next
    case (made a ob c)
    with inst show ?thesis by simp
  qed
next
  case (Some a)
  with assms show ?thesis by (auto simp: init_begin_def)
qed

lemma publish_instance:
  assumes s: "init_publish sh ou env is a d p = Some (ph, p')" and n: "instance_of p d = None"
  shows "(ph = Init_done True \<and> instance_of p' d \<noteq> None) \<or> (ph = Init_adopt \<and> instance_of p' d = None)"
proof -
  obtain b m where c: "sh_create sh a (pr_shm p) = (b, m)" by fastforce
  show ?thesis
  proof (cases b)
    case True
    with s c show ?thesis by (auto simp: init_publish_def)
  next
    case False
    with s c have "delete_core ou env is d a (p\<lparr>pr_shm := m\<rparr>) = Some p'" "ph = Init_adopt"
      by (auto simp: init_publish_def split: bind_splits)
    with delete_core_effect [OF this(1), of "\<lambda>_. None"] n show ?thesis by (simp add: same_links_def)
  qed
qed

lemma initialize_instance:
  assumes "p8_initialize sh ou env is al cfg d p = Some (ok, p')"
  shows "instance_of p' d \<noteq> None \<longleftrightarrow> ok"
proof -
  from assms obtain ph1 p1 ph2 p2 ph3 where b: "init_begin sh ou al cfg d p = Some (ph1, p1)"
    and pu: "(case ph1 of Init_publish a \<Rightarrow> init_publish sh ou env is a d p1 | _ \<Rightarrow> Some (ph1, p1)) = Some (ph2, p2)"
    and ad: "(case ph2 of Init_adopt \<Rightarrow> init_adopt sh d p2 | _ \<Rightarrow> (ph2, p2)) = (ph3, p')" and ok: "ok = (ph3 = Init_done True)"
    by (auto simp: p8_initialize_def Let_def split: bind_splits prod.splits)
  note bi = begin_instance [OF b]
  show ?thesis
  proof (cases ph1)
    case (Init_done x)
    with pu ad ok bi show ?thesis by auto
  next
    case (Init_publish a)
    with pu bi have "init_publish sh ou env is a d p1 = Some (ph2, p2)" "instance_of p1 d = None" by simp_all
    from publish_instance [OF this] ad ok show ?thesis
      by (auto simp: init_adopt_def set_instance_def split: prod.splits option.splits)
  next
    case Init_adopt
    with bi show ?thesis by simp
  qed
qed

section \<open>What the workers leave\<close>

lemma log_call_links:
  assumes s: "do_call ci t (worker_call src_file u i n) cl = Some cl'" and inst: "instance_of (cl_process cl) 0 \<noteq> None"
  shows "pr_dso (cl_process cl') = pr_dso (cl_process cl)" and "pr_call (cl_process cl') = pr_call (cl_process cl)"
    and "v \<noteq> t \<Longrightarrow> cl_made cl' v = cl_made cl v"
    and "pr_writer (cl_process cl') x = Some (e, b) \<Longrightarrow> pr_writer (cl_process cl) x = Some (e, b) \<or> instance_of (cl_process cl) 0 = Some b"
proof -
  from s obtain w cl1 r where g: "get_tls ci t 0 Kind_log cl = Some (w, cl1)"
    and c: "client_send ci e_p8_info0 None 0 58 (Some src_file) (Some (bytes_of ''run_worker'')) None
      (Some (bytes_of ''thread %u message %u of %u''))
      [VA64 (word_of_nat u), VA64 (word_of_nat (i + 1)), VA64 (word_of_nat n)] w cl1 = Some (r, cl')"
    by (auto simp: worker_call_def p8_log_sent_def split: bind_splits prod.splits)
  have "pr_dso (cl_process cl1) = pr_dso (cl_process cl) \<and> pr_call (cl_process cl1) = pr_call (cl_process cl)
      \<and> (\<forall>v. v \<noteq> t \<longrightarrow> cl_made cl1 v = cl_made cl v) \<and> (\<forall>x e b. pr_writer (cl_process cl1) x = Some (e, b) \<longrightarrow>
          pr_writer (cl_process cl) x = Some (e, b) \<or> instance_of (cl_process cl) 0 = Some b)"
  proof (cases "(0, Kind_log) \<in> set (cl_made cl t)")
    case True
    with g show ?thesis by (simp add: get_tls_def Let_def)
  next
    case False
    with g inst obtain p2 where "writer_start (cl_addr cl t 0 Kind_log) (ci_thread_hash ci t) 0 (instance_of (cl_process cl) 0) (cl_process cl) = Some p2"
      and "cl1 = new_tls ci t 0 Kind_log True p2 cl"
      by (auto simp: get_tls_def Let_def get_global_core_def split: bind_splits)
    with inst show ?thesis by (auto simp: writer_start_def new_tls_def Let_def split: bind_splits if_splits)
  qed
  moreover from c have "pr_dso (cl_process cl') = pr_dso (cl_process cl1)" "pr_call (cl_process cl') = pr_call (cl_process cl1)"
    "cl_made cl' = cl_made cl1" "pr_writer (cl_process cl') = pr_writer (cl_process cl1)"
    by (auto simp: client_send_def on_writer_def split: bind_splits option.splits prod.splits)
  ultimately show "pr_dso (cl_process cl') = pr_dso (cl_process cl)" "pr_call (cl_process cl') = pr_call (cl_process cl)"
    "v \<noteq> t \<Longrightarrow> cl_made cl' v = cl_made cl v"
    "pr_writer (cl_process cl') x = Some (e, b) \<Longrightarrow> pr_writer (cl_process cl) x = Some (e, b) \<or> instance_of (cl_process cl) 0 = Some b"
    by auto
qed

lemma writer_end_links:
  assumes "writer_end ou env is w p = Some p'"
  shows "instance_of p' d = instance_of p d" and "pr_call p' = pr_call p" and "pr_writer p' v = None \<or> pr_writer p' v = pr_writer p v"
proof -
  have "instance_of p' d = instance_of p d \<and> pr_call p' = pr_call p \<and> (pr_writer p' v = None \<or> pr_writer p' v = pr_writer p v)"
  proof (cases "pr_writer p w")
    case None
    with assms show ?thesis by (simp add: writer_end_def)
  next
    case (Some da)
    obtain e a where w: "pr_writer p w = Some (e, a)" using Some by (cases da) simp
    from assms w obtain ob p1 where rc: "release_core ou env is e a (put_core a (Some ob) p) = Some p1"
      and p': "p' = p1\<lparr>pr_writer := (pr_writer p1)(w := None)\<rparr>"
      by (auto simp: writer_end_def split: bind_splits prod.splits)
    have "same_links (\<lambda>_. None) (put_core a (Some ob) p) p1" by (rule release_core_effect [OF rc, of "\<lambda>_. None"])
    then show ?thesis by (simp add: p' same_links_def)
  qed
  then show "instance_of p' d = instance_of p d" and "pr_call p' = pr_call p"
    and "pr_writer p' v = None \<or> pr_writer p' v = pr_writer p v" by simp_all
qed

lemma end_writers_links:
  "end_writers ou env is ws p = Some p' \<Longrightarrow> instance_of p' d = instance_of p d \<and> pr_call p' = pr_call p
     \<and> (pr_writer p' v = None \<or> pr_writer p' v = pr_writer p v)"
proof (induction ws arbitrary: p)
  case Nil
  then show ?case by (simp add: end_writers_def)
next
  case (Cons w ws)
  then obtain p1 where s: "writer_end ou env is w p = Some p1" "end_writers ou env is ws p1 = Some p'"
    by (auto simp: end_writers_Cons split: bind_splits)
  from Cons.IH [OF s(2)] writer_end_links(1,2) [OF s(1)] writer_end_links(3) [OF s(1), of v] show ?case by auto
qed

text \<open>While the workers run.\<close>

lemma workers_inv:
  assumes r: "workers_reach xxh sh pub ou src_file n cl1 s" and c: "client_reach xxh sh pub ou cl0 cl1"
    and i: "instance_of (cl_process cl1) 0 \<noteq> None" and call: "pr_call (cl_process cl1) = (\<lambda>_. None)" and m: "cl_made cl1 = (\<lambda>_. [])"
    and none: "pr_writer (cl_process cl1) = (\<lambda>_. None)"
  shows "client_reach xxh sh pub ou cl0 (ws_client s) \<and> instance_of (cl_process (ws_client s)) 0 \<noteq> None
    \<and> pr_call (cl_process (ws_client s)) = (\<lambda>_. None)
    \<and> (\<forall>t. cl_made (ws_client s) t \<noteq> [] \<longrightarrow> t < lu_thread_count \<and> ws_at s t \<noteq> W_joined)
    \<and> (\<forall>t. ws_at s t \<noteq> W_start \<longrightarrow> t < lu_thread_count)
    \<and> (\<forall>w e b. pr_writer (cl_process (ws_client s)) w = Some (e, b) \<longrightarrow> instance_of (cl_process (ws_client s)) 0 = Some b)"
  using r
proof induction
  case wr_init
  show ?case using c i call m none by simp
next
  case (wr_step s s')
  note ih = wr_step.IH
  from wr_step.hyps(2) show ?case
  proof cases
    case (ws_start t)
    have e: "(ws_client s)\<lparr>cl_process := cp8_thread_create (Some (la_name t)) (cl_process (ws_client s))\<rparr> = ws_client s"
      by (simp add: cp8_thread_create_def p8_register_current_thread_def)
    show ?thesis unfolding ws_start(1) e using ih ws_start(2,3) by auto
  next
    case (ws_log t lu_i ci cl')
    have "client_step xxh sh pub ou (ws_client s) cl'"
      by (rule cs_call [OF _ ws_log(5)]) (use ws_log(4) in \<open>simp add: worker_call_def\<close>)
    then have "client_reach xxh sh pub ou cl0 cl'" using ih cr_step by blast
    moreover have "instance_of (cl_process (ws_client s)) 0 \<noteq> None" using ih by blast
    note l = log_call_links [OF ws_log(5) this]
    moreover have "t < lu_thread_count" using ih ws_log(2) by auto
    moreover have "instance_of (cl_process cl') 0 = Some b" if "pr_writer (cl_process cl') w = Some (e, b)" for w e b
      using l(4) [OF that] l(1) ih by auto
    ultimately show ?thesis unfolding ws_log(1) using ih l by auto
  next
    case (ws_exit t lu_i env "is" cl')
    have e: "(ws_client s)\<lparr>cl_process := cp8_thread_destroy (cl_process (ws_client s))\<rparr> = ws_client s"
      by (simp add: cp8_thread_destroy_def p8_unregister_current_thread_def)
    note x = ws_exit(4) [unfolded e]
    have "client_reach xxh sh pub ou cl0 cl'" using ih cs_exit [OF x] cr_step by blast
    moreover from x obtain p where "end_writers ou env is (map (\<lambda>(d, k). cl_addr (ws_client s) t d k) (rev (cl_made (ws_client s) t)))
        (cl_process (ws_client s)) = Some p" and cl': "cl' = (ws_client s)\<lparr>cl_process := p, cl_made := (cl_made (ws_client s))(t := [])\<rparr>"
      by (auto simp: thread_exit_def)
    moreover have "instance_of p 0 = instance_of (cl_process (ws_client s)) 0" "pr_call p = pr_call (cl_process (ws_client s))"
      "pr_writer p v = None \<or> pr_writer p v = pr_writer (cl_process (ws_client s)) v" for v
      using end_writers_links [OF calculation(2), of 0] by simp_all
    moreover from this ih have "instance_of p 0 = Some b" if "pr_writer p w = Some (e, b)" for w e b
      using that by (metis option.distinct(1))
    moreover have "t < lu_thread_count" using ih ws_exit(2) by auto
    ultimately show ?thesis unfolding ws_exit(1) using ih by auto
  next
    case (ws_core a ob ob')
    have "client_step xxh sh pub ou (ws_client s) ((ws_client s)\<lparr>cl_process := put_core a (Some ob') (cl_process (ws_client s))\<rparr>)"
      by (rule cs_work [OF ws_core(2-4)]) (rule ws_core(5))
    then have "client_reach xxh sh pub ou cl0 ((ws_client s)\<lparr>cl_process := put_core a (Some ob') (cl_process (ws_client s))\<rparr>)"
      using ih cr_step by blast
    then show ?thesis unfolding ws_core(1) using ih by simp
  qed
qed

text \<open>A writer on the published core can go: the publisher's reference remains.\<close>

lemma writer_end_returns:
  assumes ok: "proc_ok pub p" and w: "\<And>e b. pr_writer p w = Some (e, b) \<Longrightarrow> pub (pr_shm p) = Some b"
  shows "writer_end ou env is w p \<noteq> None"
proof (cases "pr_writer p w")
  case None
  then show ?thesis by (simp add: writer_end_def)
next
  case (Some da)
  obtain e a where pw: "pr_writer p w = Some (e, a)" using Some by (cases da) simp
  obtain ob where ob: "pr_cores p a = Some ob" using writer_live [OF ok pw] by blast
  obtain c1 wl1 where dt: "writer_detach w (ob_core ob) (ob_writers ob) = (c1, wl1)" by fastforce
  have few: "writers_few p" using ok by (simp add: proc_ok_def)
  have "w \<in> writers_on p a" using pw by (auto simp: writers_on_def)
  then have "card (writers_on p a) \<noteq> 0" using writers_on_finite [OF few, of a] by auto
  then have "2 \<le> refs pub p a" using w [OF pw] by (simp add: refs_def)
  moreover have "unat (mu_ref_count ob) = refs pub p a" by (rule counted_core [OF ok ob])
  ultimately have "mu_ref_count ob \<noteq> 1" by auto
  with pw ob dt show ?thesis by (simp add: writer_end_def release_core_def release_def Let_def)
qed

lemma end_writers_return:
  "client_ok xxh pub cl \<Longrightarrow> (\<And>w e b. pr_writer (cl_process cl) w = Some (e, b) \<Longrightarrow> instance_of (cl_process cl) 0 = Some b) \<Longrightarrow>
   end_writers ou env is ws (cl_process cl) \<noteq> None"
proof (induction ws arbitrary: cl)
  case Nil
  then show ?case by (simp add: end_writers_def)
next
  case (Cons w ws)
  note ok = Cons.prems(1) and inst = Cons.prems(2)
  have pk: "proc_ok pub (cl_process cl)" "solo (cl_process cl)" using ok by (simp_all add: client_ok_def)
  have "writer_end ou env is w (cl_process cl) \<noteq> None"
    by (rule writer_end_returns [OF pk(1)]) (rule solo_instance [OF pk inst])
  then obtain p1 where s: "writer_end ou env is w (cl_process cl) = Some p1" by blast
  note e = end_client_ok [OF ok s]
  have "instance_of p1 0 = Some b" if "pr_writer p1 v = Some (d, b)" for v d b
    using inst [of v d b] that e(2) writer_end_links(1) [OF s] by (simp split: if_splits)
  with Cons.IH [OF e(1)] s show ?case by (simp add: end_writers_Cons)
qed

section \<open>Properties\<close>

lemma cleared_core:
  assumes ok: "client_ok xxh pub cl" and m: "cl_made cl = (\<lambda>_. [])" and c: "pr_call (cl_process cl) = (\<lambda>_. None)"
  shows "pr_writer (cl_process cl) = (\<lambda>_. None)"
    and "instance_of (cl_process cl) 0 = None \<Longrightarrow> pr_cores (cl_process cl) = (\<lambda>_. None) \<and> pub (pr_shm (cl_process cl)) = None"
    and "instance_of (cl_process cl) 0 = Some a \<Longrightarrow> \<exists>ob. pr_cores (cl_process cl) = [a \<mapsto> ob] \<and> mu_ref_count ob = 1 \<and> obj_ok [] ob
      \<and> owns (cl_process cl) 0"
proof -
  let ?p = "cl_process cl"
  have pk: "proc_ok pub ?p" "solo ?p" and sl: "slots_ok cl" using ok by (simp_all add: client_ok_def)
  have "pr_writer ?p v = None" for v using sl m by (cases "pr_writer ?p v") (auto simp: slots_ok_def)
  then show w: "pr_writer ?p = (\<lambda>_. None)" by auto
  have pb: "\<not> publishing ?p b" for b using c by (simp add: publishing_def)
  have cb: "pr_cores ?p b \<noteq> None \<longleftrightarrow> pub (pr_shm ?p) = Some b" for b
  proof (cases "pr_cores ?p b")
    case None
    with no_core_no_refs [OF pk(1) None] show ?thesis by simp
  next
    case (Some ob)
    have "0 < refs pub ?p b" by (rule counted_core [OF pk(1) Some])
    with Some pb w show ?thesis by (auto simp: refs_def writers_on_def split: if_splits)
  qed
  have own: "owns ?p 0" if n: "pub (pr_shm ?p) \<noteq> None"
  proof -
    obtain d where "owns ?p d" using pk(1) n unfolding proc_ok_def owners_ok_def by blast
    with pk(2) show ?thesis unfolding solo_def by metis
  qed
  show "pr_cores ?p = (\<lambda>_. None) \<and> pub (pr_shm ?p) = None" if n: "instance_of ?p 0 = None"
  proof -
    have "pub (pr_shm ?p) = None" using own pk(1) n unfolding proc_ok_def owners_ok_def by metis
    with cb show ?thesis by auto
  qed
  show "\<exists>ob. pr_cores ?p = [a \<mapsto> ob] \<and> mu_ref_count ob = 1 \<and> obj_ok [] ob \<and> owns ?p 0" if a: "instance_of ?p 0 = Some a"
  proof -
    have pa: "pub (pr_shm ?p) = Some a" by (rule solo_instance [OF pk a])
    with cb [of a] obtain ob where ob: "pr_cores ?p a = Some ob" by auto
    obtain xs where x: "obj_ok xs ob" "set xs = writers_on ?p a" "unat (mu_ref_count ob) = refs pub ?p a"
      by (rule counted_core [OF pk(1) ob])
    have "refs pub ?p a = 1" using pa pb w by (simp add: refs_def writers_on_def)
    then have "mu_ref_count ob = 1" using x(3) by (simp add: word_unat_eq_iff)
    moreover have "xs = []" using x(2) w by (simp add: writers_on_def)
    moreover have "pr_cores ?p = [a \<mapsto> ob]"
    proof
      fix b
      show "pr_cores ?p b = [a \<mapsto> ob] b" using cb [of b] pa ob by (cases "b = a") auto
    qed
    ultimately show ?thesis using x(1) own pa by auto
  qed
qed

lemma worker_format:
  "parse_format_string True P8_LOG_MAX_ARGS (Some (bytes_of ''thread %u message %u of %u'')) = replicate 3 (int_arg e_prefix_unknown)"
  by code_simp

lemma worker_call_args:
  "args_bytes (ld_args (make_log_desc h (Some src_file) 58 (Some fn) (Some (bytes_of ''thread %u message %u of %u'')))) [VA64 x, VA64 y, VA64 z] \<noteq> None"
proof -
  have "\<not> is_str_arg (va_mu_type (int_arg e_prefix_unknown)) \<and> va_mu_size (int_arg e_prefix_unknown) = 8" by code_simp
  then show ?thesis by (simp add: make_log_desc_def worker_format numeral_3_eq_3)
qed

text \<open>After a failed start, while the workers run, and when all of them have been joined.\<close>

lemma main_started:
  assumes st: "client_start pub cl0" and i: "main_initialize sh ou env is al argv cl0 = Some (ok, cl1)"
  shows "client_reach xxh sh pub ou cl0 cl1" and "pr_call (cl_process cl1) = (\<lambda>_. None)" and "cl_made cl1 = (\<lambda>_. [])"
    and "pr_writer (cl_process cl1) = (\<lambda>_. None)" and "instance_of (cl_process cl1) 0 \<noteq> None \<longleftrightarrow> ok"
proof -
  obtain m where m: "cl_process cl0 = process_new m" and md: "cl_made cl0 = (\<lambda>_. [])" using st by (auto simp: client_start_def)
  from i obtain p' where p: "p8_initialize sh ou env is al (Some (lo_config argv)) 0 (cl_process cl0) = Some (ok, p')"
    and cl1: "cl1 = cl0\<lparr>cl_process := p'\<rparr>" by (auto simp: main_initialize_def client_process_def)
  show "client_reach xxh sh pub ou cl0 cl1" unfolding cl1
    by (rule initialize_reach [OF cr_init _ _ p, of 0]) (simp_all add: m process_new_def)
  show "pr_call (cl_process cl1) = (\<lambda>_. None)" using initialize_call [OF p] by (simp add: cl1 m process_new_def)
  show "cl_made cl1 = (\<lambda>_. [])" by (simp add: cl1 md)
  show "pr_writer (cl_process cl1) = (\<lambda>_. None)" using initialize_writers [OF p] by (simp add: cl1 m process_new_def)
  show "instance_of (cl_process cl1) 0 \<noteq> None \<longleftrightarrow> ok" using initialize_instance [OF p] by (simp add: cl1)
qed

lemma main_workers:
  assumes st: "client_start pub cl0" and i: "main_initialize sh ou env is al argv cl0 = Some (True, cl1)"
    and w: "workers_reach xxh sh pub ou src_file n cl1 s"
  shows "client_reach xxh sh pub ou cl0 (ws_client s)" and "instance_of (cl_process (ws_client s)) 0 \<noteq> None"
    and "pr_call (cl_process (ws_client s)) = (\<lambda>_. None)" and "joined s \<Longrightarrow> cl_made (ws_client s) = (\<lambda>_. [])"
    and "pr_writer (cl_process (ws_client s)) v = Some (e, b) \<Longrightarrow> instance_of (cl_process (ws_client s)) 0 = Some b"
proof -
  note b = main_started [OF st i]
  have "instance_of (cl_process cl1) 0 \<noteq> None" using b(5) by simp
  note x = workers_inv [OF w b(1) this b(2-4)]
  then show "client_reach xxh sh pub ou cl0 (ws_client s)" "instance_of (cl_process (ws_client s)) 0 \<noteq> None"
    "pr_call (cl_process (ws_client s)) = (\<lambda>_. None)"
    "pr_writer (cl_process (ws_client s)) v = Some (e, b) \<Longrightarrow> instance_of (cl_process (ws_client s)) 0 = Some b" by blast+
  show "cl_made (ws_client s) = (\<lambda>_. [])" if "joined s"
  proof
    fix t
    show "cl_made (ws_client s) t = []" using x that unfolding joined_def by blast
  qed
qed

text \<open>When \<open>main\<close> has failed to initialize, or has joined its threads and released the core, nothing is left.\<close>

lemma main_leaves_nothing:
  assumes "shm_law sh pub" and "client_start pub cl0" and "main_run xxh sh pub ou src_file n argv cl0 status cl"
  shows "pr_cores (cl_process cl) = (\<lambda>_. None) \<and> pr_writer (cl_process cl) = (\<lambda>_. None) \<and> instance_of (cl_process cl) 0 = None
    \<and> pub (pr_shm (cl_process cl)) = None"
  using assms(3)
proof cases
  case (main_failure env "is" al)
  note b = main_started [OF assms(2) main_failure(2)]
  note c = cleared_core [OF client_reach_ok [OF assms(1,2) b(1)] b(3,2)]
  show ?thesis using b(5) c(1,2) by simp
next
  case (main_success env "is" al cl1 s env' is' p)
  note b = main_workers [OF assms(2) main_success(3,4)]
  note ok = client_reach_ok [OF assms(1,2) b(1)] and m = b(4) [OF main_success(5)] b(3)
  obtain a where a: "instance_of (cl_process (ws_client s)) 0 = Some a" using b(2) by blast
  note w = cleared_core(1) [OF ok m]
  obtain ob where ob: "pr_cores (cl_process (ws_client s)) = [a \<mapsto> ob]" "mu_ref_count ob = 1" "owns (cl_process (ws_client s)) 0"
    using cleared_core(3) [OF ok m a] by blast
  with main_success(6) a w assms(1) show ?thesis unfolding main_success(2)
    by (auto simp: p8_release_def release_core_def release_def delete_core_def Let_def set_instance_def shm_law_def split: bind_splits)
qed



section \<open>Witnesses\<close>

lemma ex_main_core: "core_create (ex_host kind) (lo_config argv) = core_create (ex_host kind) ex_config"
proof -
  have ic: "init_clock (lo_config argv) = init_clock ex_config" by (simp add: lo_config_def ex_config_def init_clock_def fun_eq_iff)
  have mj: "mp_json_config (lo_config argv) = Some (ls_config (lp_out_dir argv))" "mp_json_config ex_config = Some []"
    by (simp_all add: lo_config_def ex_config_def)
  show ?thesis unfolding core_create_def ic mj by simp
qed

lemma created_running:
  assumes "core_create ou cfg = Some ob" and "get_initialized ob" and "ou_event_init ou"
  shows "mb_worker_running ob" and "mu_inflight (mp_data_pool (ob_core ob)) = 0"
proof -
  have "mb_worker_running ob \<and> mu_inflight (mp_data_pool (ob_core ob)) = 0"
    using assms(1)
  proof (cases rule: core_create_cases)
    case (ready j p v sk sk1)
    from config_pool_start [OF ready(1)] have "pool_start p" by blast
    then show ?thesis using assms(3) by (simp add: ready(5) pool_start_def)
  qed (use assms(2) in \<open>simp_all add: get_initialized_def\<close>)
  then show "mb_worker_running ob" and "mu_inflight (mp_data_pool (ob_core ob)) = 0" by simp_all
qed

lemma ex_main_started:
  obtains cl1 ob f where "main_initialize ex_shm (ex_host ''file.bin'') still ex_stop (Some 1) [] ex_client = Some (True, cl1)"
    and "pr_cores (cl_process cl1) = [1 \<mapsto> ob]" and "cl_made cl1 = (\<lambda>_. [])" and "pr_writer (cl_process cl1) = (\<lambda>_. None)"
    and "core_create (ex_host ''file.bin'') ex_config = Some ob" and "get_initialized ob" and "mp_sink ob = Some (File_sink f)"
proof -
  let ?ou = "ex_host ''file.bin''"
  obtain ob f where c: "core_create ?ou ex_config = Some ob" "get_initialized ob" "mp_sink ob = Some (File_sink f)" by (rule ex_created)
  define p1 where "p1 = put_core 1 (Some ob) (upd_dso 0 (\<lambda>s. s\<lparr>gu_instance_count := gu_instance_count s + 1\<rparr>) (process_new (None :: nat option)))"
  define p2 where "p2 = upd_dso 0 (\<lambda>s. s\<lparr>gp_shm_handle := True, gp_instance := Some 1\<rparr>) (p1\<lparr>pr_shm := Some 1\<rparr>)"
  have "init_begin ex_shm ?ou (Some 1) (Some (lo_config [])) 0 (process_new None) = Some (Init_publish 1, p1)"
    using c by (simp add: init_begin_def p1_def process_new_def ex_shm_def ex_main_core Let_def)
  moreover have "init_publish ex_shm ?ou still ex_stop 1 0 p1 = Some (Init_done True, p2)"
    by (simp add: init_publish_def p2_def p1_def process_new_def ex_shm_def)
  ultimately have "p8_initialize ex_shm ?ou still ex_stop (Some 1) (Some (lo_config [])) 0 (process_new None) = Some (True, p2)"
    by (simp add: p8_initialize_def)
  then have "main_initialize ex_shm ?ou still ex_stop (Some 1) [] ex_client = Some (True, ex_client\<lparr>cl_process := p2\<rparr>)"
    by (simp add: main_initialize_def client_process_def ex_client_def)
  note i = this
  have "pr_cores p2 = [1 \<mapsto> ob]" "pr_writer p2 = (\<lambda>_. None)" by (simp_all add: p2_def p1_def process_new_def)
  moreover have "cl_made ex_client = (\<lambda>_. [])" by (simp add: ex_client_def)
  ultimately show thesis by (intro that [OF i _ _ _ c]) simp_all
qed

text \<open>Workers with nothing to send.\<close>

lemma idle_worker:
  assumes r: "workers_reach xxh sh pub ou src_file 0 cl \<lparr>ws_client = cl, ws_at = at\<rparr>" and m: "cl_made cl = (\<lambda>_. [])"
    and t: "t < lu_thread_count" "at t = W_start"
  shows "workers_reach xxh sh pub ou src_file 0 cl \<lparr>ws_client = cl, ws_at = at(t := W_joined)\<rparr>"
proof -
  have "workers_reach xxh sh pub ou src_file 0 cl \<lparr>ws_client = cl, ws_at = at(t := W_loop 0)\<rparr>"
    using wr_step [OF r ws_start [of "\<lparr>ws_client = cl, ws_at = at\<rparr>" t]] t
    by (simp add: cp8_thread_create_def p8_register_current_thread_def)
  moreover have "thread_exit ou still [] t cl = Some cl"
    using m by (simp add: thread_exit_def end_writers_def fun_upd_idem)
  ultimately show ?thesis
    using wr_step [OF _ ws_exit [of "\<lparr>ws_client = cl, ws_at = at(t := W_loop 0)\<rparr>" t 0 0 ou still "[]" cl]]
    by (simp add: cp8_thread_destroy_def p8_unregister_current_thread_def)
qed

lemma ex_joined:
  assumes m: "cl_made cl = (\<lambda>_. [])"
  obtains s where "workers_reach xxh sh pub ou src_file 0 cl s" and "joined s" and "ws_client s = cl"
proof -
  let ?r = "\<lambda>at. workers_reach xxh sh pub ou src_file 0 cl \<lparr>ws_client = cl, ws_at = at\<rparr>"
  have "?r (\<lambda>_. W_start)" by (rule wr_init)
  from idle_worker [OF this m, of 0] have "?r ((\<lambda>_. W_start)(0 := W_joined))" by simp
  from idle_worker [OF this m, of 1] have "?r ((\<lambda>_. W_start)(0 := W_joined, 1 := W_joined))" by simp
  from idle_worker [OF this m, of 2] have "?r ((\<lambda>_. W_start)(0 := W_joined, 1 := W_joined, 2 := W_joined))" by simp
  from idle_worker [OF this m, of 3] have r: "?r ((\<lambda>_. W_start)(0 := W_joined, 1 := W_joined, 2 := W_joined, 3 := W_joined))" by simp
  moreover have "joined \<lparr>ws_client = cl, ws_at = (\<lambda>_. W_start)(0 := W_joined, 1 := W_joined, 2 := W_joined, 3 := W_joined)\<rparr>"
    by (auto simp: joined_def)
  ultimately show thesis by (rule that) simp
qed



end
