(* ===== verification/Spec2Isabelle.thy ===== *)
theory Spec2Isabelle
  imports P8_Pool_Sys P8_Log P8_Metric P8_Trace P8_Registry P8_Sink P8_Writers P8_Worker P8_Apart P8_Calls P8_Hello P8_Lifecycle
    P8_Journey P8_Process P8_Process_Steps P8_Layout P8_Config P8_Client P8_Scopes P8_Interface
    P8_Program_Calls P8_Example
begin

text \<open>
  A verification library for the telemetry engine under src/engine: threads write logs, metric samples and
  spans into buffers of a bounded pool; one worker thread collects the buffers and gives them, in
  batches, to a sink; registrations become descriptors, which the worker sends as a service stream that
  a reader needs to decode the records.

  \<^bold>\<open>The program and the theories.\<close> Each theory names the file and the functions it models; a definition
  has the name the source gives it, fields and locals too, where Isabelle allows it.

  \<^item> P8_Prelude: machine integers (as words), bytes, little-endian encodings, memory as
    bytes at an offset of an address, \<open>bind_splits\<close> and the lemma collections.
  \<^item> P8_Protocol, P8_Hello (api/p8_protocol.h, \<open>init_header\<close>): every structure that leaves the process as a record with
    an encoder and a decoder. P8_Layout (p8_static_checks.cpp): the same structures as the header declares them, laid out by
    the rules of the ABI, the assertions about them, and that the encoders follow the layout.
  \<^item> P8_Budget, P8_Pool, P8_Wait_Queue, P8_Pool_Sys (p8_memory_budget, p8_buffer_pool): the pool with its free list, its growth
    within a shared budget, and the queue of waiting threads, linked through nodes on their stacks.
    P8_Pool is one definition per critical section; P8_Pool_Sys is the transition system of threads
    that interleave them.
  \<^item> P8_Text, P8_Format (p8_core.cpp, p8_log.cpp): UTF-8 cut, sizes with units, case-insensitive comparison; the parser of
    printf formats.
  \<^item> P8_Core_State, P8_Service, P8_Catalog, P8_Service_Proofs (p8_core.cpp): the core's state; acquiring and releasing of
    buffers; entries of the service stream; descriptors of call sites.
  \<^item> P8_Writer, P8_Record, P8_Stream, P8_Threads, P8_Emit (p8_tls_writer.cpp): a thread's writer; a record that may span
    buffers, attributes, discarding of a record that finds no buffer. The stream of a writer is what its
    buffers hold behind their headers. P8_Threads says what other threads may do while a call waits.
  \<^item> P8_Log, P8_Metric, P8_Trace (p8_log.cpp, p8_mtk.cpp, p8_trc.cpp): the calls that write records.
  \<^item> P8_Registry (p8_core.cpp): attributes, metrics, modules.
  \<^item> P8_Writers (p8_core.cpp): the doubly linked list of the writers, and the walks over it.
  \<^item> P8_Worker (p8_core.cpp): the worker's cycle and loop, over any sink.
  \<^item> P8_Apart, P8_Calls: the calls that write records as steps beside the worker: they leave other threads' buffers
    alone and keep the engine's invariant.
  \<^item> P8_Sink (p8_sink_file.cpp, p8_sink_null.cpp), P8_Delivery: the sinks, and the worker over the file sink.
  \<^item> P8_Setup, P8_Lifecycle (p8_core.cpp): configuration, constructor, worker start and stop, destructor,
    reference count. P8_Journey follows a record from the log call into the file.
  \<^item> P8_Process, P8_Process_Steps (end of p8_core.cpp): the C interface, several shared objects that find one core through
    shared memory, the writers' references to it. P8_Config (p8_config.cpp): the reader of the configuration file.
  \<^item> P8_Client (ends of p8_log.cpp, p8_mtk.cpp, p8_trc.cpp; api/p8_client_api.h): the functions a program calls to log,
    emit and trace, each on the calling thread's writer of its kind, and the macros and guards of the header. P8_Scopes
    is about programs that trace with the guards, P8_Interface about threads and the core they find.
  \<^item> P8_Program, P8_Program_Calls: a program with one shared object as a transition system, whose steps are the
    functions of P8_Process and P8_Client and what a core does by itself. P8_Example (examples/logs_file_sink): the example
    program, four threads that log through one core.

  \<^bold>\<open>How the model stands for the code.\<close> State is passed explicitly. A function of the code is one
  definition from the state before to the result and the state after, or several when it leaves a lock in between. \<open>None\<close> is the
  value of a run that has no defined result: one that does not end, dereferences a null or dangling pointer, or ends in an
  exception. Failures that the code handles are values. What is not in the repository is an argument: the hash
  functions, the JSON parser (\<open>ou_parse\<close>), files (\<open>file_ops\<close>), shared memory (\<open>shm_ops\<close>), clocks, the outcome of each allocation, the event
  of the worker. Laws relied on are named: \<open>write_v_law\<close>, \<open>shm_law\<close>, \<open>bswap_law\<close>. A double is its 64-bit pattern,
  compared as IEEE equality does. Buffers and writers have abstract addresses.

  Operations that may wait take a function (\<open>interference\<close>) that stands for whatever other threads do meanwhile; the
  locale \<open>other_threads\<close> says what such a function must keep, \<open>others_serve\<close> also that a waiter is served at
  last, and both are interpreted on threads that stop the pool; \<open>calm_threads\<close> adds that they leave alone what is not
  theirs. The worker takes one that acts between
  its critical sections; \<open>engine_env\<close> says what it must keep, and the calls of the core's
  interface (\<open>engine_acts\<close>) and the calls that write records (\<open>thread_acts\<close>) are shown to. There a record call
  that would have to wait for a buffer is one that has not been made yet.

  \<^bold>\<open>Interfaces.\<close> Locales state what a client relies on and are interpreted on the model: \<open>wire_codec\<close> on the
  structures of the protocol, \<open>fifo_handoff\<close> on the pool's queue, \<open>name_registry\<close> on attributes, modules and metrics,
  \<open>svc_source\<close> on the two ways an entry finds a buffer, \<open>writer_walk\<close> on the two walks over the
  writers, \<open>sink_iface\<close> on the file and the null sink, \<open>sink_pair\<close> on the file sink beside a recording one,
  \<open>other_threads\<close>, \<open>others_serve\<close>, \<open>calm_threads\<close> and \<open>engine_env\<close> as said.

  \<^bold>\<open>What is shown.\<close> The pool loses and duplicates no buffer, wakes who it serves, and can be
  stopped. A record is in the stream whole or not at all, in the layout its descriptor says, and its
  descriptor was in the service stream before the record could be in a batch. Registries refine a map with merging of equal
  definitions. The list of writers refines a list, and no buffer or drop count is lost when writers come and go.
  A cycle of the worker delivers what waited; batches are numbered and in order of time. The files read back, and a record that was accepted is in them.
  The constructor
  succeeds exactly under conditions that are spelled out; the destructor returns and has written everything.
  One core serves all shared objects as long as only its publisher releases it. Scopes of spans nest as blocks do, whatever
  fails inside. A thread that calls before there is a core is not heard later either. In
  every state that a program with one shared object reaches its calls return, its instance is live, and only
  cores that someone refers to exist. The example program's threads get on and exit, and its release drains and destroys the core. Reading the configuration file
  leaks nothing on any path. The structures pass the assertions about their layout, and the encoders follow it.

  \<^bold>\<open>Bounds and fuel.\<close> Counters keep their width and wrap. Buffers have the 8192 bytes the code gives them; attribute and
  module counts are bounded where an identifier would repeat. No definition has fuel: loops that may
  not end are partial functions, and where a claim is that they end, it is proved. The
  worker's loop consumes a list of what the outside does in each cycle, so it ends with the stop signal or has no result.

  \<^bold>\<open>Not modelled.\<close> Memory order and data races inside a critical section: each is atomic. Builds other than the production build on
  Linux x86-64: P8_TESTING helpers, the Windows branches, 32-bit targets (but for the layout of structures). The profiler
  macros. The logging macros of the client header, whose arguments are not those of the function they call.
  xxHash, the JSON library and kit (git submodules and third-party code). Messages to stderr. The benchmarks, tests and scripts.
\<close>

end
